(* ===== verification/Prelude.thy ===== *)
theory Prelude
  imports
    Main
    "HOL-Library.Word"
    "HOL-Library.Monad_Syntax"
    "HOL-Library.Sublist"
begin

text \<open>
  Shared vocabulary of the development: the machine integers of the kernel (a riscv64 target, so
  \<open>usize\<close> is a 64-bit word; the Makefile builds in release mode, so arithmetic wraps), the error
  type of \<^verbatim>\<open>kernel/src/error.rs\<close>, the three outcomes a Rust call can have, and the generic lemmas
  on lists and words that the component theories use.

  Outcomes. A call that may panic returns an \<open>option\<close>, with \<open>None\<close> for the panic; a call that
  returns an \<^verbatim>\<open>OSResult<T>\<close> returns a sum with \<open>Inl\<close> for \<^verbatim>\<open>Err\<close> and \<open>Inr\<close> for \<^verbatim>\<open>Ok\<close>. State that the
  code mutates is passed and returned explicitly.
\<close>

unbundle bit_operations_syntax

named_theorems os_simps \<open>unfolding rules for the outcome combinators\<close>
named_theorems word_conv \<open>rules that carry word arithmetic to natural numbers\<close>

type_synonym u8 = "8 word"
type_synonym u16 = "16 word"
type_synonym u32 = "32 word"
type_synonym u64 = "64 word"
type_synonym usize = "64 word"
type_synonym byte = "8 word"

subsection \<open>Errors (error.rs)\<close>

datatype os_error =
    OSError_Ok
  | PageTable_FlagUpdateError
  | PageTable_VirtNotFound
  | PageTable_FrameAllocFailed
  | PageTable_PageAlreadyMapped
  | PageTable_UnknownErrorWhenMap
  | PageTable_PageNotMapped
  | PageTable_UnknownErrorWhenUnmap
  | PageTable_RawAccessToPageTable
  | VmArea_InvalidRange
  | VmArea_VmSizeNotEqualToPmSize
  | VmArea_InvalidUnmap
  | PageFaultHandler_AccessDenied
  | PageFaultHandler_TrapAtValidPage
  | PageFaultHandler_Unhandled
  | PmArea_OutOfRange
  | PmArea_InvalidRange
  | PmArea_ShrinkFailed
  | PmArea_SplitFailed
  | PmAreaLazy_ReleaseNotAllocatedPage
  | Memory_RunOutOfMemory
  | Memory_RunOutOfConsecutiveMemory
  | MemorySet_UserMmapIntersectWithKernel
  | MemorySet_InvalidRange
  | MemorySet_UnmapAreaNotFound
  | MemorySet_AreaNotMapped
  | Task_MmapLengthDisagree
  | MemorySet_PartialUnmap
  | Loader_ParseElfFailed
  | Loader_InvalidSegment
  | Loader_InvalidSection
  | Loader_AppNotFound
  | Loader_CanNotParseInterpreter
  | Loader_PhdrNotFound
  | Loader_Skipped
  | Task_NoTrapHandler
  | Task_RunOutOfMemory
  | CpuLocal_SwitchedFromEmptyTask
  | FdManager_NoAvailableFd
  | FdManager_FdNotFound

type_synonym 'a os_result = "os_error + 'a"

abbreviation Err :: "os_error \<Rightarrow> 'a os_result" where "Err \<equiv> Inl"
abbreviation Ok :: "'a \<Rightarrow> 'a os_result" where "Ok \<equiv> Inr"

subsection \<open>Combining outcomes\<close>

text \<open>\<open>try_os m k\<close> is \<^verbatim>\<open>m?\<close> followed by \<open>k\<close>, for a call that threads a state and may panic.\<close>

definition try_os ::
  "('a os_result \<times> 'w) option \<Rightarrow> ('a \<Rightarrow> 'w \<Rightarrow> ('b os_result \<times> 'w) option) \<Rightarrow> ('b os_result \<times> 'w) option"
where
  "try_os m k =
     (case m of None \<Rightarrow> None
      | Some (r, w) \<Rightarrow> (case r of Inl e \<Rightarrow> Some (Err e, w) | Inr a \<Rightarrow> k a w))"

text \<open>\<open>unwrap_os m\<close> is \<^verbatim>\<open>m.unwrap()\<close>: an error becomes a panic.\<close>

definition unwrap_os :: "('a os_result \<times> 'w) option \<Rightarrow> ('a \<times> 'w) option" where
  "unwrap_os m =
     (case m of None \<Rightarrow> None
      | Some (r, w) \<Rightarrow> (case r of Inl e \<Rightarrow> None | Inr a \<Rightarrow> Some (a, w)))"

lemma try_os_simps [simp, os_simps]:
  "try_os None k = None"
  "try_os (Some (Err e, w)) k = Some (Err e, w)"
  "try_os (Some (Ok a, w)) k = k a w"
  by (simp_all add: try_os_def)

lemma unwrap_os_simps [simp, os_simps]:
  "unwrap_os None = None"
  "unwrap_os (Some (Err e, w)) = None"
  "unwrap_os (Some (Ok a, w)) = Some (a, w)"
  by (simp_all add: unwrap_os_def)

lemma unwrap_os_Some: "unwrap_os m = Some (a, w) \<longleftrightarrow> m = Some (Ok a, w)"
  by (auto simp: unwrap_os_def split: option.splits sum.splits)

lemma try_os_Ok_iff:
  "try_os m k = Some (Ok b, w') \<longleftrightarrow> (\<exists>a w. m = Some (Ok a, w) \<and> k a w = Some (Ok b, w'))"
  by (auto simp: try_os_def split: option.splits sum.splits)

subsection \<open>Words\<close>

lemma unat_add_small [word_conv]:
  "unat a + unat b < 2 ^ LENGTH('l) \<Longrightarrow> unat (a + b) = unat a + unat b" for a b :: "'l::len word"
  by (simp add: unat_word_ariths)

lemma unat_sub_le [word_conv]: "b \<le> a \<Longrightarrow> unat (a - b) = unat a - unat b" for a b :: "'l::len word"
  by (rule unat_sub)

lemma word_le_unat [word_conv]: "a \<le> b \<longleftrightarrow> unat a \<le> unat b" for a b :: "'l::len word"
  by (rule word_le_nat_alt)

lemma word_less_unat [word_conv]: "a < b \<longleftrightarrow> unat a < unat b" for a b :: "'l::len word"
  by (rule word_less_nat_alt)

lemma unat64_less [simp]: "unat (a :: usize) < 18446744073709551616"
  using unsigned_less [of a] by simp

end
