(* ===== verification/BTree.thy ===== *)
theory BTree
  imports Prelude
begin

text \<open>
  The part of \<^verbatim>\<open>alloc::collections::BTreeMap\<close> that the kernel uses, as an association list kept
  strictly sorted by key. The order matters: \<^verbatim>\<open>iter\<close>, \<^verbatim>\<open>range(..=k).last()\<close> and \<^verbatim>\<open>drain_filter\<close> walk the
  entries in ascending key order.
\<close>

type_synonym ('k, 'v) btree = "('k \<times> 'v) list"

abbreviation bt_sorted :: "('k::linorder, 'v) btree \<Rightarrow> bool" where
  "bt_sorted m \<equiv> sorted_wrt (<) (map fst m)"

fun bt_insert :: "'k::linorder \<Rightarrow> 'v \<Rightarrow> ('k, 'v) btree \<Rightarrow> ('k, 'v) btree" where
  "bt_insert k v [] = [(k, v)]"
| "bt_insert k v (e # m) =
     (if k < fst e then (k, v) # e # m
      else if k = fst e then (k, v) # m
      else e # bt_insert k v m)"

definition bt_remove :: "'k \<Rightarrow> ('k, 'v) btree \<Rightarrow> ('k, 'v) btree" where
  "bt_remove k m = filter (\<lambda>e. fst e \<noteq> k) m"

text \<open>\<^verbatim>\<open>range(..=k).last()\<close>: the entry with the greatest key not above \<open>k\<close>.\<close>

definition bt_last_le :: "'k::linorder \<Rightarrow> ('k, 'v) btree \<Rightarrow> ('k \<times> 'v) option" where
  "bt_last_le k m = (case filter (\<lambda>e. fst e \<le> k) m of [] \<Rightarrow> None | es \<Rightarrow> Some (last es))"

text \<open>\<^verbatim>\<open>drain_filter(p)\<close>: the entries taken out, and the map that stays.\<close>

definition bt_drain_filter ::
  "('k \<times> 'v \<Rightarrow> bool) \<Rightarrow> ('k, 'v) btree \<Rightarrow> ('k, 'v) btree \<times> ('k, 'v) btree" where
  "bt_drain_filter p m = (filter p m, filter (\<lambda>e. \<not> p e) m)"

lemma set_bt_insert:
  "bt_sorted m \<Longrightarrow> set (bt_insert k v m) = insert (k, v) {e \<in> set m. fst e \<noteq> k}"
  by (induction m) auto

lemma bt_sorted_insert: "bt_sorted m \<Longrightarrow> bt_sorted (bt_insert k v m)"
  by (induction m) (auto simp: set_bt_insert)

lemma map_of_bt_insert: "bt_sorted m \<Longrightarrow> map_of (bt_insert k v m) = (map_of m)(k \<mapsto> v)"
proof (induction m)
  case (Cons e m)
  then show ?case by (cases e) (auto simp: fun_eq_iff)
qed simp

lemma map_of_bt_remove: "map_of (bt_remove k m) = (map_of m)(k := None)"
  by (induction m) (auto simp: bt_remove_def fun_eq_iff)

lemma bt_sorted_filter: "bt_sorted m \<Longrightarrow> bt_sorted (filter p m)"
  by (induction m) auto

lemma bt_last_le_None: "bt_last_le k m = None \<longleftrightarrow> (\<forall>e \<in> set m. k < fst e)"
proof -
  have "bt_last_le k m = None \<longleftrightarrow> filter (\<lambda>e. fst e \<le> k) m = []"
    by (simp add: bt_last_le_def split: list.splits)
  then show ?thesis by (auto simp: filter_empty_conv not_le)
qed

lemma bt_last_le_Some:
  assumes "bt_last_le k m = Some e"
  shows "e \<in> set m" and "fst e \<le> k" and "bt_sorted m \<Longrightarrow> \<forall>e' \<in> set m. fst e' \<le> k \<longrightarrow> fst e' \<le> fst e"
proof -
  define es where "es = filter (\<lambda>e. fst e \<le> k) m"
  with assms have ne: "es \<noteq> []" and e: "e = last es"
    by (auto simp: bt_last_le_def split: list.splits)
  then have "e \<in> set es" by simp
  then show "e \<in> set m" and "fst e \<le> k" by (auto simp: es_def)
  show "\<forall>e' \<in> set m. fst e' \<le> k \<longrightarrow> fst e' \<le> fst e" if "bt_sorted m"
  proof (intro ballI impI)
    fix e' assume "e' \<in> set m" "fst e' \<le> k"
    then have "e' \<in> set es" by (simp add: es_def)
    moreover have "bt_sorted es" using that by (simp add: es_def bt_sorted_filter)
    ultimately show "fst e' \<le> fst e"
      using ne unfolding e by (induction es) (auto simp: less_imp_le)
  qed
qed

end
