(* ===== verification/Range_Map.thy ===== *)
theory Range_Map
  imports BTree
begin

text \<open>
  The interval map of \<^verbatim>\<open>modules/range-action-map\<close>: disjoint half-open intervals \<open>[start, end)\<close>, each
  carrying a segment supplied by the client through \<^verbatim>\<open>trait Segment\<close>.

  \<^item> \<open>segment_ops\<close> are the three required methods of the trait; the provided methods
    (\<^verbatim>\<open>shrink_to_left\<close>, \<dots>, \<^verbatim>\<open>modify_middle\<close>) are defined from them as in \<^verbatim>\<open>segment.rs\<close>. A method mutates
    \<^verbatim>\<open>self\<close> and, through \<^verbatim>\<open>args\<close>, a state of the client (\<open>'w\<close>; for the kernel the page table and the
    frames), and may panic.
  \<^item> \<open>range_area\<close>, \<open>diff_set\<close>, \<open>cut_set\<close> are \<^verbatim>\<open>range_area.rs\<close> and \<^verbatim>\<open>set.rs\<close>.
  \<^item> \<open>range_action_map\<close> and its operations are \<^verbatim>\<open>lib.rs\<close>.

  Locale \<open>segment\<close> states what an implementation of the trait promises about the attribute it stores
  at each point of its interval. Inside it, the map is shown to refine a partial function from
  points to attributes: \<open>unmap\<close> removes a range from it, \<open>mprotect\<close> updates it on a range,
  \<open>mmap_fixed\<close> overwrites a range, \<open>find\<close> reads it. The predicate \<open>cutpos\<close> says at which positions the segments can be
  split (the kernel's only at page boundaries).
\<close>

subsection \<open>defs.rs and trait Segment\<close>

definition LOWER_LIMIT :: usize where "LOWER_LIMIT = 0x1000"
definition UPPER_LIMIT :: usize where "UPPER_LIMIT = 0xffffffffffffffff"

record ('seg, 'w) segment_ops =
  seg_remove :: "'seg \<Rightarrow> usize \<Rightarrow> 'w \<Rightarrow> ('seg \<times> 'w) option"
  seg_split :: "'seg \<Rightarrow> usize \<Rightarrow> usize \<Rightarrow> 'w \<Rightarrow> ('seg \<times> 'seg \<times> 'w) option"
  seg_modify :: "'seg \<Rightarrow> usize \<Rightarrow> usize \<Rightarrow> 'w \<Rightarrow> ('seg \<times> 'w) option"

text \<open>\<^verbatim>\<open>split\<close> returns the new \<^verbatim>\<open>self\<close> (the left half) first, then the right half.\<close>

definition shrink_to_left ::
  "('seg, 'w) segment_ops \<Rightarrow> 'seg \<Rightarrow> usize \<Rightarrow> usize \<Rightarrow> 'w \<Rightarrow> ('seg \<times> 'w) option" where
  "shrink_to_left ops self pos args w = do {
     (self, right, w) \<leftarrow> seg_split ops self pos args w;
     (_, w) \<leftarrow> seg_remove ops right args w;
     Some (self, w)
   }"

definition shrink_to_right ::
  "('seg, 'w) segment_ops \<Rightarrow> 'seg \<Rightarrow> usize \<Rightarrow> usize \<Rightarrow> 'w \<Rightarrow> ('seg \<times> 'w) option" where
  "shrink_to_right ops self pos args w = do {
     (self, right, w) \<leftarrow> seg_split ops self pos args w;
     (_, w) \<leftarrow> seg_remove ops self args w;
     Some (right, w)
   }"

definition split_and_remove_middle ::
  "('seg, 'w) segment_ops \<Rightarrow> 'seg \<Rightarrow> usize \<Rightarrow> usize \<Rightarrow> usize \<Rightarrow> 'w \<Rightarrow> ('seg \<times> 'seg \<times> 'w) option" where
  "split_and_remove_middle ops self pos_left pos_right args w = do {
     (self, right, w) \<leftarrow> seg_split ops self pos_right args w;
     (self, middle, w) \<leftarrow> seg_split ops self pos_left args w;
     (_, w) \<leftarrow> seg_remove ops middle args w;
     Some (self, right, w)
   }"

definition modify_left ::
  "('seg, 'w) segment_ops \<Rightarrow> 'seg \<Rightarrow> usize \<Rightarrow> usize \<Rightarrow> usize \<Rightarrow> 'w \<Rightarrow> ('seg \<times> 'seg \<times> 'w) option" where
  "modify_left ops self pos new_flag args w = do {
     (self, right, w) \<leftarrow> seg_split ops self pos args w;
     (self, w) \<leftarrow> seg_modify ops self new_flag args w;
     Some (self, right, w)
   }"

definition modify_right ::
  "('seg, 'w) segment_ops \<Rightarrow> 'seg \<Rightarrow> usize \<Rightarrow> usize \<Rightarrow> usize \<Rightarrow> 'w \<Rightarrow> ('seg \<times> 'seg \<times> 'w) option" where
  "modify_right ops self pos new_flag args w = do {
     (self, right, w) \<leftarrow> seg_split ops self pos args w;
     (right, w) \<leftarrow> seg_modify ops right new_flag args w;
     Some (self, right, w)
   }"

definition modify_middle ::
  "('seg, 'w) segment_ops \<Rightarrow> 'seg \<Rightarrow> usize \<Rightarrow> usize \<Rightarrow> usize \<Rightarrow> usize \<Rightarrow> 'w \<Rightarrow>
     ('seg \<times> 'seg \<times> 'seg \<times> 'w) option" where
  "modify_middle ops self pos_left pos_right new_flag args w = do {
     (self, right, w) \<leftarrow> seg_split ops self pos_right args w;
     (self, middle, w) \<leftarrow> seg_split ops self pos_left args w;
     (middle, w) \<leftarrow> seg_modify ops middle new_flag args w;
     Some (self, middle, right, w)
   }"

lemma UPPER_LIMIT_max [simp]: "x \<le> UPPER_LIMIT"
proof -
  have "unat x \<le> 18446744073709551615" using unat64_less [of x] by linarith
  then show ?thesis by (simp add: UPPER_LIMIT_def word_le_nat_alt)
qed

subsection \<open>range\_area.rs and set.rs\<close>

record 'seg range_area =
  ra_start :: usize
  ra_end :: usize
  ra_segment :: 'seg

datatype 'seg diff_set =
    DiffUnchanged
  | Removed
  | Shrinked
  | Splitted "'seg range_area"

datatype 'seg cut_set =
    CutUnchanged
  | WholeModified
  | ModifiedLeft "'seg range_area"
  | ModifiedRight "'seg range_area"
  | ModifiedMiddle "'seg range_area" "'seg range_area"

definition ra_contains :: "'seg range_area \<Rightarrow> usize \<Rightarrow> bool" where
  "ra_contains a pos \<longleftrightarrow> ra_start a \<le> pos \<and> pos < ra_end a"

definition ra_is_overlap_with :: "'seg range_area \<Rightarrow> usize \<Rightarrow> usize \<Rightarrow> bool" where
  "ra_is_overlap_with a start end \<longleftrightarrow> \<not> (ra_end a \<le> start \<or> ra_start a \<ge> end)"

text \<open>Both functions return the mutated area first; the \<^verbatim>\<open>assert!\<close> of the last branch is the
  \<open>None\<close> of its test.\<close>

definition shrink_or_split_if_overlap ::
  "('seg, 'w) segment_ops \<Rightarrow> 'seg range_area \<Rightarrow> usize \<Rightarrow> usize \<Rightarrow> usize \<Rightarrow> 'w \<Rightarrow>
     ('seg range_area \<times> 'seg diff_set \<times> 'w) option" where
  "shrink_or_split_if_overlap ops self start end args w =
     (if end \<le> ra_start self \<or> ra_end self \<le> start then
        Some (self, DiffUnchanged, w)
      else if start \<le> ra_start self \<and> ra_end self \<le> end then do {
        (seg, w) \<leftarrow> seg_remove ops (ra_segment self) args w;
        Some (self\<lparr>ra_segment := seg\<rparr>, Removed, w)
      }
      else if ra_start self < start \<and> end < ra_end self then do {
        let old_end = ra_end self;
        (seg, right, w) \<leftarrow> split_and_remove_middle ops (ra_segment self) start end args w;
        Some (self\<lparr>ra_end := start, ra_segment := seg\<rparr>,
              Splitted \<lparr>ra_start = end, ra_end = old_end, ra_segment = right\<rparr>, w)
      }
      else if end < ra_end self then do {
        (seg, w) \<leftarrow> shrink_to_right ops (ra_segment self) end args w;
        Some (self\<lparr>ra_start := end, ra_segment := seg\<rparr>, Shrinked, w)
      }
      else if ra_start self < start then do {
        (seg, w) \<leftarrow> shrink_to_left ops (ra_segment self) start args w;
        Some (self\<lparr>ra_end := start, ra_segment := seg\<rparr>, Shrinked, w)
      }
      else None)"

definition split_and_modify_if_overlap ::
  "('seg, 'w) segment_ops \<Rightarrow> 'seg range_area \<Rightarrow> usize \<Rightarrow> usize \<Rightarrow> usize \<Rightarrow> usize \<Rightarrow> 'w \<Rightarrow>
     ('seg range_area \<times> 'seg cut_set \<times> 'w) option" where
  "split_and_modify_if_overlap ops self start end new_flag args w =
     (if end \<le> ra_start self \<or> ra_end self \<le> start then
        Some (self, CutUnchanged, w)
      else if start \<le> ra_start self \<and> ra_end self \<le> end then do {
        (seg, w) \<leftarrow> seg_modify ops (ra_segment self) new_flag args w;
        Some (self\<lparr>ra_segment := seg\<rparr>, WholeModified, w)
      }
      else if ra_start self < start \<and> end < ra_end self then do {
        let old_end = ra_end self;
        (seg, middle, right, w) \<leftarrow> modify_middle ops (ra_segment self) start end new_flag args w;
        Some (self\<lparr>ra_end := start, ra_segment := seg\<rparr>,
              ModifiedMiddle \<lparr>ra_start = start, ra_end = end, ra_segment = middle\<rparr>
                             \<lparr>ra_start = end, ra_end = old_end, ra_segment = right\<rparr>, w)
      }
      else if end < ra_end self then do {
        let old_end = ra_end self;
        (seg, right, w) \<leftarrow> modify_left ops (ra_segment self) end new_flag args w;
        Some (self\<lparr>ra_end := end, ra_segment := seg\<rparr>,
              ModifiedLeft \<lparr>ra_start = end, ra_end = old_end, ra_segment = right\<rparr>, w)
      }
      else if ra_start self < start then do {
        let old_end = ra_end self;
        (seg, right, w) \<leftarrow> modify_right ops (ra_segment self) start new_flag args w;
        Some (self\<lparr>ra_end := start, ra_segment := seg\<rparr>,
              ModifiedRight \<lparr>ra_start = start, ra_end = old_end, ra_segment = right\<rparr>, w)
      }
      else None)"

subsection \<open>lib.rs: RangeActionMap\<close>

record 'seg range_action_map =
  segments :: "(usize, 'seg range_area) btree"
  ram_args :: usize

definition ram_new :: "usize \<Rightarrow> 'seg range_action_map" where
  "ram_new args = \<lparr>segments = [], ram_args = args\<rparr>"

definition insert_raw ::
  "'seg range_action_map \<Rightarrow> usize \<Rightarrow> usize \<Rightarrow> 'seg \<Rightarrow> 'seg range_action_map" where
  "insert_raw m start end seg =
     m\<lparr>segments := bt_insert start \<lparr>ra_start = start, ra_end = end, ra_segment = seg\<rparr> (segments m)\<rparr>"

definition ram_find :: "'seg range_action_map \<Rightarrow> usize \<Rightarrow> 'seg option" where
  "ram_find m pos =
     (case bt_last_le pos (segments m) of
        Some (_, area) \<Rightarrow> if ra_contains area pos then Some (ra_segment area) else None
      | None \<Rightarrow> None)"

definition ram_iter :: "'seg range_action_map \<Rightarrow> 'seg list" where
  "ram_iter m = map (\<lambda>(_, area). ra_segment area) (segments m)"

fun find_free_loop :: "(usize, 'seg range_area) btree \<Rightarrow> usize \<Rightarrow> usize \<Rightarrow> usize option" where
  "find_free_loop [] last_seg_end len =
     (if last_seg_end + len \<le> UPPER_LIMIT then Some last_seg_end else None)"
| "find_free_loop ((start, seg) # rest) last_seg_end len =
     (if last_seg_end + len \<le> start then Some last_seg_end
      else find_free_loop rest (max last_seg_end (ra_end seg)) len)"

definition find_free_area :: "'seg range_action_map \<Rightarrow> usize \<Rightarrow> usize \<Rightarrow> usize option" where
  "find_free_area m hint len = find_free_loop (segments m) (max hint LOWER_LIMIT) len"

text \<open>The loop bodies of \<^verbatim>\<open>unmap\<close> and \<^verbatim>\<open>mprotect\<close> over the areas taken out of the map.\<close>

fun unmap_loop ::
  "('seg, 'w) segment_ops \<Rightarrow> 'seg range_area list \<Rightarrow> usize \<Rightarrow> usize \<Rightarrow>
     'seg range_action_map \<Rightarrow> 'w \<Rightarrow> ('seg range_action_map \<times> 'w) option" where
  "unmap_loop ops [] start end m w = Some (m, w)"
| "unmap_loop ops (area # areas) start end m w = do {
     (area, d, w) \<leftarrow> shrink_or_split_if_overlap ops area start end (ram_args m) w;
     let m = (case d of
         Shrinked \<Rightarrow> m\<lparr>segments := bt_insert (ra_start area) area (segments m)\<rparr>
       | Splitted right \<Rightarrow>
           m\<lparr>segments := bt_insert (ra_start right) right (bt_insert (ra_start area) area (segments m))\<rparr>
       | _ \<Rightarrow> m);
     unmap_loop ops areas start end m w
   }"

definition ram_unmap ::
  "('seg, 'w) segment_ops \<Rightarrow> 'seg range_action_map \<Rightarrow> usize \<Rightarrow> usize \<Rightarrow> 'w \<Rightarrow>
     ('seg range_action_map \<times> 'w) option" where
  "ram_unmap ops m start end w =
     (let (drained, kept) = bt_drain_filter (\<lambda>(_, area). ra_is_overlap_with area start end) (segments m)
      in unmap_loop ops (map snd drained) start end (m\<lparr>segments := kept\<rparr>) w)"

fun mprotect_loop ::
  "('seg, 'w) segment_ops \<Rightarrow> 'seg range_area list \<Rightarrow> usize \<Rightarrow> usize \<Rightarrow> usize \<Rightarrow>
     'seg range_action_map \<Rightarrow> 'w \<Rightarrow> ('seg range_action_map \<times> 'w) option" where
  "mprotect_loop ops [] start end new_flags m w = Some (m, w)"
| "mprotect_loop ops (area # areas) start end new_flags m w = do {
     (area, c, w) \<leftarrow> split_and_modify_if_overlap ops area start end new_flags (ram_args m) w;
     let m = (case c of
         WholeModified \<Rightarrow> m\<lparr>segments := bt_insert (ra_start area) area (segments m)\<rparr>
       | ModifiedLeft right \<Rightarrow>
           m\<lparr>segments := bt_insert (ra_start right) right (bt_insert (ra_start area) area (segments m))\<rparr>
       | ModifiedRight right \<Rightarrow>
           m\<lparr>segments := bt_insert (ra_start right) right (bt_insert (ra_start area) area (segments m))\<rparr>
       | ModifiedMiddle mid right \<Rightarrow>
           m\<lparr>segments := bt_insert (ra_start right) right
              (bt_insert (ra_start mid) mid (bt_insert (ra_start area) area (segments m)))\<rparr>
       | CutUnchanged \<Rightarrow> m);
     mprotect_loop ops areas start end new_flags m w
   }"

definition ram_mprotect ::
  "('seg, 'w) segment_ops \<Rightarrow> 'seg range_action_map \<Rightarrow> usize \<Rightarrow> usize \<Rightarrow> usize \<Rightarrow> 'w \<Rightarrow>
     ('seg range_action_map \<times> 'w) option" where
  "ram_mprotect ops m start end new_flags w =
     (let (drained, kept) = bt_drain_filter (\<lambda>(_, area). ra_is_overlap_with area start end) (segments m)
      in mprotect_loop ops (map snd drained) start end new_flags (m\<lparr>segments := kept\<rparr>) w)"

text \<open>The closure \<open>f\<close> builds the segment from the start address; it may change the client's state and
  may panic. It runs only when a place is found.\<close>

definition mmap_anywhere ::
  "'seg range_action_map \<Rightarrow> usize \<Rightarrow> usize \<Rightarrow> (usize \<Rightarrow> 'w \<Rightarrow> ('seg \<times> 'w) option) \<Rightarrow> 'w \<Rightarrow>
     (usize option \<times> 'seg range_action_map \<times> 'w) option" where
  "mmap_anywhere m hint len f w =
     (case find_free_area m hint len of
        Some start \<Rightarrow> do {
          (seg, w) \<leftarrow> f start w;
          Some (Some start, insert_raw m start (start + len) seg, w)
        }
      | None \<Rightarrow> Some (None, m, w))"

definition mmap_fixed ::
  "('seg, 'w) segment_ops \<Rightarrow> 'seg range_action_map \<Rightarrow> usize \<Rightarrow> usize \<Rightarrow>
     ('w \<Rightarrow> ('seg \<times> 'w) option) \<Rightarrow> 'w \<Rightarrow> (usize option \<times> 'seg range_action_map \<times> 'w) option" where
  "mmap_fixed ops m start end f w =
     (if start < LOWER_LIMIT \<or> end > UPPER_LIMIT then Some (None, m, w)
      else do {
        (m, w) \<leftarrow> ram_unmap ops m start end w;
        (seg, w) \<leftarrow> f w;
        Some (Some start, insert_raw m start end seg, w)
      })"

subsection \<open>Well-formed maps and the partial function they stand for\<close>

abbreviation area_before :: "'seg range_area \<Rightarrow> 'seg range_area \<Rightarrow> bool" where
  "area_before a b \<equiv> ra_end a \<le> ra_start b"

abbreviation areas_disjoint :: "'seg range_area \<Rightarrow> 'seg range_area \<Rightarrow> bool" where
  "areas_disjoint a b \<equiv> area_before a b \<or> area_before b a"

definition areas :: "'seg range_action_map \<Rightarrow> 'seg range_area set" where
  "areas m = snd ` set (segments m)"

text \<open>Entries are keyed by their start, non-empty, and in ascending disjoint order.\<close>

definition ram_wf :: "'seg range_action_map \<Rightarrow> bool" where
  "ram_wf m \<longleftrightarrow>
     (\<forall>(k, a) \<in> set (segments m). k = ra_start a \<and> ra_start a < ra_end a) \<and>
     sorted_wrt (\<lambda>(_, a) (_, b). area_before a b) (segments m)"

definition ram_covers :: "('seg \<Rightarrow> usize \<Rightarrow> usize \<Rightarrow> bool) \<Rightarrow> 'seg range_action_map \<Rightarrow> bool" where
  "ram_covers covers m \<longleftrightarrow>
     (\<forall>(k, a) \<in> set (segments m). covers (ra_segment a) (ra_start a) (ra_end a))"

definition ram_abs :: "('seg \<Rightarrow> usize \<Rightarrow> 'v) \<Rightarrow> 'seg range_action_map \<Rightarrow> usize \<rightharpoonup> 'v" where
  "ram_abs attr m p =
     map_option (\<lambda>(_, a). attr (ra_segment a) p) (List.find (\<lambda>(_, a). ra_contains a p) (segments m))"

text \<open>\<open>hits attr A p v\<close>: some area of \<open>A\<close> holds point \<open>p\<close> with attribute \<open>v\<close>.\<close>

definition hits :: "('seg \<Rightarrow> usize \<Rightarrow> 'v) \<Rightarrow> 'seg range_area set \<Rightarrow> usize \<Rightarrow> 'v \<Rightarrow> bool" where
  "hits attr A p v \<longleftrightarrow> (\<exists>a \<in> A. ra_contains a p \<and> attr (ra_segment a) p = v)"

lemma hits_simps [simp]:
  "\<not> hits attr {} p v"
  "hits attr (insert a A) p v \<longleftrightarrow> (ra_contains a p \<and> attr (ra_segment a) p = v) \<or> hits attr A p v"
  "hits attr (A \<union> B) p v \<longleftrightarrow> hits attr A p v \<or> hits attr B p v"
  by (auto simp: hits_def)

lemma ram_wf_new: "ram_wf (ram_new args)"
  by (simp add: ram_wf_def ram_new_def)

lemma ram_wf_area: "ram_wf m \<Longrightarrow> a \<in> areas m \<Longrightarrow> ra_start a < ra_end a"
  by (auto simp: ram_wf_def areas_def)

lemma ram_wf_entry: "ram_wf m \<Longrightarrow> e \<in> set (segments m) \<Longrightarrow> fst e = ra_start (snd e)"
  by (auto simp: ram_wf_def)

lemma sorted_wrt_cases:
  "sorted_wrt R xs \<Longrightarrow> x \<in> set xs \<Longrightarrow> y \<in> set xs \<Longrightarrow> x = y \<or> R x y \<or> R y x"
  by (induction xs) auto

lemma ram_wf_disjoint:
  assumes "ram_wf m" "a \<in> areas m" "b \<in> areas m"
  shows "a = b \<or> areas_disjoint a b"
  using assms sorted_wrt_cases [of "\<lambda>(_, a) (_, b). area_before a b" "segments m"]
  by (fastforce simp: ram_wf_def areas_def)

lemma ram_wf_bt_sorted:
  assumes "ram_wf m" shows "bt_sorted (segments m)"
proof -
  have key: "fst e = ra_start (snd e) \<and> ra_start (snd e) < ra_end (snd e)"
    if "e \<in> set (segments m)" for e
    using assms that by (auto simp: ram_wf_def)
  have "sorted_wrt (\<lambda>x y. area_before (snd x) (snd y)) (segments m)"
    using assms by (simp add: ram_wf_def case_prod_unfold)
  then have "sorted_wrt (\<lambda>x y. fst x < fst y) (segments m)"
  proof (rule sorted_wrt_mono_rel [rotated])
    fix x y assume "x \<in> set (segments m)" "y \<in> set (segments m)" "area_before (snd x) (snd y)"
    then show "fst x < fst y" using key [of x] key [of y] by (auto simp: word_conv)
  qed
  then show ?thesis by (simp add: sorted_wrt_map)
qed

lemma ram_wf_unique_hit:
  assumes "ram_wf m" "a \<in> areas m" "b \<in> areas m" "ra_contains a p" "ra_contains b p"
  shows "a = b"
  using ram_wf_disjoint [OF assms(1-3)] assms(4,5) by (auto simp: ra_contains_def)

lemma ram_abs_Some:
  assumes wf: "ram_wf m"
  shows "ram_abs attr m p = Some v \<longleftrightarrow> hits attr (areas m) p v"
proof (cases "List.find (\<lambda>(_, a). ra_contains a p) (segments m)")
  case None
  then have "\<not> hits attr (areas m) p v"
    by (auto simp: hits_def areas_def find_None_iff)
  with None show ?thesis by (simp add: ram_abs_def)
next
  case (Some e)
  define a where "a = snd e"
  have "e \<in> set (segments m)" and c: "ra_contains a p"
    using Some by (auto simp: find_Some_iff a_def case_prod_unfold)
  then have in_m: "a \<in> areas m" by (simp add: areas_def a_def)
  have e: "e = (fst e, a)" by (simp add: a_def)
  have "hits attr (areas m) p v \<longleftrightarrow> v = attr (ra_segment a) p"
    unfolding hits_def using ram_wf_unique_hit [OF wf _ in_m _ c] in_m c by blast
  moreover have "ram_abs attr m p = Some (attr (ra_segment a) p)"
    unfolding ram_abs_def Some by (simp add: a_def case_prod_unfold)
  ultimately show ?thesis by auto
qed

lemma ram_abs_eqI:
  assumes "ram_wf m" and "\<And>p v. hits attr (areas m) p v \<longleftrightarrow> f p = Some v"
  shows "ram_abs attr m = f"
proof
  fix p show "ram_abs attr m p = f p"
    using ram_abs_Some [OF assms(1)] assms(2) by (metis option.exhaust)
qed

lemma ram_find_in:
  assumes wf: "ram_wf m" and a: "a \<in> areas m" and c: "ra_contains a p"
  shows "ram_find m p = Some (ra_segment a)"
proof -
  obtain k where e: "(k, a) \<in> set (segments m)" using a by (auto simp: areas_def)
  have k: "k = ra_start a" using ram_wf_entry [OF wf e] by simp
  have "bt_last_le p (segments m) \<noteq> None"
    using e k c unfolding bt_last_le_None ra_contains_def by (metis fst_conv not_less)
  then obtain k' b where l: "bt_last_le p (segments m) = Some (k', b)" by fastforce
  note l' = bt_last_le_Some [OF l] and srt = ram_wf_bt_sorted [OF wf]
  have b: "b \<in> areas m" using l'(1) by (force simp: areas_def)
  have k': "k' = ra_start b" using ram_wf_entry [OF wf l'(1)] by simp
  have "k \<le> k'" using l'(3) [OF srt] e c k by (auto simp: ra_contains_def)
  moreover have "k' \<le> p" using l'(2) by simp
  ultimately have "a = b"
    using ram_wf_disjoint [OF wf a b] ram_wf_area [OF wf a] ram_wf_area [OF wf b] c
    by (auto simp: ra_contains_def k k')
  with l c show ?thesis by (simp add: ram_find_def)
qed

lemma ram_find_sound:
  assumes "ram_find m p = Some seg"
  shows "\<exists>a \<in> areas m. ra_contains a p \<and> ra_segment a = seg"
proof -
  obtain k a where "bt_last_le p (segments m) = Some (k, a)" "ra_contains a p" "ra_segment a = seg"
    using assms by (auto simp: ram_find_def split: option.splits if_splits)
  then show ?thesis using bt_last_le_Some(1) by (force simp: areas_def)
qed

lemma ram_find_abs:
  assumes "ram_wf m"
  shows "map_option (\<lambda>seg. attr seg p) (ram_find m p) = ram_abs attr m p"
proof (cases "ram_find m p")
  case None
  then have "\<not> hits attr (areas m) p v" for v
    using ram_find_in [OF assms] by (force simp: hits_def)
  then have "ram_abs attr m p = None"
    using ram_abs_Some [OF assms, of attr p] by (cases "ram_abs attr m p") auto
  with None show ?thesis by simp
next
  case (Some seg)
  then have "hits attr (areas m) p (attr seg p)"
    using ram_find_sound by (force simp: hits_def)
  then have "ram_abs attr m p = Some (attr seg p)" by (simp add: ram_abs_Some [OF assms])
  with Some show ?thesis by simp
qed

subsection \<open>Putting areas back into a map\<close>

definition add_area :: "'seg range_area \<Rightarrow> 'seg range_action_map \<Rightarrow> 'seg range_action_map" where
  "add_area a m = m\<lparr>segments := bt_insert (ra_start a) a (segments m)\<rparr>"

abbreviation fits :: "'seg range_area \<Rightarrow> 'seg range_action_map \<Rightarrow> bool" where
  "fits a m \<equiv> ra_start a < ra_end a \<and> (\<forall>b \<in> areas m. areas_disjoint a b)"

lemma bt_insert_area_sorted:
  assumes "sorted_wrt (\<lambda>x y. area_before (snd x) (snd y)) xs"
    and "\<forall>e \<in> set xs. fst e = ra_start (snd e) \<and> ra_start (snd e) < ra_end (snd e) \<and>
           areas_disjoint a (snd e)"
    and "ra_start a < ra_end a"
  shows "sorted_wrt (\<lambda>x y. area_before (snd x) (snd y)) (bt_insert (ra_start a) a xs) \<and>
         set (bt_insert (ra_start a) a xs) = insert (ra_start a, a) (set xs)"
  using assms
proof (induction xs)
  case (Cons e xs)
  define b where "b = snd e"
  have hd: "fst e = ra_start b" "ra_start b < ra_end b" "areas_disjoint a b"
    and bef: "\<forall>x \<in> set xs. area_before b (snd x)"
    using Cons.prems by (auto simp: b_def)
  have IH: "sorted_wrt (\<lambda>x y. area_before (snd x) (snd y)) (bt_insert (ra_start a) a xs) \<and>
         set (bt_insert (ra_start a) a xs) = insert (ra_start a, a) (set xs)"
    using Cons by simp
  show ?case
  proof (cases "ra_start a < ra_start b")
    case True
    then have "area_before a b" using hd by (auto simp: word_conv)
    then have "\<forall>x \<in> set xs. area_before a (snd x)" using bef hd(2) by (meson order.strict_implies_order order.trans)
    with True \<open>area_before a b\<close> show ?thesis using Cons.prems hd by (simp add: b_def)
  next
    case False
    then have "area_before b a" "ra_start a \<noteq> ra_start b" using hd Cons.prems(3) by (auto simp: word_conv)
    with False IH bef show ?thesis using Cons.prems hd by (auto simp: b_def)
  qed
qed simp

lemma add_area_fits:
  assumes "ram_wf m" "fits a m"
  shows "ram_wf (add_area a m)" and "areas (add_area a m) = insert a (areas m)"
proof -
  have "\<forall>e \<in> set (segments m). fst e = ra_start (snd e) \<and> ra_start (snd e) < ra_end (snd e) \<and>
           areas_disjoint a (snd e)"
    using assms by (auto simp: ram_wf_def areas_def)
  moreover have "sorted_wrt (\<lambda>x y. area_before (snd x) (snd y)) (segments m)"
    using assms by (simp add: ram_wf_def case_prod_unfold)
  ultimately have ins: "sorted_wrt (\<lambda>x y. area_before (snd x) (snd y)) (segments (add_area a m))"
      "set (segments (add_area a m)) = insert (ra_start a, a) (set (segments m))"
    using bt_insert_area_sorted assms(2) by (auto simp: add_area_def)
  show "ram_wf (add_area a m)"
    using assms ins by (simp add: ram_wf_def case_prod_unfold)
  show "areas (add_area a m) = insert a (areas m)"
    using ins(2) by (simp add: areas_def)
qed

lemma add_area_args [simp]: "ram_args (add_area a m) = ram_args m"
  by (simp add: add_area_def)

definition add_areas :: "'seg range_area list \<Rightarrow> 'seg range_action_map \<Rightarrow> 'seg range_action_map" where
  "add_areas as m = fold add_area as m"

lemma add_areas_simps [simp]:
  "add_areas [] m = m"
  "add_areas (a # as) m = add_areas as (add_area a m)"
  "ram_args (add_areas as m) = ram_args m"
  by (induction as arbitrary: m) (auto simp: add_areas_def)

text \<open>\<open>pieces_of a ps\<close>: the areas \<open>ps\<close> lie inside \<open>a\<close>, non-empty and in ascending order.\<close>

definition pieces_of :: "'seg range_area \<Rightarrow> 'seg range_area list \<Rightarrow> bool" where
  "pieces_of a ps \<longleftrightarrow>
     sorted_wrt area_before ps \<and>
     (\<forall>p \<in> set ps. ra_start p < ra_end p \<and> ra_start a \<le> ra_start p \<and> ra_end p \<le> ra_end a)"

lemma add_pieces:
  assumes "ram_wf m" "pieces_of a ps" "\<forall>b \<in> areas m. areas_disjoint a b"
  shows "ram_wf (add_areas ps m)" and "areas (add_areas ps m) = areas m \<union> set ps"
proof -
  have "ram_wf (add_areas ps m) \<and> areas (add_areas ps m) = areas m \<union> set ps"
    if "ram_wf m" "sorted_wrt area_before ps" "\<forall>p \<in> set ps. fits p m" for m
    using that
  proof (induction ps arbitrary: m)
    case (Cons p ps)
    then have "fits p m" and ne: "\<forall>q \<in> set ps. ra_start q < ra_end q" by auto
    note add = add_area_fits [OF Cons.prems(1) this(1)]
    have "\<forall>q \<in> set ps. fits q (add_area p m)"
      using Cons.prems by (auto simp: add)
    with Cons.IH [OF add(1)] Cons.prems(2) show ?case by (auto simp: add)
  qed simp
  moreover have "\<forall>p \<in> set ps. fits p m"
    using assms(2,3) unfolding pieces_of_def by (meson order.trans)
  ultimately show "ram_wf (add_areas ps m)" "areas (add_areas ps m) = areas m \<union> set ps"
    using assms(1,2) by (auto simp: pieces_of_def)
qed

subsection \<open>The common shape of the unmap and mprotect loops\<close>

fun diff_pieces :: "'seg range_area \<Rightarrow> 'seg diff_set \<Rightarrow> 'seg range_area list" where
  "diff_pieces a Shrinked = [a]"
| "diff_pieces a (Splitted right) = [a, right]"
| "diff_pieces a _ = []"

fun cut_pieces :: "'seg range_area \<Rightarrow> 'seg cut_set \<Rightarrow> 'seg range_area list" where
  "cut_pieces a CutUnchanged = []"
| "cut_pieces a WholeModified = [a]"
| "cut_pieces a (ModifiedLeft right) = [a, right]"
| "cut_pieces a (ModifiedRight right) = [a, right]"
| "cut_pieces a (ModifiedMiddle mid right) = [a, mid, right]"

type_synonym ('seg, 'w) area_step =
  "'seg range_area \<Rightarrow> usize \<Rightarrow> 'w \<Rightarrow> ('seg range_area list \<times> 'w) option"

fun area_loop ::
  "('seg, 'w) area_step \<Rightarrow> 'seg range_area list \<Rightarrow> 'seg range_action_map \<Rightarrow> 'w \<Rightarrow>
     ('seg range_action_map \<times> 'w) option" where
  "area_loop step [] m w = Some (m, w)"
| "area_loop step (a # as) m w =
     (case step a (ram_args m) w of None \<Rightarrow> None
      | Some (ps, w) \<Rightarrow> area_loop step as (add_areas ps m) w)"

definition unmap_step :: "('seg, 'w) segment_ops \<Rightarrow> usize \<Rightarrow> usize \<Rightarrow> ('seg, 'w) area_step" where
  "unmap_step ops start end a args w =
     map_option (\<lambda>(a, d, w). (diff_pieces a d, w)) (shrink_or_split_if_overlap ops a start end args w)"

definition mprotect_step ::
  "('seg, 'w) segment_ops \<Rightarrow> usize \<Rightarrow> usize \<Rightarrow> usize \<Rightarrow> ('seg, 'w) area_step" where
  "mprotect_step ops start end flags a args w =
     map_option (\<lambda>(a, c, w). (cut_pieces a c, w))
       (split_and_modify_if_overlap ops a start end flags args w)"

lemma unmap_loop_area_loop: "unmap_loop ops as s e m w = area_loop (unmap_step ops s e) as m w"
proof (induction as arbitrary: m w)
  case (Cons a as)
  show ?case
  proof (cases "shrink_or_split_if_overlap ops a s e (ram_args m) w")
    case (Some r)
    obtain a' d w' where r: "r = (a', d, w')" by (cases r)
    then show ?thesis using Some
      by (cases d) (simp_all add: Cons.IH unmap_step_def add_area_def)
  qed (simp add: unmap_step_def)
qed simp

lemma mprotect_loop_area_loop:
  "mprotect_loop ops as s e f m w = area_loop (mprotect_step ops s e f) as m w"
proof (induction as arbitrary: m w)
  case (Cons a as)
  show ?case
  proof (cases "split_and_modify_if_overlap ops a s e f (ram_args m) w")
    case (Some r)
    obtain a' c w' where r: "r = (a', c, w')" by (cases r)
    then show ?thesis using Some
      by (cases c) (simp_all add: Cons.IH mprotect_step_def add_area_def)
  qed (simp add: mprotect_step_def)
qed simp

text \<open>\<open>step_ok covers attr R a ps\<close>: the pieces \<open>ps\<close> of \<open>a\<close> carry at each point an attribute \<open>R\<close>-related
  to the one \<open>a\<close> had there.\<close>

definition step_ok where
  "step_ok covers attr R a ps \<longleftrightarrow>
     pieces_of a ps \<and>
     (\<forall>b \<in> set ps. covers (ra_segment b) (ra_start b) (ra_end b)) \<and>
     (\<forall>p v. hits attr (set ps) p v \<longleftrightarrow> (\<exists>u. hits attr {a} p u \<and> R p u v))"

lemma ram_covers_areas:
  "ram_covers covers m \<longleftrightarrow> (\<forall>a \<in> areas m. covers (ra_segment a) (ra_start a) (ra_end a))"
  by (auto simp: ram_covers_def areas_def)

lemma area_loop_ok:
  assumes "ram_wf m" "ram_covers covers m" "sorted_wrt area_before as"
    and "\<forall>a \<in> set as. \<forall>b \<in> areas m. areas_disjoint a b"
    and step: "\<And>a ps args w w'. a \<in> set as \<Longrightarrow> step a args w = Some (ps, w') \<Longrightarrow> step_ok covers attr R a ps"
    and "area_loop step as m w = Some (m', w')"
  shows "ram_wf m' \<and> ram_covers covers m' \<and> ram_args m' = ram_args m \<and>
    (\<forall>p v. hits attr (areas m') p v \<longleftrightarrow>
       hits attr (areas m) p v \<or> (\<exists>u. hits attr (set as) p u \<and> R p u v))"
  using assms
proof (induction as arbitrary: m w)
  case (Cons a as)
  obtain ps w1 where st: "step a (ram_args m) w = Some (ps, w1)"
      and rest: "area_loop step as (add_areas ps m) w1 = Some (m', w')"
    using Cons.prems(6) by (auto split: option.splits)
  have ok: "step_ok covers attr R a ps" using Cons.prems(5) st by auto
  then have pcs: "pieces_of a ps" by (simp add: step_ok_def)
  have "\<forall>b \<in> areas m. areas_disjoint a b" using Cons.prems(4) by simp
  note add = add_pieces [OF Cons.prems(1) pcs this]
  have cov: "ram_covers covers (add_areas ps m)"
    using Cons.prems(2) ok by (auto simp: ram_covers_areas add step_ok_def)
  have dis: "\<forall>c \<in> set as. \<forall>b \<in> areas (add_areas ps m). areas_disjoint c b"
  proof (intro ballI)
    fix c b assume c: "c \<in> set as" and "b \<in> areas (add_areas ps m)"
    then consider "b \<in> areas m" | "b \<in> set ps" by (auto simp: add)
    then show "areas_disjoint c b"
    proof cases
      case 2
      then have "ra_end b \<le> ra_end a" using pcs by (auto simp: pieces_of_def)
      moreover have "area_before a c" using Cons.prems(3) c by simp
      ultimately show ?thesis by (auto intro: order.trans)
    qed (use c Cons.prems(4) in auto)
  qed
  have "ram_wf m' \<and> ram_covers covers m' \<and> ram_args m' = ram_args (add_areas ps m) \<and>
    (\<forall>p v. hits attr (areas m') p v \<longleftrightarrow>
       hits attr (areas (add_areas ps m)) p v \<or> (\<exists>u. hits attr (set as) p u \<and> R p u v))"
    by (rule Cons.IH [OF add(1) cov _ dis _ rest]) (use Cons.prems(3,5) in auto)
  then show ?case
    using ok unfolding step_ok_def add(2) by auto
qed auto

lemma area_loop_total:
  assumes "\<And>a args w. a \<in> set as \<Longrightarrow> step a args w \<noteq> None"
  shows "area_loop step as m w \<noteq> None"
  using assms by (induction as arbitrary: m w) (auto split: option.splits)

text \<open>Running a step over every area of a well-formed map that overlaps \<open>[s, e)\<close>.\<close>

lemma drain_step_ok:
  assumes wf: "ram_wf m" and cov: "ram_covers covers m"
    and dr: "bt_drain_filter (\<lambda>(_, a). ra_is_overlap_with a s e) (segments m) = (drained, kept)"
    and step: "\<And>a ps args w w'. a \<in> areas m \<Longrightarrow> ra_is_overlap_with a s e \<Longrightarrow>
        step a args w = Some (ps, w') \<Longrightarrow> step_ok covers attr R a ps"
    and loop: "area_loop step (map snd drained) (m\<lparr>segments := kept\<rparr>) w = Some (m', w')"
    and frame: "\<And>p u v. \<not> (s \<le> p \<and> p < e) \<Longrightarrow> R p u v \<longleftrightarrow> v = u"
  shows "ram_wf m' \<and> ram_covers covers m' \<and> ram_args m' = ram_args m \<and>
    (\<forall>p v. hits attr (areas m') p v \<longleftrightarrow> (\<exists>u. hits attr (areas m) p u \<and> R p u v))"
proof -
  let ?ov = "\<lambda>x. ra_is_overlap_with (snd x) s e"
  let ?k = "m\<lparr>segments := kept\<rparr>"
  have d: "drained = filter ?ov (segments m)" and k: "kept = filter (\<lambda>x. \<not> ?ov x) (segments m)"
    using dr by (auto simp: bt_drain_filter_def case_prod_unfold)
  have srt: "sorted_wrt (\<lambda>x y. area_before (snd x) (snd y)) (segments m)"
    using wf by (simp add: ram_wf_def case_prod_unfold)
  have wfk: "ram_wf ?k" and covk: "ram_covers covers ?k"
    using wf cov by (auto simp: ram_wf_def ram_covers_def k intro: sorted_wrt_filter)
  have srtd: "sorted_wrt area_before (map snd drained)"
    unfolding d by (simp add: sorted_wrt_map sorted_wrt_filter [OF srt])
  have ar: "areas ?k = {a \<in> areas m. \<not> ra_is_overlap_with a s e}"
      "set (map snd drained) = {a \<in> areas m. ra_is_overlap_with a s e}"
    by (auto simp: areas_def k d)
  have dis: "\<forall>a \<in> set (map snd drained). \<forall>b \<in> areas ?k. areas_disjoint a b"
    using ram_wf_disjoint [OF wf] unfolding ar by blast
  have "ram_wf m' \<and> ram_covers covers m' \<and> ram_args m' = ram_args ?k \<and>
    (\<forall>p v. hits attr (areas m') p v \<longleftrightarrow> hits attr (areas ?k) p v \<or>
       (\<exists>u. hits attr (set (map snd drained)) p u \<and> R p u v))"
    by (rule area_loop_ok [OF wfk covk srtd dis step loop]) (use ar in auto)
  moreover have "R p u v \<longleftrightarrow> v = u" if "\<not> ra_is_overlap_with a s e" "ra_contains a p"
    for a :: "'a range_area" and p u v
    using that by (intro frame) (auto simp: ra_is_overlap_with_def ra_contains_def)
  ultimately show ?thesis unfolding ar hits_def by fastforce
qed

subsection \<open>The four ways an area can overlap a range\<close>

lemma overlap_cases [consumes 1, case_names whole mid low high]:
  assumes "ra_is_overlap_with a s e"
  obtains "s \<le> ra_start a" "ra_end a \<le> e" | "ra_start a < s" "e < ra_end a" "ra_start a < e" "s < ra_end a"
    | "s \<le> ra_start a" "e < ra_end a" "ra_start a < e" | "ra_start a < s" "ra_end a \<le> e" "s < ra_end a"
  using assms unfolding ra_is_overlap_with_def by (meson not_le)

lemma unmap_step_eqs:
  assumes ov: "ra_is_overlap_with a s e"
  shows "s \<le> ra_start a \<Longrightarrow> ra_end a \<le> e \<Longrightarrow> unmap_step ops s e a args w =
      map_option (\<lambda>(_, w). ([], w)) (seg_remove ops (ra_segment a) args w)"
    and "ra_start a < s \<Longrightarrow> e < ra_end a \<Longrightarrow> unmap_step ops s e a args w =
      map_option (\<lambda>(l, r, w). ([a\<lparr>ra_end := s, ra_segment := l\<rparr>,
          \<lparr>ra_start = e, ra_end = ra_end a, ra_segment = r\<rparr>], w))
        (split_and_remove_middle ops (ra_segment a) s e args w)"
    and "s \<le> ra_start a \<Longrightarrow> e < ra_end a \<Longrightarrow> unmap_step ops s e a args w =
      map_option (\<lambda>(r, w). ([a\<lparr>ra_start := e, ra_segment := r\<rparr>], w))
        (shrink_to_right ops (ra_segment a) e args w)"
    and "ra_start a < s \<Longrightarrow> ra_end a \<le> e \<Longrightarrow> unmap_step ops s e a args w =
      map_option (\<lambda>(l, w). ([a\<lparr>ra_end := s, ra_segment := l\<rparr>], w))
        (shrink_to_left ops (ra_segment a) s args w)"
proof -
  have nov: "\<not> (e \<le> ra_start a \<or> ra_end a \<le> s)" using ov by (auto simp: ra_is_overlap_with_def)
  note defs = unmap_step_def shrink_or_split_if_overlap_def Let_def not_le
  show "s \<le> ra_start a \<Longrightarrow> ra_end a \<le> e \<Longrightarrow> unmap_step ops s e a args w =
      map_option (\<lambda>(_, w). ([], w)) (seg_remove ops (ra_segment a) args w)"
    by (cases "seg_remove ops (ra_segment a) args w") (use nov in \<open>auto simp: defs\<close>)
  show "ra_start a < s \<Longrightarrow> e < ra_end a \<Longrightarrow> unmap_step ops s e a args w =
      map_option (\<lambda>(l, r, w). ([a\<lparr>ra_end := s, ra_segment := l\<rparr>,
          \<lparr>ra_start = e, ra_end = ra_end a, ra_segment = r\<rparr>], w))
        (split_and_remove_middle ops (ra_segment a) s e args w)"
    by (cases "split_and_remove_middle ops (ra_segment a) s e args w") (use nov in \<open>auto simp: defs\<close>)
  show "s \<le> ra_start a \<Longrightarrow> e < ra_end a \<Longrightarrow> unmap_step ops s e a args w =
      map_option (\<lambda>(r, w). ([a\<lparr>ra_start := e, ra_segment := r\<rparr>], w))
        (shrink_to_right ops (ra_segment a) e args w)"
    by (cases "shrink_to_right ops (ra_segment a) e args w") (use nov in \<open>auto simp: defs\<close>)
  show "ra_start a < s \<Longrightarrow> ra_end a \<le> e \<Longrightarrow> unmap_step ops s e a args w =
      map_option (\<lambda>(l, w). ([a\<lparr>ra_end := s, ra_segment := l\<rparr>], w))
        (shrink_to_left ops (ra_segment a) s args w)"
    by (cases "shrink_to_left ops (ra_segment a) s args w") (use nov in \<open>auto simp: defs\<close>)
qed

lemma mprotect_step_eqs:
  assumes ov: "ra_is_overlap_with a s e"
  shows "s \<le> ra_start a \<Longrightarrow> ra_end a \<le> e \<Longrightarrow> mprotect_step ops s e f a args w =
      map_option (\<lambda>(seg, w). ([a\<lparr>ra_segment := seg\<rparr>], w)) (seg_modify ops (ra_segment a) f args w)"
    and "ra_start a < s \<Longrightarrow> e < ra_end a \<Longrightarrow> mprotect_step ops s e f a args w =
      map_option (\<lambda>(l, m, r, w). ([a\<lparr>ra_end := s, ra_segment := l\<rparr>,
          \<lparr>ra_start = s, ra_end = e, ra_segment = m\<rparr>,
          \<lparr>ra_start = e, ra_end = ra_end a, ra_segment = r\<rparr>], w))
        (modify_middle ops (ra_segment a) s e f args w)"
    and "s \<le> ra_start a \<Longrightarrow> e < ra_end a \<Longrightarrow> mprotect_step ops s e f a args w =
      map_option (\<lambda>(l, r, w). ([a\<lparr>ra_end := e, ra_segment := l\<rparr>,
          \<lparr>ra_start = e, ra_end = ra_end a, ra_segment = r\<rparr>], w))
        (modify_left ops (ra_segment a) e f args w)"
    and "ra_start a < s \<Longrightarrow> ra_end a \<le> e \<Longrightarrow> mprotect_step ops s e f a args w =
      map_option (\<lambda>(l, r, w). ([a\<lparr>ra_end := s, ra_segment := l\<rparr>,
          \<lparr>ra_start = s, ra_end = ra_end a, ra_segment = r\<rparr>], w))
        (modify_right ops (ra_segment a) s f args w)"
proof -
  have nov: "\<not> (e \<le> ra_start a \<or> ra_end a \<le> s)" using ov by (auto simp: ra_is_overlap_with_def)
  note defs = mprotect_step_def split_and_modify_if_overlap_def Let_def not_le
  show "s \<le> ra_start a \<Longrightarrow> ra_end a \<le> e \<Longrightarrow> mprotect_step ops s e f a args w =
      map_option (\<lambda>(seg, w). ([a\<lparr>ra_segment := seg\<rparr>], w)) (seg_modify ops (ra_segment a) f args w)"
    by (cases "seg_modify ops (ra_segment a) f args w") (use nov in \<open>auto simp: defs\<close>)
  show "ra_start a < s \<Longrightarrow> e < ra_end a \<Longrightarrow> mprotect_step ops s e f a args w =
      map_option (\<lambda>(l, m, r, w). ([a\<lparr>ra_end := s, ra_segment := l\<rparr>,
          \<lparr>ra_start = s, ra_end = e, ra_segment = m\<rparr>,
          \<lparr>ra_start = e, ra_end = ra_end a, ra_segment = r\<rparr>], w))
        (modify_middle ops (ra_segment a) s e f args w)"
    by (cases "modify_middle ops (ra_segment a) s e f args w") (use nov in \<open>auto simp: defs\<close>)
  show "s \<le> ra_start a \<Longrightarrow> e < ra_end a \<Longrightarrow> mprotect_step ops s e f a args w =
      map_option (\<lambda>(l, r, w). ([a\<lparr>ra_end := e, ra_segment := l\<rparr>,
          \<lparr>ra_start = e, ra_end = ra_end a, ra_segment = r\<rparr>], w))
        (modify_left ops (ra_segment a) e f args w)"
    by (cases "modify_left ops (ra_segment a) e f args w") (use nov in \<open>auto simp: defs\<close>)
  show "ra_start a < s \<Longrightarrow> ra_end a \<le> e \<Longrightarrow> mprotect_step ops s e f a args w =
      map_option (\<lambda>(l, r, w). ([a\<lparr>ra_end := s, ra_segment := l\<rparr>,
          \<lparr>ra_start = s, ra_end = ra_end a, ra_segment = r\<rparr>], w))
        (modify_right ops (ra_segment a) s f args w)"
    by (cases "modify_right ops (ra_segment a) s f args w") (use nov in \<open>auto simp: defs\<close>)
qed

subsection \<open>What a segment promises\<close>

text \<open>\<open>covers seg s e\<close>: \<open>seg\<close> describes the interval \<open>[s, e)\<close>; \<open>attr seg p\<close>: what it stores for point \<open>p\<close>;
  \<open>upd f\<close>: what \<^verbatim>\<open>modify(f)\<close> does to a stored attribute.\<close>

locale segment =
  fixes ops :: "('seg, 'w) segment_ops"
    and covers :: "'seg \<Rightarrow> usize \<Rightarrow> usize \<Rightarrow> bool"
    and attr :: "'seg \<Rightarrow> usize \<Rightarrow> 'v"
    and upd :: "usize \<Rightarrow> 'v \<Rightarrow> 'v"
    and cutpos :: "usize \<Rightarrow> bool"
  assumes split_law:
    "covers seg s e \<Longrightarrow> cutpos pos \<Longrightarrow> s < pos \<Longrightarrow> pos < e \<Longrightarrow> seg_split ops seg pos args w = Some (l, r, w') \<Longrightarrow>
       covers l s pos \<and> covers r pos e \<and>
       (\<forall>p. s \<le> p \<and> p < pos \<longrightarrow> attr l p = attr seg p) \<and>
       (\<forall>p. pos \<le> p \<and> p < e \<longrightarrow> attr r p = attr seg p)"
    and modify_law:
    "covers seg s e \<Longrightarrow> seg_modify ops seg f args w = Some (seg', w') \<Longrightarrow>
       covers seg' s e \<and> (\<forall>p. s \<le> p \<and> p < e \<longrightarrow> attr seg' p = upd f (attr seg p))"
begin

lemma split_right_then_left:
  assumes "covers seg s0 e0" "s0 < s" "s < e" "e < e0" and cutpos: "cutpos s" "cutpos e"
    and "seg_split ops seg e args w = Some (x, r, w1)" and "seg_split ops x s args w1 = Some (l, y, w2)"
  shows "covers l s0 s \<and> covers y s e \<and> covers r e e0 \<and>
    (\<forall>p. s0 \<le> p \<and> p < s \<longrightarrow> attr l p = attr seg p) \<and>
    (\<forall>p. s \<le> p \<and> p < e \<longrightarrow> attr y p = attr seg p) \<and>
    (\<forall>p. e \<le> p \<and> p < e0 \<longrightarrow> attr r p = attr seg p)"
proof -
  have "s0 < e" using assms by order
  note a1 = split_law [OF assms(1) cutpos(2) this assms(4,7)]
  note a2 = split_law [OF conjunct1 [OF a1] cutpos(1) assms(2,3,8)]
  show ?thesis using a1 a2 assms(2,3) by (auto simp: word_conv)
qed

lemma unmap_step_ok:
  assumes cov: "covers (ra_segment a) (ra_start a) (ra_end a)"
    and ov: "ra_is_overlap_with a s e" and se: "s < e" and cutpos: "cutpos s" "cutpos e"
    and st: "unmap_step ops s e a args w = Some (ps, w')"
  shows "step_ok covers attr (\<lambda>p u v. \<not> (s \<le> p \<and> p < e) \<and> v = u) a ps"
  using ov
proof (cases rule: overlap_cases)
  case whole
  then have "ps = []" using st by (auto simp: unmap_step_eqs [OF ov])
  with whole show ?thesis by (auto simp: step_ok_def pieces_of_def ra_contains_def)
next
  case mid
  then obtain l r x w1 y w2 where 1: "seg_split ops (ra_segment a) e args w = Some (x, r, w1)"
      and 2: "seg_split ops x s args w1 = Some (l, y, w2)"
      and p: "ps = [a\<lparr>ra_end := s, ra_segment := l\<rparr>, \<lparr>ra_start = e, ra_end = ra_end a, ra_segment = r\<rparr>]"
    using st by (auto simp: unmap_step_eqs [OF ov] split_and_remove_middle_def split: bind_splits)
  note c = split_right_then_left [OF cov mid(1) se mid(2) cutpos 1 2]
  show ?thesis using c mid se
    by (auto simp: p step_ok_def pieces_of_def ra_contains_def word_conv)
next
  case low
  then obtain l r w1 where 1: "seg_split ops (ra_segment a) e args w = Some (l, r, w1)"
      and p: "ps = [a\<lparr>ra_start := e, ra_segment := r\<rparr>]"
    using st by (auto simp: unmap_step_eqs [OF ov] shrink_to_right_def split: bind_splits)
  note c = split_law [OF cov cutpos(2) low(3,2) 1]
  show ?thesis using c low se
    by (auto simp: p step_ok_def pieces_of_def ra_contains_def word_conv)
next
  case high
  then obtain l r w1 where 1: "seg_split ops (ra_segment a) s args w = Some (l, r, w1)"
      and p: "ps = [a\<lparr>ra_end := s, ra_segment := l\<rparr>]"
    using st by (auto simp: unmap_step_eqs [OF ov] shrink_to_left_def split: bind_splits)
  note c = split_law [OF cov cutpos(1) high(1,3) 1]
  show ?thesis using c high se
    by (auto simp: p step_ok_def pieces_of_def ra_contains_def word_conv)
qed

lemma mprotect_step_ok:
  assumes cov: "covers (ra_segment a) (ra_start a) (ra_end a)" and ne: "ra_start a < ra_end a"
    and ov: "ra_is_overlap_with a s e" and se: "s < e" and cutpos: "cutpos s" "cutpos e"
    and st: "mprotect_step ops s e f a args w = Some (ps, w')"
  shows "step_ok covers attr (\<lambda>p u v. v = (if s \<le> p \<and> p < e then upd f u else u)) a ps"
  using ov
proof (cases rule: overlap_cases)
  case whole
  then obtain seg where 1: "seg_modify ops (ra_segment a) f args w = Some (seg, w')"
      and p: "ps = [a\<lparr>ra_segment := seg\<rparr>]"
    using st by (auto simp: mprotect_step_eqs [OF ov])
  show ?thesis using modify_law [OF cov 1] whole se ne
    by (auto simp: p step_ok_def pieces_of_def ra_contains_def word_conv)
next
  case mid
  then obtain l r x w1 y w2 z where 1: "seg_split ops (ra_segment a) e args w = Some (x, r, w1)"
      and 2: "seg_split ops x s args w1 = Some (l, y, w2)"
      and 3: "seg_modify ops y f args w2 = Some (z, w')"
      and p: "ps = [a\<lparr>ra_end := s, ra_segment := l\<rparr>, \<lparr>ra_start = s, ra_end = e, ra_segment = z\<rparr>,
                \<lparr>ra_start = e, ra_end = ra_end a, ra_segment = r\<rparr>]"
    using st by (auto simp: mprotect_step_eqs [OF ov] modify_middle_def split: bind_splits)
  note c = split_right_then_left [OF cov mid(1) se mid(2) cutpos 1 2]
  show ?thesis using c modify_law [OF conjunct1 [OF conjunct2 [OF c]] 3] mid se
    by (auto simp: p step_ok_def pieces_of_def ra_contains_def word_conv)
next
  case low
  then obtain l r w1 z where 1: "seg_split ops (ra_segment a) e args w = Some (l, r, w1)"
      and 2: "seg_modify ops l f args w1 = Some (z, w')"
      and p: "ps = [a\<lparr>ra_end := e, ra_segment := z\<rparr>, \<lparr>ra_start = e, ra_end = ra_end a, ra_segment = r\<rparr>]"
    using st by (auto simp: mprotect_step_eqs [OF ov] modify_left_def split: bind_splits)
  note c = split_law [OF cov cutpos(2) low(3,2) 1]
  show ?thesis using c modify_law [OF conjunct1 [OF c] 2] low se
    by (auto simp: p step_ok_def pieces_of_def ra_contains_def word_conv)
next
  case high
  then obtain l r w1 z where 1: "seg_split ops (ra_segment a) s args w = Some (l, r, w1)"
      and 2: "seg_modify ops r f args w1 = Some (z, w')"
      and p: "ps = [a\<lparr>ra_end := s, ra_segment := l\<rparr>, \<lparr>ra_start = s, ra_end = ra_end a, ra_segment = z\<rparr>]"
    using st by (auto simp: mprotect_step_eqs [OF ov] modify_right_def split: bind_splits)
  note c = split_law [OF cov cutpos(1) high(1,3) 1]
  show ?thesis using c modify_law [OF conjunct1 [OF conjunct2 [OF c]] 2] high se
    by (auto simp: p step_ok_def pieces_of_def ra_contains_def word_conv)
qed

theorem ram_unmap_abs:
  assumes wf: "ram_wf m" and cov: "ram_covers covers m" and se: "s < e" and cutpos: "cutpos s" "cutpos e"
    and un: "ram_unmap ops m s e w = Some (m', w')"
  shows "ram_wf m' \<and> ram_covers covers m' \<and> ram_args m' = ram_args m \<and>
    ram_abs attr m' = ram_abs attr m |` (- {s..<e})"
proof -
  obtain dr k where d: "bt_drain_filter (\<lambda>(_, a). ra_is_overlap_with a s e) (segments m) = (dr, k)"
    by fastforce
  have loop: "area_loop (unmap_step ops s e) (map snd dr) (m\<lparr>segments := k\<rparr>) w = Some (m', w')"
    using un by (simp add: ram_unmap_def d unmap_loop_area_loop)
  have st: "step_ok covers attr (\<lambda>p u v. \<not> (s \<le> p \<and> p < e) \<and> v = u) a ps"
    if "a \<in> areas m" "ra_is_overlap_with a s e" "unmap_step ops s e a args w = Some (ps, w')"
    for a ps args w w'
    using unmap_step_ok [OF _ that(2) se cutpos that(3)] cov that(1) by (simp add: ram_covers_areas)
  have r: "ram_wf m' \<and> ram_covers covers m' \<and> ram_args m' = ram_args m \<and>
    (\<forall>p v. hits attr (areas m') p v \<longleftrightarrow> (\<exists>u. hits attr (areas m) p u \<and> \<not> (s \<le> p \<and> p < e) \<and> v = u))"
    by (rule drain_step_ok [OF wf cov d _ loop]) (rule st, auto)
  have "ram_abs attr m' = ram_abs attr m |` (- {s..<e})"
    by (rule ram_abs_eqI [OF conjunct1 [OF r]])
      (use r in \<open>auto simp: restrict_map_def ram_abs_Some [OF wf]\<close>)
  with r show ?thesis by simp
qed

theorem ram_mprotect_abs:
  assumes wf: "ram_wf m" and cov: "ram_covers covers m" and se: "s < e" and cutpos: "cutpos s" "cutpos e"
    and un: "ram_mprotect ops m s e f w = Some (m', w')"
  shows "ram_wf m' \<and> ram_covers covers m' \<and> ram_args m' = ram_args m \<and>
    ram_abs attr m' = (\<lambda>p. if p \<in> {s..<e} then map_option (upd f) (ram_abs attr m p) else ram_abs attr m p)"
proof -
  obtain dr k where d: "bt_drain_filter (\<lambda>(_, a). ra_is_overlap_with a s e) (segments m) = (dr, k)"
    by fastforce
  have loop: "area_loop (mprotect_step ops s e f) (map snd dr) (m\<lparr>segments := k\<rparr>) w = Some (m', w')"
    using un by (simp add: ram_mprotect_def d mprotect_loop_area_loop)
  have st: "step_ok covers attr (\<lambda>p u v. v = (if s \<le> p \<and> p < e then upd f u else u)) a ps"
    if "a \<in> areas m" "ra_is_overlap_with a s e" "mprotect_step ops s e f a args w = Some (ps, w')"
    for a ps args w w'
    using mprotect_step_ok [OF _ ram_wf_area [OF wf that(1)] that(2) se cutpos that(3)] cov that(1)
    by (simp add: ram_covers_areas)
  have r: "ram_wf m' \<and> ram_covers covers m' \<and> ram_args m' = ram_args m \<and>
    (\<forall>p v. hits attr (areas m') p v \<longleftrightarrow>
       (\<exists>u. hits attr (areas m) p u \<and> v = (if s \<le> p \<and> p < e then upd f u else u)))"
    by (rule drain_step_ok [OF wf cov d _ loop]) (rule st, auto)
  have "ram_abs attr m' =
      (\<lambda>p. if p \<in> {s..<e} then map_option (upd f) (ram_abs attr m p) else ram_abs attr m p)"
    by (rule ram_abs_eqI [OF conjunct1 [OF r]]) (use r in \<open>auto simp: ram_abs_Some [OF wf]\<close>)
  with r show ?thesis by simp
qed

lemma insert_raw_abs:
  assumes wf: "ram_wf m" and cov: "ram_covers covers m" and "s < e" and "covers seg s e"
    and free: "ram_abs attr m |` {s..<e} = Map.empty"
  shows "ram_wf (insert_raw m s e seg) \<and> ram_covers covers (insert_raw m s e seg) \<and>
    ram_abs attr (insert_raw m s e seg) = ram_abs attr m ++ (\<lambda>p. if p \<in> {s..<e} then Some (attr seg p) else None)"
proof -
  let ?a = "\<lparr>ra_start = s, ra_end = e, ra_segment = seg\<rparr>"
  have ins: "insert_raw m s e seg = add_area ?a m" by (simp add: insert_raw_def add_area_def)
  have none: "ram_abs attr m p = None" if "s \<le> p" "p < e" for p
    using fun_cong [OF free, of p] that by simp
  have "areas_disjoint ?a b" if "b \<in> areas m" for b
  proof (rule ccontr)
    assume "\<not> areas_disjoint ?a b"
    then have lt: "ra_start b < e" "s < ra_end b" by auto
    define p where "p = max s (ra_start b)"
    have "ra_contains b p" "s \<le> p" "p < e"
      using lt ram_wf_area [OF wf that] \<open>s < e\<close> by (auto simp: p_def ra_contains_def max_def)
    then have "hits attr (areas m) p (attr (ra_segment b) p)" "ram_abs attr m p = None"
      using that none by (auto simp: hits_def)
    then show False using ram_abs_Some [OF wf, of attr p] by simp
  qed
  then have fit: "fits ?a m" using \<open>s < e\<close> by simp
  note add = add_area_fits [OF wf fit]
  have "ram_abs attr (add_area ?a m) = ram_abs attr m ++ (\<lambda>p. if p \<in> {s..<e} then Some (attr seg p) else None)"
  proof (rule ram_abs_eqI [OF add(1)])
    fix p v
    have "hits attr (areas m) p v \<longleftrightarrow> ram_abs attr m p = Some v" by (simp add: ram_abs_Some [OF wf])
    then show "hits attr (areas (add_area ?a m)) p v \<longleftrightarrow>
        (ram_abs attr m ++ (\<lambda>p. if p \<in> {s..<e} then Some (attr seg p) else None)) p = Some v"
      using none by (auto simp: add(2) ra_contains_def map_add_Some_iff)
  qed
  then show ?thesis unfolding ins using add cov assms(4) by (simp add: ram_covers_areas)
qed

theorem mmap_fixed_abs:
  assumes wf: "ram_wf m" and cov: "ram_covers covers m" and se: "s < e" and cutpos: "cutpos s" "cutpos e"
    and f: "\<And>w seg w'. f w = Some (seg, w') \<Longrightarrow> covers seg s e"
    and mm: "mmap_fixed ops m s e f w = Some (Some a, m', w')"
  shows "a = s \<and> ram_wf m' \<and> ram_covers covers m' \<and>
    (\<exists>w0 seg. f w0 = Some (seg, w') \<and>
       ram_abs attr m' = ram_abs attr m ++ (\<lambda>p. if p \<in> {s..<e} then Some (attr seg p) else None))"
proof -
  obtain m1 w1 seg where un: "ram_unmap ops m s e w = Some (m1, w1)" and fw: "f w1 = Some (seg, w')"
      and a: "a = s" and m': "m' = insert_raw m1 s e seg"
    using mm by (auto simp: mmap_fixed_def split: if_splits bind_splits)
  note u = ram_unmap_abs [OF wf cov se cutpos un]
  have free: "ram_abs attr m1 |` {s..<e} = Map.empty"
    using u by (auto simp: restrict_map_def fun_eq_iff)
  note i = insert_raw_abs [OF _ _ se f [OF fw] free]
  have "ram_abs attr m1 ++ (\<lambda>p. if p \<in> {s..<e} then Some (attr seg p) else None) =
      ram_abs attr m ++ (\<lambda>p. if p \<in> {s..<e} then Some (attr seg p) else None)"
    using u by (auto simp: map_add_def restrict_map_def fun_eq_iff)
  then show ?thesis using i u fw a m' by auto
qed

end

subsection \<open>Segments that act on a world\<close>

text \<open>The segments of a map may own parts of a shared world, as the kernel's areas own page table entries and page frames. \<open>winv M w\<close> says
  that the world \<open>w\<close> agrees with the partial function \<open>M\<close> from points to attributes. \<open>on_range F s e M\<close> changes \<open>M\<close> on \<open>[s, e)\<close>.\<close>

definition on_range :: "('v option \<Rightarrow> 'v option) \<Rightarrow> usize \<Rightarrow> usize \<Rightarrow> (usize \<rightharpoonup> 'v) \<Rightarrow> usize \<rightharpoonup> 'v" where
  "on_range F s e M = (\<lambda>p. if s \<le> p \<and> p < e then F (M p) else M p)"

definition on_area :: "('v option \<Rightarrow> 'v option) \<Rightarrow> usize \<Rightarrow> usize \<Rightarrow> 'seg range_area \<Rightarrow> (usize \<rightharpoonup> 'v) \<Rightarrow> usize \<rightharpoonup> 'v" where
  "on_area F s e a M = on_range F (max s (ra_start a)) (min e (ra_end a)) M"

lemma on_area_apply: "on_area F s e a M p = (if ra_contains a p \<and> s \<le> p \<and> p < e then F (M p) else M p)"
  by (auto simp: on_area_def on_range_def ra_contains_def)

lemma on_range_clear: "on_range (\<lambda>_. None) s e M = M |` (- {s..<e})"
  by (auto simp: on_range_def restrict_map_def)

lemma area_loop_runs:
  assumes step: "\<And>a M args w. a \<in> set as \<Longrightarrow> winv M w \<Longrightarrow> \<forall>p. ra_contains a p \<longrightarrow> M p = Some (attr (ra_segment a) p) \<Longrightarrow>
      \<exists>ps w'. step a args w = Some (ps, w') \<and> winv (on_area F s e a M) w'"
    and "sorted_wrt area_before as" "winv M w"
    and "\<forall>a \<in> set as. \<forall>p. ra_contains a p \<longrightarrow> M p = Some (attr (ra_segment a) p)"
  shows "\<exists>m' w'. area_loop step as m w = Some (m', w') \<and>
    winv (\<lambda>p. if (\<exists>a \<in> set as. ra_contains a p) \<and> s \<le> p \<and> p < e then F (M p) else M p) w'"
  using assms
proof (induction as arbitrary: M m w)
  case (Cons a as)
  obtain ps w1 where st: "step a (ram_args m) w = Some (ps, w1)" and w1: "winv (on_area F s e a M) w1"
    using Cons.prems(1) [of a M w "ram_args m"] Cons.prems(3,4) by auto
  have out: "\<not> ra_contains a p" if "b \<in> set as" "ra_contains b p" for b p
  proof -
    have "ra_end a \<le> ra_start b" using Cons.prems(2) that(1) by simp
    then show ?thesis using that(2) by (auto simp: ra_contains_def)
  qed
  have agree: "\<forall>b \<in> set as. \<forall>p. ra_contains b p \<longrightarrow> on_area F s e a M p = Some (attr (ra_segment b) p)"
    using Cons.prems(4) out by (auto simp: on_area_apply)
  have "\<exists>m' w'. area_loop step as (add_areas ps m) w1 = Some (m', w') \<and>
    winv (\<lambda>p. if (\<exists>b \<in> set as. ra_contains b p) \<and> s \<le> p \<and> p < e then F (on_area F s e a M p) else on_area F s e a M p) w'"
    by (rule Cons.IH [OF _ _ w1 agree]) (use Cons.prems(1,2) in auto)
  moreover have "(\<lambda>p. if (\<exists>b \<in> set as. ra_contains b p) \<and> s \<le> p \<and> p < e then F (on_area F s e a M p) else on_area F s e a M p) =
      (\<lambda>p. if (\<exists>b \<in> set (a # as). ra_contains b p) \<and> s \<le> p \<and> p < e then F (M p) else M p)"
    using out by (auto simp: on_area_apply fun_eq_iff)
  ultimately show ?case using st by simp
qed simp

lemma drain_step_runs:
  assumes wf: "ram_wf m" and inv: "winv (ram_abs attr m) w"
    and dr: "bt_drain_filter (\<lambda>(_, a). ra_is_overlap_with a s e) (segments m) = (drained, kept)"
    and step: "\<And>a M args w. a \<in> areas m \<Longrightarrow> ra_is_overlap_with a s e \<Longrightarrow> winv M w \<Longrightarrow>
      \<forall>p. ra_contains a p \<longrightarrow> M p = Some (attr (ra_segment a) p) \<Longrightarrow>
      \<exists>ps w'. step a args w = Some (ps, w') \<and> winv (on_area F s e a M) w'"
    and F: "F None = None"
  shows "\<exists>m' w'. area_loop step (map snd drained) (m\<lparr>segments := kept\<rparr>) w = Some (m', w') \<and>
    winv (on_range F s e (ram_abs attr m)) w'"
proof -
  have d: "drained = filter (\<lambda>x. ra_is_overlap_with (snd x) s e) (segments m)"
    using dr by (auto simp: bt_drain_filter_def case_prod_unfold)
  have ar: "set (map snd drained) = {a \<in> areas m. ra_is_overlap_with a s e}" by (auto simp: areas_def d)
  have "sorted_wrt (\<lambda>x y. area_before (snd x) (snd y)) (segments m)"
    using wf by (simp add: ram_wf_def case_prod_unfold)
  then have srt: "sorted_wrt area_before (map snd drained)"
    unfolding d by (simp add: sorted_wrt_map sorted_wrt_filter)
  have at: "ram_abs attr m p = Some (attr (ra_segment a) p)" if "a \<in> areas m" "ra_contains a p" for a p
    using that by (auto simp: ram_abs_Some [OF wf] hits_def)
  have "\<exists>m' w'. area_loop step (map snd drained) (m\<lparr>segments := kept\<rparr>) w = Some (m', w') \<and>
    winv (\<lambda>p. if (\<exists>a \<in> set (map snd drained). ra_contains a p) \<and> s \<le> p \<and> p < e then F (ram_abs attr m p) else ram_abs attr m p) w'"
    by (rule area_loop_runs [where winv = winv and F = F and attr = attr, OF _ srt inv]) (use step at ar in auto)
  moreover have "(\<exists>a \<in> set (map snd drained). ra_contains a p) \<or> ram_abs attr m p = None" if "s \<le> p" "p < e" for p
  proof (cases "ram_abs attr m p")
    case (Some v)
    then obtain a where "a \<in> areas m" "ra_contains a p" by (auto simp: ram_abs_Some [OF wf] hits_def)
    then show ?thesis using that unfolding ar by (auto simp: ra_is_overlap_with_def ra_contains_def)
  qed simp
  then have "(\<lambda>p. if (\<exists>a \<in> set (map snd drained). ra_contains a p) \<and> s \<le> p \<and> p < e then F (ram_abs attr m p) else ram_abs attr m p) =
      on_range F s e (ram_abs attr m)"
    using F by (fastforce simp: on_range_def)
  ultimately show ?thesis by simp
qed

text \<open>A segment that does not panic in a world that agrees with it, and leaves a world that agrees with what it did.\<close>

locale segment_world = segment ops covers attr upd cutpos
  for ops :: "('seg, 'w) segment_ops" and covers and attr :: "'seg \<Rightarrow> usize \<Rightarrow> 'v" and upd and cutpos +
  fixes winv :: "(usize \<rightharpoonup> 'v) \<Rightarrow> 'w \<Rightarrow> bool"
  assumes split_runs:
    "covers seg s e \<Longrightarrow> cutpos pos \<Longrightarrow> s < pos \<Longrightarrow> pos < e \<Longrightarrow> \<exists>l r. seg_split ops seg pos args w = Some (l, r, w)"
    and remove_runs:
    "covers seg s e \<Longrightarrow> winv M w \<Longrightarrow> \<forall>p. s \<le> p \<and> p < e \<longrightarrow> M p = Some (attr seg p) \<Longrightarrow>
       \<exists>seg' w'. seg_remove ops seg args w = Some (seg', w') \<and> winv (on_range (\<lambda>_. None) s e M) w'"
    and modify_runs:
    "covers seg s e \<Longrightarrow> winv M w \<Longrightarrow> \<forall>p. s \<le> p \<and> p < e \<longrightarrow> M p = Some (attr seg p) \<Longrightarrow>
       \<exists>seg' w'. seg_modify ops seg f args w = Some (seg', w') \<and> winv (on_range (map_option (upd f)) s e M) w'"
begin

lemma split_runsE:
  assumes "covers seg s0 e0" "cutpos pos" "s0 < pos" "pos < e0" "\<forall>p. s0 \<le> p \<and> p < e0 \<longrightarrow> M p = Some (attr seg p)"
  obtains l r where "seg_split ops seg pos args w = Some (l, r, w)" "covers l s0 pos" "covers r pos e0"
    "\<forall>p. s0 \<le> p \<and> p < pos \<longrightarrow> M p = Some (attr l p)" "\<forall>p. pos \<le> p \<and> p < e0 \<longrightarrow> M p = Some (attr r p)"
proof -
  obtain l r where sp: "seg_split ops seg pos args w = Some (l, r, w)" using split_runs [OF assms(1-4)] by blast
  note law = split_law [OF assms(1-4) sp]
  have "M p = Some (attr l p)" if "s0 \<le> p" "p < pos" for p
  proof -
    have "p < e0" using that(2) assms(4) by order
    then show ?thesis using law assms(5) that by simp
  qed
  moreover have "M p = Some (attr r p)" if "pos \<le> p" "p < e0" for p
  proof -
    have "s0 \<le> p" using that(1) assms(3) by order
    then show ?thesis using law assms(5) that by simp
  qed
  ultimately show ?thesis using that [OF sp] law by simp
qed

lemma unmap_step_runs:
  assumes cov: "covers (ra_segment a) (ra_start a) (ra_end a)" and ov: "ra_is_overlap_with a s e" and se: "s < e"
    and cut: "cutpos s" "cutpos e" and M: "winv M w" "\<forall>p. ra_contains a p \<longrightarrow> M p = Some (attr (ra_segment a) p)"
  shows "\<exists>ps w'. unmap_step ops s e a args w = Some (ps, w') \<and> winv (on_area (\<lambda>_. None) s e a M) w'"
  using ov
proof (cases rule: overlap_cases)
  case whole
  then show ?thesis using remove_runs [OF cov M(1), of args] M(2)
    by (auto simp: unmap_step_eqs [OF ov] on_area_def ra_contains_def max_def min_def)
next
  case mid
  obtain x r where 1: "seg_split ops (ra_segment a) e args w = Some (x, r, w)" "covers x (ra_start a) e"
      "\<forall>p. ra_start a \<le> p \<and> p < e \<longrightarrow> M p = Some (attr x p)"
    by (rule split_runsE [OF cov cut(2) mid(3,2), of M args w]) (use M(2) in \<open>auto simp: ra_contains_def\<close>)
  obtain l y where 2: "seg_split ops x s args w = Some (l, y, w)" "covers y s e"
      "\<forall>p. s \<le> p \<and> p < e \<longrightarrow> M p = Some (attr y p)"
    by (rule split_runsE [OF 1(2) cut(1) mid(1) se 1(3), of args w]) auto
  show ?thesis using 1(1) 2(1) remove_runs [OF 2(2) M(1) 2(3), of args] mid
    by (auto simp: unmap_step_eqs [OF ov] split_and_remove_middle_def on_area_def max_def min_def)
next
  case low
  obtain l r where 1: "seg_split ops (ra_segment a) e args w = Some (l, r, w)" "covers l (ra_start a) e"
      "\<forall>p. ra_start a \<le> p \<and> p < e \<longrightarrow> M p = Some (attr l p)"
    by (rule split_runsE [OF cov cut(2) low(3,2), of M args w]) (use M(2) in \<open>auto simp: ra_contains_def\<close>)
  show ?thesis using 1(1) remove_runs [OF 1(2) M(1) 1(3), of args] low
    by (auto simp: unmap_step_eqs [OF ov] shrink_to_right_def on_area_def max_def min_def)
next
  case high
  obtain l r where 1: "seg_split ops (ra_segment a) s args w = Some (l, r, w)" "covers r s (ra_end a)"
      "\<forall>p. s \<le> p \<and> p < ra_end a \<longrightarrow> M p = Some (attr r p)"
    by (rule split_runsE [OF cov cut(1) high(1,3), of M args w]) (use M(2) in \<open>auto simp: ra_contains_def\<close>)
  show ?thesis using 1(1) remove_runs [OF 1(2) M(1) 1(3), of args] high
    by (auto simp: unmap_step_eqs [OF ov] shrink_to_left_def on_area_def max_def min_def)
qed

lemma mprotect_step_runs:
  assumes cov: "covers (ra_segment a) (ra_start a) (ra_end a)" and ov: "ra_is_overlap_with a s e" and se: "s < e"
    and cut: "cutpos s" "cutpos e" and M: "winv M w" "\<forall>p. ra_contains a p \<longrightarrow> M p = Some (attr (ra_segment a) p)"
  shows "\<exists>ps w'. mprotect_step ops s e f a args w = Some (ps, w') \<and> winv (on_area (map_option (upd f)) s e a M) w'"
  using ov
proof (cases rule: overlap_cases)
  case whole
  then show ?thesis using modify_runs [OF cov M(1), of f args] M(2)
    by (auto simp: mprotect_step_eqs [OF ov] on_area_def ra_contains_def max_def min_def)
next
  case mid
  obtain x r where 1: "seg_split ops (ra_segment a) e args w = Some (x, r, w)" "covers x (ra_start a) e"
      "\<forall>p. ra_start a \<le> p \<and> p < e \<longrightarrow> M p = Some (attr x p)"
    by (rule split_runsE [OF cov cut(2) mid(3,2), of M args w]) (use M(2) in \<open>auto simp: ra_contains_def\<close>)
  obtain l y where 2: "seg_split ops x s args w = Some (l, y, w)" "covers y s e"
      "\<forall>p. s \<le> p \<and> p < e \<longrightarrow> M p = Some (attr y p)"
    by (rule split_runsE [OF 1(2) cut(1) mid(1) se 1(3), of args w]) auto
  show ?thesis using 1(1) 2(1) modify_runs [OF 2(2) M(1) 2(3), of f args] mid
    by (auto simp: mprotect_step_eqs [OF ov] modify_middle_def on_area_def max_def min_def)
next
  case low
  obtain l r where 1: "seg_split ops (ra_segment a) e args w = Some (l, r, w)" "covers l (ra_start a) e"
      "\<forall>p. ra_start a \<le> p \<and> p < e \<longrightarrow> M p = Some (attr l p)"
    by (rule split_runsE [OF cov cut(2) low(3,2), of M args w]) (use M(2) in \<open>auto simp: ra_contains_def\<close>)
  show ?thesis using 1(1) modify_runs [OF 1(2) M(1) 1(3), of f args] low
    by (auto simp: mprotect_step_eqs [OF ov] modify_left_def on_area_def max_def min_def)
next
  case high
  obtain l r where 1: "seg_split ops (ra_segment a) s args w = Some (l, r, w)" "covers r s (ra_end a)"
      "\<forall>p. s \<le> p \<and> p < ra_end a \<longrightarrow> M p = Some (attr r p)"
    by (rule split_runsE [OF cov cut(1) high(1,3), of M args w]) (use M(2) in \<open>auto simp: ra_contains_def\<close>)
  show ?thesis using 1(1) modify_runs [OF 1(2) M(1) 1(3), of f args] high
    by (auto simp: mprotect_step_eqs [OF ov] modify_right_def on_area_def max_def min_def)
qed

theorem ram_unmap_runs:
  assumes wf: "ram_wf m" and cov: "ram_covers covers m" and se: "s < e" and cut: "cutpos s" "cutpos e"
    and inv: "winv (ram_abs attr m) w"
  obtains m' w' where "ram_unmap ops m s e w = Some (m', w')" "ram_wf m'" "ram_covers covers m'" "ram_args m' = ram_args m"
    "ram_abs attr m' = ram_abs attr m |` (- {s..<e})" "winv (ram_abs attr m') w'"
proof -
  obtain dr k where d: "bt_drain_filter (\<lambda>(_, a). ra_is_overlap_with a s e) (segments m) = (dr, k)" by fastforce
  have st: "\<exists>ps w'. unmap_step ops s e a args w = Some (ps, w') \<and> winv (on_area (\<lambda>_. None) s e a M) w'"
    if "a \<in> areas m" "ra_is_overlap_with a s e" "winv M w" "\<forall>p. ra_contains a p \<longrightarrow> M p = Some (attr (ra_segment a) p)" for a M args w
    using unmap_step_runs [OF _ that(2) se cut that(3,4)] cov that(1) by (simp add: ram_covers_areas)
  have "\<exists>m' w'. area_loop (unmap_step ops s e) (map snd dr) (m\<lparr>segments := k\<rparr>) w = Some (m', w') \<and>
    winv (on_range (\<lambda>_. None) s e (ram_abs attr m)) w'"
    by (rule drain_step_runs [where winv = winv and attr = attr, OF wf inv d st]) simp_all
  then obtain m' w' where "ram_unmap ops m s e w = Some (m', w')" "winv (ram_abs attr m |` (- {s..<e})) w'"
    by (auto simp: ram_unmap_def d unmap_loop_area_loop on_range_clear)
  with that ram_unmap_abs [OF wf cov se cut] show ?thesis by simp
qed

theorem ram_mprotect_runs:
  assumes wf: "ram_wf m" and cov: "ram_covers covers m" and se: "s < e" and cut: "cutpos s" "cutpos e"
    and inv: "winv (ram_abs attr m) w"
  obtains m' w' where "ram_mprotect ops m s e f w = Some (m', w')" "ram_wf m'" "ram_covers covers m'" "ram_args m' = ram_args m"
    "ram_abs attr m' = on_range (map_option (upd f)) s e (ram_abs attr m)" "winv (ram_abs attr m') w'"
proof -
  obtain dr k where d: "bt_drain_filter (\<lambda>(_, a). ra_is_overlap_with a s e) (segments m) = (dr, k)" by fastforce
  have st: "\<exists>ps w'. mprotect_step ops s e f a args w = Some (ps, w') \<and> winv (on_area (map_option (upd f)) s e a M) w'"
    if "a \<in> areas m" "ra_is_overlap_with a s e" "winv M w" "\<forall>p. ra_contains a p \<longrightarrow> M p = Some (attr (ra_segment a) p)" for a M args w
    using mprotect_step_runs [OF _ that(2) se cut that(3,4)] cov that(1) by (simp add: ram_covers_areas)
  have "\<exists>m' w'. area_loop (mprotect_step ops s e f) (map snd dr) (m\<lparr>segments := k\<rparr>) w = Some (m', w') \<and>
    winv (on_range (map_option (upd f)) s e (ram_abs attr m)) w'"
    by (rule drain_step_runs [where winv = winv and attr = attr, OF wf inv d st]) simp_all
  then obtain m' w' where r: "ram_mprotect ops m s e f w = Some (m', w')" "winv (on_range (map_option (upd f)) s e (ram_abs attr m)) w'"
    by (auto simp: ram_mprotect_def d mprotect_loop_area_loop)
  have "on_range (map_option (upd f)) s e (ram_abs attr m) =
      (\<lambda>p. if p \<in> {s..<e} then map_option (upd f) (ram_abs attr m p) else ram_abs attr m p)"
    by (simp add: on_range_def fun_eq_iff)
  with that r ram_mprotect_abs [OF wf cov se cut r(1)] show ?thesis by simp
qed

end

subsection \<open>Panics come only from the segments\<close>

definition seg_never_panics :: "('seg, 'w) segment_ops \<Rightarrow> bool" where
  "seg_never_panics ops \<longleftrightarrow>
     (\<forall>seg args w. seg_remove ops seg args w \<noteq> None) \<and>
     (\<forall>seg pos args w. seg_split ops seg pos args w \<noteq> None) \<and>
     (\<forall>seg f args w. seg_modify ops seg f args w \<noteq> None)"

lemma derived_methods_total:
  assumes "seg_never_panics ops"
  shows "shrink_to_left ops seg p args w \<noteq> None"
    and "shrink_to_right ops seg p args w \<noteq> None"
    and "split_and_remove_middle ops seg p q args w \<noteq> None"
    and "modify_left ops seg p f args w \<noteq> None"
    and "modify_right ops seg p f args w \<noteq> None"
    and "modify_middle ops seg p q f args w \<noteq> None"
  using assms
  by (auto simp: seg_never_panics_def shrink_to_left_def shrink_to_right_def split_and_remove_middle_def
      modify_left_def modify_right_def modify_middle_def bind_eq_None_conv
      simp del: not_None_eq split: prod.splits)

lemma unmap_step_total:
  assumes np: "seg_never_panics ops" and ov: "ra_is_overlap_with a s e"
  shows "unmap_step ops s e a args w \<noteq> None"
  using ov np derived_methods_total [OF np]
  by (cases rule: overlap_cases) (simp_all add: unmap_step_eqs [OF ov] seg_never_panics_def)

lemma mprotect_step_total:
  assumes np: "seg_never_panics ops" and ov: "ra_is_overlap_with a s e"
  shows "mprotect_step ops s e f a args w \<noteq> None"
  using ov np derived_methods_total [OF np]
  by (cases rule: overlap_cases) (simp_all add: mprotect_step_eqs [OF ov] seg_never_panics_def)

lemma ram_unmap_total:
  assumes "seg_never_panics ops" shows "\<exists>m' w'. ram_unmap ops m s e w = Some (m', w')"
proof -
  obtain dr k where d: "bt_drain_filter (\<lambda>(_, a). ra_is_overlap_with a s e) (segments m) = (dr, k)"
    by fastforce
  then have "a \<in> set (map snd dr) \<Longrightarrow> ra_is_overlap_with a s e" for a
    by (auto simp: bt_drain_filter_def)
  then have "a \<in> set (map snd dr) \<Longrightarrow> unmap_step ops s e a args w \<noteq> None" for a args w
    by (rule unmap_step_total [OF assms])
  then have "ram_unmap ops m s e w \<noteq> None"
    unfolding ram_unmap_def d unmap_loop_area_loop Let_def prod.case by (rule area_loop_total)
  then show ?thesis by auto
qed

lemma ram_mprotect_total:
  assumes "seg_never_panics ops" shows "\<exists>m' w'. ram_mprotect ops m s e f w = Some (m', w')"
proof -
  obtain dr k where d: "bt_drain_filter (\<lambda>(_, a). ra_is_overlap_with a s e) (segments m) = (dr, k)"
    by fastforce
  then have "a \<in> set (map snd dr) \<Longrightarrow> ra_is_overlap_with a s e" for a
    by (auto simp: bt_drain_filter_def)
  then have "a \<in> set (map snd dr) \<Longrightarrow> mprotect_step ops s e f a args w \<noteq> None" for a args w
    by (rule mprotect_step_total [OF assms])
  then have "ram_mprotect ops m s e f w \<noteq> None"
    unfolding ram_mprotect_def d mprotect_loop_area_loop Let_def prod.case by (rule area_loop_total)
  then show ?thesis by auto
qed

subsection \<open>The search for a free range\<close>

definition range_free :: "'seg range_area set \<Rightarrow> usize \<Rightarrow> usize \<Rightarrow> bool" where
  "range_free A b len \<longleftrightarrow>
     (\<forall>a \<in> A. unat b + unat len \<le> unat (ra_start a) \<or> unat (ra_end a) \<le> unat b)"

lemma find_free_loop_first_fit:
  assumes "sorted_wrt (\<lambda>x y. area_before (snd x) (snd y)) xs"
    and "\<forall>x \<in> set xs. fst x = ra_start (snd x) \<and> ra_start (snd x) < ra_end (snd x) \<and>
           unat (ra_end (snd x)) + unat len < 2 ^ 64"
    and "unat cur + unat len < 2 ^ 64"
  shows "\<exists>a. find_free_loop xs cur len = Some a \<and> cur \<le> a \<and> unat a + unat len < 2 ^ 64 \<and>
    range_free (snd ` set xs) a len \<and> (\<forall>b \<ge> cur. range_free (snd ` set xs) b len \<longrightarrow> a \<le> b)"
  using assms
proof (induction xs arbitrary: cur)
  case Nil
  then show ?case by (simp add: range_free_def)
next
  case (Cons x xs)
  obtain k g where x: "x = (k, g)" by (cases x)
  have k: "k = ra_start g" "ra_start g < ra_end g" "unat (ra_end g) + unat len < 2 ^ 64"
    and bef: "\<forall>y \<in> set xs. ra_end g \<le> ra_start (snd y)"
    using Cons.prems by (auto simp: x)
  have sum: "cur + len \<le> k \<longleftrightarrow> unat cur + unat len \<le> unat k"
    using Cons.prems(3) by (simp add: word_le_nat_alt unat_add_small)
  show ?case
  proof (cases "cur + len \<le> k")
    case True
    have "range_free (snd ` set (x # xs)) cur len"
      using True k bef unfolding range_free_def sum x by (fastforce simp: word_conv)
    with True Cons.prems(3) show ?thesis by (simp add: x)
  next
    case False
    let ?c = "max cur (ra_end g)"
    have "unat ?c + unat len < 2 ^ 64" using Cons.prems(3) k by (simp add: max_def)
    then obtain a where a: "find_free_loop xs ?c len = Some a" "?c \<le> a" "unat a + unat len < 2 ^ 64"
        "range_free (snd ` set xs) a len" "\<forall>b \<ge> ?c. range_free (snd ` set xs) b len \<longrightarrow> a \<le> b"
      using Cons.IH [of ?c] Cons.prems by auto
    have "range_free (snd ` set (x # xs)) a len"
      using a(2,4) by (auto simp: range_free_def x word_le_nat_alt max_def split: if_splits)
    moreover have "a \<le> b" if "b \<ge> cur" "range_free (snd ` set (x # xs)) b len" for b
    proof -
      have "unat b + unat len \<le> unat (ra_start g) \<or> unat (ra_end g) \<le> unat b"
        using that(2) by (simp add: range_free_def x)
      moreover have "\<not> unat cur + unat len \<le> unat (ra_start g)" using False sum k(1) by simp
      ultimately have "ra_end g \<le> b" using that(1) by (auto simp: word_conv)
      then show ?thesis using a(5) that by (auto simp: range_free_def)
    qed
    ultimately show ?thesis using a False by (auto simp: x)
  qed
qed

lemma find_free_area_first_fit:
  assumes wf: "ram_wf m" and "unat (max hint LOWER_LIMIT) + unat len < 2 ^ 64"
    and "\<forall>a \<in> areas m. unat (ra_end a) + unat len < 2 ^ 64"
  shows "\<exists>a. find_free_area m hint len = Some a \<and> max hint LOWER_LIMIT \<le> a \<and> unat a + unat len < 2 ^ 64 \<and>
    range_free (areas m) a len \<and>
    (\<forall>b \<ge> max hint LOWER_LIMIT. range_free (areas m) b len \<longrightarrow> a \<le> b)"
  unfolding find_free_area_def areas_def
proof (rule find_free_loop_first_fit)
  show "sorted_wrt (\<lambda>x y. area_before (snd x) (snd y)) (segments m)"
    using wf by (simp add: ram_wf_def case_prod_unfold)
qed (use assms in \<open>auto simp: ram_wf_def areas_def\<close>)

lemma range_free_abs:
  assumes "ram_wf m" "range_free (areas m) a len" "unat a + unat len < 2 ^ 64"
  shows "ram_abs attr m |` {a..<a + len} = Map.empty"
proof -
  have "ram_abs attr m p = None" if "a \<le> p" "p < a + len" for p
  proof (rule ccontr)
    assume "ram_abs attr m p \<noteq> None"
    then obtain b where "b \<in> areas m" "ra_contains b p"
      using ram_abs_Some [OF assms(1), of attr p] by (auto simp: hits_def)
    with that assms(2,3) show False
      by (fastforce simp: range_free_def ra_contains_def word_le_nat_alt word_less_nat_alt unat_add_small)
  qed
  then show ?thesis by (auto simp: restrict_map_def fun_eq_iff)
qed

subsection \<open>Properties of the interval map\<close>

text \<open>A segment that holds its bounds and its flags, as the client of
  \<^verbatim>\<open>modules/range-action-map-test\<close> does; the concrete input of the witnesses below.\<close>

record demo_seg =
  demo_start :: usize
  demo_end :: usize
  demo_flags :: usize

definition demo_ops :: "(demo_seg, unit) segment_ops" where
  "demo_ops = \<lparr>
     seg_remove = (\<lambda>seg _ w. Some (seg, w)),
     seg_split = (\<lambda>seg pos _ w. Some (seg\<lparr>demo_end := pos\<rparr>, seg\<lparr>demo_start := pos\<rparr>, w)),
     seg_modify = (\<lambda>seg f _ w. Some (seg\<lparr>demo_flags := f\<rparr>, w))\<rparr>"

definition demo_covers :: "demo_seg \<Rightarrow> usize \<Rightarrow> usize \<Rightarrow> bool" where
  "demo_covers seg s e \<longleftrightarrow> demo_start seg = s \<and> demo_end seg = e"

definition demo_map :: "demo_seg range_action_map" where
  "demo_map = insert_raw (ram_new 0) 0x3000 0x7000 \<lparr>demo_start = 0x3000, demo_end = 0x7000, demo_flags = 6\<rparr>"

lemma demo_segment: "segment demo_ops demo_covers (\<lambda>seg _. demo_flags seg) (\<lambda>f _. f) (\<lambda>_. True)"
  by unfold_locales (auto simp: demo_ops_def demo_covers_def)

lemma demo_never_panics: "seg_never_panics demo_ops"
  by (simp add: seg_never_panics_def demo_ops_def)

lemma demo_map_ok: "ram_wf demo_map" "ram_covers demo_covers demo_map"
  by (simp_all add: demo_map_def insert_raw_def ram_new_def ram_wf_def ram_covers_def demo_covers_def)

text \<open>C21: \<^verbatim>\<open>unmap(start, end)\<close> returns whenever the segments do, keeps the map well formed, and removes
  exactly \<open>[start, end)\<close> from the points the map describes; every other point keeps its attribute.\<close>

theorem unmap_removes_exactly_range:
  assumes "segment ops covers attr upd cutpos" and "seg_never_panics ops"
    and "ram_wf m" and "ram_covers covers m" and "s < e" and "cutpos s" and "cutpos e"
  shows "\<exists>m' w'. ram_unmap ops m s e w = Some (m', w') \<and> ram_wf m' \<and> ram_covers covers m' \<and>
    ram_abs attr m' = ram_abs attr m |` (- {s..<e})"
  using ram_unmap_total [OF assms(2), of m s e w] segment.ram_unmap_abs [OF assms(1,3-7)] by blast

theorem unmap_removes_exactly_range_witness:
  "\<exists>m' w'. ram_unmap demo_ops demo_map 0x4000 0x5000 () = Some (m', w') \<and> ram_wf m' \<and>
    ram_covers demo_covers m' \<and>
    ram_abs (\<lambda>seg _. demo_flags seg) m' = ram_abs (\<lambda>seg _. demo_flags seg) demo_map |` (- {0x4000..<0x5000})"
  by (rule unmap_removes_exactly_range [OF demo_segment demo_never_panics demo_map_ok]) simp_all

text \<open>C22: \<^verbatim>\<open>mprotect(start, end, flags)\<close> returns whenever the segments do, keeps the map well formed,
  maps the same points as before, and changes the attribute exactly at the mapped points of
  \<open>[start, end)\<close>.\<close>

theorem mprotect_updates_exactly_range:
  assumes "segment ops covers attr upd cutpos" and "seg_never_panics ops"
    and "ram_wf m" and "ram_covers covers m" and "s < e" and "cutpos s" and "cutpos e"
  shows "\<exists>m' w'. ram_mprotect ops m s e f w = Some (m', w') \<and> ram_wf m' \<and> ram_covers covers m' \<and>
    ram_abs attr m' = (\<lambda>p. if p \<in> {s..<e} then map_option (upd f) (ram_abs attr m p) else ram_abs attr m p)"
  using ram_mprotect_total [OF assms(2), of m s e f w] segment.ram_mprotect_abs [OF assms(1,3-7)] by blast

theorem mprotect_updates_exactly_range_witness:
  "\<exists>m' w'. ram_mprotect demo_ops demo_map 0x4000 0x5000 2 () = Some (m', w') \<and> ram_wf m' \<and>
    ram_covers demo_covers m' \<and>
    ram_abs (\<lambda>seg _. demo_flags seg) m' =
      (\<lambda>p. if p \<in> {0x4000..<0x5000} then map_option (\<lambda>_. 2) (ram_abs (\<lambda>seg _. demo_flags seg) demo_map p)
           else ram_abs (\<lambda>seg _. demo_flags seg) demo_map p)"
  by (rule mprotect_updates_exactly_range [OF demo_segment demo_never_panics demo_map_ok]) simp_all

text \<open>\<^verbatim>\<open>mmap_fixed(start, end, f)\<close> refuses a start below \<^verbatim>\<open>LOWER_LIMIT\<close> without running \<open>f\<close> or changing
  the map; otherwise it runs \<open>f\<close> once, returns \<open>start\<close>, and the new segment replaces whatever the map
  held in \<open>[start, end)\<close>.\<close>

lemma mmap_fixed_replaces_range:
  assumes "segment ops covers attr upd cutpos" and "seg_never_panics ops"
    and "ram_wf m" and "ram_covers covers m" and "s < e" and "cutpos s" and "cutpos e"
    and "\<And>w. \<exists>w'. f w = Some (seg, w')" and "covers seg s e"
  shows "if s < LOWER_LIMIT then mmap_fixed ops m s e f w = Some (None, m, w)
    else \<exists>m' w'. mmap_fixed ops m s e f w = Some (Some s, m', w') \<and> ram_wf m' \<and> ram_covers covers m' \<and>
      ram_abs attr m' = ram_abs attr m ++ (\<lambda>p. if p \<in> {s..<e} then Some (attr seg p) else None)"
proof (cases "s < LOWER_LIMIT")
  case False
  have up: "\<not> e > UPPER_LIMIT" by (simp add: not_less)
  obtain m1 w1 where un: "ram_unmap ops m s e w = Some (m1, w1)"
    using ram_unmap_total [OF assms(2)] by blast
  obtain w2 where fw: "f w1 = Some (seg, w2)" using assms(8) by blast
  have mm: "mmap_fixed ops m s e f w = Some (Some s, insert_raw m1 s e seg, w2)"
    using False up by (simp add: mmap_fixed_def un fw)
  have cf: "covers seg' s e" if "f w = Some (seg', w')" for w seg' w'
    using assms(8) [of w] that assms(9) by auto
  obtain w0 seg' where "f w0 = Some (seg', w2)"
      and "ram_wf (insert_raw m1 s e seg)" "ram_covers covers (insert_raw m1 s e seg)"
      and "ram_abs attr (insert_raw m1 s e seg) =
             ram_abs attr m ++ (\<lambda>p. if p \<in> {s..<e} then Some (attr seg' p) else None)"
    using segment.mmap_fixed_abs [OF assms(1,3-7) _ mm] cf by blast
  moreover have "seg' = seg" using assms(8) [of w0] calculation(1) by auto
  ultimately show ?thesis using False mm by auto
qed (simp add: mmap_fixed_def)

lemma mmap_fixed_replaces_range_example:
  "if (0x2000::usize) < LOWER_LIMIT
   then mmap_fixed demo_ops demo_map 0x2000 0x4000 (\<lambda>w. Some (\<lparr>demo_start = 0x2000, demo_end = 0x4000, demo_flags = 2\<rparr>, w)) ()
      = Some (None, demo_map, ())
   else \<exists>m' w'. mmap_fixed demo_ops demo_map 0x2000 0x4000
        (\<lambda>w. Some (\<lparr>demo_start = 0x2000, demo_end = 0x4000, demo_flags = 2\<rparr>, w)) () = Some (Some 0x2000, m', w') \<and>
      ram_wf m' \<and> ram_covers demo_covers m' \<and>
      ram_abs (\<lambda>seg _. demo_flags seg) m' = ram_abs (\<lambda>seg _. demo_flags seg) demo_map ++
        (\<lambda>p. if p \<in> {0x2000..<0x4000} then Some 2 else None)"
  using mmap_fixed_replaces_range [OF demo_segment demo_never_panics demo_map_ok, of "0x2000" "0x4000"
      "\<lambda>w. Some (\<lparr>demo_start = 0x2000, demo_end = 0x4000, demo_flags = 2\<rparr>, w)"
      "\<lparr>demo_start = 0x2000, demo_end = 0x4000, demo_flags = 2\<rparr>" "()"]
  by (simp add: demo_covers_def cong: if_cong)

text \<open>C23: \<^verbatim>\<open>mmap_anywhere(hint, len, f)\<close> is first fit: where no address sum overflows, it takes the least
  address not below \<open>hint\<close> and \<^verbatim>\<open>LOWER_LIMIT\<close> whose \<open>len\<close> bytes are free, and inserts there.\<close>

theorem mmap_anywhere_first_fit:
  assumes "segment ops covers attr upd cutpos" and "ram_wf m" and "ram_covers covers m" and "0 < len"
    and "unat (max hint LOWER_LIMIT) + unat len < 2 ^ 64"
    and "\<And>a. a \<in> areas m \<Longrightarrow> unat (ra_end a) + unat len < 2 ^ 64"
    and "\<And>start w. f start w = Some (seg start, w)" and "\<And>start. covers (seg start) start (start + len)"
  shows "\<exists>a m'. mmap_anywhere m hint len f w = Some (Some a, m', w) \<and>
    max hint LOWER_LIMIT \<le> a \<and> range_free (areas m) a len \<and>
    (\<forall>b. max hint LOWER_LIMIT \<le> b \<and> range_free (areas m) b len \<longrightarrow> a \<le> b) \<and>
    ram_wf m' \<and> ram_covers covers m' \<and>
    ram_abs attr m' = ram_abs attr m ++ (\<lambda>p. if p \<in> {a..<a + len} then Some (attr (seg a) p) else None)"
proof -
  obtain a where a: "find_free_area m hint len = Some a" "max hint LOWER_LIMIT \<le> a"
      "unat a + unat len < 2 ^ 64" "range_free (areas m) a len"
      "\<forall>b \<ge> max hint LOWER_LIMIT. range_free (areas m) b len \<longrightarrow> a \<le> b"
    using find_free_area_first_fit [OF assms(2,5)] assms(6) by blast
  have lt: "a < a + len"
    using a(3) assms(4) by (simp add: word_less_nat_alt unat_add_small)
  note ins = segment.insert_raw_abs [OF assms(1-3) lt assms(8) range_free_abs [OF assms(2) a(4,3)]]
  have "mmap_anywhere m hint len f w = Some (Some a, insert_raw m a (a + len) (seg a), w)"
    by (simp add: mmap_anywhere_def a(1) assms(7))
  with ins a show ?thesis by auto
qed

theorem mmap_anywhere_first_fit_witness:
  "\<exists>a m'. mmap_anywhere demo_map 0x2000 0x2000
      (\<lambda>s w. Some (\<lparr>demo_start = s, demo_end = s + 0x2000, demo_flags = 2\<rparr>, w)) () = Some (Some a, m', ()) \<and>
    max 0x2000 LOWER_LIMIT \<le> a \<and> range_free (areas demo_map) a 0x2000 \<and>
    (\<forall>b. max 0x2000 LOWER_LIMIT \<le> b \<and> range_free (areas demo_map) b 0x2000 \<longrightarrow> a \<le> b) \<and>
    ram_wf m' \<and> ram_covers demo_covers m' \<and>
    ram_abs (\<lambda>seg _. demo_flags seg) m' = ram_abs (\<lambda>seg _. demo_flags seg) demo_map ++
      (\<lambda>p. if p \<in> {a..<a + 0x2000} then Some 2 else None)"
proof -
  have "unat (ra_end a) + unat (0x2000::usize) < 2 ^ 64" if "a \<in> areas demo_map" for a
    using that by (simp add: areas_def demo_map_def insert_raw_def ram_new_def)
  then show ?thesis
    using mmap_anywhere_first_fit [OF demo_segment demo_map_ok, of "0x2000" "0x2000"
        "\<lambda>s w. Some (\<lparr>demo_start = s, demo_end = s + 0x2000, demo_flags = 2\<rparr>, w)"
        "\<lambda>s. \<lparr>demo_start = s, demo_end = s + 0x2000, demo_flags = 2\<rparr>" "()"]
    by (simp add: demo_covers_def LOWER_LIMIT_def cong: if_cong)
qed

text \<open>\<^verbatim>\<open>find(pos)\<close> reads the partial function the map stands for: it finds a segment exactly when some
  interval holds \<open>pos\<close>, and then that interval's segment.\<close>

lemma find_reads_map:
  assumes "ram_wf m"
  shows "(ram_find m p = Some seg \<longleftrightarrow> (\<exists>a \<in> areas m. ra_contains a p \<and> ra_segment a = seg)) \<and>
    map_option (\<lambda>seg. attr seg p) (ram_find m p) = ram_abs attr m p"
proof (intro conjI iffI)
  show "\<exists>a \<in> areas m. ra_contains a p \<and> ra_segment a = seg" if "ram_find m p = Some seg"
    using that by (rule ram_find_sound)
  show "ram_find m p = Some seg" if "\<exists>a \<in> areas m. ra_contains a p \<and> ra_segment a = seg"
    using that ram_find_in [OF assms] by blast
qed (rule ram_find_abs [OF assms])

lemma find_reads_map_example:
  "(ram_find demo_map 0x5678 = Some \<lparr>demo_start = 0x3000, demo_end = 0x7000, demo_flags = 6\<rparr> \<longleftrightarrow>
      (\<exists>a \<in> areas demo_map. ra_contains a 0x5678 \<and>
         ra_segment a = \<lparr>demo_start = 0x3000, demo_end = 0x7000, demo_flags = 6\<rparr>)) \<and>
    map_option demo_flags (ram_find demo_map 0x5678) = ram_abs (\<lambda>seg _. demo_flags seg) demo_map 0x5678"
  by (rule find_reads_map [OF demo_map_ok(1), where attr = "\<lambda>seg _. demo_flags seg"])

text \<open>The limit test of \<^verbatim>\<open>find_free_area\<close> is void: with \<^verbatim>\<open>UPPER_LIMIT = usize::MAX\<close> and wrapping sums it
  never answers \<^verbatim>\<open>None\<close>. A length that does not fit then yields an interval that ends before it starts:
  after \<^verbatim>\<open>mmap_anywhere(0, usize::MAX)\<close> the map is no longer well formed.\<close>

lemma find_free_area_limit_void:
  "find_free_area m hint len \<noteq> None \<and>
   (\<exists>m'. mmap_anywhere (ram_new 0) 0 0xffffffffffffffff (\<lambda>s w. Some (s, w)) () = Some (Some 0x1000, m', ()) \<and>
      \<not> ram_wf m')"
proof -
  have "find_free_loop xs cur len \<noteq> None" for xs :: "(usize, 'a range_area) btree" and cur
  proof (induction xs arbitrary: cur)
    case Nil
    show ?case by simp
  qed (auto split: prod.split)
  moreover have "mmap_anywhere (ram_new 0) 0 0xffffffffffffffff (\<lambda>s w. Some (s, w)) () =
      Some (Some 0x1000, insert_raw (ram_new 0) 0x1000 0xfff 0x1000, ())"
    by (simp add: mmap_anywhere_def find_free_area_def ram_new_def insert_raw_def LOWER_LIMIT_def)
  moreover have "\<not> ram_wf (insert_raw (ram_new 0) 0x1000 0xfff (0x1000::usize))"
    by (simp add: insert_raw_def ram_new_def ram_wf_def)
  ultimately show ?thesis by (auto simp: find_free_area_def)
qed

end
