(* ===== verification/Bitmap.thy ===== *)
theory Bitmap
  imports Prelude
begin

text \<open>
  The radix-tree bitmap of \<^verbatim>\<open>dependencies/bitmap-allocator\<close>, from which the kernel builds its thread-id,
  file-descriptor and page-frame allocators. Bit 1 means free.

  \<^verbatim>\<open>trait BitAlloc\<close> is the record \<open>bit_alloc\<close> of its items; the two implementations are the leaf
  \<open>bitalloc16\<close> (\<^verbatim>\<open>BitAlloc16\<close>) and the functor \<open>cascade16\<close> (\<^verbatim>\<open>BitAllocCascade16<T>\<close>), which takes the record
  of \<^verbatim>\<open>T\<close> as the generic impl does. A panic (failed assert, index out of bounds, \<^verbatim>\<open>unwrap\<close> of \<^verbatim>\<open>None\<close>) is \<open>None\<close>.
  Bit numbers are naturals: they stay below \<open>2 ^ 28\<close>, the largest capacity.

  The \<^verbatim>\<open>bit_field\<close> crate, which supplies \<^verbatim>\<open>get_bit\<close>, \<^verbatim>\<open>set_bit\<close>, \<^verbatim>\<open>get_bits\<close> and \<^verbatim>\<open>set_bits\<close> on \<^verbatim>\<open>u16\<close>, is a
  parameter of the model (\<open>bit_field16\<close>); \<open>bit_field_ok\<close> is its documented behaviour on ranges that are
  in bounds and not empty.

  Locale \<open>bit_allocator\<close> is the contract of the trait over the set of free bits. The leaf satisfies
  it, and the cascade of any allocator that satisfies it satisfies it again.
\<close>

subsection \<open>The bit\_field crate\<close>

record bit_field16 =
  bf_get_bit :: "u16 \<Rightarrow> nat \<Rightarrow> bool option"
  bf_set_bit :: "u16 \<Rightarrow> nat \<Rightarrow> bool \<Rightarrow> u16 option"
  bf_get_bits :: "u16 \<Rightarrow> nat \<Rightarrow> nat \<Rightarrow> u16 option"
  bf_set_bits :: "u16 \<Rightarrow> nat \<Rightarrow> nat \<Rightarrow> u16 \<Rightarrow> u16 option"

text \<open>Bit \<open>j\<close> of the value of \<^verbatim>\<open>set_bits(s..e, v)\<close>, and its demand that \<open>v\<close> fits the range.\<close>

definition bit_field_ok :: "bit_field16 \<Rightarrow> bool" where
  "bit_field_ok bf \<longleftrightarrow>
     (\<forall>x i. bf_get_bit bf x i = (if i < 16 then Some (bit x i) else None)) \<and>
     (\<forall>x i b. (i < 16 \<longrightarrow> (\<exists>y. bf_set_bit bf x i b = Some y \<and>
                 (\<forall>j < 16. bit y j \<longleftrightarrow> (if j = i then b else bit x j)))) \<and>
              (16 \<le> i \<longrightarrow> bf_set_bit bf x i b = None)) \<and>
     (\<forall>x s e. s < e \<and> e \<le> 16 \<longrightarrow> (\<exists>y. bf_get_bits bf x s e = Some y \<and>
                 (\<forall>j < 16. bit y j \<longleftrightarrow> j < e - s \<and> bit x (s + j)))) \<and>
     (\<forall>x s e v. s < e \<and> e \<le> 16 \<and> (\<forall>j < 16. e - s \<le> j \<longrightarrow> \<not> bit v j) \<longrightarrow>
        (\<exists>y. bf_set_bits bf x s e v = Some y \<and>
           (\<forall>j < 16. bit y j \<longleftrightarrow> (if s \<le> j \<and> j < e then bit v (j - s) else bit x j)))) \<and>
     (\<forall>x s e v. s < e \<and> 16 < e \<longrightarrow> bf_set_bits bf x s e v = None)"

subsection \<open>trait BitAlloc\<close>

record 't bit_alloc =
  CAP :: nat
  DEFAULT :: 't
  ba_alloc :: "'t \<Rightarrow> (nat option \<times> 't) option"
  ba_next :: "'t \<Rightarrow> nat \<Rightarrow> nat option option"
  ba_dealloc :: "'t \<Rightarrow> nat \<Rightarrow> 't option"
  ba_insert :: "'t \<Rightarrow> nat \<Rightarrow> nat \<Rightarrow> 't option"
  ba_remove :: "'t \<Rightarrow> nat \<Rightarrow> nat \<Rightarrow> 't option"
  ba_any :: "'t \<Rightarrow> bool"
  ba_is_empty :: "'t \<Rightarrow> bool"
  ba_test :: "'t \<Rightarrow> nat \<Rightarrow> bool option"

definition trailing_zeros :: "u16 \<Rightarrow> nat" where
  "trailing_zeros x = length (takeWhile (\<lambda>i. \<not> bit x i) [0..<16])"

subsection \<open>find\_contiguous and alloc\_contiguous\<close>

text \<open>The shift amount of \<^verbatim>\<open><<\<close> and \<^verbatim>\<open>>>\<close> on \<^verbatim>\<open>usize\<close> is taken modulo 64 in release builds: \<open>al\<close> below is
  the reduced amount.\<close>

lemma align_next_gt: "n < (n div 2 ^ al + 1) * 2 ^ al" for n :: nat
  using dividend_less_div_times [of "2 ^ al" n] by (simp add: add.commute)

lemma align_next_less: "k < nxt \<Longrightarrow> k < Suc ((nxt - Suc 0) div 2 ^ al) * 2 ^ al" for k nxt :: nat
  using align_next_gt [of "nxt - 1" al] by simp

function find_contiguous_loop ::
  "'t bit_alloc \<Rightarrow> 't \<Rightarrow> nat \<Rightarrow> nat \<Rightarrow> nat \<Rightarrow> nat \<Rightarrow> nat \<Rightarrow> nat option option" where
  "find_contiguous_loop T ba capacity sz al base offset =
     (if offset < capacity then
        (case ba_next T ba offset of
           None \<Rightarrow> None
         | Some None \<Rightarrow> Some None
         | Some (Some nxt) \<Rightarrow>
             if nxt \<noteq> offset then
               (if nxt > offset then
                  (let base = ((nxt - 1) div 2 ^ al + 1) * 2 ^ al
                   in find_contiguous_loop T ba capacity sz al base base)
                else None)
             else if offset + 1 - base = sz then Some (Some base)
             else find_contiguous_loop T ba capacity sz al base (offset + 1))
      else Some None)"
  by pat_completeness auto
termination
  by (relation "measure (\<lambda>(T, ba, capacity, sz, al, base, offset). capacity - offset)")
    (auto intro!: diff_less_mono2 align_next_less simp del: mult_Suc)

declare find_contiguous_loop.simps [simp del]

definition find_contiguous :: "'t bit_alloc \<Rightarrow> 't \<Rightarrow> nat \<Rightarrow> nat \<Rightarrow> nat \<Rightarrow> nat option option" where
  "find_contiguous T ba capacity sz align_log2 =
     (let al = align_log2 mod 64 in
      if capacity < 2 ^ al \<or> ba_is_empty T ba then Some None
      else find_contiguous_loop T ba capacity sz al 0 0)"

text \<open>The two impls of \<^verbatim>\<open>alloc_contiguous\<close> have the same body.\<close>

definition ba_alloc_contiguous :: "'t bit_alloc \<Rightarrow> 't \<Rightarrow> nat \<Rightarrow> nat \<Rightarrow> (nat option \<times> 't) option" where
  "ba_alloc_contiguous T ba sz align_log2 = do {
     r \<leftarrow> find_contiguous T ba (CAP T) sz align_log2;
     (case r of
        Some base \<Rightarrow> do {
          ba \<leftarrow> ba_remove T ba base (base + sz);
          Some (Some base, ba)
        }
      | None \<Rightarrow> Some (None, ba))
   }"

subsection \<open>BitAlloc16\<close>

definition ba16_alloc :: "bit_field16 \<Rightarrow> u16 \<Rightarrow> (nat option \<times> u16) option" where
  "ba16_alloc bf x =
     (let i = trailing_zeros x in
      if i < 16 then do {
        x \<leftarrow> bf_set_bit bf x i False;
        Some (Some i, x)
      } else Some (None, x))"

definition ba16_test :: "bit_field16 \<Rightarrow> u16 \<Rightarrow> nat \<Rightarrow> bool option" where
  "ba16_test bf x key = bf_get_bit bf x key"

definition ba16_dealloc :: "bit_field16 \<Rightarrow> u16 \<Rightarrow> nat \<Rightarrow> u16 option" where
  "ba16_dealloc bf x key = do {
     b \<leftarrow> ba16_test bf x key;
     if \<not> b then bf_set_bit bf x key True else None
   }"

definition ba16_insert :: "bit_field16 \<Rightarrow> u16 \<Rightarrow> nat \<Rightarrow> nat \<Rightarrow> u16 option" where
  "ba16_insert bf x start end = do {
     ones \<leftarrow> bf_get_bits bf 0xffff start end;
     bf_set_bits bf x start end ones
   }"

definition ba16_remove :: "bit_field16 \<Rightarrow> u16 \<Rightarrow> nat \<Rightarrow> nat \<Rightarrow> u16 option" where
  "ba16_remove bf x start end = bf_set_bits bf x start end 0"

definition ba16_is_empty :: "u16 \<Rightarrow> bool" where
  "ba16_is_empty x \<longleftrightarrow> x = 0"

definition ba16_any :: "u16 \<Rightarrow> bool" where
  "ba16_any x \<longleftrightarrow> \<not> ba16_is_empty x"

text \<open>\<^verbatim>\<open>(key..CAP).find(|i| get_bit(i))\<close>\<close>

fun find_bit :: "bit_field16 \<Rightarrow> u16 \<Rightarrow> nat list \<Rightarrow> nat option option" where
  "find_bit bf x [] = Some None"
| "find_bit bf x (i # is) = do {
     b \<leftarrow> bf_get_bit bf x i;
     if b then Some (Some i) else find_bit bf x is
   }"

definition ba16_next :: "bit_field16 \<Rightarrow> u16 \<Rightarrow> nat \<Rightarrow> nat option option" where
  "ba16_next bf x key = find_bit bf x [key..<16]"

definition bitalloc16 :: "bit_field16 \<Rightarrow> u16 bit_alloc" where
  "bitalloc16 bf = \<lparr>
     CAP = 16, DEFAULT = 0,
     ba_alloc = ba16_alloc bf, ba_next = ba16_next bf, ba_dealloc = ba16_dealloc bf,
     ba_insert = ba16_insert bf, ba_remove = ba16_remove bf, ba_any = ba16_any,
     ba_is_empty = ba16_is_empty, ba_test = ba16_test bf\<rparr>"

subsection \<open>BitAllocCascade16\<close>

record 't bit_alloc_cascade16 =
  bitset :: u16
  sub :: "'t list"

text \<open>Reading \<^verbatim>\<open>self.sub[i]\<close> panics out of bounds.\<close>

definition at :: "'a list \<Rightarrow> nat \<Rightarrow> 'a option" where
  "at xs i = (if i < length xs then Some (xs ! i) else None)"

definition cascade_is_empty :: "'t bit_alloc_cascade16 \<Rightarrow> bool" where
  "cascade_is_empty self \<longleftrightarrow> bitset self = 0"

definition cascade_any :: "'t bit_alloc_cascade16 \<Rightarrow> bool" where
  "cascade_any self \<longleftrightarrow> \<not> cascade_is_empty self"

definition cascade_alloc ::
  "bit_field16 \<Rightarrow> 't bit_alloc \<Rightarrow> 't bit_alloc_cascade16 \<Rightarrow> (nat option \<times> 't bit_alloc_cascade16) option" where
  "cascade_alloc bf T self =
     (if \<not> cascade_is_empty self then do {
        let i = trailing_zeros (bitset self);
        s \<leftarrow> at (sub self) i;
        (r, s) \<leftarrow> ba_alloc T s;
        k \<leftarrow> r;
        let res = k + i * CAP T;
        bs \<leftarrow> bf_set_bit bf (bitset self) i (\<not> ba_is_empty T s);
        Some (Some res, \<lparr>bitset = bs, sub = (sub self)[i := s]\<rparr>)
      }
      else Some (None, self))"

definition cascade_dealloc ::
  "bit_field16 \<Rightarrow> 't bit_alloc \<Rightarrow> 't bit_alloc_cascade16 \<Rightarrow> nat \<Rightarrow> 't bit_alloc_cascade16 option" where
  "cascade_dealloc bf T self key = do {
     let i = key div CAP T;
     s \<leftarrow> at (sub self) i;
     s \<leftarrow> ba_dealloc T s (key mod CAP T);
     bs \<leftarrow> bf_set_bit bf (bitset self) i True;
     Some \<lparr>bitset = bs, sub = (sub self)[i := s]\<rparr>
   }"

text \<open>The loop of \<^verbatim>\<open>for_range\<close>, from \<open>i\<close> to \<open>lst\<close> inclusive.\<close>

function for_range_loop ::
  "bit_field16 \<Rightarrow> 't bit_alloc \<Rightarrow> ('t \<Rightarrow> nat \<Rightarrow> nat \<Rightarrow> 't option) \<Rightarrow> nat \<Rightarrow> nat \<Rightarrow> nat \<Rightarrow> nat \<Rightarrow>
     't bit_alloc_cascade16 \<Rightarrow> 't bit_alloc_cascade16 option" where
  "for_range_loop bf T f start end i lst self =
     (if i \<le> lst then
        (let b = (if start div CAP T = i then start mod CAP T else 0);
             e = (if end div CAP T = i then end mod CAP T else CAP T)
         in case at (sub self) i of
              None \<Rightarrow> None
            | Some s \<Rightarrow>
                (case f s b e of
                   None \<Rightarrow> None
                 | Some s \<Rightarrow>
                     (case bf_set_bit bf (bitset self) i (\<not> ba_is_empty T s) of
                        None \<Rightarrow> None
                      | Some bs \<Rightarrow>
                          for_range_loop bf T f start end (Suc i) lst
                            \<lparr>bitset = bs, sub = (sub self)[i := s]\<rparr>)))
      else Some self)"
  by pat_completeness auto
termination
  by (relation "measure (\<lambda>(bf, T, f, start, end, i, lst, self). Suc lst - i)") auto

declare for_range_loop.simps [simp del]

text \<open>\<^verbatim>\<open>end - 1\<close> wraps at 0.\<close>

definition for_range ::
  "bit_field16 \<Rightarrow> 't bit_alloc \<Rightarrow> 't bit_alloc_cascade16 \<Rightarrow> nat \<Rightarrow> nat \<Rightarrow>
     ('t \<Rightarrow> nat \<Rightarrow> nat \<Rightarrow> 't option) \<Rightarrow> 't bit_alloc_cascade16 option" where
  "for_range bf T self start end f =
     (if start \<le> end \<and> end \<le> CAP T * 16 then
        for_range_loop bf T f start end (start div CAP T)
          ((if end = 0 then 2 ^ 64 - 1 else end - 1) div CAP T) self
      else None)"

definition cascade_insert ::
  "bit_field16 \<Rightarrow> 't bit_alloc \<Rightarrow> 't bit_alloc_cascade16 \<Rightarrow> nat \<Rightarrow> nat \<Rightarrow> 't bit_alloc_cascade16 option" where
  "cascade_insert bf T self start end = for_range bf T self start end (ba_insert T)"

definition cascade_remove ::
  "bit_field16 \<Rightarrow> 't bit_alloc \<Rightarrow> 't bit_alloc_cascade16 \<Rightarrow> nat \<Rightarrow> nat \<Rightarrow> 't bit_alloc_cascade16 option" where
  "cascade_remove bf T self start end = for_range bf T self start end (ba_remove T)"

definition cascade_test :: "'t bit_alloc \<Rightarrow> 't bit_alloc_cascade16 \<Rightarrow> nat \<Rightarrow> bool option" where
  "cascade_test T self key = do {
     s \<leftarrow> at (sub self) (key div CAP T);
     ba_test T s (key mod CAP T)
   }"

text \<open>\<^verbatim>\<open>(idx..16).find_map(..)\<close>\<close>

fun cascade_next_loop ::
  "bit_field16 \<Rightarrow> 't bit_alloc \<Rightarrow> 't bit_alloc_cascade16 \<Rightarrow> nat \<Rightarrow> nat list \<Rightarrow> nat option option" where
  "cascade_next_loop bf T self key [] = Some None"
| "cascade_next_loop bf T self key (i # is) = do {
     b \<leftarrow> bf_get_bit bf (bitset self) i;
     if b then do {
       let k = (if i = key div CAP T then key - CAP T * (key div CAP T) else 0);
       s \<leftarrow> at (sub self) i;
       r \<leftarrow> ba_next T s k;
       (case r of
          Some x \<Rightarrow> Some (Some (x + CAP T * i))
        | None \<Rightarrow> cascade_next_loop bf T self key is)
     }
     else cascade_next_loop bf T self key is
   }"

definition cascade_next ::
  "bit_field16 \<Rightarrow> 't bit_alloc \<Rightarrow> 't bit_alloc_cascade16 \<Rightarrow> nat \<Rightarrow> nat option option" where
  "cascade_next bf T self key = cascade_next_loop bf T self key [key div CAP T..<16]"

definition cascade16 :: "bit_field16 \<Rightarrow> 't bit_alloc \<Rightarrow> 't bit_alloc_cascade16 bit_alloc" where
  "cascade16 bf T = \<lparr>
     CAP = CAP T * 16, DEFAULT = \<lparr>bitset = 0, sub = replicate 16 (DEFAULT T)\<rparr>,
     ba_alloc = cascade_alloc bf T, ba_next = cascade_next bf T, ba_dealloc = cascade_dealloc bf T,
     ba_insert = cascade_insert bf T, ba_remove = cascade_remove bf T, ba_any = cascade_any,
     ba_is_empty = cascade_is_empty, ba_test = cascade_test T\<rparr>"

type_synonym bit_alloc256 = "u16 bit_alloc_cascade16"
type_synonym bit_alloc4k = "bit_alloc256 bit_alloc_cascade16"
type_synonym bit_alloc64k = "bit_alloc4k bit_alloc_cascade16"
type_synonym bit_alloc1m = "bit_alloc64k bit_alloc_cascade16"
type_synonym bit_alloc16m = "bit_alloc1m bit_alloc_cascade16"

definition BitAlloc256 :: "bit_field16 \<Rightarrow> bit_alloc256 bit_alloc" where
  "BitAlloc256 bf = cascade16 bf (bitalloc16 bf)"

definition BitAlloc4K :: "bit_field16 \<Rightarrow> bit_alloc4k bit_alloc" where
  "BitAlloc4K bf = cascade16 bf (BitAlloc256 bf)"

definition BitAlloc64K :: "bit_field16 \<Rightarrow> bit_alloc64k bit_alloc" where
  "BitAlloc64K bf = cascade16 bf (BitAlloc4K bf)"

definition BitAlloc1M :: "bit_field16 \<Rightarrow> bit_alloc1m bit_alloc" where
  "BitAlloc1M bf = cascade16 bf (BitAlloc64K bf)"

definition BitAlloc16M :: "bit_field16 \<Rightarrow> bit_alloc16m bit_alloc" where
  "BitAlloc16M bf = cascade16 bf (BitAlloc1M bf)"

subsection \<open>Lemmas on the bits of a word\<close>

lemma u16_eq_0_iff: "x = 0 \<longleftrightarrow> (\<forall>i < 16. \<not> bit x i)" for x :: u16
  by (auto simp: bit_eq_iff)

lemma trailing_zeros_less:
  assumes "x \<noteq> 0"
  shows "trailing_zeros x < 16" "bit x (trailing_zeros x)"
proof -
  let ?tw = "takeWhile (\<lambda>i. \<not> bit x i) [0..<16]"
  obtain i where "i < 16" "bit x i" using assms u16_eq_0_iff by blast
  then have "?tw \<noteq> [0..<16]"
    by (auto)
  then show *: "trailing_zeros x < 16"
    using length_takeWhile_le [of "\<lambda>i. \<not> bit x i" "[0..<16]"] takeWhile_eq_take [of "\<lambda>i. \<not> bit x i" "[0..<16]"]
    by (metis diff_zero le_neq_implies_less length_upt take_all_iff trailing_zeros_def order_refl)
  show "bit x (trailing_zeros x)"
    using nth_length_takeWhile [of "\<lambda>i. \<not> bit x i" "[0..<16]"] * by (simp add: trailing_zeros_def)
qed

lemma trailing_zeros_least:
  assumes "j < trailing_zeros x"
  shows "\<not> bit x j"
proof -
  let ?tw = "takeWhile (\<lambda>i. \<not> bit x i) [0..<16]"
  have j: "j < length ?tw" using assms by (simp add: trailing_zeros_def)
  then have "?tw ! j = [0..<16] ! j" by (rule takeWhile_nth)
  moreover have "j < 16" using j length_takeWhile_le [of "\<lambda>i. \<not> bit x i" "[0..<16]"] by simp
  ultimately show ?thesis using set_takeWhileD [OF nth_mem [OF j]] by simp
qed

lemma trailing_zeros_0 [simp]: "trailing_zeros 0 = 16"
proof -
  have "takeWhile (\<lambda>i. True) [0..<16 :: nat] = [0..<16]" by (subst takeWhile_eq_all_conv) simp
  then show ?thesis by (simp add: trailing_zeros_def del: takeWhile_eq_all_conv)
qed

text \<open>The least element of a set not below a key.\<close>

definition least_ge :: "nat set \<Rightarrow> nat \<Rightarrow> nat option" where
  "least_ge S k = (if \<exists>j\<in>S. k \<le> j then Some (LEAST j. j \<in> S \<and> k \<le> j) else None)"

lemma least_ge_SomeD:
  assumes "least_ge S k = Some m"
  shows "m \<in> S" "k \<le> m" "\<And>j. j \<in> S \<Longrightarrow> k \<le> j \<Longrightarrow> m \<le> j"
  using assms LeastI_ex [of "\<lambda>j. j \<in> S \<and> k \<le> j"] 
  by (auto simp: least_ge_def intro: Least_le split: if_splits)

lemma least_ge_NoneD: "least_ge S k = None \<Longrightarrow> j \<in> S \<Longrightarrow> j < k"
  by (force simp: least_ge_def split: if_splits)

lemma least_ge_SomeI: "m \<in> S \<Longrightarrow> k \<le> m \<Longrightarrow> (\<And>j. j \<in> S \<Longrightarrow> k \<le> j \<Longrightarrow> m \<le> j) \<Longrightarrow> least_ge S k = Some m"
  by (auto simp: least_ge_def intro!: Least_equality)

lemma least_ge_NoneI: "(\<And>j. j \<in> S \<Longrightarrow> j < k) \<Longrightarrow> least_ge S k = None"
  by (force simp: least_ge_def)

lemma least_ge_step: "k \<notin> S \<Longrightarrow> least_ge S (Suc k) = least_ge S k"
proof -
  assume "k \<notin> S"
  then have "(j \<in> S \<and> Suc k \<le> j) = (j \<in> S \<and> k \<le> j)" for j
    by (cases "j = k") auto
  then show ?thesis by (simp add: least_ge_def Bex_def)
qed

lemmas bf_rest = bit_field_ok_def [THEN iffD1, THEN conjunct2]

lemmas bf_set_bit_law = bf_rest [THEN conjunct1, rule_format, THEN conjunct1, rule_format]
lemmas bf_get_bits_law = bf_rest [THEN conjunct2, THEN conjunct1, rule_format]
lemmas bf_set_bits_law = bf_rest [THEN conjunct2, THEN conjunct2, THEN conjunct1, rule_format]

lemma bf_get_bit_ok: "bit_field_ok bf \<Longrightarrow> bf_get_bit bf x i = (if i < 16 then Some (bit x i) else None)"
  by (simp add: bit_field_ok_def)

lemma bf_set_bit_ok:
  assumes "bit_field_ok bf" "i < 16"
  obtains y where "bf_set_bit bf x i b = Some y"
    "\<And>j. j < 16 \<Longrightarrow> bit y j \<longleftrightarrow> (if j = i then b else bit x j)"
  using bf_set_bit_law [OF assms] by blast

lemma bf_set_bit_oob: "bit_field_ok bf \<Longrightarrow> 16 \<le> i \<Longrightarrow> bf_set_bit bf x i b = None"
  by (simp add: bit_field_ok_def)

lemma bf_get_bits_ok:
  assumes "bit_field_ok bf" "s < e" "e \<le> 16"
  obtains y where "bf_get_bits bf x s e = Some y"
    "\<And>j. j < 16 \<Longrightarrow> bit y j \<longleftrightarrow> j < e - s \<and> bit x (s + j)"
  using bf_get_bits_law [of bf s e x] assms by blast

lemma bf_set_bits_ok:
  assumes "bit_field_ok bf" "s < e" "e \<le> 16" "\<And>j. j < 16 \<Longrightarrow> e - s \<le> j \<Longrightarrow> \<not> bit v j"
  obtains y where "bf_set_bits bf x s e v = Some y"
    "\<And>j. j < 16 \<Longrightarrow> bit y j \<longleftrightarrow> (if s \<le> j \<and> j < e then bit v (j - s) else bit x j)"
  using bf_set_bits_law [of bf s e v x] assms by blast

lemma bf_set_bits_oob: "bit_field_ok bf \<Longrightarrow> s < e \<Longrightarrow> 16 < e \<Longrightarrow> bf_set_bits bf x s e v = None"
  by (simp add: bit_field_ok_def)

text \<open>First fit: the aligned positions from which \<open>sz\<close> members of \<open>F\<close> follow each other.\<close>

definition fits :: "nat set \<Rightarrow> nat \<Rightarrow> nat \<Rightarrow> nat set" where
  "fits F sz al = {b. 2 ^ al dvd b \<and> {b..<b + sz} \<subseteq> F}"

lemma fits_last: "b \<in> fits F sz al \<Longrightarrow> 0 < sz \<Longrightarrow> b + sz - 1 \<in> F"
  by (auto simp: fits_def subset_iff)

subsection \<open>The contract of trait BitAlloc\<close>

text \<open>\<open>free t\<close> is the set of free bits, \<open>env\<close> what the implementation needs of the crates it uses.\<close>

locale bit_allocator =
  fixes T :: "'t bit_alloc"
    and ivr :: "'t \<Rightarrow> bool"
    and free :: "'t \<Rightarrow> nat set"
    and env :: bool
  assumes cap_pos: "0 < CAP T"
    and default_inv: "env \<Longrightarrow> ivr (DEFAULT T)"
    and default_free: "free (DEFAULT T) = {}"
    and free_bound: "ivr t \<Longrightarrow> x \<in> free t \<Longrightarrow> x < CAP T"
    and empty_iff: "ivr t \<Longrightarrow> ba_is_empty T t \<longleftrightarrow> free t = {}"
    and any_iff: "ivr t \<Longrightarrow> ba_any T t \<longleftrightarrow> free t \<noteq> {}"
    and alloc_none: "ivr t \<Longrightarrow> free t = {} \<Longrightarrow> ba_alloc T t = Some (None, t)"
    and alloc_some: "ivr t \<Longrightarrow> free t \<noteq> {} \<Longrightarrow>
      \<exists>t'. ba_alloc T t = Some (least_ge (free t) 0, t') \<and> ivr t' \<and>
           free t' = free t - {the (least_ge (free t) 0)}"
    and dealloc_ok: "ivr t \<Longrightarrow> k < CAP T \<Longrightarrow> k \<notin> free t \<Longrightarrow>
      \<exists>t'. ba_dealloc T t k = Some t' \<and> ivr t' \<and> free t' = insert k (free t)"
    and dealloc_panic: "ivr t \<Longrightarrow> k \<in> free t \<or> CAP T \<le> k \<Longrightarrow> ba_dealloc T t k = None"
    and insert_ok: "ivr t \<Longrightarrow> s < e \<Longrightarrow> e \<le> CAP T \<Longrightarrow>
      \<exists>t'. ba_insert T t s e = Some t' \<and> ivr t' \<and> free t' = free t \<union> {s..<e}"
    and insert_panic: "ivr t \<Longrightarrow> s < e \<Longrightarrow> CAP T < e \<Longrightarrow> ba_insert T t s e = None"
    and remove_ok: "ivr t \<Longrightarrow> s < e \<Longrightarrow> e \<le> CAP T \<Longrightarrow>
      \<exists>t'. ba_remove T t s e = Some t' \<and> ivr t' \<and> free t' = free t - {s..<e}"
    and test_ok: "ivr t \<Longrightarrow> ba_test T t k = (if k < CAP T then Some (k \<in> free t) else None)"
    and next_ok: "ivr t \<Longrightarrow> ba_next T t k = Some (least_ge (free t) k)"
begin

lemma default_test: "env \<Longrightarrow> k < CAP T \<Longrightarrow> ba_test T (DEFAULT T) k = Some False"
  using test_ok [OF default_inv] default_free by simp

text \<open>No aligned position up to a gap at \<open>[offset, nxt)\<close> fits, so the search goes on at the next aligned one.\<close>

lemma no_fit_before_gap:
  assumes "0 < sz" "base \<le> offset" "offset - base < sz" "\<And>j. offset \<le> j \<Longrightarrow> j < nxt \<Longrightarrow> j \<notin> free t" "offset < nxt"
    and "\<And>b. b \<in> fits (free t) sz al \<Longrightarrow> base \<le> b" and b: "b \<in> fits (free t) sz al"
  shows "((nxt - 1) div 2 ^ al + 1) * 2 ^ al \<le> b"
proof -
  have "base \<le> b" and fit: "2 ^ al dvd b" "\<And>j. b \<le> j \<Longrightarrow> j < b + sz \<Longrightarrow> j \<in> free t"
    using assms(6) b by (auto simp: fits_def)
  have "nxt \<le> b"
  proof (rule ccontr)
    assume "\<not> nxt \<le> b"
    moreover have "max offset b < b + sz" using assms(1,3) \<open>base \<le> b\<close> by linarith
    ultimately show False using assms(4) [of "max offset b"] assms(5) fit(2) [of "max offset b"] by simp
  qed
  moreover obtain q where q: "b = q * 2 ^ al" using fit(1) by (metis dvd_def mult.commute)
  ultimately have "nxt - 1 < q * 2 ^ al" using assms(5) by linarith
  then have "(nxt - 1) div 2 ^ al < q" by (simp add: div_less_iff_less_mult)
  then show ?thesis using q by (metis Suc_eq_plus1 Suc_leI mult_le_mono1)
qed

lemma find_contiguous_loop_ok:
  assumes "ivr t" "0 < sz" "base \<le> offset" "offset - base < sz" "2 ^ al dvd base" "{base..<offset} \<subseteq> free t"
    and "\<And>b. b \<in> fits (free t) sz al \<Longrightarrow> base \<le> b"
  shows "find_contiguous_loop T t (CAP T) sz al base offset = Some (least_ge (fits (free t) sz al) 0)"
  using assms(3-)
proof (induction "CAP T - offset" arbitrary: base offset rule: less_induct)
  case less
  note nx = next_ok [OF assms(1), of offset]
  have nofit: "least_ge (fits (free t) sz al) 0 = None" if none: "\<And>j. j \<in> free t \<Longrightarrow> j < offset"
  proof -
    have False if b: "b \<in> fits (free t) sz al" for b
      using less.prems(5) [OF b] none [OF fits_last [OF b assms(2)]] less.prems(1,2) by linarith
    then show ?thesis by (intro least_ge_NoneI) blast
  qed
  show ?case
  proof (cases "offset < CAP T")
    case False
    then have "least_ge (fits (free t) sz al) 0 = None" using free_bound [OF assms(1)] by (intro nofit) fastforce
    then show ?thesis using False by (subst find_contiguous_loop.simps) simp
  next
    case cap: True
    show ?thesis
    proof (cases "least_ge (free t) offset")
      case None
      then show ?thesis using cap nx nofit least_ge_NoneD [OF None]
        by (subst find_contiguous_loop.simps) simp
    next
      case (Some nxt)
      note m = least_ge_SomeD [OF Some]
      let ?base = "((nxt - 1) div 2 ^ al + 1) * 2 ^ al"
      consider "offset < nxt" | "nxt = offset" "offset + 1 - base = sz" | "nxt = offset" "offset + 1 - base \<noteq> sz"
        using m(2) by linarith
      then show ?thesis
      proof cases
        case 1
        have gap: "\<And>b. b \<in> fits (free t) sz al \<Longrightarrow> ?base \<le> b"
          by (rule no_fit_before_gap [OF assms(2) less.prems(1,2) _ 1 less.prems(5)]) (use m(3) in fastforce)+
        have "offset < ?base" using align_next_gt [of "nxt - 1" al] 1 by linarith
        then have "find_contiguous_loop T t (CAP T) sz al ?base ?base = Some (least_ge (fits (free t) sz al) 0)"
          using cap assms(2) gap by (intro less.hyps) auto
        then show ?thesis using cap nx Some 1 by (subst find_contiguous_loop.simps) (simp add: Let_def)
      next
        case 2
        have "{base..<base + sz} = insert offset {base..<offset}" using 2(2) less.prems(1) by auto
        then have "base \<in> fits (free t) sz al"
          using 2(1) less.prems(3,4) m(1) by (simp add: fits_def)
        then have "least_ge (fits (free t) sz al) 0 = Some base" using less.prems(5) by (intro least_ge_SomeI) auto
        then show ?thesis using cap nx Some 2 by (subst find_contiguous_loop.simps) simp
      next
        case 3
        have "{base..<offset + 1} \<subseteq> free t" using 3(1) less.prems(1,4) m(1) by (auto simp: subset_iff less_Suc_eq)
        then have "find_contiguous_loop T t (CAP T) sz al base (offset + 1) = Some (least_ge (fits (free t) sz al) 0)"
          using cap 3 less.prems by (intro less.hyps) auto
        then show ?thesis using cap nx Some 3 by (subst find_contiguous_loop.simps) simp
      qed
    qed
  qed
qed

lemma find_contiguous_ok:
  assumes "ivr t" "0 < sz" "al < 64"
  shows "find_contiguous T t (CAP T) sz al =
    Some (if CAP T < 2 ^ al then None else least_ge (fits (free t) sz al) 0)"
proof -
  have "least_ge (fits (free t) sz al) 0 = None" if "free t = {}"
    using that assms(2) by (intro least_ge_NoneI) (auto simp: fits_def)
  then show ?thesis using assms find_contiguous_loop_ok [of t sz 0 0 al] empty_iff [OF assms(1)]
    by (simp add: find_contiguous_def)
qed

lemma alloc_contiguous_ok:
  assumes "ivr t" "0 < sz" "al < 64"
  shows "case (if CAP T < 2 ^ al then None else least_ge (fits (free t) sz al) 0) of
      None \<Rightarrow> ba_alloc_contiguous T t sz al = Some (None, t)
    | Some b \<Rightarrow> \<exists>t'. ba_alloc_contiguous T t sz al = Some (Some b, t') \<and> ivr t' \<and>
        {b..<b + sz} \<subseteq> free t \<and> free t' = free t - {b..<b + sz}"
proof (cases "if CAP T < 2 ^ al then None else least_ge (fits (free t) sz al) 0")
  case None
  then show ?thesis using find_contiguous_ok [OF assms] by (simp add: ba_alloc_contiguous_def)
next
  case (Some b)
  then have b: "b \<in> fits (free t) sz al" using least_ge_SomeD(1) by (metis option.discI)
  then have "b + sz \<le> CAP T" using free_bound [OF assms(1) fits_last [OF b assms(2)]] by linarith
  then obtain t' where "ba_remove T t b (b + sz) = Some t'" "ivr t'" "free t' = free t - {b..<b + sz}"
    using remove_ok [OF assms(1), of b "b + sz"] assms(2) by auto
  then show ?thesis using Some b find_contiguous_ok [OF assms] by (simp add: ba_alloc_contiguous_def fits_def)
qed

end

subsection \<open>BitAlloc16 satisfies the contract\<close>

definition ba16_inv :: "bit_field16 \<Rightarrow> u16 \<Rightarrow> bool" where
  "ba16_inv bf x \<longleftrightarrow> bit_field_ok bf"

definition ba16_free :: "u16 \<Rightarrow> nat set" where
  "ba16_free x = {i. i < 16 \<and> bit x i}"

lemma ba16_free_empty: "ba16_free x = {} \<longleftrightarrow> x = 0"
  using u16_eq_0_iff [of x] by (auto simp: ba16_free_def)

lemma find_bit_ok:
  assumes "bit_field_ok bf" "e \<le> 16"
  shows "find_bit bf x [k..<e] = Some (least_ge {i. i < e \<and> bit x i} k)"
  using assms(2)
proof (induction "e - k" arbitrary: k)
  case 0
  then show ?case by (auto intro!: least_ge_NoneI [symmetric])
next
  case (Suc d)
  then have k: "[k..<e] = k # [Suc k..<e]" "k < 16" by (auto simp: upt_conv_Cons)
  show ?case
  proof (cases "bit x k")
    case True
    then show ?thesis using k assms(1) Suc.hyps(2)
      by (auto simp: bf_get_bit_ok intro!: least_ge_SomeI [symmetric])
  next
    case False
    then show ?thesis using k assms(1) Suc least_ge_step [of k "{i. i < e \<and> bit x i}"]
      by (simp add: bf_get_bit_ok)
  qed
qed

lemma ba16_alloc_ok:
  assumes "bit_field_ok bf" "x \<noteq> 0"
  shows "\<exists>y. ba16_alloc bf x = Some (least_ge (ba16_free x) 0, y) \<and>
             ba16_free y = ba16_free x - {the (least_ge (ba16_free x) 0)}"
proof -
  note tz = trailing_zeros_less [OF assms(2)]
  have "least_ge (ba16_free x) 0 = Some (trailing_zeros x)"
    using tz trailing_zeros_least by (auto intro!: least_ge_SomeI simp: ba16_free_def not_less [symmetric])
  moreover obtain y where "bf_set_bit bf x (trailing_zeros x) False = Some y"
    "\<And>j. j < 16 \<Longrightarrow> bit y j \<longleftrightarrow> (if j = trailing_zeros x then False else bit x j)"
    using bf_set_bit_ok [OF assms(1) tz(1)] by blast
  ultimately show ?thesis using tz by (auto simp: ba16_alloc_def ba16_free_def split: if_splits)
qed

lemma ba16_dealloc_ok:
  assumes "bit_field_ok bf" "k < 16" "k \<notin> ba16_free x"
  shows "\<exists>y. ba16_dealloc bf x k = Some y \<and> ba16_free y = insert k (ba16_free x)"
proof -
  obtain y where "bf_set_bit bf x k True = Some y"
    "\<And>j. j < 16 \<Longrightarrow> bit y j \<longleftrightarrow> (if j = k then True else bit x j)"
    using bf_set_bit_ok [OF assms(1,2)] by blast
  then show ?thesis using assms by (auto simp: ba16_dealloc_def ba16_test_def bf_get_bit_ok ba16_free_def)
qed

lemma ba16_insert_ok:
  assumes "bit_field_ok bf" "s < e" "e \<le> 16"
  shows "\<exists>y. ba16_insert bf x s e = Some y \<and> ba16_free y = ba16_free x \<union> {s..<e}"
proof -
  obtain v where v: "bf_get_bits bf 0xffff s e = Some v"
    "\<And>j. j < 16 \<Longrightarrow> bit v j \<longleftrightarrow> j < e - s \<and> bit (0xffff :: u16) (s + j)"
    using bf_get_bits_ok [OF assms] by blast
  have ones: "bit (0xffff :: u16) i" if "i < 16" for i
    using that by (auto simp: less_Suc_eq numeral_eq_Suc bit_numeral_rec)
  obtain y where "bf_set_bits bf x s e v = Some y"
    "\<And>j. j < 16 \<Longrightarrow> bit y j \<longleftrightarrow> (if s \<le> j \<and> j < e then bit v (j - s) else bit x j)"
    using bf_set_bits_ok [OF assms, of v x] v(2) by auto
  then show ?thesis using v assms ones by (auto simp: ba16_insert_def ba16_free_def)
qed

lemma ba16_remove_ok:
  assumes "bit_field_ok bf" "s < e" "e \<le> 16"
  shows "\<exists>y. ba16_remove bf x s e = Some y \<and> ba16_free y = ba16_free x - {s..<e}"
proof -
  obtain y where "bf_set_bits bf x s e 0 = Some y"
    "\<And>j. j < 16 \<Longrightarrow> bit y j \<longleftrightarrow> (if s \<le> j \<and> j < e then bit (0 :: u16) (j - s) else bit x j)"
    using bf_set_bits_ok [OF assms, of 0 x] by auto
  then show ?thesis by (auto simp: ba16_remove_def ba16_free_def split: if_splits)
qed

lemma ba16_dealloc_panic:
  "bit_field_ok bf \<Longrightarrow> k \<in> ba16_free x \<or> 16 \<le> k \<Longrightarrow> ba16_dealloc bf x k = None"
  by (auto simp: ba16_dealloc_def ba16_test_def bf_get_bit_ok ba16_free_def)

lemma ba16_insert_panic:
  "bit_field_ok bf \<Longrightarrow> s < e \<Longrightarrow> 16 < e \<Longrightarrow> ba16_insert bf x s e = None"
  by (auto simp: ba16_insert_def bf_set_bits_oob bind_eq_None_conv)

interpretation ba16: bit_allocator "bitalloc16 bf" "ba16_inv bf" ba16_free "bit_field_ok bf" for bf
proof (unfold_locales, goal_cases)
  case (8 t)
  then show ?case using ba16_alloc_ok by (simp add: bitalloc16_def ba16_inv_def ba16_free_empty)
next
  case (12 t s e)
  then show ?case using ba16_insert_panic by (simp add: bitalloc16_def ba16_inv_def)
next
  case (15 t k)
  then show ?case using find_bit_ok [of bf 16] by (simp add: bitalloc16_def ba16_inv_def ba16_next_def ba16_free_def)
qed (simp_all add: bitalloc16_def ba16_inv_def ba16_is_empty_def ba16_any_def ba16_free_empty ba16_alloc_def
      ba16_dealloc_ok ba16_dealloc_panic ba16_insert_ok ba16_remove_ok ba16_test_def bf_get_bit_ok,
     simp_all add: ba16_free_def)

subsection \<open>BitAllocCascade16 preserves the contract\<close>

definition casc_inv ::
  "bit_field16 \<Rightarrow> ('t \<Rightarrow> bool) \<Rightarrow> ('t \<Rightarrow> nat set) \<Rightarrow> 't bit_alloc_cascade16 \<Rightarrow> bool" where
  "casc_inv bf ivr free c \<longleftrightarrow> bit_field_ok bf \<and> length (sub c) = 16 \<and>
     (\<forall>i < 16. ivr (sub c ! i) \<and> (bit (bitset c) i \<longleftrightarrow> free (sub c ! i) \<noteq> {}))"

definition casc_free :: "'t bit_alloc \<Rightarrow> ('t \<Rightarrow> nat set) \<Rightarrow> 't bit_alloc_cascade16 \<Rightarrow> nat set" where
  "casc_free T free c =
     {x. x div CAP T < length (sub c) \<and> x mod CAP T \<in> free (sub c ! (x div CAP T))}"

text \<open>The part \<open>{b..<e'}\<close> of block \<open>i\<close> that lies in \<open>{s..<e}\<close>, with \<open>s = a * C + p\<close> and \<open>e = b * C + q\<close>.\<close>

lemma slice_iff:
  fixes s e C :: nat
  assumes "s = a * C + p" "p < C" "e = b * C + q" "q < C" "a \<le> i" "i \<le> b" "k < C"
  shows "((if a = i then p else 0) \<le> k \<and> k < (if b = i then q else C)) \<longleftrightarrow> s \<le> i * C + k \<and> i * C + k < e"
proof -
  have "a \<noteq> i \<Longrightarrow> Suc a * C \<le> i * C" "b \<noteq> i \<Longrightarrow> Suc i * C \<le> b * C"
    using assms(5,6) by (intro mult_le_mono1; linarith)+
  then show ?thesis using assms by auto
qed

lemma slice_nonempty:
  fixes s e C :: nat
  assumes "s = a * C + p" "p < C" "e = b * C + q" "q < C" "s < e" "i * C \<le> e - 1"
  shows "(if a = i then p else 0) < (if b = i then q else C)" "(if b = i then q else C) \<le> C"
  using assms by auto

locale cascade = bit_allocator T ivr free env
  for T :: "'t bit_alloc" and ivr and free and env + 
  fixes bf :: bit_field16
begin

lemma casc_free_iff:
  assumes "k < CAP T" "i < length (sub c)"
  shows "i * CAP T + k \<in> casc_free T free c \<longleftrightarrow> k \<in> free (sub c ! i)"
  using assms by (simp add: casc_free_def)

lemma casc_free_I: "casc_inv bf ivr free c \<Longrightarrow> i < 16 \<Longrightarrow> k \<in> free (sub c ! i) \<Longrightarrow> i * CAP T + k \<in> casc_free T free c"
  using free_bound by (subst casc_free_iff) (auto simp: casc_inv_def)

lemma casc_free_E:
  assumes "casc_inv bf ivr free c" "x \<in> casc_free T free c"
  obtains i k where "x = i * CAP T + k" "i < 16" "k < CAP T" "k \<in> free (sub c ! i)" "bit (bitset c) i"
proof -
  have "x div CAP T < 16" "x mod CAP T \<in> free (sub c ! (x div CAP T))"
    using assms by (auto simp: casc_free_def casc_inv_def)
  moreover have "x = x div CAP T * CAP T + x mod CAP T" by simp
  moreover have "x mod CAP T < CAP T" using cap_pos by simp
  moreover have "bit (bitset c) (x div CAP T)" using assms(1) calculation(1,2) by (auto simp: casc_inv_def)
  ultimately show ?thesis using that by blast
qed

lemma casc_empty_iff:
  assumes "casc_inv bf ivr free c"
  shows "bitset c = 0 \<longleftrightarrow> casc_free T free c = {}"
proof -
  have "bitset c \<noteq> 0 \<longleftrightarrow> (\<exists>i < 16. bit (bitset c) i)" using u16_eq_0_iff by blast
  also have "\<dots> \<longleftrightarrow> (\<exists>i < 16. \<exists>k. k \<in> free (sub c ! i))" using assms by (auto simp: casc_inv_def)
  also have "\<dots> \<longleftrightarrow> casc_free T free c \<noteq> {}"
    using casc_free_I [OF assms] casc_free_E [OF assms] by blast
  finally show ?thesis by blast
qed

text \<open>Replacing one sub-allocator and its summary bit.\<close>

lemma casc_update:
  assumes "casc_inv bf ivr free c" "i < 16" "ivr s" "bf_set_bit bf (bitset c) i b = Some bs" "b \<longleftrightarrow> free s \<noteq> {}"
  shows "casc_inv bf ivr free \<lparr>bitset = bs, sub = (sub c)[i := s]\<rparr>"
    and "casc_free T free \<lparr>bitset = bs, sub = (sub c)[i := s]\<rparr> =
         {x. if x div CAP T = i then x mod CAP T \<in> free s else x \<in> casc_free T free c}"
proof -
  obtain y where y: "bf_set_bit bf (bitset c) i b = Some y"
    "\<And>j. j < 16 \<Longrightarrow> bit y j \<longleftrightarrow> (if j = i then b else bit (bitset c) j)"
    using bf_set_bit_ok [of bf i] assms(1,2) by (auto simp: casc_inv_def)
  show "casc_inv bf ivr free \<lparr>bitset = bs, sub = (sub c)[i := s]\<rparr>"
    using assms y by (auto simp: casc_inv_def nth_list_update)
  show "casc_free T free \<lparr>bitset = bs, sub = (sub c)[i := s]\<rparr> =
         {x. if x div CAP T = i then x mod CAP T \<in> free s else x \<in> casc_free T free c}"
    using assms(1,2) by (auto simp: casc_free_def casc_inv_def nth_list_update)
qed

lemma casc_set_bit_total:
  "casc_inv bf ivr free c \<Longrightarrow> i < 16 \<Longrightarrow> \<exists>bs. bf_set_bit bf (bitset c) i b = Some bs"
  using bf_set_bit_ok [of bf i "bitset c" b] by (metis casc_inv_def)

lemma casc_alloc_ok:
  assumes c: "casc_inv bf ivr free c" and ne: "casc_free T free c \<noteq> {}"
  shows "\<exists>c'. cascade_alloc bf T c = Some (least_ge (casc_free T free c) 0, c') \<and> casc_inv bf ivr free c' \<and>
           casc_free T free c' = casc_free T free c - {the (least_ge (casc_free T free c) 0)}"
proof -
  let ?i = "trailing_zeros (bitset c)"
  have nz: "bitset c \<noteq> 0" using casc_empty_iff [OF c] ne by simp
  note tz = trailing_zeros_less [OF nz]
  then have s: "ivr (sub c ! ?i)" "free (sub c ! ?i) \<noteq> {}" "length (sub c) = 16"
    using c by (auto simp: casc_inv_def)
  obtain s' where s': "ba_alloc T (sub c ! ?i) = Some (least_ge (free (sub c ! ?i)) 0, s')" "ivr s'"
    "free s' = free (sub c ! ?i) - {the (least_ge (free (sub c ! ?i)) 0)}"
    using alloc_some [OF s(1,2)] by blast
  obtain m where m: "least_ge (free (sub c ! ?i)) 0 = Some m"
    using s(2) least_ge_NoneD [of "free (sub c ! ?i)" 0] by (metis ex_in_conv less_zeroE option.exhaust)
  note mD = least_ge_SomeD [OF m]
  have mcap: "m < CAP T" using free_bound s(1) mD(1) by blast
  have least: "least_ge (casc_free T free c) 0 = Some (m + ?i * CAP T)"
  proof (rule least_ge_SomeI)
    show "m + ?i * CAP T \<in> casc_free T free c"
      using casc_free_I [OF c tz(1) mD(1)] by (simp add: add.commute)
    fix j assume "j \<in> casc_free T free c"
    then obtain i k where j: "j = i * CAP T + k" "i < 16" "k < CAP T" "k \<in> free (sub c ! i)" "bit (bitset c) i"
      using casc_free_E [OF c] by blast
    have "?i \<le> i" using j(5) trailing_zeros_least not_less by blast
    then consider "?i = i" | "Suc ?i \<le> i" by linarith
    then show "m + ?i * CAP T \<le> j"
    proof cases
      case 2
      then have "Suc ?i * CAP T \<le> i * CAP T" by (rule mult_le_mono1)
      then show ?thesis using j(1) mcap by simp
    qed (use j mD(3) [of k] in simp)
  qed simp
  obtain bs where bs: "bf_set_bit bf (bitset c) ?i (\<not> ba_is_empty T s') = Some bs"
    using casc_set_bit_total [OF c tz(1)] by blast
  note upd = casc_update [OF c tz(1) s'(2) bs]
  have "casc_free T free \<lparr>bitset = bs, sub = (sub c)[?i := s']\<rparr> = casc_free T free c - {m + ?i * CAP T}"
  proof -
    have "x = m + ?i * CAP T \<longleftrightarrow> x div CAP T = ?i \<and> x mod CAP T = m" for x
      using mcap cap_pos by (auto simp: div_mult_mod_eq) (metis add.commute div_mult_mod_eq)
    then show ?thesis using upd(2) empty_iff [OF s'(2)] s'(3) m s(3) tz(1) by (auto simp: casc_free_def)
  qed
  then show ?thesis
    using nz s s' m tz bs least upd(1) empty_iff [OF s'(2)]
    by (simp add: cascade_alloc_def cascade_is_empty_def at_def Let_def)
qed

lemma casc_dealloc_ok:
  assumes c: "casc_inv bf ivr free c" and k: "k < CAP T * 16" "k \<notin> casc_free T free c"
  shows "\<exists>c'. cascade_dealloc bf T c k = Some c' \<and> casc_inv bf ivr free c' \<and>
           casc_free T free c' = insert k (casc_free T free c)"
proof -
  let ?i = "k div CAP T" and ?k = "k mod CAP T"
  have i: "?i < 16" using k(1) by (simp add: less_mult_imp_div_less mult.commute)
  then have s: "ivr (sub c ! ?i)" "length (sub c) = 16" "?k \<notin> free (sub c ! ?i)"
    using c k(2) by (auto simp: casc_inv_def casc_free_def)
  obtain s' where s': "ba_dealloc T (sub c ! ?i) ?k = Some s'" "ivr s'" "free s' = insert ?k (free (sub c ! ?i))"
    using dealloc_ok [OF s(1) _ s(3)] cap_pos by auto
  obtain bs where bs: "bf_set_bit bf (bitset c) ?i True = Some bs"
    using casc_set_bit_total [OF c i] by blast
  note upd = casc_update [OF c i s'(2) bs]
  have "x = k \<longleftrightarrow> x div CAP T = ?i \<and> x mod CAP T = ?k" for x
    by (metis div_mult_mod_eq)
  then have "casc_free T free \<lparr>bitset = bs, sub = (sub c)[?i := s']\<rparr> = insert k (casc_free T free c)"
    using upd(2) s'(3) s(2) i by (auto simp: casc_free_def)
  then show ?thesis using s s' i bs upd(1) by (simp add: cascade_dealloc_def at_def Let_def)
qed

lemma casc_dealloc_panic:
  assumes c: "casc_inv bf ivr free c" and k: "k \<in> casc_free T free c \<or> CAP T * 16 \<le> k"
  shows "cascade_dealloc bf T c k = None"
proof (cases "k div CAP T < 16")
  case True
  then have "k < CAP T * 16" using cap_pos by (simp add: div_less_iff_less_mult mult.commute)
  then have "k mod CAP T \<in> free (sub c ! (k div CAP T))" using k by (auto simp: casc_free_def)
  then show ?thesis using True c dealloc_panic by (simp add: cascade_dealloc_def at_def casc_inv_def)
qed (use c in \<open>simp add: cascade_dealloc_def at_def casc_inv_def\<close>)

lemma casc_test_ok:
  assumes c: "casc_inv bf ivr free c"
  shows "cascade_test T c k = (if k < CAP T * 16 then Some (k \<in> casc_free T free c) else None)"
proof -
  have "k < CAP T * 16 \<longleftrightarrow> k div CAP T < 16" using cap_pos by (simp add: div_less_iff_less_mult mult.commute)
  then show ?thesis using c test_ok cap_pos by (auto simp: cascade_test_def at_def casc_inv_def casc_free_def)
qed

text \<open>One pass of \<^verbatim>\<open>for_range\<close>; \<open>g\<close> is the effect of the closure on the set of free bits.\<close>

lemma for_range_loop_ok:
  assumes f: "\<And>s b e. ivr s \<Longrightarrow> b < e \<Longrightarrow> e \<le> CAP T \<Longrightarrow>
        \<exists>s'. f s b e = Some s' \<and> ivr s' \<and> (\<forall>x. x \<in> free s' \<longleftrightarrow> (if b \<le> x \<and> x < e then ins else x \<in> free s))"
    and "start < e" "e \<le> CAP T * 16" "start div CAP T \<le> i" "casc_inv bf ivr free c"
  shows "\<exists>c'. for_range_loop bf T f start e i ((e - 1) div CAP T) c = Some c' \<and> casc_inv bf ivr free c' \<and>
     (\<forall>x. x \<in> casc_free T free c' \<longleftrightarrow>
        (if i * CAP T \<le> x \<and> start \<le> x \<and> x < e then ins else x \<in> casc_free T free c))"
  using assms(4,5)
proof (induction "Suc ((e - 1) div CAP T) - i" arbitrary: i c)
  case 0
  then have "(e - 1) div CAP T < i" by simp
  then have "e - 1 < i * CAP T" using cap_pos by (simp add: div_less_iff_less_mult)
  then have "\<not> (i * CAP T \<le> x \<and> start \<le> x \<and> x < e)" for x by linarith
  then show ?case using 0 by (subst for_range_loop.simps) auto
next
  case (Suc d)
  let ?b = "if start div CAP T = i then start mod CAP T else 0"
  let ?e = "if e div CAP T = i then e mod CAP T else CAP T"
  have il: "i \<le> (e - 1) div CAP T" using Suc.hyps(2) by simp
  then have ie: "i * CAP T \<le> e - 1" using cap_pos by (simp add: less_eq_div_iff_mult_less_eq)
  then have "i * CAP T < CAP T * 16" using assms(2,3) by linarith
  then have i: "i < 16" by (simp add: mult.commute)
  have s: "ivr (sub c ! i)" "length (sub c) = 16" using Suc.prems(2) i by (auto simp: casc_inv_def)
  have ib: "i \<le> e div CAP T" using il div_le_mono [of "e - 1" e "CAP T"] by linarith
  have in_iff: "?b \<le> k \<and> k < ?e \<longleftrightarrow> start \<le> i * CAP T + k \<and> i * CAP T + k < e" if "k < CAP T" for k
    by (rule slice_iff) (use Suc.prems(1) ib that cap_pos in simp_all)
  have be: "?b < ?e" "?e \<le> CAP T"
    by (rule slice_nonempty [of start _ _ _ e])
      (use Suc.prems(1) ib ie cap_pos assms(2) in \<open>simp_all add: less_imp_le\<close>)
  obtain s' where s': "f (sub c ! i) ?b ?e = Some s'" "ivr s'"
    "\<And>x. x \<in> free s' \<longleftrightarrow> (if ?b \<le> x \<and> x < ?e then ins else x \<in> free (sub c ! i))"
    using f [OF s(1) be] by blast
  obtain bs where bs: "bf_set_bit bf (bitset c) i (\<not> ba_is_empty T s') = Some bs"
    using casc_set_bit_total [OF Suc.prems(2) i] by blast
  let ?c = "\<lparr>bitset = bs, sub = (sub c)[i := s']\<rparr>"
  note upd = casc_update [OF Suc.prems(2) i s'(2) bs]
  have inv': "casc_inv bf ivr free ?c" using upd(1) empty_iff [OF s'(2)] by blast
  have d: "d = Suc ((e - 1) div CAP T) - Suc i" using Suc.hyps(2) by linarith
  obtain c' where c': "for_range_loop bf T f start e (Suc i) ((e - 1) div CAP T) ?c = Some c'"
    "casc_inv bf ivr free c'"
    "\<And>x. x \<in> casc_free T free c' \<longleftrightarrow>
        (if Suc i * CAP T \<le> x \<and> start \<le> x \<and> x < e then ins else x \<in> casc_free T free ?c)"
    using Suc.hyps(1) [OF d _ inv'] Suc.prems(1) by (metis le_SucI)
  have free_c: "x \<in> casc_free T free ?c \<longleftrightarrow>
      (if x div CAP T = i \<and> start \<le> x \<and> x < e then ins else x \<in> casc_free T free c)" for x
  proof (cases "x div CAP T = i")
    case True
    then have "x = i * CAP T + x mod CAP T" by (metis div_mult_mod_eq)
    then have "?b \<le> x mod CAP T \<and> x mod CAP T < ?e \<longleftrightarrow> start \<le> x \<and> x < e"
      using in_iff [of "x mod CAP T"] cap_pos by simp
    then show ?thesis using True upd(2) empty_iff [OF s'(2)] s'(3) [of "x mod CAP T"] i s(2)
      by (simp add: casc_free_def)
  qed (use upd(2) empty_iff [OF s'(2)] in simp)
  have "i * CAP T \<le> x \<longleftrightarrow> Suc i * CAP T \<le> x \<or> x div CAP T = i" for x
    using cap_pos by (metis Suc_le_eq le_eq_less_or_eq less_eq_div_iff_mult_less_eq)
  then have "x \<in> casc_free T free c' \<longleftrightarrow>
        (if i * CAP T \<le> x \<and> start \<le> x \<and> x < e then ins else x \<in> casc_free T free c)" for x
    using c'(3) [of x] free_c [of x] by auto
  then show ?case using il s s' bs c'(1,2) i by (subst for_range_loop.simps) (simp add: at_def)
qed

lemma for_range_ok:
  assumes f: "\<And>s b e. ivr s \<Longrightarrow> b < e \<Longrightarrow> e \<le> CAP T \<Longrightarrow>
        \<exists>s'. f s b e = Some s' \<and> ivr s' \<and> (\<forall>x. x \<in> free s' \<longleftrightarrow> (if b \<le> x \<and> x < e then ins else x \<in> free s))"
    and "start < e" "e \<le> CAP T * 16" "casc_inv bf ivr free c"
  obtains c' where "for_range bf T c start e f = Some c'" "casc_inv bf ivr free c'"
     "\<And>x. x \<in> casc_free T free c' \<longleftrightarrow> (if start \<le> x \<and> x < e then ins else x \<in> casc_free T free c)"
proof -
  obtain c' where c': "for_range_loop bf T f start e (start div CAP T) ((e - 1) div CAP T) c = Some c'"
    "casc_inv bf ivr free c'"
    "\<And>x. x \<in> casc_free T free c' \<longleftrightarrow>
       (if start div CAP T * CAP T \<le> x \<and> start \<le> x \<and> x < e then ins else x \<in> casc_free T free c)"
    using for_range_loop_ok [of f ins, OF f assms(2,3) order_refl assms(4)] by blast
  have "(start div CAP T * CAP T \<le> x \<and> start \<le> x \<and> x < e) = (start \<le> x \<and> x < e)" for x
    using div_times_less_eq_dividend [of start "CAP T"] by linarith
  with c'(3) have "x \<in> casc_free T free c' \<longleftrightarrow> (if start \<le> x \<and> x < e then ins else x \<in> casc_free T free c)" for x
    by simp
  moreover have "for_range bf T c start e f = Some c'" using c'(1) assms(2,3) by (simp add: for_range_def)
  ultimately show ?thesis using that c'(2) by blast
qed

lemma casc_insert_ok:
  assumes "casc_inv bf ivr free c" "s < e" "e \<le> CAP T * 16"
  shows "\<exists>c'. cascade_insert bf T c s e = Some c' \<and> casc_inv bf ivr free c' \<and>
           casc_free T free c' = casc_free T free c \<union> {s..<e}"
proof -
  have f: "\<exists>s'. ba_insert T s b e = Some s' \<and> ivr s' \<and> (\<forall>x. x \<in> free s' \<longleftrightarrow> (if b \<le> x \<and> x < e then True else x \<in> free s))"
    if "ivr s" "b < e" "e \<le> CAP T" for s b e
    using insert_ok [OF that] by auto
  obtain c' where "cascade_insert bf T c s e = Some c'" "casc_inv bf ivr free c'"
    "\<And>x. x \<in> casc_free T free c' \<longleftrightarrow> (if s \<le> x \<and> x < e then True else x \<in> casc_free T free c)"
    unfolding cascade_insert_def by (rule for_range_ok [OF _ assms(2,3,1), of "ba_insert T" True]) (erule (2) f, blast)
  then show ?thesis by (auto simp: set_eq_iff)
qed

lemma casc_remove_ok:
  assumes "casc_inv bf ivr free c" "s < e" "e \<le> CAP T * 16"
  shows "\<exists>c'. cascade_remove bf T c s e = Some c' \<and> casc_inv bf ivr free c' \<and>
           casc_free T free c' = casc_free T free c - {s..<e}"
proof -
  have f: "\<exists>s'. ba_remove T s b e = Some s' \<and> ivr s' \<and> (\<forall>x. x \<in> free s' \<longleftrightarrow> (if b \<le> x \<and> x < e then False else x \<in> free s))"
    if "ivr s" "b < e" "e \<le> CAP T" for s b e
    using remove_ok [OF that] by auto
  obtain c' where "cascade_remove bf T c s e = Some c'" "casc_inv bf ivr free c'"
    "\<And>x. x \<in> casc_free T free c' \<longleftrightarrow> (if s \<le> x \<and> x < e then False else x \<in> casc_free T free c)"
    unfolding cascade_remove_def by (rule for_range_ok [OF _ assms(2,3,1), of "ba_remove T" False]) (erule (2) f, blast)
  then show ?thesis by (auto simp: set_eq_iff)
qed

text \<open>Searching from offset \<open>k\<close> of block \<open>i\<close>: either the block answers, or the search goes on at the next one.\<close>

lemma casc_least_skip:
  assumes c: "casc_inv bf ivr free c" and none: "least_ge (free (sub c ! i)) k = None" and k: "k \<le> CAP T"
  shows "least_ge (casc_free T free c) (Suc i * CAP T) = least_ge (casc_free T free c) (i * CAP T + k)"
proof -
  have "Suc i * CAP T \<le> j \<longleftrightarrow> i * CAP T + k \<le> j" if jin: "j \<in> casc_free T free c" for j
  proof -
    obtain i' k' where j: "j = i' * CAP T + k'" "k' < CAP T" "k' \<in> free (sub c ! i')"
      using casc_free_E [OF c jin] by blast
    consider "i' < i" | "i' = i" | "i < i'" by linarith
    then show ?thesis
    proof cases
      case 1
      then have "Suc i' * CAP T \<le> i * CAP T" by (intro mult_le_mono1) simp
      then show ?thesis using j(1,2) by simp
    next
      case 2
      then show ?thesis using j least_ge_NoneD [OF none, of k'] k by simp
    next
      case 3
      then have "Suc i * CAP T \<le> i' * CAP T" by (intro mult_le_mono1) simp
      then show ?thesis using j(1) k by simp
    qed
  qed
  then have "(j \<in> casc_free T free c \<and> Suc i * CAP T \<le> j) = (j \<in> casc_free T free c \<and> i * CAP T + k \<le> j)" for j
    by blast
  then show ?thesis unfolding least_ge_def Bex_def by simp
qed

lemma casc_least_hit:
  assumes c: "casc_inv bf ivr free c" and i: "i < 16" and some: "least_ge (free (sub c ! i)) k = Some m"
  shows "least_ge (casc_free T free c) (i * CAP T + k) = Some (m + CAP T * i)"
proof (rule least_ge_SomeI)
  note m = least_ge_SomeD [OF some]
  show "m + CAP T * i \<in> casc_free T free c" using casc_free_I [OF c i m(1)] by (simp add: algebra_simps)
  show "i * CAP T + k \<le> m + CAP T * i" using m(2) by (simp add: mult.commute)
  fix j assume j: "j \<in> casc_free T free c" "i * CAP T + k \<le> j"
  obtain i' k' where ik: "j = i' * CAP T + k'" "k' < CAP T" "k' \<in> free (sub c ! i')"
    using casc_free_E [OF c j(1)] by blast
  consider "i' < i" | "i' = i" | "i < i'" by linarith
  then show "m + CAP T * i \<le> j"
  proof cases
    case 1
    then have "Suc i' * CAP T \<le> i * CAP T" by (intro mult_le_mono1) simp
    then show ?thesis using ik(1,2) j(2) by simp
  next
    case 2
    then show ?thesis using m(3) [of k'] ik j(2) by (simp add: mult.commute)
  next
    case 3
    then have "Suc i * CAP T \<le> i' * CAP T" by (intro mult_le_mono1) simp
    moreover have "m < CAP T" using free_bound [OF _ m(1)] c i by (simp add: casc_inv_def)
    ultimately show ?thesis using ik(1) by (simp add: mult.commute)
  qed
qed

lemma casc_next_loop_ok:
  assumes c: "casc_inv bf ivr free c" and "key div CAP T \<le> i" "i \<le> 16"
  shows "cascade_next_loop bf T c key [i..<16] = Some (least_ge (casc_free T free c) (max key (i * CAP T)))"
  using assms(2,3)
proof (induction "16 - i" arbitrary: i)
  case 0
  have "j < i * CAP T" if "j \<in> casc_free T free c" for j
    using that 0 c cap_pos by (auto simp: casc_free_def casc_inv_def div_less_iff_less_mult)
  then have "least_ge (casc_free T free c) (max key (i * CAP T)) = None" by (intro least_ge_NoneI) fastforce
  then show ?case using 0 by simp
next
  case (Suc d)
  then have i: "[i..<16] = i # [Suc i..<16]" "i < 16" by (auto simp: upt_conv_Cons)
  let ?k = "if i = key div CAP T then key - CAP T * (key div CAP T) else 0"
  have key: "CAP T * (key div CAP T) \<le> key" "key < Suc (key div CAP T) * CAP T"
    using cap_pos by (simp_all add: dividend_less_div_times)
  have le: "i \<noteq> key div CAP T \<Longrightarrow> Suc (key div CAP T) * CAP T \<le> i * CAP T"
    using Suc.prems(1) by (intro mult_le_mono1) simp
  have kk: "max key (i * CAP T) = i * CAP T + ?k" and k: "?k \<le> CAP T"
    using key le by (auto simp: mult.commute max_def)
  have kS: "max key (Suc i * CAP T) = Suc i * CAP T"
    using key(2) le by (cases "i = key div CAP T") simp_all
  have IH: "cascade_next_loop bf T c key [Suc i..<16] =
      Some (least_ge (casc_free T free c) (max key (Suc i * CAP T)))"
    using Suc by simp
  have s: "ivr (sub c ! i)" "length (sub c) = 16" "bit (bitset c) i \<longleftrightarrow> free (sub c ! i) \<noteq> {}" "bit_field_ok bf"
    using c i(2) by (auto simp: casc_inv_def)
  show ?case
  proof (cases "least_ge (free (sub c ! i)) ?k")
    case None
    then show ?thesis using i IH casc_least_skip [OF c None k] s next_ok [OF s(1), of ?k] kk kS
      by (simp add: bf_get_bit_ok at_def Let_def)
  next
    case (Some m)
    then have "free (sub c ! i) \<noteq> {}" using least_ge_SomeD(1) by blast
    then show ?thesis using i casc_least_hit [OF c i(2) Some] s Some next_ok [OF s(1), of ?k] kk
      by (simp add: bf_get_bit_ok at_def Let_def)
  qed
qed

lemma casc_free_bound: "casc_inv bf ivr free c \<Longrightarrow> x \<in> casc_free T free c \<Longrightarrow> x < CAP T * 16"
  using cap_pos by (auto simp: casc_free_def casc_inv_def div_less_iff_less_mult mult.commute)

lemma casc_next_ok:
  assumes c: "casc_inv bf ivr free c"
  shows "cascade_next bf T c k = Some (least_ge (casc_free T free c) k)"
proof (cases "k div CAP T \<le> 16")
  case True
  then show ?thesis using casc_next_loop_ok [OF c order_refl True] by (simp add: cascade_next_def)
next
  case False
  then have "16 \<le> k div CAP T" by simp
  then have "16 * CAP T \<le> k" using cap_pos by (simp add: less_eq_div_iff_mult_less_eq)
  then have "least_ge (casc_free T free c) k = None"
    using casc_free_bound [OF c] by (intro least_ge_NoneI) fastforce
  then show ?thesis using False by (simp add: cascade_next_def)
qed

lemma casc_alloc_none:
  "casc_inv bf ivr free c \<Longrightarrow> casc_free T free c = {} \<Longrightarrow> cascade_alloc bf T c = Some (None, c)"
  using casc_empty_iff by (simp add: cascade_alloc_def cascade_is_empty_def)

end

sublocale cascade \<subseteq> casc: bit_allocator "cascade16 bf T" "casc_inv bf ivr free" "casc_free T free" "env \<and> bit_field_ok bf"
proof (unfold_locales, goal_cases)
  case 1
  show ?case using cap_pos by (simp add: cascade16_def)
next
  case 2
  then show ?case using default_inv default_free by (simp add: cascade16_def casc_inv_def)
next
  case 3
  show ?case using default_free by (auto simp: cascade16_def casc_free_def)
next
  case (12 t s e)
  then show ?case by (simp add: cascade16_def cascade_insert_def for_range_def)
qed (simp_all add: cascade16_def casc_empty_iff cascade_is_empty_def cascade_any_def casc_alloc_none casc_alloc_ok
      casc_dealloc_ok casc_dealloc_panic casc_insert_ok casc_remove_ok casc_test_ok casc_next_ok casc_free_bound)

subsection \<open>The allocators the kernel uses\<close>

definition inv256 :: "bit_field16 \<Rightarrow> bit_alloc256 \<Rightarrow> bool" where
  "inv256 bf = casc_inv bf (ba16_inv bf) (ba16_free)"

definition free256 :: "bit_field16 \<Rightarrow> bit_alloc256 \<Rightarrow> nat set" where
  "free256 bf = casc_free (bitalloc16 bf) (ba16_free)"

interpretation c256: cascade "bitalloc16 bf" "ba16_inv bf" "ba16_free" "bit_field_ok bf" bf for bf
  by unfold_locales

interpretation ba256: bit_allocator "BitAlloc256 bf" "inv256 bf" "free256 bf" "bit_field_ok bf" for bf
  using c256.casc.bit_allocator_axioms [of bf] by (simp add: BitAlloc256_def inv256_def free256_def)

definition inv4k :: "bit_field16 \<Rightarrow> bit_alloc4k \<Rightarrow> bool" where
  "inv4k bf = casc_inv bf (inv256 bf) (free256 bf)"

definition free4k :: "bit_field16 \<Rightarrow> bit_alloc4k \<Rightarrow> nat set" where
  "free4k bf = casc_free (BitAlloc256 bf) (free256 bf)"

interpretation c4k: cascade "BitAlloc256 bf" "inv256 bf" "free256 bf" "bit_field_ok bf" bf for bf
  by unfold_locales

interpretation ba4k: bit_allocator "BitAlloc4K bf" "inv4k bf" "free4k bf" "bit_field_ok bf" for bf
  using c4k.casc.bit_allocator_axioms [of bf] by (simp add: BitAlloc4K_def inv4k_def free4k_def)

definition inv64k :: "bit_field16 \<Rightarrow> bit_alloc64k \<Rightarrow> bool" where
  "inv64k bf = casc_inv bf (inv4k bf) (free4k bf)"

definition free64k :: "bit_field16 \<Rightarrow> bit_alloc64k \<Rightarrow> nat set" where
  "free64k bf = casc_free (BitAlloc4K bf) (free4k bf)"

interpretation c64k: cascade "BitAlloc4K bf" "inv4k bf" "free4k bf" "bit_field_ok bf" bf for bf
  by unfold_locales

interpretation ba64k: bit_allocator "BitAlloc64K bf" "inv64k bf" "free64k bf" "bit_field_ok bf" for bf
  using c64k.casc.bit_allocator_axioms [of bf] by (simp add: BitAlloc64K_def inv64k_def free64k_def)

definition inv1m :: "bit_field16 \<Rightarrow> bit_alloc1m \<Rightarrow> bool" where
  "inv1m bf = casc_inv bf (inv64k bf) (free64k bf)"

definition free1m :: "bit_field16 \<Rightarrow> bit_alloc1m \<Rightarrow> nat set" where
  "free1m bf = casc_free (BitAlloc64K bf) (free64k bf)"

interpretation c1m: cascade "BitAlloc64K bf" "inv64k bf" "free64k bf" "bit_field_ok bf" bf for bf
  by unfold_locales

interpretation ba1m: bit_allocator "BitAlloc1M bf" "inv1m bf" "free1m bf" "bit_field_ok bf" for bf
  using c1m.casc.bit_allocator_axioms [of bf] by (simp add: BitAlloc1M_def inv1m_def free1m_def)

definition inv16m :: "bit_field16 \<Rightarrow> bit_alloc16m \<Rightarrow> bool" where
  "inv16m bf = casc_inv bf (inv1m bf) (free1m bf)"

definition free16m :: "bit_field16 \<Rightarrow> bit_alloc16m \<Rightarrow> nat set" where
  "free16m bf = casc_free (BitAlloc1M bf) (free1m bf)"

interpretation c16m: cascade "BitAlloc1M bf" "inv1m bf" "free1m bf" "bit_field_ok bf" bf for bf
  by unfold_locales

interpretation ba16m: bit_allocator "BitAlloc16M bf" "inv16m bf" "free16m bf" "bit_field_ok bf" for bf
  using c16m.casc.bit_allocator_axioms [of bf] by (simp add: BitAlloc16M_def inv16m_def free16m_def)

lemma CAP_simps [simp]:
  "CAP (bitalloc16 bf) = 16" "CAP (BitAlloc256 bf) = 256" "CAP (BitAlloc4K bf) = 4096"
  "CAP (BitAlloc64K bf) = 65536" "CAP (BitAlloc1M bf) = 1048576" "CAP (BitAlloc16M bf) = 16777216"
  by (simp_all add: bitalloc16_def BitAlloc256_def BitAlloc4K_def BitAlloc64K_def BitAlloc1M_def BitAlloc16M_def
      cascade16_def)

subsection \<open>A concrete bit\_field\<close>

text \<open>The documented behaviour can be met: used to evaluate the model.\<close>

definition ref_bit_field :: bit_field16 where
  "ref_bit_field = \<lparr>
     bf_get_bit = (\<lambda>x i. if i < 16 then Some (bit x i) else None),
     bf_set_bit = (\<lambda>x i b. if i < 16 then Some (if b then set_bit i x else unset_bit i x) else None),
     bf_get_bits = (\<lambda>x s e. if s < e \<and> e \<le> 16 then Some (take_bit (e - s) (drop_bit s x)) else None),
     bf_set_bits = (\<lambda>x s e v. if s < e \<and> e \<le> 16 \<and> take_bit (e - s) v = v
        then Some ((x AND NOT (push_bit s (mask (e - s)))) OR push_bit s v) else None)\<rparr>"

lemma ref_bit_field_ok [simp]: "bit_field_ok ref_bit_field"
proof -
  have "take_bit n v = v" if "\<forall>j < 16. n \<le> j \<longrightarrow> \<not> bit v j" for n and v :: u16
    using that by (auto simp: bit_eq_iff bit_take_bit_iff)
  then show ?thesis
    by (auto simp: bit_field_ok_def ref_bit_field_def bit_simps)
qed

end
