(* ===== verification/Allocators.thy ===== *)
theory Allocators
  imports Bitmap
begin

text \<open>
  The identifier and page-frame allocators built on the bitmap:
  \<^verbatim>\<open>kernel/src/memory/allocator/fd.rs\<close>, \<^verbatim>\<open>kernel/src/memory/allocator/tid.rs\<close>, \<^verbatim>\<open>modules/maturin-page-frame\<close>
  and its configuration in \<^verbatim>\<open>kernel/src/memory/allocator/frame.rs\<close>.

  The global frame allocator and the physical memory seen through the kernel's linear mapping form the
  record \<open>machine\<close>. A \<^verbatim>\<open>Frame\<close> is the record \<open>frame\<close>; its \<^verbatim>\<open>Drop\<close> is the explicit operation \<open>frame_drop\<close>.
\<close>

subsection \<open>FdAllocator\<close>

type_synonym fd_allocator = bit_alloc256

definition fd_allocator_new :: "bit_field16 \<Rightarrow> nat \<Rightarrow> fd_allocator option" where
  "fd_allocator_new bf limit = ba_insert (BitAlloc256 bf) (DEFAULT (BitAlloc256 bf)) 0 limit"

definition expand_range :: "bit_field16 \<Rightarrow> fd_allocator \<Rightarrow> nat \<Rightarrow> nat \<Rightarrow> fd_allocator option" where
  "expand_range bf a left right = ba_insert (BitAlloc256 bf) a left right"

definition shrink_range :: "bit_field16 \<Rightarrow> fd_allocator \<Rightarrow> nat \<Rightarrow> nat \<Rightarrow> fd_allocator option" where
  "shrink_range bf a left right = ba_remove (BitAlloc256 bf) a left right"

definition fd_alloc :: "bit_field16 \<Rightarrow> fd_allocator \<Rightarrow> (nat option \<times> fd_allocator) option" where
  "fd_alloc bf a = ba_alloc (BitAlloc256 bf) a"

definition fd_dealloc :: "bit_field16 \<Rightarrow> fd_allocator \<Rightarrow> nat \<Rightarrow> fd_allocator option" where
  "fd_dealloc bf a fd = ba_dealloc (BitAlloc256 bf) a fd"

definition is_allocated :: "bit_field16 \<Rightarrow> fd_allocator \<Rightarrow> nat \<Rightarrow> bool option" where
  "is_allocated bf a fd = map_option Not (ba_test (BitAlloc256 bf) a fd)"

definition alloc_exact :: "bit_field16 \<Rightarrow> fd_allocator \<Rightarrow> nat \<Rightarrow> fd_allocator option" where
  "alloc_exact bf a fd = ba_remove (BitAlloc256 bf) a fd (fd + 1)"

definition alloc_exact_if_possible :: "bit_field16 \<Rightarrow> fd_allocator \<Rightarrow> nat \<Rightarrow> (bool \<times> fd_allocator) option" where
  "alloc_exact_if_possible bf a fd = do {
     allocated \<leftarrow> is_allocated bf a fd;
     if \<not> allocated then do {
       a \<leftarrow> alloc_exact bf a fd;
       Some (True, a)
     } else Some (False, a)
   }"

subsection \<open>Tid\<close>

type_synonym tid_allocator = bit_alloc4k

definition TID_LIMIT :: nat where
  "TID_LIMIT = 4096"

datatype tid = Tid nat

definition alloc_tid_raw :: "bit_field16 \<Rightarrow> tid_allocator \<Rightarrow> (nat option \<times> tid_allocator) option" where
  "alloc_tid_raw bf a = ba_alloc (BitAlloc4K bf) a"

definition dealloc_tid_raw :: "bit_field16 \<Rightarrow> tid_allocator \<Rightarrow> nat \<Rightarrow> tid_allocator option" where
  "dealloc_tid_raw bf a tid = ba_dealloc (BitAlloc4K bf) a tid"

definition alloc_tid :: "bit_field16 \<Rightarrow> tid_allocator \<Rightarrow> (tid option \<times> tid_allocator) option" where
  "alloc_tid bf a = do {
     (r, a) \<leftarrow> ba_alloc (BitAlloc4K bf) a;
     Some (map_option Tid r, a)
   }"

definition tid_init :: "bit_field16 \<Rightarrow> tid_allocator \<Rightarrow> tid_allocator option" where
  "tid_init bf a = ba_insert (BitAlloc4K bf) a 2 TID_LIMIT"

definition tid_new :: "bit_field16 \<Rightarrow> tid_allocator \<Rightarrow> (tid option \<times> tid_allocator) option" where
  "tid_new bf a = alloc_tid bf a"

fun tid_drop :: "bit_field16 \<Rightarrow> tid_allocator \<Rightarrow> tid \<Rightarrow> tid_allocator option" where
  "tid_drop bf a (Tid n) = dealloc_tid_raw bf a n"

subsection \<open>trait PageFrameConfig\<close>

definition PAGE_SIZE :: usize where
  "PAGE_SIZE = 0x1000"

definition PHYS_VIRT_OFFSET :: usize where
  "PHYS_VIRT_OFFSET = 0xFFFFFFFF00000000"

definition PHYS_MEMORY_OFFSET :: usize where
  "PHYS_MEMORY_OFFSET = 0x80000000"

record page_frame_config =
  get_page_size :: usize
  phys_addr_to_virt_addr :: "usize \<Rightarrow> usize"
  phys_addr_to_frame_idx :: "usize \<Rightarrow> usize"
  frame_idx_to_phys_addr :: "usize \<Rightarrow> usize"

text \<open>The provided methods of the trait, and the kernel's impl, which overrides two of them.\<close>

definition default_config :: page_frame_config where
  "default_config = \<lparr>
     get_page_size = PAGE_SIZE,
     phys_addr_to_virt_addr = (\<lambda>paddr. paddr + PHYS_VIRT_OFFSET),
     phys_addr_to_frame_idx = (\<lambda>addr. addr div PAGE_SIZE),
     frame_idx_to_phys_addr = (\<lambda>idx. idx * PAGE_SIZE)\<rparr>"

definition kernel_config :: page_frame_config where
  "kernel_config = default_config\<lparr>
     phys_addr_to_frame_idx := (\<lambda>addr. (addr - PHYS_MEMORY_OFFSET) div PAGE_SIZE),
     frame_idx_to_phys_addr := (\<lambda>idx. idx * PAGE_SIZE + PHYS_MEMORY_OFFSET)\<rparr>"

subsection \<open>FrameAllocatorWrapper\<close>

type_synonym frame_allocator = bit_alloc16m

fun frame_allocator_init ::
  "bit_field16 \<Rightarrow> page_frame_config \<Rightarrow> (usize \<times> usize) list \<Rightarrow> frame_allocator \<Rightarrow> frame_allocator option" where
  "frame_allocator_init bf cfg [] ba = Some ba"
| "frame_allocator_init bf cfg ((start, end') # regions) ba =
     (let frame_start = phys_addr_to_frame_idx cfg start;
          frame_end = phys_addr_to_frame_idx cfg (end' - 1) + 1
      in if frame_start < frame_end then
           ba_insert (BitAlloc16M bf) ba (unat frame_start) (unat frame_end) \<bind>
             frame_allocator_init bf cfg regions
         else None)"

definition alloc_frame ::
  "bit_field16 \<Rightarrow> page_frame_config \<Rightarrow> frame_allocator \<Rightarrow> (usize option \<times> frame_allocator) option" where
  "alloc_frame bf cfg ba = do {
     (r, ba) \<leftarrow> ba_alloc (BitAlloc16M bf) ba;
     Some (map_option (\<lambda>k. frame_idx_to_phys_addr cfg (of_nat k)) r, ba)
   }"

definition alloc_frame_contiguous ::
  "bit_field16 \<Rightarrow> page_frame_config \<Rightarrow> frame_allocator \<Rightarrow> usize \<Rightarrow> usize \<Rightarrow> (usize option \<times> frame_allocator) option" where
  "alloc_frame_contiguous bf cfg ba frame_count align_log2 = do {
     (r, ba) \<leftarrow> ba_alloc_contiguous (BitAlloc16M bf) ba (unat frame_count) (unat align_log2);
     Some (map_option (\<lambda>k. frame_idx_to_phys_addr cfg (of_nat k)) r, ba)
   }"

definition dealloc_frame ::
  "bit_field16 \<Rightarrow> page_frame_config \<Rightarrow> frame_allocator \<Rightarrow> usize \<Rightarrow> frame_allocator option" where
  "dealloc_frame bf cfg ba target = ba_dealloc (BitAlloc16M bf) ba (unat (phys_addr_to_frame_idx cfg target))"

fun dealloc_each :: "bit_field16 \<Rightarrow> nat list \<Rightarrow> frame_allocator \<Rightarrow> frame_allocator option" where
  "dealloc_each bf [] ba = Some ba"
| "dealloc_each bf (i # is) ba = ba_dealloc (BitAlloc16M bf) ba i \<bind> dealloc_each bf is"

definition dealloc_frame_contiguous ::
  "bit_field16 \<Rightarrow> page_frame_config \<Rightarrow> frame_allocator \<Rightarrow> usize \<Rightarrow> usize \<Rightarrow> frame_allocator option" where
  "dealloc_frame_contiguous bf cfg ba target frame_count =
     (let start_idx = phys_addr_to_frame_idx cfg target
      in dealloc_each bf [unat start_idx..<unat (start_idx + frame_count)] ba)"

subsection \<open>Frame\<close>

text \<open>Memory is addressed by the kernel virtual address that the code dereferences.\<close>

record machine =
  frame_allocator :: frame_allocator
  mem :: "usize \<Rightarrow> byte"

record frame =
  start_paddr :: usize
  frame_count :: usize

definition mem_read :: "(usize \<Rightarrow> byte) \<Rightarrow> usize \<Rightarrow> nat \<Rightarrow> byte list" where
  "mem_read m a n = map (\<lambda>i. m (a + of_nat i)) [0..<n]"

definition mem_write :: "(usize \<Rightarrow> byte) \<Rightarrow> usize \<Rightarrow> byte list \<Rightarrow> usize \<Rightarrow> byte" where
  "mem_write m a bs = (\<lambda>x. if unat (x - a) < length bs then bs ! unat (x - a) else m x)"

definition frame_init ::
  "bit_field16 \<Rightarrow> page_frame_config \<Rightarrow> (usize \<times> usize) list \<Rightarrow> machine \<Rightarrow> machine option" where
  "frame_init bf cfg regions m = do {
     ba \<leftarrow> frame_allocator_init bf cfg regions (frame_allocator m);
     Some (m\<lparr>frame_allocator := ba\<rparr>)
   }"

definition frame_new :: "bit_field16 \<Rightarrow> page_frame_config \<Rightarrow> machine \<Rightarrow> (frame option \<times> machine) option" where
  "frame_new bf cfg m = do {
     (r, ba) \<leftarrow> alloc_frame bf cfg (frame_allocator m);
     Some (map_option (\<lambda>p. \<lparr>start_paddr = p, frame_count = 1\<rparr>) r, m\<lparr>frame_allocator := ba\<rparr>)
   }"

definition frame_new_contiguous ::
  "bit_field16 \<Rightarrow> page_frame_config \<Rightarrow> usize \<Rightarrow> usize \<Rightarrow> machine \<Rightarrow> (frame option \<times> machine) option" where
  "frame_new_contiguous bf cfg count align_log2 m = do {
     (r, ba) \<leftarrow> alloc_frame_contiguous bf cfg (frame_allocator m) count align_log2;
     Some (map_option (\<lambda>p. \<lparr>start_paddr = p, frame_count = count\<rparr>) r, m\<lparr>frame_allocator := ba\<rparr>)
   }"

definition frame_from_paddr :: "usize \<Rightarrow> frame" where
  "frame_from_paddr p = \<lparr>start_paddr = p, frame_count = 1\<rparr>"

definition frame_size :: "page_frame_config \<Rightarrow> frame \<Rightarrow> usize" where
  "frame_size cfg f = frame_count f * get_page_size cfg"

definition frame_as_ptr :: "page_frame_config \<Rightarrow> frame \<Rightarrow> usize" where
  "frame_as_ptr cfg f = phys_addr_to_virt_addr cfg (start_paddr f)"

definition frame_fill :: "page_frame_config \<Rightarrow> frame \<Rightarrow> byte \<Rightarrow> machine \<Rightarrow> machine" where
  "frame_fill cfg f b m =
     m\<lparr>mem := (\<lambda>x. if x - frame_as_ptr cfg f < frame_size cfg f then b else mem m x)\<rparr>"

definition frame_zero :: "page_frame_config \<Rightarrow> frame \<Rightarrow> machine \<Rightarrow> machine" where
  "frame_zero cfg f m = frame_fill cfg f 0 m"

definition frame_as_slice :: "page_frame_config \<Rightarrow> frame \<Rightarrow> machine \<Rightarrow> byte list" where
  "frame_as_slice cfg f m = mem_read (mem m) (frame_as_ptr cfg f) (unat (frame_size cfg f))"

text \<open>\<^verbatim>\<open>frame.as_slice_mut()[off..off + bs.len()].copy_from_slice(bs)\<close>; the slice expression panics out of bounds.\<close>

definition frame_slice_write :: "page_frame_config \<Rightarrow> frame \<Rightarrow> nat \<Rightarrow> byte list \<Rightarrow> machine \<Rightarrow> machine option" where
  "frame_slice_write cfg f off bs m =
     (if off + length bs \<le> unat (frame_size cfg f)
      then Some (m\<lparr>mem := mem_write (mem m) (frame_as_ptr cfg f + of_nat off) bs\<rparr>)
      else None)"

definition frame_drop :: "bit_field16 \<Rightarrow> page_frame_config \<Rightarrow> frame \<Rightarrow> machine \<Rightarrow> machine option" where
  "frame_drop bf cfg f m = do {
     ba \<leftarrow> (if frame_count f = 1
            then dealloc_frame bf cfg (frame_allocator m) (start_paddr f)
            else dealloc_frame_contiguous bf cfg (frame_allocator m) (start_paddr f) (frame_count f));
     Some (m\<lparr>frame_allocator := ba\<rparr>)
   }"

subsection \<open>Frame numbers and addresses\<close>

abbreviation page_addr :: "nat \<Rightarrow> usize" where
  "page_addr k \<equiv> frame_idx_to_phys_addr kernel_config (of_nat k)"

lemma kernel_config_simps [simp]:
  "get_page_size kernel_config = PAGE_SIZE"
  "phys_addr_to_virt_addr kernel_config p = p + PHYS_VIRT_OFFSET"
  "phys_addr_to_frame_idx kernel_config p = (p - PHYS_MEMORY_OFFSET) div PAGE_SIZE"
  "frame_idx_to_phys_addr kernel_config k = k * PAGE_SIZE + PHYS_MEMORY_OFFSET"
  by (simp_all add: kernel_config_def default_config_def)

lemma unat_frame_offset: "k < 2 ^ 52 \<Longrightarrow> unat (of_nat k * PAGE_SIZE) = k * 4096"
  by (simp add: PAGE_SIZE_def unat_word_ariths unat_of_nat)

lemma frame_idx_roundtrip:
  assumes "k < 2 ^ 52"
  shows "unat (phys_addr_to_frame_idx kernel_config (page_addr k)) = k"
  using unat_frame_offset [OF assms] by (simp add: unat_div_distrib) (simp add: PAGE_SIZE_def)

lemma page_addr_inj: "j < 2 ^ 52 \<Longrightarrow> k < 2 ^ 52 \<Longrightarrow> page_addr j = page_addr k \<Longrightarrow> j = k"
  using frame_idx_roundtrip by metis

subsection \<open>The frame allocator against the set of free frames\<close>

abbreviation frames_inv :: "bit_field16 \<Rightarrow> machine \<Rightarrow> bool" where
  "frames_inv bf m \<equiv> inv16m bf (frame_allocator m)"

abbreviation free_frames :: "bit_field16 \<Rightarrow> machine \<Rightarrow> nat set" where
  "free_frames bf m \<equiv> free16m bf (frame_allocator m)"

lemma free_frames_less: "frames_inv bf m \<Longrightarrow> k \<in> free_frames bf m \<Longrightarrow> k < 16777216"
  using ba16m.free_bound by simp

lemma frame_new_none: "frames_inv bf m \<Longrightarrow> free_frames bf m = {} \<Longrightarrow> frame_new bf cfg m = Some (None, m)"
  by (simp add: frame_new_def alloc_frame_def ba16m.alloc_none)

lemma frame_new_some:
  assumes "frames_inv bf m" "least_ge (free_frames bf m) 0 = Some k"
  obtains m' where
    "frame_new bf cfg m = Some (Some \<lparr>start_paddr = frame_idx_to_phys_addr cfg (of_nat k), frame_count = 1\<rparr>, m')"
    "frames_inv bf m'" "free_frames bf m' = free_frames bf m - {k}" "mem m' = mem m"
proof -
  have "free_frames bf m \<noteq> {}" using least_ge_SomeD(1) [OF assms(2)] by blast
  from ba16m.alloc_some [OF assms(1) this] assms(2) that show ?thesis
    by (auto simp: frame_new_def alloc_frame_def)
qed

lemma frame_drop_one:
  assumes "frames_inv bf m" "k < 16777216" "k \<notin> free_frames bf m"
  obtains m' where "frame_drop bf kernel_config \<lparr>start_paddr = page_addr k, frame_count = 1\<rparr> m = Some m'"
    "frames_inv bf m'" "free_frames bf m' = insert k (free_frames bf m)" "mem m' = mem m"
proof -
  have "unat (phys_addr_to_frame_idx kernel_config (page_addr k)) = k"
    using assms(2) by (intro frame_idx_roundtrip) simp
  with ba16m.dealloc_ok [OF assms(1) _ assms(3)] assms(2) that show ?thesis
    by (auto simp: frame_drop_def dealloc_frame_def)
qed

lemma dealloc_each_ok:
  assumes "inv16m bf ba" "i \<le> j" "j \<le> 16777216" "{i..<j} \<inter> free16m bf ba = {}"
  shows "\<exists>ba'. dealloc_each bf [i..<j] ba = Some ba' \<and> inv16m bf ba' \<and> free16m bf ba' = free16m bf ba \<union> {i..<j}"
  using assms
proof (induction "j - i" arbitrary: i ba)
  case (Suc d)
  then have i: "[i..<j] = i # [Suc i..<j]" "i < j" by (auto simp: upt_conv_Cons)
  obtain b where b: "ba_dealloc (BitAlloc16M bf) ba i = Some b" "inv16m bf b" "free16m bf b = insert i (free16m bf ba)"
    using ba16m.dealloc_ok [OF Suc.prems(1), of i] i Suc.prems(3,4) by (auto simp: disjoint_iff)
  have "{Suc i..<j} \<inter> free16m bf b = {}" using Suc.prems(4) b(3) by (auto simp: disjoint_iff)
  moreover have "d = j - Suc i" using Suc.hyps(2) by linarith
  ultimately obtain ba' where "dealloc_each bf [Suc i..<j] b = Some ba'" "inv16m bf ba'"
    "free16m bf ba' = free16m bf b \<union> {Suc i..<j}" using Suc.hyps(1) [OF _ b(2)] i Suc.prems(3) by (metis Suc_leI)
  moreover have "insert i {Suc i..<j} = {i..<j}" using i(2) by auto
  ultimately show ?case using i b by auto
qed simp

text \<open>Dropping a frame of any length frees exactly the page frames it covers.\<close>

lemma frame_drop_run:
  assumes "frames_inv bf m" "k + unat n \<le> 16777216" "{k..<k + unat n} \<inter> free_frames bf m = {}"
  shows "\<exists>m'. frame_drop bf kernel_config \<lparr>start_paddr = page_addr k, frame_count = n\<rparr> m = Some m' \<and>
    frames_inv bf m' \<and> free_frames bf m' = free_frames bf m \<union> {k..<k + unat n} \<and> mem m' = mem m"
proof (cases "n = 1")
  case True
  then have "k < 16777216" "k \<notin> free_frames bf m" "{k..<k + unat n} = {k}" using assms(2,3) by auto
  then show ?thesis using True by (auto intro: frame_drop_one [OF assms(1), of k] simp del: kernel_config_simps)
next
  case False
  let ?i = "phys_addr_to_frame_idx kernel_config (page_addr k)"
  have i: "unat ?i = k" using assms(2) by (intro frame_idx_roundtrip) simp
  then have "unat (?i + n) = k + unat n" using assms(2) by (simp add: unat_add_small)
  then show ?thesis using dealloc_each_ok [OF assms(1) _ assms(2,3)] i False
    by (auto simp: frame_drop_def dealloc_frame_contiguous_def Let_def simp del: kernel_config_simps)
qed

text \<open>C24: \<^verbatim>\<open>Frame::new\<close> gives out the lowest free page frame, page aligned and inside the managed range, takes exactly it
  out of the free set, leaves memory alone, and answers \<^verbatim>\<open>None\<close> exactly when no frame is free; dropping the frame
  gives the free set back, and dropping it a second time panics.\<close>

theorem frame_new_drop:
  assumes "frames_inv bf m"
  shows "case least_ge (free_frames bf m) 0 of
      None \<Rightarrow> free_frames bf m = {} \<and> frame_new bf kernel_config m = Some (None, m)
    | Some k \<Rightarrow> \<exists>f m'. frame_new bf kernel_config m = Some (Some f, m') \<and> frames_inv bf m' \<and>
        start_paddr f = PHYS_MEMORY_OFFSET + of_nat k * PAGE_SIZE \<and> frame_size kernel_config f = PAGE_SIZE \<and>
        free_frames bf m' = free_frames bf m - {k} \<and> mem m' = mem m \<and>
        (\<exists>m''. frame_drop bf kernel_config f m' = Some m'' \<and> frames_inv bf m'' \<and>
           free_frames bf m'' = free_frames bf m \<and> frame_drop bf kernel_config f m'' = None)"
proof (cases "least_ge (free_frames bf m) 0")
  case None
  then have "free_frames bf m = {}" using least_ge_NoneD by blast
  then show ?thesis using None frame_new_none [OF assms] by simp
next
  case (Some k)
  have k: "k \<in> free_frames bf m" using least_ge_SomeD(1) [OF Some] .
  then have k': "k < 16777216" using free_frames_less [OF assms] by blast
  let ?f = "\<lparr>start_paddr = page_addr k, frame_count = 1\<rparr>"
  obtain m' where m': "frame_new bf kernel_config m = Some (Some ?f, m')"
    "frames_inv bf m'" "free_frames bf m' = free_frames bf m - {k}" "mem m' = mem m"
    using frame_new_some [OF assms Some] by blast
  obtain m'' where m'': "frame_drop bf kernel_config ?f m' = Some m''" "frames_inv bf m''"
    "free_frames bf m'' = insert k (free_frames bf m')"
    by (rule frame_drop_one [OF m'(2) k']) (simp add: m'(3))
  have idx: "unat (phys_addr_to_frame_idx kernel_config (page_addr k)) = k"
    using k' by (intro frame_idx_roundtrip) simp
  have "ba_dealloc (BitAlloc16M bf) (frame_allocator m'') k = None"
    by (rule ba16m.dealloc_panic [OF m''(2)]) (simp add: m''(3))
  then have twice: "frame_drop bf kernel_config ?f m'' = None"
    using idx by (simp add: frame_drop_def dealloc_frame_def del: kernel_config_simps)
  have free: "free_frames bf m'' = free_frames bf m" using m''(3) m'(3) k by auto
  have f: "start_paddr ?f = PHYS_MEMORY_OFFSET + of_nat k * PAGE_SIZE" "frame_size kernel_config ?f = PAGE_SIZE"
    by (simp_all add: frame_size_def add.commute)
  show ?thesis unfolding Some option.case
    by (intro exI conjI, fact m'(1), fact m'(2), fact f(1), fact f(2), fact m'(3), fact m'(4),
        fact m''(1), fact m''(2), fact free, fact twice)
qed

lemma frame_default_inv:
  "frames_inv ref_bit_field \<lparr>frame_allocator = DEFAULT (BitAlloc16M ref_bit_field), mem = g\<rparr>"
  by (simp add: ba16m.default_inv)

text \<open>A machine whose free frames are \<open>{s..<e}\<close>.\<close>

definition machine_with :: "nat \<Rightarrow> nat \<Rightarrow> machine" where
  "machine_with s e = \<lparr>frame_allocator =
     the (ba_insert (BitAlloc16M ref_bit_field) (DEFAULT (BitAlloc16M ref_bit_field)) s e), mem = (\<lambda>_. 0)\<rparr>"

lemma machine_with_frames:
  assumes "s < e" "e \<le> 16777216"
  shows "frames_inv ref_bit_field (machine_with s e)" "free_frames ref_bit_field (machine_with s e) = {s..<e}"
proof -
  obtain t where "ba_insert (BitAlloc16M ref_bit_field) (DEFAULT (BitAlloc16M ref_bit_field)) s e = Some t"
    "inv16m ref_bit_field t" "free16m ref_bit_field t = free16m ref_bit_field (DEFAULT (BitAlloc16M ref_bit_field)) \<union> {s..<e}"
    using ba16m.insert_ok [OF ba16m.default_inv [OF ref_bit_field_ok] assms(1)] assms(2) CAP_simps(6) by metis
  then show "frames_inv ref_bit_field (machine_with s e)" "free_frames ref_bit_field (machine_with s e) = {s..<e}"
    by (simp_all add: machine_with_def ba16m.default_free)
qed

theorem frame_new_drop_witness:
  "\<exists>f m'. frame_new ref_bit_field kernel_config (machine_with 5 9) = Some (Some f, m') \<and>
     start_paddr f = 0x80005000 \<and> free_frames ref_bit_field m' = {6..<9} \<and>
     frame_drop ref_bit_field kernel_config f m' \<noteq> None"
proof -
  have m: "frames_inv ref_bit_field (machine_with 5 9)" "free_frames ref_bit_field (machine_with 5 9) = {5..<9}"
    by (rule machine_with_frames; simp)+
  have least: "least_ge {5..<9} 0 = Some 5" by (rule least_ge_SomeI) auto
  have "{5..<9} - {5} = {6..<9 :: nat}" by auto
  then show ?thesis using frame_new_drop [OF m(1)] m(2) least
    by (auto simp: PHYS_MEMORY_OFFSET_def PAGE_SIZE_def)
qed

text \<open>C25: \<^verbatim>\<open>Frame::new_contiguous\<close> gives out the first aligned run of free frames (or \<^verbatim>\<open>None\<close> when no run fits or the
  alignment exceeds the capacity), takes exactly that run, and dropping the frame gives it back frame by frame.\<close>

theorem frame_contiguous_roundtrip:
  assumes "frames_inv bf m" "0 < n" "unat al < 64"
  shows "case (if 2 ^ 24 < (2 :: nat) ^ unat al then None else least_ge (fits (free_frames bf m) (unat n) (unat al)) 0) of
      None \<Rightarrow> frame_new_contiguous bf kernel_config n al m = Some (None, m)
    | Some k \<Rightarrow> \<exists>f m'. frame_new_contiguous bf kernel_config n al m = Some (Some f, m') \<and> frames_inv bf m' \<and>
        start_paddr f = PHYS_MEMORY_OFFSET + of_nat k * PAGE_SIZE \<and> frame_size kernel_config f = n * PAGE_SIZE \<and>
        {k..<k + unat n} \<subseteq> free_frames bf m \<and> free_frames bf m' = free_frames bf m - {k..<k + unat n} \<and>
        mem m' = mem m \<and>
        (\<exists>m''. frame_drop bf kernel_config f m' = Some m'' \<and> frames_inv bf m'' \<and>
           free_frames bf m'' = free_frames bf m)"
proof -
  let ?r = "if 2 ^ 24 < (2 :: nat) ^ unat al then None else least_ge (fits (free_frames bf m) (unat n) (unat al)) 0"
  have n0: "0 < unat n" using assms(2) by (simp add: word_less_unat)
  note ac = ba16m.alloc_contiguous_ok [OF assms(1) n0 assms(3)]
  show ?thesis
  proof (cases ?r)
    case None
    then have "ba_alloc_contiguous (BitAlloc16M bf) (frame_allocator m) (unat n) (unat al) = Some (None, frame_allocator m)"
      using ac by simp
    then show ?thesis unfolding None by (simp add: frame_new_contiguous_def alloc_frame_contiguous_def)
  next
    case (Some k)
    then obtain ba where ba: "ba_alloc_contiguous (BitAlloc16M bf) (frame_allocator m) (unat n) (unat al) = Some (Some k, ba)"
      "inv16m bf ba" "{k..<k + unat n} \<subseteq> free_frames bf m" "free16m bf ba = free_frames bf m - {k..<k + unat n}"
      using ac by auto
    let ?f = "\<lparr>start_paddr = page_addr k, frame_count = n\<rparr>" and ?m = "m\<lparr>frame_allocator := ba\<rparr>"
    have new: "frame_new_contiguous bf kernel_config n al m = Some (Some ?f, ?m)"
      using ba(1) by (simp add: frame_new_contiguous_def alloc_frame_contiguous_def)
    have "k + unat n - 1 \<in> free_frames bf m" using ba(3) n0 by (auto simp: subset_iff)
    then have cap: "k + unat n \<le> 16777216" using free_frames_less [OF assms(1)] by fastforce
    have dis: "{k..<k + unat n} \<inter> free_frames bf ?m = {}" using ba(4) by auto
    have "\<exists>m''. frame_drop bf kernel_config ?f ?m = Some m'' \<and> frames_inv bf m'' \<and>
        free_frames bf m'' = free_frames bf ?m \<union> {k..<k + unat n}"
      using frame_drop_run [OF _ cap dis] ba(2) by (simp del: kernel_config_simps) blast
    moreover have "free_frames bf ?m \<union> {k..<k + unat n} = free_frames bf m" using ba(3,4) by auto
    ultimately have drop: "\<exists>m''. frame_drop bf kernel_config ?f ?m = Some m'' \<and> frames_inv bf m'' \<and>
        free_frames bf m'' = free_frames bf m" by simp
    show ?thesis unfolding Some option.case
      by (rule exI [of _ ?f], rule exI [of _ ?m], intro conjI, fact new)
        (use ba drop in \<open>simp_all add: frame_size_def add.commute\<close>)
  qed
qed

theorem frame_contiguous_roundtrip_witness:
  "\<exists>f m'. frame_new_contiguous ref_bit_field kernel_config 3 1 (machine_with 5 16) = Some (Some f, m') \<and>
     start_paddr f = 0x80006000 \<and> free_frames ref_bit_field m' = {5..<16} - {6..<9} \<and>
     frame_drop ref_bit_field kernel_config f m' \<noteq> None"
proof -
  have m: "frames_inv ref_bit_field (machine_with 5 16)" "free_frames ref_bit_field (machine_with 5 16) = {5..<16}"
    by (rule machine_with_frames; simp)+
  have least: "least_ge (fits {5..<16} 3 1) 0 = Some 6"
  proof (rule least_ge_SomeI)
    fix b assume "b \<in> fits {5..<16} 3 1"
    then have "b \<in> {5..<16}" "even b" by (auto simp: fits_def subset_iff)
    then show "6 \<le> b" by (cases "b = 5") auto
  qed (auto simp: fits_def)
  show ?thesis using frame_contiguous_roundtrip [OF m(1), of 3 1] m(2) least
    by (auto simp: PHYS_MEMORY_OFFSET_def PAGE_SIZE_def)
qed

subsection \<open>File descriptors and thread ids against their free sets\<close>

lemma fd_allocator_new_ok:
  assumes "bit_field_ok bf" "0 < limit" "limit \<le> 256"
  obtains a where "fd_allocator_new bf limit = Some a" "inv256 bf a" "free256 bf a = {..<limit}"
  using ba256.insert_ok [OF ba256.default_inv [OF assms(1)] assms(2)] assms(3)
  by (auto simp: fd_allocator_new_def ba256.default_free atLeast0LessThan)

lemma fd_alloc_none: "inv256 bf a \<Longrightarrow> free256 bf a = {} \<Longrightarrow> fd_alloc bf a = Some (None, a)"
  by (simp add: fd_alloc_def ba256.alloc_none)

lemma fd_alloc_some:
  assumes "inv256 bf a" "least_ge (free256 bf a) 0 = Some fd"
  obtains a' where "fd_alloc bf a = Some (Some fd, a')" "inv256 bf a'" "free256 bf a' = free256 bf a - {fd}"
proof -
  have "free256 bf a \<noteq> {}" using least_ge_SomeD(1) [OF assms(2)] by blast
  from ba256.alloc_some [OF assms(1) this] assms(2) that show ?thesis by (auto simp: fd_alloc_def)
qed

lemma fd_dealloc_ok:
  assumes "inv256 bf a" "fd < 256" "fd \<notin> free256 bf a"
  obtains a' where "fd_dealloc bf a fd = Some a'" "inv256 bf a'" "free256 bf a' = insert fd (free256 bf a)"
  using ba256.dealloc_ok [OF assms(1) _ assms(3)] assms(2) by (auto simp: fd_dealloc_def)

lemma is_allocated_ok: "inv256 bf a \<Longrightarrow> is_allocated bf a fd = (if fd < 256 then Some (fd \<notin> free256 bf a) else None)"
  by (simp add: is_allocated_def ba256.test_ok)

lemma alloc_exact_ok:
  assumes "inv256 bf a" "fd < 256"
  obtains a' where "alloc_exact bf a fd = Some a'" "inv256 bf a'" "free256 bf a' = free256 bf a - {fd}"
proof -
  have "{fd..<fd + 1} = {fd}" by auto
  with ba256.remove_ok [OF assms(1), of fd "fd + 1"] assms(2) that show ?thesis by (auto simp: alloc_exact_def)
qed

lemma alloc_exact_if_possible_ok:
  assumes "inv256 bf a" "fd < 256"
  obtains a' where "alloc_exact_if_possible bf a fd = Some (fd \<in> free256 bf a, a')" "inv256 bf a'"
    "free256 bf a' = free256 bf a - {fd}"
proof (cases "fd \<in> free256 bf a")
  case True
  show ?thesis
    by (rule alloc_exact_ok [OF assms])
      (use True assms that in \<open>simp add: alloc_exact_if_possible_def is_allocated_ok\<close>)
next
  case False
  then show ?thesis using that [of a] assms by (simp add: alloc_exact_if_possible_def is_allocated_ok)
qed

lemma expand_range_ok:
  assumes "inv256 bf a" "l < r" "r \<le> 256"
  obtains a' where "expand_range bf a l r = Some a'" "inv256 bf a'" "free256 bf a' = free256 bf a \<union> {l..<r}"
  using ba256.insert_ok [OF assms(1,2)] assms(3) by (auto simp: expand_range_def)

lemma shrink_range_ok:
  assumes "inv256 bf a" "l < r" "r \<le> 256"
  obtains a' where "shrink_range bf a l r = Some a'" "inv256 bf a'" "free256 bf a' = free256 bf a - {l..<r}"
  using ba256.remove_ok [OF assms(1,2)] assms(3) by (auto simp: shrink_range_def)

lemma tid_init_ok:
  assumes "bit_field_ok bf"
  obtains a where "tid_init bf (DEFAULT (BitAlloc4K bf)) = Some a" "inv4k bf a" "free4k bf a = {2..<TID_LIMIT}"
  using ba4k.insert_ok [OF ba4k.default_inv [OF assms], of 2 4096]
  by (auto simp: tid_init_def TID_LIMIT_def ba4k.default_free)

text \<open>While only the ids that \<^verbatim>\<open>tid::init\<close> made available are free, \<^verbatim>\<open>Tid::new\<close> gives out the lowest free one, never 0 or 1,
  answers \<^verbatim>\<open>None\<close> exactly when none is left, and dropping the \<^verbatim>\<open>Tid\<close> makes it free again.\<close>

lemma tid_lifecycle:
  assumes a: "inv4k bf a" "free4k bf a \<subseteq> {2..<TID_LIMIT}"
  shows "case least_ge (free4k bf a) 0 of
       None \<Rightarrow> free4k bf a = {} \<and> tid_new bf a = Some (None, a)
     | Some n \<Rightarrow> 2 \<le> n \<and> n < TID_LIMIT \<and> (\<exists>a'. tid_new bf a = Some (Some (Tid n), a') \<and> inv4k bf a' \<and>
         free4k bf a' = free4k bf a - {n} \<and>
         (\<exists>a''. tid_drop bf a' (Tid n) = Some a'' \<and> inv4k bf a'' \<and> free4k bf a'' = free4k bf a))"
proof (cases "least_ge (free4k bf a) 0")
  case None
  then have "free4k bf a = {}" using least_ge_NoneD by blast
  then show ?thesis using None ba4k.alloc_none [OF a(1)] by (simp add: tid_new_def alloc_tid_def)
next
  case (Some n)
  have n: "n \<in> free4k bf a" using least_ge_SomeD(1) [OF Some] .
  then have n2: "2 \<le> n" "n < 4096" using a(2) by (auto simp: TID_LIMIT_def)
  obtain a' where a': "ba_alloc (BitAlloc4K bf) a = Some (Some n, a')" "inv4k bf a'" "free4k bf a' = free4k bf a - {n}"
    using ba4k.alloc_some [OF a(1)] n Some by auto
  obtain a'' where a'': "ba_dealloc (BitAlloc4K bf) a' n = Some a''" "inv4k bf a''" "free4k bf a'' = insert n (free4k bf a')"
    using ba4k.dealloc_ok [OF a'(2), of n] a'(3) n2 by auto
  have "free4k bf a'' = free4k bf a" using a'(3) a''(3) n by auto
  then show ?thesis using Some n2 a' a''
    by (simp add: tid_new_def alloc_tid_def dealloc_tid_raw_def TID_LIMIT_def)
qed

lemma tid_lifecycle_example:
  "\<exists>a a'. tid_init ref_bit_field (DEFAULT (BitAlloc4K ref_bit_field)) = Some a \<and>
     tid_new ref_bit_field a = Some (Some (Tid 2), a') \<and> tid_drop ref_bit_field a' (Tid 2) \<noteq> None"
proof -
  obtain a where a: "tid_init ref_bit_field (DEFAULT (BitAlloc4K ref_bit_field)) = Some a"
    "inv4k ref_bit_field a" "free4k ref_bit_field a = {2..<TID_LIMIT}"
    by (rule tid_init_ok [OF ref_bit_field_ok])
  have "least_ge {2..<TID_LIMIT} 0 = Some 2" by (rule least_ge_SomeI) (auto simp: TID_LIMIT_def)
  with tid_lifecycle [OF a(2)] a show ?thesis by auto
qed

end
