(* ===== verification/Fd_Manager.thy ===== *)
theory Fd_Manager
  imports Allocators
begin

text \<open>
  The file descriptor table of a process, \<^verbatim>\<open>kernel/src/file/fd_manager.rs\<close>: a vector of open files and the
  bitmap of free descriptors. A file (\<^verbatim>\<open>Arc<dyn File>\<close>) is a value of an arbitrary type; cloning the \<^verbatim>\<open>Arc\<close> is
  the identity. \<^verbatim>\<open>get_status\<close>, a method of the file object, is a parameter.

  \<open>fd_table\<close> is the partial map the table stands for. \<open>fd_ok\<close> says that the allocator and the vector agree:
  a descriptor is free exactly when it is below the limit and not open.
\<close>

definition FD_LIMIT_ORIGIN :: nat where
  "FD_LIMIT_ORIGIN = 256"

definition FD_LIMIT_HARD :: nat where
  "FD_LIMIT_HARD = 256"

definition CLOEXEC :: u32 where
  "CLOEXEC = push_bit 19 1"

text \<open>\<^verbatim>\<open>contains\<close> of the flag types generated by \<^verbatim>\<open>bitflags!\<close>.\<close>

definition flags_contains :: "'l::len word \<Rightarrow> 'l word \<Rightarrow> bool" where
  "flags_contains flags other \<longleftrightarrow> flags AND other = other"

record 'f fd_manager =
  files :: "'f option list"
  fd_allocator :: fd_allocator
  limit :: nat
  umask :: "32 word"

text \<open>\<^verbatim>\<open>Vec::resize(n, None)\<close>\<close>

definition resize_none :: "'a option list \<Rightarrow> nat \<Rightarrow> 'a option list" where
  "resize_none xs n = (if length xs < n then xs @ replicate (n - length xs) None else take n xs)"

definition push :: "bit_field16 \<Rightarrow> 'f fd_manager \<Rightarrow> 'f \<Rightarrow> (nat os_result \<times> 'f fd_manager) option" where
  "push bf self file = do {
     (r, a) \<leftarrow> fd_alloc bf (fd_allocator self);
     let self = self\<lparr>fd_allocator := a\<rparr>;
     (case r of
        Some fd \<Rightarrow>
          let fs = (if length (files self) \<le> fd then resize_none (files self) (fd + 1) else files self)
          in if fd < length fs then Some (Ok fd, self\<lparr>files := fs[fd := Some file]\<rparr>) else None
      | None \<Rightarrow> Some (Err FdManager_NoAvailableFd, self))
   }"

definition fd_manager_new ::
  "bit_field16 \<Rightarrow> 'f \<Rightarrow> 'f \<Rightarrow> 'f \<Rightarrow> 32 word \<Rightarrow> 'f fd_manager option" where
  "fd_manager_new bf stdin stdout stderr um = do {
     a \<leftarrow> fd_allocator_new bf FD_LIMIT_ORIGIN;
     let self = \<lparr>files = [], fd_allocator = a, limit = FD_LIMIT_ORIGIN, umask = um\<rparr>;
     (_, self) \<leftarrow> unwrap_os (push bf self stdin);
     (_, self) \<leftarrow> unwrap_os (push bf self stdout);
     (_, self) \<leftarrow> unwrap_os (push bf self stderr);
     Some self
   }"

fun copy_all_loop :: "bit_field16 \<Rightarrow> 'f fd_manager \<Rightarrow> nat list \<Rightarrow> 'f fd_manager \<Rightarrow> 'f fd_manager option" where
  "copy_all_loop bf self [] new = Some new"
| "copy_all_loop bf self (fd # fds) new =
     (case files self ! fd of
        Some file \<Rightarrow> do {
          a \<leftarrow> alloc_exact bf (fd_allocator new) fd;
          copy_all_loop bf self fds (new\<lparr>fd_allocator := a, files := (files new)[fd := Some file]\<rparr>)
        }
      | None \<Rightarrow> copy_all_loop bf self fds new)"

definition copy_all :: "bit_field16 \<Rightarrow> 'f fd_manager \<Rightarrow> 'f fd_manager option" where
  "copy_all bf self = do {
     a \<leftarrow> fd_allocator_new bf (limit self);
     copy_all_loop bf self [0..<length (files self)]
       \<lparr>files = resize_none [] (length (files self)), fd_allocator = a, limit = limit self, umask = umask self\<rparr>
   }"

definition get_file :: "'f fd_manager \<Rightarrow> nat \<Rightarrow> 'f os_result" where
  "get_file self fd =
     (if fd \<ge> length (files self) then Err FdManager_FdNotFound
      else case files self ! fd of None \<Rightarrow> Err FdManager_FdNotFound | Some f \<Rightarrow> Ok f)"

definition copy_fd_anywhere :: "bit_field16 \<Rightarrow> 'f fd_manager \<Rightarrow> nat \<Rightarrow> (nat os_result \<times> 'f fd_manager) option" where
  "copy_fd_anywhere bf self old_fd =
     (case get_file self old_fd of
        Inl e \<Rightarrow> Some (Err e, self)
      | Inr file \<Rightarrow> push bf self file)"

definition copy_fd_to :: "bit_field16 \<Rightarrow> 'f fd_manager \<Rightarrow> nat \<Rightarrow> nat \<Rightarrow> (bool \<times> 'f fd_manager) option" where
  "copy_fd_to bf self old_fd new_fd =
     (case get_file self old_fd of
        Inl e \<Rightarrow> Some (False, self)
      | Inr file \<Rightarrow> do {
          (_, a) \<leftarrow> alloc_exact_if_possible bf (fd_allocator self) new_fd;
          let fs = (if length (files self) \<le> new_fd then resize_none (files self) (new_fd + 1) else files self);
          if new_fd < length fs
          then Some (True, self\<lparr>fd_allocator := a, files := fs[new_fd := Some file]\<rparr>)
          else None
        })"

fun get_files_if_all_exists :: "'f fd_manager \<Rightarrow> nat list \<Rightarrow> 'f list option" where
  "get_files_if_all_exists self [] = Some []"
| "get_files_if_all_exists self (fd # fds) =
     (case get_file self fd of
        Inr file \<Rightarrow> map_option ((#) file) (get_files_if_all_exists self fds)
      | Inl e \<Rightarrow> None)"

definition remove_file :: "bit_field16 \<Rightarrow> 'f fd_manager \<Rightarrow> nat \<Rightarrow> ('f os_result \<times> 'f fd_manager) option" where
  "remove_file bf self fd =
     (if fd \<ge> length (files self) then Some (Err FdManager_FdNotFound, self)
      else case files self ! fd of
        None \<Rightarrow> Some (Err FdManager_FdNotFound, self)
      | Some file \<Rightarrow> do {
          a \<leftarrow> fd_dealloc bf (fd_allocator self) fd;
          Some (Ok file, self\<lparr>fd_allocator := a, files := (files self)[fd := None]\<rparr>)
        })"

definition is_full :: "bit_field16 \<Rightarrow> 'f fd_manager \<Rightarrow> (bool \<times> 'f fd_manager) option" where
  "is_full bf self = do {
     (r, a) \<leftarrow> fd_alloc bf (fd_allocator self);
     (case r of
        Some fd \<Rightarrow> do {
          a \<leftarrow> fd_dealloc bf a fd;
          Some (False, self\<lparr>fd_allocator := a\<rparr>)
        }
      | None \<Rightarrow> Some (True, self\<lparr>fd_allocator := a\<rparr>))
   }"

definition get_limit :: "'f fd_manager \<Rightarrow> nat" where
  "get_limit self = limit self"

definition modify_limit :: "bit_field16 \<Rightarrow> 'f fd_manager \<Rightarrow> nat \<Rightarrow> 'f fd_manager option" where
  "modify_limit bf self new_limit = do {
     let new_limit = max (min new_limit FD_LIMIT_HARD) 0;
     a \<leftarrow> (if new_limit < limit self then shrink_range bf (fd_allocator self) new_limit (limit self)
          else if new_limit > limit self then expand_range bf (fd_allocator self) (limit self) new_limit
          else Some (fd_allocator self));
     Some (self\<lparr>fd_allocator := a, limit := new_limit\<rparr>)
   }"

fun close_cloexec_loop :: "('f \<Rightarrow> u32) \<Rightarrow> nat list \<Rightarrow> 'f option list \<Rightarrow> 'f option list" where
  "close_cloexec_loop get_status [] fs = fs"
| "close_cloexec_loop get_status (fd # fds) fs =
     close_cloexec_loop get_status fds
       (case fs ! fd of
          Some f \<Rightarrow> if flags_contains (get_status f) CLOEXEC then fs[fd := None] else fs
        | None \<Rightarrow> fs)"

definition close_cloexec_files :: "('f \<Rightarrow> u32) \<Rightarrow> 'f fd_manager \<Rightarrow> 'f fd_manager" where
  "close_cloexec_files get_status self =
     self\<lparr>files := close_cloexec_loop get_status [0..<length (files self)] (files self)\<rparr>"

definition get_umask :: "'f fd_manager \<Rightarrow> 32 word" where
  "get_umask self = umask self"

definition set_umask_and_get_old :: "'f fd_manager \<Rightarrow> 32 word \<Rightarrow> 32 word \<times> 'f fd_manager" where
  "set_umask_and_get_old self new_umask = (umask self, self\<lparr>umask := new_umask\<rparr>)"

subsection \<open>The table as a partial map\<close>

definition fd_table :: "'f fd_manager \<Rightarrow> nat \<Rightarrow> 'f option" where
  "fd_table self fd = (if fd < length (files self) then files self ! fd else None)"

definition fd_ok :: "bit_field16 \<Rightarrow> 'f fd_manager \<Rightarrow> bool" where
  "fd_ok bf self \<longleftrightarrow> inv256 bf (fd_allocator self) \<and> length (files self) \<le> 256 \<and> 0 < limit self \<and> limit self \<le> 256 \<and>
     dom (fd_table self) \<subseteq> {..<limit self} \<and>
     free256 bf (fd_allocator self) = {..<limit self} - dom (fd_table self)"

lemma fd_table_simps:
  "get_file self fd = (case fd_table self fd of None \<Rightarrow> Err FdManager_FdNotFound | Some f \<Rightarrow> Ok f)"
  by (simp add: get_file_def fd_table_def)

lemma length_resize_none [simp]: "length (resize_none xs n) = n"
  by (simp add: resize_none_def)

lemma nth_resize_none: "i < n \<Longrightarrow> resize_none xs n ! i = (if i < length xs then xs ! i else None)"
  by (auto simp: resize_none_def nth_append)

text \<open>Storing a file at a descriptor, growing the vector when needed.\<close>

lemma fd_table_store:
  assumes "fs = (if length (files self) \<le> fd then resize_none (files self) (fd + 1) else files self)"
  shows "fd < length fs" "length fs = max (length (files self)) (fd + 1)"
    "fd_table (self\<lparr>fd_allocator := a, files := fs[fd := Some f]\<rparr>) = (fd_table self)(fd \<mapsto> f)"
  using assms by (auto simp: fd_table_def nth_resize_none nth_list_update fun_eq_iff)

lemma fd_table_allocator [simp]: "fd_table (self\<lparr>fd_allocator := a\<rparr>) = fd_table self"
  by (simp add: fd_table_def fun_eq_iff)

lemma fd_okD:
  assumes "fd_ok bf self"
  shows "inv256 bf (fd_allocator self)" "length (files self) \<le> 256" "0 < limit self" "limit self \<le> 256"
    "dom (fd_table self) \<subseteq> {..<limit self}"
    "free256 bf (fd_allocator self) = {..<limit self} - dom (fd_table self)"
  using assms by (auto simp: fd_ok_def)

lemma fd_free_iff: "fd_ok bf self \<Longrightarrow> fd \<in> free256 bf (fd_allocator self) \<longleftrightarrow> fd < limit self \<and> fd_table self fd = None"
  by (auto simp: fd_ok_def)

lemma fd_openD:
  "fd_ok bf self \<Longrightarrow> fd_table self fd = Some f \<Longrightarrow>
     fd < limit self \<and> fd < length (files self) \<and> files self ! fd = Some f"
  unfolding fd_ok_def dom_def fd_table_def by (auto split: if_splits)

abbreviation fd_unused :: "'f fd_manager \<Rightarrow> nat set" where
  "fd_unused self \<equiv> {fd. fd < limit self \<and> fd_table self fd = None}"

lemma fd_free_unused: "fd_ok bf self \<Longrightarrow> free256 bf (fd_allocator self) = fd_unused self"
  using fd_free_iff by blast

lemma push_none: "fd_ok bf self \<Longrightarrow> fd_unused self = {} \<Longrightarrow> push bf self file = Some (Err FdManager_NoAvailableFd, self)"
  by (simp add: push_def fd_alloc_none fd_okD(1) fd_free_unused)

lemma push_some:
  assumes "fd_ok bf self" "least_ge (fd_unused self) 0 = Some fd"
  obtains self' where "push bf self fl = Some (Ok fd, self')" "fd_ok bf self'"
    "fd_table self' = (fd_table self)(fd \<mapsto> fl)" "limit self' = limit self" "umask self' = umask self"
proof -
  note ok = fd_okD [OF assms(1)]
  obtain a where a: "fd_alloc bf (fd_allocator self) = Some (Some fd, a)" "inv256 bf a"
    "free256 bf a = free256 bf (fd_allocator self) - {fd}"
    using fd_alloc_some [OF ok(1)] assms(2) fd_free_unused [OF assms(1)] by metis
  define fs where "fs = (if length (files self) \<le> fd then resize_none (files self) (fd + 1) else files self)"
  note st = fd_table_store [OF fs_def]
  let ?s = "self\<lparr>fd_allocator := a, files := fs[fd := Some fl]\<rparr>"
  have fd: "fd < limit self" using least_ge_SomeD(1) [OF assms(2)] by simp
  have "push bf self fl = Some (Ok fd, ?s)"
    using a(1) st(1) by (simp add: push_def fs_def Let_def)
  moreover have "fd_ok bf ?s" using ok a(2,3) st fd by (auto simp: fd_ok_def)
  ultimately show ?thesis using that st(3) by simp
qed

text \<open>C26: \<^verbatim>\<open>push\<close> stores the file at the lowest descriptor that is not open, changes no other entry, nor limit or umask, and keeps the
  table and its allocator in agreement; it fails with \<^verbatim>\<open>FdManager_NoAvailableFd\<close>, changing nothing, exactly when every descriptor below
  the limit is open.\<close>

theorem fd_push_lowest:
  assumes "fd_ok bf self"
  shows "case least_ge {fd. fd < limit self \<and> fd_table self fd = None} 0 of
      None \<Rightarrow> {fd. fd < limit self \<and> fd_table self fd = None} = {} \<and>
        push bf self file = Some (Err FdManager_NoAvailableFd, self)
    | Some fd \<Rightarrow> \<exists>self'. push bf self file = Some (Ok fd, self') \<and> fd_ok bf self' \<and>
        fd_table self' = (fd_table self)(fd \<mapsto> file) \<and> limit self' = limit self \<and> umask self' = umask self"
proof (cases "least_ge (fd_unused self) 0")
  case None
  then have "fd_unused self = {}" using least_ge_NoneD by blast
  then show ?thesis using None push_none [OF assms] by simp
next
  case (Some fd)
  obtain self' where "push bf self file = Some (Ok fd, self')" "fd_ok bf self'"
    "fd_table self' = (fd_table self)(fd \<mapsto> file)" "limit self' = limit self" "umask self' = umask self"
    by (rule push_some [OF assms Some, where fl = "file"])
  then show ?thesis using Some by simp
qed

text \<open>\<^verbatim>\<open>remove_file\<close> of an open descriptor returns its file, closes exactly that descriptor and makes it available again;
  on a descriptor that is not open it answers \<^verbatim>\<open>FdManager_FdNotFound\<close> and changes nothing.\<close>

lemma fd_remove_file:
  assumes "fd_ok bf self"
  shows "case fd_table self fd of
      None \<Rightarrow> remove_file bf self fd = Some (Err FdManager_FdNotFound, self)
    | Some f \<Rightarrow> \<exists>self'. remove_file bf self fd = Some (Ok f, self') \<and> fd_ok bf self' \<and>
        fd_table self' = (fd_table self)(fd := None) \<and> limit self' = limit self"
proof (cases "fd_table self fd")
  case None
  then show ?thesis by (auto simp: remove_file_def fd_table_def split: if_splits)
next
  case (Some f)
  note ok = fd_okD [OF assms]
  have fd: "fd < length (files self)" "files self ! fd = Some f" "fd < limit self"
    using fd_openD [OF assms Some] by simp_all
  have "fd \<notin> free256 bf (fd_allocator self)" using fd_free_iff [OF assms] Some by simp
  moreover have "fd < 256" using fd(3) ok(4) by simp
  ultimately obtain a where a: "fd_dealloc bf (fd_allocator self) fd = Some a" "inv256 bf a"
    "free256 bf a = insert fd (free256 bf (fd_allocator self))"
    using fd_dealloc_ok [OF ok(1)] by metis
  let ?s = "self\<lparr>fd_allocator := a, files := (files self)[fd := None]\<rparr>"
  have tab: "fd_table ?s = (fd_table self)(fd := None)"
    using fd(1) by (auto simp: fd_table_def nth_list_update fun_eq_iff)
  have "fd_ok bf ?s" unfolding fd_ok_def tab using ok a(2,3) fd(3) by auto
  moreover have "remove_file bf self fd = Some (Ok f, ?s)" using fd(1,2) a(1) by (simp add: remove_file_def)
  ultimately show ?thesis using Some tab by auto
qed

text \<open>\<^verbatim>\<open>copy_fd_to(old, new)\<close> with \<open>new\<close> below the limit makes \<open>new\<close> refer to the file of \<open>old\<close>, replacing what \<open>new\<close> held, keeps every
  other entry and the agreement with the allocator; it answers \<^verbatim>\<open>false\<close> when \<open>old\<close> is not open.\<close>

lemma fd_copy_to:
  assumes "fd_ok bf self" "new_fd < limit self"
  shows "case fd_table self old_fd of
      None \<Rightarrow> copy_fd_to bf self old_fd new_fd = Some (False, self)
    | Some f \<Rightarrow> \<exists>self'. copy_fd_to bf self old_fd new_fd = Some (True, self') \<and> fd_ok bf self' \<and>
        fd_table self' = (fd_table self)(new_fd \<mapsto> f) \<and> limit self' = limit self"
proof (cases "fd_table self old_fd")
  case None
  then show ?thesis by (simp add: copy_fd_to_def fd_table_simps)
next
  case (Some f)
  note ok = fd_okD [OF assms(1)]
  have "new_fd < 256" using assms(2) ok(4) by simp
  then obtain b a where a: "alloc_exact_if_possible bf (fd_allocator self) new_fd = Some (b, a)" "inv256 bf a"
    "free256 bf a = free256 bf (fd_allocator self) - {new_fd}"
    using alloc_exact_if_possible_ok [OF ok(1)] by metis
  define fs where "fs = (if length (files self) \<le> new_fd then resize_none (files self) (new_fd + 1) else files self)"
  note st = fd_table_store [OF fs_def]
  let ?s = "self\<lparr>fd_allocator := a, files := fs[new_fd := Some f]\<rparr>"
  have "copy_fd_to bf self old_fd new_fd = Some (True, ?s)"
    using Some a(1) st(1) by (simp add: copy_fd_to_def fd_table_simps fs_def Let_def)
  moreover have "fd_ok bf ?s" using ok a(2,3) st assms(2) by (auto simp: fd_ok_def)
  ultimately show ?thesis using Some st(3) by auto
qed

text \<open>\<^verbatim>\<open>fork\<close>\<close>

lemma copy_all_loop_ok:
  assumes "distinct fds" "set fds \<subseteq> {..<length (files self)}" "length (files self) \<le> 256"
    "inv256 bf (fd_allocator new)" "length (files new) = length (files self)"
  shows "\<exists>new'. copy_all_loop bf self fds new = Some new' \<and> inv256 bf (fd_allocator new') \<and>
    length (files new') = length (files self) \<and> limit new' = limit new \<and> umask new' = umask new \<and>
    free256 bf (fd_allocator new') = free256 bf (fd_allocator new) - {fd \<in> set fds. files self ! fd \<noteq> None} \<and>
    (\<forall>fd. files new' ! fd = (if fd \<in> set fds \<and> files self ! fd \<noteq> None then files self ! fd else files new ! fd))"
  using assms
proof (induction fds arbitrary: new)
  case (Cons fd fds)
  show ?case
  proof (cases "files self ! fd")
    case None
    with Cons.IH [of new] Cons.prems show ?thesis by auto
  next
    case (Some f)
    have "fd < 256" "fd < length (files new)" using Cons.prems by auto
    then obtain a where a: "alloc_exact bf (fd_allocator new) fd = Some a" "inv256 bf a"
      "free256 bf a = free256 bf (fd_allocator new) - {fd}"
      using alloc_exact_ok [OF Cons.prems(4)] by metis
    let ?n = "new\<lparr>fd_allocator := a, files := (files new)[fd := Some f]\<rparr>"
    obtain new' where n: "copy_all_loop bf self fds ?n = Some new'" "inv256 bf (fd_allocator new')"
      "length (files new') = length (files self)" "limit new' = limit new" "umask new' = umask new"
      "free256 bf (fd_allocator new') = free256 bf a - {fd \<in> set fds. files self ! fd \<noteq> None}"
      "\<And>i. files new' ! i = (if i \<in> set fds \<and> files self ! i \<noteq> None then files self ! i else files ?n ! i)"
      using Cons.IH [of ?n] Cons.prems a(2) by auto
    have "files new' ! i = (if i \<in> set (fd # fds) \<and> files self ! i \<noteq> None then files self ! i else files new ! i)" for i
      using n(7) [of i] Some \<open>fd < length (files new)\<close> by (auto simp: nth_list_update)
    moreover have "free256 bf (fd_allocator new') =
        free256 bf (fd_allocator new) - {i \<in> set (fd # fds). files self ! i \<noteq> None}"
      using n(6) a(3) Some by auto
    ultimately show ?thesis using n Some a(1) by auto
  qed
qed simp

text \<open>C27: \<^verbatim>\<open>copy_all\<close>, used by fork, gives the child the same descriptor table, limit and umask, with an allocator that agrees
  with it.\<close>

theorem fd_copy_all:
  assumes "fd_ok bf self" "bit_field_ok bf"
  shows "\<exists>new. copy_all bf self = Some new \<and> fd_ok bf new \<and> fd_table new = fd_table self \<and>
    limit new = limit self \<and> umask new = umask self"
proof -
  note ok = fd_okD [OF assms(1)]
  obtain a where a: "fd_allocator_new bf (limit self) = Some a" "inv256 bf a" "free256 bf a = {..<limit self}"
    using fd_allocator_new_ok [OF assms(2) ok(3,4)] by metis
  let ?n = "length (files self)"
  let ?s = "\<lparr>files = resize_none [] ?n, fd_allocator = a, limit = limit self, umask = umask self\<rparr>"
  obtain new where new: "copy_all_loop bf self [0..<?n] ?s = Some new" "inv256 bf (fd_allocator new)"
    "length (files new) = ?n" "limit new = limit self" "umask new = umask self"
    "free256 bf (fd_allocator new) = free256 bf a - {fd. fd < ?n \<and> files self ! fd \<noteq> None}"
    "\<And>fd. files new ! fd = (if fd < ?n \<and> files self ! fd \<noteq> None then files self ! fd else resize_none [] ?n ! fd)"
    using copy_all_loop_ok [of "[0..<?n]" self bf ?s] ok(2) a(2) by (auto simp: atLeast0LessThan cong: if_cong)
  have tab: "fd_table new = fd_table self"
    by (rule ext) (auto simp: fd_table_def new(3,7) nth_resize_none)
  have "{fd. fd < ?n \<and> files self ! fd \<noteq> None} = dom (fd_table self)" by (auto simp: fd_table_def split: if_splits)
  then have "fd_ok bf new" unfolding fd_ok_def tab new(3,4) using ok new(2,6) a(3) by simp
  then show ?thesis using new(1,4,5) tab a(1) by (auto simp: copy_all_def)
qed

lemma push_next:
  assumes "fd_ok bf self" "limit self = 256" "dom (fd_table self) = {..<k}" "k < 256"
  obtains self' where "push bf self fl = Some (Ok k, self')" "fd_ok bf self'" "limit self' = 256"
    "fd_table self' = (fd_table self)(k \<mapsto> fl)" "dom (fd_table self') = {..<Suc k}" "umask self' = umask self"
proof -
  have "fd_table self fd = None \<longleftrightarrow> k \<le> fd" for fd using assms(3) by (metis domIff lessThan_iff not_less)
  then have least: "least_ge (fd_unused self) 0 = Some k" using assms(2,4) by (intro least_ge_SomeI) auto
  show ?thesis
    by (rule push_some [OF assms(1) least, where fl = fl]) (use that assms in \<open>auto simp: lessThan_Suc\<close>)
qed

lemma fd_manager_new_ok:
  assumes "bit_field_ok bf"
  obtains self where "fd_manager_new bf stdin stdout stderr um = Some self" "fd_ok bf self"
    "fd_table self = [0 \<mapsto> stdin, 1 \<mapsto> stdout, 2 \<mapsto> stderr]" "limit self = 256" "umask self = um"
proof -
  obtain a where a: "fd_allocator_new bf FD_LIMIT_ORIGIN = Some a" "inv256 bf a" "free256 bf a = {..<256}"
    using fd_allocator_new_ok [OF assms, of 256] by (auto simp: FD_LIMIT_ORIGIN_def)
  let ?s = "\<lparr>files = [], fd_allocator = a, limit = FD_LIMIT_ORIGIN, umask = um\<rparr>"
  have t0: "fd_table ?s = Map.empty" by (simp add: fd_table_def fun_eq_iff)
  then have s0: "fd_ok bf ?s" "limit ?s = 256" "dom (fd_table ?s) = {..<0}"
    using a unfolding fd_ok_def t0 by (simp_all add: FD_LIMIT_ORIGIN_def)
  obtain s1 where s1: "push bf ?s stdin = Some (Ok 0, s1)" "fd_ok bf s1" "limit s1 = 256"
    "fd_table s1 = (fd_table ?s)(0 \<mapsto> stdin)" "dom (fd_table s1) = {..<Suc 0}" "umask s1 = umask ?s"
    by (rule push_next [OF s0, where fl = stdin]) auto
  obtain s2 where s2: "push bf s1 stdout = Some (Ok (Suc 0), s2)" "fd_ok bf s2" "limit s2 = 256"
    "fd_table s2 = (fd_table s1)(Suc 0 \<mapsto> stdout)" "dom (fd_table s2) = {..<Suc (Suc 0)}" "umask s2 = umask s1"
    by (rule push_next [OF s1(2,3,5), where fl = stdout]) auto
  obtain s3 where s3: "push bf s2 stderr = Some (Ok (Suc (Suc 0)), s3)" "fd_ok bf s3" "limit s3 = 256"
    "fd_table s3 = (fd_table s2)(Suc (Suc 0) \<mapsto> stderr)" "umask s3 = umask s2"
    by (rule push_next [OF s2(2,3,5), where fl = stderr]) auto
  have "fd_table s3 = [0 \<mapsto> stdin, 1 \<mapsto> stdout, 2 \<mapsto> stderr]"
    unfolding s3(4) s2(4) s1(4) t0 by (simp add: numeral_2_eq_2)
  moreover have "fd_manager_new bf stdin stdout stderr um = Some s3"
    using a(1) s1(1) s2(1) s3(1) by (simp add: fd_manager_new_def)
  ultimately show ?thesis using that s3(2,3,5) s2(6) s1(6) by simp
qed

subsection \<open>exec and resource limits\<close>

lemma close_cloexec_loop_nth:
  assumes "distinct fds" "set fds \<subseteq> {..<length fs}"
  shows "length (close_cloexec_loop get_status fds fs) = length fs \<and>
    (\<forall>i. close_cloexec_loop get_status fds fs ! i =
       (if i \<in> set fds then Option.bind (fs ! i) (\<lambda>f. if flags_contains (get_status f) CLOEXEC then None else Some f)
        else fs ! i))"
  using assms
  by (induction fds arbitrary: fs) (auto simp: nth_list_update split: option.splits)

text \<open>C28: \<^verbatim>\<open>close_cloexec_files\<close>, used by exec, closes exactly the descriptors whose file has \<^verbatim>\<open>CLOEXEC\<close> set, but leaves the allocator
  as it was: each of them stays allocated although no file is open there, and is lost to \<^verbatim>\<open>push\<close>.\<close>

theorem close_cloexec_leaks_fds:
  assumes "fd_ok bf self"
  shows "fd_table (close_cloexec_files get_status self) =
      (\<lambda>fd. Option.bind (fd_table self fd) (\<lambda>f. if flags_contains (get_status f) CLOEXEC then None else Some f)) \<and>
    (\<forall>fd f. fd_table self fd = Some f \<and> flags_contains (get_status f) CLOEXEC \<longrightarrow>
       fd_table (close_cloexec_files get_status self) fd = None \<and> fd < limit self \<and>
       fd \<notin> free256 bf (fd_allocator (close_cloexec_files get_status self)))"
proof -
  have n: "{0..<length (files self)} \<subseteq> {..<length (files self)}" by auto
  have tab: "fd_table (close_cloexec_files get_status self) =
      (\<lambda>fd. Option.bind (fd_table self fd) (\<lambda>f. if flags_contains (get_status f) CLOEXEC then None else Some f))"
    using close_cloexec_loop_nth [of "[0..<length (files self)]" "files self" get_status] n
    by (auto simp: fd_table_def close_cloexec_files_def)
  have "fd < limit self \<and> fd \<notin> free256 bf (fd_allocator self)" if "fd_table self fd = Some f" for fd f
    using fd_okD(5) [OF assms] fd_free_iff [OF assms] that by auto
  then show ?thesis unfolding tab by (auto simp: close_cloexec_files_def)
qed

text \<open>C29: Lowering the descriptor limit below an open descriptor and raising it back marks that descriptor as free although its
  file is still open: closing it then panics.\<close>

theorem modify_limit_frees_open_fds:
  assumes "fd_ok bf self" "fd_table self fd = Some f" "n \<le> fd"
  shows "\<exists>s1 s2. modify_limit bf self n = Some s1 \<and> modify_limit bf s1 (limit self) = Some s2 \<and>
    fd_table s2 fd = Some f \<and> fd \<in> free256 bf (fd_allocator s2) \<and> remove_file bf s2 fd = None"
proof -
  note ok = fd_okD [OF assms(1)]
  have fd: "fd < limit self" "fd < length (files self)" "files self ! fd = Some f"
    using fd_openD [OF assms(1,2)] by simp_all
  have n: "n < limit self" "min n FD_LIMIT_HARD = n" "min (limit self) FD_LIMIT_HARD = limit self"
    using fd(1) assms(3) ok(4) by (auto simp: FD_LIMIT_HARD_def)
  obtain a where a: "shrink_range bf (fd_allocator self) n (limit self) = Some a" "inv256 bf a"
    using shrink_range_ok [OF ok(1) n(1) ok(4)] by metis
  obtain b where b: "expand_range bf a n (limit self) = Some b" "inv256 bf b" "free256 bf b = free256 bf a \<union> {n..<limit self}"
    using expand_range_ok [OF a(2) n(1) ok(4)] by metis
  let ?s1 = "self\<lparr>fd_allocator := a, limit := n\<rparr>" and ?s2 = "self\<lparr>fd_allocator := b, limit := limit self\<rparr>"
  have "modify_limit bf self n = Some ?s1" "modify_limit bf ?s1 (limit self) = Some ?s2"
    using n a(1) b(1) by (simp_all add: modify_limit_def)
  moreover have free: "fd \<in> free256 bf b" using b(3) fd(1) assms(3) by simp
  moreover have "fd_dealloc bf b fd = None"
    using ba256.dealloc_panic [OF b(2)] free by (simp add: fd_dealloc_def)
  ultimately show ?thesis using fd(2,3) by (auto simp: fd_table_def remove_file_def)
qed

text \<open>Descriptors from 256 on are outside the bitmap.\<close>

lemma copy_fd_to_panics:
  assumes "fd_ok bf self" "fd_table self old_fd = Some f" "256 \<le> new_fd"
  shows "copy_fd_to bf self old_fd new_fd = None"
  using assms fd_okD(1) [OF assms(1)]
  by (simp add: copy_fd_to_def fd_table_simps alloc_exact_if_possible_def is_allocated_ok)

text \<open>A limit of 0 makes the bitmap's \<^verbatim>\<open>insert(0..0)\<close> run past its last block.\<close>

lemma for_range_loop_overrun:
  assumes "i \<le> length (sub c)" "length (sub c) \<le> lst"
  shows "for_range_loop bf T f start end i lst c = None"
  using assms
proof (induction "length (sub c) - i" arbitrary: i c)
  case 0
  then show ?case by (subst for_range_loop.simps) (simp add: at_def)
next
  case (Suc d)
  then have "\<And>b s. for_range_loop bf T f start end (Suc i) lst \<lparr>bitset = b, sub = (sub c)[i := s]\<rparr> = None" by simp
  moreover have "i \<le> lst" using Suc by simp
  ultimately show ?case by (subst for_range_loop.simps) (simp add: Let_def split: option.split)
qed

lemma fork_panics_at_limit_0: "limit self = 0 \<Longrightarrow> copy_all bf self = None"
  by (simp add: copy_all_def fd_allocator_new_def BitAlloc256_def cascade16_def cascade_insert_def for_range_def
      for_range_loop_overrun bitalloc16_def)

subsection \<open>Witnesses\<close>

text \<open>A fresh table over files named by characters.\<close>

definition demo_fdm :: "char fd_manager" where
  "demo_fdm = the (fd_manager_new ref_bit_field CHR ''i'' CHR ''o'' CHR ''e'' 0)"

lemma demo_fdm_ok:
  "fd_ok ref_bit_field demo_fdm" "fd_table demo_fdm = [0 \<mapsto> CHR ''i'', 1 \<mapsto> CHR ''o'', 2 \<mapsto> CHR ''e'']"
  "limit demo_fdm = 256"
proof -
  obtain self where "fd_manager_new ref_bit_field CHR ''i'' CHR ''o'' CHR ''e'' 0 = Some self" "fd_ok ref_bit_field self"
    "fd_table self = [0 \<mapsto> CHR ''i'', 1 \<mapsto> CHR ''o'', 2 \<mapsto> CHR ''e'']" "limit self = 256"
    by (rule fd_manager_new_ok [OF ref_bit_field_ok])
  then show "fd_ok ref_bit_field demo_fdm" "fd_table demo_fdm = [0 \<mapsto> CHR ''i'', 1 \<mapsto> CHR ''o'', 2 \<mapsto> CHR ''e'']"
    "limit demo_fdm = 256"
    by (simp_all add: demo_fdm_def)
qed

theorem fd_push_lowest_witness:
  "\<exists>s. push ref_bit_field demo_fdm CHR ''x'' = Some (Ok 3, s) \<and> fd_table s 3 = Some CHR ''x''"
proof -
  have "least_ge {fd. fd < limit demo_fdm \<and> fd_table demo_fdm fd = None} 0 = Some 3"
    by (rule least_ge_SomeI) (auto simp: demo_fdm_ok split: if_splits)
  with fd_push_lowest [OF demo_fdm_ok(1), of "CHR ''x''"] show ?thesis by auto
qed

lemma fd_remove_file_example:
  "\<exists>s. remove_file ref_bit_field demo_fdm 1 = Some (Ok CHR ''o'', s) \<and> fd_table s 1 = None"
  using fd_remove_file [OF demo_fdm_ok(1), of 1] by (auto simp: demo_fdm_ok)

lemma fd_copy_to_example:
  "\<exists>s. copy_fd_to ref_bit_field demo_fdm 1 9 = Some (True, s) \<and> fd_table s 9 = Some CHR ''o''"
  using fd_copy_to [OF demo_fdm_ok(1), of 9 1] by (auto simp: demo_fdm_ok)

theorem fd_copy_all_witness:
  "\<exists>new. copy_all ref_bit_field demo_fdm = Some new \<and> fd_table new = fd_table demo_fdm"
  using fd_copy_all [OF demo_fdm_ok(1) ref_bit_field_ok] by blast

theorem close_cloexec_leaks_fds_witness:
  "fd_table (close_cloexec_files (\<lambda>f. if f = CHR ''o'' then CLOEXEC else 0) demo_fdm) 1 = None \<and>
   1 \<notin> free256 ref_bit_field (fd_allocator (close_cloexec_files (\<lambda>f. if f = CHR ''o'' then CLOEXEC else 0) demo_fdm))"
  using close_cloexec_leaks_fds [OF demo_fdm_ok(1), of "\<lambda>f. if f = CHR ''o'' then CLOEXEC else 0"]
  by (auto simp: demo_fdm_ok flags_contains_def)

theorem modify_limit_frees_open_fds_witness:
  "\<exists>s1 s2. modify_limit ref_bit_field demo_fdm 1 = Some s1 \<and> modify_limit ref_bit_field s1 256 = Some s2 \<and>
     remove_file ref_bit_field s2 2 = None"
  using modify_limit_frees_open_fds [OF demo_fdm_ok(1), of 2 "CHR ''e''" 1] by (auto simp: demo_fdm_ok)

end
