(* ===== verification/Addr.thy ===== *)
theory Addr
  imports Allocators
begin

text \<open>
  Address arithmetic, \<^verbatim>\<open>kernel/src/memory/addr.rs\<close>. Addresses are 64-bit words and sums wrap around, as in a
  release build.
\<close>

definition phys_to_virt :: "usize \<Rightarrow> usize" where
  "phys_to_virt paddr = paddr + PHYS_VIRT_OFFSET"

definition virt_to_phys :: "usize \<Rightarrow> usize" where
  "virt_to_phys vaddr = vaddr - PHYS_VIRT_OFFSET"

definition align_down :: "usize \<Rightarrow> usize" where
  "align_down addr = addr AND NOT (PAGE_SIZE - 1)"

definition align_up :: "usize \<Rightarrow> usize" where
  "align_up addr = (addr + PAGE_SIZE - 1) AND NOT (PAGE_SIZE - 1)"

text \<open>\<open>sz\<close> is \<^verbatim>\<open>size_of::<T>()\<close>.\<close>

definition cross_page :: "usize \<Rightarrow> usize \<Rightarrow> bool" where
  "cross_page sz addr \<longleftrightarrow> (addr XOR (addr + sz)) \<ge> PAGE_SIZE"

definition page_count :: "usize \<Rightarrow> usize" where
  "page_count sz = align_up sz div PAGE_SIZE"

definition addr_to_page_id :: "usize \<Rightarrow> usize" where
  "addr_to_page_id addr = addr div PAGE_SIZE"

definition page_id_to_addr :: "usize \<Rightarrow> usize" where
  "page_id_to_addr page_id = page_id * PAGE_SIZE"

definition page_offset :: "usize \<Rightarrow> usize" where
  "page_offset addr = addr AND (PAGE_SIZE - 1)"

definition pte_idx_of_virt_addr :: "usize \<Rightarrow> usize \<times> usize \<times> usize" where
  "pte_idx_of_virt_addr vaddr =
     (drop_bit 30 vaddr AND 0x1ff, drop_bit 21 vaddr AND 0x1ff, drop_bit 12 vaddr AND 0x1ff)"

subsection \<open>Page arithmetic\<close>

lemma page_mask: "PAGE_SIZE - 1 = mask 12"
  by (simp add: PAGE_SIZE_def mask_eq_exp_minus_1)

lemma and_0x1ff: "a AND 0x1ff = take_bit 9 a" for a :: usize
proof -
  have "(0x1ff :: usize) = mask 9" by (simp add: mask_eq_exp_minus_1)
  then show ?thesis by (simp add: take_bit_eq_mask)
qed

lemma and_not_mask: "a AND NOT (mask n) = push_bit n (drop_bit n a)" for a :: "'l::len word"
  by (rule bit_eqI) (auto simp: bit_simps)

lemma unat_page_size [simp]: "unat PAGE_SIZE = 4096"
  by (simp add: PAGE_SIZE_def)

lemma page_round_less [simp]: "unat a div 4096 * 4096 < 18446744073709551616" for a :: usize
  using unat64_less [of a] div_times_less_eq_dividend [of "unat a" 4096] by linarith

lemma page_id_less [simp]: "unat a div 4096 < 18446744073709551616" for a :: usize
  using unat64_less [of a] by linarith

lemma unat_align_down: "unat (align_down a) = unat a div 4096 * 4096"
proof -
  have "align_down a = push_bit 12 (drop_bit 12 a)" by (simp add: align_down_def page_mask and_not_mask)
  then have "align_down a = a div 4096 * 4096" by (simp add: push_bit_eq_mult drop_bit_eq_div)
  then show ?thesis by (simp add: unat_word_ariths unat_div_distrib)
qed

lemma unat_page_offset: "unat (page_offset a) = unat a mod 4096"
  by (simp add: page_offset_def page_mask take_bit_eq_mask [symmetric] take_bit_eq_mod unat_mod_distrib)

lemma align_up_eq: "align_up a = align_down (a + 4095)"
  by (simp add: align_up_def align_down_def PAGE_SIZE_def add.commute)

lemma unat_align_up: "unat a + 4095 < 2 ^ 64 \<Longrightarrow> unat (align_up a) = (unat a + 4095) div 4096 * 4096"
  by (simp add: align_up_eq unat_align_down unat_add_small)

lemma unat_page_count: "unat a + 4095 < 2 ^ 64 \<Longrightarrow> unat (page_count a) = (unat a + 4095) div 4096"
  by (simp add: page_count_def unat_div_distrib unat_align_up)

lemma unat_addr_to_page_id: "unat (addr_to_page_id a) = unat a div 4096"
  by (simp add: addr_to_page_id_def unat_div_distrib)

lemma align_down_split: "a = align_down a + page_offset a"
proof -
  have "unat (align_down a) + unat (page_offset a) = unat a" by (simp add: unat_align_down unat_page_offset)
  then have "unat (align_down a + page_offset a) = unat a" by (simp add: unat_add_small)
  then show ?thesis by (simp add: word_unat_eq_iff)
qed

lemma page_id_roundtrip: "page_id_to_addr (addr_to_page_id a) = align_down a"
  by (simp add: word_unat_eq_iff page_id_to_addr_def unat_word_ariths unat_addr_to_page_id unat_align_down)

lemma align_down_idem [simp]: "align_down (align_down a) = align_down a"
  by (simp add: word_unat_eq_iff unat_align_down)

lemma align_down_le: "align_down a \<le> a"
  by (simp add: word_le_unat unat_align_down)

text \<open>An address is page aligned.\<close>

abbreviation page_aligned :: "usize \<Rightarrow> bool" where
  "page_aligned a \<equiv> page_offset a = 0"

lemma page_aligned_iff: "page_aligned a \<longleftrightarrow> unat a mod 4096 = 0"
  by (metis unat_0 word_unat_eq_iff unat_page_offset)

lemma align_down_aligned: "page_aligned (align_down a)"
  by (simp add: page_aligned_iff unat_align_down)

text \<open>The page arithmetic of \<^verbatim>\<open>addr.rs\<close>: rounding down and the offset split an address, page numbers round trip, and where
  the sum does not wrap around, rounding up gives the least multiple of the page size not below the address.\<close>

lemma page_arithmetic:
  fixes a :: usize
  shows "align_down a + page_offset a = a \<and> page_id_to_addr (addr_to_page_id a) = align_down a \<and>
   page_aligned (align_down a) \<and> align_down a \<le> a \<and> a - align_down a < PAGE_SIZE \<and>
   virt_to_phys (phys_to_virt a) = a \<and>
   (unat a + 4095 < 2 ^ 64 \<longrightarrow>
      page_aligned (align_up a) \<and> a \<le> align_up a \<and> align_up a - a < PAGE_SIZE \<and>
      page_count a * PAGE_SIZE = align_up a)"
proof -
  have "a - align_down a = page_offset a" by (metis add_diff_cancel_left' align_down_split)
  then have down: "a - align_down a < PAGE_SIZE" by (simp add: word_less_unat unat_page_offset)
  have up: "page_aligned (align_up a) \<and> a \<le> align_up a \<and> align_up a - a < PAGE_SIZE \<and>
      page_count a * PAGE_SIZE = align_up a" if w: "unat a + 4095 < 2 ^ 64"
  proof -
    have le: "a \<le> align_up a" by (simp add: word_le_unat unat_align_up [OF w])
    have "unat (page_count a * PAGE_SIZE) = unat (align_up a)"
      using unat64_less [of "align_up a"]
      by (simp add: unat_word_ariths unat_page_count [OF w] unat_align_up [OF w])
    moreover have "unat (align_up a - a) < 4096"
      using le by (simp add: unat_sub_le unat_align_up [OF w])
    ultimately show ?thesis using le by (simp add: word_unat_eq_iff word_less_unat align_up_eq align_down_aligned)
  qed
  show ?thesis
    using down up align_down_split [of a] page_id_roundtrip align_down_aligned align_down_le
    by (simp add: virt_to_phys_def phys_to_virt_def)
qed

lemma page_arithmetic_example:
  "page_count 0x2001 * PAGE_SIZE = 0x3000"
  using page_arithmetic [of "0x2001"] by (simp add: align_up_def PAGE_SIZE_def)

end
