(* ===== verification/Page_Table.thy ===== *)
theory Page_Table
  imports Addr
begin

text \<open>
  The Sv39 page table, \<^verbatim>\<open>kernel/src/memory/page_table.rs\<close>. Page table pages live in the byte memory of the record
  \<open>machine\<close>; a reference to a page table entry is its address, read and written as eight little-endian bytes.

  \<open>PTEFlags\<close> is the 8-bit word of its \<^verbatim>\<open>bitflags\<close>; all eight bits are declared, so \<^verbatim>\<open>from_bits\<close> never fails.

  The invariant \<open>pt_wf\<close> says that the pages reached from the root form a tree: no page is reached twice, and every page
  is a page frame that is not free. Under it, mapping and unmapping change the translation of exactly one page.
\<close>

subsection \<open>Eight-byte accesses\<close>

definition read_u64 :: "(usize \<Rightarrow> byte) \<Rightarrow> usize \<Rightarrow> u64" where
  "read_u64 m a = foldr (\<lambda>b acc. push_bit 8 acc OR ucast (m (a + of_nat b))) [0..<8] 0"

definition write_u64 :: "(usize \<Rightarrow> byte) \<Rightarrow> usize \<Rightarrow> u64 \<Rightarrow> usize \<Rightarrow> byte" where
  "write_u64 m a v = mem_write m a (map (\<lambda>b. ucast (drop_bit (8 * b) v)) [0..<8])"

subsection \<open>PTEFlags and PageTableEntry\<close>

type_synonym pte_flags = u8

definition VALID :: pte_flags where "VALID = push_bit 0 1"
definition READ :: pte_flags where "READ = push_bit 1 1"
definition WRITE :: pte_flags where "WRITE = push_bit 2 1"
definition EXECUTE :: pte_flags where "EXECUTE = push_bit 3 1"
definition USER :: pte_flags where "USER = push_bit 4 1"
definition GLOBAL :: pte_flags where "GLOBAL = push_bit 5 1"
definition ACCESS :: pte_flags where "ACCESS = push_bit 6 1"
definition DIRTY :: pte_flags where "DIRTY = push_bit 7 1"

record page_table_entry =
  bits :: usize

definition pte_new :: "usize \<Rightarrow> pte_flags \<Rightarrow> page_table_entry" where
  "pte_new paddr fl = \<lparr>bits = paddr OR ucast fl\<rparr>"

definition pte_empty :: page_table_entry where
  "pte_empty = \<lparr>bits = 0\<rparr>"

definition flags :: "page_table_entry \<Rightarrow> pte_flags" where
  "flags self = ucast (bits self)"

definition is_empty :: "page_table_entry \<Rightarrow> bool" where
  "is_empty self \<longleftrightarrow> flags self = 0"

definition addr :: "page_table_entry \<Rightarrow> usize" where
  "addr self = push_bit 12 (drop_bit 10 (bits self) AND (push_bit 44 1 - 1))"

definition is_valid :: "page_table_entry \<Rightarrow> bool" where
  "is_valid self \<longleftrightarrow> flags self AND VALID \<noteq> 0"

definition readable :: "page_table_entry \<Rightarrow> bool" where
  "readable self \<longleftrightarrow> flags self AND READ \<noteq> 0"

definition writable :: "page_table_entry \<Rightarrow> bool" where
  "writable self \<longleftrightarrow> flags self AND WRITE \<noteq> 0"

definition executable :: "page_table_entry \<Rightarrow> bool" where
  "executable self \<longleftrightarrow> flags self AND EXECUTE \<noteq> 0"

definition set_addr :: "page_table_entry \<Rightarrow> usize \<Rightarrow> page_table_entry" where
  "set_addr self paddr =
     \<lparr>bits = push_bit 10 (drop_bit 12 paddr AND (push_bit 44 1 - 1)) OR (bits self AND 0xff)\<rparr>"

definition pte_set_flags :: "page_table_entry \<Rightarrow> pte_flags \<Rightarrow> page_table_entry" where
  "pte_set_flags self fl = \<lparr>bits = (bits self AND NOT 0xff) OR ucast fl\<rparr>"

definition set_all :: "page_table_entry \<Rightarrow> usize \<Rightarrow> pte_flags \<Rightarrow> page_table_entry" where
  "set_all self paddr fl = \<lparr>bits = push_bit 10 (drop_bit 12 paddr) OR ucast fl\<rparr>"

definition pte_clear :: "page_table_entry \<Rightarrow> page_table_entry" where
  "pte_clear self = \<lparr>bits = 0\<rparr>"

text \<open>Dereferencing a \<^verbatim>\<open>*mut PageTableEntry\<close>.\<close>

definition load_pte :: "machine \<Rightarrow> usize \<Rightarrow> page_table_entry" where
  "load_pte m p = \<lparr>bits = read_u64 (mem m) p\<rparr>"

definition store_pte :: "usize \<Rightarrow> page_table_entry \<Rightarrow> machine \<Rightarrow> machine" where
  "store_pte p pte m = m\<lparr>mem := write_u64 (mem m) p (bits pte)\<rparr>"

definition alloc_and_set :: "bit_field16 \<Rightarrow> usize \<Rightarrow> machine \<Rightarrow> (frame option \<times> machine) option" where
  "alloc_and_set bf p m = do {
     (r, m) \<leftarrow> frame_new bf kernel_config m;
     (case r of
        None \<Rightarrow> Some (None, m)
      | Some frame \<Rightarrow>
          let m = frame_zero kernel_config frame m;
              m = store_pte p (set_all (load_pte m p) (start_paddr frame) VALID) m
          in Some (Some frame, m))
   }"

text \<open>The \<^verbatim>\<open>unwrap\<close> of \<^verbatim>\<open>as_mut\<close> would panic for a null pointer. That is the entry at physical address \<open>2\<^sup>3\<^sup>2\<close>, which lies behind the physical memory of the
  kernel, so no page table is there and the case is left out.\<close>

definition get_pte_at :: "usize \<Rightarrow> usize \<Rightarrow> usize" where
  "get_pte_at paddr idx = phys_to_virt paddr + 8 * idx"

subsection \<open>PageTable\<close>

record page_table =
  root_paddr :: usize
  frames :: "frame list"

definition page_table_new :: "bit_field16 \<Rightarrow> machine \<Rightarrow> (page_table os_result \<times> machine) option" where
  "page_table_new bf m = do {
     (r, m) \<leftarrow> frame_new bf kernel_config m;
     (case r of
        Some frame \<Rightarrow>
          Some (Ok \<lparr>root_paddr = start_paddr frame, frames = [frame]\<rparr>, frame_zero kernel_config frame m)
      | None \<Rightarrow> Some (Err PageTable_FrameAllocFailed, m))
   }"

definition from_root :: "usize \<Rightarrow> page_table" where
  "from_root paddr = \<lparr>root_paddr = paddr, frames = []\<rparr>"

definition get_root_paddr :: "page_table \<Rightarrow> usize" where
  "get_root_paddr self = root_paddr self"

definition get_addr_create ::
  "bit_field16 \<Rightarrow> page_table \<Rightarrow> usize \<Rightarrow> machine \<Rightarrow> (usize option \<times> page_table \<times> machine) option" where
  "get_addr_create bf self p m =
     (if \<not> is_valid (load_pte m p) then do {
        (r, m) \<leftarrow> alloc_and_set bf p m;
        (case r of
           Some frame \<Rightarrow> Some (Some (addr (load_pte m p)), self\<lparr>frames := frames self @ [frame]\<rparr>, m)
         | None \<Rightarrow> Some (None, self, m))
      }
      else Some (Some (addr (load_pte m p)), self, m))"

definition find_pte_create ::
  "bit_field16 \<Rightarrow> page_table \<Rightarrow> usize \<Rightarrow> machine \<Rightarrow> (usize option \<times> page_table \<times> machine) option" where
  "find_pte_create bf self vaddr m =
     (let (line0, line1, line2) = pte_idx_of_virt_addr vaddr
      in do {
        (r, self, m) \<leftarrow> get_addr_create bf self (get_pte_at (get_root_paddr self) line0) m;
        (case r of
           None \<Rightarrow> Some (None, self, m)
         | Some paddr \<Rightarrow> do {
             (r, self, m) \<leftarrow> get_addr_create bf self (get_pte_at paddr line1) m;
             (case r of
                None \<Rightarrow> Some (None, self, m)
              | Some paddr \<Rightarrow> Some (Some (get_pte_at paddr line2), self, m))
           })
      })"

definition find_pte :: "page_table \<Rightarrow> usize \<Rightarrow> machine \<Rightarrow> usize option" where
  "find_pte self vaddr m =
     (let (line0, line1, line2) = pte_idx_of_virt_addr vaddr;
          pte = load_pte m (get_pte_at (get_root_paddr self) line0)
      in if \<not> is_valid pte then None
         else let paddr = addr pte; pte = load_pte m (get_pte_at paddr line1)
           in if \<not> is_valid pte then None
              else let paddr = addr pte in Some (get_pte_at paddr line2))"

fun map_kernel_lines :: "page_table \<Rightarrow> page_table \<Rightarrow> usize list \<Rightarrow> machine \<Rightarrow> machine" where
  "map_kernel_lines self kernel_pt [] m = m"
| "map_kernel_lines self kernel_pt (line # lines) m =
     (let from_pte = load_pte m (get_pte_at (get_root_paddr kernel_pt) line)
      in map_kernel_lines self kernel_pt lines (store_pte (get_pte_at (get_root_paddr self) line) from_pte m))"

definition map_kernel_regions :: "page_table \<Rightarrow> page_table \<Rightarrow> machine \<Rightarrow> machine" where
  "map_kernel_regions self kernel_pt m = map_kernel_lines self kernel_pt [510, 511] m"

definition pt_map ::
  "bit_field16 \<Rightarrow> page_table \<Rightarrow> usize \<Rightarrow> usize \<Rightarrow> pte_flags \<Rightarrow> machine \<Rightarrow>
     (unit os_result \<times> page_table \<times> machine) option" where
  "pt_map bf self vaddr paddr fl m = do {
     (r, self, m) \<leftarrow> find_pte_create bf self vaddr m;
     (case r of
        Some pte \<Rightarrow>
          if is_valid (load_pte m pte) then Some (Err PageTable_PageAlreadyMapped, self, m)
          else if fl \<noteq> 0
          then Some (Ok (), self, store_pte pte (set_all (load_pte m pte) paddr (fl OR VALID OR ACCESS OR DIRTY)) m)
          else Some (Ok (), self, m)
      | None \<Rightarrow> Some (Err PageTable_FrameAllocFailed, self, m))
   }"

definition pt_set_flags ::
  "bit_field16 \<Rightarrow> page_table \<Rightarrow> usize \<Rightarrow> pte_flags \<Rightarrow> machine \<Rightarrow> (unit os_result \<times> page_table \<times> machine) option" where
  "pt_set_flags bf self vaddr fl m = do {
     (r, self, m) \<leftarrow> find_pte_create bf self vaddr m;
     (case r of
        Some pte \<Rightarrow>
          if is_valid (load_pte m pte)
          then Some (Ok (), self, store_pte pte (pte_set_flags (load_pte m pte) (fl OR VALID OR ACCESS OR DIRTY)) m)
          else Some (Err PageTable_PageNotMapped, self, m)
      | None \<Rightarrow> Some (Err PageTable_FrameAllocFailed, self, m))
   }"

definition pt_unmap :: "page_table \<Rightarrow> usize \<Rightarrow> machine \<Rightarrow> unit os_result \<times> machine" where
  "pt_unmap self vaddr m =
     (case find_pte self vaddr m of
        Some pte \<Rightarrow>
          if \<not> is_valid (load_pte m pte) then (Err PageTable_PageNotMapped, m)
          else (Ok (), store_pte pte (pte_clear (load_pte m pte)) m)
      | None \<Rightarrow> (Err PageTable_VirtNotFound, m))"

definition token :: "page_table \<Rightarrow> usize" where
  "token self = push_bit 60 8 OR root_paddr self"

definition get_entry :: "page_table \<Rightarrow> usize \<Rightarrow> machine \<Rightarrow> usize option" where
  "get_entry self vaddr m = find_pte self vaddr m"

definition query :: "page_table \<Rightarrow> usize \<Rightarrow> machine \<Rightarrow> usize option" where
  "query self vaddr m = map_option (\<lambda>pte. addr (load_pte m pte)) (find_pte self vaddr m)"

definition force_write :: "page_table \<Rightarrow> usize \<Rightarrow> byte list \<Rightarrow> machine \<Rightarrow> (bool \<times> machine) option" where
  "force_write self start data m =
     (let end' = start + of_nat (length data);
          start_page = align_down start;
          end_page = align_up end'
      in if end_page = start_page + 1 then
           (case query self start m of
              Some phys_start \<Rightarrow> Some (True, m\<lparr>mem := mem_write (mem m) phys_start data\<rparr>)
            | None \<Rightarrow> Some (False, m))
         else None)"

text \<open>Dropping a page table drops its frames in order.\<close>

fun drop_frames :: "bit_field16 \<Rightarrow> frame list \<Rightarrow> machine \<Rightarrow> machine option" where
  "drop_frames bf [] m = Some m"
| "drop_frames bf (f # fs) m = frame_drop bf kernel_config f m \<bind> drop_frames bf fs"

subsection \<open>Entries as values\<close>

lemma mask44: "push_bit 44 1 - 1 = (mask 44 :: usize)"
  by (simp add: mask_eq_exp_minus_1)

lemma mask8: "(0xff :: usize) = mask 8"
  by (simp add: mask_eq_exp_minus_1)

lemma flags_set_all [simp]: "flags (set_all pte p fl) = fl"
  by (rule bit_eqI) (simp add: flags_def set_all_def bit_simps)

lemma bit_less_exp:
  fixes p :: usize
  assumes "p < 2 ^ k" "k < 64" "bit p n"
  shows "n < k"
proof -
  have "(2 :: nat) ^ k < 2 ^ 64" using assms(2) by (rule power_strict_increasing) simp
  then have "unat (of_nat (2 ^ k) :: usize) = 2 ^ k" by (simp only: unat_of_nat) simp
  then have "unat (2 ^ k :: usize) = 2 ^ k" by simp
  then have "unat p < 2 ^ k" using assms(1) by (simp add: word_less_unat)
  then have "take_bit k p = p" by (simp add: word_unat_eq_iff unsigned_take_bit_eq take_bit_nat_eq_self)
  then show ?thesis using assms(3) by (metis bit_take_bit_iff)
qed

lemma addr_eq: "addr pte = push_bit 12 (take_bit 44 (drop_bit 10 (bits pte)))"
  by (simp only: addr_def mask44 take_bit_eq_mask)

lemma align_down_eq: "align_down a = push_bit 12 (drop_bit 12 a)"
  by (simp only: align_down_def page_mask and_not_mask)

lemma addr_set_all: "p < 2 ^ 56 \<Longrightarrow> addr (set_all pte p fl) = align_down p"
proof (rule bit_eqI)
  fix n
  assume p: "p < 2 ^ 56"
  have "bit p n \<Longrightarrow> n - 12 < 44" using bit_less_exp [OF p, of n] by simp
  then show "bit (addr (set_all pte p fl)) n = bit (align_down p) n"
    by (auto simp: addr_eq align_down_eq set_all_def bit_simps dest: bit_imp_le_length)
qed

lemma flags_set_addr [simp]: "flags (set_addr pte p) = flags pte"
  by (rule bit_eqI) (auto simp: flags_def set_addr_def mask8 bit_simps)

lemma flags_pte_set_flags [simp]: "flags (pte_set_flags pte fl) = fl"
  by (rule bit_eqI) (auto simp: flags_def pte_set_flags_def mask8 bit_simps)

lemma addr_pte_set_flags [simp]: "addr (pte_set_flags pte fl) = addr pte"
  by (rule bit_eqI) (auto simp: addr_eq pte_set_flags_def mask8 bit_simps dest: bit_imp_le_length)

lemma mem_write_nth: "i < length bs \<Longrightarrow> length bs \<le> 2 ^ 64 \<Longrightarrow> mem_write m a bs (a + of_nat i) = bs ! i"
  by (simp add: mem_write_def unat_of_nat)

lemma join_byte: "push_bit 8 (drop_bit 8 x) OR ucast (ucast x :: byte) = x" for x :: u64
  by (rule bit_eqI) (auto simp: bit_simps)

lemma read_write_u64: "read_u64 (write_u64 m a v) a = v"
proof -
  have byte: "write_u64 m a v (a + of_nat b) = ucast (drop_bit (8 * b) v)" if "b < 8" for b
    using that by (simp add: write_u64_def mem_write_nth)
  have "foldr (\<lambda>b acc. push_bit 8 acc OR ucast (write_u64 m a v (a + of_nat b))) [i..<8] 0 = drop_bit (8 * i) v"
    if "i \<le> 8" for i
    using that
  proof (induction i rule: inc_induct)
    case base
    show ?case by (simp add: bit_eq_iff bit_simps)
  next
    case (step i)
    then have "drop_bit (8 * Suc i) v = drop_bit 8 (drop_bit (8 * i) v)" by simp
    moreover have "foldr (\<lambda>b acc. push_bit 8 acc OR ucast (write_u64 m a v (a + of_nat b))) [i..<8] 0 =
        push_bit 8 (drop_bit (8 * Suc i) v) OR ucast (ucast (drop_bit (8 * i) v) :: byte)"
      using step byte [of i] by (simp add: upt_conv_Cons)
    ultimately show ?case by (simp only: join_byte)
  qed
  from this [of 0] show ?thesis by (simp add: read_u64_def)
qed

lemma read_u64_cong: "(\<And>b. b < 8 \<Longrightarrow> m (a + of_nat b) = m' (a + of_nat b)) \<Longrightarrow> read_u64 m a = read_u64 m' a"
  unfolding read_u64_def by (intro foldr_cong) auto

lemma read_u64_zero: "(\<And>b. b < 8 \<Longrightarrow> m (a + of_nat b) = 0) \<Longrightarrow> read_u64 m a = 0"
  using read_u64_cong [of m a "\<lambda>_. 0"] by (simp add: read_u64_def upt_rec)

subsection \<open>Memory at page frames\<close>

declare kernel_config_simps(3,4) [simp del]

text \<open>The kernel address of byte \<open>x\<close> of the managed physical memory.\<close>

definition lin :: "nat \<Rightarrow> usize" where
  "lin x = PHYS_MEMORY_OFFSET + PHYS_VIRT_OFFSET + of_nat x"

lemma lin_add: "lin x + of_nat b = lin (x + b)"
  by (simp add: lin_def)

lemma unat_lin_diff:
  assumes "a < 2 ^ 40" "x < 2 ^ 40"
  shows "unat (lin x - lin a) = (if a \<le> x then x - a else 2 ^ 64 - (a - x))"
proof (cases "a \<le> x")
  case True
  then have "lin x - lin a = of_nat (x - a)" by (simp add: lin_def)
  moreover have "unat (of_nat (x - a) :: usize) = x - a" using assms by (simp add: unat_of_nat del: of_nat_diff)
  ultimately show ?thesis using True by simp
next
  case False
  then have "a - x \<le> 2 ^ 64" using assms(1) by simp
  then have "(of_nat (2 ^ 64 - (a - x)) :: usize) = of_nat (2 ^ 64) - of_nat (a - x)" by (rule of_nat_diff)
  then have "lin x - lin a = of_nat (2 ^ 64 - (a - x))" using False by (simp add: lin_def)
  moreover have "unat (of_nat (2 ^ 64 - (a - x)) :: usize) = 2 ^ 64 - (a - x)"
    using False by (simp add: unat_of_nat del: of_nat_diff)
  ultimately show ?thesis using False by simp
qed

lemma mem_write_lin:
  assumes "a < 2 ^ 40" "x < 2 ^ 40" "length bs < 2 ^ 40"
  shows "mem_write m (lin a) bs (lin x) = (if a \<le> x \<and> x < a + length bs then bs ! (x - a) else m (lin x))"
  using assms unat_lin_diff [OF assms(1,2)] by (auto simp: mem_write_def)

text \<open>Slot \<open>i\<close> of page frame \<open>k\<close>, and the entry it holds.\<close>

definition slot :: "nat \<Rightarrow> nat \<Rightarrow> usize" where
  "slot k i = lin (k * 4096 + 8 * i)"

abbreviation entry :: "machine \<Rightarrow> nat \<Rightarrow> nat \<Rightarrow> page_table_entry" where
  "entry m k i \<equiv> load_pte m (slot k i)"

lemma get_pte_at_slot: "get_pte_at (page_addr k) (of_nat i) = slot k i"
  by (simp add: kernel_config_simps(4) get_pte_at_def slot_def phys_to_virt_def lin_def PAGE_SIZE_def)

lemma page_overlap:
  fixes k k' o' :: nat
  assumes "o' < 4096"
  shows "k * 4096 \<le> k' * 4096 + o' \<and> k' * 4096 + o' < k * 4096 + 4096 \<longleftrightarrow> k' = k"
proof -
  have "k' < k \<Longrightarrow> (k' + 1) * 4096 \<le> k * 4096" "k < k' \<Longrightarrow> (k + 1) * 4096 \<le> k' * 4096" by simp_all
  then show ?thesis using assms by (cases k k' rule: linorder_cases) auto
qed

lemma slot_overlap:
  fixes k i b k' i' :: nat
  assumes "i < 512" "i' < 512" "b < 8"
    "k * 4096 + 8 * i \<le> k' * 4096 + 8 * i' + b" "k' * 4096 + 8 * i' + b < k * 4096 + 8 * i + 8"
  shows "k' = k \<and> i' = i"
proof -
  have "k' = k" using page_overlap [of "8 * i' + b" k k'] assms by linarith
  then show ?thesis using assms by linarith
qed

lemma slot_byte_less: "k < 16777216 \<Longrightarrow> i < 512 \<Longrightarrow> b < 8 \<Longrightarrow> k * 4096 + 8 * i + b < 2 ^ 40" for k i b :: nat
  by simp

lemma entry_store:
  assumes "k < 16777216" "i < 512" "k' < 16777216" "i' < 512"
  shows "entry (store_pte (slot k i) e m) k' i' = (if k' = k \<and> i' = i then e else entry m k' i')"
proof (cases "k' = k \<and> i' = i")
  case True
  then show ?thesis by (simp add: load_pte_def store_pte_def read_write_u64)
next
  case False
  have "read_u64 (write_u64 (mem m) (slot k i) (bits e)) (slot k' i') = read_u64 (mem m) (slot k' i')"
  proof (rule read_u64_cong)
    fix b :: nat assume b: "b < 8"
    have "\<not> (k * 4096 + 8 * i \<le> k' * 4096 + 8 * i' + b \<and> k' * 4096 + 8 * i' + b < k * 4096 + 8 * i + 8)"
      using slot_overlap [OF assms(2,4) b] False by blast
    moreover have "k * 4096 + 8 * i < 2 ^ 40" using slot_byte_less [OF assms(1,2), of 0] by simp
    ultimately show "write_u64 (mem m) (slot k i) (bits e) (slot k' i' + of_nat b) = mem m (slot k' i' + of_nat b)"
      unfolding write_u64_def slot_def lin_add
      by (subst mem_write_lin) (use slot_byte_less [OF assms(3,4) b] in auto)
  qed
  then show ?thesis using False by (auto simp: load_pte_def store_pte_def)
qed

abbreviation frame_of :: "nat \<Rightarrow> frame" where
  "frame_of k \<equiv> \<lparr>start_paddr = page_addr k, frame_count = 1\<rparr>"

lemma frame_zero_mem:
  assumes "k < 16777216" "x < 2 ^ 40"
  shows "mem (frame_zero kernel_config (frame_of k) m) (lin x) =
    (if k * 4096 \<le> x \<and> x < k * 4096 + 4096 then 0 else mem m (lin x))"
proof -
  have ptr: "frame_as_ptr kernel_config (frame_of k) = lin (k * 4096)"
    by (simp add: frame_as_ptr_def lin_def PAGE_SIZE_def kernel_config_simps(4))
  have sz: "unat (frame_size kernel_config (frame_of k)) = 4096" by (simp add: frame_size_def)
  have "k * 4096 < 2 ^ 40" using assms(1) by simp
  from unat_lin_diff [OF this assms(2)] assms show ?thesis
    unfolding frame_zero_def frame_fill_def ptr word_less_unat sz by auto
qed

lemma entry_frame_zero:
  assumes "k < 16777216" "k' < 16777216" "i < 512"
  shows "entry (frame_zero kernel_config (frame_of k) m) k' i = (if k' = k then pte_empty else entry m k' i)"
proof -
  let ?m = "frame_zero kernel_config (frame_of k) m"
  have byte: "mem ?m (slot k' i + of_nat b) = (if k' = k then 0 else mem m (slot k' i + of_nat b))" if b: "b < 8" for b
  proof -
    have "8 * i + b < 4096" using assms(3) b by simp
    then have "k * 4096 \<le> k' * 4096 + 8 * i + b \<and> k' * 4096 + 8 * i + b < k * 4096 + 4096 \<longleftrightarrow> k' = k"
      using page_overlap [of "8 * i + b" k k'] by (simp add: add.assoc)
    then show ?thesis unfolding slot_def lin_add frame_zero_mem [OF assms(1) slot_byte_less [OF assms(2,3) b]] by simp
  qed
  show ?thesis
  proof (cases "k' = k")
    case True
    then have "read_u64 (mem ?m) (slot k' i) = 0" using byte by (intro read_u64_zero) simp
    then show ?thesis using True by (simp add: load_pte_def pte_empty_def)
  next
    case False
    then have "read_u64 (mem ?m) (slot k' i) = read_u64 (mem m) (slot k' i)" using byte by (intro read_u64_cong) simp
    then show ?thesis using False by (simp add: load_pte_def)
  qed
qed

text \<open>The frames of \<open>K\<close> keep their contents.\<close>

definition keeps :: "nat set \<Rightarrow> machine \<Rightarrow> machine \<Rightarrow> bool" where
  "keeps K m m' \<longleftrightarrow> (\<forall>x < 2 ^ 40. x div 4096 \<in> K \<longrightarrow> mem m' (lin x) = mem m (lin x))"

lemma keeps_refl [simp]: "keeps K m m"
  by (simp add: keeps_def)

lemma keeps_trans: "keeps K m m' \<Longrightarrow> keeps K m' m'' \<Longrightarrow> keeps K m m''"
  by (simp add: keeps_def)

lemma keeps_mono: "keeps K m m' \<Longrightarrow> K' \<subseteq> K \<Longrightarrow> keeps K' m m'"
  by (auto simp: keeps_def)

lemma keeps_mem_eq: "mem m' = mem m \<Longrightarrow> keeps K m m'"
  by (simp add: keeps_def)

lemma keeps_store:
  assumes "k < 16777216" "i < 512" shows "keeps (- {k}) m (store_pte (slot k i) e m)"
  unfolding keeps_def
proof (intro allI impI)
  fix x :: nat assume x: "x < 2 ^ 40" "x div 4096 \<in> - {k}"
  have "\<not> (k * 4096 + 8 * i \<le> x \<and> x < k * 4096 + 8 * i + 8)"
  proof
    assume "k * 4096 + 8 * i \<le> x \<and> x < k * 4096 + 8 * i + 8"
    then have "k * 4096 \<le> x" "x < Suc k * 4096" using assms(2) by simp_all
    then have "x div 4096 = k" by (simp add: div_nat_eqI)
    then show False using x(2) by simp
  qed
  moreover have "k * 4096 + 8 * i < 2 ^ 40" using slot_byte_less [OF assms, of 0] by simp
  ultimately show "mem (store_pte (slot k i) e m) (lin x) = mem m (lin x)"
    unfolding store_pte_def write_u64_def slot_def by (simp, subst mem_write_lin) (use x(1) in auto)
qed

lemma keeps_zero:
  assumes "k < 16777216" shows "keeps (- {k}) m (frame_zero kernel_config (frame_of k) m)"
  unfolding keeps_def
proof (intro allI impI)
  fix x :: nat assume x: "x < 2 ^ 40" "x div 4096 \<in> - {k}"
  have "\<not> (k * 4096 \<le> x \<and> x < k * 4096 + 4096)" using x(2) div_nat_eqI [of 4096 k x] by auto
  then show "mem (frame_zero kernel_config (frame_of k) m) (lin x) = mem m (lin x)"
    unfolding frame_zero_mem [OF assms x(1)] by auto
qed

subsection \<open>The tree of page table pages\<close>

text \<open>The pages of a table: the root \<open>r\<close>, the second-level pages \<open>l1\<close> and the third-level pages \<open>l2\<close>.\<close>

datatype pt_node = N0 | N1 nat | N2 nat nat

type_synonym pt_shape = "nat \<times> (nat \<Rightarrow> nat option) \<times> (nat \<Rightarrow> nat \<Rightarrow> nat option)"

fun page_of :: "pt_shape \<Rightarrow> pt_node \<Rightarrow> nat option" where
  "page_of (r, l1, l2) N0 = Some r"
| "page_of (r, l1, l2) (N1 i) = l1 i"
| "page_of (r, l1, l2) (N2 i j) = l2 i j"

definition child_ok :: "machine \<Rightarrow> nat \<Rightarrow> nat \<Rightarrow> nat option \<Rightarrow> bool" where
  "child_ok m k i c \<longleftrightarrow>
     (case c of None \<Rightarrow> \<not> is_valid (entry m k i)
      | Some k' \<Rightarrow> is_valid (entry m k i) \<and> addr (entry m k i) = page_addr k')"

fun links_ok :: "machine \<Rightarrow> pt_shape \<Rightarrow> bool" where
  "links_ok m (r, l1, l2) \<longleftrightarrow>
     (\<forall>i < 512. child_ok m r i (l1 i) \<and>
        (case l1 i of None \<Rightarrow> \<forall>j. l2 i j = None | Some k \<Rightarrow> \<forall>j < 512. child_ok m k j (l2 i j)))"

definition pages_ok :: "bit_field16 \<Rightarrow> machine \<Rightarrow> nat set \<Rightarrow> pt_shape \<Rightarrow> bool" where
  "pages_ok bf m K sh \<longleftrightarrow>
     (\<forall>n k. page_of sh n = Some k \<longrightarrow> k < 16777216 \<and> k \<notin> free_frames bf m \<and> k \<notin> K) \<and>
     (\<forall>n n' k. page_of sh n = Some k \<and> page_of sh n' = Some k \<longrightarrow> n = n')"

definition pt_tree :: "bit_field16 \<Rightarrow> machine \<Rightarrow> nat set \<Rightarrow> pt_shape \<Rightarrow> bool" where
  "pt_tree bf m K sh \<longleftrightarrow> frames_inv bf m \<and> K \<inter> free_frames bf m = {} \<and> links_ok m sh \<and> pages_ok bf m K sh"

text \<open>Every frame of the table's vector is one allocated page frame, held once.\<close>

definition frames_owned :: "bit_field16 \<Rightarrow> machine \<Rightarrow> nat set \<Rightarrow> page_table \<Rightarrow> bool" where
  "frames_owned bf m K pt \<longleftrightarrow> (\<exists>ks. frames pt = map frame_of ks \<and> distinct ks \<and>
     (\<forall>k \<in> set ks. k < 16777216 \<and> k \<notin> free_frames bf m \<and> k \<notin> K))"

definition pt_wf :: "bit_field16 \<Rightarrow> machine \<Rightarrow> nat set \<Rightarrow> page_table \<Rightarrow> bool" where
  "pt_wf bf m K pt \<longleftrightarrow> frames_owned bf m K pt \<and>
     (\<exists>r l1 l2. root_paddr pt = page_addr r \<and> pt_tree bf m K (r, l1, l2))"

text \<open>The translation of an address: the physical page and the flags of its entry.\<close>

definition pt_lookup :: "page_table \<Rightarrow> usize \<Rightarrow> machine \<Rightarrow> (usize \<times> pte_flags) option" where
  "pt_lookup pt va m =
     (case find_pte pt va m of
        None \<Rightarrow> None
      | Some p \<Rightarrow> let e = load_pte m p in if is_valid e then Some (addr e, flags e) else None)"

fun shape_lookup :: "machine \<Rightarrow> pt_shape \<Rightarrow> nat \<times> nat \<times> nat \<Rightarrow> usize option" where
  "shape_lookup m (r, l1, l2) (i, j, l) =
     (case l1 i of None \<Rightarrow> None | Some k1 \<Rightarrow> (case l2 i j of None \<Rightarrow> None | Some k2 \<Rightarrow> Some (slot k2 l)))"

definition idx3 :: "usize \<Rightarrow> nat \<times> nat \<times> nat" where
  "idx3 va = (unat (take_bit 9 (drop_bit 30 va)), unat (take_bit 9 (drop_bit 21 va)), unat (take_bit 9 (drop_bit 12 va)))"

lemma unat_take_bit9: "unat (take_bit 9 a) < 512" for a :: usize
  by (simp add: take_bit_eq_mod unat_mod_distrib)

lemma idx3_less: "idx3 va = (i, j, l) \<Longrightarrow> i < 512 \<and> j < 512 \<and> l < 512"
  using unat_take_bit9 by (auto simp: idx3_def)

lemma pte_idx_idx3:
  "idx3 va = (i, j, l) \<Longrightarrow> pte_idx_of_virt_addr va = (of_nat i, of_nat j, of_nat l)"
  by (auto simp: idx3_def pte_idx_of_virt_addr_def and_0x1ff)

text \<open>Two addresses lie on the same page exactly when their indices agree (Sv39 ignores the bits above 38).\<close>

abbreviation same_page :: "usize \<Rightarrow> usize \<Rightarrow> bool" where
  "same_page va vb \<equiv> pte_idx_of_virt_addr va = pte_idx_of_virt_addr vb"

lemma same_page_idx3: "same_page va vb \<longleftrightarrow> idx3 va = idx3 vb"
  by (simp add: idx3_def pte_idx_of_virt_addr_def and_0x1ff word_unat_eq_iff)

lemma find_pte_shape:
  assumes "links_ok m (r, l1, l2)" "root_paddr pt = page_addr r"
  shows "find_pte pt va m = shape_lookup m (r, l1, l2) (idx3 va)"
proof -
  obtain i j l where ix: "idx3 va = (i, j, l)" by (cases "idx3 va")
  note less = idx3_less [OF ix]
  have lk: "child_ok m r i (l1 i)" "l1 i = Some k \<Longrightarrow> child_ok m k j (l2 i j)" for k
    using assms(1) less by auto
  show ?thesis unfolding ix find_pte_def pte_idx_idx3 [OF ix] get_root_paddr_def assms(2)
    using lk
    by (auto simp: Let_def get_pte_at_slot child_ok_def split: option.splits)
qed

subsection \<open>Creating missing pages\<close>

lemma is_valid_set_all_VALID [simp]: "is_valid (set_all e p VALID)"
  by (simp add: is_valid_def VALID_def)

lemma not_valid_empty [simp]: "\<not> is_valid pte_empty"
  by (simp add: is_valid_def flags_def pte_empty_def)

lemma page_addr_small: "k < 16777216 \<Longrightarrow> unat (page_addr k) = k * 4096 + 0x80000000"
proof -
  assume k: "k < 16777216"
  then have "unat (of_nat k * PAGE_SIZE) = k * 4096" by (intro unat_frame_offset) simp
  then show ?thesis using k by (simp add: unat_add_small PHYS_MEMORY_OFFSET_def kernel_config_simps(4))
qed

lemma addr_set_all_page: "k < 16777216 \<Longrightarrow> addr (set_all e (page_addr k) fl) = page_addr k"
proof -
  assume k: "k < 16777216"
  have "page_addr k < 2 ^ 56" using page_addr_small [OF k] k by (simp add: word_less_unat)
  then have "addr (set_all e (page_addr k) fl) = align_down (page_addr k)" by (rule addr_set_all)
  also have "\<dots> = page_addr k"
    using page_addr_small [OF k] by (simp add: word_unat_eq_iff unat_align_down)
  finally show ?thesis .
qed

lemma get_addr_create_hit:
  "is_valid (load_pte m p) \<Longrightarrow> get_addr_create bf pt p m = Some (Some (addr (load_pte m p)), pt, m)"
  by (simp add: get_addr_create_def)

lemma get_addr_create_full:
  "\<not> is_valid (load_pte m p) \<Longrightarrow> frames_inv bf m \<Longrightarrow> free_frames bf m = {} \<Longrightarrow>
   get_addr_create bf pt p m = Some (None, pt, m)"
  by (simp add: get_addr_create_def alloc_and_set_def frame_new_none)

lemma get_addr_create_new:
  assumes "\<not> is_valid (entry m k i)" "frames_inv bf m" "least_ge (free_frames bf m) 0 = Some q"
    "k < 16777216" "i < 512" "k \<noteq> q"
  obtains m' where
    "get_addr_create bf pt (slot k i) m = Some (Some (page_addr q), pt\<lparr>frames := frames pt @ [frame_of q]\<rparr>, m')"
    "frames_inv bf m'" "free_frames bf m' = free_frames bf m - {q}"
    "is_valid (entry m' k i)" "addr (entry m' k i) = page_addr q" "keeps (- {k, q}) m m'"
    "\<And>k' i'. k' < 16777216 \<Longrightarrow> i' < 512 \<Longrightarrow> (k', i') \<noteq> (k, i) \<Longrightarrow>
       entry m' k' i' = (if k' = q then pte_empty else entry m k' i')"
proof -
  have q: "q < 16777216" using free_frames_less [OF assms(2) least_ge_SomeD(1) [OF assms(3)]] .
  obtain m1 where m1: "frame_new bf kernel_config m = Some (Some (frame_of q), m1)"
    "frames_inv bf m1" "free_frames bf m1 = free_frames bf m - {q}" "mem m1 = mem m"
    by (rule frame_new_some [OF assms(2,3), of kernel_config])
  define m2 where "m2 = frame_zero kernel_config (frame_of q) m1"
  define m' where "m' = store_pte (slot k i) (set_all (entry m2 k i) (page_addr q) VALID) m2"
  have e1: "entry m1 k' i' = entry m k' i'" for k' i' by (simp add: load_pte_def m1(4))
  have at: "entry m' k i = set_all (entry m2 k i) (page_addr q) VALID"
    unfolding m'_def using entry_store [OF assms(4,5,4,5)] by simp
  have alloc: "alloc_and_set bf (slot k i) m = Some (Some (frame_of q), m')"
    by (simp add: alloc_and_set_def m1(1) Let_def m2_def m'_def)
  have alloc_fields: "frame_allocator m' = frame_allocator m1"
    by (simp add: m'_def m2_def store_pte_def frame_zero_def frame_fill_def)
  have "get_addr_create bf pt (slot k i) m = Some (Some (page_addr q), pt\<lparr>frames := frames pt @ [frame_of q]\<rparr>, m')"
    using assms(1) alloc at addr_set_all_page [OF q] by (simp add: get_addr_create_def)
  moreover have "is_valid (entry m' k i)" "addr (entry m' k i) = page_addr q"
    unfolding at using addr_set_all_page [OF q] by simp_all
  moreover have "entry m' k' i' = (if k' = q then pte_empty else entry m k' i')"
    if "k' < 16777216" "i' < 512" "(k', i') \<noteq> (k, i)" for k' i'
  proof -
    have "entry m' k' i' = entry m2 k' i'" unfolding m'_def using entry_store [OF assms(4,5) that(1,2)] that(3) by auto
    then show ?thesis using entry_frame_zero [OF q that(1,2)] by (simp add: m2_def e1)
  qed
  moreover have "keeps (- {k, q}) m m'"
  proof -
    have "keeps (- {k, q}) m m1" by (rule keeps_mem_eq [OF m1(4)])
    moreover have "keeps (- {k, q}) m1 m2" unfolding m2_def by (rule keeps_mono [OF keeps_zero [OF q]]) simp
    moreover have "keeps (- {k, q}) m2 m'" unfolding m'_def by (rule keeps_mono [OF keeps_store [OF assms(4,5)]]) simp
    ultimately show ?thesis by (blast intro: keeps_trans)
  qed
  ultimately show ?thesis using that [of m'] m1(2,3) alloc_fields by simp
qed

lemma pages_okD:
  "pages_ok bf m K sh \<Longrightarrow> page_of sh n = Some k \<Longrightarrow> k < 16777216 \<and> k \<notin> free_frames bf m \<and> k \<notin> K"
  "pages_ok bf m K sh \<Longrightarrow> page_of sh n = Some k \<Longrightarrow> page_of sh n' = Some k \<Longrightarrow> n = n'"
  unfolding pages_ok_def by blast+

lemma child_ok_cong: "entry m' k i = entry m k i \<Longrightarrow> child_ok m' k i c = child_ok m k i c"
  by (simp add: child_ok_def split: option.split)

text \<open>\<open>m'\<close> results from \<open>m\<close> by linking the fresh page \<open>q\<close> into slot \<open>i\<close> of page \<open>k\<close>.\<close>

definition linked :: "bit_field16 \<Rightarrow> machine \<Rightarrow> nat \<Rightarrow> nat \<Rightarrow> nat \<Rightarrow> machine \<Rightarrow> bool" where
  "linked bf m k i q m' \<longleftrightarrow> q \<in> free_frames bf m \<and> q < 16777216 \<and> frames_inv bf m' \<and> free_frames bf m' = free_frames bf m - {q} \<and>
     is_valid (entry m' k i) \<and> addr (entry m' k i) = page_addr q \<and> keeps (- {k, q}) m m' \<and>
     (\<forall>k' i'. k' < 16777216 \<longrightarrow> i' < 512 \<longrightarrow> (k', i') \<noteq> (k, i) \<longrightarrow>
        entry m' k' i' = (if k' = q then pte_empty else entry m k' i'))"

lemma linked_entry:
  assumes "linked bf m k i q m'" "k' < 16777216" "i' < 512" "k' \<notin> free_frames bf m" "(k', i') \<noteq> (k, i)"
  shows "entry m' k' i' = entry m k' i'"
  using assms unfolding linked_def by metis

lemma linked_keeps: "linked bf m k i q m' \<Longrightarrow> K \<inter> free_frames bf m = {} \<Longrightarrow> k \<notin> K \<Longrightarrow> keeps K m m'"
  unfolding linked_def by (auto elim!: keeps_mono)

lemma linked_card: "linked bf m k i q m' \<Longrightarrow> card (free_frames bf m) \<le> Suc (card (free_frames bf m'))"
  unfolding linked_def by (metis card_Diff_singleton diff_Suc_1 le_SucI le_refl Suc_pred card_gt_0_iff card.infinite gr0I zero_le not_le less_Suc_eq_le)

lemma linked_fresh: "linked bf m k i q m' \<Longrightarrow> k \<noteq> q \<Longrightarrow> i' < 512 \<Longrightarrow> \<not> is_valid (entry m' q i')"
  unfolding linked_def by (metis Pair_inject not_valid_empty)

lemma linked_pages:
  assumes "pages_ok bf m K sh" "linked bf m k i q m'" "page_of sh n0 = None" "K \<inter> free_frames bf m = {}"
    "\<And>n. page_of sh' n = (if n = n0 then Some q else page_of sh n)"
  shows "pages_ok bf m' K sh'"
  using assms(1,2) unfolding pages_ok_def linked_def assms(5) using assms(3,4)
  by (auto split: if_splits; blast)

lemma pt_tree_link1:
  assumes t: "pt_tree bf m K (r, l1, l2)" and i: "i < 512" "l1 i = None" and l: "linked bf m r i q m'"
  shows "pt_tree bf m' K (r, l1(i \<mapsto> q), l2)"
proof -
  have pg: "pages_ok bf m K (r, l1, l2)" and lk: "links_ok m (r, l1, l2)" using t by (auto simp: pt_tree_def)
  have r: "r < 16777216" "r \<notin> free_frames bf m" "r \<noteq> q" using pages_okD(1) [OF pg, of N0] l by (auto simp: linked_def)
  have "child_ok m' r i' ((l1(i \<mapsto> q)) i') \<and>
      (case (l1(i \<mapsto> q)) i' of None \<Rightarrow> \<forall>j. l2 i' j = None | Some k \<Rightarrow> \<forall>j < 512. child_ok m' k j (l2 i' j))"
    if i': "i' < 512" for i'
  proof (cases "i' = i")
    case True
    have "l2 i j = None" for j using lk i by auto
    moreover have "child_ok m' r i (Some q)" using l by (simp add: child_ok_def linked_def)
    ultimately show ?thesis using True linked_fresh [OF l r(3)] by (simp add: child_ok_def)
  next
    case False
    have "child_ok m' r i' (l1 i')"
      using lk i' child_ok_cong [OF linked_entry [OF l r(1) i' r(2)]] False by auto
    moreover have "child_ok m' k j (l2 i' j)" if k: "l1 i' = Some k" and j: "j < 512" for k j
    proof -
      have "page_of (r, l1, l2) (N1 i') = Some k" using k by simp
      note d = pages_okD [OF pg this]
      have "k \<noteq> r" using d(2) [of N0] by auto
      then show ?thesis using lk i' j k child_ok_cong [OF linked_entry [OF l _ j]] d(1) by auto
    qed
    ultimately show ?thesis using False lk i' by (auto split: option.splits)
  qed
  moreover have "pages_ok bf m' K (r, l1(i \<mapsto> q), l2)"
  proof (rule linked_pages [OF pg l, of "N1 i"])
    fix n show "page_of (r, l1(i \<mapsto> q), l2) n = (if n = N1 i then Some q else page_of (r, l1, l2) n)"
      by (cases n) auto
  qed (use i t in \<open>simp_all add: pt_tree_def\<close>)
  moreover have "K \<inter> free_frames bf m' = {}" using t l by (auto simp: pt_tree_def linked_def)
  ultimately show ?thesis using l by (simp add: pt_tree_def linked_def)
qed

lemma pt_tree_link2:
  assumes t: "pt_tree bf m K (r, l1, l2)" and i: "i < 512" "l1 i = Some k1" "j < 512" "l2 i j = None"
    and l: "linked bf m k1 j q m'"
  shows "pt_tree bf m' K (r, l1, l2(i := (l2 i)(j \<mapsto> q)))"
proof -
  have pg: "pages_ok bf m K (r, l1, l2)" and lk: "links_ok m (r, l1, l2)" using t by (auto simp: pt_tree_def)
  have k1: "k1 < 16777216" "k1 \<notin> free_frames bf m" "k1 \<noteq> q" "k1 \<noteq> r"
    using pages_okD(1) [OF pg, of "N1 i"] pages_okD(2) [OF pg, of "N1 i" k1 N0] l i by (auto simp: linked_def)
  have r: "r < 16777216" "r \<notin> free_frames bf m" using pages_okD(1) [OF pg, of N0] by auto
  let ?l2 = "l2(i := (l2 i)(j \<mapsto> q))"
  have "child_ok m' r i' (l1 i') \<and>
      (case l1 i' of None \<Rightarrow> \<forall>j. ?l2 i' j = None | Some k \<Rightarrow> \<forall>j < 512. child_ok m' k j (?l2 i' j))"
    if i': "i' < 512" for i'
  proof -
    have "child_ok m' r i' (l1 i')"
      using lk i' child_ok_cong [OF linked_entry [OF l r(1) i' r(2)]] k1(4) by auto
    moreover have "child_ok m' k j' (?l2 i' j')" if k: "l1 i' = Some k" and j': "j' < 512" for k j'
    proof -
      have "page_of (r, l1, l2) (N1 i') = Some k" using k by simp
      note d = pages_okD [OF pg this]
      have same: "k = k1 \<Longrightarrow> i' = i" using d(2) [of "N1 i"] i by auto
      show ?thesis
      proof (cases "k = k1 \<and> j' = j")
        case True
        then show ?thesis using same l by (simp add: child_ok_def linked_def)
      next
        case False
        then have "(i', j') \<noteq> (i, j)" using i(2) k by auto
        then have "?l2 i' j' = l2 i' j'" by auto
        then show ?thesis using lk i' j' k child_ok_cong [OF linked_entry [OF l _ j']] d(1) False by auto
      qed
    qed
    ultimately show ?thesis using lk i i' by (cases "i' = i") (auto split: option.splits)
  qed
  moreover have "pages_ok bf m' K (r, l1, ?l2)"
  proof (rule linked_pages [OF pg l, of "N2 i j"])
    fix n show "page_of (r, l1, ?l2) n = (if n = N2 i j then Some q else page_of (r, l1, l2) n)"
      by (cases n) auto
  qed (use i t in \<open>simp_all add: pt_tree_def\<close>)
  moreover have "K \<inter> free_frames bf m' = {}" using t l by (auto simp: pt_tree_def linked_def)
  ultimately show ?thesis using l by (simp add: pt_tree_def linked_def)
qed

lemma get_addr_create_linked:
  assumes "\<not> is_valid (entry m k i)" "frames_inv bf m" "least_ge (free_frames bf m) 0 = Some q"
    "k < 16777216" "i < 512" "k \<notin> free_frames bf m"
  obtains m' where
    "get_addr_create bf pt (slot k i) m = Some (Some (page_addr q), pt\<lparr>frames := frames pt @ [frame_of q]\<rparr>, m')"
    "linked bf m k i q m'"
proof -
  have q: "q \<in> free_frames bf m" "q < 16777216"
    using least_ge_SomeD(1) [OF assms(3)] free_frames_less [OF assms(2)] by auto
  then have "k \<noteq> q" using assms(6) by auto
  from get_addr_create_new [OF assms(1-5) this, of pt] that q show ?thesis
    unfolding linked_def by (metis (no_types, lifting))
qed

text \<open>Linking a fresh page changes no translation.\<close>

lemma pt_lookup_shape:
  assumes "links_ok m (r, l1, l2)" "root_paddr pt = page_addr r"
  shows "pt_lookup pt va m =
    (case shape_lookup m (r, l1, l2) (idx3 va) of None \<Rightarrow> None
     | Some p \<Rightarrow> if is_valid (load_pte m p) then Some (addr (load_pte m p), flags (load_pte m p)) else None)"
  by (simp add: pt_lookup_def find_pte_shape [OF assms] Let_def split: option.split)

lemma pt_lookup_link1:
  assumes t: "pt_tree bf m K (r, l1, l2)" and i: "i < 512" "l1 i = None" and l: "linked bf m r i q m'"
    and root: "root_paddr pt = page_addr r" "root_paddr pt' = page_addr r"
  shows "pt_lookup pt' va m' = pt_lookup pt va m"
proof -
  obtain i' j' l' where ix: "idx3 va = (i', j', l')" by (cases "idx3 va")
  note less = idx3_less [OF ix]
  have lk: "links_ok m (r, l1, l2)" and pg: "pages_ok bf m K (r, l1, l2)" using t by (auto simp: pt_tree_def)
  have lk': "links_ok m' (r, l1(i \<mapsto> q), l2)" using pt_tree_link1 [OF t i l] by (simp add: pt_tree_def)
  have none: "l2 i j' = None" using lk i by auto
  have "entry m' k2 l' = entry m k2 l'" if "l2 i' j' = Some k2" for k2
    using pages_okD [OF pg, of "N2 i' j'"] that less pages_okD(2) [OF pg, of "N2 i' j'" r N0]
    by (intro linked_entry [OF l]) auto
  then show ?thesis
    unfolding pt_lookup_shape [OF lk root(1)] pt_lookup_shape [OF lk' root(2)] ix
    using i(2) none by (auto split: option.split)
qed

lemma pt_lookup_link2:
  assumes t: "pt_tree bf m K (r, l1, l2)" and i: "i < 512" "l1 i = Some k1" "j < 512" "l2 i j = None"
    and l: "linked bf m k1 j q m'" and root: "root_paddr pt = page_addr r" "root_paddr pt' = page_addr r"
  shows "pt_lookup pt' va m' = pt_lookup pt va m"
proof -
  obtain i' j' l' where ix: "idx3 va = (i', j', l')" by (cases "idx3 va")
  note less = idx3_less [OF ix]
  have lk: "links_ok m (r, l1, l2)" and pg: "pages_ok bf m K (r, l1, l2)" using t by (auto simp: pt_tree_def)
  have lk': "links_ok m' (r, l1, l2(i := (l2 i)(j \<mapsto> q)))" using pt_tree_link2 [OF t i l] by (simp add: pt_tree_def)
  have "k1 \<noteq> q" using pages_okD(1) [OF pg, of "N1 i"] l i(2) by (auto simp: linked_def)
  then have fresh: "\<not> is_valid (entry m' q l')" using linked_fresh [OF l] less by simp
  have "entry m' k2 l' = entry m k2 l'" if "l2 i' j' = Some k2" for k2
    using pages_okD [OF pg, of "N2 i' j'"] that less pages_okD(2) [OF pg, of "N2 i' j'" k1 "N1 i"] i(2)
    by (intro linked_entry [OF l]) auto
  then show ?thesis
    unfolding pt_lookup_shape [OF lk root(1)] pt_lookup_shape [OF lk' root(2)] ix
    using i(2,4) fresh by (auto split: option.split)
qed

lemma find_pte_link1:
  assumes t: "pt_tree bf m K (r, l1, l2)" and i: "i < 512" "l1 i = None" and l: "linked bf m r i q m'"
    and root: "root_paddr pt = page_addr r" "root_paddr pt' = page_addr r" and p: "find_pte pt va m = Some p"
  shows "find_pte pt' va m' = Some p"
proof -
  have lk: "links_ok m (r, l1, l2)" using t by (simp add: pt_tree_def)
  have lk': "links_ok m' (r, l1(i \<mapsto> q), l2)" using pt_tree_link1 [OF t i l] by (simp add: pt_tree_def)
  show ?thesis using p i unfolding find_pte_shape [OF lk root(1)] find_pte_shape [OF lk' root(2)]
    by (cases "idx3 va") (auto split: option.splits)
qed

lemma find_pte_link2:
  assumes t: "pt_tree bf m K (r, l1, l2)" and i: "i < 512" "l1 i = Some k1" "j < 512" "l2 i j = None"
    and l: "linked bf m k1 j q m'" and root: "root_paddr pt = page_addr r" "root_paddr pt' = page_addr r"
    and p: "find_pte pt va m = Some p"
  shows "find_pte pt' va m' = Some p"
proof -
  have lk: "links_ok m (r, l1, l2)" using t by (simp add: pt_tree_def)
  have lk': "links_ok m' (r, l1, l2(i := (l2 i)(j \<mapsto> q)))" using pt_tree_link2 [OF t i l] by (simp add: pt_tree_def)
  show ?thesis using p i unfolding find_pte_shape [OF lk root(1)] find_pte_shape [OF lk' root(2)]
    by (cases "idx3 va") (auto split: option.splits)
qed

lemma frames_owned_link:
  assumes "frames_owned bf m K pt" "linked bf m k i q m'" "K \<inter> free_frames bf m = {}"
  shows "frames_owned bf m' K (pt\<lparr>frames := frames pt @ [frame_of q]\<rparr>)"
proof -
  obtain ks where ks: "frames pt = map frame_of ks" "distinct ks"
    "\<forall>k \<in> set ks. k < 16777216 \<and> k \<notin> free_frames bf m \<and> k \<notin> K" using assms(1) by (auto simp: frames_owned_def)
  then have "frames pt @ [frame_of q] = map frame_of (ks @ [q])" "distinct (ks @ [q])"
    "\<forall>k \<in> set (ks @ [q]). k < 16777216 \<and> k \<notin> free_frames bf m' \<and> k \<notin> K"
    using assms(2,3) by (auto simp: linked_def)
  then show ?thesis unfolding frames_owned_def by (intro exI [of _ "ks @ [q]"]) simp
qed

text \<open>One level of the walk: the entry is present, or a fresh page is linked, or memory is exhausted.\<close>

definition walk_step ::
  "bit_field16 \<Rightarrow> page_table \<Rightarrow> machine \<Rightarrow> nat set \<Rightarrow> (usize option \<times> page_table \<times> machine) option \<Rightarrow>
     (pt_shape \<Rightarrow> bool) \<Rightarrow> (nat \<Rightarrow> pt_shape \<Rightarrow> bool) \<Rightarrow> bool" where
  "walk_step bf pt m K res N P \<longleftrightarrow>
     (\<exists>r pt' m'. res = Some (r, pt', m') \<and> root_paddr pt' = root_paddr pt \<and> frames_owned bf m' K pt' \<and>
        free_frames bf m' \<subseteq> free_frames bf m \<and> card (free_frames bf m) \<le> Suc (card (free_frames bf m')) \<and>
        keeps K m m' \<and> (\<forall>v. pt_lookup pt' v m' = pt_lookup pt v m) \<and>
        (\<forall>v p. find_pte pt v m = Some p \<longrightarrow> find_pte pt' v m' = Some p) \<and>
        (case r of None \<Rightarrow> free_frames bf m' = {} \<and> (\<exists>sh. pt_tree bf m' K sh \<and> root_paddr pt = page_addr (fst sh) \<and> N sh)
         | Some p \<Rightarrow> \<exists>k sh. p = page_addr k \<and> pt_tree bf m' K sh \<and> root_paddr pt = page_addr (fst sh) \<and> P k sh))"

lemma walk_step_SomeI:
  assumes "res = Some (Some (page_addr k), pt', m')" "root_paddr pt' = root_paddr pt" "frames_owned bf m' K pt'"
    "free_frames bf m' \<subseteq> free_frames bf m" "card (free_frames bf m) \<le> Suc (card (free_frames bf m'))" "keeps K m m'" "\<And>v. pt_lookup pt' v m' = pt_lookup pt v m"
    "\<And>v p. find_pte pt v m = Some p \<Longrightarrow> find_pte pt' v m' = Some p"
    "pt_tree bf m' K sh" "root_paddr pt = page_addr (fst sh)" "P k sh"
  shows "walk_step bf pt m K res N P"
proof -
  have "\<exists>k' sh. page_addr k = page_addr k' \<and> pt_tree bf m' K sh \<and> root_paddr pt = page_addr (fst sh) \<and> P k' sh"
    using assms(9-11) by blast
  then show ?thesis unfolding walk_step_def
    by (intro exI [of _ "Some (page_addr k)"] exI [of _ pt'] exI [of _ m']) (simp add: assms(1-8))
qed

lemma walk_step_NoneI:
  assumes "res = Some (None, pt, m)" "frames_owned bf m K pt" "free_frames bf m = {}"
    "pt_tree bf m K sh" "root_paddr pt = page_addr (fst sh)" "N sh"
  shows "walk_step bf pt m K res N P"
proof -
  have "\<exists>sh. pt_tree bf m K sh \<and> root_paddr pt = page_addr (fst sh) \<and> N sh" using assms(4-6) by blast
  then show ?thesis unfolding walk_step_def
    by (intro exI [of _ None] exI [of _ pt] exI [of _ m]) (simp add: assms(1-3))
qed

lemma walk_step1:
  assumes t: "pt_tree bf m K (r, l1, l2)" and root: "root_paddr pt = page_addr r" and own: "frames_owned bf m K pt"
    and i: "i < 512"
  shows "walk_step bf pt m K (get_addr_create bf pt (slot r i) m) (\<lambda>sh. fst (snd sh) i = None) (\<lambda>k sh. fst (snd sh) i = Some k)"
proof -
  have lk: "links_ok m (r, l1, l2)" and pg: "pages_ok bf m K (r, l1, l2)" and fi: "frames_inv bf m"
    using t by (auto simp: pt_tree_def)
  have dj: "K \<inter> free_frames bf m = {}" using t by (simp add: pt_tree_def)
  have c: "child_ok m r i (l1 i)" using lk i by auto
  have r: "r < 16777216" "r \<notin> free_frames bf m" "r \<notin> K" using pages_okD(1) [OF pg, of N0] by auto
  consider k where "l1 i = Some k" | "l1 i = None" "free_frames bf m = {}"
    | q where "l1 i = None" "least_ge (free_frames bf m) 0 = Some q"
    using least_ge_NoneD [of "free_frames bf m" 0] by (metis ex_in_conv less_zeroE option.exhaust)
  then show ?thesis
  proof cases
    case (1 k)
    then show ?thesis using c t root own
      by (intro walk_step_SomeI [where k = k and sh = "(r, l1, l2)"]) (auto simp: child_ok_def get_addr_create_hit)
  next
    case 2
    then show ?thesis using c t root own fi
      by (intro walk_step_NoneI [where sh = "(r, l1, l2)"]) (auto simp: child_ok_def get_addr_create_full)
  next
    case (3 q)
    then have nv: "\<not> is_valid (entry m r i)" using c by (simp add: child_ok_def)
    obtain m' where m': "get_addr_create bf pt (slot r i) m =
        Some (Some (page_addr q), pt\<lparr>frames := frames pt @ [frame_of q]\<rparr>, m')" "linked bf m r i q m'"
      by (rule get_addr_create_linked [OF nv fi 3(2) r(1) i r(2), of pt])
    show ?thesis
      using m'(2) root
      by (intro walk_step_SomeI [OF m'(1) _ _ _ linked_card [OF m'(2)] _ _ _ pt_tree_link1 [OF t i 3(1) m'(2)]]
          pt_lookup_link1 [OF t i 3(1) m'(2) root] find_pte_link1 [OF t i 3(1) m'(2) root]
          frames_owned_link [OF own m'(2) dj] linked_keeps [OF m'(2) dj r(3)]) (auto simp: linked_def)
  qed
qed

lemma walk_step2:
  assumes t: "pt_tree bf m K (r, l1, l2)" and root: "root_paddr pt = page_addr r" and own: "frames_owned bf m K pt"
    and i: "i < 512" "l1 i = Some k1" and j: "j < 512"
  shows "walk_step bf pt m K (get_addr_create bf pt (slot k1 j) m)
    (\<lambda>sh. snd (snd sh) i j = None) (\<lambda>k sh. fst (snd sh) i = Some k1 \<and> snd (snd sh) i j = Some k)"
proof -
  have lk: "links_ok m (r, l1, l2)" and pg: "pages_ok bf m K (r, l1, l2)" and fi: "frames_inv bf m"
    using t by (auto simp: pt_tree_def)
  have dj: "K \<inter> free_frames bf m = {}" using t by (simp add: pt_tree_def)
  have c: "child_ok m k1 j (l2 i j)" using lk i j by auto
  have k1: "k1 < 16777216" "k1 \<notin> free_frames bf m" "k1 \<notin> K" using pages_okD(1) [OF pg, of "N1 i"] i(2) by auto
  consider k where "l2 i j = Some k" | "l2 i j = None" "free_frames bf m = {}"
    | q where "l2 i j = None" "least_ge (free_frames bf m) 0 = Some q"
    using least_ge_NoneD [of "free_frames bf m" 0] by (metis ex_in_conv less_zeroE option.exhaust)
  then show ?thesis
  proof cases
    case (1 k)
    then show ?thesis using c t root own i
      by (intro walk_step_SomeI [where k = k and sh = "(r, l1, l2)"]) (auto simp: child_ok_def get_addr_create_hit)
  next
    case 2
    then show ?thesis using c t root own fi
      by (intro walk_step_NoneI [where sh = "(r, l1, l2)"]) (auto simp: child_ok_def get_addr_create_full)
  next
    case (3 q)
    then have nv: "\<not> is_valid (entry m k1 j)" using c by (simp add: child_ok_def)
    obtain m' where m': "get_addr_create bf pt (slot k1 j) m =
        Some (Some (page_addr q), pt\<lparr>frames := frames pt @ [frame_of q]\<rparr>, m')" "linked bf m k1 j q m'"
      by (rule get_addr_create_linked [OF nv fi 3(2) k1(1) j k1(2), of pt])
    show ?thesis
      using m'(2) root i
      by (intro walk_step_SomeI [OF m'(1) _ _ _ linked_card [OF m'(2)] _ _ _ pt_tree_link2 [OF t i j 3(1) m'(2)]]
          pt_lookup_link2 [OF t i j 3(1) m'(2) root] find_pte_link2 [OF t i j 3(1) m'(2) root]
          frames_owned_link [OF own m'(2) dj] linked_keeps [OF m'(2) dj k1(3)]) (auto simp: linked_def)
  qed
qed

lemma walk_stepE:
  assumes "walk_step bf pt m K res N P"
  obtains (full) pt' m' r l1 l2 where "res = Some (None, pt', m')" "root_paddr pt' = page_addr r" "root_paddr pt = page_addr r"
      "frames_owned bf m' K pt'" "pt_tree bf m' K (r, l1, l2)" "N (r, l1, l2)" "free_frames bf m' = {}"
      "\<forall>v. pt_lookup pt' v m' = pt_lookup pt v m" "card (free_frames bf m) \<le> Suc (card (free_frames bf m'))" "keeps K m m'"
      "\<forall>v p. find_pte pt v m = Some p \<longrightarrow> find_pte pt' v m' = Some p"
  | (found) k pt' m' r l1 l2 where "res = Some (Some (page_addr k), pt', m')" "root_paddr pt' = page_addr r"
      "root_paddr pt = page_addr r" "frames_owned bf m' K pt'" "pt_tree bf m' K (r, l1, l2)" "P k (r, l1, l2)"
      "free_frames bf m' \<subseteq> free_frames bf m" "\<forall>v. pt_lookup pt' v m' = pt_lookup pt v m"
      "card (free_frames bf m) \<le> Suc (card (free_frames bf m'))" "keeps K m m'"
      "\<forall>v p. find_pte pt v m = Some p \<longrightarrow> find_pte pt' v m' = Some p"
  using assms unfolding walk_step_def by (force split: option.splits)

text \<open>What every operation on a table keeps: the table is well formed at its old root, every slot it had is still there, the
  frames of \<open>K\<close> are untouched, and at most two page frames were taken.\<close>

definition pt_stays :: "bit_field16 \<Rightarrow> nat set \<Rightarrow> page_table \<Rightarrow> machine \<Rightarrow> page_table \<Rightarrow> machine \<Rightarrow> bool" where
  "pt_stays bf K pt m pt' m' \<longleftrightarrow> pt_wf bf m' K pt' \<and> root_paddr pt' = root_paddr pt \<and>
     free_frames bf m' \<subseteq> free_frames bf m \<and> card (free_frames bf m) \<le> card (free_frames bf m') + 2 \<and> keeps K m m' \<and>
     (\<forall>v p. find_pte pt v m = Some p \<longrightarrow> find_pte pt' v m' = Some p)"

text \<open>The whole walk returns the slot of the entry, in a table that translates as before.\<close>

lemma find_pte_create_ok:
  assumes "pt_wf bf m K pt"
  obtains res pt' m' where "find_pte_create bf pt va m = Some (res, pt', m')" "pt_stays bf K pt m pt' m'"
    "\<forall>v. pt_lookup pt' v m' = pt_lookup pt v m" "res = None \<longrightarrow> free_frames bf m' = {}" "find_pte pt' va m' = res"
proof -
  obtain r l1 l2 where t: "pt_tree bf m K (r, l1, l2)" and root: "root_paddr pt = page_addr r" and own: "frames_owned bf m K pt"
    using assms by (auto simp: pt_wf_def)
  obtain i j l where ix: "idx3 va = (i, j, l)" by (cases "idx3 va")
  note less = idx3_less [OF ix]
  have ft: "find_pte_create bf pt va m =
      get_addr_create bf pt (slot r i) m \<bind> (\<lambda>(res, pt, m). case res of None \<Rightarrow> Some (None, pt, m)
        | Some p \<Rightarrow> get_addr_create bf pt (get_pte_at p (of_nat j)) m \<bind> (\<lambda>(res, pt, m). case res of
            None \<Rightarrow> Some (None, pt, m) | Some p \<Rightarrow> Some (Some (get_pte_at p (of_nat l)), pt, m)))"
    by (simp add: find_pte_create_def pte_idx_idx3 [OF ix] get_root_paddr_def root get_pte_at_slot)
  have wf1: "walk_step bf pt m K (get_addr_create bf pt (slot r i) m) (\<lambda>sh. fst (snd sh) i = None) (\<lambda>k sh. fst (snd sh) i = Some k)"
    by (rule walk_step1 [OF t root own]) (use less in simp)
  then show ?thesis
  proof (cases rule: walk_stepE)
    case (full pt' m' r' l1' l2')
    have "find_pte pt' va m' = None"
      using find_pte_shape [OF _ full(2)] full(5,6) ix by (auto simp: pt_tree_def)
    moreover have "pt_wf bf m' K pt'" using full(2,4,5) unfolding pt_wf_def by blast
    ultimately show ?thesis using that [of None pt' m'] ft full by (auto simp: pt_stays_def)
  next
    case one: (found k1 pt1 m1 r1 a1 b1)
    have "walk_step bf pt1 m1 K (get_addr_create bf pt1 (slot k1 j) m1)
        (\<lambda>sh. snd (snd sh) i j = None) (\<lambda>k sh. fst (snd sh) i = Some k1 \<and> snd (snd sh) i j = Some k)"
      by (rule walk_step2 [OF one(5,2,4)]) (use less one(6) in auto)
    then show ?thesis
    proof (cases rule: walk_stepE)
      case (full pt' m' r' l1' l2')
      have "find_pte pt' va m' = None"
        using find_pte_shape [OF _ full(2)] full(5,6) ix by (auto simp: pt_tree_def split: option.split)
      moreover have "pt_wf bf m' K pt'" using full(2,4,5) unfolding pt_wf_def by blast
      then have "pt_stays bf K pt m pt' m'"
        using one(2,3,9,11) full(2,3,7,9,11) keeps_trans [OF one(10) full(10)] by (simp add: pt_stays_def)
      ultimately show ?thesis using that [of None pt' m'] ft one(1,8) full(1,7,8) by (auto simp: get_pte_at_slot)
    next
      case two: (found k2 pt2 m2 r2 a2 b2)
      have "links_ok m2 (r2, a2, b2)" using two(5) by (simp add: pt_tree_def)
      then have "find_pte pt2 va m2 = Some (slot k2 l)"
        using find_pte_shape [OF _ two(2)] two(6) ix by auto
      moreover have "pt_wf bf m2 K pt2" using two(2,4,5) unfolding pt_wf_def by blast
      then have "pt_stays bf K pt m pt2 m2"
        using one(2,3,7,9,11) two(2,3,7,9,11) keeps_trans [OF one(10) two(10)] by (auto simp: pt_stays_def)
      ultimately show ?thesis
        using that [of "Some (slot k2 l)" pt2 m2] ft one(1,8) two(1,8) by (simp add: get_pte_at_slot)
    qed
  qed
qed

subsection \<open>Changing one entry\<close>

lemma store_leaf:
  assumes wf: "pt_wf bf m K pt" and p: "find_pte pt va m = Some p"
  shows "pt_stays bf K pt m pt (store_pte p e m)" "load_pte (store_pte p e m) p = e"
    "pt_lookup pt v (store_pte p e m) =
       (if same_page v va then (if is_valid e then Some (addr e, flags e) else None) else pt_lookup pt v m)"
proof -
  let ?m = "store_pte p e m"
  obtain r l1 l2 where t: "pt_tree bf m K (r, l1, l2)" and root: "root_paddr pt = page_addr r" and own: "frames_owned bf m K pt"
    using wf by (auto simp: pt_wf_def)
  have lk: "links_ok m (r, l1, l2)" and pg: "pages_ok bf m K (r, l1, l2)" and fi: "frames_inv bf m"
    using t by (auto simp: pt_tree_def)
  obtain i j l where ix: "idx3 va = (i, j, l)" by (cases "idx3 va")
  note less = idx3_less [OF ix]
  obtain k1 k2 where k: "l1 i = Some k1" "l2 i j = Some k2" "p = slot k2 l"
    using p find_pte_shape [OF lk root, of va] ix by (auto split: option.splits)
  have pk2: "page_of (r, l1, l2) (N2 i j) = Some k2" using k(2) by simp
  note d2 = pages_okD [OF pg pk2]
  have e: "entry ?m k' i' = (if k' = k2 \<and> i' = l then e else entry m k' i')" if "k' < 16777216" "i' < 512" for k' i'
    unfolding k(3) using entry_store [of k2 l k' i'] d2(1) less that by auto
  have keep: "entry ?m k' i' = entry m k' i'" if "page_of (r, l1, l2) n = Some k'" "n \<noteq> N2 i j" "i' < 512" for n k' i'
    using e [of k' i'] pages_okD(1) [OF pg that(1)] d2(2) [of n] that by auto
  have "child_ok ?m r i' c = child_ok m r i' c" if "i' < 512" for i' c
    using child_ok_cong [OF keep [of N0]] that by simp
  moreover have "child_ok ?m k' j' c = child_ok m k' j' c" if "l1 i' = Some k'" "j' < 512" for i' k' j' c
    using child_ok_cong [OF keep [of "N1 i'"]] that by simp
  ultimately have lk': "links_ok ?m (r, l1, l2)" using lk by (auto split: option.splits)
  have free: "frame_allocator ?m = frame_allocator m" by (simp add: store_pte_def)
  have dj: "K \<inter> free_frames bf m = {}" using t by (simp add: pt_tree_def)
  have wf': "pt_wf bf ?m K pt"
    using own pg fi lk' root dj unfolding pt_wf_def pt_tree_def pages_ok_def frames_owned_def free by blast
  have find: "find_pte pt v ?m = find_pte pt v m" for v
    unfolding find_pte_shape [OF lk root] find_pte_shape [OF lk' root] by (cases "idx3 v") simp
  moreover have "keeps K m ?m"
    unfolding k(3) using d2(1) less by (intro keeps_mono [OF keeps_store]) auto
  ultimately show "pt_stays bf K pt m pt ?m" using wf' free by (simp add: pt_stays_def)
  show "load_pte ?m p = e" using e [of k2 l] d2(1) less k(3) by simp
  obtain i' j' l' where iv: "idx3 v = (i', j', l')" by (cases "idx3 v")
  note lv = idx3_less [OF iv]
  show "pt_lookup pt v ?m =
       (if same_page v va then (if is_valid e then Some (addr e, flags e) else None) else pt_lookup pt v m)"
  proof (cases "(i', j', l') = (i, j, l)")
    case True
    then show ?thesis using k e [of k2 l] d2(1) less
      unfolding pt_lookup_shape [OF lk' root] same_page_idx3 iv ix by auto
  next
    case False
    have "entry ?m k' l' = entry m k' l'" if "l2 i' j' = Some k'" for k'
    proof -
      have pk: "page_of (r, l1, l2) (N2 i' j') = Some k'" using that by simp
      show ?thesis using keep [OF pk] e [of k' l'] pages_okD(1) [OF pg pk] d2(2) [of "N2 i' j'"] pk lv False by auto
    qed
    then show ?thesis using False
      unfolding pt_lookup_shape [OF lk' root] pt_lookup_shape [OF lk root] same_page_idx3 iv ix
      by (auto split: option.split)
  qed
qed

lemma is_valid_flags_VALID [simp]: "is_valid (set_all e p (fl OR VALID OR x))"
proof -
  have "bit (fl OR VALID OR x) 0" by (simp add: VALID_def bit_simps)
  then have "bit (flags (set_all e p (fl OR VALID OR x)) AND VALID) 0" by (simp add: VALID_def bit_simps)
  then show ?thesis unfolding is_valid_def by (metis bit_0_eq bot_apply bot_bool_def)
qed

lemma pt_stays_trans:
  assumes "pt_stays bf K pt m pt' m'" "pt_stays bf K pt' m' pt'' m''" "free_frames bf m'' = free_frames bf m'"
  shows "pt_stays bf K pt m pt'' m''"
  using assms keeps_trans [of K m m' m''] by (auto simp: pt_stays_def)

lemma pt_map_ok:
  assumes "pt_wf bf m K pt" "pa < 2 ^ 56"
  obtains res pt' m' where "pt_map bf pt va pa fl m = Some (res, pt', m')" "pt_stays bf K pt m pt' m'"
    "if pt_lookup pt va m \<noteq> None
     then res = Err PageTable_PageAlreadyMapped \<and> (\<forall>v. pt_lookup pt' v m' = pt_lookup pt v m)
     else (res = Err PageTable_FrameAllocFailed \<and> free_frames bf m' = {} \<and> (\<forall>v. pt_lookup pt' v m' = pt_lookup pt v m)) \<or>
          (res = Ok () \<and> find_pte pt' va m' \<noteq> None \<and> (\<forall>v. pt_lookup pt' v m' =
             (if same_page v va \<and> fl \<noteq> 0 then Some (align_down pa, fl OR VALID OR ACCESS OR DIRTY)
              else pt_lookup pt v m)))"
proof -
  obtain res pt' m' where w: "find_pte_create bf pt va m = Some (res, pt', m')" "pt_stays bf K pt m pt' m'"
    "\<forall>v. pt_lookup pt' v m' = pt_lookup pt v m" "res = None \<longrightarrow> free_frames bf m' = {}" "find_pte pt' va m' = res"
    by (rule find_pte_create_ok [OF assms(1), of va])
  have wf': "pt_wf bf m' K pt'" using w(2) by (simp add: pt_stays_def)
  show ?thesis
  proof (cases res)
    case None
    then have "pt_lookup pt va m = None" using spec [OF w(3), of va, symmetric] w(5) by (simp add: pt_lookup_def [of pt'])
    then show ?thesis using that None w by (auto simp: pt_map_def)
  next
    case (Some p)
    then have fp: "find_pte pt' va m' = Some p" using w(5) by simp
    have look: "pt_lookup pt va m = None \<longleftrightarrow> \<not> is_valid (load_pte m' p)"
      using spec [OF w(3), of va, symmetric] fp by (auto simp: pt_lookup_def [of pt'] Let_def)
    let ?e = "set_all (load_pte m' p) pa (fl OR VALID OR ACCESS OR DIRTY)"
    note st = store_leaf [OF wf' fp, where e = ?e]
    have ad: "addr ?e = align_down pa" using addr_set_all [OF assms(2)] by blast
    have stays: "pt_stays bf K pt m pt' (store_pte p ?e m')"
      by (rule pt_stays_trans [OF w(2) st(1)]) (simp add: store_pte_def)
    have fp': "find_pte pt' va (store_pte p ?e m') = Some p" using st(1) fp by (simp add: pt_stays_def)
    show ?thesis
    proof (cases "pt_lookup pt va m = None \<and> fl \<noteq> 0")
      case True
      then show ?thesis using that [of "Ok ()" pt' "store_pte p ?e m'"] Some w(1,3) look stays st(3) ad fp'
        by (auto simp: pt_map_def)
    next
      case False
      then show ?thesis using that [of _ pt' m'] Some w look fp by (auto simp: pt_map_def)
    qed
  qed
qed

lemma pt_unmap_ok:
  assumes "pt_wf bf m K pt"
  obtains res m' where "pt_unmap pt va m = (res, m')" "pt_stays bf K pt m pt m'" "free_frames bf m' = free_frames bf m"
    "if pt_lookup pt va m \<noteq> None
     then res = Ok () \<and> (\<forall>v. pt_lookup pt v m' = (if same_page v va then None else pt_lookup pt v m))
     else (res = Err PageTable_PageNotMapped \<or> res = Err PageTable_VirtNotFound) \<and> m' = m"
proof (cases "pt_lookup pt va m")
  case None
  have "pt_stays bf K pt m pt m" using assms by (simp add: pt_stays_def)
  with None that show ?thesis
    by (cases "find_pte pt va m") (auto simp: pt_unmap_def pt_lookup_def Let_def split: if_splits)
next
  case (Some x)
  then obtain p where p: "find_pte pt va m = Some p" "is_valid (load_pte m p)"
    by (auto simp: pt_lookup_def Let_def split: option.splits if_splits)
  have nv: "\<not> is_valid (pte_clear e)" for e by (simp add: is_valid_def flags_def pte_clear_def)
  show ?thesis
    using that [of "Ok ()" "store_pte p (pte_clear (load_pte m p)) m"] Some p nv
      store_leaf [OF assms p(1), where e = "pte_clear (load_pte m p)"]
    by (simp add: pt_unmap_def) (simp add: store_pte_def)
qed

lemma pt_set_flags_ok:
  assumes "pt_wf bf m K pt"
  obtains res pt' m' where "pt_set_flags bf pt va fl m = Some (res, pt', m')" "pt_stays bf K pt m pt' m'"
    "case pt_lookup pt va m of
       Some (pa, old) \<Rightarrow> res = Ok () \<and> (\<forall>v. pt_lookup pt' v m' =
         (if same_page v va then Some (pa, fl OR VALID OR ACCESS OR DIRTY) else pt_lookup pt v m))
     | None \<Rightarrow> (res = Err PageTable_PageNotMapped \<or> res = Err PageTable_FrameAllocFailed \<and> free_frames bf m' = {}) \<and>
         (\<forall>v. pt_lookup pt' v m' = pt_lookup pt v m)"
proof -
  obtain res pt' m' where w: "find_pte_create bf pt va m = Some (res, pt', m')" "pt_stays bf K pt m pt' m'"
    "\<forall>v. pt_lookup pt' v m' = pt_lookup pt v m" "res = None \<longrightarrow> free_frames bf m' = {}" "find_pte pt' va m' = res"
    by (rule find_pte_create_ok [OF assms(1), of va])
  have wf': "pt_wf bf m' K pt'" using w(2) by (simp add: pt_stays_def)
  show ?thesis
  proof (cases res)
    case None
    then have "pt_lookup pt va m = None" using spec [OF w(3), of va, symmetric] w(5) by (simp add: pt_lookup_def [of pt'])
    then show ?thesis using that None w by (auto simp: pt_set_flags_def)
  next
    case (Some p)
    then have fp: "find_pte pt' va m' = Some p" using w(5) by simp
    have look: "pt_lookup pt va m =
        (if is_valid (load_pte m' p) then Some (addr (load_pte m' p), flags (load_pte m' p)) else None)"
      using spec [OF w(3), of va, symmetric] fp by (auto simp: pt_lookup_def [of pt'] Let_def)
    let ?e = "pte_set_flags (load_pte m' p) (fl OR VALID OR ACCESS OR DIRTY)"
    note st = store_leaf [OF wf' fp, where e = ?e]
    have v: "is_valid ?e" using is_valid_flags_VALID [of _ _ fl "ACCESS OR DIRTY"] by (simp add: is_valid_def)
    have stays: "pt_stays bf K pt m pt' (store_pte p ?e m')"
      by (rule pt_stays_trans [OF w(2) st(1)]) (simp add: store_pte_def)
    show ?thesis
    proof (cases "is_valid (load_pte m' p)")
      case True
      then show ?thesis using that [of "Ok ()" pt' "store_pte p ?e m'"] Some w(1,3) look stays st(3) v
        by (auto simp: pt_set_flags_def)
    next
      case False
      then show ?thesis using that [of "Err PageTable_PageNotMapped" pt' m'] Some w look by (auto simp: pt_set_flags_def)
    qed
  qed
qed

text \<open>C30: \<^verbatim>\<open>PageTable::map\<close> on a well-formed table, \<open>K\<close> being page frames in use elsewhere. It refuses a page that is already mapped; it
  fails with \<^verbatim>\<open>FrameAllocFailed\<close> only when page frames have run out; otherwise it maps exactly the page of \<open>va\<close> to the physical page
  with the given flags plus V, A and D (with empty flags it only prepares the upper levels). In every case the table
  stays well formed and apart from \<open>K\<close>, its root stays, the contents of the frames \<open>K\<close> stay, and no other page changes its
  translation.\<close>

theorem pt_map_correct:
  assumes "pt_wf bf m K pt" "pa < 2 ^ 56"
  shows "\<exists>res pt' m'. pt_map bf pt va pa fl m = Some (res, pt', m') \<and> pt_wf bf m' K pt' \<and> root_paddr pt' = root_paddr pt \<and>
    keeps K m m' \<and>
    (if pt_lookup pt va m \<noteq> None
     then res = Err PageTable_PageAlreadyMapped \<and> (\<forall>v. pt_lookup pt' v m' = pt_lookup pt v m)
     else (res = Err PageTable_FrameAllocFailed \<and> free_frames bf m' = {} \<and> (\<forall>v. pt_lookup pt' v m' = pt_lookup pt v m)) \<or>
          (res = Ok () \<and> (\<forall>v. pt_lookup pt' v m' =
             (if same_page v va \<and> fl \<noteq> 0 then Some (align_down pa, fl OR VALID OR ACCESS OR DIRTY)
              else pt_lookup pt v m))))"
  by (rule pt_map_ok [OF assms, of va fl]) (auto simp: pt_stays_def)

text \<open>C31: \<^verbatim>\<open>PageTable::unmap\<close> on a well-formed table removes exactly the translation of the page of \<open>va\<close> and touches no frame of \<open>K\<close>; on a
  page that is not mapped it answers \<^verbatim>\<open>PageNotMapped\<close> or \<^verbatim>\<open>VirtNotFound\<close> and changes nothing.\<close>

theorem pt_unmap_correct:
  assumes "pt_wf bf m K pt"
  shows "\<exists>res m'. pt_unmap pt va m = (res, m') \<and> pt_wf bf m' K pt \<and> keeps K m m' \<and>
    (if pt_lookup pt va m \<noteq> None
     then res = Ok () \<and> (\<forall>v. pt_lookup pt v m' = (if same_page v va then None else pt_lookup pt v m))
     else (res = Err PageTable_PageNotMapped \<or> res = Err PageTable_VirtNotFound) \<and> m' = m)"
  by (rule pt_unmap_ok [OF assms, of va]) (auto simp: pt_stays_def)

text \<open>\<^verbatim>\<open>PageTable::set_flags\<close> replaces the flags of a mapped page, keeping its physical page, every other translation and the
  frames \<open>K\<close>, and answers \<^verbatim>\<open>PageNotMapped\<close> (or \<^verbatim>\<open>FrameAllocFailed\<close> when frames have run out) on a page that is not mapped.\<close>

lemma pt_set_flags_correct:
  assumes "pt_wf bf m K pt"
  shows "\<exists>res pt' m'. pt_set_flags bf pt va fl m = Some (res, pt', m') \<and> pt_wf bf m' K pt' \<and> root_paddr pt' = root_paddr pt \<and>
    keeps K m m' \<and>
    (case pt_lookup pt va m of
       Some (pa, old) \<Rightarrow> res = Ok () \<and> (\<forall>v. pt_lookup pt' v m' =
         (if same_page v va then Some (pa, fl OR VALID OR ACCESS OR DIRTY) else pt_lookup pt v m))
     | None \<Rightarrow> (res = Err PageTable_PageNotMapped \<or> res = Err PageTable_FrameAllocFailed \<and> free_frames bf m' = {}) \<and>
         (\<forall>v. pt_lookup pt' v m' = pt_lookup pt v m))"
  by (rule pt_set_flags_ok [OF assms, of va fl]) (auto simp: pt_stays_def)

text \<open>\<^verbatim>\<open>force_write\<close> panics on every input: it compares two page-aligned addresses for a difference of one.\<close>

lemma force_write_panics: "force_write pt start data m = None"
proof -
  have "unat (align_up x) mod 4096 = 0" for x unfolding align_up_eq unat_align_down by simp
  moreover have "unat (align_down start + 1) mod 4096 = 1"
  proof -
    have "unat start div 4096 < 4503599627370496" by (rule less_mult_imp_div_less) (use unat64_less in simp)
    then have "unat (align_down start) + 1 < 2 ^ 64" unfolding unat_align_down by simp
    then have "unat (align_down start + 1) = unat start div 4096 * 4096 + 1"
      using unat_add_small [of "align_down start" 1] by (simp add: unat_align_down)
    then show ?thesis by (simp only: mod_mult_self3) simp
  qed
  ultimately have "align_up x \<noteq> align_down start + 1" for x by (metis zero_neq_one)
  then show ?thesis by (simp add: force_write_def Let_def)
qed

subsection \<open>Building and dropping a table\<close>

lemma page_table_new_ok:
  assumes "frames_inv bf m" "least_ge (free_frames bf m) 0 = Some q" and dj: "K \<inter> free_frames bf m = {}"
  obtains pt m' where "page_table_new bf m = Some (Ok pt, m')" "pt = \<lparr>root_paddr = page_addr q, frames = [frame_of q]\<rparr>"
    "pt_wf bf m' K pt" "\<And>v. pt_lookup pt v m' = None" "free_frames bf m' = free_frames bf m - {q}"
proof -
  have q: "q < 16777216" using free_frames_less [OF assms(1) least_ge_SomeD(1) [OF assms(2)]] .
  obtain m1 where m1: "frame_new bf kernel_config m = Some (Some (frame_of q), m1)"
    "frames_inv bf m1" "free_frames bf m1 = free_frames bf m - {q}"
    by (rule frame_new_some [OF assms(1,2), of kernel_config])
  have qK: "q \<notin> K" using least_ge_SomeD(1) [OF assms(2)] dj by auto
  let ?m = "frame_zero kernel_config (frame_of q) m1"
  let ?pt = "\<lparr>root_paddr = page_addr q, frames = [frame_of q]\<rparr>"
  have alloc: "frame_allocator ?m = frame_allocator m1" by (simp add: frame_zero_def frame_fill_def)
  have lk: "links_ok ?m (q, \<lambda>_. None, \<lambda>_ _. None)"
    using entry_frame_zero [OF q q] by (simp add: child_ok_def)
  have page: "page_of (q, \<lambda>_. None, \<lambda>_ _. None) n = Some k \<longleftrightarrow> n = N0 \<and> k = q" for n k by (cases n) auto
  have "pages_ok bf ?m K (q, \<lambda>_. None, \<lambda>_ _. None)"
    unfolding pages_ok_def page alloc using q qK m1(3) by auto
  moreover have "K \<inter> free_frames bf ?m = {}" unfolding alloc m1(3) using dj by auto
  ultimately have "pt_tree bf ?m K (q, \<lambda>_. None, \<lambda>_ _. None)" using lk m1(2) alloc by (simp add: pt_tree_def)
  moreover have "frames_owned bf ?m K ?pt"
    unfolding frames_owned_def alloc using q qK m1(3) by (intro exI [of _ "[q]"]) simp
  ultimately have wf: "pt_wf bf ?m K ?pt" unfolding pt_wf_def by auto
  have "pt_lookup ?pt v ?m = None" for v
    using pt_lookup_shape [OF lk, of ?pt v] by (cases "idx3 v") simp
  moreover have "page_table_new bf m = Some (Ok ?pt, ?m)" using m1(1) by (simp add: page_table_new_def)
  ultimately show ?thesis using that wf m1(3) alloc by simp
qed

lemma drop_frames_ok:
  assumes "frames_inv bf m" "distinct ks" "\<forall>k \<in> set ks. k < 16777216 \<and> k \<notin> free_frames bf m"
  shows "\<exists>m'. drop_frames bf (map frame_of ks) m = Some m' \<and> frames_inv bf m' \<and>
    free_frames bf m' = free_frames bf m \<union> set ks \<and> mem m' = mem m"
  using assms
proof (induction ks arbitrary: m)
  case (Cons k ks)
  obtain m1 where m1: "frame_drop bf kernel_config (frame_of k) m = Some m1" "frames_inv bf m1"
    "free_frames bf m1 = insert k (free_frames bf m)" "mem m1 = mem m"
    by (rule frame_drop_one [OF Cons.prems(1), of k]) (use Cons.prems in auto)
  with Cons.IH [of m1] Cons.prems show ?case by auto
qed simp

text \<open>Dropping a well-formed page table never panics and gives back exactly the page frames of its vector; in particular a
  table that was just created gives back the frame that \<^verbatim>\<open>PageTable::new\<close> took.\<close>

lemma page_table_drop:
  assumes "pt_wf bf m K pt"
  shows "\<exists>m'. drop_frames bf (frames pt) m = Some m' \<and> frames_inv bf m' \<and> mem m' = mem m \<and>
    free_frames bf m' = free_frames bf m \<union> {k. k < 16777216 \<and> frame_of k \<in> set (frames pt)}"
proof -
  obtain ks where ks: "frames pt = map frame_of ks" "distinct ks" "\<forall>k \<in> set ks. k < 16777216 \<and> k \<notin> free_frames bf m"
    using assms by (auto simp: pt_wf_def frames_owned_def)
  have fi: "frames_inv bf m" using assms by (auto simp: pt_wf_def pt_tree_def)
  have "{k. k < 16777216 \<and> frame_of k \<in> set (frames pt)} = set ks"
  proof (intro equalityI subsetI)
    fix k assume "k \<in> {k. k < 16777216 \<and> frame_of k \<in> set (frames pt)}"
    then obtain k' where "k' \<in> set ks" "page_addr k = page_addr k'" "k < 16777216" using ks(1) by auto
    moreover have "k = k'" using calculation ks(3) by (intro page_addr_inj) auto
    ultimately show "k \<in> set ks" by simp
  qed (use ks in auto)
  then show ?thesis using drop_frames_ok [OF fi ks(2,3)] ks(1) by auto
qed

subsection \<open>Witnesses\<close>

definition demo_pt :: "page_table \<times> machine" where
  "demo_pt = (case page_table_new ref_bit_field (machine_with 5 9) of Some (Inr pt, m) \<Rightarrow> (pt, m))"

lemma demo_pt_ok:
  "pt_wf ref_bit_field (snd demo_pt) {} (fst demo_pt)" "pt_lookup (fst demo_pt) v (snd demo_pt) = None"
  "frames (fst demo_pt) = [frame_of 5]" "free_frames ref_bit_field (snd demo_pt) = {6..<9}"
proof -
  have m: "frames_inv ref_bit_field (machine_with 5 9)" "free_frames ref_bit_field (machine_with 5 9) = {5..<9}"
    by (rule machine_with_frames; simp)+
  have least: "least_ge (free_frames ref_bit_field (machine_with 5 9)) 0 = Some 5"
    unfolding m(2) by (rule least_ge_SomeI) auto
  obtain pt m' where "page_table_new ref_bit_field (machine_with 5 9) = Some (Ok pt, m')"
    "pt = \<lparr>root_paddr = page_addr 5, frames = [frame_of 5]\<rparr>" "pt_wf ref_bit_field m' {} pt" "\<forall>v. pt_lookup pt v m' = None"
    "free_frames ref_bit_field m' = {5..<9} - {5}"
    using page_table_new_ok [OF m(1) least, of "{}"] m(2) by (metis inf_bot_left)
  then show "pt_wf ref_bit_field (snd demo_pt) {} (fst demo_pt)" "pt_lookup (fst demo_pt) v (snd demo_pt) = None"
    "frames (fst demo_pt) = [frame_of 5]" "free_frames ref_bit_field (snd demo_pt) = {6..<9}"
    by (auto simp: demo_pt_def)
qed

theorem pt_map_correct_witness:
  "\<exists>res pt' m'. pt_map ref_bit_field (fst demo_pt) 0x1000 0x80003000 READ (snd demo_pt) = Some (res, pt', m') \<and>
     (res = Err PageTable_FrameAllocFailed \<and> free_frames ref_bit_field m' = {} \<or>
      res = Ok () \<and> pt_lookup pt' 0x1000 m' = Some (0x80003000, READ OR VALID OR ACCESS OR DIRTY))"
proof -
  have "align_down 0x80003000 = 0x80003000" by (simp add: align_down_def PAGE_SIZE_def)
  moreover have "READ \<noteq> 0" by (simp add: READ_def)
  ultimately show ?thesis
    using pt_map_correct [OF demo_pt_ok(1), of "0x80003000" "0x1000" READ] by (auto simp: demo_pt_ok(2))
qed

theorem pt_unmap_correct_witness:
  "\<exists>res. pt_unmap (fst demo_pt) 0x1000 (snd demo_pt) = (res, snd demo_pt) \<and> res \<noteq> Ok ()"
  using pt_unmap_correct [OF demo_pt_ok(1), of "0x1000"] by (auto simp: demo_pt_ok(2))

lemma pt_set_flags_correct_example:
  "\<exists>res pt' m'. pt_set_flags ref_bit_field (fst demo_pt) 0x1000 WRITE (snd demo_pt) = Some (res, pt', m') \<and> res \<noteq> Ok ()"
  using pt_set_flags_correct [OF demo_pt_ok(1), of "0x1000" WRITE] by (auto simp: demo_pt_ok(2))

lemma page_table_drop_example:
  "\<exists>m'. drop_frames ref_bit_field (frames (fst demo_pt)) (snd demo_pt) = Some m'"
  using page_table_drop [OF demo_pt_ok(1)] by blast

end
