(* ===== verification/Base_File.thy ===== *)
theory Base_File
  imports Fd_Manager
begin

text \<open>
  The file abstraction: \<^verbatim>\<open>modules/base-file\<close> (\<^verbatim>\<open>OpenFlags\<close> and the provided methods of \<^verbatim>\<open>trait File\<close>) and the backend files of
  memory mappings, \<^verbatim>\<open>kernel/src/file/backend.rs\<close>.

  A file object (\<^verbatim>\<open>dyn File\<close>) is a value of a type \<open>'f\<close>, and its methods are the record \<open>file_ops\<close>. They act on a world
  \<open>'w\<close> that holds the state of all files and of the machine. A buffer \<^verbatim>\<open>&mut [u8]\<close> is passed in and returned.
  \<open>None\<close> is a panic.
\<close>

subsection \<open>OpenFlags\<close>

definition WRONLY :: u32 where "WRONLY = push_bit 0 1"
definition RDWR :: u32 where "RDWR = push_bit 1 1"

definition of_read_write :: "u32 \<Rightarrow> bool \<times> bool" where
  "of_read_write self =
     (if self = 0 then (True, False)
      else if flags_contains self WRONLY then (False, True)
      else (True, True))"

definition of_readable :: "u32 \<Rightarrow> bool" where
  "of_readable self \<longleftrightarrow> \<not> flags_contains self WRONLY"

definition of_writable :: "u32 \<Rightarrow> bool" where
  "of_writable self \<longleftrightarrow> flags_contains self WRONLY \<or> flags_contains self RDWR"

subsection \<open>trait File\<close>

text \<open>\<^verbatim>\<open>i64\<close> offsets are 64-bit words read as signed.\<close>

datatype seek_from =
    SeekStart u64
  | SeekEnd "64 word"
  | SeekCurrent "64 word"

record ('f, 'w) file_ops =
  f_read :: "'f \<Rightarrow> byte list \<Rightarrow> 'w \<Rightarrow> (usize option \<times> byte list \<times> 'w) option"
  f_write :: "'f \<Rightarrow> byte list \<Rightarrow> 'w \<Rightarrow> (usize option \<times> 'w) option"
  f_seek :: "'f \<Rightarrow> seek_from \<Rightarrow> 'w \<Rightarrow> (usize option \<times> 'w) option"
  f_read_from_offset :: "'f \<Rightarrow> usize \<Rightarrow> byte list \<Rightarrow> 'w \<Rightarrow> (usize option \<times> byte list \<times> 'w) option"
  f_write_to_offset :: "'f \<Rightarrow> usize \<Rightarrow> byte list \<Rightarrow> 'w \<Rightarrow> (usize option \<times> 'w) option"

text \<open>The provided \<^verbatim>\<open>read_from_offset\<close> and \<^verbatim>\<open>write_to_offset\<close>, for a type that only implements \<^verbatim>\<open>read\<close>, \<^verbatim>\<open>write\<close> and \<^verbatim>\<open>seek\<close>.\<close>

definition read_from_offset ::
  "('f, 'w) file_ops \<Rightarrow> 'f \<Rightarrow> usize \<Rightarrow> byte list \<Rightarrow> 'w \<Rightarrow> (usize option \<times> byte list \<times> 'w) option" where
  "read_from_offset fo self pos buf w = do {
     (r, w) \<leftarrow> f_seek fo self (SeekCurrent 0) w;
     (case r of
        None \<Rightarrow> Some (None, buf, w)
      | Some old_pos \<Rightarrow> do {
          (r, w) \<leftarrow> f_seek fo self (SeekStart pos) w;
          (case r of
             None \<Rightarrow> Some (None, buf, w)
           | Some _ \<Rightarrow> do {
               (read_len, buf, w) \<leftarrow> f_read fo self buf w;
               (r, w) \<leftarrow> f_seek fo self (SeekCurrent old_pos) w;
               _ \<leftarrow> r;
               Some (read_len, buf, w)
             })
        })
   }"

definition write_to_offset ::
  "('f, 'w) file_ops \<Rightarrow> 'f \<Rightarrow> usize \<Rightarrow> byte list \<Rightarrow> 'w \<Rightarrow> (usize option \<times> 'w) option" where
  "write_to_offset fo self pos buf w = do {
     (r, w) \<leftarrow> f_seek fo self (SeekCurrent 0) w;
     (case r of
        None \<Rightarrow> Some (None, w)
      | Some old_pos \<Rightarrow> do {
          (r, w) \<leftarrow> f_seek fo self (SeekStart pos) w;
          (case r of
             None \<Rightarrow> Some (None, w)
           | Some _ \<Rightarrow> do {
               (write_len, w) \<leftarrow> f_write fo self buf w;
               (r, w) \<leftarrow> f_seek fo self (SeekCurrent old_pos) w;
               _ \<leftarrow> r;
               Some (write_len, w)
             })
        })
   }"

subsection \<open>BackEndFile\<close>

datatype sync_policy = SyncRead | SyncWrite | SyncReadWrite

record 'f backend_file =
  be_file :: 'f
  be_offset :: usize
  be_policy :: sync_policy

definition backend_new :: "'f \<Rightarrow> usize \<Rightarrow> sync_policy \<Rightarrow> 'f backend_file" where
  "backend_new f off pol = \<lparr>be_file = f, be_offset = off, be_policy = pol\<rparr>"

definition backend_split :: "'f backend_file \<Rightarrow> usize \<Rightarrow> 'f backend_file" where
  "backend_split self delta = self\<lparr>be_offset := be_offset self + delta\<rparr>"

definition backend_clone_as_fork :: "'f backend_file \<Rightarrow> 'f backend_file" where
  "backend_clone_as_fork self = backend_split self 0"

definition modify_offset :: "'f backend_file \<Rightarrow> usize \<Rightarrow> 'f backend_file" where
  "modify_offset self delta = self\<lparr>be_offset := be_offset self + delta\<rparr>"

definition backend_read_from_offset ::
  "('f, 'w) file_ops \<Rightarrow> 'f backend_file \<Rightarrow> usize \<Rightarrow> byte list \<Rightarrow> 'w \<Rightarrow> (usize option \<times> byte list \<times> 'w) option" where
  "backend_read_from_offset fo self pos buf w =
     (if be_policy self = SyncRead \<or> be_policy self = SyncReadWrite
      then f_read_from_offset fo (be_file self) (be_offset self + pos) buf w
      else Some (None, buf, w))"

definition backend_write_to_offset ::
  "('f, 'w) file_ops \<Rightarrow> 'f backend_file \<Rightarrow> usize \<Rightarrow> byte list \<Rightarrow> 'w \<Rightarrow> (usize option \<times> 'w) option" where
  "backend_write_to_offset fo self pos buf w =
     (if be_policy self = SyncWrite \<or> be_policy self = SyncReadWrite
      then f_write_to_offset fo (be_file self) (be_offset self + pos) buf w
      else Some (None, w))"

subsection \<open>Properties\<close>

lemma contains_bit:
  fixes fl :: "'l::len word"
  assumes "k < LENGTH('l)"
  shows "flags_contains fl (push_bit k 1) \<longleftrightarrow> bit fl k"
proof -
  have "fl AND push_bit k 1 = (if bit fl k then push_bit k 1 else 0)"
    by (rule bit_word_eqI) (auto simp: bit_and_iff bit_exp_iff)
  moreover have "bit (push_bit k 1 :: 'l word) k" using assms by (simp add: bit_exp_iff)
  then have "push_bit k 1 \<noteq> (0 :: 'l word)" using assms by auto
  ultimately show ?thesis by (auto simp: flags_contains_def)
qed

lemma contains_WRONLY: "flags_contains fl WRONLY \<longleftrightarrow> bit fl 0" for fl :: u32
  unfolding WRONLY_def by (rule contains_bit) simp

lemma contains_RDWR: "flags_contains fl RDWR \<longleftrightarrow> bit fl 1" for fl :: u32
  unfolding RDWR_def by (rule contains_bit) simp

text \<open>\<^verbatim>\<open>read_write\<close> disagrees with \<^verbatim>\<open>readable\<close> and \<^verbatim>\<open>writable\<close> exactly on the read-only mode combined with further options (bits 0
  and 1 clear, another bit set), which it reports as writable.\<close>

lemma open_flags_read_write:
  "of_read_write fl = (of_readable fl, of_writable fl) \<longleftrightarrow> \<not> (fl \<noteq> 0 \<and> \<not> bit fl 0 \<and> \<not> bit fl 1)"
  by (auto simp: of_read_write_def of_readable_def of_writable_def contains_WRONLY contains_RDWR)

end
