(* ===== verification/Areas.thy ===== *)
theory Areas
  imports Range_Map Page_Table Base_File
begin

text \<open>
  Memory areas, \<^verbatim>\<open>kernel/src/memory/areas\<close>: the physical areas \<^verbatim>\<open>PmAreaFixed\<close> and \<^verbatim>\<open>PmAreaLazy\<close> (the two implementations of
  \<^verbatim>\<open>trait PmArea\<close>), the virtual area \<^verbatim>\<open>VmArea\<close>, and \<^verbatim>\<open>impl Segment for VmArea\<close>, through which the interval map drives them.

  A physical area is owned by one virtual area (its \<^verbatim>\<open>Arc\<close> is never cloned), so it is stored in it by value. An
  operation acts on the world \<open>'s area_world\<close>: the machine and the state \<open>'s\<close> of the file system; the page table is passed
  separately. Dropping a frame is written out where the code lets it go out of scope. Logging is left out.
\<close>

definition USER_VIRT_ADDR_LIMIT :: usize where
  "USER_VIRT_ADDR_LIMIT = 0xFFFFFFFF"

type_synonym 's area_world = "machine \<times> 's"

subsection \<open>PmAreaFixed\<close>

record pm_area_fixed =
  fx_start :: usize
  fx_end :: usize

definition fixed_new :: "usize \<Rightarrow> usize \<Rightarrow> pm_area_fixed os_result" where
  "fixed_new start end' =
     (if start \<ge> end' then Err PmArea_InvalidRange
      else Ok \<lparr>fx_start = align_down start, fx_end = align_up end'\<rparr>)"

definition fixed_size :: "pm_area_fixed \<Rightarrow> usize" where
  "fixed_size self = fx_end self - fx_start self"

definition fixed_clone_as_fork :: "pm_area_fixed \<Rightarrow> pm_area_fixed" where
  "fixed_clone_as_fork self = \<lparr>fx_start = fx_start self, fx_end = fx_end self\<rparr>"

definition fixed_get_frame :: "pm_area_fixed \<Rightarrow> usize \<Rightarrow> usize" where
  "fixed_get_frame self idx = fx_start self + idx * PAGE_SIZE"

text \<open>\<^verbatim>\<open>copy_from_slice\<close> panics when the lengths differ.\<close>

definition fixed_read :: "pm_area_fixed \<Rightarrow> usize \<Rightarrow> byte list \<Rightarrow> machine \<Rightarrow> (usize os_result \<times> byte list) option" where
  "fixed_read self offset dst m =
     (if offset \<ge> fixed_size self then Some (Err PmArea_OutOfRange, dst)
      else let len = min (length dst) (unat (fx_end self - offset));
               data = mem_read (mem m) (fx_start self + offset) len
        in if length dst = length data then Some (Ok (of_nat len), data) else None)"

definition fixed_write :: "pm_area_fixed \<Rightarrow> usize \<Rightarrow> byte list \<Rightarrow> machine \<Rightarrow> (usize os_result \<times> machine) option" where
  "fixed_write self offset src m =
     (if offset \<ge> fixed_size self then Some (Err PmArea_OutOfRange, m)
      else let len = min (length src) (unat (fx_end self - offset))
        in if len = length src
           then Some (Ok (of_nat len), m\<lparr>mem := mem_write (mem m) (fx_start self + offset) src\<rparr>)
           else None)"

definition fixed_shrink_left :: "pm_area_fixed \<Rightarrow> usize \<Rightarrow> unit os_result \<times> pm_area_fixed" where
  "fixed_shrink_left self new_start =
     (if new_start < fx_end self - fx_start self
      then (Ok (), self\<lparr>fx_start := fx_start self + new_start\<rparr>)
      else (Err PmArea_ShrinkFailed, self))"

definition fixed_shrink_right :: "pm_area_fixed \<Rightarrow> usize \<Rightarrow> unit os_result \<times> pm_area_fixed" where
  "fixed_shrink_right self new_end =
     (if new_end < fx_end self - fx_start self
      then (Ok (), self\<lparr>fx_end := fx_start self + new_end\<rparr>)
      else (Err PmArea_ShrinkFailed, self))"

definition fixed_split ::
  "pm_area_fixed \<Rightarrow> usize \<Rightarrow> usize \<Rightarrow> (pm_area_fixed os_result \<times> pm_area_fixed) option" where
  "fixed_split self left_end right_start =
     (if left_end \<le> right_start \<and> right_start < fx_end self - fx_start self then
        (case fixed_new (fx_start self + right_start) (fx_end self) of
           Inl _ \<Rightarrow> None
         | Inr right \<Rightarrow> Some (Ok right, self\<lparr>fx_end := fx_start self + left_end\<rparr>))
      else Some (Err PmArea_SplitFailed, self))"

subsection \<open>PmAreaLazy\<close>

record 'f pm_area_lazy =
  lz_frames :: "frame option list"
  lz_backend :: "'f backend_file option"

definition lazy_new :: "usize \<Rightarrow> 'f backend_file option \<Rightarrow> 'f pm_area_lazy os_result" where
  "lazy_new count backend =
     (if count = 0 then Err PmArea_InvalidRange
      else if count > page_count USER_VIRT_ADDR_LIMIT then Err Memory_RunOutOfMemory
      else Ok \<lparr>lz_frames = replicate (unat count) None, lz_backend = backend\<rparr>)"

definition new_from_frames :: "frame option list \<Rightarrow> 'f backend_file option \<Rightarrow> 'f pm_area_lazy" where
  "new_from_frames fs backend = \<lparr>lz_frames = fs, lz_backend = backend\<rparr>"

definition lazy_size :: "'f pm_area_lazy \<Rightarrow> usize" where
  "lazy_size self = of_nat (length (lz_frames self)) * PAGE_SIZE"

definition lazy_clone_as_fork :: "'f pm_area_lazy \<Rightarrow> 'f pm_area_lazy os_result" where
  "lazy_clone_as_fork self =
     lazy_new (of_nat (length (lz_frames self))) (map_option backend_clone_as_fork (lz_backend self))"

text \<open>The contents of a fresh frame: read from the backend file, or zero.\<close>

definition fill_new_frame ::
  "('f, 's area_world) file_ops \<Rightarrow> 'f pm_area_lazy \<Rightarrow> usize \<Rightarrow> frame \<Rightarrow> 's area_world \<Rightarrow> 's area_world option" where
  "fill_new_frame fo self idx f w =
     (case lz_backend self of
        Some backend \<Rightarrow> do {
          (r, buf, m, s) \<leftarrow> backend_read_from_offset fo backend (idx * PAGE_SIZE)
             (frame_as_slice kernel_config f (fst w)) w;
          m \<leftarrow> frame_slice_write kernel_config f 0 buf m;
          Some (if r = None then frame_zero kernel_config f m else m, s)
        }
      | None \<Rightarrow> Some (frame_zero kernel_config f (fst w), snd w))"

definition lazy_get_frame ::
  "bit_field16 \<Rightarrow> ('f, 's area_world) file_ops \<Rightarrow> 'f pm_area_lazy \<Rightarrow> usize \<Rightarrow> bool \<Rightarrow> 's area_world \<Rightarrow>
     (usize option os_result \<times> 'f pm_area_lazy \<times> 's area_world) option" where
  "lazy_get_frame bf fo self idx need_alloc w = do {
     sl \<leftarrow> at (lz_frames self) (unat idx);
     if need_alloc \<and> sl = None then do {
       (r, m) \<leftarrow> frame_new bf kernel_config (fst w);
       (case r of
          Some f \<Rightarrow> do {
            w \<leftarrow> fill_new_frame fo self idx f (m, snd w);
            let self = self\<lparr>lz_frames := (lz_frames self)[unat idx := Some f]\<rparr>;
            Some (Ok (Some (start_paddr f)), self, w)
          }
        | None \<Rightarrow> Some (Err Memory_RunOutOfMemory, self, (m, snd w)))
     }
     else Some (Ok (map_option start_paddr sl), self, w)
   }"

definition lazy_sync_frame_with_file ::
  "('f, 's area_world) file_ops \<Rightarrow> 'f pm_area_lazy \<Rightarrow> usize \<Rightarrow> 's area_world \<Rightarrow> 's area_world option" where
  "lazy_sync_frame_with_file fo self idx w =
     (case lz_backend self of
        Some backend \<Rightarrow> do {
          sl \<leftarrow> at (lz_frames self) (unat idx);
          f \<leftarrow> sl;
          (_, w) \<leftarrow> backend_write_to_offset fo backend (idx * PAGE_SIZE) (frame_as_slice kernel_config f (fst w)) w;
          Some w
        }
      | None \<Rightarrow> Some w)"

definition lazy_release_frame ::
  "bit_field16 \<Rightarrow> ('f, 's area_world) file_ops \<Rightarrow> 'f pm_area_lazy \<Rightarrow> usize \<Rightarrow> 's area_world \<Rightarrow>
     (unit os_result \<times> 'f pm_area_lazy \<times> 's area_world) option" where
  "lazy_release_frame bf fo self idx w = do {
     sl \<leftarrow> at (lz_frames self) (unat idx);
     (case sl of
        None \<Rightarrow> Some (Err PmAreaLazy_ReleaseNotAllocatedPage, self, w)
      | Some f \<Rightarrow> do {
          let self = self\<lparr>lz_frames := (lz_frames self)[unat idx := None]\<rparr>;
          w \<leftarrow> (case lz_backend self of
                 Some backend \<Rightarrow> do {
                   (_, w) \<leftarrow> backend_write_to_offset fo backend (idx * PAGE_SIZE)
                      (frame_as_slice kernel_config f (fst w)) w;
                   Some w
                 }
               | None \<Rightarrow> Some w);
          m \<leftarrow> frame_drop bf kernel_config f (fst w);
          Some (Ok (), self, (m, snd w))
        })
   }"

text \<open>\<^verbatim>\<open>for_each_frame\<close>: \<open>op\<close> receives the bytes processed so far, the slice of the frame and the captured state, and
  returns the new contents of the slice. Positions are naturals: they stay below the size of the area. The
  number of bytes per round is positive, so the loop ends.\<close>

function for_each_frame_loop ::
  "bit_field16 \<Rightarrow> (nat \<Rightarrow> byte list \<Rightarrow> 'c \<Rightarrow> (byte list \<times> 'c) option) \<Rightarrow> nat \<Rightarrow> nat \<Rightarrow> nat \<Rightarrow> 'f pm_area_lazy \<Rightarrow>
     'c \<Rightarrow> machine \<Rightarrow> (nat os_result \<times> 'f pm_area_lazy \<times> 'c \<times> machine) option" where
  "for_each_frame_loop bf op start len processed self c m =
     (if len > 0 then
        (let pgoff = start mod 4096; n = min (4096 - pgoff) len; idx = start div 4096
         in case at (lz_frames self) idx of
              None \<Rightarrow> None
            | Some sl \<Rightarrow>
                (case (case sl of
                         Some f \<Rightarrow> Some (Some f, m)
                       | None \<Rightarrow> map_option (\<lambda>(r, m). (r, case r of Some f \<Rightarrow> frame_zero kernel_config f m | None \<Rightarrow> m))
                            (frame_new bf kernel_config m)) of
                   None \<Rightarrow> None
                 | Some (None, m) \<Rightarrow> Some (Err Memory_RunOutOfMemory, self, c, m)
                 | Some (Some f, m) \<Rightarrow>
                     (case op processed (take n (drop pgoff (frame_as_slice kernel_config f m))) c of
                        None \<Rightarrow> None
                      | Some (bs, c) \<Rightarrow>
                          (case frame_slice_write kernel_config f pgoff bs m of
                             None \<Rightarrow> None
                           | Some m \<Rightarrow>
                               for_each_frame_loop bf op (start + n) (len - n) (processed + n)
                                 (self\<lparr>lz_frames := (lz_frames self)[idx := Some f]\<rparr>) c m))))
      else Some (Ok processed, self, c, m))"
  by pat_completeness auto
termination
  by (relation "measure (\<lambda>(bf, op, start, len, processed, self, c, m). len)") auto

declare for_each_frame_loop.simps [simp del]

definition for_each_frame ::
  "bit_field16 \<Rightarrow> (nat \<Rightarrow> byte list \<Rightarrow> 'c \<Rightarrow> (byte list \<times> 'c) option) \<Rightarrow> nat \<Rightarrow> nat \<Rightarrow> 'f pm_area_lazy \<Rightarrow>
     'c \<Rightarrow> machine \<Rightarrow> (nat os_result \<times> 'f pm_area_lazy \<times> 'c \<times> machine) option" where
  "for_each_frame bf op offset len self c m =
     (if offset \<ge> unat (lazy_size self) \<or> offset + len > unat (lazy_size self)
      then Some (Err PmArea_OutOfRange, self, c, m)
      else for_each_frame_loop bf op offset len 0 self c m)"

text \<open>\<^verbatim>\<open>dst[processed..processed + frame.len()].copy_from_slice(frame)\<close> and its converse.\<close>

definition read_op :: "nat \<Rightarrow> byte list \<Rightarrow> byte list \<Rightarrow> (byte list \<times> byte list) option" where
  "read_op processed fr dst =
     (if processed + length fr \<le> length dst
      then Some (fr, take processed dst @ fr @ drop (processed + length fr) dst) else None)"

definition write_op :: "byte list \<Rightarrow> nat \<Rightarrow> byte list \<Rightarrow> unit \<Rightarrow> (byte list \<times> unit) option" where
  "write_op src processed fr c =
     (if processed + length fr \<le> length src
      then Some (take (length fr) (drop processed src), c) else None)"

definition lazy_read ::
  "bit_field16 \<Rightarrow> 'f pm_area_lazy \<Rightarrow> nat \<Rightarrow> byte list \<Rightarrow> machine \<Rightarrow>
     (nat os_result \<times> 'f pm_area_lazy \<times> byte list \<times> machine) option" where
  "lazy_read bf self offset dst m = for_each_frame bf read_op offset (length dst) self dst m"

definition lazy_write ::
  "bit_field16 \<Rightarrow> 'f pm_area_lazy \<Rightarrow> nat \<Rightarrow> byte list \<Rightarrow> machine \<Rightarrow>
     (nat os_result \<times> 'f pm_area_lazy \<times> unit \<times> machine) option" where
  "lazy_write bf self offset src m = for_each_frame bf (write_op src) offset (length src) self () m"

text \<open>\<^verbatim>\<open>for idx in .. { self.release_frame(idx).unwrap_or(()); }\<close>\<close>

fun lazy_release_each ::
  "bit_field16 \<Rightarrow> ('f, 's area_world) file_ops \<Rightarrow> nat list \<Rightarrow> 'f pm_area_lazy \<Rightarrow> 's area_world \<Rightarrow>
     ('f pm_area_lazy \<times> 's area_world) option" where
  "lazy_release_each bf fo [] self w = Some (self, w)"
| "lazy_release_each bf fo (idx # ids) self w =
     (case lazy_release_frame bf fo self (of_nat idx) w of
        None \<Rightarrow> None
      | Some (_, self, w) \<Rightarrow> lazy_release_each bf fo ids self w)"

text \<open>Dropping a list of optional frames, in order.\<close>

definition drop_slots :: "bit_field16 \<Rightarrow> frame option list \<Rightarrow> machine \<Rightarrow> machine option" where
  "drop_slots bf slots m = drop_frames bf (List.map_filter id slots) m"

definition lazy_shrink_left ::
  "bit_field16 \<Rightarrow> ('f, 's area_world) file_ops \<Rightarrow> 'f pm_area_lazy \<Rightarrow> usize \<Rightarrow> 's area_world \<Rightarrow>
     (unit os_result \<times> 'f pm_area_lazy \<times> 's area_world) option" where
  "lazy_shrink_left bf fo self new_start w =
     (if new_start < lazy_size self then do {
        let k = unat (addr_to_page_id new_start);
        (self, w) \<leftarrow> lazy_release_each bf fo [0..<k] self w;
        m \<leftarrow> drop_slots bf (take k (lz_frames self)) (fst w);
        Some (Ok (), self\<lparr>lz_frames := drop k (lz_frames self),
                          lz_backend := map_option (\<lambda>b. modify_offset b new_start) (lz_backend self)\<rparr>, (m, snd w))
      }
      else Some (Err PmArea_ShrinkFailed, self, w))"

definition lazy_shrink_right ::
  "bit_field16 \<Rightarrow> ('f, 's area_world) file_ops \<Rightarrow> 'f pm_area_lazy \<Rightarrow> usize \<Rightarrow> 's area_world \<Rightarrow>
     (unit os_result \<times> 'f pm_area_lazy \<times> 's area_world) option" where
  "lazy_shrink_right bf fo self new_end w =
     (if new_end < lazy_size self then do {
        let k = unat (addr_to_page_id new_end);
        (self, w) \<leftarrow> lazy_release_each bf fo [k..<length (lz_frames self)] self w;
        m \<leftarrow> drop_slots bf (drop k (lz_frames self)) (fst w);
        Some (Ok (), self\<lparr>lz_frames := take k (lz_frames self)\<rparr>, (m, snd w))
      }
      else Some (Err PmArea_ShrinkFailed, self, w))"

definition lazy_split ::
  "bit_field16 \<Rightarrow> ('f, 's area_world) file_ops \<Rightarrow> 'f pm_area_lazy \<Rightarrow> usize \<Rightarrow> usize \<Rightarrow> 's area_world \<Rightarrow>
     ('f pm_area_lazy os_result \<times> 'f pm_area_lazy \<times> 's area_world) option" where
  "lazy_split bf fo self left_end right_start w =
     (if left_end \<le> right_start \<and> right_start < lazy_size self then do {
        let l = unat (addr_to_page_id left_end);
        let r = unat (addr_to_page_id right_start);
        let new_frames = drop r (lz_frames self);
        (self, w) \<leftarrow> lazy_release_each bf fo [l..<r] (self\<lparr>lz_frames := take r (lz_frames self)\<rparr>) w;
        m \<leftarrow> drop_slots bf (drop l (lz_frames self)) (fst w);
        Some (Ok (new_from_frames new_frames (map_option (\<lambda>b. backend_split b right_start) (lz_backend self))),
              self\<lparr>lz_frames := take l (lz_frames self)\<rparr>, (m, snd w))
      }
      else Some (Err PmArea_SplitFailed, self, w))"

subsection \<open>trait PmArea\<close>

datatype 'f pm_area = PmFixed pm_area_fixed | PmLazy "'f pm_area_lazy"

fun pma_size :: "'f pm_area \<Rightarrow> usize" where
  "pma_size (PmFixed a) = fixed_size a"
| "pma_size (PmLazy a) = lazy_size a"

fun pma_clone_as_fork :: "'f pm_area \<Rightarrow> 'f pm_area os_result" where
  "pma_clone_as_fork (PmFixed a) = Ok (PmFixed (fixed_clone_as_fork a))"
| "pma_clone_as_fork (PmLazy a) = map_sum id PmLazy (lazy_clone_as_fork a)"

fun pma_get_frame ::
  "bit_field16 \<Rightarrow> ('f, 's area_world) file_ops \<Rightarrow> 'f pm_area \<Rightarrow> usize \<Rightarrow> bool \<Rightarrow> 's area_world \<Rightarrow>
     (usize option os_result \<times> 'f pm_area \<times> 's area_world) option" where
  "pma_get_frame bf fo (PmFixed a) idx need_alloc w = Some (Ok (Some (fixed_get_frame a idx)), PmFixed a, w)"
| "pma_get_frame bf fo (PmLazy a) idx need_alloc w =
     map_option (\<lambda>(r, a, w). (r, PmLazy a, w)) (lazy_get_frame bf fo a idx need_alloc w)"

fun pma_sync_frame_with_file ::
  "('f, 's area_world) file_ops \<Rightarrow> 'f pm_area \<Rightarrow> usize \<Rightarrow> 's area_world \<Rightarrow> 's area_world option" where
  "pma_sync_frame_with_file fo (PmFixed a) idx w = Some w"
| "pma_sync_frame_with_file fo (PmLazy a) idx w = lazy_sync_frame_with_file fo a idx w"

fun pma_release_frame ::
  "bit_field16 \<Rightarrow> ('f, 's area_world) file_ops \<Rightarrow> 'f pm_area \<Rightarrow> usize \<Rightarrow> 's area_world \<Rightarrow>
     (unit os_result \<times> 'f pm_area \<times> 's area_world) option" where
  "pma_release_frame bf fo (PmFixed a) idx w = Some (Ok (), PmFixed a, w)"
| "pma_release_frame bf fo (PmLazy a) idx w =
     map_option (\<lambda>(r, a, w). (r, PmLazy a, w)) (lazy_release_frame bf fo a idx w)"

fun pma_split ::
  "bit_field16 \<Rightarrow> ('f, 's area_world) file_ops \<Rightarrow> 'f pm_area \<Rightarrow> usize \<Rightarrow> usize \<Rightarrow> 's area_world \<Rightarrow>
     ('f pm_area os_result \<times> 'f pm_area \<times> 's area_world) option" where
  "pma_split bf fo (PmFixed a) left_end right_start w =
     map_option (\<lambda>(r, a). (map_sum id PmFixed r, PmFixed a, w)) (fixed_split a left_end right_start)"
| "pma_split bf fo (PmLazy a) left_end right_start w =
     map_option (\<lambda>(r, a, w). (map_sum id PmLazy r, PmLazy a, w)) (lazy_split bf fo a left_end right_start w)"

fun pma_read ::
  "bit_field16 \<Rightarrow> 'f pm_area \<Rightarrow> usize \<Rightarrow> byte list \<Rightarrow> machine \<Rightarrow>
     (usize os_result \<times> 'f pm_area \<times> byte list \<times> machine) option" where
  "pma_read bf (PmFixed a) offset dst m = map_option (\<lambda>(r, dst). (r, PmFixed a, dst, m)) (fixed_read a offset dst m)"
| "pma_read bf (PmLazy a) offset dst m =
     map_option (\<lambda>(r, a, dst, m). (map_sum id of_nat r, PmLazy a, dst, m)) (lazy_read bf a (unat offset) dst m)"

fun pma_write ::
  "bit_field16 \<Rightarrow> 'f pm_area \<Rightarrow> usize \<Rightarrow> byte list \<Rightarrow> machine \<Rightarrow> (usize os_result \<times> 'f pm_area \<times> machine) option" where
  "pma_write bf (PmFixed a) offset src m = map_option (\<lambda>(r, m). (r, PmFixed a, m)) (fixed_write a offset src m)"
| "pma_write bf (PmLazy a) offset src m =
     map_option (\<lambda>(r, a, _, m). (map_sum id of_nat r, PmLazy a, m)) (lazy_write bf a (unat offset) src m)"

text \<open>A physical area that goes out of scope drops the frames it holds.\<close>

fun pma_drop :: "bit_field16 \<Rightarrow> 'f pm_area \<Rightarrow> machine \<Rightarrow> machine option" where
  "pma_drop bf (PmFixed a) m = Some m"
| "pma_drop bf (PmLazy a) m = drop_slots bf (lz_frames a) m"

subsection \<open>VmArea\<close>

record 'f vm_area =
  vma_start :: usize
  vma_end :: usize
  vma_flags :: pte_flags
  vma_pma :: "'f pm_area"
  vma_name :: string

definition vma_new :: "usize \<Rightarrow> usize \<Rightarrow> pte_flags \<Rightarrow> 'f pm_area \<Rightarrow> string \<Rightarrow> 'f vm_area os_result" where
  "vma_new start end' fl pma name =
     (if start \<ge> end' then Err VmArea_InvalidRange
      else let start = align_down start; end' = align_up end'
        in if end' - start \<noteq> pma_size pma then Err VmArea_VmSizeNotEqualToPmSize
           else Ok \<lparr>vma_start = start, vma_end = end', vma_flags = fl, vma_pma = pma, vma_name = name\<rparr>)"

definition from_fixed_pma :: "usize \<Rightarrow> usize \<Rightarrow> usize \<Rightarrow> pte_flags \<Rightarrow> string \<Rightarrow> 'f vm_area os_result" where
  "from_fixed_pma sp ep offset fl name =
     (case fixed_new sp ep of
        Inl e \<Rightarrow> Err e
      | Inr a \<Rightarrow> vma_new (sp + offset) (ep + offset) fl (PmFixed a) name)"

definition from_fixed_pma_negative_offset ::
  "usize \<Rightarrow> usize \<Rightarrow> usize \<Rightarrow> pte_flags \<Rightarrow> string \<Rightarrow> 'f vm_area os_result" where
  "from_fixed_pma_negative_offset sp ep offset fl name =
     (case fixed_new sp ep of
        Inl e \<Rightarrow> Err e
      | Inr a \<Rightarrow> vma_new (sp - offset) (ep - offset) fl (PmFixed a) name)"

definition from_identical_pma :: "usize \<Rightarrow> usize \<Rightarrow> pte_flags \<Rightarrow> string \<Rightarrow> 'f vm_area os_result" where
  "from_identical_pma start_vaddr end_vaddr fl name =
     (case fixed_new start_vaddr end_vaddr of
        Inl e \<Rightarrow> Err e
      | Inr a \<Rightarrow> vma_new start_vaddr end_vaddr fl (PmFixed a) name)"

definition from_delay_pma :: "usize \<Rightarrow> usize \<Rightarrow> pte_flags \<Rightarrow> string \<Rightarrow> 'f vm_area os_result" where
  "from_delay_pma start_vaddr sz fl name =
     (case lazy_new sz None of
        Inl e \<Rightarrow> Err e
      | Inr a \<Rightarrow> vma_new start_vaddr (start_vaddr + sz) fl (PmLazy a) name)"

definition vma_contains :: "'f vm_area \<Rightarrow> usize \<Rightarrow> bool" where
  "vma_contains self vaddr \<longleftrightarrow> vma_start self \<le> vaddr \<and> vaddr < vma_end self"

definition vma_is_overlap_with :: "'f vm_area \<Rightarrow> usize \<Rightarrow> usize \<Rightarrow> bool" where
  "vma_is_overlap_with self start end' \<longleftrightarrow>
     \<not> (vma_end self \<le> align_down start \<or> vma_start self \<ge> align_up end')"

definition vma_is_user :: "'f vm_area \<Rightarrow> bool" where
  "vma_is_user self \<longleftrightarrow> flags_contains (vma_flags self) USER"

text \<open>\<^verbatim>\<open>(start..end).step_by(PAGE_SIZE)\<close>\<close>

definition page_steps :: "usize \<Rightarrow> usize \<Rightarrow> usize list" where
  "page_steps start end' =
     (if start < end' then map (\<lambda>i. start + of_nat (i * 4096)) [0..<(unat (end' - start) + 4095) div 4096] else [])"

fun msync_loop ::
  "('f, 's area_world) file_ops \<Rightarrow> 'f vm_area \<Rightarrow> usize list \<Rightarrow> 's area_world \<Rightarrow> 's area_world option" where
  "msync_loop fo self [] w = Some w"
| "msync_loop fo self (vaddr # vs) w =
     pma_sync_frame_with_file fo (vma_pma self) ((vaddr - vma_start self) div PAGE_SIZE) w \<bind> msync_loop fo self vs"

definition vma_msync ::
  "('f, 's area_world) file_ops \<Rightarrow> 'f vm_area \<Rightarrow> usize \<Rightarrow> usize \<Rightarrow> 's area_world \<Rightarrow> 's area_world option" where
  "vma_msync fo self start end' w =
     msync_loop fo self (page_steps (max start (vma_start self)) (min end' (vma_end self))) w"

text \<open>The loops over the pages of an area; \<open>self\<close> carries the physical area as it changes. \<^verbatim>\<open>unwrap\<close> of \<^verbatim>\<open>set_flags\<close> panics on an
  error.\<close>

fun modify_area_flags_loop ::
  "bit_field16 \<Rightarrow> ('f, 's area_world) file_ops \<Rightarrow> usize list \<Rightarrow> 'f vm_area \<Rightarrow> page_table \<Rightarrow> 's area_world \<Rightarrow>
     (unit os_result \<times> 'f vm_area \<times> page_table \<times> 's area_world) option" where
  "modify_area_flags_loop bf fo [] self pt w = Some (Ok (), self, pt, w)"
| "modify_area_flags_loop bf fo (vaddr # vs) self pt w =
     (case pma_get_frame bf fo (vma_pma self) ((vaddr - vma_start self) div PAGE_SIZE) False w of
        None \<Rightarrow> None
      | Some (Inl e, pma, w) \<Rightarrow> Some (Err e, self\<lparr>vma_pma := pma\<rparr>, pt, w)
      | Some (Inr None, pma, w) \<Rightarrow> modify_area_flags_loop bf fo vs (self\<lparr>vma_pma := pma\<rparr>) pt w
      | Some (Inr (Some _), pma, m, s) \<Rightarrow>
          (case pt_set_flags bf pt vaddr (vma_flags self) m of
             Some (Inr _, pt, m) \<Rightarrow> modify_area_flags_loop bf fo vs (self\<lparr>vma_pma := pma\<rparr>) pt (m, s)
           | _ \<Rightarrow> None))"

definition modify_area_flags ::
  "bit_field16 \<Rightarrow> ('f, 's area_world) file_ops \<Rightarrow> 'f vm_area \<Rightarrow> page_table \<Rightarrow> 's area_world \<Rightarrow>
     (unit os_result \<times> 'f vm_area \<times> page_table \<times> 's area_world) option" where
  "modify_area_flags bf fo self pt w =
     modify_area_flags_loop bf fo (page_steps (vma_start self) (vma_end self)) self pt w"

fun map_area_loop ::
  "bit_field16 \<Rightarrow> ('f, 's area_world) file_ops \<Rightarrow> usize list \<Rightarrow> 'f vm_area \<Rightarrow> page_table \<Rightarrow> 's area_world \<Rightarrow>
     (unit os_result \<times> 'f vm_area \<times> page_table \<times> 's area_world) option" where
  "map_area_loop bf fo [] self pt w = Some (Ok (), self, pt, w)"
| "map_area_loop bf fo (vaddr # vs) self pt w =
     (case pma_get_frame bf fo (vma_pma self) ((vaddr - vma_start self) div PAGE_SIZE) False w of
        None \<Rightarrow> None
      | Some (Inl e, pma, w) \<Rightarrow> Some (Err e, self\<lparr>vma_pma := pma\<rparr>, pt, w)
      | Some (Inr page, pma, m, s) \<Rightarrow>
          (case (case page of
                   Some paddr \<Rightarrow> pt_map bf pt vaddr paddr (vma_flags self) m
                 | None \<Rightarrow> pt_map bf pt vaddr 0 0 m) of
             None \<Rightarrow> None
           | Some (Inl e, pt, m) \<Rightarrow> Some (Err e, self\<lparr>vma_pma := pma\<rparr>, pt, (m, s))
           | Some (Inr _, pt, m) \<Rightarrow> map_area_loop bf fo vs (self\<lparr>vma_pma := pma\<rparr>) pt (m, s)))"

definition map_area ::
  "bit_field16 \<Rightarrow> ('f, 's area_world) file_ops \<Rightarrow> 'f vm_area \<Rightarrow> page_table \<Rightarrow> 's area_world \<Rightarrow>
     (unit os_result \<times> 'f vm_area \<times> page_table \<times> 's area_world) option" where
  "map_area bf fo self pt w = map_area_loop bf fo (page_steps (vma_start self) (vma_end self)) self pt w"

fun unmap_area_loop ::
  "bit_field16 \<Rightarrow> ('f, 's area_world) file_ops \<Rightarrow> usize list \<Rightarrow> 'f vm_area \<Rightarrow> page_table \<Rightarrow> 's area_world \<Rightarrow>
     (unit os_result \<times> 'f vm_area \<times> page_table \<times> 's area_world) option" where
  "unmap_area_loop bf fo [] self pt w = Some (Ok (), self, pt, w)"
| "unmap_area_loop bf fo (vaddr # vs) self pt w =
     (case pma_release_frame bf fo (vma_pma self) ((vaddr - vma_start self) div PAGE_SIZE) w of
        None \<Rightarrow> None
      | Some (res, pma, m, s) \<Rightarrow>
          let self = self\<lparr>vma_pma := pma\<rparr>
          in if res \<noteq> Err PmAreaLazy_ReleaseNotAllocatedPage then
               (case res of
                  Inl e \<Rightarrow> Some (Err e, self, pt, (m, s))
                | Inr _ \<Rightarrow>
                    (case pt_unmap pt vaddr m of
                       (Inl e, m) \<Rightarrow> Some (Err e, self, pt, (m, s))
                     | (Inr _, m) \<Rightarrow> unmap_area_loop bf fo vs self pt (m, s)))
             else unmap_area_loop bf fo vs self pt (m, s))"

definition unmap_area_partial ::
  "bit_field16 \<Rightarrow> ('f, 's area_world) file_ops \<Rightarrow> 'f vm_area \<Rightarrow> page_table \<Rightarrow> usize \<Rightarrow> usize \<Rightarrow> 's area_world \<Rightarrow>
     (unit os_result \<times> 'f vm_area \<times> page_table \<times> 's area_world) option" where
  "unmap_area_partial bf fo self pt start end' w = unmap_area_loop bf fo (page_steps start end') self pt w"

definition unmap_area ::
  "bit_field16 \<Rightarrow> ('f, 's area_world) file_ops \<Rightarrow> 'f vm_area \<Rightarrow> page_table \<Rightarrow> 's area_world \<Rightarrow>
     (unit os_result \<times> 'f vm_area \<times> page_table \<times> 's area_world) option" where
  "unmap_area bf fo self pt w = unmap_area_partial bf fo self pt (vma_start self) (vma_end self) w"

text \<open>\<^verbatim>\<open>copy_to_new_area_empty\<close> and \<^verbatim>\<open>copy_to_new_area_with_data\<close>. When the copy fails, the new area and the frames it has got are
  dropped.\<close>

definition copy_to_new_area_empty :: "'f vm_area \<Rightarrow> 'f vm_area os_result" where
  "copy_to_new_area_empty self =
     (case pma_clone_as_fork (vma_pma self) of
        Inl e \<Rightarrow> Err e
      | Inr pma \<Rightarrow> Ok \<lparr>vma_start = vma_start self, vma_end = vma_end self, vma_flags = vma_flags self, vma_pma = pma,
                     vma_name = vma_name self\<rparr>)"

fun copy_data_loop ::
  "bit_field16 \<Rightarrow> ('f, 's area_world) file_ops \<Rightarrow> usize list \<Rightarrow> usize \<Rightarrow> 'f pm_area \<Rightarrow> 'f pm_area \<Rightarrow> 's area_world \<Rightarrow>
     (unit os_result \<times> 'f pm_area \<times> 'f pm_area \<times> 's area_world) option" where
  "copy_data_loop bf fo [] start new_pma old_pma w = Some (Ok (), new_pma, old_pma, w)"
| "copy_data_loop bf fo (vaddr # vs) start new_pma old_pma w =
     (case pma_get_frame bf fo old_pma ((vaddr - start) div PAGE_SIZE) False w of
        None \<Rightarrow> None
      | Some (Inl e, old_pma, w) \<Rightarrow> Some (Err e, new_pma, old_pma, w)
      | Some (Inr None, old_pma, w) \<Rightarrow> copy_data_loop bf fo vs start new_pma old_pma w
      | Some (Inr (Some old_paddr), old_pma, w) \<Rightarrow>
          (case pma_get_frame bf fo new_pma ((vaddr - start) div PAGE_SIZE) True w of
             None \<Rightarrow> None
           | Some (Inl e, new_pma, w) \<Rightarrow> Some (Err e, new_pma, old_pma, w)
           | Some (Inr None, new_pma, w) \<Rightarrow> None
           | Some (Inr (Some new_paddr), new_pma, m, s) \<Rightarrow>
               let src = mem_read (mem m) (phys_to_virt old_paddr) (unat PAGE_SIZE)
               in copy_data_loop bf fo vs start new_pma old_pma
                    (m\<lparr>mem := mem_write (mem m) (phys_to_virt new_paddr) src\<rparr>, s)))"

definition copy_to_new_area_with_data ::
  "bit_field16 \<Rightarrow> ('f, 's area_world) file_ops \<Rightarrow> 'f vm_area \<Rightarrow> 's area_world \<Rightarrow>
     ('f vm_area os_result \<times> 'f vm_area \<times> 's area_world) option" where
  "copy_to_new_area_with_data bf fo self w =
     (case copy_to_new_area_empty self of
        Inl e \<Rightarrow> Some (Err e, self, w)
      | Inr new_area \<Rightarrow>
          (case copy_data_loop bf fo (page_steps (vma_start self) (vma_end self)) (vma_start self)
                  (vma_pma new_area) (vma_pma self) w of
             None \<Rightarrow> None
           | Some (Inl e, new_pma, old_pma, m, s) \<Rightarrow>
               map_option (\<lambda>m. (Err e, self\<lparr>vma_pma := old_pma\<rparr>, m, s)) (pma_drop bf new_pma m)
           | Some (Inr _, new_pma, old_pma, w) \<Rightarrow>
               Some (Ok (new_area\<lparr>vma_pma := new_pma\<rparr>), self\<lparr>vma_pma := old_pma\<rparr>, w)))"

definition vma_handle_page_fault ::
  "bit_field16 \<Rightarrow> ('f, 's area_world) file_ops \<Rightarrow> 'f vm_area \<Rightarrow> usize \<Rightarrow> pte_flags \<Rightarrow> page_table \<Rightarrow> 's area_world \<Rightarrow>
     (unit os_result \<times> 'f vm_area \<times> page_table \<times> 's area_world) option" where
  "vma_handle_page_fault bf fo self offset access_flags pt w =
     (if \<not> flags_contains (vma_flags self) access_flags then Some (Err PageFaultHandler_AccessDenied, self, pt, w)
      else let offset = align_down offset; vaddr = vma_start self + offset
        in case pma_get_frame bf fo (vma_pma self) (offset div PAGE_SIZE) True w of
             None \<Rightarrow> None
           | Some (Inl e, pma, w) \<Rightarrow> Some (Err e, self\<lparr>vma_pma := pma\<rparr>, pt, w)
           | Some (Inr None, pma, w) \<Rightarrow> Some (Err Memory_RunOutOfMemory, self\<lparr>vma_pma := pma\<rparr>, pt, w)
           | Some (Inr (Some paddr), pma, m, s) \<Rightarrow>
               (case get_entry pt vaddr m of
                  None \<Rightarrow> Some (Err PageTable_PageNotMapped, self\<lparr>vma_pma := pma\<rparr>, pt, (m, s))
                | Some pte \<Rightarrow>
                    if is_valid (load_pte m pte)
                    then Some (Err PageFaultHandler_TrapAtValidPage, self\<lparr>vma_pma := pma\<rparr>, pt, (m, s))
                    else Some (Ok (), self\<lparr>vma_pma := pma\<rparr>, pt,
                      (store_pte pte (set_all (load_pte m pte) paddr (vma_flags self OR VALID OR ACCESS OR DIRTY)) m, s))))"

definition vma_manually_alloc_page ::
  "bit_field16 \<Rightarrow> ('f, 's area_world) file_ops \<Rightarrow> 'f vm_area \<Rightarrow> usize \<Rightarrow> page_table \<Rightarrow> 's area_world \<Rightarrow>
     (unit os_result \<times> 'f vm_area \<times> page_table \<times> 's area_world) option" where
  "vma_manually_alloc_page bf fo self offset pt w =
     (let offset = align_down offset; vaddr = vma_start self + offset
      in case pma_get_frame bf fo (vma_pma self) (offset div PAGE_SIZE) True w of
           None \<Rightarrow> None
         | Some (Inl e, pma, w) \<Rightarrow> Some (Err e, self\<lparr>vma_pma := pma\<rparr>, pt, w)
         | Some (Inr None, pma, w) \<Rightarrow> Some (Err Memory_RunOutOfMemory, self\<lparr>vma_pma := pma\<rparr>, pt, w)
         | Some (Inr (Some paddr), pma, m, s) \<Rightarrow>
             (case get_entry pt vaddr m of
                None \<Rightarrow> Some (Err PageTable_PageNotMapped, self\<lparr>vma_pma := pma\<rparr>, pt, (m, s))
              | Some pte \<Rightarrow>
                  Some (Ok (), self\<lparr>vma_pma := pma\<rparr>, pt,
                    (if \<not> is_valid (load_pte m pte)
                     then store_pte pte (set_all (load_pte m pte) paddr (vma_flags self OR VALID OR ACCESS OR DIRTY)) m
                     else m, s))))"

subsection \<open>impl Segment for VmArea\<close>

text \<open>\<^verbatim>\<open>args\<close> is the address of the page table; here the page table is part of the world. Every flag byte is a valid
  \<^verbatim>\<open>PTEFlags\<close>, so \<^verbatim>\<open>from_bits\<close> does not fail.\<close>

type_synonym 's vm_world = "page_table \<times> 's area_world"

definition vma_modify ::
  "bit_field16 \<Rightarrow> ('f, 's area_world) file_ops \<Rightarrow> 'f vm_area \<Rightarrow> usize \<Rightarrow> usize \<Rightarrow> 's vm_world \<Rightarrow>
     ('f vm_area \<times> 's vm_world) option" where
  "vma_modify bf fo self new_flag args w =
     (case modify_area_flags bf fo (self\<lparr>vma_flags := ucast new_flag\<rparr>) (fst w) (snd w) of
        Some (Inr _, self, pt, w) \<Rightarrow> Some (self, pt, w)
      | _ \<Rightarrow> None)"

definition vma_remove ::
  "bit_field16 \<Rightarrow> ('f, 's area_world) file_ops \<Rightarrow> 'f vm_area \<Rightarrow> usize \<Rightarrow> 's vm_world \<Rightarrow>
     ('f vm_area \<times> 's vm_world) option" where
  "vma_remove bf fo self args w =
     (case unmap_area bf fo self (fst w) (snd w) of
        Some (Inr _, self, pt, w) \<Rightarrow> Some (self, pt, w)
      | _ \<Rightarrow> None)"

definition vma_split ::
  "bit_field16 \<Rightarrow> ('f, 's area_world) file_ops \<Rightarrow> 'f vm_area \<Rightarrow> usize \<Rightarrow> usize \<Rightarrow> 's vm_world \<Rightarrow>
     ('f vm_area \<times> 'f vm_area \<times> 's vm_world) option" where
  "vma_split bf fo self pos args w =
     (let old_end = vma_end self; self = self\<lparr>vma_end := pos\<rparr>
      in case pma_split bf fo (vma_pma self) (pos - vma_start self) (pos - vma_start self) (snd w) of
           Some (Inr right_pma, pma, w') \<Rightarrow>
             (case vma_new pos old_end (vma_flags self) right_pma (vma_name self) of
                Inr right \<Rightarrow> Some (self\<lparr>vma_pma := pma\<rparr>, right, fst w, w')
              | Inl _ \<Rightarrow> None)
         | _ \<Rightarrow> None)"

definition vma_ops :: "bit_field16 \<Rightarrow> ('f, 's area_world) file_ops \<Rightarrow> ('f vm_area, 's vm_world) segment_ops" where
  "vma_ops bf fo = \<lparr>seg_remove = vma_remove bf fo, seg_split = vma_split bf fo, seg_modify = vma_modify bf fo\<rparr>"

subsection \<open>VmArea implements the interval map's contract\<close>

text \<open>What an area stores for one byte: its physical address, or the frame (if there is one yet) and the byte's position in the
  backend file.\<close>

datatype 'f backing = BackFixed usize | BackLazy "frame option" "'f backend_file option"

fun pma_at :: "'f pm_area \<Rightarrow> usize \<Rightarrow> 'f backing" where
  "pma_at (PmFixed a) off = BackFixed (fx_start a + off)"
| "pma_at (PmLazy a) off =
     BackLazy (lz_frames a ! (unat off div 4096)) (map_option (\<lambda>b. backend_split b off) (lz_backend a))"

definition vma_attr :: "'f vm_area \<Rightarrow> usize \<Rightarrow> pte_flags \<times> 'f backing" where
  "vma_attr vma p = (vma_flags vma, pma_at (vma_pma vma) (p - vma_start vma))"

definition vma_upd :: "usize \<Rightarrow> pte_flags \<times> 'f backing \<Rightarrow> pte_flags \<times> 'f backing" where
  "vma_upd f = apfst (\<lambda>_. ucast f)"

text \<open>A physical area of \<open>n\<close> bytes, and a virtual area that covers \<open>[s, e)\<close>.\<close>

fun pma_ok :: "'f pm_area \<Rightarrow> nat \<Rightarrow> bool" where
  "pma_ok (PmFixed a) n \<longleftrightarrow> page_aligned (fx_start a) \<and> unat (fx_end a) = unat (fx_start a) + n"
| "pma_ok (PmLazy a) n \<longleftrightarrow> length (lz_frames a) * 4096 = n"

definition vma_covers :: "'f vm_area \<Rightarrow> usize \<Rightarrow> usize \<Rightarrow> bool" where
  "vma_covers vma s e \<longleftrightarrow> vma_start vma = s \<and> vma_end vma = e \<and> s < e \<and> page_aligned s \<and> page_aligned e \<and>
     pma_ok (vma_pma vma) (unat (e - s))"

lemma align_down_of_aligned: "page_aligned a \<Longrightarrow> align_down a = a"
  using align_down_split [of a] by simp

lemma align_up_of_aligned: assumes "page_aligned a" shows "align_up a = a"
proof -
  have "unat a mod 4096 = 0" using assms by (simp add: page_aligned_iff)
  then obtain q where q: "unat a = q * 4096" by (metis mod_eq_0_iff_dvd dvd_div_mult_self)
  have "q * 4096 < 18446744073709551616" using unat64_less [of a] q by simp
  then have "unat a + 4095 < 2 ^ 64" using q by simp
  then have "unat (align_up a) = (unat a + 4095) div 4096 * 4096" by (rule unat_align_up)
  moreover have "(unat a + 4095) div 4096 * 4096 = unat a" using q by simp
  ultimately show ?thesis by (simp add: word_unat_eq_iff)
qed

lemma aligned_diff: "page_aligned a \<Longrightarrow> page_aligned b \<Longrightarrow> b \<le> a \<Longrightarrow> page_aligned (a - b)"
  by (simp add: page_aligned_iff unat_sub_le) (metis mod_eq_0_iff_dvd dvd_diff_nat)

lemma pma_ok_size:
  assumes "pma_ok pma (unat n)" shows "pma_size pma = n"
proof (cases pma)
  case (PmLazy a)
  then have "of_nat (length (lz_frames a) * 4096) = n" using assms by simp
  then show ?thesis using PmLazy by (simp add: lazy_size_def PAGE_SIZE_def)
qed (use assms in \<open>auto simp: fixed_size_def word_unat_eq_iff unat_sub_le word_le_unat\<close>)

lemma lazy_split_at:
  assumes "pos < lazy_size a"
  shows "lazy_split bf fo a pos pos w =
    Some (Ok (new_from_frames (drop (unat pos div 4096) (lz_frames a)) (map_option (\<lambda>b. backend_split b pos) (lz_backend a))),
      a\<lparr>lz_frames := take (unat pos div 4096) (lz_frames a)\<rparr>, w)"
  using assms by (cases w) (simp add: lazy_split_def unat_addr_to_page_id Let_def drop_slots_def)

lemma pma_split_at:
  assumes ok: "pma_ok pma n" and pos: "0 < pos" "unat pos < n" "page_aligned pos" and n: "n mod 4096 = 0" "n < 18446744073709551616"
  obtains l r where "pma_split bf fo pma pos pos w = Some (Ok r, l, w)" "pma_ok l (unat pos)" "pma_ok r (n - unat pos)"
    "\<forall>off. off < pos \<longrightarrow> pma_at l off = pma_at pma off"
    "\<forall>off. unat pos + unat off < n \<longrightarrow> pma_at r off = pma_at pma (pos + off)"
proof (cases pma)
  case (PmFixed a)
  have e: "unat (fx_end a) = unat (fx_start a) + n" "page_aligned (fx_start a)" using ok PmFixed by simp_all
  have u: "unat (fx_start a + pos) = unat (fx_start a) + unat pos"
    using e pos(2) unat64_less [of "fx_end a"] by (intro unat_add_small) simp
  have al: "page_aligned (fx_start a + pos)" "page_aligned (fx_end a)"
    using e pos(3) u n by (simp_all add: page_aligned_iff mod_add_eq [symmetric])
  have lt: "pos < fx_end a - fx_start a" "fx_start a + pos < fx_end a"
    using e pos(2) u by (simp_all add: word_less_unat unat_sub_le word_le_unat)
  show ?thesis
    by (rule that [where l = "PmFixed (a\<lparr>fx_end := fx_start a + pos\<rparr>)"
          and r = "PmFixed \<lparr>fx_start = fx_start a + pos, fx_end = fx_end a\<rparr>"])
      (use PmFixed e u al lt pos in \<open>simp_all add: fixed_split_def fixed_new_def align_down_of_aligned
         align_up_of_aligned not_le add.assoc\<close>)
next
  case (PmLazy a)
  have len: "length (lz_frames a) * 4096 = n" using ok PmLazy by simp
  obtain k where k: "unat pos = k * 4096" using pos(3) by (auto simp: page_aligned_iff mod_eq_0_iff_dvd dvd_def mult.commute)
  have "unat (of_nat n :: usize) = n" using n(2) by (simp add: unat_of_nat)
  then have "pma_ok pma (unat (of_nat n :: usize))" using ok by simp
  then have "pma_size pma = of_nat n" by (rule pma_ok_size)
  then have sz: "pos < lazy_size a" using PmLazy pos(2) n(2) by (simp add: word_less_unat unat_of_nat)
  have sp: "lazy_split bf fo a pos pos w = Some (Ok (new_from_frames (drop k (lz_frames a))
      (map_option (\<lambda>b. backend_split b pos) (lz_backend a))), a\<lparr>lz_frames := take k (lz_frames a)\<rparr>, w)"
    using lazy_split_at [OF sz] k by simp
  have at: "unat (pos + off) div 4096 = k + unat off div 4096" if "unat pos + unat off < n" for off
    using that n(2) k by (simp add: unat_add_small)
  show ?thesis
    by (rule that [where l = "PmLazy (a\<lparr>lz_frames := take k (lz_frames a)\<rparr>)"
          and r = "PmLazy (new_from_frames (drop k (lz_frames a)) (map_option (\<lambda>b. backend_split b pos) (lz_backend a)))"])
      (use PmLazy sp at k pos(2) len in \<open>auto simp: new_from_frames_def word_less_unat
         backend_split_def add.assoc option.map_comp comp_def\<close>)
qed

lemma vma_split_ok:
  assumes c: "vma_covers vma s e" and pos: "page_aligned pos" "s < pos" "pos < e"
  obtains l r where "vma_split bf fo vma pos args w = Some (l, r, w)" "vma_covers l s pos" "vma_covers r pos e"
    "\<forall>p. s \<le> p \<and> p < pos \<longrightarrow> vma_attr l p = vma_attr vma p"
    "\<forall>p. pos \<le> p \<and> p < e \<longrightarrow> vma_attr r p = vma_attr vma p"
proof -
  have v: "vma_start vma = s" "vma_end vma = e" "s < e" "page_aligned s" "page_aligned e"
    "pma_ok (vma_pma vma) (unat (e - s))" using c by (simp_all add: vma_covers_def)
  have d: "unat (pos - s) < unat (e - s)" "unat (e - s) - unat (pos - s) = unat (e - pos)" "0 < pos - s"
    using pos(2,3) by (simp_all add: unat_sub_le word_less_unat word_le_unat)
  have al: "page_aligned (pos - s)" "unat (e - s) mod 4096 = 0"
    using aligned_diff [OF pos(1) v(4)] aligned_diff [OF v(5) v(4)] pos(2) v(3) by (simp_all add: page_aligned_iff)
  obtain l r where sp: "pma_split bf fo (vma_pma vma) (pos - s) (pos - s) (snd w) = Some (Ok r, l, snd w)"
    and ok: "pma_ok l (unat (pos - s))" "pma_ok r (unat (e - pos))"
    and at: "\<forall>off. off < pos - s \<longrightarrow> pma_at l off = pma_at (vma_pma vma) off"
      "\<forall>off. unat (pos - s) + unat off < unat (e - s) \<longrightarrow> pma_at r off = pma_at (vma_pma vma) (pos - s + off)"
    using pma_split_at [OF v(6) d(3,1) al unat64_less] d(2) by metis
  define r' where "r' = \<lparr>vma_start = pos, vma_end = e, vma_flags = vma_flags vma, vma_pma = r, vma_name = vma_name vma\<rparr>"
  have new: "vma_new pos e (vma_flags vma) r (vma_name vma) = Ok r'"
    using pos v(5) pma_ok_size [OF ok(2)]
    by (simp add: vma_new_def r'_def align_down_of_aligned align_up_of_aligned not_le)
  have "vma_split bf fo vma pos args w = Some (vma\<lparr>vma_end := pos, vma_pma := l\<rparr>, r', w)"
    using sp new v(1,2) by (cases w) (simp add: vma_split_def Let_def)
  moreover have "vma_attr r' p = vma_attr vma p" if p: "pos \<le> p" "p < e" for p
  proof -
    have "unat (pos - s) + unat (p - pos) < unat (e - s)"
      using p pos by (simp add: unat_sub_le word_less_unat word_le_unat)
    then show ?thesis using at(2) v(1) by (simp add: vma_attr_def r'_def)
  qed
  moreover have "vma_attr (vma\<lparr>vma_end := pos, vma_pma := l\<rparr>) p = vma_attr vma p" if p: "s \<le> p" "p < pos" for p
  proof -
    have "p - s < pos - s" using p pos by (simp add: unat_sub_le word_less_unat word_le_unat)
    then show ?thesis using at(1) v(1) by (simp add: vma_attr_def)
  qed
  ultimately show ?thesis using that v(1,4,5) pos ok by (simp add: vma_covers_def r'_def)
qed

text \<open>\<^verbatim>\<open>get_frame\<close> without allocation reads the area and changes nothing.\<close>

lemma pma_get_frame_noalloc:
  "pma_get_frame bf fo pma idx False w = Some (r, pma', w') \<Longrightarrow> pma' = pma \<and> w' = w"
  by (cases pma) (auto simp: lazy_get_frame_def at_def Let_def split: bind_splits)

lemma modify_area_flags_loop_keeps:
  "modify_area_flags_loop bf fo vs vma pt w = Some (r, vma', pt', w') \<Longrightarrow> vma' = vma"
proof (induction vs arbitrary: pt w)
  case (Cons v vs)
  then show ?case by (auto split: option.splits sum.splits prod.splits dest: pma_get_frame_noalloc)
qed simp

text \<open>The kernel's areas satisfy the contract of the interval map.\<close>

interpretation vma: segment "vma_ops bf fo" vma_covers vma_attr vma_upd page_aligned
  for bf :: bit_field16 and fo :: "('f, 's area_world) file_ops"
proof
  show "vma_covers l s pos \<and> vma_covers r pos e \<and>
       (\<forall>p. s \<le> p \<and> p < pos \<longrightarrow> vma_attr l p = vma_attr seg p) \<and>
       (\<forall>p. pos \<le> p \<and> p < e \<longrightarrow> vma_attr r p = vma_attr seg p)"
    if "vma_covers seg s e" "page_aligned pos" "s < pos" "pos < e" "seg_split (vma_ops bf fo) seg pos args w = Some (l, r, w')"
    for seg :: "'f vm_area" and s e pos args l r and w w' :: "'s vm_world"
    using vma_split_ok [OF that(1-4), where bf = bf and fo = fo and args = args and w = w] that(5) by (auto simp: vma_ops_def)
  show "vma_covers seg' s e \<and> (\<forall>p. s \<le> p \<and> p < e \<longrightarrow> vma_attr seg' p = vma_upd f (vma_attr seg p))"
    if "vma_covers seg s e" "seg_modify (vma_ops bf fo) seg f args w = Some (seg', w')"
    for seg seg' :: "'f vm_area" and s e f args and w w' :: "'s vm_world"
  proof -
    have "seg' = seg\<lparr>vma_flags := ucast f\<rparr>"
      using that(2) by (auto simp: vma_ops_def vma_modify_def modify_area_flags_def dest: modify_area_flags_loop_keeps
          split: option.splits sum.splits prod.splits)
    then show ?thesis using that(1) by (simp add: vma_covers_def vma_attr_def vma_upd_def)
  qed
qed

end
