(* ===== verification/Vmm.thy ===== *)
theory Vmm
  imports Areas
begin

text \<open>
  Memory sets, \<^verbatim>\<open>kernel/src/memory/vmm.rs\<close> and \<^verbatim>\<open>mod.rs\<close>: an interval map of virtual areas beside the page table they are
  entered in, and the checked user pointer of \<^verbatim>\<open>memory/user/user_ptr.rs\<close>.

  An area found in the map is changed through its lock; \<open>put_area\<close> stores it back. The address of the boxed page table,
  which the map only passes through, is the argument \<open>args\<close>. The addresses of the linker script and of the boot stack are
  the record \<open>layout\<close>. The static \<^verbatim>\<open>KERNEL_MEMORY_SET\<close> is an argument. TLB flushes, \<^verbatim>\<open>activate\<close> and logging are left out.
\<close>

definition PHYS_MEMORY_END :: usize where "PHYS_MEMORY_END = 0x88000000"
definition FIRST_CPU_ID :: usize where "FIRST_CPU_ID = 1"
definition CPU_ID_LIMIT :: usize where "CPU_ID_LIMIT = FIRST_CPU_ID + 4"
definition FS_IMG_SIZE :: usize where "FS_IMG_SIZE = 0x2000000"
definition DEVICE_START :: usize where "DEVICE_START = 0x90000000"
definition DEVICE_END :: usize where "DEVICE_END = DEVICE_START + FS_IMG_SIZE"

subsection \<open>MemorySet\<close>

record 'f memory_set =
  area_map :: "'f vm_area range_action_map"
  ms_pt :: page_table
  ms_is_user :: bool

definition new_kernel :: "bit_field16 \<Rightarrow> usize \<Rightarrow> machine \<Rightarrow> ('f memory_set \<times> machine) option" where
  "new_kernel bf args m =
     (case page_table_new bf m of
        Some (Inr pt, m) \<Rightarrow> Some (\<lparr>area_map = ram_new args, ms_pt = pt, ms_is_user = False\<rparr>, m)
      | _ \<Rightarrow> None)"

definition new_user :: "bit_field16 \<Rightarrow> usize \<Rightarrow> machine \<Rightarrow> ('f memory_set \<times> machine) option" where
  "new_user bf args m =
     (case page_table_new bf m of
        Some (Inr pt, m) \<Rightarrow> Some (\<lparr>area_map = ram_new args, ms_pt = pt, ms_is_user = True\<rparr>, m)
      | _ \<Rightarrow> None)"

definition put_area :: "'f vm_area range_action_map \<Rightarrow> usize \<Rightarrow> 'f vm_area \<Rightarrow> 'f vm_area range_action_map" where
  "put_area am pos vma =
     (case bt_last_le pos (segments am) of
        Some (k, a) \<Rightarrow> am\<lparr>segments := bt_insert k (a\<lparr>ra_segment := vma\<rparr>) (segments am)\<rparr>
      | None \<Rightarrow> am)"

definition munmap ::
  "bit_field16 \<Rightarrow> ('f, 's area_world) file_ops \<Rightarrow> 'f memory_set \<Rightarrow> usize \<Rightarrow> usize \<Rightarrow> 's area_world \<Rightarrow>
     (bool \<times> 'f memory_set \<times> 's area_world) option" where
  "munmap bf fo self start end' w = do {
     (am, pt, w) \<leftarrow> ram_unmap (vma_ops bf fo) (area_map self) start end' (ms_pt self, w);
     Some (True, self\<lparr>area_map := am, ms_pt := pt\<rparr>, w)
   }"

definition mprotect ::
  "bit_field16 \<Rightarrow> ('f, 's area_world) file_ops \<Rightarrow> 'f memory_set \<Rightarrow> usize \<Rightarrow> usize \<Rightarrow> pte_flags \<Rightarrow> 's area_world \<Rightarrow>
     (bool \<times> 'f memory_set \<times> 's area_world) option" where
  "mprotect bf fo self start end' new_flags w = do {
     (am, pt, w) \<leftarrow> ram_mprotect (vma_ops bf fo) (area_map self) start end' (ucast new_flags) (ms_pt self, w);
     Some (True, self\<lparr>area_map := am, ms_pt := pt\<rparr>, w)
   }"

text \<open>\<^verbatim>\<open>msync\<close> runs on every area that meets the range, in the order of the map.\<close>

fun msync_areas_loop ::
  "('f, 's area_world) file_ops \<Rightarrow> 'f vm_area list \<Rightarrow> usize \<Rightarrow> usize \<Rightarrow> 's area_world \<Rightarrow> (nat \<times> 's area_world) option" where
  "msync_areas_loop fo [] start end' w = Some (0, w)"
| "msync_areas_loop fo (seg # segs) start end' w =
     (if vma_is_overlap_with seg start end' then do {
        w \<leftarrow> vma_msync fo seg start end' w;
        (n, w) \<leftarrow> msync_areas_loop fo segs start end' w;
        Some (Suc n, w)
      }
      else msync_areas_loop fo segs start end' w)"

definition msync_areas ::
  "('f, 's area_world) file_ops \<Rightarrow> 'f memory_set \<Rightarrow> usize \<Rightarrow> usize \<Rightarrow> 's area_world \<Rightarrow>
     (unit os_result \<times> 's area_world) option" where
  "msync_areas fo self start end' w = do {
     (n, w) \<leftarrow> msync_areas_loop fo (ram_iter (area_map self)) start end' w;
     Some (if n > 0 then Ok () else Err MemorySet_AreaNotMapped, w)
   }"

text \<open>The closures of \<^verbatim>\<open>push_with_backend\<close> build a lazy area and enter it in the page table; each step is unwrapped.\<close>

definition mmap_segment ::
  "bit_field16 \<Rightarrow> ('f, 's area_world) file_ops \<Rightarrow> pte_flags \<Rightarrow> 'f backend_file option \<Rightarrow> usize \<Rightarrow> usize \<Rightarrow> 's vm_world \<Rightarrow>
     ('f vm_area \<times> 's vm_world) option" where
  "mmap_segment bf fo fl backend start end' w =
     (case lazy_new (page_count (end' - start)) backend of
        Inl _ \<Rightarrow> None
      | Inr pma \<Rightarrow>
          (case vma_new start end' fl (PmLazy pma) ''from mmap'' of
             Inl _ \<Rightarrow> None
           | Inr area \<Rightarrow>
               (case map_area bf fo area (fst w) (snd w) of
                  Some (Inr _, area, pt, w) \<Rightarrow> Some (area, pt, w)
                | _ \<Rightarrow> None)))"

definition push_with_backend ::
  "bit_field16 \<Rightarrow> ('f, 's area_world) file_ops \<Rightarrow> 'f memory_set \<Rightarrow> usize \<Rightarrow> usize \<Rightarrow> pte_flags \<Rightarrow> 'f backend_file option \<Rightarrow>
     bool \<Rightarrow> 's area_world \<Rightarrow> (usize os_result \<times> 'f memory_set \<times> 's area_world) option" where
  "push_with_backend bf fo self start end' fl backend anywhere w =
     (if \<not> anywhere \<and> end' \<ge> USER_VIRT_ADDR_LIMIT then Some (Err MemorySet_UserMmapIntersectWithKernel, self, w)
      else let len = end' - start
        in if anywhere then do {
             (r, am, pt, w) \<leftarrow> mmap_anywhere (area_map self) start (end' - start)
                (\<lambda>start. mmap_segment bf fo fl backend start (len + start)) (ms_pt self, w);
             start \<leftarrow> r;
             Some (Ok start, self\<lparr>area_map := am, ms_pt := pt\<rparr>, w)
           }
           else do {
             (r, am, pt, w) \<leftarrow> mmap_fixed (vma_ops bf fo) (area_map self) start end'
                (mmap_segment bf fo fl backend start end') (ms_pt self, w);
             start \<leftarrow> r;
             Some (Ok start, self\<lparr>area_map := am, ms_pt := pt\<rparr>, w)
           })"

definition ms_push ::
  "bit_field16 \<Rightarrow> ('f, 's area_world) file_ops \<Rightarrow> 'f memory_set \<Rightarrow> 'f vm_area \<Rightarrow> 's area_world \<Rightarrow>
     (unit os_result \<times> 'f memory_set \<times> 's area_world) option" where
  "ms_push bf fo self vma w = do {
     (r, am, pt, w) \<leftarrow> mmap_fixed (vma_ops bf fo) (area_map self) (vma_start vma) (vma_end vma)
        (\<lambda>w. case map_area bf fo vma (fst w) (snd w) of
               Some (Inr _, vma, pt, w) \<Rightarrow> Some (vma, pt, w)
             | _ \<Rightarrow> None) (ms_pt self, w);
     _ \<leftarrow> r;
     Some (Ok (), self\<lparr>area_map := am, ms_pt := pt\<rparr>, w)
   }"

definition ms_handle_page_fault ::
  "bit_field16 \<Rightarrow> ('f, 's area_world) file_ops \<Rightarrow> 'f memory_set \<Rightarrow> usize \<Rightarrow> pte_flags \<Rightarrow> 's area_world \<Rightarrow>
     (unit os_result \<times> 'f memory_set \<times> 's area_world) option" where
  "ms_handle_page_fault bf fo self vaddr access_flags w =
     (case ram_find (area_map self) vaddr of
        Some area \<Rightarrow> do {
          (r, area, pt, w) \<leftarrow> vma_handle_page_fault bf fo area (vaddr - vma_start area) access_flags (ms_pt self) w;
          Some (r, self\<lparr>area_map := put_area (area_map self) vaddr area, ms_pt := pt\<rparr>, w)
        }
      | None \<Rightarrow> Some (Err PageFaultHandler_Unhandled, self, w))"

definition ms_manually_alloc_page ::
  "bit_field16 \<Rightarrow> ('f, 's area_world) file_ops \<Rightarrow> 'f memory_set \<Rightarrow> usize \<Rightarrow> 's area_world \<Rightarrow>
     (unit os_result \<times> 'f memory_set \<times> 's area_world) option" where
  "ms_manually_alloc_page bf fo self vaddr w =
     (case ram_find (area_map self) vaddr of
        Some area \<Rightarrow> do {
          (r, area, pt, w) \<leftarrow> vma_manually_alloc_page bf fo area (vaddr - vma_start area) (ms_pt self) w;
          Some (r, self\<lparr>area_map := put_area (area_map self) vaddr area, ms_pt := pt\<rparr>, w)
        }
      | None \<Rightarrow> Some (Err PageFaultHandler_Unhandled, self, w))"

text \<open>\<^verbatim>\<open>for page in .. { self.manually_alloc_page(page_id_to_addr(page))?; }\<close>\<close>

fun alloc_pages_loop ::
  "bit_field16 \<Rightarrow> ('f, 's area_world) file_ops \<Rightarrow> usize list \<Rightarrow> 'f memory_set \<Rightarrow> 's area_world \<Rightarrow>
     (unit os_result \<times> 'f memory_set \<times> 's area_world) option" where
  "alloc_pages_loop bf fo [] self w = Some (Ok (), self, w)"
| "alloc_pages_loop bf fo (page # pages) self w =
     (case ms_manually_alloc_page bf fo self (page_id_to_addr page) w of
        None \<Rightarrow> None
      | Some (Inl e, self, w) \<Rightarrow> Some (Err e, self, w)
      | Some (Inr _, self, w) \<Rightarrow> alloc_pages_loop bf fo pages self w)"

definition page_range :: "usize \<Rightarrow> usize \<Rightarrow> usize list" where
  "page_range a b = map of_nat [unat a..<Suc (unat b)]"

definition manually_alloc_type ::
  "bit_field16 \<Rightarrow> ('f, 's area_world) file_ops \<Rightarrow> usize \<Rightarrow> 'f memory_set \<Rightarrow> usize \<Rightarrow> 's area_world \<Rightarrow>
     (unit os_result \<times> 'f memory_set \<times> 's area_world) option" where
  "manually_alloc_type bf fo size_of self user_obj w =
     (let vaddr = user_obj
      in if cross_page size_of vaddr
         then alloc_pages_loop bf fo (page_range (addr_to_page_id vaddr) (addr_to_page_id (vaddr + size_of - 1))) self w
         else ms_manually_alloc_page bf fo self vaddr w)"

definition manually_alloc_range ::
  "bit_field16 \<Rightarrow> ('f, 's area_world) file_ops \<Rightarrow> 'f memory_set \<Rightarrow> usize \<Rightarrow> usize \<Rightarrow> 's area_world \<Rightarrow>
     (unit os_result \<times> 'f memory_set \<times> 's area_world) option" where
  "manually_alloc_range bf fo self start_vaddr end_vaddr w =
     alloc_pages_loop bf fo (page_range (addr_to_page_id start_vaddr) (addr_to_page_id end_vaddr)) self w"

definition manually_alloc_user_str ::
  "bit_field16 \<Rightarrow> ('f, 's area_world) file_ops \<Rightarrow> 'f memory_set \<Rightarrow> usize \<Rightarrow> usize \<Rightarrow> 's area_world \<Rightarrow>
     (unit os_result \<times> 'f memory_set \<times> 's area_world) option" where
  "manually_alloc_user_str bf fo self buf len w = manually_alloc_range bf fo self buf (buf + len - 1) w"

definition clear_user_pages ::
  "bit_field16 \<Rightarrow> ('f, 's area_world) file_ops \<Rightarrow> 'f memory_set \<Rightarrow> 's area_world \<Rightarrow>
     ('f memory_set \<times> 's area_world) option" where
  "clear_user_pages bf fo self w =
     (if \<not> ms_is_user self then Some (self, w)
      else do {
        (am, pt, w) \<leftarrow> ram_unmap (vma_ops bf fo) (area_map self) LOWER_LIMIT UPPER_LIMIT (ms_pt self, w);
        Some (self\<lparr>area_map := am, ms_pt := pt\<rparr>, w)
      })"

definition clear_user_pages_and_save_kernel ::
  "bit_field16 \<Rightarrow> ('f, 's area_world) file_ops \<Rightarrow> 'f memory_set \<Rightarrow> 's area_world \<Rightarrow>
     ('f memory_set \<times> 's area_world) option" where
  "clear_user_pages_and_save_kernel bf fo self w =
     (if \<not> ms_is_user self then Some (self, w)
      else do {
        (am, pt, w) \<leftarrow> ram_unmap (vma_ops bf fo) (area_map self) LOWER_LIMIT USER_VIRT_ADDR_LIMIT (ms_pt self, w);
        Some (self\<lparr>area_map := am, ms_pt := pt\<rparr>, w)
      })"

text \<open>\<^verbatim>\<open>read_write\<close>: \<open>op\<close> gets the area, the offset in it, the number of bytes and the bytes processed so far, and threads the
  state \<open>c\<close> of the closure. Each round makes progress, because an area that ends at or before \<open>start\<close> is refused.\<close>

type_synonym ('f, 'c) area_op =
  "'f vm_area \<Rightarrow> usize \<Rightarrow> nat \<Rightarrow> nat \<Rightarrow> 'c \<Rightarrow> machine \<Rightarrow> (unit os_result \<times> 'f vm_area \<times> 'c \<times> machine) option"

function read_write_loop ::
  "('f, 'c) area_op \<Rightarrow> pte_flags \<Rightarrow> usize \<Rightarrow> nat \<Rightarrow> nat \<Rightarrow> 'f memory_set \<Rightarrow> 'c \<Rightarrow> machine \<Rightarrow>
     (unit os_result \<times> 'f memory_set \<times> 'c \<times> machine) option" where
  "read_write_loop op access_flags start len processed self c m =
     (if len > 0 then
        (case ram_find (area_map self) start of
           Some area \<Rightarrow>
             if vma_end area \<le> start then Some (Err MemorySet_InvalidRange, self, c, m)
             else if \<not> flags_contains (vma_flags area) access_flags
             then Some (Err PageFaultHandler_AccessDenied, self, c, m)
             else let n = min (unat (vma_end area - start)) len
               in (case op area (start - vma_start area) n processed c m of
                     None \<Rightarrow> None
                   | Some (Inl e, area, c, m) \<Rightarrow>
                       Some (Err e, self\<lparr>area_map := put_area (area_map self) start area\<rparr>, c, m)
                   | Some (Inr _, area, c, m) \<Rightarrow>
                       read_write_loop op access_flags (start + of_nat n) (len - n) (processed + n)
                         (self\<lparr>area_map := put_area (area_map self) start area\<rparr>) c m)
         | None \<Rightarrow> Some (Err MemorySet_InvalidRange, self, c, m))
      else Some (Ok (), self, c, m))"
  by pat_completeness auto
termination
  by (relation "measure (\<lambda>(op, fl, start, len, processed, self, c, m). len)")
    (auto simp: unat_gt_0 not_le)

declare read_write_loop.simps [simp del]

definition read_write ::
  "('f, 'c) area_op \<Rightarrow> 'f memory_set \<Rightarrow> usize \<Rightarrow> nat \<Rightarrow> pte_flags \<Rightarrow> 'c \<Rightarrow> machine \<Rightarrow>
     (unit os_result \<times> 'f memory_set \<times> 'c \<times> machine) option" where
  "read_write op self start len access_flags c m = read_write_loop op access_flags start len 0 self c m"

text \<open>The closures slice the caller's buffer at \<^verbatim>\<open>[processed..processed + len]\<close>, which panics out of bounds.\<close>

definition ms_read_op :: "bit_field16 \<Rightarrow> ('f, byte list) area_op" where
  "ms_read_op bf area offset len processed dst m =
     (if processed + len \<le> length dst then
        map_option (\<lambda>(r, pma, bs, m). (map_sum id (\<lambda>_. ()) r, area\<lparr>vma_pma := pma\<rparr>,
            take processed dst @ bs @ drop (processed + len) dst, m))
          (pma_read bf (vma_pma area) offset (take len (drop processed dst)) m)
      else None)"

definition ms_read ::
  "bit_field16 \<Rightarrow> 'f memory_set \<Rightarrow> usize \<Rightarrow> nat \<Rightarrow> byte list \<Rightarrow> pte_flags \<Rightarrow> machine \<Rightarrow>
     (unit os_result \<times> 'f memory_set \<times> byte list \<times> machine) option" where
  "ms_read bf self start len dst access_flags m = read_write (ms_read_op bf) self start len access_flags dst m"

definition ms_write_op :: "bit_field16 \<Rightarrow> byte list \<Rightarrow> ('f, unit) area_op" where
  "ms_write_op bf src area offset len processed c m =
     (if processed + len \<le> length src then
        map_option (\<lambda>(r, pma, m). (map_sum id (\<lambda>_. ()) r, area\<lparr>vma_pma := pma\<rparr>, c, m))
          (pma_write bf (vma_pma area) offset (take len (drop processed src)) m)
      else None)"

definition ms_write ::
  "bit_field16 \<Rightarrow> 'f memory_set \<Rightarrow> usize \<Rightarrow> nat \<Rightarrow> byte list \<Rightarrow> pte_flags \<Rightarrow> machine \<Rightarrow>
     (unit os_result \<times> 'f memory_set \<times> unit \<times> machine) option" where
  "ms_write bf self start len src access_flags m = read_write (ms_write_op bf src) self start len access_flags () m"

text \<open>Dropping a memory set: the user pages are unmapped, then the areas that are left and the page table go.\<close>

fun drop_areas :: "bit_field16 \<Rightarrow> 'f vm_area list \<Rightarrow> machine \<Rightarrow> machine option" where
  "drop_areas bf [] m = Some m"
| "drop_areas bf (a # as) m = pma_drop bf (vma_pma a) m \<bind> drop_areas bf as"

definition memory_set_drop ::
  "bit_field16 \<Rightarrow> ('f, 's area_world) file_ops \<Rightarrow> 'f memory_set \<Rightarrow> 's area_world \<Rightarrow> 's area_world option" where
  "memory_set_drop bf fo self w = do {
     (self, m, s) \<leftarrow> clear_user_pages bf fo self w;
     m \<leftarrow> drop_areas bf (ram_iter (area_map self)) m;
     m \<leftarrow> drop_frames bf (frames (ms_pt self)) m;
     Some (m, s)
   }"

definition new_memory_set_for_task ::
  "bit_field16 \<Rightarrow> usize \<Rightarrow> 'f memory_set \<Rightarrow> machine \<Rightarrow> ('f memory_set os_result \<times> machine) option" where
  "new_memory_set_for_task bf args kernel_ms m = do {
     (ms, m) \<leftarrow> new_user bf args m;
     Some (Ok ms, map_kernel_regions (ms_pt ms) (ms_pt kernel_ms) m)
   }"

text \<open>The loop of \<^verbatim>\<open>copy_as_fork\<close>. On an error the new set is dropped. (Copying leaves the original area as it was.)\<close>

fun copy_areas_loop ::
  "bit_field16 \<Rightarrow> ('f, 's area_world) file_ops \<Rightarrow> 'f vm_area list \<Rightarrow> 'f memory_set \<Rightarrow> 's area_world \<Rightarrow>
     ('f memory_set os_result \<times> 's area_world) option" where
  "copy_areas_loop bf fo [] ms w = Some (Ok ms, w)"
| "copy_areas_loop bf fo (area # rest) ms w =
     (if vma_is_user area then
        (case copy_to_new_area_with_data bf fo area w of
           None \<Rightarrow> None
         | Some (Inl e, _, w) \<Rightarrow> map_option (\<lambda>w. (Err e, w)) (memory_set_drop bf fo ms w)
         | Some (Inr new_area, _, w) \<Rightarrow>
             (case ms_push bf fo ms new_area w of
                None \<Rightarrow> None
              | Some (Inl e, ms, w) \<Rightarrow> map_option (\<lambda>w. (Err e, w)) (memory_set_drop bf fo ms w)
              | Some (Inr _, ms, w) \<Rightarrow> copy_areas_loop bf fo rest ms w))
      else copy_areas_loop bf fo rest ms w)"

definition copy_as_fork ::
  "bit_field16 \<Rightarrow> ('f, 's area_world) file_ops \<Rightarrow> usize \<Rightarrow> 'f memory_set \<Rightarrow> 'f memory_set \<Rightarrow> 's area_world \<Rightarrow>
     ('f memory_set os_result \<times> 's area_world) option" where
  "copy_as_fork bf fo args kernel_ms self w =
     (case new_memory_set_for_task bf args kernel_ms (fst w) of
        None \<Rightarrow> None
      | Some (Inl e, m) \<Rightarrow> Some (Err e, m, snd w)
      | Some (Inr ms, m) \<Rightarrow> copy_areas_loop bf fo (ram_iter (area_map self)) ms (m, snd w))"

subsection \<open>The kernel's own memory set\<close>

record layout =
  stext :: usize
  etext :: usize
  sdata :: usize
  edata :: usize
  srodata :: usize
  erodata :: usize
  sbss :: usize
  ebss :: usize
  kernel_end :: usize
  img_start :: usize
  img_end :: usize
  kernel_stack_start :: usize
  kernel_stack_end :: usize

definition get_phys_memory_regions :: "layout \<Rightarrow> (usize \<times> usize) list" where
  "get_phys_memory_regions ly =
     (let start = align_up (virt_to_phys (kernel_end ly)); end' = PHYS_MEMORY_END
      in [(start, end'), (0xa0000000, 0xbe000000)])"

definition kernel_stack_area :: "layout \<Rightarrow> usize \<Rightarrow> 'f vm_area os_result" where
  "kernel_stack_area ly cpu_id =
     (let kernel_stack = kernel_stack_start ly;
          size_per_cpu = (kernel_stack_end ly - kernel_stack) div CPU_ID_LIMIT;
          per_cpu_stack_bottom = kernel_stack + size_per_cpu * cpu_id + PAGE_SIZE;
          per_cpu_stack_top = kernel_stack + size_per_cpu * (cpu_id + 1)
      in from_fixed_pma (virt_to_phys per_cpu_stack_bottom) (virt_to_phys per_cpu_stack_top) PHYS_VIRT_OFFSET
           (READ OR WRITE) ''kstack'')"

text \<open>The areas \<^verbatim>\<open>init_kernel_memory_set\<close> pushes, in order (\<^verbatim>\<open>IS_TEST_ENV\<close> holds and \<^verbatim>\<open>IS_PRELOADED_FS_IMG\<close> does not). Each is the
  result of a constructor, and an error ends the function.\<close>

definition kernel_areas :: "layout \<Rightarrow> 'f vm_area os_result list" where
  "kernel_areas ly =
     [from_fixed_pma (virt_to_phys (stext ly)) (virt_to_phys (etext ly)) PHYS_VIRT_OFFSET (READ OR EXECUTE) ''ktext'',
      from_fixed_pma (virt_to_phys (sdata ly)) (virt_to_phys (edata ly + PAGE_SIZE)) PHYS_VIRT_OFFSET (READ OR WRITE) ''kdata'',
      from_fixed_pma (virt_to_phys (srodata ly)) (virt_to_phys (erodata ly)) PHYS_VIRT_OFFSET (READ OR WRITE OR EXECUTE)
        ''krodata'',
      from_fixed_pma (virt_to_phys (sbss ly)) (virt_to_phys (ebss ly)) PHYS_VIRT_OFFSET (READ OR WRITE) ''kbss''] @
     map (\<lambda>i. kernel_stack_area ly (of_nat i)) [0..<unat CPU_ID_LIMIT] @
     map (\<lambda>(s, e). from_fixed_pma s e PHYS_VIRT_OFFSET (READ OR WRITE) ''physical_memory'') (get_phys_memory_regions ly) @
     [let pstart = virt_to_phys (img_start ly); pend = virt_to_phys (img_end ly); offset = DEVICE_START - pstart
      in from_fixed_pma pstart pend (PHYS_VIRT_OFFSET + offset) (READ OR WRITE) ''fs_in_memory'']"

fun push_areas ::
  "bit_field16 \<Rightarrow> ('f, 's area_world) file_ops \<Rightarrow> 'f vm_area os_result list \<Rightarrow> 'f memory_set \<Rightarrow> 's area_world \<Rightarrow>
     (unit os_result \<times> 'f memory_set \<times> 's area_world) option" where
  "push_areas bf fo [] ms w = Some (Ok (), ms, w)"
| "push_areas bf fo (Inl e # as) ms w = Some (Err e, ms, w)"
| "push_areas bf fo (Inr a # as) ms w =
     (case ms_push bf fo ms a w of
        None \<Rightarrow> None
      | Some (Inl e, ms, w) \<Rightarrow> Some (Err e, ms, w)
      | Some (Inr _, ms, w) \<Rightarrow> push_areas bf fo as ms w)"

definition init_kernel_memory_set ::
  "bit_field16 \<Rightarrow> ('f, 's area_world) file_ops \<Rightarrow> layout \<Rightarrow> 'f memory_set \<Rightarrow> 's area_world \<Rightarrow>
     (unit os_result \<times> 'f memory_set \<times> 's area_world) option" where
  "init_kernel_memory_set bf fo ly ms w = push_areas bf fo (kernel_areas ly) ms w"

definition KERNEL_MEMORY_SET ::
  "bit_field16 \<Rightarrow> ('f, 's area_world) file_ops \<Rightarrow> layout \<Rightarrow> usize \<Rightarrow> 's area_world \<Rightarrow> ('f memory_set \<times> 's area_world) option" where
  "KERNEL_MEMORY_SET bf fo ly args w = do {
     (ms, m) \<leftarrow> new_kernel bf args (fst w);
     (r, ms, w) \<leftarrow> init_kernel_memory_set bf fo ly ms (m, snd w);
     (case r of Inl _ \<Rightarrow> None | Inr _ \<Rightarrow> Some (ms, w))
   }"

definition create_mapping ::
  "bit_field16 \<Rightarrow> ('f, 's area_world) file_ops \<Rightarrow> 'f memory_set \<Rightarrow> 's area_world \<Rightarrow>
     (unit os_result \<times> 'f memory_set \<times> 's area_world) option" where
  "create_mapping bf fo ms w =
     (case from_fixed_pma DEVICE_START DEVICE_END PHYS_VIRT_OFFSET (READ OR WRITE) ''ramdisk'' of
        Inl e \<Rightarrow> Some (Err e, ms, w)
      | Inr a \<Rightarrow> ms_push bf fo ms a w)"

definition handle_kernel_page_fault ::
  "bit_field16 \<Rightarrow> ('f, 's area_world) file_ops \<Rightarrow> 'f memory_set \<Rightarrow> usize \<Rightarrow> pte_flags \<Rightarrow> 's area_world \<Rightarrow>
     (unit os_result \<times> 'f memory_set \<times> 's area_world) option" where
  "handle_kernel_page_fault bf fo kernel_ms vaddr access_flags w =
     ms_handle_page_fault bf fo kernel_ms vaddr access_flags w"

subsection \<open>UserPtr\<close>

text \<open>\<^verbatim>\<open>UserPtr::<T>::try_from\<close>: the pointer, or \<^verbatim>\<open>EFAULT\<close> (here \<open>None\<close>); \<open>size_of\<close> is \<^verbatim>\<open>size_of::<T>()\<close>.\<close>

definition user_ptr_try_from ::
  "bit_field16 \<Rightarrow> ('f, 's area_world) file_ops \<Rightarrow> usize \<Rightarrow> usize \<Rightarrow> 'f memory_set \<Rightarrow> 's area_world \<Rightarrow>
     (usize option \<times> 'f memory_set \<times> 's area_world) option" where
  "user_ptr_try_from bf fo size_of ptr vm w =
     map_option (\<lambda>(r, vm, w). (case r of Inr _ \<Rightarrow> Some ptr | Inl _ \<Rightarrow> None, vm, w))
       (manually_alloc_type bf fo size_of vm ptr w)"

end
