(* ===== verification/Page_Bytes.thy ===== *)
theory Page_Bytes
  imports Page_Table
begin

text \<open>
  Byte buffers and the bytes held by a list of page frames, shared by the files kept in page frames and the lazily
  allocated areas.

  \<open>slice\<close> and \<open>copy_into\<close> are Rust's slice expressions \<^verbatim>\<open>&s[a..b]\<close> and \<^verbatim>\<open>s[a..a + bs.len()].copy_from_slice(bs)\<close>, with their
  bounds checks. \<open>byte_of m ks p\<close> is byte \<open>p\<close> of the concatenation of the page frames \<open>ks\<close>.
\<close>

definition slice :: "'a list \<Rightarrow> nat \<Rightarrow> nat \<Rightarrow> 'a list option" where
  "slice xs a b = (if a \<le> b \<and> b \<le> length xs then Some (take (b - a) (drop a xs)) else None)"

definition copy_into :: "'a list \<Rightarrow> nat \<Rightarrow> 'a list \<Rightarrow> 'a list option" where
  "copy_into xs a bs = (if a + length bs \<le> length xs then Some (take a xs @ bs @ drop (a + length bs) xs) else None)"

lemma length_copy_into: "copy_into xs a bs = Some ys \<Longrightarrow> length ys = length xs"
  by (auto simp: copy_into_def split: if_splits)

definition byte_of :: "machine \<Rightarrow> nat list \<Rightarrow> nat \<Rightarrow> byte" where
  "byte_of m ks p = mem m (lin (ks ! (p div 4096) * 4096 + p mod 4096))"

definition bytes_of :: "machine \<Rightarrow> nat list \<Rightarrow> nat \<Rightarrow> nat \<Rightarrow> byte list" where
  "bytes_of m ks a b = map (byte_of m ks) [a..<b]"

lemma length_bytes_of [simp]: "length (bytes_of m ks a b) = b - a"
  by (simp add: bytes_of_def)

lemma nth_bytes_of [simp]: "i < b - a \<Longrightarrow> bytes_of m ks a b ! i = byte_of m ks (a + i)"
  by (simp add: bytes_of_def)

lemma bytes_of_empty [simp]: "b \<le> a \<Longrightarrow> bytes_of m ks a b = []"
  by (simp add: bytes_of_def)

lemma bytes_of_append: "a \<le> b \<Longrightarrow> b \<le> c \<Longrightarrow> bytes_of m ks a c = bytes_of m ks a b @ bytes_of m ks b c"
  by (rule nth_equalityI) (auto simp: nth_append add.commute)

lemma bytes_of_cong:
  "(\<And>p. a \<le> p \<Longrightarrow> p < b \<Longrightarrow> byte_of m ks p = byte_of m' ks' p) \<Longrightarrow> bytes_of m ks a b = bytes_of m' ks' a b"
  by (simp add: bytes_of_def)

subsection \<open>Frames as pages\<close>

lemma frame_ptr_lin: "frame_as_ptr kernel_config (frame_of k) = lin (k * 4096)"
  by (simp add: frame_as_ptr_def lin_def PAGE_SIZE_def kernel_config_simps(4))

lemma frame_size_one [simp]: "unat (frame_size kernel_config (frame_of k)) = 4096"
  by (simp add: frame_size_def)

lemma frame_slice_bytes:
  assumes "j < length ks"
  shows "frame_as_slice kernel_config (frame_of (ks ! j)) m = bytes_of m ks (j * 4096) (j * 4096 + 4096)"
proof (rule nth_equalityI)
  fix i assume "i < length (frame_as_slice kernel_config (frame_of (ks ! j)) m)"
  then have i: "i < 4096" by (simp add: frame_as_slice_def mem_read_def)
  then show "frame_as_slice kernel_config (frame_of (ks ! j)) m ! i = bytes_of m ks (j * 4096) (j * 4096 + 4096) ! i"
    by (simp add: frame_as_slice_def mem_read_def frame_ptr_lin lin_add byte_of_def)
qed (simp add: frame_as_slice_def mem_read_def)

lemma slice_bytes_of:
  assumes "x \<le> y" "y \<le> b - a"
  shows "slice (bytes_of m ks a b) x y = Some (bytes_of m ks (a + x) (a + y))"
proof -
  have "take (y - x) (drop x (bytes_of m ks a b)) = bytes_of m ks (a + x) (a + y)"
    using assms by (intro nth_equalityI) (auto simp: add.assoc)
  then show ?thesis using assms by (simp add: slice_def)
qed

text \<open>Pages \<open>ks\<close>: distinct numbers of managed page frames.\<close>

definition pages :: "nat list \<Rightarrow> bool" where
  "pages ks \<longleftrightarrow> distinct ks \<and> (\<forall>k \<in> set ks. k < 16777216)"

lemma pages_nth: "pages ks \<Longrightarrow> j < length ks \<Longrightarrow> ks ! j < 16777216"
  by (simp add: pages_def)

lemma page_byte_less: "k < 16777216 \<Longrightarrow> b < 4096 \<Longrightarrow> k * 4096 + b < 2 ^ 40" for k b :: nat
  by simp

lemma div_less_pages: "p < n * 4096 \<Longrightarrow> p div 4096 < n" for p n :: nat
  by (simp add: div_less_iff_less_mult)

text \<open>What one write to a page does, to the bytes of the pages and to all other memory.\<close>

definition writes :: "nat list \<Rightarrow> nat \<Rightarrow> byte list \<Rightarrow> machine \<Rightarrow> machine \<Rightarrow> bool" where
  "writes ks a bs m m' \<longleftrightarrow> frame_allocator m' = frame_allocator m \<and>
     (\<forall>p < length ks * 4096. byte_of m' ks p = (if a \<le> p \<and> p < a + length bs then bs ! (p - a) else byte_of m ks p)) \<and>
     (\<forall>k < 16777216. \<forall>b < 4096. k \<notin> set ks \<longrightarrow> mem m' (lin (k * 4096 + b)) = mem m (lin (k * 4096 + b)))"

lemma writes_empty: "writes ks a [] m m"
  by (auto simp: writes_def)

lemma writes_trans:
  assumes "writes ks a bs m m1" "writes ks (a + length bs) cs m1 m2"
  shows "writes ks a (bs @ cs) m m2"
proof -
  have "byte_of m2 ks p = (if a \<le> p \<and> p < a + length (bs @ cs) then (bs @ cs) ! (p - a) else byte_of m ks p)"
    if "p < length ks * 4096" for p
    using assms that by (auto simp: writes_def nth_append)
  then show ?thesis using assms by (simp add: writes_def)
qed

lemma page_write:
  assumes ks: "pages ks" and j: "j < length ks" and off: "off + length bs \<le> 4096"
  obtains m' where "frame_slice_write kernel_config (frame_of (ks ! j)) off bs m = Some m'" "writes ks (j * 4096 + off) bs m m'"
proof -
  let ?k = "ks ! j"
  define m' where "m' = m\<lparr>mem := mem_write (mem m) (lin (?k * 4096 + off)) bs\<rparr>"
  have k: "?k < 16777216" using pages_nth [OF ks j] .
  have mem': "mem m' (lin (k * 4096 + b)) =
      (if k = ?k \<and> off \<le> b \<and> b < off + length bs then bs ! (b - off) else mem m (lin (k * 4096 + b)))"
    if kb: "k < 16777216" "b < 4096" for k b
  proof (cases "length bs = 0")
    case False
    then have "off < 4096" using off by linarith
    have "k * 4096 + b < 2 ^ 40" "?k * 4096 + off < 2 ^ 40" "length bs < 2 ^ 40"
      using page_byte_less [OF kb] page_byte_less [OF k \<open>off < 4096\<close>] off by simp_all
    moreover have "?k * 4096 + off \<le> k * 4096 + b \<and> k * 4096 + b < ?k * 4096 + off + length bs \<longleftrightarrow>
        k = ?k \<and> off \<le> b \<and> b < off + length bs"
      using page_overlap [OF kb(2), of ?k k] off by auto
    ultimately show ?thesis unfolding m'_def by (auto simp: mem_write_lin)
  qed (auto simp: m'_def mem_write_def)
  have "byte_of m' ks p = (if j * 4096 + off \<le> p \<and> p < j * 4096 + off + length bs then bs ! (p - (j * 4096 + off))
      else byte_of m ks p)" if p: "p < length ks * 4096" for p
  proof -
    define q r where qr: "q = p div 4096" "r = p mod 4096"
    have pe: "p = q * 4096 + r" and r: "r < 4096" by (simp_all add: qr)
    have qd: "q < length ks" using p by (simp add: qr div_less_pages)
    have "ks ! q = ?k \<longleftrightarrow> q = j" using ks j qd by (simp add: pages_def nth_eq_iff_index_eq)
    moreover have "j * 4096 + off \<le> p \<and> p < j * 4096 + off + length bs \<longleftrightarrow> q = j \<and> off \<le> r \<and> r < off + length bs"
      using page_overlap [OF r, of j q] off by (auto simp: pe)
    moreover have "byte_of n ks p = mem n (lin (ks ! q * 4096 + r))" for n by (simp add: byte_of_def qr)
    moreover have "p - (j * 4096 + off) = r - off" if "q = j" using that by (simp add: pe)
    ultimately show ?thesis using mem' [OF pages_nth [OF ks qd] r] by simp
  qed
  moreover have "mem m' (lin (k * 4096 + b)) = mem m (lin (k * 4096 + b))"
    if "k < 16777216" "b < 4096" "k \<notin> set ks" for k b
    using mem' [OF that(1,2)] that(3) nth_mem [OF j] by auto
  ultimately have "writes ks (j * 4096 + off) bs m m'" by (simp add: writes_def m'_def)
  moreover have "frame_slice_write kernel_config (frame_of ?k) off bs m = Some m'"
    using off by (simp add: frame_slice_write_def frame_ptr_lin lin_add m'_def)
  ultimately show ?thesis using that by blast
qed

end
