(* ===== verification/Virt_File.thy ===== *)
theory Virt_File
  imports Page_Bytes Base_File
begin

text \<open>
  Files kept in page frames, \<^verbatim>\<open>kernel/src/file/vfs/virt_file.rs\<close> (\<^verbatim>\<open>VirtFileInner\<close>, which is also the buffer of pipes and sockets),
  the null and zero devices beside it, and \<^verbatim>\<open>Kstat\<close> of \<^verbatim>\<open>modules/base-file/src/kstat.rs\<close>.

  \<^verbatim>\<open>None\<close> of the option type around a result is a panic: a slice out of bounds or \<^verbatim>\<open>Frame::new().unwrap()\<close> without a free frame.
\<close>

subsection \<open>Kstat\<close>

record kstat =
  st_dev :: u64
  st_ino :: u64
  st_mode :: u32
  st_nlink :: u32
  st_uid :: u32
  st_gid :: u32
  st_rdev :: u64
  st_pad0 :: u64
  st_size :: u64
  st_blksize :: u32
  st_pad1 :: u32
  st_blocks :: u64
  st_atime_sec :: u64
  st_atime_nsec :: u64
  st_mtime_sec :: u64
  st_mtime_nsec :: u64
  st_ctime_sec :: u64
  st_ctime_nsec :: u64

definition S_IFREG :: u32 where "S_IFREG = push_bit 15 1"
definition S_IFDIR :: u32 where "S_IFDIR = push_bit 14 1"
definition S_IFCHR :: u32 where "S_IFCHR = push_bit 13 1"
definition S_IWUSR :: u32 where "S_IWUSR = push_bit 9 1"
definition S_IRUSR :: u32 where "S_IRUSR = push_bit 8 1"
definition S_IWGRP :: u32 where "S_IWGRP = push_bit 5 1"
definition S_IRGRP :: u32 where "S_IRGRP = push_bit 4 1"

definition normal_file_mode :: "u32 \<Rightarrow> u32" where
  "normal_file_mode file_type = file_type OR S_IWUSR OR S_IWUSR OR S_IWGRP OR S_IRGRP"

text \<open>The fields every \<^verbatim>\<open>get_stat\<close> of the virtual files sets; the others keep what the caller passed.\<close>

definition fill_stat :: "u32 \<Rightarrow> usize \<Rightarrow> kstat \<Rightarrow> kstat" where
  "fill_stat file_type sz stat = stat\<lparr>st_dev := 0, st_ino := 0, st_nlink := 1, st_mode := normal_file_mode file_type,
     st_size := sz, st_uid := 0, st_gid := 0, st_atime_sec := 0, st_atime_nsec := 0, st_mtime_sec := 0, st_mtime_nsec := 0,
     st_ctime_sec := 0, st_ctime_nsec := 0\<rparr>"

subsection \<open>NullFile and ZeroFile\<close>

definition null_read :: "byte list \<Rightarrow> usize option \<times> byte list" where
  "null_read buf = (None, buf)"

definition null_write :: "byte list \<Rightarrow> usize option" where
  "null_write buf = Some (of_nat (length buf))"

definition null_get_stat :: "kstat \<Rightarrow> bool \<times> kstat" where
  "null_get_stat stat = (True, fill_stat S_IFCHR 0 stat)"

definition zero_read :: "byte list \<Rightarrow> usize option \<times> byte list" where
  "zero_read buf = (Some (of_nat (length buf)), map (\<lambda>_. 0) buf)"

definition zero_write :: "byte list \<Rightarrow> usize option" where
  "zero_write buf = Some (of_nat (length buf))"

definition zero_get_stat :: "kstat \<Rightarrow> bool \<times> kstat" where
  "zero_get_stat stat = (True, fill_stat S_IFCHR 0 stat)"

subsection \<open>VirtFileInner\<close>

record virt_file =
  vf_frames :: "frame list"
  vf_size :: usize
  vf_pos :: usize
  vf_flags :: u32

definition virt_file_new :: "u32 \<Rightarrow> virt_file" where
  "virt_file_new fl = \<lparr>vf_frames = [], vf_size = 0, vf_pos = 0, vf_flags = fl\<rparr>"

text \<open>The loop over the pages after the first.\<close>

fun read_pages :: "machine \<Rightarrow> frame list \<Rightarrow> nat \<Rightarrow> nat \<Rightarrow> byte list \<Rightarrow> byte list option" where
  "read_pages m [] buf_pos read_len buf = Some buf"
| "read_pages m (page # rest) buf_pos read_len buf =
     (if buf_pos + 4096 \<le> read_len then
        copy_into buf buf_pos (frame_as_slice kernel_config page m) \<bind> read_pages m rest (buf_pos + 4096) read_len
      else slice (frame_as_slice kernel_config page m) 0 (read_len - buf_pos) \<bind> copy_into buf buf_pos)"

definition read_inner :: "virt_file \<Rightarrow> byte list \<Rightarrow> machine \<Rightarrow> (usize option \<times> byte list \<times> virt_file) option" where
  "read_inner self buf m =
     (let read_len = min (length buf) (unat (vf_size self - vf_pos self))
      in if read_len = 0 then Some (Some 0, buf, self)
         else let page_now = unat (addr_to_page_id (vf_pos self)); off = unat (page_offset (vf_pos self))
           in if off + read_len \<le> 4096 then do {
                f \<leftarrow> at (vf_frames self) page_now;
                bs \<leftarrow> slice (frame_as_slice kernel_config f m) off (off + read_len);
                buf \<leftarrow> copy_into buf 0 bs;
                Some (Some (of_nat read_len), buf, self\<lparr>vf_pos := vf_pos self + of_nat read_len\<rparr>)
              }
              else do {
                f \<leftarrow> at (vf_frames self) page_now;
                bs \<leftarrow> slice (frame_as_slice kernel_config f m) off 4096;
                buf \<leftarrow> copy_into buf 0 bs;
                buf \<leftarrow> read_pages m (drop (page_now + 1) (vf_frames self)) (4096 - off) read_len buf;
                Some (Some (of_nat read_len), buf, self\<lparr>vf_pos := vf_pos self + of_nat read_len\<rparr>)
              })"

text \<open>\<^verbatim>\<open>for _i in self.frames.len()..=page_needed { self.frames.push(Frame::new().unwrap()); }\<close>\<close>

fun push_frames :: "bit_field16 \<Rightarrow> nat \<Rightarrow> frame list \<Rightarrow> machine \<Rightarrow> (frame list \<times> machine) option" where
  "push_frames bf 0 fs m = Some (fs, m)"
| "push_frames bf (Suc n) fs m = do {
     (r, m) \<leftarrow> frame_new bf kernel_config m;
     f \<leftarrow> r;
     push_frames bf n (fs @ [f]) m
   }"

fun write_pages :: "frame list \<Rightarrow> nat \<Rightarrow> byte list \<Rightarrow> machine \<Rightarrow> machine option" where
  "write_pages [] buf_pos buf m = Some m"
| "write_pages (page # rest) buf_pos buf m =
     (if buf_pos + 4096 \<le> length buf then do {
        bs \<leftarrow> slice buf buf_pos (buf_pos + 4096);
        m \<leftarrow> frame_slice_write kernel_config page 0 bs m;
        write_pages rest (buf_pos + 4096) buf m
      }
      else slice buf buf_pos (length buf) \<bind> (\<lambda>bs. frame_slice_write kernel_config page 0 bs m))"

definition write_inner ::
  "bit_field16 \<Rightarrow> virt_file \<Rightarrow> byte list \<Rightarrow> machine \<Rightarrow> (usize option \<times> virt_file \<times> machine) option" where
  "write_inner bf self buf m =
     (if length buf = 0 then Some (Some 0, self, m)
      else let page_needed = addr_to_page_id (vf_pos self + of_nat (length buf) - 1)
        in do {
          (fs, m) \<leftarrow> push_frames bf (Suc (unat page_needed) - length (vf_frames self)) (vf_frames self) m;
          let page_now = unat (addr_to_page_id (vf_pos self));
          let off = unat (page_offset (vf_pos self));
          let new_pos = vf_pos self + of_nat (length buf);
          let self = self\<lparr>vf_frames := fs, vf_pos := new_pos, vf_size := max (vf_size self) new_pos\<rparr>;
          f \<leftarrow> at fs page_now;
          if off + length buf \<le> 4096 then do {
            m \<leftarrow> frame_slice_write kernel_config f off buf m;
            Some (Some (of_nat (length buf)), self, m)
          }
          else do {
            bs \<leftarrow> slice buf 0 (4096 - off);
            m \<leftarrow> frame_slice_write kernel_config f off bs m;
            m \<leftarrow> write_pages (drop (page_now + 1) fs) (4096 - off) buf m;
            Some (Some (of_nat (length buf)), self, m)
          }
        })"

definition vf_read_from_offset ::
  "virt_file \<Rightarrow> usize \<Rightarrow> byte list \<Rightarrow> machine \<Rightarrow> (usize option \<times> byte list \<times> virt_file) option" where
  "vf_read_from_offset self pos buf m = do {
     let old_pos = vf_pos self;
     (read_len, buf, self) \<leftarrow> read_inner (self\<lparr>vf_pos := pos\<rparr>) buf m;
     Some (read_len, buf, self\<lparr>vf_pos := old_pos\<rparr>)
   }"

definition vf_write_to_offset ::
  "bit_field16 \<Rightarrow> virt_file \<Rightarrow> usize \<Rightarrow> byte list \<Rightarrow> machine \<Rightarrow> (usize option \<times> virt_file \<times> machine) option" where
  "vf_write_to_offset bf self pos buf m = do {
     let old_pos = vf_pos self;
     (write_len, self, m) \<leftarrow> write_inner bf (self\<lparr>vf_pos := pos\<rparr>) buf m;
     Some (write_len, self\<lparr>vf_pos := old_pos\<rparr>, m)
   }"

definition get_size :: "virt_file \<Rightarrow> usize" where
  "get_size self = vf_size self"

text \<open>\<^verbatim>\<open>self.pos as i64 + pos < 0\<close>: the sum wraps around and is read as signed.\<close>

fun vf_seek :: "virt_file \<Rightarrow> seek_from \<Rightarrow> usize option \<times> virt_file" where
  "vf_seek self (SeekStart pos) = (Some pos, self\<lparr>vf_pos := pos\<rparr>)"
| "vf_seek self (SeekCurrent pos) =
     (if sint (vf_pos self + pos) < 0 then (None, self)
      else (Some (vf_pos self + pos), self\<lparr>vf_pos := vf_pos self + pos\<rparr>))"
| "vf_seek self (SeekEnd pos) =
     (if sint (vf_size self + pos) < 0 then (None, self)
      else (Some (vf_size self + pos), self\<lparr>vf_pos := vf_size self + pos\<rparr>))"

definition set_pos :: "virt_file \<Rightarrow> usize \<Rightarrow> virt_file" where
  "set_pos self pos = self\<lparr>vf_pos := pos\<rparr>"

text \<open>\<^verbatim>\<open>self.frames.clear()\<close> drops the frames.\<close>

definition vf_clear :: "bit_field16 \<Rightarrow> virt_file \<Rightarrow> machine \<Rightarrow> (virt_file \<times> machine) option" where
  "vf_clear bf self m =
     map_option (\<lambda>m. (self\<lparr>vf_pos := 0, vf_size := 0, vf_frames := []\<rparr>, m)) (drop_frames bf (vf_frames self) m)"

definition vf_get_stat :: "virt_file \<Rightarrow> kstat \<Rightarrow> bool \<times> kstat" where
  "vf_get_stat self stat = (True, fill_stat S_IFREG (get_size self) stat)"

subsection \<open>Contents of a file\<close>

declare kernel_config_simps(3,4) [simp del]

text \<open>A well-formed file holds distinct allocated frames, enough for its size.\<close>

definition vf_ok :: "bit_field16 \<Rightarrow> machine \<Rightarrow> virt_file \<Rightarrow> nat list \<Rightarrow> bool" where
  "vf_ok bf m f ks \<longleftrightarrow> frames_inv bf m \<and> vf_frames f = map frame_of ks \<and> pages ks \<and>
     set ks \<inter> free_frames bf m = {} \<and> unat (vf_size f) \<le> length ks * 4096"

text \<open>The loop fills the buffer from the pages that are left, up to \<open>read_len\<close> or the last page.\<close>

lemma read_pages_ok:
  assumes "buf_pos \<le> read_len" "read_len \<le> length buf" "k = min (read_len - buf_pos) ((length ks - j) * 4096)"
  shows "read_pages m (map frame_of (drop j ks)) buf_pos read_len buf =
    Some (take buf_pos buf @ bytes_of m ks (j * 4096) (j * 4096 + k) @ drop (buf_pos + k) buf)"
  using assms
proof (induction "length ks - j" arbitrary: j buf_pos buf k)
  case 0
  then show ?case by simp
next
  case (Suc d)
  then have j: "j < length ks" and d: "drop j ks = ks ! j # drop (Suc j) ks" by (auto simp: Cons_nth_drop_Suc)
  have lj: "length ks - j = Suc (length ks - Suc j)" using j by simp
  show ?case
  proof (cases "buf_pos + 4096 \<le> read_len")
    case True
    let ?page = "bytes_of m ks (j * 4096) (j * 4096 + 4096)"
    let ?buf = "take buf_pos buf @ ?page @ drop (buf_pos + 4096) buf"
    have k: "k - 4096 = min (read_len - (buf_pos + 4096)) ((length ks - Suc j) * 4096)" "4096 \<le> k" using True Suc.prems(3) unfolding lj by (auto simp: min_def)
    have c: "copy_into buf buf_pos ?page = Some ?buf" using True Suc.prems by (simp add: copy_into_def)
    let ?tail = "bytes_of m ks (Suc j * 4096) (Suc j * 4096 + (k - 4096))"
    have "read_pages m (map frame_of (drop (Suc j) ks)) (buf_pos + 4096) read_len ?buf =
        Some (take (buf_pos + 4096) ?buf @ ?tail @ drop (buf_pos + 4096 + (k - 4096)) ?buf)"
      by (rule Suc.hyps(1)) (use Suc.hyps(2) Suc.prems(1,2) True k(1) in \<open>linarith | simp\<close>)+
    moreover have "take (buf_pos + 4096) ?buf = take buf_pos buf @ ?page" "drop (buf_pos + 4096 + (k - 4096)) ?buf = drop (buf_pos + k) buf"
      using Suc.prems(1,2) True k(2) by (simp_all add: add.commute)
    moreover have "bytes_of m ks (j * 4096) (j * 4096 + k) = ?page @ ?tail"
      using k(2) bytes_of_append [of "j * 4096" "j * 4096 + 4096" "j * 4096 + k" m ks] by (simp add: add.commute)
    ultimately have "read_pages m (map frame_of (drop (Suc j) ks)) (buf_pos + 4096) read_len ?buf =
        Some (take buf_pos buf @ bytes_of m ks (j * 4096) (j * 4096 + k) @ drop (buf_pos + k) buf)"
      by (simp only: append_assoc)
    then show ?thesis using True c unfolding d by (simp only: list.map read_pages.simps if_True frame_slice_bytes [OF j] bind.bind_lunit)
  next
    case False
    then have "k = read_len - buf_pos" using Suc.prems(3) unfolding lj by simp
    then show ?thesis using False Suc.prems(1,2) by (simp add: d frame_slice_bytes [OF j] slice_bytes_of copy_into_def)
  qed
qed

lemma at_map_frame: "j < length ks \<Longrightarrow> at (map frame_of ks) j = Some (frame_of (ks ! j))"
  by (simp add: at_def)

text \<open>A read of \<open>n\<close> bytes at a position inside the pages.\<close>

lemma read_inner_pages:
  fixes f :: virt_file
  defines "P \<equiv> unat (vf_pos f)"
  assumes fr: "vf_frames f = map frame_of ks" and P_in: "P < length ks * 4096"
    and n: "n = min (length buf) (unat (vf_size f - vf_pos f))" "n \<noteq> 0" and k: "k = min n (length ks * 4096 - P)"
  shows "read_inner f buf m =
    Some (Some (of_nat n), bytes_of m ks P (P + k) @ drop k buf, f\<lparr>vf_pos := vf_pos f + of_nat n\<rparr>)"
proof -
  define q o' where qo: "q = P div 4096" "o' = P mod 4096"
  have P: "P = q * 4096 + o'" and o': "o' < 4096" by (simp_all add: qo)
  have idx: "unat (addr_to_page_id (vf_pos f)) = q" "unat (page_offset (vf_pos f)) = o'"
    by (simp_all add: unat_addr_to_page_id unat_page_offset qo P_def)
  have q: "q < length ks" using P_in P by simp
  then have left: "length ks * 4096 - P = 4096 - o' + (length ks - Suc q) * 4096" using o' by (simp add: P algebra_simps)
  have nb: "n \<le> length buf" using n by simp
  note page = frame_slice_bytes [OF q, of m]
  show ?thesis
  proof (cases "o' + n \<le> 4096")
    case True
    then have "k = n" using k left by simp
    then show ?thesis using True nb n(2)
      by (simp add: read_inner_def n(1) [symmetric] idx fr at_map_frame q page slice_bytes_of copy_into_def P add.assoc)
  next
    case large: False
    let ?first = "bytes_of m ks P (q * 4096 + 4096)" and ?k = "k - (4096 - o')"
    have l: "length ?first = 4096 - o'" using o' by (simp add: P)
    have s1: "slice (bytes_of m ks (q * 4096) (q * 4096 + 4096)) o' 4096 = Some ?first"
      using slice_bytes_of [of o' 4096] o' by (simp add: P)
    have c1: "copy_into buf 0 ?first = Some (?first @ drop (4096 - o') buf)"
      using large nb unfolding copy_into_def l by simp
    have k': "4096 - o' \<le> k" "?k = min (n - (4096 - o')) ((length ks - Suc q) * 4096)" using k left large by (auto simp: min_def)
    have "read_pages m (map frame_of (drop (Suc q) ks)) (4096 - o') n (?first @ drop (4096 - o') buf) =
        Some (?first @ bytes_of m ks (Suc q * 4096) (Suc q * 4096 + ?k) @ drop k buf)"
      using large nb o' l k'(1) by (subst read_pages_ok [OF _ _ k'(2)]) auto
    moreover have "?first @ bytes_of m ks (Suc q * 4096) (Suc q * 4096 + ?k) = bytes_of m ks P (P + k)"
      using k'(1) o' bytes_of_append [of P "q * 4096 + 4096" "P + k" m ks] by (simp add: P add.commute)
    ultimately have "read_pages m (map frame_of (drop (Suc q) ks)) (4096 - o') n (?first @ drop (4096 - o') buf) =
        Some (bytes_of m ks P (P + k) @ drop k buf)"
      by (metis append.assoc)
    then show ?thesis using large s1 c1 n(2)
      by (simp add: read_inner_def n(1) [symmetric] idx fr at_map_frame q page drop_map)
  qed
qed

lemma read_inner_ok:
  fixes f :: virt_file
  defines "P \<equiv> unat (vf_pos f)"
  assumes ok: "vf_ok bf m f ks" and pos: "vf_pos f \<le> vf_size f" and n: "n = min (length buf) (unat (vf_size f) - P)"
  shows "read_inner f buf m =
    Some (Some (of_nat n), bytes_of m ks P (P + n) @ drop n buf, f\<lparr>vf_pos := vf_pos f + of_nat n\<rparr>)"
proof -
  have fr: "vf_frames f = map frame_of ks" and sz: "unat (vf_size f) \<le> length ks * 4096" using ok by (simp_all add: vf_ok_def)
  have len: "n = min (length buf) (unat (vf_size f - vf_pos f))" using pos n by (simp add: unat_sub_le P_def)
  show ?thesis
  proof (cases "n = 0")
    case True
    then show ?thesis using len by (simp add: read_inner_def)
  next
    case False
    then have "P < length ks * 4096" "n = min n (length ks * 4096 - P)" using n sz by auto
    then show ?thesis using read_inner_pages [OF fr _ len False] by (simp add: P_def)
  qed
qed

lemma push_frames_ok:
  assumes "frames_inv bf m" "n \<le> card (free_frames bf m)"
  obtains ks m' where "push_frames bf n fs m = Some (fs @ map frame_of ks, m')" "length ks = n" "distinct ks"
    "set ks \<subseteq> free_frames bf m" "frames_inv bf m'" "free_frames bf m' = free_frames bf m - set ks" "mem m' = mem m"
  using assms
proof (induction n arbitrary: fs m thesis)
  case 0
  show ?case by (rule "0.prems"(1) [of "[]" m]) (use "0.prems"(2) in simp_all)
next
  case (Suc n)
  have "free_frames bf m \<noteq> {}" using Suc.prems(3) by auto
  then obtain k where k: "least_ge (free_frames bf m) 0 = Some k"
    using least_ge_NoneD [of "free_frames bf m" 0] by (cases "least_ge (free_frames bf m) 0") auto
  have kf: "k \<in> free_frames bf m" using least_ge_SomeD(1) [OF k] .
  obtain m1 where m1: "frame_new bf kernel_config m = Some (Some (frame_of k), m1)" "frames_inv bf m1"
    "free_frames bf m1 = free_frames bf m - {k}" "mem m1 = mem m"
    using frame_new_some [OF Suc.prems(2) k, where cfg = kernel_config] by blast
  have "n \<le> card (free_frames bf m1)" using Suc.prems(3) kf m1(3) by (simp add: card_Diff_singleton)
  from Suc.IH [OF _ m1(2) this, of "fs @ [frame_of k]"] obtain ks m' where
    ks: "push_frames bf n (fs @ [frame_of k]) m1 = Some ((fs @ [frame_of k]) @ map frame_of ks, m')" "length ks = n" "distinct ks"
    "set ks \<subseteq> free_frames bf m1" "frames_inv bf m'" "free_frames bf m' = free_frames bf m1 - set ks" "mem m' = mem m1"
    by blast
  show ?case
  proof (rule Suc.prems(1) [of "k # ks" m'])
    show "push_frames bf (Suc n) fs m = Some (fs @ map frame_of (k # ks), m')" using ks(1) m1(1) by simp
    show "set (k # ks) \<subseteq> free_frames bf m" "distinct (k # ks)" using ks(3,4) m1(3) kf by auto
    show "free_frames bf m' = free_frames bf m - set (k # ks)" using ks(6) m1(3) by auto
  qed (use ks m1 in simp_all)
qed

lemma write_pages_ok:
  assumes "pages ks" "buf_pos \<le> length buf" "j * 4096 + (length buf - buf_pos) \<le> length ks * 4096"
  shows "\<exists>m'. write_pages (map frame_of (drop j ks)) buf_pos buf m = Some m' \<and> writes ks (j * 4096) (drop buf_pos buf) m m'"
  using assms(2,3)
proof (induction "length ks - j" arbitrary: j buf_pos m)
  case 0
  then show ?case by (auto simp: writes_empty)
next
  case (Suc d)
  then have j: "j < length ks" and d: "drop j ks = ks ! j # drop (Suc j) ks" by (auto simp: Cons_nth_drop_Suc)
  show ?case
  proof (cases "buf_pos + 4096 \<le> length buf")
    case True
    let ?bs = "take 4096 (drop buf_pos buf)"
    have l: "length ?bs = 4096" and s: "slice buf buf_pos (buf_pos + 4096) = Some ?bs" using True by (simp_all add: slice_def)
    obtain m1 where m1: "frame_slice_write kernel_config (frame_of (ks ! j)) 0 ?bs m = Some m1" "writes ks (j * 4096) ?bs m m1"
      using page_write [OF assms(1) j, of 0 ?bs m] l by auto
    have h: "d = length ks - Suc j" "Suc j * 4096 + (length buf - (buf_pos + 4096)) \<le> length ks * 4096"
      using Suc.hyps(2) Suc.prems True by auto
    obtain m' where m': "write_pages (map frame_of (drop (Suc j) ks)) (buf_pos + 4096) buf m1 = Some m'"
      "writes ks (Suc j * 4096) (drop (buf_pos + 4096) buf) m1 m'"
      using Suc.hyps(1) [OF h(1) True h(2)] by blast
    have "writes ks (j * 4096) (?bs @ drop 4096 (drop buf_pos buf)) m m'"
      by (rule writes_trans [OF m1(2)]) (use m'(2) l in \<open>simp add: add.commute\<close>)
    then show ?thesis using True d s m1 m' by (simp only: append_take_drop_id) simp
  next
    case False
    let ?bs = "drop buf_pos buf"
    have s: "slice buf buf_pos (length buf) = Some ?bs" using Suc.prems by (simp add: slice_def)
    have "0 + length ?bs \<le> 4096" using False by simp
    from page_write [OF assms(1) j this, of m] show ?thesis using False d s by auto
  qed
qed

text \<open>The page frames a write at \<open>P\<close> of \<open>n\<close> bytes needs in all.\<close>

definition frames_needed :: "nat \<Rightarrow> nat \<Rightarrow> nat" where
  "frames_needed P n = (if n = 0 then 0 else Suc ((P + n - 1) div 4096))"

lemma byte_of_mem: "mem m = mem m' \<Longrightarrow> byte_of m = byte_of m'"
  by (simp add: byte_of_def fun_eq_iff)

lemma write_inner_ok:
  fixes f :: virt_file
  defines "P \<equiv> unat (vf_pos f)"
  assumes ok: "vf_ok bf m f ks" and room: "P + length buf < 18446744073709551616"
    and free: "frames_needed P (length buf) \<le> length ks + card (free_frames bf m)"
  obtains ks' m1 m' where
    "write_inner bf f buf m = Some (Some (of_nat (length buf)), f\<lparr>vf_frames := map frame_of (ks @ ks'),
       vf_pos := vf_pos f + of_nat (length buf),
       vf_size := (if buf = [] then vf_size f else max (vf_size f) (vf_pos f + of_nat (length buf)))\<rparr>, m')"
    "pages (ks @ ks')" "set ks' \<subseteq> free_frames bf m" "frames_inv bf m'" "free_frames bf m' = free_frames bf m - set ks'"
    "mem m1 = mem m" "writes (ks @ ks') P buf m1 m'" "frames_needed P (length buf) \<le> length (ks @ ks')"
    "length (ks @ ks') \<le> max (length ks) (frames_needed P (length buf))"
proof (cases "buf = []")
  case True
  show ?thesis
    by (rule that [of "[]" m m]) (use ok True in \<open>simp_all add: write_inner_def vf_ok_def writes_empty frames_needed_def\<close>)
next
  case False
  define q o' N where qo: "q = P div 4096" "o' = P mod 4096" "N = frames_needed P (length buf)"
  have P: "P = q * 4096 + o'" and o': "o' < 4096" by (simp_all add: qo)
  have inv: "frames_inv bf m" and fr: "vf_frames f = map frame_of ks" and pg: "pages ks"
    and dis: "set ks \<inter> free_frames bf m = {}" using ok by (simp_all add: vf_ok_def)
  have "unat (vf_pos f + of_nat (length buf)) = P + length buf"
    using room by (simp add: unat_add_small unat_of_nat P_def)
  then have "unat (vf_pos f + of_nat (length buf) - 1) = P + length buf - 1"
    using False by (subst unat_sub_le) (auto simp: word_le_unat Suc_leI)
  then have need: "Suc (unat (addr_to_page_id (vf_pos f + of_nat (length buf) - 1))) = N"
    using False by (simp add: unat_addr_to_page_id qo frames_needed_def)
  obtain ks' m1 where pf: "push_frames bf (N - length ks) (map frame_of ks) m = Some (map frame_of ks @ map frame_of ks', m1)"
    "length ks' = N - length ks" "distinct ks'" "set ks' \<subseteq> free_frames bf m" "frames_inv bf m1"
    "free_frames bf m1 = free_frames bf m - set ks'" "mem m1 = mem m"
    using push_frames_ok [OF inv, of "N - length ks" "map frame_of ks"] free qo(3) by (metis le_diff_conv add.commute)
  let ?ks = "ks @ ks'"
  have pg': "pages ?ks" using pg pf(3,4) dis free_frames_less [OF inv] by (auto simp: pages_def)
  have N: "N \<le> length ?ks" "length ?ks \<le> max (length ks) N" using pf(2) by auto
  have Nl: "P + length buf \<le> N * 4096"
    using False by (simp add: qo frames_needed_def)
  then have Pl: "P + length buf \<le> length ?ks * 4096" using N(1) by (meson le_trans mult_le_mono1)
  then have q: "q < length ?ks" using False P by (cases buf) simp_all
  have idx: "unat (addr_to_page_id (vf_pos f)) = q" "unat (page_offset (vf_pos f)) = o'"
    by (simp_all add: unat_addr_to_page_id unat_page_offset qo P_def)
  have at: "at (map frame_of ks @ map frame_of ks') q = Some (frame_of (?ks ! q))" using at_map_frame [OF q] by simp
  define res where "res = (\<lambda>m' :: machine. Some (Some (of_nat (length buf) :: usize), f\<lparr>vf_frames := map frame_of ?ks,
       vf_pos := vf_pos f + of_nat (length buf), vf_size := max (vf_size f) (vf_pos f + of_nat (length buf))\<rparr>, m'))"
  have "\<exists>m'. write_inner bf f buf m = res m' \<and> writes ?ks P buf m1 m'"
  proof (cases "o' + length buf \<le> 4096")
    case True
    obtain m2 where "frame_slice_write kernel_config (frame_of (?ks ! q)) o' buf m1 = Some m2" "writes ?ks P buf m1 m2"
      using page_write [OF pg' q True, of m1] P by blast
    then show ?thesis using True False pf(1) by (simp add: write_inner_def res_def Let_def fr need idx at)
  next
    case large: False
    let ?bs = "take (4096 - o') buf"
    have l: "length ?bs = 4096 - o'" and s: "slice buf 0 (4096 - o') = Some ?bs" using large by (simp_all add: slice_def)
    obtain m2 where m2: "frame_slice_write kernel_config (frame_of (?ks ! q)) o' ?bs m1 = Some m2" "writes ?ks P ?bs m1 m2"
      using page_write [OF pg' q, of o' ?bs m1] l o' P by auto
    have h: "4096 - o' \<le> length buf" "Suc q * 4096 + (length buf - (4096 - o')) \<le> length ?ks * 4096"
      using Pl P large o' by auto
    obtain m3 where m3: "write_pages (map frame_of (drop (Suc q) ?ks)) (4096 - o') buf m2 = Some m3"
      "writes ?ks (Suc q * 4096) (drop (4096 - o') buf) m2 m3"
      using write_pages_ok [OF pg' h] by blast
    have "writes ?ks P (?bs @ drop (4096 - o') buf) m1 m3"
      by (rule writes_trans [OF m2(2)]) (use m3(2) l o' P in \<open>simp add: add.commute\<close>)
    then show ?thesis using large False pf(1) s m2(1) m3(1)
      by (simp add: write_inner_def res_def Let_def fr need idx at drop_map)
  qed
  then obtain m' where m': "write_inner bf f buf m = res m'" "writes ?ks P buf m1 m'" by blast
  then have fa: "frame_allocator m' = frame_allocator m1" by (simp add: writes_def)
  show ?thesis
  proof (rule that [of ks' m' m1])
    show "write_inner bf f buf m = Some (Some (of_nat (length buf)), f\<lparr>vf_frames := map frame_of (ks @ ks'),
       vf_pos := vf_pos f + of_nat (length buf),
       vf_size := (if buf = [] then vf_size f else max (vf_size f) (vf_pos f + of_nat (length buf)))\<rparr>, m')"
      unfolding m'(1) res_def using False by simp
    show "frames_inv bf m'" "free_frames bf m' = free_frames bf m - set ks'" unfolding fa by fact+
    show "frames_needed P (length buf) \<le> length ?ks" "length ?ks \<le> max (length ks) (frames_needed P (length buf))"
      using N unfolding qo(3) by blast+
  qed fact+
qed

text \<open>File \<open>f\<close> holds the bytes \<open>c\<close>.\<close>

definition vf_rep :: "bit_field16 \<Rightarrow> machine \<Rightarrow> virt_file \<Rightarrow> byte list \<Rightarrow> bool" where
  "vf_rep bf m f c \<longleftrightarrow> (\<exists>ks. vf_ok bf m f ks \<and> c = bytes_of m ks 0 (unat (vf_size f)))"

lemma bytes_of_prefix:
  assumes "a + n \<le> b" shows "bytes_of m ks a (a + n) = take n (drop a (bytes_of m ks 0 b))"
  using assms by (intro nth_equalityI) auto

lemma vf_rep_length: "vf_rep bf m f c \<Longrightarrow> length c = unat (vf_size f)"
  by (auto simp: vf_rep_def)

lemma vf_read_rep:
  assumes "vf_rep bf m f c" "vf_pos f \<le> vf_size f" "n = min (length buf) (length c - unat (vf_pos f))"
  shows "read_inner f buf m =
    Some (Some (of_nat n), take n (drop (unat (vf_pos f)) c) @ drop n buf, f\<lparr>vf_pos := vf_pos f + of_nat n\<rparr>)"
proof -
  obtain ks where ok: "vf_ok bf m f ks" and c: "c = bytes_of m ks 0 (unat (vf_size f))" using assms(1) by (auto simp: vf_rep_def)
  have n: "n = min (length buf) (unat (vf_size f) - unat (vf_pos f))" using assms(3) c by simp
  have "unat (vf_pos f) + n \<le> unat (vf_size f)" using n assms(2) by (simp add: word_le_unat)
  then show ?thesis using read_inner_ok [OF ok assms(2) n] bytes_of_prefix c by simp
qed

lemma vf_write_rep:
  assumes "vf_rep bf m f c" "vf_pos f \<le> vf_size f" "unat (vf_pos f) + length buf < 2 ^ 64"
    and "frames_needed (unat (vf_pos f)) (length buf) \<le> length (vf_frames f) + card (free_frames bf m)"
  shows "\<exists>f' m'. write_inner bf f buf m = Some (Some (of_nat (length buf)), f', m') \<and>
    vf_rep bf m' f' (take (unat (vf_pos f)) c @ buf @ drop (unat (vf_pos f) + length buf) c) \<and>
    vf_pos f' = vf_pos f + of_nat (length buf) \<and>
    length (vf_frames f') + card (free_frames bf m') = length (vf_frames f) + card (free_frames bf m)"
proof -
  let ?P = "unat (vf_pos f)"
  obtain ks where ok: "vf_ok bf m f ks" and c: "c = bytes_of m ks 0 (unat (vf_size f))" using assms(1) by (auto simp: vf_rep_def)
  have room: "?P + length buf < 18446744073709551616" using assms(3) by simp
  have fr: "frames_needed ?P (length buf) \<le> length ks + card (free_frames bf m)" using assms(4) ok by (simp add: vf_ok_def)
  obtain ks' m1 m' where w: "write_inner bf f buf m = Some (Some (of_nat (length buf)), f\<lparr>vf_frames := map frame_of (ks @ ks'),
       vf_pos := vf_pos f + of_nat (length buf),
       vf_size := (if buf = [] then vf_size f else max (vf_size f) (vf_pos f + of_nat (length buf)))\<rparr>, m')"
    (is "_ = Some (_, ?f, _)")
    "pages (ks @ ks')" "set ks' \<subseteq> free_frames bf m" "frames_inv bf m'" "free_frames bf m' = free_frames bf m - set ks'"
    "mem m1 = mem m" "writes (ks @ ks') ?P buf m1 m'" "frames_needed ?P (length buf) \<le> length (ks @ ks')"
    by (rule write_inner_ok [OF ok room fr])
  have pn: "unat (vf_pos f + of_nat (length buf)) = ?P + length buf" using room by (simp add: unat_add_small unat_of_nat)
  have sz: "unat (vf_size ?f) = max (unat (vf_size f)) (?P + length buf)"
    using pn assms(2) by (auto simp: max_def word_le_unat)
  have "?P + length buf \<le> length (ks @ ks') * 4096 \<or> buf = []"
    using w(8) by (auto simp: frames_needed_def Suc_le_eq div_less_iff_less_mult)
  moreover have szk: "unat (vf_size f) \<le> length ks * 4096" using ok by (simp add: vf_ok_def)
  ultimately have cap: "unat (vf_size ?f) \<le> length (ks @ ks') * 4096" using sz assms(2) by (auto simp: word_le_unat)
  have ok': "vf_ok bf m' ?f (ks @ ks')" using w ok cap by (auto simp: vf_ok_def)
  have "bytes_of m' (ks @ ks') 0 (unat (vf_size ?f)) = take ?P c @ buf @ drop (?P + length buf) c"
  proof (rule nth_equalityI)
    fix i assume "i < length (bytes_of m' (ks @ ks') 0 (unat (vf_size ?f)))"
    then have iz: "i < unat (vf_size ?f)" unfolding length_bytes_of by (rule less_le_trans) simp
    then have i: "i < max (unat (vf_size f)) (?P + length buf)" "i < length (ks @ ks') * 4096"
      using less_le_trans [OF iz cap] unfolding sz by blast+
    have "byte_of m' (ks @ ks') i = (if ?P \<le> i \<and> i < ?P + length buf then buf ! (i - ?P) else byte_of m (ks @ ks') i)"
      using w(7) i(2) byte_of_mem [OF w(6)] by (simp add: writes_def)
    moreover have "byte_of m (ks @ ks') i = byte_of m ks i" if "i < unat (vf_size f)"
    proof -
      have "i div 4096 < length ks" using that szk by (intro div_less_pages) simp
      then show ?thesis by (simp add: byte_of_def nth_append)
    qed
    ultimately show "bytes_of m' (ks @ ks') 0 (unat (vf_size ?f)) ! i = (take ?P c @ buf @ drop (?P + length buf) c) ! i"
      using i sz assms(2) by (auto simp: c nth_append word_le_unat)
  qed (use sz assms(2) in \<open>auto simp: c word_le_unat\<close>)
  then have "vf_rep bf m' ?f (take ?P c @ buf @ drop (?P + length buf) c)" using ok' by (auto simp: vf_rep_def)
  moreover have "length (vf_frames ?f) + card (free_frames bf m') = length (vf_frames f) + card (free_frames bf m)"
  proof -
    have fin: "finite (free_frames bf m)" using free_frames_less ok by (auto simp: vf_ok_def intro: finite_subset [of _ "{..<16777216}"])
    have "distinct ks'" using w(2) by (simp add: pages_def)
    then have "card (free_frames bf m') + length ks' = card (free_frames bf m)"
      using card_mono [OF fin w(3)] by (simp add: w(5) card_Diff_subset [OF _ w(3)] distinct_card)
    then show ?thesis using ok by (simp add: vf_ok_def)
  qed
  ultimately show ?thesis using w(1) by auto
qed

text \<open>C32: Reading a file at a position not behind its end copies the bytes from there, at most as many as the buffer holds,
  into the buffer, leaves the rest of the buffer alone and moves the position behind them.\<close>

theorem virt_file_read:
  assumes "vf_rep bf m f c" "vf_pos f \<le> vf_size f" "n = min (length buf) (length c - unat (vf_pos f))"
  shows "read_inner f buf m =
    Some (Some (of_nat n), take n (drop (unat (vf_pos f)) c) @ drop n buf, f\<lparr>vf_pos := vf_pos f + of_nat n\<rparr>)"
  by (rule vf_read_rep [OF assms])

text \<open>C33: Writing at a position not behind the end, with page frames left for it, replaces the bytes from there by the buffer,
  extends the file when the buffer reaches past its end, keeps every other byte and moves the position behind the buffer.\<close>

theorem virt_file_write:
  assumes "vf_rep bf m f c" "vf_pos f \<le> vf_size f" "unat (vf_pos f) + length buf < 2 ^ 64"
    and "frames_needed (unat (vf_pos f)) (length buf) \<le> length (vf_frames f) + card (free_frames bf m)"
  shows "\<exists>f' m'. write_inner bf f buf m = Some (Some (of_nat (length buf)), f', m') \<and>
    vf_rep bf m' f' (take (unat (vf_pos f)) c @ buf @ drop (unat (vf_pos f) + length buf) c) \<and>
    vf_pos f' = vf_pos f + of_nat (length buf)"
  using vf_write_rep [OF assms] by blast

text \<open>C34: Reading behind the end of a file. \<^verbatim>\<open>seek\<close> accepts a position behind the end, and there \<^verbatim>\<open>self.size - self.pos\<close> wraps around, so the end of the file
  is not seen. Behind the last page the read panics. In a page that the file still has, it reports that it filled the whole buffer; the buffer gets the bytes of the
  pages that do not belong to the file, and keeps its own bytes where the pages end.\<close>

theorem virt_file_read_behind_end:
  assumes "vf_ok bf m f ks" "vf_size f < pos" "buf \<noteq> []" "length buf \<le> unat (vf_size f - pos)"
  shows "vf_seek f (SeekStart pos) = (Some pos, f\<lparr>vf_pos := pos\<rparr>) \<and>
    read_inner (f\<lparr>vf_pos := pos\<rparr>) buf m =
      (if unat pos < length ks * 4096
       then let k = min (length buf) (length ks * 4096 - unat pos)
         in Some (Some (of_nat (length buf)), bytes_of m ks (unat pos) (unat pos + k) @ drop k buf, f\<lparr>vf_pos := pos + of_nat (length buf)\<rparr>)
       else None)"
proof -
  let ?f = "f\<lparr>vf_pos := pos\<rparr>"
  have fr: "vf_frames ?f = map frame_of ks" using assms(1) by (simp add: vf_ok_def)
  have n: "length buf = min (length buf) (unat (vf_size ?f - vf_pos ?f))" "length buf \<noteq> 0" using assms(3,4) by simp_all
  have "read_inner ?f buf m = None" if "\<not> unat pos < length ks * 4096"
  proof -
    have "at (vf_frames ?f) (unat (addr_to_page_id pos)) = None" using that fr by (simp add: at_def unat_addr_to_page_id)
    then show ?thesis using n by (simp add: read_inner_def Let_def)
  qed
  moreover have "read_inner ?f buf m = Some (Some (of_nat (length buf)), bytes_of m ks (unat pos) (unat pos + k) @ drop k buf, f\<lparr>vf_pos := pos + of_nat (length buf)\<rparr>)"
    if "unat pos < length ks * 4096" "k = min (length buf) (length ks * 4096 - unat pos)" for k
    using read_inner_pages [OF fr _ n, of k m] that by simp
  ultimately show ?thesis by (simp add: Let_def)
qed

subsection \<open>Examples\<close>

text \<open>A file of three zero bytes in page frame 5.\<close>

definition demo_file :: virt_file where
  "demo_file = \<lparr>vf_frames = [frame_of 5], vf_size = 3, vf_pos = 1, vf_flags = 0\<rparr>"

lemma demo_file_ok: "vf_ok ref_bit_field (machine_with 6 9) demo_file [5]"
  using machine_with_frames [of 6 9] by (simp add: vf_ok_def demo_file_def pages_def)

lemma demo_file_rep: "vf_rep ref_bit_field (machine_with 6 9) demo_file [0, 0, 0]"
proof -
  have "mem (machine_with 6 9) = (\<lambda>_. 0)" unfolding machine_with_def machine.simps ..
  then have "bytes_of (machine_with 6 9) [5] 0 3 = [0, 0, 0]"
    by (simp add: bytes_of_def byte_of_def map_replicate_const numeral_3_eq_3)
  moreover note demo_file_ok
  moreover have "unat (vf_size demo_file) = 3" by (simp add: demo_file_def)
  ultimately show ?thesis unfolding vf_rep_def by (intro exI [of _ "[5]"]) simp
qed

theorem virt_file_read_witness:
  "read_inner demo_file [9, 9, 9, 9] (machine_with 6 9) = Some (Some 2, [0, 0, 9, 9], demo_file\<lparr>vf_pos := 3\<rparr>)"
  using virt_file_read [OF demo_file_rep, where n = 2 and buf = "[9, 9, 9, 9]"] by (simp add: demo_file_def)

theorem virt_file_write_witness:
  "\<exists>f' m'. write_inner ref_bit_field demo_file [7, 8, 9] (machine_with 6 9) = Some (Some 3, f', m') \<and>
     vf_rep ref_bit_field m' f' [0, 7, 8, 9] \<and> vf_pos f' = 4"
  using virt_file_write [OF demo_file_rep, where buf = "[7, 8, 9]"] by (simp add: demo_file_def frames_needed_def)

theorem virt_file_read_behind_end_witness:
  "read_inner (demo_file\<lparr>vf_pos := 4095\<rparr>) [9, 9] (machine_with 6 9) = Some (Some 2, [0, 9], demo_file\<lparr>vf_pos := 4097\<rparr>) \<and>
   read_inner (demo_file\<lparr>vf_pos := 4096\<rparr>) [9] (machine_with 6 9) = None"
proof -
  have ok: "vf_ok ref_bit_field (machine_with 6 9) demo_file [5]" by (rule demo_file_ok)
  have m: "mem (machine_with 6 9) = (\<lambda>_. 0)" unfolding machine_with_def machine.simps ..
  show ?thesis
    using virt_file_read_behind_end [OF ok, of 4095 "[9, 9]"] virt_file_read_behind_end [OF ok, of 4096 "[9]"]
    by (simp add: demo_file_def bytes_of_def byte_of_def m)
qed

end
