(* ===== verification/Pipe.thy ===== *)
theory Pipe
  imports Virt_File
begin

text \<open>
  Pipes, \<^verbatim>\<open>kernel/src/file/pipe.rs\<close>: the ring buffer on a file kept in page frames, and the two ends that share it.

  The shared state of a pipe is its ring buffer and the reference count of the \<^verbatim>\<open>Arc\<close> around it. \<^verbatim>\<open>suspend_current_task\<close> lets other
  tasks run; what they do to the pipe is the argument \<open>suspend\<close>.

  The ring buffer is shown to be a bounded queue of bytes (locale \<open>byte_queue\<close>); inside the locale every run of
  interleaved reads and writes keeps the bytes in order.
\<close>

definition PIPE_SIZE_LIMIT :: usize where "PIPE_SIZE_LIMIT = 0x40000"

subsection \<open>RingBuffer\<close>

record ring_buffer =
  rb_data :: virt_file
  rb_head :: usize
  rb_end :: usize
  rb_len :: usize
  rb_limit :: usize

definition rb_new :: "usize \<Rightarrow> ring_buffer" where
  "rb_new size_limit = \<lparr>rb_data = virt_file_new 0, rb_head = 0, rb_end = 0, rb_len = 0, rb_limit = size_limit\<rparr>"

definition rb_read :: "ring_buffer \<Rightarrow> byte list \<Rightarrow> machine \<Rightarrow> (nat \<times> byte list \<times> ring_buffer) option" where
  "rb_read self buf m =
     (let max_len = min (length buf) (unat (rb_len self));
          self = self\<lparr>rb_len := rb_len self - of_nat max_len\<rparr>;
          data = set_pos (rb_data self) (rb_head self)
      in if rb_head self + of_nat max_len \<le> rb_limit self then do {
           b \<leftarrow> slice buf 0 max_len;
           (_, b, data) \<leftarrow> read_inner data b m;
           Some (max_len, b @ drop max_len buf, self\<lparr>rb_data := data, rb_head := rb_head self + of_nat max_len\<rparr>)
         }
         else do {
           let k = unat (rb_limit self - rb_head self);
           b1 \<leftarrow> slice buf 0 k;
           (_, b1, data) \<leftarrow> read_inner data b1 m;
           b2 \<leftarrow> slice buf k max_len;
           (_, b2, data) \<leftarrow> read_inner (set_pos data 0) b2 m;
           Some (max_len, b1 @ b2 @ drop max_len buf,
             self\<lparr>rb_data := data, rb_head := rb_head self + of_nat max_len - rb_limit self\<rparr>)
         })"

definition rb_write ::
  "bit_field16 \<Rightarrow> ring_buffer \<Rightarrow> byte list \<Rightarrow> machine \<Rightarrow> (nat \<times> ring_buffer \<times> machine) option" where
  "rb_write bf self buf m =
     (let max_len = min (length buf) (unat (rb_limit self - rb_len self));
          self = self\<lparr>rb_len := rb_len self + of_nat max_len\<rparr>;
          data = set_pos (rb_data self) (rb_end self)
      in if rb_end self + of_nat max_len \<le> rb_limit self then do {
           b \<leftarrow> slice buf 0 max_len;
           (_, data, m) \<leftarrow> write_inner bf data b m;
           Some (max_len, self\<lparr>rb_data := data, rb_end := rb_end self + of_nat max_len\<rparr>, m)
         }
         else do {
           let k = unat (rb_limit self - rb_end self);
           b1 \<leftarrow> slice buf 0 k;
           (_, data, m) \<leftarrow> write_inner bf data b1 m;
           b2 \<leftarrow> slice buf k max_len;
           (_, data, m) \<leftarrow> write_inner bf (set_pos data 0) b2 m;
           Some (max_len, self\<lparr>rb_data := data, rb_end := rb_end self + of_nat max_len - rb_limit self\<rparr>, m)
         })"

definition rb_get_len :: "ring_buffer \<Rightarrow> usize" where
  "rb_get_len self = rb_len self"

definition rb_is_full :: "ring_buffer \<Rightarrow> bool" where
  "rb_is_full self \<longleftrightarrow> rb_len self = rb_limit self"

definition rb_is_empty :: "ring_buffer \<Rightarrow> bool" where
  "rb_is_empty self \<longleftrightarrow> rb_len self = 0"

subsection \<open>Pipe\<close>

record pipe_state =
  pipe_data :: ring_buffer
  strong_count :: nat

text \<open>\<^verbatim>\<open>new_pipe\<close>: the shared buffer, referenced by the two ends; an end is its flag \<^verbatim>\<open>is_read\<close>.\<close>

definition new_pipe :: "(bool \<times> bool) \<times> pipe_state" where
  "new_pipe = ((True, False), \<lparr>pipe_data = rb_new PIPE_SIZE_LIMIT, strong_count = 2\<rparr>)"

type_synonym suspend = "pipe_state \<times> machine \<Rightarrow> pipe_state \<times> machine"

text \<open>The retry loops; \<open>tries\<close> counts down from 2 where the code counts \<^verbatim>\<open>cnt\<close> up to it.\<close>

fun pipe_read_loop ::
  "suspend \<Rightarrow> nat \<Rightarrow> nat \<Rightarrow> byte list \<Rightarrow> pipe_state \<Rightarrow> machine \<Rightarrow> (nat \<times> byte list \<times> pipe_state \<times> machine) option" where
  "pipe_read_loop suspend tries read_len buf st m =
     (if read_len < length buf \<and> strong_count st = 2 then
        (case tries of
           0 \<Rightarrow> Some (read_len, buf, st, m)
         | Suc tries \<Rightarrow> do {
             let (st, m) = suspend (st, m);
             (n, b, rb) \<leftarrow> rb_read (pipe_data st) (drop read_len buf) m;
             pipe_read_loop suspend tries (read_len + n) (take read_len buf @ b) (st\<lparr>pipe_data := rb\<rparr>) m
           })
      else Some (read_len, buf, st, m))"

definition pipe_read ::
  "suspend \<Rightarrow> bool \<Rightarrow> byte list \<Rightarrow> pipe_state \<Rightarrow> machine \<Rightarrow> (nat option \<times> byte list \<times> pipe_state \<times> machine) option" where
  "pipe_read suspend is_read buf st m =
     (if is_read then do {
        (read_len, buf, rb) \<leftarrow> rb_read (pipe_data st) buf m;
        (read_len, buf, st, m) \<leftarrow> pipe_read_loop suspend 2 read_len buf (st\<lparr>pipe_data := rb\<rparr>) m;
        Some (Some read_len, buf, st, m)
      }
      else Some (None, buf, st, m))"

fun pipe_write_loop ::
  "bit_field16 \<Rightarrow> suspend \<Rightarrow> nat \<Rightarrow> nat \<Rightarrow> byte list \<Rightarrow> pipe_state \<Rightarrow> machine \<Rightarrow> (nat \<times> pipe_state \<times> machine) option" where
  "pipe_write_loop bf suspend tries write_len buf st m =
     (if write_len < length buf \<and> strong_count st = 2 then
        (case tries of
           0 \<Rightarrow> Some (write_len, st, m)
         | Suc tries \<Rightarrow> do {
             let (st, m) = suspend (st, m);
             (n, rb, m) \<leftarrow> rb_write bf (pipe_data st) (drop write_len buf) m;
             pipe_write_loop bf suspend tries (write_len + n) buf (st\<lparr>pipe_data := rb\<rparr>) m
           })
      else Some (write_len, st, m))"

definition pipe_write ::
  "bit_field16 \<Rightarrow> suspend \<Rightarrow> bool \<Rightarrow> byte list \<Rightarrow> pipe_state \<Rightarrow> machine \<Rightarrow> (nat option \<times> pipe_state \<times> machine) option" where
  "pipe_write bf suspend is_read buf st m =
     (if is_read then Some (None, st, m)
      else do {
        (write_len, rb, m) \<leftarrow> rb_write bf (pipe_data st) buf m;
        (write_len, st, m) \<leftarrow> pipe_write_loop bf suspend 2 write_len buf (st\<lparr>pipe_data := rb\<rparr>) m;
        Some (Some write_len, st, m)
      })"

definition pipe_ready_to_read :: "bool \<Rightarrow> pipe_state \<Rightarrow> bool" where
  "pipe_ready_to_read is_read st \<longleftrightarrow> is_read \<and> \<not> rb_is_empty (pipe_data st)"

definition pipe_ready_to_write :: "bool \<Rightarrow> pipe_state \<Rightarrow> bool" where
  "pipe_ready_to_write is_read st \<longleftrightarrow> \<not> is_read \<and> \<not> rb_is_full (pipe_data st)"

definition pipe_is_hang_up :: "bool \<Rightarrow> pipe_state \<Rightarrow> bool" where
  "pipe_is_hang_up is_read st \<longleftrightarrow>
     (if is_read then rb_is_empty (pipe_data st) \<and> strong_count st < 2 else strong_count st < 2)"

subsection \<open>The ring buffer holds a queue\<close>

text \<open>Position of the \<open>i\<close>-th byte of the queue, and the queue of a buffer with contents \<open>c\<close>.\<close>

definition ring_pos :: "nat \<Rightarrow> nat \<Rightarrow> nat \<Rightarrow> nat" where
  "ring_pos L H i = (if H + i < L then H + i else H + i - L)"

definition rb_rep :: "bit_field16 \<Rightarrow> machine \<Rightarrow> ring_buffer \<Rightarrow> byte list \<Rightarrow> bool" where
  "rb_rep bf m rb q \<longleftrightarrow>
     (\<exists>c H E L n. vf_rep bf m (rb_data rb) c \<and> H = unat (rb_head rb) \<and> E = unat (rb_end rb) \<and> L = unat (rb_limit rb) \<and>
        n = unat (rb_len rb) \<and> H \<le> L \<and> E \<le> L \<and> n \<le> L \<and> length c \<le> L \<and> L < 2 ^ 63 \<and>
        (E = H + n \<and> E \<le> length c \<or> E + L = H + n \<and> length c = L) \<and>
        frames_needed 0 L \<le> length (vf_frames (rb_data rb)) + card (free_frames bf m) \<and>
        q = map (\<lambda>i. c ! ring_pos L H i) [0..<n])"

lemma rb_repI:
  assumes "vf_rep bf m (rb_data rb) c" "unat (rb_head rb) = H" "unat (rb_end rb) = E" "unat (rb_limit rb) = L"
    "unat (rb_len rb) = n" "H \<le> L" "E \<le> L" "n \<le> L" "length c \<le> L" "L < 2 ^ 63"
    "E = H + n \<and> E \<le> length c \<or> E + L = H + n \<and> length c = L"
    "frames_needed 0 L \<le> length (vf_frames (rb_data rb)) + card (free_frames bf m)"
    "length q = n" "\<And>i. i < n \<Longrightarrow> q ! i = c ! ring_pos L H i"
  shows "rb_rep bf m rb q"
proof -
  have "q = map (\<lambda>i. c ! ring_pos L H i) [0..<n]" using assms(13,14) by (intro nth_equalityI) auto
  then show ?thesis unfolding rb_rep_def using assms(1-12)
    by (intro exI [of _ c] exI [of _ H] exI [of _ E] exI [of _ L] exI [of _ n]) simp
qed

lemma frames_needed_mono: "P + n \<le> L \<Longrightarrow> frames_needed P n \<le> frames_needed 0 L"
  by (auto simp: frames_needed_def intro: div_le_mono)

lemma vf_rep_set_pos [simp]: "vf_rep bf m (set_pos f p) c = vf_rep bf m f c"
  by (simp add: vf_rep_def vf_ok_def set_pos_def)

lemma set_pos_simps [simp]: "vf_pos (set_pos f p) = p" "vf_frames (set_pos f p) = vf_frames f" "vf_size (set_pos f p) = vf_size f"
  by (simp_all add: set_pos_def)

text \<open>The reads and writes the ring buffer makes: at a position, all of the buffer.\<close>

lemma read_at:
  assumes "vf_rep bf m f c" "unat p + length b \<le> length c"
  obtains f' where "read_inner (set_pos f p) b m = Some (Some (of_nat (length b)), take (length b) (drop (unat p) c), f')"
    "vf_rep bf m f' c" "vf_frames f' = vf_frames f"
proof -
  have "p \<le> vf_size f" using assms by (simp add: word_le_unat vf_rep_length)
  then have "read_inner (set_pos f p) b m = Some (Some (of_nat (length b)), take (length b) (drop (unat p) c),
      (set_pos f p)\<lparr>vf_pos := p + of_nat (length b)\<rparr>)"
    using vf_read_rep [of bf m "set_pos f p" c "length b" b] assms by simp
  moreover have "vf_rep bf m ((set_pos f p)\<lparr>vf_pos := p + of_nat (length b)\<rparr>) c"
    using assms(1) by (simp add: vf_rep_def vf_ok_def set_pos_def)
  ultimately show ?thesis using that by simp
qed

lemma write_at:
  assumes "vf_rep bf m f c" "unat p \<le> length c" "unat p + length b \<le> L" "L < 2 ^ 63"
    "frames_needed 0 L \<le> length (vf_frames f) + card (free_frames bf m)"
  obtains f' m' where "write_inner bf (set_pos f p) b m = Some (Some (of_nat (length b)), f', m')"
    "vf_rep bf m' f' (take (unat p) c @ b @ drop (unat p + length b) c)"
    "frames_needed 0 L \<le> length (vf_frames f') + card (free_frames bf m')"
proof -
  have "p \<le> vf_size f" using assms(1,2) by (simp add: word_le_unat vf_rep_length)
  moreover have "frames_needed (unat p) (length b) \<le> length (vf_frames f) + card (free_frames bf m)"
    using frames_needed_mono [OF assms(3)] assms(5) by linarith
  ultimately show ?thesis
    using vf_write_rep [of bf m "set_pos f p" c b] assms that by auto
qed

lemma slice_0 [simp]: "k \<le> length xs \<Longrightarrow> slice xs 0 k = Some (take k xs)"
  by (simp add: slice_def)

text \<open>The sums of the code do not wrap around.\<close>

lemma ring_sums:
  fixes h l :: usize
  assumes "unat h \<le> unat l" "unat l < 2 ^ 63" "k \<le> unat l"
  shows "unat (h + of_nat k) = unat h + k" "h + of_nat k \<le> l \<longleftrightarrow> unat h + k \<le> unat l"
    "unat l < unat h + k \<Longrightarrow> unat (h + of_nat k - l) = unat h + k - unat l" "unat (l - h) = unat l - unat h"
proof -
  show *: "unat (h + of_nat k) = unat h + k" using assms by (simp add: unat_add_small unat_of_nat)
  then show "h + of_nat k \<le> l \<longleftrightarrow> unat h + k \<le> unat l" by (simp add: word_le_unat)
  show "unat l < unat h + k \<Longrightarrow> unat (h + of_nat k - l) = unat h + k - unat l"
    using * by (subst unat_sub_le) (simp_all add: word_le_unat)
  show "unat (l - h) = unat l - unat h" using assms(1) by (simp add: unat_sub_le word_le_unat)
qed

lemma rb_read_ok:
  assumes rep: "rb_rep bf m rb q" and k: "k = min (length buf) (length q)"
  obtains rb' where "rb_read rb buf m = Some (k, take k q @ drop k buf, rb')" "rb_rep bf m rb' (drop k q)"
    "rb_limit rb' = rb_limit rb"
proof -
  obtain c H E L n where c: "vf_rep bf m (rb_data rb) c" and HE: "H = unat (rb_head rb)" "E = unat (rb_end rb)"
    "L = unat (rb_limit rb)" "n = unat (rb_len rb)" and le: "H \<le> L" "E \<le> L" "n \<le> L" "length c \<le> L" "L < 2 ^ 63"
    and wrap: "E = H + n \<and> E \<le> length c \<or> E + L = H + n \<and> length c = L"
    and fr: "frames_needed 0 L \<le> length (vf_frames (rb_data rb)) + card (free_frames bf m)"
    and q: "q = map (\<lambda>i. c ! ring_pos L H i) [0..<n]" using rep unfolding rb_rep_def by blast
  have kn: "k \<le> n" "k \<le> length buf" "min (length buf) (unat (rb_len rb)) = k" using k q HE by auto
  note sums = ring_sums [of "rb_head rb" "rb_limit rb" k, folded HE]
  have len': "unat (rb_len rb - of_nat k) = n - k"
    using kn(1) HE(4) le(3,5) by (subst unat_sub_le) (auto simp: word_le_unat unat_of_nat)
  show ?thesis
  proof (cases "H + k \<le> L")
    case True
    have room: "unat (rb_head rb) + length (take k buf) \<le> length c" using True kn wrap le HE by auto
    obtain d where d: "read_inner (set_pos (rb_data rb) (rb_head rb)) (take k buf) m = Some (Some (of_nat k), take k (drop H c), d)"
      "vf_rep bf m d c" "vf_frames d = vf_frames (rb_data rb)"
      using read_at [OF c room] kn HE by auto
    have tq: "take k (drop H c) = take k q"
      by (rule nth_equalityI) (use True kn wrap le in \<open>auto simp: q ring_pos_def\<close>)
    define rb' where "rb' = rb\<lparr>rb_len := rb_len rb - of_nat k, rb_data := d, rb_head := rb_head rb + of_nat k\<rparr>"
    have "rb_read rb buf m = Some (k, take k q @ drop k buf, rb')"
      using True sums le d(1) kn tq HE by (simp add: rb_read_def Let_def rb'_def)
    moreover have "rb_rep bf m rb' (drop k q)"
      by (rule rb_repI [where c = c and H = "H + k" and E = E and L = L and n = "n - k"])
        (use True sums le d(2,3) kn(1) wrap fr HE len' in \<open>auto simp: rb'_def q ring_pos_def add.assoc\<close>)
    ultimately show ?thesis using that by (simp add: rb'_def)
  next
    case False
    then have w: "E + L = H + n" "length c = L" using wrap kn le by auto
    let ?a = "L - H"
    have a: "?a \<le> k" "?a \<le> length buf" using False kn le by auto
    have room: "unat (rb_head rb) + length (take ?a buf) \<le> length c" using w le HE a by simp
    obtain d where d: "read_inner (set_pos (rb_data rb) (rb_head rb)) (take ?a buf) m = Some (Some (of_nat ?a), take ?a (drop H c), d)"
      "vf_rep bf m d c" "vf_frames d = vf_frames (rb_data rb)"
      using read_at [OF c room] a HE by auto
    let ?b = "take (k - ?a) (drop ?a buf)"
    have lb: "length ?b = k - ?a" using a kn by simp
    have room2: "unat (0 :: usize) + length ?b \<le> length c" using w le kn lb by simp
    obtain d2 where d2: "read_inner (set_pos d 0) ?b m = Some (Some (of_nat (k - ?a)), take (k - ?a) c, d2)"
      "vf_rep bf m d2 c" "vf_frames d2 = vf_frames d"
      using read_at [OF d(2) room2] lb by auto
    have tq: "take ?a (drop H c) @ take (k - ?a) c = take k q"
      by (rule nth_equalityI) (use False kn(1,2) w le in \<open>auto simp: q ring_pos_def nth_append add.commute\<close>)
    define rb' where "rb' = rb\<lparr>rb_len := rb_len rb - of_nat k, rb_data := d2, rb_head := rb_head rb + of_nat k - rb_limit rb\<rparr>"
    have sl: "slice buf ?a k = Some ?b" using a kn by (simp add: slice_def)
    have "rb_read rb buf m = Some (k, (take ?a (drop H c) @ take (k - ?a) c) @ drop k buf, rb')"
      using False sums le d(1) d2(1) kn HE a sl by (simp add: rb_read_def Let_def rb'_def)
    moreover have "rb_rep bf m rb' (drop k q)"
      by (rule rb_repI [where c = c and H = "H + k - L" and E = E and L = L and n = "n - k"])
        (use False sums le d2(2,3) d(3) kn(1) w fr HE len' in \<open>auto simp: rb'_def q ring_pos_def add.assoc\<close>)
    ultimately show ?thesis using that tq by (simp add: rb'_def)
  qed
qed

lemma rb_write_ok:
  assumes rep: "rb_rep bf m rb q" and k: "k = min (length buf) (unat (rb_limit rb) - length q)"
  obtains rb' m' where "rb_write bf rb buf m = Some (k, rb', m')" "rb_rep bf m' rb' (q @ take k buf)"
    "rb_limit rb' = rb_limit rb"
proof -
  obtain c H E L n where c: "vf_rep bf m (rb_data rb) c" and HE: "H = unat (rb_head rb)" "E = unat (rb_end rb)"
    "L = unat (rb_limit rb)" "n = unat (rb_len rb)" and le: "H \<le> L" "E \<le> L" "n \<le> L" "length c \<le> L" "L < 2 ^ 63"
    and wrap: "E = H + n \<and> E \<le> length c \<or> E + L = H + n \<and> length c = L"
    and fr: "frames_needed 0 L \<le> length (vf_frames (rb_data rb)) + card (free_frames bf m)"
    and q: "q = map (\<lambda>i. c ! ring_pos L H i) [0..<n]" using rep unfolding rb_rep_def by blast
  have free: "unat (rb_limit rb - rb_len rb) = L - n" using le HE by (simp add: unat_sub_le word_le_unat)
  have kn: "n + k \<le> L" "k \<le> length buf" "min (length buf) (unat (rb_limit rb - rb_len rb)) = k"
    using k q le free HE(3) by auto
  note sums = ring_sums [of "rb_end rb" "rb_limit rb" k, folded HE]
  have len': "unat (rb_len rb + of_nat k) = n + k"
    using kn(1) HE(4) le(5) by (simp add: unat_add_small unat_of_nat)
  have Ec: "E \<le> length c" using wrap le by auto
  show ?thesis
  proof (cases "E + k \<le> L")
    case True
    have room: "unat (rb_end rb) \<le> length c" "unat (rb_end rb) + length (take k buf) \<le> L" using Ec True kn(2) HE by auto
    obtain d m' where d: "write_inner bf (set_pos (rb_data rb) (rb_end rb)) (take k buf) m = Some (Some (of_nat k), d, m')"
      "vf_rep bf m' d (take E c @ take k buf @ drop (E + k) c)" (is "vf_rep _ _ _ ?c")
      "frames_needed 0 L \<le> length (vf_frames d) + card (free_frames bf m')"
      using write_at [OF c room le(5) fr] kn(2) HE by auto
    define rb' where "rb' = rb\<lparr>rb_len := rb_len rb + of_nat k, rb_data := d, rb_end := rb_end rb + of_nat k\<rparr>"
    have lc: "length ?c = max (length c) (E + k)" using kn(2) Ec by auto
    have "rb_write bf rb buf m = Some (k, rb', m')"
      using True sums le d(1) kn HE by (simp add: rb_write_def Let_def rb'_def)
    moreover have "rb_rep bf m' rb' (q @ take k buf)"
    proof (rule rb_repI [where c = ?c and H = H and E = "E + k" and L = L and n = "n + k"])
      show "(q @ take k buf) ! i = ?c ! ring_pos L H i" if "i < n + k" for i
        using that True kn(1,2) wrap le Ec
        by (auto simp: q nth_append ring_pos_def) (rule arg_cong [where f = "(!) buf"]; linarith)
      show "E + k = H + (n + k) \<and> E + k \<le> length ?c \<or> E + k + L = H + (n + k) \<and> length ?c = L"
        unfolding lc using wrap True le by auto
      show "length ?c \<le> L" unfolding lc using True le by simp
    qed (use True sums le d(2,3) kn(1,2) HE len' in \<open>auto simp: rb'_def q\<close>)
    ultimately show ?thesis using that by (simp add: rb'_def)
  next
    case False
    then have w: "E = H + n" using wrap kn(1) le by auto
    let ?a = "L - E"
    have a: "?a \<le> k" "?a \<le> length buf" "E + ?a = L" using False kn le by auto
    have room: "unat (rb_end rb) \<le> length c" "unat (rb_end rb) + length (take ?a buf) \<le> L" using Ec a HE by auto
    define c1 where "c1 = take E c @ take ?a buf @ drop (E + ?a) c"
    obtain d m1 where d: "write_inner bf (set_pos (rb_data rb) (rb_end rb)) (take ?a buf) m = Some (Some (of_nat ?a), d, m1)"
      "vf_rep bf m1 d c1" "frames_needed 0 L \<le> length (vf_frames d) + card (free_frames bf m1)"
      using write_at [OF c room le(5) fr] a(2) HE by (auto simp: c1_def)
    let ?b = "take (k - ?a) (drop ?a buf)"
    have lb: "length ?b = k - ?a" using a kn by simp
    define c2 where "c2 = ?b @ drop (k - ?a) c1"
    have lc1: "length c1 = L" using a le Ec by (simp add: c1_def)
    have room2: "unat (0 :: usize) \<le> length c1" "unat (0 :: usize) + length ?b \<le> L" using lb kn le by simp_all
    obtain d2 m' where d2: "write_inner bf (set_pos d 0) ?b m1 = Some (Some (of_nat (k - ?a)), d2, m')"
      "vf_rep bf m' d2 c2"
      "frames_needed 0 L \<le> length (vf_frames d2) + card (free_frames bf m')"
      using write_at [OF d(2) room2 le(5) d(3)] lb by (auto simp: c2_def)
    define rb' where "rb' = rb\<lparr>rb_len := rb_len rb + of_nat k, rb_data := d2, rb_end := rb_end rb + of_nat k - rb_limit rb\<rparr>"
    have sl: "slice buf ?a k = Some ?b" using a kn by (simp add: slice_def)
    have lc2: "length c2 = L" using lc1 lb kn(1) a by (simp add: c2_def)
    have "rb_write bf rb buf m = Some (k, rb', m')"
      using False sums le d(1) d2(1) kn HE a sl by (simp add: rb_write_def Let_def rb'_def)
    moreover have "rb_rep bf m' rb' (q @ take k buf)"
    proof (rule rb_repI [where c = c2 and H = H and E = "E + k - L" and L = L and n = "n + k"])
      show "(q @ take k buf) ! i = c2 ! ring_pos L H i" if i: "i < n + k" for i
      proof -
        consider "H + i < E" | "E \<le> H + i" "H + i < L" | "L \<le> H + i" by linarith
        then show ?thesis
        proof cases
          case 1
          then show ?thesis using i False kn(1,2) w le Ec a(1,2) lb by (auto simp: c1_def c2_def q nth_append ring_pos_def)
        next
          case 2
          then show ?thesis using i False kn(1,2) w le Ec a(1,2) lb by (auto simp: c1_def c2_def q nth_append ring_pos_def)
        next
          case 3
          then show ?thesis using i False kn(1,2) w le Ec a(1,2) lb
            by (auto simp: c1_def c2_def q nth_append ring_pos_def)
        qed
      qed
      show "E + k - L = H + (n + k) \<and> E + k - L \<le> length c2 \<or> E + k - L + L = H + (n + k) \<and> length c2 = L"
        unfolding lc2 using w False le by auto
      show "length c2 \<le> L" unfolding lc2 by simp
    qed (use False sums le d2(2,3) kn(1,2) HE len' in \<open>auto simp: rb'_def q\<close>)
    ultimately show ?thesis using that by (simp add: rb'_def)
  qed
qed

subsection \<open>Bounded queues of bytes\<close>

text \<open>The contract of the ring buffer, over its state and the machine: \<open>rep s q\<close> says that \<open>s\<close> holds the bytes \<open>q\<close>.\<close>

locale byte_queue =
  fixes rep :: "'s \<Rightarrow> byte list \<Rightarrow> bool"
    and cap :: "'s \<Rightarrow> nat"
    and rd :: "'s \<Rightarrow> byte list \<Rightarrow> (nat \<times> byte list \<times> 's) option"
    and wr :: "'s \<Rightarrow> byte list \<Rightarrow> (nat \<times> 's) option"
  assumes read_law: "rep s q \<Longrightarrow> k = min (length buf) (length q) \<Longrightarrow>
      \<exists>s'. rd s buf = Some (k, take k q @ drop k buf, s') \<and> rep s' (drop k q) \<and> cap s' = cap s"
    and write_law: "rep s q \<Longrightarrow> k = min (length buf) (cap s - length q) \<Longrightarrow>
      \<exists>s'. wr s buf = Some (k, s') \<and> rep s' (q @ take k buf) \<and> cap s' = cap s"
    and rep_bound: "rep s q \<Longrightarrow> length q \<le> cap s"
    and rep_fun: "rep s q \<Longrightarrow> rep s q' \<Longrightarrow> q = q'"
begin

lemma read_elim:
  assumes "rep s q" "rd s buf = Some (k, buf', s')"
  shows "rep s' (drop k q) \<and> take k buf' = take k q \<and> k = min (length buf) (length q)"
  using read_law [OF assms(1) refl, of buf] assms(2) by auto

lemma write_elim:
  assumes "rep s q" "wr s buf = Some (k, s')"
  shows "rep s' (q @ take k buf) \<and> k = min (length buf) (cap s - length q)"
  using write_law [OF assms(1) refl, of buf] assms(2) by auto

lemma write_read:
  assumes "rep s []" "length bs \<le> cap s" "length buf = length bs"
  shows "\<exists>s1 s2. wr s bs = Some (length bs, s1) \<and> rd s1 buf = Some (length bs, bs, s2) \<and> rep s2 []"
proof -
  obtain s1 where s1: "wr s bs = Some (length bs, s1)" "rep s1 bs" using write_law [OF assms(1) refl, of bs] assms(2) by auto
  with read_law [OF s1(2) refl, of buf] assms(3) show ?thesis by auto
qed

end

definition ring_read :: "ring_buffer \<times> machine \<Rightarrow> byte list \<Rightarrow> (nat \<times> byte list \<times> ring_buffer \<times> machine) option" where
  "ring_read s buf = map_option (\<lambda>(n, b, rb). (n, b, rb, snd s)) (rb_read (fst s) buf (snd s))"

definition ring_write :: "bit_field16 \<Rightarrow> ring_buffer \<times> machine \<Rightarrow> byte list \<Rightarrow> (nat \<times> ring_buffer \<times> machine) option" where
  "ring_write bf s buf = rb_write bf (fst s) buf (snd s)"

abbreviation ring_rep :: "bit_field16 \<Rightarrow> ring_buffer \<times> machine \<Rightarrow> byte list \<Rightarrow> bool" where
  "ring_rep bf s q \<equiv> rb_rep bf (snd s) (fst s) q"

lemma rb_rep_length: "rb_rep bf m rb q \<Longrightarrow> length q = unat (rb_len rb) \<and> length q \<le> unat (rb_limit rb)"
  by (auto simp: rb_rep_def)

lemma map_frame_of_inj: "pages ks \<Longrightarrow> pages ks' \<Longrightarrow> map frame_of ks = map frame_of ks' \<Longrightarrow> ks = ks'"
proof (rule list.inj_map_strong [of ks ks' frame_of frame_of])
  fix j k assume "pages ks" "pages ks'" "j \<in> set ks" "k \<in> set ks'" "frame_of j = frame_of k"
  then have "j < 2 ^ 52" "k < 2 ^ 52" "page_addr j = page_addr k" by (auto simp: pages_def)
  then show "j = k" by (rule page_addr_inj)
qed

lemma vf_rep_fun: "vf_rep bf m f c \<Longrightarrow> vf_rep bf m f c' \<Longrightarrow> c = c'"
  unfolding vf_rep_def vf_ok_def by (metis map_frame_of_inj)

lemma rb_rep_fun: assumes "rb_rep bf m rb q" "rb_rep bf m rb q'" shows "q = q'"
proof -
  obtain c where c: "vf_rep bf m (rb_data rb) c"
    "q = map (\<lambda>i. c ! ring_pos (unat (rb_limit rb)) (unat (rb_head rb)) i) [0..<unat (rb_len rb)]"
    using assms(1) by (auto simp: rb_rep_def)
  obtain c' where c': "vf_rep bf m (rb_data rb) c'"
    "q' = map (\<lambda>i. c' ! ring_pos (unat (rb_limit rb)) (unat (rb_head rb)) i) [0..<unat (rb_len rb)]"
    using assms(2) by (auto simp: rb_rep_def)
  show ?thesis using vf_rep_fun [OF c(1) c'(1)] c(2) c'(2) by simp
qed

interpretation ring: byte_queue "ring_rep bf" "\<lambda>s. unat (rb_limit (fst s))" ring_read "ring_write bf" for bf
proof
  fix s q k buf assume rep: "ring_rep bf s q"
  show "\<exists>s'. ring_read s buf = Some (k, take k q @ drop k buf, s') \<and> ring_rep bf s' (drop k q) \<and>
      unat (rb_limit (fst s')) = unat (rb_limit (fst s))" if "k = min (length buf) (length q)"
    by (rule rb_read_ok [OF rep that]) (simp add: ring_read_def)
  show "\<exists>s'. ring_write bf s buf = Some (k, s') \<and> ring_rep bf s' (q @ take k buf) \<and>
      unat (rb_limit (fst s')) = unat (rb_limit (fst s))" if "k = min (length buf) (unat (rb_limit (fst s)) - length q)"
    by (rule rb_write_ok [OF rep that]) (simp add: ring_write_def)
  show "length q \<le> unat (rb_limit (fst s))" using rb_rep_length [OF rep] by simp
  show "q = q'" if "ring_rep bf s q'" for q' using rb_rep_fun [OF rep that] .
qed

subsection \<open>Properties\<close>

lemma rb_new_rep:
  assumes "frames_inv bf m" "frames_needed 0 (unat size_limit) \<le> card (free_frames bf m)" "unat size_limit < 2 ^ 63"
  shows "rb_rep bf m (rb_new size_limit) []"
proof -
  have "vf_rep bf m (virt_file_new 0) []"
    using assms(1) by (auto simp: vf_rep_def vf_ok_def virt_file_new_def pages_def)
  then show ?thesis using assms(2,3)
    by (intro rb_repI [where c = "[]" and H = 0 and E = 0 and L = "unat size_limit" and n = 0])
      (auto simp: rb_new_def virt_file_new_def)
qed

text \<open>C36: The ring buffer is a bounded first-in first-out queue of bytes: \<^verbatim>\<open>read\<close> takes as many bytes as fit from the front and
  leaves the rest of the caller's buffer alone, \<^verbatim>\<open>write\<close> appends as many bytes as there is room for; neither panics,
  wherever the head and end stand in the buffer.\<close>

theorem ring_buffer_fifo:
  assumes "rb_rep bf m rb q" "k = min (length buf) (length q)" "j = min (length buf) (unat (rb_limit rb) - length q)"
  shows "(\<exists>rb'. rb_read rb buf m = Some (k, take k q @ drop k buf, rb') \<and> rb_rep bf m rb' (drop k q)) \<and>
    (\<exists>rb' m'. rb_write bf rb buf m = Some (j, rb', m') \<and> rb_rep bf m' rb' (q @ take j buf))"
proof -
  have rep: "ring_rep bf (rb, m) q" using assms(1) by simp
  have j: "j = min (length buf) (unat (rb_limit (fst (rb, m))) - length q)" using assms(3) by simp
  show ?thesis using ring.read_law [OF rep assms(2)] ring.write_law [OF rep j]
    by (auto simp: ring_read_def ring_write_def)
qed

text \<open>Runs of a ring buffer: reads, writes and steps of the rest of the kernel that leave the buffer alone, in any order.
  \<open>ws\<close> and \<open>rs\<close> are the bytes accepted and delivered so far.\<close>

inductive ring_run ::
  "bit_field16 \<Rightarrow> ring_buffer \<times> machine \<Rightarrow> byte list \<Rightarrow> byte list \<Rightarrow> ring_buffer \<times> machine \<Rightarrow> bool"
  for bf :: bit_field16 and s0 :: "ring_buffer \<times> machine" where
  start: "ring_run bf s0 [] [] s0"
| did_write: "ring_run bf s0 ws rs (rb, m) \<Longrightarrow> rb_write bf rb buf m = Some (n, rb', m') \<Longrightarrow>
    ring_run bf s0 (ws @ take n buf) rs (rb', m')"
| did_read: "ring_run bf s0 ws rs (rb, m) \<Longrightarrow> rb_read rb buf m = Some (n, buf', rb') \<Longrightarrow>
    ring_run bf s0 ws (rs @ take n buf') (rb', m)"
| others: "ring_run bf s0 ws rs (rb, m) \<Longrightarrow> (\<And>q. rb_rep bf m rb q \<Longrightarrow> rb_rep bf m' rb q) \<Longrightarrow> ring_run bf s0 ws rs (rb, m')"

lemma ring_run_invariant:
  assumes "ring_run bf s0 ws rs s" "ring_rep bf s0 []"
  shows "\<exists>q. ring_rep bf s q \<and> ws = rs @ q"
  using assms
proof (induction rule: ring_run.induct)
  case (did_write ws rs rb m buf n rb' m')
  then obtain q where q: "rb_rep bf m rb q" "ws = rs @ q" by auto
  have "ring_write bf (rb, m) buf = Some (n, rb', m')" using did_write by (simp add: ring_write_def)
  then show ?case using ring.write_elim [of bf "(rb, m)" q buf n] q by auto
next
  case (did_read ws rs rb m buf n buf' rb')
  then obtain q where q: "rb_rep bf m rb q" "ws = rs @ q" by auto
  have "ring_read (rb, m) buf = Some (n, buf', rb', m)" using did_read by (simp add: ring_read_def)
  then show ?case using ring.read_elim [of bf "(rb, m)" q buf n] q by auto
qed auto

lemma ring_run_limit: "ring_run bf s0 ws rs s \<Longrightarrow> rb_limit (fst s) = rb_limit (fst s0)"
  by (induction rule: ring_run.induct)
    (auto simp: rb_write_def rb_read_def Let_def split: bind_splits if_splits)

text \<open>C35: In every run of reads and writes on a new pipe buffer, in any order and with the rest of the kernel in between, the bytes
  delivered are a prefix of the bytes accepted, the rest are in the buffer, at most \<^verbatim>\<open>PIPE_SIZE_LIMIT\<close> of them, and the next
  read or write does not panic.\<close>

theorem pipe_bytes_in_order:
  assumes "ring_run bf (rb_new PIPE_SIZE_LIMIT, m0) ws rs (rb, m)" "frames_inv bf m0" "64 \<le> card (free_frames bf m0)"
  shows "\<exists>q. rb_rep bf m rb q \<and> ws = rs @ q \<and> length q \<le> 0x40000 \<and>
    rb_read rb buf m \<noteq> None \<and> rb_write bf rb buf m \<noteq> None"
proof -
  have "rb_rep bf m0 (rb_new PIPE_SIZE_LIMIT) []"
    using assms(2,3) by (intro rb_new_rep) (simp_all add: PIPE_SIZE_LIMIT_def frames_needed_def)
  then obtain q where q: "rb_rep bf m rb q" "ws = rs @ q" using ring_run_invariant [OF assms(1)] by auto
  have "rb_limit rb = PIPE_SIZE_LIMIT" using ring_run_limit [OF assms(1)] by (simp add: rb_new_def)
  then have "length q \<le> 0x40000" using rb_rep_length [OF q(1)] by (simp add: PIPE_SIZE_LIMIT_def)
  then show ?thesis using q ring.read_law [of bf "(rb, m)" q _ buf] ring.write_law [of bf "(rb, m)" q _ buf]
    by (auto simp: ring_read_def ring_write_def)
qed

declare pipe_read_loop.simps [simp del]

abbreviation pipe_ok :: "bit_field16 \<Rightarrow> pipe_state \<times> machine \<Rightarrow> bool" where
  "pipe_ok bf s \<equiv> \<exists>q. rb_rep bf (snd s) (pipe_data (fst s)) q"

lemma rb_read_total:
  assumes "rb_rep bf m rb q"
  shows "\<exists>n b rb'. rb_read rb buf m = Some (n, b, rb') \<and> n \<le> length buf \<and> length b = length buf \<and> drop n b = drop n buf \<and>
    (\<exists>q. rb_rep bf m rb' q)"
  by (rule rb_read_ok [OF assms refl, of buf]) auto

lemma pipe_read_loop_returns:
  assumes "pipe_ok bf (st, m)" "\<forall>s. pipe_ok bf s \<longrightarrow> pipe_ok bf (suspend s)" "r \<le> length buf"
  shows "\<exists>n b st' m'. pipe_read_loop suspend tries r buf st m = Some (n, b, st', m') \<and> r \<le> n \<and> n \<le> length buf \<and>
    length b = length buf \<and> drop n b = drop n buf \<and> pipe_ok bf (st', m')"
  using assms(1,3)
proof (induction tries arbitrary: r buf st m)
  case 0
  then show ?case by (subst pipe_read_loop.simps) auto
next
  case (Suc t)
  show ?case
  proof (cases "r < length buf \<and> strong_count st = 2")
    case True
    obtain st1 m1 where s1: "suspend (st, m) = (st1, m1)" by (cases "suspend (st, m)")
    then obtain q1 where q1: "rb_rep bf m1 (pipe_data st1) q1" using assms(2) Suc.prems(1) by fastforce
    obtain n b rb q2 where rd: "rb_read (pipe_data st1) (drop r buf) m1 = Some (n, b, rb)" "n \<le> length (drop r buf)"
      "length b = length (drop r buf)" "drop n b = drop n (drop r buf)" "rb_rep bf m1 rb q2"
      using rb_read_total [OF q1, of "drop r buf"] by blast
    have ok: "pipe_ok bf (st1\<lparr>pipe_data := rb\<rparr>, m1)" using rd(5) by auto
    have len: "length (take r buf @ b) = length buf" "r + n \<le> length buf" using rd(2,3) Suc.prems(2) by auto
    have d: "drop (r + n) (take r buf @ b) = drop (r + n) buf" using rd(4) Suc.prems(2) by (simp add: add.commute)
    obtain n' b' st' m' where ih: "pipe_read_loop suspend t (r + n) (take r buf @ b) (st1\<lparr>pipe_data := rb\<rparr>) m1 = Some (n', b', st', m')"
      "r + n \<le> n'" "n' \<le> length buf" "length b' = length buf" "drop n' b' = drop n' (take r buf @ b)" "pipe_ok bf (st', m')"
      using Suc.IH [OF ok, of "r + n" "take r buf @ b"] unfolding len(1) using len(2) by blast
    have "drop n' b' = drop n' buf"
      using ih(2,5) d by (metis drop_drop le_add_diff_inverse2)
    then show ?thesis using ih True s1 rd(1) by (subst pipe_read_loop.simps) auto
  next
    case False
    then show ?thesis using Suc.prems by (subst pipe_read_loop.simps) auto
  qed
qed

text \<open>C37: Reading from the read end of a pipe returns, whatever other tasks do to the pipe while the reader is suspended, as long as
  they keep its buffer a queue: at most as many bytes as asked for, the rest of the caller's buffer untouched, and the
  buffer still a queue. Reading from the write end is refused.\<close>

theorem pipe_read_returns:
  assumes "pipe_ok bf (st, m)" "\<forall>s. pipe_ok bf s \<longrightarrow> pipe_ok bf (suspend s)"
  shows "(\<exists>n b st' m'. pipe_read suspend True buf st m = Some (Some n, b, st', m') \<and> n \<le> length buf \<and>
      length b = length buf \<and> drop n b = drop n buf \<and> pipe_ok bf (st', m')) \<and>
    pipe_read suspend False buf st m = Some (None, buf, st, m)"
proof -
  obtain q where q: "rb_rep bf m (pipe_data st) q" using assms(1) by auto
  obtain r b rb where rd: "rb_read (pipe_data st) buf m = Some (r, b, rb)" "r \<le> length buf" "length b = length buf"
    "drop r b = drop r buf" "pipe_ok bf (st\<lparr>pipe_data := rb\<rparr>, m)"
    using rb_read_total [OF q, of buf] by auto
  obtain n b' st' m' where lp: "pipe_read_loop suspend 2 r b (st\<lparr>pipe_data := rb\<rparr>) m = Some (n, b', st', m')" "r \<le> n"
    "n \<le> length b" "length b' = length b" "drop n b' = drop n b" "pipe_ok bf (st', m')"
    using pipe_read_loop_returns [OF rd(5) assms(2) rd(2) [folded rd(3)], of 2] by blast
  have "drop n b' = drop n buf" using lp(2,5) rd(4) by (metis drop_drop le_add_diff_inverse2)
  then show ?thesis using rd lp by (auto simp: pipe_read_def)
qed

text \<open>An empty pipe with an open write end reads as end of file after two suspensions.\<close>

lemma pipe_read_empty_gives_up:
  assumes "rb_rep bf m (pipe_data st) []" "buf \<noteq> []"
  shows "\<exists>st' m'. pipe_read id True buf st m = Some (Some 0, buf, st', m')"
proof -
  have rd: "\<exists>rb'. rb_read rb buf m = Some (0, buf, rb') \<and> rb_rep bf m rb' []" if "rb_rep bf m rb []" for rb
    by (rule rb_read_ok [OF that refl, of buf]) simp
  have lp: "\<exists>st' m'. pipe_read_loop id t 0 buf st m = Some (0, buf, st', m')" if "rb_rep bf m (pipe_data st) []" for t st
    using that
  proof (induction t arbitrary: st)
    case (Suc t)
    obtain rb' where rb': "rb_read (pipe_data st) buf m = Some (0, buf, rb')" "rb_rep bf m rb' []"
      using rd [OF Suc.prems] by blast
    then have "rb_rep bf m (pipe_data (st\<lparr>pipe_data := rb'\<rparr>)) []" by simp
    then obtain st2 m2 where ih: "pipe_read_loop id t 0 buf (st\<lparr>pipe_data := rb'\<rparr>) m = Some (0, buf, st2, m2)"
      using Suc.IH by blast
    show ?case by (subst pipe_read_loop.simps) (simp add: rb' ih)
  qed (subst pipe_read_loop.simps, simp)
  obtain rb' where rb': "rb_read (pipe_data st) buf m = Some (0, buf, rb')" "rb_rep bf m (pipe_data (st\<lparr>pipe_data := rb'\<rparr>)) []"
    using rd [OF assms(1)] by auto
  obtain st2 m2 where "pipe_read_loop id 2 0 buf (st\<lparr>pipe_data := rb'\<rparr>) m = Some (0, buf, st2, m2)" using lp [OF rb'(2)] by blast
  then show ?thesis using rb'(1) by (simp add: pipe_read_def)
qed

subsection \<open>Examples\<close>

definition demo_machine :: machine where "demo_machine = machine_with 16 116"

lemma demo_machine_frames:
  "frames_inv ref_bit_field demo_machine" "card (free_frames ref_bit_field demo_machine) = 100"
  using machine_with_frames [of 16 116] by (simp_all add: demo_machine_def)

lemma demo_ring_rep: "rb_rep ref_bit_field demo_machine (rb_new 3) []"
  by (rule rb_new_rep) (simp_all add: demo_machine_frames frames_needed_def)

theorem ring_buffer_fifo_witness:
  "rb_read (rb_new 3) [9] demo_machine \<noteq> None \<and>
   (\<exists>rb' m'. rb_write ref_bit_field (rb_new 3) [1, 2, 3, 4] demo_machine = Some (3, rb', m') \<and>
      rb_rep ref_bit_field m' rb' [1, 2, 3])"
proof
  show "rb_read (rb_new 3) [9] demo_machine \<noteq> None"
    using ring_buffer_fifo [OF demo_ring_rep, of 0 "[9]" 1] by (auto simp: rb_new_def)
  show "\<exists>rb' m'. rb_write ref_bit_field (rb_new 3) [1, 2, 3, 4] demo_machine = Some (3, rb', m') \<and>
      rb_rep ref_bit_field m' rb' [1, 2, 3]"
    using ring_buffer_fifo [OF demo_ring_rep, of 0 "[1, 2, 3, 4]" 3] by (simp add: rb_new_def)
qed

theorem pipe_bytes_in_order_witness:
  "rb_write ref_bit_field (rb_new PIPE_SIZE_LIMIT) [1, 2, 3] demo_machine \<noteq> None"
proof -
  have "ring_run ref_bit_field (rb_new PIPE_SIZE_LIMIT, demo_machine) [] [] (rb_new PIPE_SIZE_LIMIT, demo_machine)"
    by (rule ring_run.start)
  from pipe_bytes_in_order [OF this, of "[1, 2, 3]"] show ?thesis by (auto simp: demo_machine_frames)
qed

theorem pipe_read_returns_witness:
  "\<exists>n b st' m'. pipe_read id True [9, 9] (snd new_pipe) demo_machine = Some (Some n, b, st', m') \<and> n \<le> 2"
proof -
  have "pipe_ok ref_bit_field (snd new_pipe, demo_machine)"
    using rb_new_rep [OF demo_machine_frames(1), of PIPE_SIZE_LIMIT]
    by (auto simp: new_pipe_def PIPE_SIZE_LIMIT_def frames_needed_def demo_machine_frames)
  from pipe_read_returns [OF this, of id "[9, 9]"] show ?thesis by auto
qed

end
