(* ===== verification/Signals.thy ===== *)
theory Signals
  imports Page_Table
begin

text \<open>
  Bit sets, \<^verbatim>\<open>modules/bitset\<close>, and the signal module, \<^verbatim>\<open>kernel/src/signal\<close>.

  A \<^verbatim>\<open>Bitset\<close> is its 64-bit word; the build has no overflow checks, so a shift amount is taken modulo 64. A \<^verbatim>\<open>ShadowBitset\<close> lives in
  the memory \<open>usize \<Rightarrow> byte\<close>. The global table from thread identifiers to shared receivers holds references into a store of
  receivers. \<open>None\<close> is a panic (index out of bounds).
\<close>

subsection \<open>Bitset\<close>

type_synonym bitset = usize

definition shift_amount :: "usize \<Rightarrow> nat" where
  "shift_amount k = unat k mod 64"

definition bitset_new :: "usize \<Rightarrow> bitset" where "bitset_new v = v"
definition bitset_reset :: "bitset \<Rightarrow> usize \<Rightarrow> bitset" where "bitset_reset self v = v"
definition bitset_clear :: "bitset \<Rightarrow> bitset" where "bitset_clear self = 0"

definition contain_bit :: "bitset \<Rightarrow> usize \<Rightarrow> bool" where
  "contain_bit self kth \<longleftrightarrow> (drop_bit (shift_amount kth) self AND 1) > 0"

definition add_bit :: "bitset \<Rightarrow> usize \<Rightarrow> bitset" where
  "add_bit self kth = self OR push_bit (shift_amount kth) 1"

definition remove_bit :: "bitset \<Rightarrow> usize \<Rightarrow> bitset" where
  "remove_bit self kth = self AND NOT (push_bit (shift_amount kth) 1)"

definition get_union :: "bitset \<Rightarrow> bitset \<Rightarrow> bitset" where
  "get_union self set' = self OR set'"

definition get_difference :: "bitset \<Rightarrow> bitset \<Rightarrow> bitset" where
  "get_difference self set' = self AND NOT set'"

definition set_new :: "bitset \<Rightarrow> bitset \<Rightarrow> bitset" where "set_new self set' = set'"

definition get_trailing_zeros :: "bitset \<Rightarrow> nat" where
  "get_trailing_zeros self = length (takeWhile (\<lambda>i. \<not> bit self i) [0..<64])"

definition find_first_one :: "bitset \<Rightarrow> bitset \<Rightarrow> usize option" where
  "find_first_one self mask' =
     (let ans = get_trailing_zeros (self AND NOT mask') in if ans = 64 then None else Some (of_nat ans))"

subsection \<open>LongBitset and ShadowBitset\<close>

record long_bitset =
  lb_bits :: "bitset list"
  lb_len :: usize

definition long_bitset_new :: "usize \<Rightarrow> long_bitset" where
  "long_bitset_new len = \<lparr>lb_bits = replicate (unat ((len + 0x3f) AND 0x3f)) 0, lb_len = len\<rparr>"

definition long_bitset_add :: "long_bitset \<Rightarrow> usize \<Rightarrow> long_bitset option" where
  "long_bitset_add self pos =
     (if pos < lb_len self then do {
        b \<leftarrow> at (lb_bits self) (unat (drop_bit 8 pos));
        Some (self\<lparr>lb_bits := (lb_bits self)[unat (drop_bit 8 pos) := add_bit b (pos AND 0x3f)]\<rparr>)
      }
      else Some self)"

definition long_bitset_check :: "long_bitset \<Rightarrow> usize \<Rightarrow> bool option" where
  "long_bitset_check self pos =
     map_option (\<lambda>b. contain_bit b (pos AND 0x3f)) (at (lb_bits self) (unat (drop_bit 8 pos)))"

record shadow_bitset =
  sb_addr :: usize
  sb_len :: usize

definition from_addr :: "usize \<Rightarrow> usize \<Rightarrow> shadow_bitset" where
  "from_addr a len = \<lparr>sb_addr = a, sb_len = len\<rparr>"

definition shadow_is_valid :: "shadow_bitset \<Rightarrow> bool" where
  "shadow_is_valid self \<longleftrightarrow> sb_addr self \<noteq> 0"

text \<open>\<^verbatim>\<open>self.addr.add(k)\<close> on a pointer to 8-byte words.\<close>

definition word_ptr :: "usize \<Rightarrow> usize \<Rightarrow> usize" where
  "word_ptr a k = a + 8 * k"

definition shadow_set :: "shadow_bitset \<Rightarrow> usize \<Rightarrow> (usize \<Rightarrow> byte) \<Rightarrow> usize \<Rightarrow> byte" where
  "shadow_set self pos mm =
     (if pos < sb_len self then
        let p = word_ptr (sb_addr self) (drop_bit 8 pos)
        in write_u64 mm p (read_u64 mm p OR push_bit (unat (pos AND 0x3f)) 1)
      else mm)"

definition shadow_check :: "shadow_bitset \<Rightarrow> usize \<Rightarrow> (usize \<Rightarrow> byte) \<Rightarrow> bool" where
  "shadow_check self pos mm \<longleftrightarrow>
     (read_u64 mm (word_ptr (sb_addr self) (drop_bit 8 pos)) AND push_bit (unat (pos AND 0x3f)) 1) \<noteq> 0"

fun shadow_clear_loop :: "usize \<Rightarrow> nat list \<Rightarrow> (usize \<Rightarrow> byte) \<Rightarrow> usize \<Rightarrow> byte" where
  "shadow_clear_loop a [] mm = mm"
| "shadow_clear_loop a (i # is) mm = shadow_clear_loop a is (write_u64 mm (word_ptr a (of_nat i)) 0)"

definition shadow_clear :: "shadow_bitset \<Rightarrow> (usize \<Rightarrow> byte) \<Rightarrow> usize \<Rightarrow> byte" where
  "shadow_clear self mm = shadow_clear_loop (sb_addr self) [0..<Suc (unat ((sb_len self - 1) div 64))] mm"

subsection \<open>SignalNo, SigAction, SigInfo\<close>

text \<open>A \<^verbatim>\<open>SignalNo\<close> is its number; the enumeration has the numbers 0 to 63, and 0 is \<^verbatim>\<open>ERR\<close>.\<close>

type_synonym signal_no = u8

definition SIGALRM :: signal_no where "SIGALRM = 14"
definition SIGCHLD :: signal_no where "SIGCHLD = 17"
definition SIGURG :: signal_no where "SIGURG = 23"
definition SIGVTALRM :: signal_no where "SIGVTALRM = 26"
definition SIGPROF :: signal_no where "SIGPROF = 27"

definition signal_no_from :: "usize \<Rightarrow> signal_no" where
  "signal_no_from num = (let n = ucast num in if n < 64 then n else 0)"

definition SIGNAL_RETURN_TRAP :: usize where "SIGNAL_RETURN_TRAP = 0xffff000080800000"
definition SIGSET_SIZE_IN_BIT :: nat where "SIGSET_SIZE_IN_BIT = 64"
definition SIG_DFL :: usize where "SIG_DFL = 0"
definition SIG_IGN :: usize where "SIG_IGN = 1"
definition SA_SIGINFO :: usize where "SA_SIGINFO = 4"
definition SA_NODEFER :: usize where "SA_NODEFER = 0x40000000"
definition SA_RESTORER :: usize where "SA_RESTORER = 0x04000000"

record sig_action =
  sa_handler :: usize
  sa_flags :: usize
  sa_restorer :: usize
  sa_mask :: bitset

definition get_restorer :: "sig_action \<Rightarrow> usize" where
  "get_restorer self = (if sa_flags self AND SA_RESTORER = SA_RESTORER then sa_restorer self else SIGNAL_RETURN_TRAP)"

datatype sig_action_default = SigTerminate | SigIgnore

definition of_signal :: "signal_no \<Rightarrow> sig_action_default" where
  "of_signal signal = (if signal = SIGCHLD \<or> signal = SIGURG then SigIgnore else SigTerminate)"

record sig_info =
  si_signo :: "32 word"
  si_errno :: "32 word"
  si_code :: "32 word"

definition sig_info_default :: sig_info where
  "sig_info_default = \<lparr>si_signo = 0, si_errno = 0, si_code = - 6\<rparr>"

record signal_stack =
  ss_sp :: usize
  ss_flags :: u32
  ss_size :: usize

definition signal_stack_default :: signal_stack where
  "signal_stack_default = \<lparr>ss_sp = 0, ss_flags = 2, ss_size = 0\<rparr>"

record machine_context =
  mc_reserved0 :: "usize list"
  mc_pc :: usize
  mc_reserved :: "usize list"
  mc_fpstate :: "usize list"

definition init_with_pc :: "usize \<Rightarrow> machine_context" where
  "init_with_pc pc =
     \<lparr>mc_reserved0 = replicate 16 0, mc_pc = pc, mc_reserved = replicate 17 0, mc_fpstate = replicate 66 0\<rparr>"

record signal_user_context =
  uc_flags :: usize
  uc_link :: usize
  uc_stack :: signal_stack
  uc_sig_mask :: u64
  uc_context :: machine_context

definition ucontext_init :: "u64 \<Rightarrow> usize \<Rightarrow> signal_user_context" where
  "ucontext_init mask' pc =
     \<lparr>uc_flags = 0, uc_link = 0, uc_stack = signal_stack_default, uc_sig_mask = mask', uc_context = init_with_pc pc\<rparr>"

definition get_pc :: "signal_user_context \<Rightarrow> usize" where
  "get_pc self = mc_pc (uc_context self)"

subsection \<open>SignalHandlers and SignalReceivers\<close>

record signal_handlers =
  actions :: "sig_action option list"

definition handlers_new :: signal_handlers where
  "handlers_new = \<lparr>actions = replicate SIGSET_SIZE_IN_BIT None\<rparr>"

definition handlers_clear :: "signal_handlers \<Rightarrow> signal_handlers" where
  "handlers_clear self = self\<lparr>actions := map (\<lambda>_. None) (actions self)\<rparr>"

text \<open>\<open>old\<close> is what \<^verbatim>\<open>*action_pos\<close> held.\<close>

definition get_action :: "signal_handlers \<Rightarrow> usize \<Rightarrow> sig_action \<Rightarrow> sig_action option" where
  "get_action self signum old = do {
     a \<leftarrow> at (actions self) (unat (signum - 1));
     Some (case a of Some action \<Rightarrow> action | None \<Rightarrow> old)
   }"

definition get_action_ref :: "signal_handlers \<Rightarrow> usize \<Rightarrow> sig_action option option" where
  "get_action_ref self signum = do {
     a \<leftarrow> at (actions self) (unat (signum - 1));
     Some (case a of Some action \<Rightarrow> if sa_handler action = SIG_DFL then None else Some action | None \<Rightarrow> None)
   }"

definition set_action :: "signal_handlers \<Rightarrow> usize \<Rightarrow> sig_action \<Rightarrow> signal_handlers option" where
  "set_action self signum action = do {
     _ \<leftarrow> at (actions self) (unat (signum - 1));
     Some (self\<lparr>actions := (actions self)[unat (signum - 1) := Some action]\<rparr>)
   }"

record signal_receivers =
  sig_mask :: bitset
  sig_received :: bitset

definition receivers_new :: signal_receivers where
  "receivers_new = \<lparr>sig_mask = bitset_new 0, sig_received = bitset_new 0\<rparr>"

definition receivers_clear :: "signal_receivers \<Rightarrow> signal_receivers" where
  "receivers_clear self = self\<lparr>sig_mask := bitset_new 0, sig_received := bitset_new 0\<rparr>"

definition get_one_signal :: "signal_receivers \<Rightarrow> usize option \<times> signal_receivers" where
  "get_one_signal self =
     (case find_first_one (sig_received self) (sig_mask self) of
        Some pos \<Rightarrow> (Some (pos + 1), self\<lparr>sig_received := remove_bit (sig_received self) pos\<rparr>)
      | None \<Rightarrow> (None, self))"

definition try_add_bit :: "signal_receivers \<Rightarrow> usize \<Rightarrow> signal_receivers" where
  "try_add_bit self signum = self\<lparr>sig_received := add_bit (sig_received self) (signum - 1)\<rparr>"

text \<open>The global table and the receivers its entries refer to.\<close>

record signal_table =
  tid2signals :: "usize \<rightharpoonup> nat"
  receiver_store :: "nat \<Rightarrow> signal_receivers"

definition global_register_signals :: "signal_table \<Rightarrow> usize \<Rightarrow> nat \<Rightarrow> signal_table" where
  "global_register_signals t tid signals = t\<lparr>tid2signals := (tid2signals t)(tid \<mapsto> signals)\<rparr>"

definition global_logoff_signals :: "signal_table \<Rightarrow> usize \<Rightarrow> signal_table" where
  "global_logoff_signals t tid = t\<lparr>tid2signals := (tid2signals t)(tid := None)\<rparr>"

definition get_signals_from_tid :: "signal_table \<Rightarrow> usize \<Rightarrow> nat option" where
  "get_signals_from_tid t tid = tid2signals t tid"

definition send_signal :: "signal_table \<Rightarrow> usize \<Rightarrow> usize \<Rightarrow> signal_table" where
  "send_signal t tid signum =
     (case get_signals_from_tid t tid of
        Some r \<Rightarrow> t\<lparr>receiver_store := (receiver_store t)(r := try_add_bit (receiver_store t r) signum)\<rparr>
      | None \<Rightarrow> t)"

subsection \<open>Bit sets are sets\<close>

definition bset :: "bitset \<Rightarrow> nat set" where
  "bset b = {i. bit b i}"

lemma bset_less: "i \<in> bset b \<Longrightarrow> i < 64"
  by (auto simp: bset_def dest: bit_imp_le_length)

lemma shift_amount_small: "unat k < 64 \<Longrightarrow> shift_amount k = unat k"
  by (simp add: shift_amount_def)

lemma bit_and_1: "x AND 1 > 0 \<longleftrightarrow> bit x 0" for x :: usize
  by (simp add: and_one_eq odd_iff_mod_2_eq_one word_gt_0 bit_0)

lemma bset_ops:
  assumes "unat k < 64"
  shows "bset (add_bit a k) = insert (unat k) (bset a)" "bset (remove_bit a k) = bset a - {unat k}"
    "contain_bit a k \<longleftrightarrow> unat k \<in> bset a"
  using assms by (auto simp: bset_def add_bit_def remove_bit_def contain_bit_def shift_amount_small bit_simps bit_and_1
      dest: bit_imp_le_length)

lemma bset_set_ops: "bset (get_union a b) = bset a \<union> bset b" "bset (get_difference a b) = bset a - bset b" "bset 0 = {}"
  by (auto simp: bset_def get_union_def get_difference_def bit_simps dest: bit_imp_le_length)

lemma trailing_zeros_cases:
  "get_trailing_zeros x = 64 \<and> bset x = {} \<or>
   get_trailing_zeros x < 64 \<and> get_trailing_zeros x \<in> bset x \<and> (\<forall>j \<in> bset x. get_trailing_zeros x \<le> j)"
proof -
  let ?n = "get_trailing_zeros x" and ?P = "\<lambda>i. \<not> bit x i"
  have n: "?n \<le> 64" unfolding get_trailing_zeros_def using length_takeWhile_le [of ?P "[0..<64]"] by simp
  have before: "\<not> bit x j" if "j < ?n" for j
  proof -
    have j: "j < length (takeWhile ?P [0..<64])" using that by (simp add: get_trailing_zeros_def)
    then have "takeWhile ?P [0..<64] ! j = j" using takeWhile_nth [OF j] that n by simp
    then show ?thesis using set_takeWhileD [OF nth_mem [OF j]] by simp
  qed
  show ?thesis
  proof (cases "?n = 64")
    case True
    then have "bset x = {}" using before bset_less by (fastforce simp: bset_def)
    then show ?thesis using True by simp
  next
    case False
    then have lt: "?n < 64" using n by simp
    then have "bit x ?n" using nth_length_takeWhile [of ?P "[0..<64]"] unfolding get_trailing_zeros_def by simp
    then show ?thesis using lt before by (auto simp: bset_def not_le [symmetric])
  qed
qed

lemma find_first_one_least:
  "case find_first_one a b of
     None \<Rightarrow> bset a - bset b = {}
   | Some i \<Rightarrow> unat i \<in> bset a - bset b \<and> (\<forall>j \<in> bset a - bset b. unat i \<le> j)"
proof -
  have "bset (a AND NOT b) = bset a - bset b" using bset_set_ops(2) by (simp add: get_difference_def)
  moreover have "unat (of_nat n :: usize) = n" if "n < 64" for n using that by (simp add: unat_of_nat)
  ultimately show ?thesis using trailing_zeros_cases [of "a AND NOT b"] by (auto simp: find_first_one_def Let_def)
qed

text \<open>A \<^verbatim>\<open>Bitset\<close> is a set of numbers below 64: adding, removing and testing a bit, union and difference are the operations on
  sets, and \<^verbatim>\<open>find_first_one\<close> gives the least element outside the mask, or \<^verbatim>\<open>None\<close> when there is none.\<close>

lemma bitset_refines_set:
  assumes "unat k < 64"
  shows "bset (add_bit a k) = insert (unat k) (bset a) \<and> bset (remove_bit a k) = bset a - {unat k} \<and>
    (contain_bit a k \<longleftrightarrow> unat k \<in> bset a) \<and> bset (get_union a b) = bset a \<union> bset b \<and>
    bset (get_difference a b) = bset a - bset b \<and> bset (bitset_clear a) = {} \<and>
    (case find_first_one a b of
       None \<Rightarrow> bset a - bset b = {}
     | Some i \<Rightarrow> unat i \<in> bset a - bset b \<and> (\<forall>j \<in> bset a - bset b. unat i \<le> j))"
  using bset_ops [OF assms] bset_set_ops find_first_one_least by (simp add: bitset_clear_def)

lemma bitset_refines_set_example: "bset (add_bit 0 5) = {5}"
  using bitset_refines_set [of 5 0] bset_set_ops(3) by simp

text \<open>C38: Sending signal \<open>n\<close> (1 to 64) to a registered thread makes exactly it pending for the receiver of that thread and leaves every
  other receiver and the masks alone; to an unknown thread it does nothing. Taking a signal yields the least pending
  signal that is not masked and removes exactly it, or nothing when all pending signals are masked.\<close>

theorem signal_send_and_take:
  assumes "1 \<le> n" "n \<le> 64"
  shows "(case tid2signals t tid of
      None \<Rightarrow> send_signal t tid n = t
    | Some r \<Rightarrow> tid2signals (send_signal t tid n) = tid2signals t \<and>
        (\<forall>r'. r' \<noteq> r \<longrightarrow> receiver_store (send_signal t tid n) r' = receiver_store t r') \<and>
        sig_mask (receiver_store (send_signal t tid n) r) = sig_mask (receiver_store t r) \<and>
        bset (sig_received (receiver_store (send_signal t tid n) r)) =
          insert (unat n - 1) (bset (sig_received (receiver_store t r)))) \<and>
    (case get_one_signal s of
      (None, s') \<Rightarrow> s' = s \<and> bset (sig_received s) \<subseteq> bset (sig_mask s)
    | (Some k, s') \<Rightarrow> 1 \<le> k \<and> k \<le> 64 \<and> unat k - 1 \<in> bset (sig_received s) - bset (sig_mask s) \<and>
        (\<forall>j \<in> bset (sig_received s) - bset (sig_mask s). unat k - 1 \<le> j) \<and>
        sig_mask s' = sig_mask s \<and> bset (sig_received s') = bset (sig_received s) - {unat k - 1})"
proof -
  have n: "unat (n - 1) = unat n - 1" "unat (n - 1) < 64" using assms by (simp_all add: unat_sub_le word_le_unat)
  have take: "case get_one_signal s of
      (None, s') \<Rightarrow> s' = s \<and> bset (sig_received s) \<subseteq> bset (sig_mask s)
    | (Some k, s') \<Rightarrow> 1 \<le> k \<and> k \<le> 64 \<and> unat k - 1 \<in> bset (sig_received s) - bset (sig_mask s) \<and>
        (\<forall>j \<in> bset (sig_received s) - bset (sig_mask s). unat k - 1 \<le> j) \<and>
        sig_mask s' = sig_mask s \<and> bset (sig_received s') = bset (sig_received s) - {unat k - 1}"
  proof (cases "find_first_one (sig_received s) (sig_mask s)")
    case None
    then show ?thesis using find_first_one_least [of "sig_received s" "sig_mask s"] by (auto simp: get_one_signal_def)
  next
    case (Some i)
    then have i: "unat i \<in> bset (sig_received s) - bset (sig_mask s)"
      "\<forall>j \<in> bset (sig_received s) - bset (sig_mask s). unat i \<le> j"
      using find_first_one_least [of "sig_received s" "sig_mask s"] by simp_all
    then have lt: "unat i < 64" using bset_less by blast
    then have u: "unat (i + 1) = unat i + 1" by (simp add: unat_add_small)
    then have "1 \<le> i + 1" "i + 1 \<le> 64" using lt by (simp_all add: word_le_unat)
    then show ?thesis using i u bset_ops(2) [OF lt] Some by (simp add: get_one_signal_def)
  qed
  show ?thesis using take bset_ops(1) [OF n(2)] n(1)
    by (simp add: send_signal_def get_signals_from_tid_def try_add_bit_def split: option.split)
qed

theorem signal_send_and_take_witness:
  "let t = send_signal \<lparr>tid2signals = [3 \<mapsto> 5], receiver_store = (\<lambda>_. receivers_new)\<rparr> 3 9 in
     bset (sig_received (receiver_store t 5)) = {8} \<and> receiver_store t 6 = receivers_new \<and>
     (\<exists>s. get_one_signal (receiver_store t 5) = (Some 9, s) \<and> bset (sig_received s) = {})"
proof -
  let ?t = "send_signal \<lparr>tid2signals = [3 \<mapsto> 5], receiver_store = (\<lambda>_. receivers_new)\<rparr> 3 9"
  have p: "(1 :: usize) \<le> 9" "(9 :: usize) \<le> 64" by simp_all
  note props = signal_send_and_take [OF p, of "\<lparr>tid2signals = [3 \<mapsto> 5], receiver_store = (\<lambda>_. receivers_new)\<rparr>" 3 "receiver_store ?t 5"]
  have e: "sig_mask receivers_new = 0" "bset (sig_received receivers_new) = {}" "bset 0 = {}" by (simp_all add: receivers_new_def bset_def bitset_new_def)
  have sent: "bset (sig_received (receiver_store ?t 5)) = {8}" "sig_mask (receiver_store ?t 5) = 0" "receiver_store ?t 6 = receivers_new"
    using conjunct1 [OF props] e(1,2) by simp_all
  obtain r s where rs: "get_one_signal (receiver_store ?t 5) = (r, s)" by fastforce
  obtain k where k: "r = Some k" "unat k - 1 = 8" "bset (sig_received s) = {}"
    using conjunct2 [OF props, unfolded rs prod.case sent(1,2) e(3)] by (cases r) auto
  then have "unat k = unat (9 :: usize)" by simp
  then have "k = 9" by (simp only: word_unat_eq_iff)
  then show ?thesis using sent(1,3) rs k by (simp add: Let_def)
qed

lemma and_0x3f: "a AND 0x3f = take_bit 6 a" for a :: usize
proof -
  have "(0x3f :: usize) = mask 6" by (simp add: mask_eq_exp_minus_1)
  then show ?thesis by (simp add: take_bit_eq_mask)
qed

text \<open>\<^verbatim>\<open>ShadowBitset\<close> finds the word of a position by shifting it by 8 instead of 6: positions 64 apart share a bit, so after
  setting one the other is reported as set, too.\<close>

lemma shadow_bitset_aliases:
  assumes "pos < sb_len sb" "unat pos mod 256 + 64 < 256"
  shows "shadow_check sb (pos + 64) (shadow_set sb pos mm)"
proof -
  have "unat pos div 256 < 72057594037927936" using unat64_less [of pos] by (simp add: div_less_iff_less_mult)
  then have "unat pos div 256 * 256 + unat pos mod 256 + 64 < 18446744073709551616" using assms(2) by linarith
  then have up: "unat (pos + 64) = unat pos + 64" by (simp add: unat_add_small)
  have "(q * 256 + r) div 256 = q" if "r < 256" for q r :: nat using that by simp
  from this [of "unat pos mod 256 + 64" "unat pos div 256"] have "(unat pos + 64) div 256 = unat pos div 256"
    using assms(2) by (simp add: add.assoc [symmetric])
  then have w: "drop_bit 8 (pos + 64) = drop_bit 8 pos"
    by (simp add: word_unat_eq_iff drop_bit_eq_div unat_div_distrib up)
  have b: "(pos + 64) AND 0x3f = pos AND 0x3f"
    by (simp add: and_0x3f take_bit_eq_mod word_unat_eq_iff unat_mod_distrib up)
  let ?n = "unat (pos AND 0x3f)"
  have n: "?n < 64" by (simp add: and_0x3f take_bit_eq_mod unat_mod_distrib)
  have "bit ((x OR push_bit ?n 1) AND push_bit ?n 1) ?n" for x :: u64 using n by (simp add: bit_simps)
  then have "(x OR push_bit ?n 1) AND push_bit ?n 1 \<noteq> 0" for x :: u64 by (metis bit_0_eq bot_apply bot_bool_def)
  then show ?thesis using assms(1) w b by (simp add: shadow_check_def shadow_set_def Let_def read_write_u64)
qed

lemma shadow_bitset_aliases_example:
  "shadow_check (from_addr 0x1000 256) 64 (shadow_set (from_addr 0x1000 256) 0 (\<lambda>_. 0))"
  using shadow_bitset_aliases [of 0 "from_addr 0x1000 256"] by (simp add: from_addr_def)

text \<open>\<^verbatim>\<open>LongBitset::new\<close> rounds the number of words with a mask instead of a shift: one bit more than a multiple of 64 gets no word at
  all, and every access panics.\<close>

lemma long_bitset_new_too_short: "long_bitset_add (long_bitset_new 65) 0 = None"
  by (simp add: long_bitset_add_def long_bitset_new_def at_def)

subsection \<open>Handlers\<close>

text \<open>The handler table: for signals 1 to 64 an action that was set is read back and every other signal keeps its action; an
  action with the default handler counts as none; any other signal number, 0 included, panics.\<close>

lemma signal_handlers_table:
  assumes "length (actions h) = SIGSET_SIZE_IN_BIT"
  shows "(if 1 \<le> unat n \<and> unat n \<le> 64
     then \<exists>h'. set_action h n a = Some h' \<and> length (actions h') = SIGSET_SIZE_IN_BIT \<and>
       get_action h' n old = Some a \<and> get_action_ref h' n = Some (if sa_handler a = SIG_DFL then None else Some a) \<and>
       (\<forall>k. k \<noteq> n \<longrightarrow> get_action_ref h' k = get_action_ref h k)
     else set_action h n a = None \<and> get_action h n old = None \<and> get_action_ref h n = None)"
proof (cases "1 \<le> unat n \<and> unat n \<le> 64")
  case True
  have u: "unat (k - 1) = unat k - 1" if "1 \<le> unat k" for k :: usize using that by (simp add: unat_sub_le word_le_unat)
  have neq: "unat (k - 1) \<noteq> unat (n - 1)" if "k \<noteq> n" for k
    using that by (metis diff_add_cancel word_unat_eq_iff)
  let ?h = "h\<lparr>actions := (actions h)[unat (n - 1) := Some a]\<rparr>"
  have "unat (n - 1) < 64" using True u [of n] by linarith
  then have "set_action h n a = Some ?h" "length (actions ?h) = SIGSET_SIZE_IN_BIT" "get_action ?h n old = Some a"
    "get_action_ref ?h n = Some (if sa_handler a = SIG_DFL then None else Some a)"
    using assms by (simp_all add: set_action_def get_action_def get_action_ref_def at_def SIGSET_SIZE_IN_BIT_def)
  moreover have "get_action_ref ?h k = get_action_ref h k" if "k \<noteq> n" for k
    using neq [OF that] by (simp add: get_action_ref_def at_def)
  ultimately show ?thesis using True by auto
next
  case False
  have "\<not> unat (n - 1) < 64"
  proof (cases "n = 0")
    case False
    then have "unat (n - 1) = unat n - 1" by (simp add: unat_sub_le word_le_unat unat_gt_0 Suc_leI)
    then show ?thesis using \<open>\<not> (1 \<le> unat n \<and> unat n \<le> 64)\<close> False by (simp add: unat_gt_0 Suc_le_eq)
  qed (simp add: unsigned_minus_1_eq_mask mask_eq_exp_minus_1)
  then show ?thesis using False assms
    by (simp add: set_action_def get_action_def get_action_ref_def at_def SIGSET_SIZE_IN_BIT_def)
qed

lemma signal_handlers_table_example:
  "set_action handlers_new 0 \<lparr>sa_handler = 7, sa_flags = 0, sa_restorer = 0, sa_mask = 0\<rparr> = None \<and>
   get_action_ref handlers_new 65 = None"
proof -
  let ?a = "\<lparr>sa_handler = 7, sa_flags = 0, sa_restorer = 0, sa_mask = 0\<rparr>"
  have h: "length (actions handlers_new) = SIGSET_SIZE_IN_BIT" by (simp add: handlers_new_def)
  show ?thesis using signal_handlers_table [OF h, of 0 ?a] signal_handlers_table [OF h, of 65] by simp
qed

end
