(* ===== verification/Timer.thy ===== *)
theory Timer
  imports Signals
begin

text \<open>
  Time, \<^verbatim>\<open>modules/timer\<close> and \<^verbatim>\<open>kernel/src/task/time_stat.rs\<close>, with the error numbers of \<^verbatim>\<open>modules/syscall\<close>.

  The value of the time register is an argument (\<open>t\<close> in ticks, \<open>now\<close> in microseconds). The functions on floating-point seconds
  (\<^verbatim>\<open>get_time_f64\<close>, \<^verbatim>\<open>TimeSpec::new\<close>, \<^verbatim>\<open>time_in_sec\<close>, \<^verbatim>\<open>sys_nanosleep\<close>, \<^verbatim>\<open>sys_clock_gettime\<close>) are not modelled; the current time as a \<^verbatim>\<open>TimeSpec\<close> is an
  argument where it is used. The system calls see user memory through a pointer type as a function from addresses to
  values of that type; \<open>alloc start end\<close> is whether \<^verbatim>\<open>manually_alloc_range\<close> of the task succeeds. Constants are those of the default
  build (feature \<^verbatim>\<open>sifive\<close>).
\<close>

datatype error_no =
    EPERM | ENOENT | ESRCH | EBADF | EAGAIN | ENOMEM | EFAULT | EBUSY | EEXIST | ENOTDIR | EISDIR | EINVAL | EMFILE | ESPIPE
  | ERANGE | EPFNOSUPPORT | EAFNOSUPPORT | ECONNREFUSED

type_synonym sys_result = "error_no + usize"

definition CLOCK_FREQ :: usize where "CLOCK_FREQ = 1000000"
definition INTERRUPT_PER_SEC :: usize where "INTERRUPT_PER_SEC = 10"
definition USEC_PER_SEC :: usize where "USEC_PER_SEC = 1000000"
definition MACHINE_TICKS_PER_USEC :: usize where "MACHINE_TICKS_PER_USEC = CLOCK_FREQ div USEC_PER_SEC"
definition USEC_PER_INTERRUPT :: usize where "USEC_PER_INTERRUPT = USEC_PER_SEC div INTERRUPT_PER_SEC"
definition NSEC_PER_SEC :: usize where "NSEC_PER_SEC = 1000000000"
definition NSEC_PER_MACHINE_TICKS :: usize where "NSEC_PER_MACHINE_TICKS = NSEC_PER_SEC div CLOCK_FREQ"
definition UTIME_NOW :: usize where "UTIME_NOW = 0x3fffffff"
definition UTIME_OMIT :: usize where "UTIME_OMIT = 0x3ffffffe"

definition get_time_ms :: "usize \<Rightarrow> usize" where "get_time_ms t = (t * 1000) div CLOCK_FREQ"
definition get_time_sec :: "usize \<Rightarrow> usize" where "get_time_sec t = t div CLOCK_FREQ"
definition get_time_us :: "usize \<Rightarrow> usize" where "get_time_us t = t div MACHINE_TICKS_PER_USEC"
definition get_next_trigger :: "usize \<Rightarrow> u64" where "get_next_trigger t = t + CLOCK_FREQ div INTERRUPT_PER_SEC"

subsection \<open>TimeSpec and TimeVal\<close>

record time_spec =
  tv_sec :: usize
  tv_nsec :: usize

definition set_as_utime :: "time_spec \<Rightarrow> time_spec \<Rightarrow> time_spec \<Rightarrow> time_spec" where
  "set_as_utime now self other =
     (if tv_nsec other = UTIME_NOW then now else if tv_nsec other = UTIME_OMIT then self else other)"

definition get_ticks :: "time_spec \<Rightarrow> usize" where
  "get_ticks self = tv_sec self * CLOCK_FREQ + tv_nsec self div NSEC_PER_MACHINE_TICKS"

definition ts_add :: "time_spec \<Rightarrow> time_spec \<Rightarrow> time_spec" where
  "ts_add self other =
     (let new_ts = \<lparr>tv_sec = tv_sec self + tv_sec other, tv_nsec = tv_nsec self + tv_nsec other\<rparr>
      in if tv_nsec new_ts \<ge> NSEC_PER_SEC
         then new_ts\<lparr>tv_sec := tv_sec new_ts + 1, tv_nsec := tv_nsec new_ts - NSEC_PER_SEC\<rparr>
         else new_ts)"

record time_val =
  tv_s :: usize
  tv_us :: usize

definition tv_add :: "time_val \<Rightarrow> time_val \<Rightarrow> time_val" where
  "tv_add self other =
     (let new_ts = \<lparr>tv_s = tv_s self + tv_s other, tv_us = tv_us self + tv_us other\<rparr>
      in if tv_us new_ts \<ge> USEC_PER_SEC
         then new_ts\<lparr>tv_s := tv_s new_ts + 1, tv_us := tv_us new_ts - USEC_PER_SEC\<rparr>
         else new_ts)"

definition tv_from_ts :: "time_spec \<Rightarrow> time_val" where
  "tv_from_ts spec = \<lparr>tv_s = tv_sec spec, tv_us = tv_nsec spec div USEC_PER_SEC\<rparr>"

definition tv_from_us :: "usize \<Rightarrow> time_val" where
  "tv_from_us usec = \<lparr>tv_s = usec div USEC_PER_SEC, tv_us = usec mod USEC_PER_SEC\<rparr>"

definition tv_into_us :: "time_val \<Rightarrow> usize" where
  "tv_into_us self = tv_s self * USEC_PER_SEC + tv_us self"

definition tv_now :: "usize \<Rightarrow> time_val" where
  "tv_now t = tv_from_us (get_time_us t)"

subsection \<open>TimeStat\<close>

datatype timer_type = TimerNone | TimerReal | TimerVirtual | TimerProf

definition timer_type_from :: "usize \<Rightarrow> timer_type" where
  "timer_type_from num =
     (let n = ucast num :: 32 word
      in if n = 0 then TimerReal else if n = 1 then TimerVirtual else if n = 2 then TimerProf else TimerNone)"

record time_stat =
  ts_tid :: usize
  utime_us :: usize
  stime_us :: usize
  user_tick :: usize
  kernel_tick :: usize
  start_tick :: usize
  timer_type :: timer_type
  timer_interval_us :: usize
  timer_remained_us :: usize

definition time_stat_new :: "usize \<Rightarrow> usize \<Rightarrow> time_stat" where
  "time_stat_new now tid =
     \<lparr>ts_tid = tid, utime_us = 0, stime_us = 0, user_tick = 0, kernel_tick = 0, start_tick = now,
      timer_type = TimerNone, timer_interval_us = 0, timer_remained_us = 0\<rparr>"

definition time_stat_clear :: "usize \<Rightarrow> time_stat \<Rightarrow> time_stat" where
  "time_stat_clear now self =
     self\<lparr>utime_us := 0, stime_us := 0, user_tick := 0, kernel_tick := 0, start_tick := now\<rparr>"

text \<open>The signal goes to the receiver registered for the thread in the global table.\<close>

definition update_timer_and_send_signal ::
  "time_stat \<Rightarrow> usize \<Rightarrow> signal_table \<Rightarrow> bool \<times> time_stat \<times> signal_table" where
  "update_timer_and_send_signal self delta st =
     (if timer_remained_us self = 0 then (False, self, st)
      else if timer_remained_us self > delta
      then (False, self\<lparr>timer_remained_us := timer_remained_us self - delta\<rparr>, st)
      else (True, self\<lparr>timer_remained_us := timer_interval_us self\<rparr>,
            case timer_type self of
              TimerReal \<Rightarrow> send_signal st (ts_tid self) (ucast SIGALRM)
            | TimerVirtual \<Rightarrow> send_signal st (ts_tid self) (ucast SIGVTALRM)
            | TimerProf \<Rightarrow> send_signal st (ts_tid self) (ucast SIGPROF)
            | TimerNone \<Rightarrow> st))"

definition timer_kernel_to_user :: "usize \<Rightarrow> time_stat \<Rightarrow> signal_table \<Rightarrow> time_stat \<times> signal_table" where
  "timer_kernel_to_user now self st =
     (let delta = now - kernel_tick self;
          (self, st) = (if timer_type self = TimerReal \<or> timer_type self = TimerProf
                        then snd (update_timer_and_send_signal self delta st) else (self, st))
      in (self\<lparr>stime_us := stime_us self + delta, user_tick := now\<rparr>, st))"

definition timer_user_to_kernel :: "usize \<Rightarrow> time_stat \<Rightarrow> signal_table \<Rightarrow> time_stat \<times> signal_table" where
  "timer_user_to_kernel now self st =
     (let delta = now - kernel_tick self;
          (self, st) = (if timer_type self \<noteq> TimerNone
                        then snd (update_timer_and_send_signal self delta st) else (self, st))
      in (self\<lparr>utime_us := utime_us self + delta, kernel_tick := now\<rparr>, st))"

definition switch_into_task :: "usize \<Rightarrow> time_stat \<Rightarrow> time_stat" where
  "switch_into_task now self = self\<lparr>kernel_tick := now\<rparr>"

definition switch_out_task :: "usize \<Rightarrow> time_stat \<Rightarrow> signal_table \<Rightarrow> time_stat \<times> signal_table" where
  "switch_out_task now self st =
     (let delta = now - kernel_tick self; self = self\<lparr>stime_us := stime_us self + delta\<rparr>
      in if timer_type self = TimerReal \<or> timer_type self = TimerProf
         then snd (update_timer_and_send_signal self delta st) else (self, st))"

definition ts_output :: "time_stat \<Rightarrow> time_val \<times> time_val" where
  "ts_output self = (tv_from_us (utime_us self), tv_from_us (stime_us self))"

definition output_raw :: "time_stat \<Rightarrow> usize \<times> usize" where
  "output_raw self = (utime_us self, stime_us self)"

definition output_raw_timer :: "time_stat \<Rightarrow> usize \<times> usize" where
  "output_raw_timer self = (timer_interval_us self, timer_remained_us self)"

definition set_raw_timer :: "time_stat \<Rightarrow> usize \<Rightarrow> usize \<Rightarrow> usize \<Rightarrow> bool \<times> time_stat" where
  "set_raw_timer self interval remained tt =
     (let self = self\<lparr>timer_type := timer_type_from tt, timer_interval_us := interval, timer_remained_us := remained\<rparr>
      in (timer_type self \<noteq> TimerNone, self))"

subsection \<open>System calls\<close>

text \<open>\<^verbatim>\<open>manually_alloc_type\<close> of the trampoline, for a type of \<open>sz\<close> bytes.\<close>

definition tr_alloc_type :: "(usize \<Rightarrow> usize \<Rightarrow> bool) \<Rightarrow> usize \<Rightarrow> usize \<Rightarrow> bool" where
  "tr_alloc_type alloc sz p = alloc p (p + sz - 1)"

definition sys_get_time_of_day ::
  "(usize \<Rightarrow> usize \<Rightarrow> bool) \<Rightarrow> usize \<Rightarrow> usize \<Rightarrow> (usize \<Rightarrow> time_val) \<Rightarrow> sys_result \<times> (usize \<Rightarrow> time_val)" where
  "sys_get_time_of_day alloc t ptr tvs =
     (if \<not> tr_alloc_type alloc 16 ptr then (Inl EFAULT, tvs) else (Inr 0, tvs(ptr := tv_now t)))"

record tms =
  tms_utime :: usize
  tms_stime :: usize
  tms_cutime :: usize
  tms_cstime :: usize

definition sys_times :: "usize \<Rightarrow> time_stat \<Rightarrow> usize \<Rightarrow> (usize \<Rightarrow> tms) \<Rightarrow> sys_result \<times> (usize \<Rightarrow> tms)" where
  "sys_times t task ptr ms =
     (let (utime, stime) = output_raw task
      in (Inr (get_time_us t div USEC_PER_INTERRUPT),
          ms(ptr := \<lparr>tms_utime = utime, tms_stime = stime, tms_cutime = utime, tms_cstime = stime\<rparr>)))"

definition sys_getrusage ::
  "(usize \<Rightarrow> usize \<Rightarrow> bool) \<Rightarrow> time_stat \<Rightarrow> 32 word \<Rightarrow> usize \<Rightarrow> (usize \<Rightarrow> time_val) \<Rightarrow> sys_result \<times> (usize \<Rightarrow> time_val)" where
  "sys_getrusage alloc task who utime tvs =
     (let stime = utime + 16
      in if \<not> tr_alloc_type alloc 16 utime \<or> \<not> tr_alloc_type alloc 16 stime then (Inl EFAULT, tvs)
         else if who = 0 \<or> who = - 1 \<or> who = 1 then
           (let (utime_us, stime_us) = output_raw task
            in (Inr 0, tvs(utime := tv_from_us utime_us, stime := tv_from_us stime_us)))
         else (Inl EINVAL, tvs))"

record itimer_val =
  it_interval :: time_val
  it_value :: time_val

definition sys_gettimer ::
  "(usize \<Rightarrow> usize \<Rightarrow> bool) \<Rightarrow> time_stat \<Rightarrow> usize \<Rightarrow> usize \<Rightarrow> (usize \<Rightarrow> itimer_val) \<Rightarrow>
     sys_result \<times> (usize \<Rightarrow> itimer_val)" where
  "sys_gettimer alloc task which curr_value its =
     (if \<not> tr_alloc_type alloc 32 curr_value then (Inl EFAULT, its)
      else let (i, r) = output_raw_timer task
        in (Inr 0, its(curr_value := \<lparr>it_interval = tv_from_us i, it_value = tv_from_us r\<rparr>)))"

definition sys_settimer ::
  "(usize \<Rightarrow> usize \<Rightarrow> bool) \<Rightarrow> time_stat \<Rightarrow> usize \<Rightarrow> usize \<Rightarrow> usize \<Rightarrow> (usize \<Rightarrow> itimer_val) \<Rightarrow>
     sys_result \<times> time_stat \<times> (usize \<Rightarrow> itimer_val)" where
  "sys_settimer alloc task which new_value old_value its =
     (if \<not> tr_alloc_type alloc 32 new_value then (Inl EFAULT, task, its)
      else if old_value \<noteq> 0 \<and> \<not> tr_alloc_type alloc 32 old_value then (Inl EFAULT, task, its)
      else let its = (if old_value \<noteq> 0
                      then let (i, r) = output_raw_timer task
                        in its(old_value := \<lparr>it_interval = tv_from_us i, it_value = tv_from_us r\<rparr>)
                      else its);
               (ok, task) = set_raw_timer task (tv_into_us (it_interval (its new_value)))
                  (tv_into_us (it_value (its new_value))) which
        in (if ok then Inr 0 else Inl EFAULT, task, its))"

subsection \<open>Properties\<close>

lemmas time_const_defs = CLOCK_FREQ_def USEC_PER_SEC_def NSEC_PER_SEC_def MACHINE_TICKS_PER_USEC_def INTERRUPT_PER_SEC_def
  USEC_PER_INTERRUPT_def NSEC_PER_MACHINE_TICKS_def

abbreviation tv_total :: "time_val \<Rightarrow> nat" where
  "tv_total v \<equiv> unat (tv_s v) * 1000000 + unat (tv_us v)"

abbreviation ts_total :: "time_spec \<Rightarrow> nat" where
  "ts_total v \<equiv> unat (tv_sec v) * 1000000000 + unat (tv_nsec v)"

lemma tv_roundtrip: "tv_into_us (tv_from_us u) = u"
proof -
  have "u div 1000000 * 1000000 + u mod 1000000 = u" by (rule div_mult_mod_eq)
  then show ?thesis by (simp add: tv_into_us_def tv_from_us_def USEC_PER_SEC_def)
qed

lemma tv_from_us_ok: "unat (tv_us (tv_from_us u)) < 1000000" "tv_total (tv_from_us u) = unat u"
  by (simp_all add: tv_from_us_def USEC_PER_SEC_def unat_div_distrib unat_mod_distrib)

text \<open>Where the seconds do not overflow, adding two \<^verbatim>\<open>TimeVal\<close>s or \<^verbatim>\<open>TimeSpec\<close>s with proper sub-second parts gives the exact sum, again with a proper
  sub-second part; a number of microseconds converted to a \<^verbatim>\<open>TimeVal\<close> keeps its value and converts back to itself.\<close>

lemma time_addition_exact:
  assumes "unat (tv_us a) < 1000000" "unat (tv_us b) < 1000000" "unat (tv_s a) + unat (tv_s b) + 1 < 2 ^ 64"
    and "unat (tv_nsec c) < 1000000000" "unat (tv_nsec d) < 1000000000" "unat (tv_sec c) + unat (tv_sec d) + 1 < 2 ^ 64"
  shows "tv_total (tv_add a b) = tv_total a + tv_total b \<and> unat (tv_us (tv_add a b)) < 1000000 \<and>
    ts_total (ts_add c d) = ts_total c + ts_total d \<and> unat (tv_nsec (ts_add c d)) < 1000000000 \<and>
    tv_total (tv_from_us u) = unat u \<and> tv_into_us (tv_from_us u) = u"
proof -
  have s: "unat (tv_s a + tv_s b) = unat (tv_s a) + unat (tv_s b)" "unat (tv_s a + tv_s b + 1) = unat (tv_s a) + unat (tv_s b) + 1"
    "unat (tv_us a + tv_us b) = unat (tv_us a) + unat (tv_us b)"
    using assms(1-3) by (simp_all add: unat_add_small)
  have n: "unat (tv_sec c + tv_sec d) = unat (tv_sec c) + unat (tv_sec d)"
    "unat (tv_sec c + tv_sec d + 1) = unat (tv_sec c) + unat (tv_sec d) + 1"
    "unat (tv_nsec c + tv_nsec d) = unat (tv_nsec c) + unat (tv_nsec d)"
    using assms(4-6) by (simp_all add: unat_add_small)
  have "tv_total (tv_add a b) = tv_total a + tv_total b \<and> unat (tv_us (tv_add a b)) < 1000000"
    using s assms(1,2) by (auto simp: tv_add_def Let_def USEC_PER_SEC_def word_le_unat unat_sub_le)
  moreover have "ts_total (ts_add c d) = ts_total c + ts_total d \<and> unat (tv_nsec (ts_add c d)) < 1000000000"
    using n assms(4,5) by (auto simp: ts_add_def Let_def NSEC_PER_SEC_def word_le_unat unat_sub_le)
  ultimately show ?thesis using tv_from_us_ok tv_roundtrip by auto
qed

lemma time_addition_exact_example:
  "tv_total (tv_add \<lparr>tv_s = 1, tv_us = 700000\<rparr> \<lparr>tv_s = 2, tv_us = 600000\<rparr>) = 4300000"
  using time_addition_exact [of "\<lparr>tv_s = 1, tv_us = 700000\<rparr>" "\<lparr>tv_s = 2, tv_us = 600000\<rparr>"
      "\<lparr>tv_sec = 0, tv_nsec = 0\<rparr>" "\<lparr>tv_sec = 0, tv_nsec = 0\<rparr>"] by simp

text \<open>A \<^verbatim>\<open>TimeSpec\<close> is converted with nanoseconds per million instead of per thousand: the microseconds are right only below one
  microsecond.\<close>

lemma tv_from_ts_wrong: "tv_us (tv_from_ts spec) = tv_nsec spec div 1000 \<longleftrightarrow> tv_nsec spec < 1000"
proof -
  have "n div 1000000 = n div 1000 \<longleftrightarrow> n < 1000" for n :: nat
  proof
    assume e: "n div 1000000 = n div 1000"
    have "n div 1000000 = n div 1000 div 1000" by (simp add: div_mult2_eq [symmetric])
    then have "n div 1000 = n div 1000 div 1000" using e by simp
    then have "n div 1000 = 0" by (metis div_less_dividend not_gr_zero one_less_numeral_iff order_less_irrefl semiring_norm(76))
    then show "n < 1000" by (simp add: div_eq_0_iff)
  qed simp
  from this [of "unat (tv_nsec spec)"] show ?thesis
    by (simp add: tv_from_ts_def USEC_PER_SEC_def word_unat_eq_iff unat_div_distrib word_less_unat)
qed

text \<open>Feeding a timer a sequence of time slices; the flags say after which of them it fired.\<close>

fun feed_timer :: "time_stat \<Rightarrow> usize list \<Rightarrow> signal_table \<Rightarrow> bool list" where
  "feed_timer self [] st = []"
| "feed_timer self (d # ds) st =
     (let (b, self, st) = update_timer_and_send_signal self d st in b # feed_timer self ds st)"

lemma feed_stopped: "timer_remained_us self = 0 \<Longrightarrow> feed_timer self ds st = map (\<lambda>_. False) ds"
  by (induction ds arbitrary: st) (simp_all add: update_timer_and_send_signal_def)

text \<open>A one-shot timer (interval 0) that is armed fires exactly once, as soon as the time slices it is charged reach the time it
  was set to, and never if they do not reach it.\<close>

lemma one_shot_timer_fires_once:
  assumes "timer_remained_us self \<noteq> 0" "timer_interval_us self = 0"
  shows "count_list (feed_timer self ds st) True =
      (if unat (timer_remained_us self) \<le> sum_list (map unat ds) then 1 else 0) \<and>
    (\<forall>i < length ds. feed_timer self ds st ! i \<longleftrightarrow>
      sum_list (map unat (take i ds)) < unat (timer_remained_us self) \<and>
      unat (timer_remained_us self) \<le> sum_list (map unat (take (Suc i) ds)))"
  using assms
proof (induction ds arbitrary: self st)
  case (Cons d ds)
  show ?case
  proof (cases "timer_remained_us self > d")
    case True
    let ?self = "self\<lparr>timer_remained_us := timer_remained_us self - d\<rparr>"
    have u: "unat (timer_remained_us ?self) = unat (timer_remained_us self) - unat d" "unat d < unat (timer_remained_us self)"
      using True by (simp_all add: unat_sub_le word_less_unat word_le_unat)
    then have "timer_remained_us ?self \<noteq> 0" by (metis unat_0 zero_less_diff less_irrefl)
    from Cons.IH [OF this, of st] Cons.prems(2) have
      ih: "count_list (feed_timer ?self ds st) True =
        (if unat (timer_remained_us self) - unat d \<le> sum_list (map unat ds) then 1 else 0)"
      "\<forall>i < length ds. feed_timer ?self ds st ! i \<longleftrightarrow>
        sum_list (map unat (take i ds)) < unat (timer_remained_us self) - unat d \<and>
        unat (timer_remained_us self) - unat d \<le> sum_list (map unat (take (Suc i) ds))"
      unfolding u(1) by simp_all
    have f: "feed_timer self (d # ds) st = False # feed_timer ?self ds st"
      using True Cons.prems(1) by (simp add: update_timer_and_send_signal_def)
    have "count_list (feed_timer self (d # ds) st) True = (if unat (timer_remained_us self) \<le> sum_list (map unat (d # ds)) then 1 else 0)"
      unfolding f using ih(1) u(2) by auto
    moreover have "feed_timer self (d # ds) st ! i \<longleftrightarrow>
        sum_list (map unat (take i (d # ds))) < unat (timer_remained_us self) \<and>
        unat (timer_remained_us self) \<le> sum_list (map unat (take (Suc i) (d # ds)))" if "i < length (d # ds)" for i
    proof (cases i)
      case 0
      then show ?thesis unfolding f using u(2) by simp
    next
      case (Suc j)
      then show ?thesis unfolding f using ih(2) u(2) that by auto
    qed
    ultimately show ?thesis by blast
  next
    case False
    have f: "feed_timer self (d # ds) st = True # map (\<lambda>_. False) ds"
      using False Cons.prems feed_stopped by (simp add: update_timer_and_send_signal_def)
    have c: "count_list (map (\<lambda>_. False) ds) True = 0" by (induction ds) simp_all
    have u: "unat (timer_remained_us self) \<le> unat d" "0 < unat (timer_remained_us self)"
      using False Cons.prems(1) by (simp_all add: not_less word_le_unat unat_gt_0)
    have "feed_timer self (d # ds) st ! i \<longleftrightarrow>
        sum_list (map unat (take i (d # ds))) < unat (timer_remained_us self) \<and>
        unat (timer_remained_us self) \<le> sum_list (map unat (take (Suc i) (d # ds)))" if "i < length (d # ds)" for i
      unfolding f using that u by (cases i) auto
    then show ?thesis unfolding f using u c by auto
  qed
qed (simp add: unat_gt_0)

definition demo_timer :: time_stat where
  "demo_timer = \<lparr>ts_tid = 3, utime_us = 0, stime_us = 0, user_tick = 0, kernel_tick = 0, start_tick = 0,
     timer_type = TimerReal, timer_interval_us = 0, timer_remained_us = 10\<rparr>"

lemma one_shot_timer_fires_once_example:
  "count_list (feed_timer demo_timer [4, 7, 9] \<lparr>tid2signals = Map.empty, receiver_store = (\<lambda>_. receivers_new)\<rparr>) True = 1"
  using one_shot_timer_fires_once [of demo_timer "[4, 7, 9]"] by (simp add: demo_timer_def)

text \<open>User time is charged from the last entry into the kernel instead of the last return to user mode: a round of \<open>k\<close> microseconds in
  the kernel followed by \<open>u\<close> in user mode adds \<open>k\<close> to the system time and \<open>k + u\<close> to the user time, so the two add up to more than the
  elapsed time.\<close>

lemma user_time_includes_kernel_time:
  assumes "timer_type self = TimerNone"
  shows "fst (timer_user_to_kernel (kernel_tick self + k + u) (fst (timer_kernel_to_user (kernel_tick self + k) self st)) st) =
    self\<lparr>stime_us := stime_us self + k, utime_us := utime_us self + k + u, user_tick := kernel_tick self + k,
      kernel_tick := kernel_tick self + k + u\<rparr>"
  using assms by (simp add: timer_user_to_kernel_def timer_kernel_to_user_def Let_def algebra_simps)

lemma user_time_includes_kernel_time_example:
  "output_raw (fst (timer_user_to_kernel 130
     (fst (timer_kernel_to_user 120 ((time_stat_new 0 3)\<lparr>kernel_tick := 100\<rparr>)
        \<lparr>tid2signals = Map.empty, receiver_store = (\<lambda>_. receivers_new)\<rparr>))
     \<lparr>tid2signals = Map.empty, receiver_store = (\<lambda>_. receivers_new)\<rparr>)) = (30, 20)"
  using user_time_includes_kernel_time [of "(time_stat_new 0 3)\<lparr>kernel_tick := 100\<rparr>" 20 10
      "\<lparr>tid2signals = Map.empty, receiver_store = (\<lambda>_. receivers_new)\<rparr>"]
  by (simp add: time_stat_new_def output_raw_def)

end
