(* ===== verification/Coherence.thy ===== *)
theory Coherence
  imports Vmm Page_Bytes
begin

text \<open>
  The address space of a task: its areas, its page table and the page frames agree.

  A memory set stands for the partial function \<open>ms_map\<close> from user addresses to permissions and backing store. It is coherent
  in a machine when the page table translates every page exactly as that function says, the slots of all its pages
  exist, every frame an area holds is an allocated page frame held by no other page, and the frames \<open>A\<close> of the rest of the
  kernel are apart from both the areas and the table. The areas then never panic when the interval map drives them
  (the interpretation \<open>vmw\<close> of \<open>segment_world\<close>), and each operation of the memory set is an operation on \<open>ms_map\<close>.

  Operations on backing files may change the file system but not the machine's memory or its allocator, which holds for
  files on a disk; this is the hypothesis \<open>files_apart\<close>.
\<close>

subsection \<open>Addresses and pages\<close>

text \<open>User addresses lie in the lower half of the Sv39 address space.\<close>

definition USER_HALF :: usize where "USER_HALF = 0x4000000000"

lemma page_aligned_eqI:
  "page_aligned a \<Longrightarrow> page_aligned b \<Longrightarrow> unat a div 4096 = unat b div 4096 \<Longrightarrow> a = b"
  by (metis page_aligned_iff word_unat_eq_iff div_mult_mod_eq)

lemma idx3_nat:
  "idx3 v = (unat v div 2 ^ 30 mod 512, unat v div 2 ^ 21 mod 512, unat v div 2 ^ 12 mod 512)"
  by (simp add: idx3_def take_bit_eq_mod drop_bit_eq_div unat_mod_distrib unat_div_distrib)

lemma page_digits:
  fixes x :: nat
  assumes "x < 2 ^ 27"
  shows "x = x div 2 ^ 18 mod 512 * 2 ^ 18 + x div 2 ^ 9 mod 512 * 2 ^ 9 + x mod 512"
proof -
  have "x div 2 ^ 18 < 512" using assms by (intro less_mult_imp_div_less) simp
  then have d: "x div 2 ^ 18 mod 512 = x div 512 div 512" by (simp add: div_mult2_eq [symmetric])
  define q where "q = x div 512"
  have "x = q * 512 + x mod 512" "q = q div 512 * 512 + q mod 512" unfolding q_def by (rule div_mult_mod_eq [symmetric])+
  then have "x = q div 512 * 262144 + q mod 512 * 512 + x mod 512" by linarith
  then show ?thesis unfolding d q_def by simp
qed

lemma same_page_user:
  assumes "page_aligned v" "page_aligned p" "v < USER_HALF" "p < USER_HALF"
  shows "same_page v p \<longleftrightarrow> v = p"
proof
  assume "same_page v p"
  then have ix: "idx3 v = idx3 p" by (simp add: same_page_idx3)
  have d: "unat a div 2 ^ 30 = unat a div 4096 div 2 ^ 18" "unat a div 2 ^ 21 = unat a div 4096 div 2 ^ 9" for a :: usize
    by (simp_all add: div_mult2_eq [symmetric])
  have "unat v div 4096 < 2 ^ 27" "unat p div 4096 < 2 ^ 27"
    using assms(3,4) by (simp_all add: less_mult_imp_div_less USER_HALF_def word_less_unat)
  from this [THEN page_digits] have "unat v div 4096 = unat p div 4096"
    using ix unfolding idx3_nat d by simp
  then show "v = p" by (rule page_aligned_eqI [OF assms(1,2)])
qed simp

text \<open>Page \<open>i\<close> of an area that starts at \<open>s\<close>.\<close>

definition nth_page :: "usize \<Rightarrow> nat \<Rightarrow> usize" where
  "nth_page s i = s + of_nat (i * 4096)"

lemma unat_page_offset_of: "i * 4096 < 18446744073709551616 \<Longrightarrow> unat (of_nat (i * 4096) :: usize) = i * 4096"
  by (simp add: unat_of_nat del: of_nat_mult)

lemma nth_page_diff: "i * 4096 < 18446744073709551616 \<Longrightarrow> (nth_page s i - s) div PAGE_SIZE = of_nat i"
  by (simp add: nth_page_def word_unat_eq_iff unat_div_distrib unat_page_offset_of unat_of_nat del: of_nat_mult)

lemma unat_nth_page: "unat s + i * 4096 < 18446744073709551616 \<Longrightarrow> unat (nth_page s i) = unat s + i * 4096"
  by (simp add: nth_page_def unat_add_small unat_page_offset_of del: of_nat_mult)

lemma page_aligned_nth:
  "page_aligned s \<Longrightarrow> unat s + i * 4096 < 18446744073709551616 \<Longrightarrow> page_aligned (nth_page s i)"
  by (simp add: page_aligned_iff unat_nth_page)

text \<open>The pages of \<open>[s, e)\<close>.\<close>

lemma page_steps_nth:
  assumes "page_aligned s" "page_aligned e" "s < e"
  shows "page_steps s e = map (nth_page s) [0..<unat (e - s) div 4096]"
proof -
  have "unat (e - s) mod 4096 = 0" using aligned_diff [OF assms(2,1)] assms(3) by (simp add: page_aligned_iff)
  then obtain q where "unat (e - s) = q * 4096" by (metis mod_eq_0_iff_dvd dvd_div_mult_self)
  then show ?thesis using assms(3) by (simp add: page_steps_def nth_page_def)
qed

lemma aligned_in_range:
  assumes "page_aligned s" "page_aligned p" "s \<le> p" "p < e"
  obtains i where "i < (unat e - unat s + 4095) div 4096" "p = nth_page s i"
proof -
  have "unat (p - s) mod 4096 = 0" using aligned_diff [OF assms(2,1,3)] by (simp add: page_aligned_iff)
  then obtain i where i: "unat (p - s) = i * 4096" by (metis mod_eq_0_iff_dvd dvd_div_mult_self)
  have "unat p = unat s + i * 4096" using i assms(3) by (simp add: unat_sub_le word_le_unat)
  moreover have "unat p < unat e" using assms(4) by (simp add: word_less_unat)
  ultimately have "i * 4096 < unat e - unat s" by linarith
  then have "i < (unat e - unat s + 4095) div 4096" by linarith
  moreover have "p = nth_page s i"
  proof -
    have "unat s + i * 4096 < 18446744073709551616" using \<open>unat p = unat s + i * 4096\<close> unat64_less [of p] by simp
    then show ?thesis using \<open>unat p = unat s + i * 4096\<close> by (simp add: word_unat_eq_iff unat_nth_page)
  qed
  ultimately show ?thesis using that by blast
qed

subsection \<open>Coherence\<close>

fun backing_page :: "'f backing \<Rightarrow> usize option" where
  "backing_page (BackFixed pa) = Some pa"
| "backing_page (BackLazy f b) = map_option start_paddr f"

text \<open>The page table entry a page should have, and the frame it holds.\<close>

fun entry_for :: "(pte_flags \<times> 'f backing) option \<Rightarrow> (usize \<times> pte_flags) option" where
  "entry_for None = None"
| "entry_for (Some (fl, b)) = map_option (\<lambda>pa. (pa, fl OR VALID OR ACCESS OR DIRTY)) (backing_page b)"

fun frame_at :: "(pte_flags \<times> 'f backing) option \<Rightarrow> frame option" where
  "frame_at (Some (fl, BackLazy f b)) = f"
| "frame_at _ = None"

type_synonym 'f addr_map = "usize \<rightharpoonup> pte_flags \<times> 'f backing"

text \<open>The page frames held by the areas; each is held by one page only.\<close>

definition held :: "'f addr_map \<Rightarrow> nat set" where
  "held M = {k. k < 16777216 \<and> (\<exists>p. page_aligned p \<and> frame_at (M p) = Some (frame_of k))}"

definition frames_once :: "'f addr_map \<Rightarrow> bool" where
  "frames_once M \<longleftrightarrow>
     (\<forall>p f. page_aligned p \<and> frame_at (M p) = Some f \<longrightarrow> (\<exists>k < 16777216. f = frame_of k) \<and>
        (\<forall>q. page_aligned q \<and> frame_at (M q) = Some f \<longrightarrow> q = p))"

definition coherent :: "bit_field16 \<Rightarrow> nat set \<Rightarrow> 'f addr_map \<Rightarrow> 's vm_world \<Rightarrow> bool" where
  "coherent bf A M w \<longleftrightarrow> (case w of (pt, m, s) \<Rightarrow>
     pt_wf bf m (A \<union> held M) pt \<and> A \<inter> held M = {} \<and> frames_once M \<and>
     (\<forall>p. M p \<noteq> None \<longrightarrow> p < USER_HALF) \<and>
     (\<forall>p. page_aligned p \<and> p < USER_HALF \<longrightarrow> pt_lookup pt p m = entry_for (M p)) \<and>
     (\<forall>p. page_aligned p \<and> M p \<noteq> None \<longrightarrow> find_pte pt p m \<noteq> None))"

lemma coherentD:
  assumes "coherent bf A M (pt, m, s)"
  shows "pt_wf bf m (A \<union> held M) pt" "A \<inter> held M = {}" "frames_once M" "frames_inv bf m" "(A \<union> held M) \<inter> free_frames bf m = {}"
    "\<And>p. M p \<noteq> None \<Longrightarrow> p < USER_HALF"
    "\<And>p. page_aligned p \<Longrightarrow> p < USER_HALF \<Longrightarrow> pt_lookup pt p m = entry_for (M p)"
    "\<And>p. page_aligned p \<Longrightarrow> M p \<noteq> None \<Longrightarrow> find_pte pt p m \<noteq> None"
  using assms by (auto simp: coherent_def pt_wf_def pt_tree_def)

lemma frame_of_inj: "frame_of k = frame_of k' \<Longrightarrow> k < 16777216 \<Longrightarrow> k' < 16777216 \<Longrightarrow> k = k'"
  using page_addr_inj by simp

lemma frames_onceD:
  assumes "frames_once M" "page_aligned p" "frame_at (M p) = Some f"
  obtains k where "k < 16777216" "f = frame_of k" "k \<in> held M" "\<And>q. page_aligned q \<Longrightarrow> frame_at (M q) = Some f \<Longrightarrow> q = p"
  using assms unfolding frames_once_def held_def by blast

lemma held_cong: "(\<And>p. page_aligned p \<Longrightarrow> frame_at (M' p) = frame_at (M p)) \<Longrightarrow> held M' = held M"
  unfolding held_def by metis

lemma frames_once_cong:
  "frames_once M \<Longrightarrow> (\<And>p. page_aligned p \<Longrightarrow> frame_at (M' p) = frame_at (M p)) \<Longrightarrow> frames_once M'"
  unfolding frames_once_def by metis

text \<open>Coherence looks at the first byte of each page only.\<close>

lemma coherent_cong:
  assumes "coherent bf A M w" "\<And>p. page_aligned p \<Longrightarrow> M' p = M p" "\<And>p. M' p \<noteq> None \<Longrightarrow> p < USER_HALF"
  shows "coherent bf A M' w" "held M' = held M"
proof -
  show h: "held M' = held M" by (rule held_cong) (simp add: assms(2))
  have "frames_once M'" using assms(1) by (auto simp: coherent_def assms(2) intro: frames_once_cong split: prod.splits)
  then show "coherent bf A M' w" using assms(1,3) unfolding coherent_def h by (auto simp: assms(2) split: prod.splits)
qed

text \<open>Changing what one page holds.\<close>

lemma held_upd:
  assumes "frames_once M" "page_aligned p"
  shows "held (M(p := x)) = held M - {k. k < 16777216 \<and> frame_at (M p) = Some (frame_of k)} \<union>
    {k. k < 16777216 \<and> frame_at x = Some (frame_of k)}"
proof (intro equalityI subsetI)
  fix k assume "k \<in> held (M(p := x))"
  then obtain q where q: "k < 16777216" "page_aligned q" "frame_at ((M(p := x)) q) = Some (frame_of k)"
    by (auto simp: held_def)
  show "k \<in> held M - {k. k < 16777216 \<and> frame_at (M p) = Some (frame_of k)} \<union> {k. k < 16777216 \<and> frame_at x = Some (frame_of k)}"
  proof (cases "q = p")
    case False
    then have "frame_at (M q) = Some (frame_of k)" using q(3) by simp
    then have "k \<in> held M" "frame_at (M p) \<noteq> Some (frame_of k)"
      using q(1,2) assms False unfolding held_def frames_once_def by blast+
    then show ?thesis by simp
  qed (use q in simp)
next
  fix k assume k: "k \<in> held M - {k. k < 16777216 \<and> frame_at (M p) = Some (frame_of k)} \<union> {k. k < 16777216 \<and> frame_at x = Some (frame_of k)}"
  show "k \<in> held (M(p := x))"
  proof (cases "frame_at x = Some (frame_of k) \<and> k < 16777216")
    case True
    then show ?thesis using assms(2) unfolding held_def by (auto intro!: exI [of _ p])
  next
    case False
    then obtain q where "k < 16777216" "page_aligned q" "frame_at (M q) = Some (frame_of k)" "frame_at (M p) \<noteq> Some (frame_of k)"
      using k by (auto simp: held_def)
    then show ?thesis unfolding held_def by (auto intro!: exI [of _ q])
  qed
qed

lemma frames_once_upd:
  assumes "frames_once M"
    and "\<And>f. frame_at x = Some f \<Longrightarrow> (\<exists>k < 16777216. f = frame_of k \<and> (k \<notin> held M \<or> frame_at (M p) = Some f))"
    and "page_aligned p"
  shows "frames_once (M(p := x))"
proof -
  have x: "q = p" if q: "page_aligned q" "frame_at (M q) = Some f" "frame_at x = Some f" for q f
  proof -
    obtain k where k: "k < 16777216" "f = frame_of k" "k \<notin> held M \<or> frame_at (M p) = Some f" using assms(2) q(3) by blast
    have "k \<in> held M" using q(1,2) k(1,2) unfolding held_def by blast
    then have "frame_at (M p) = Some f" using k(3) by blast
    then show ?thesis by (rule frames_onceD [OF assms(1,3)]) (use q in blast)
  qed
  have *: "(\<exists>k < 16777216. f = frame_of k) \<and> (\<forall>q'. page_aligned q' \<and> frame_at ((M(p := x)) q') = Some f \<longrightarrow> q' = q)"
    if q: "page_aligned q" "frame_at ((M(p := x)) q) = Some f" for q f
  proof (intro conjI allI impI; (elim conjE)?)
    show "\<exists>k < 16777216. f = frame_of k"
    proof (cases "q = p")
      case False
      then have "frame_at (M q) = Some f" using q(2) by simp
      then show ?thesis using assms(1) q(1) unfolding frames_once_def by blast
    next
      case True
      then have "frame_at x = Some f" using q(2) by simp
      then show ?thesis using assms(2) by blast
    qed
  next
    fix q' assume q': "page_aligned q'" "frame_at ((M(p := x)) q') = Some f"
    consider "q = p" "q' = p" | "q = p" "q' \<noteq> p" | "q \<noteq> p" "q' = p" | "q \<noteq> p" "q' \<noteq> p" by blast
    then show "q' = q"
    proof cases
      case 4
      then have "frame_at (M q) = Some f" "frame_at (M q') = Some f" using q q' by simp_all
      then show ?thesis using assms(1) q(1) q'(1) unfolding frames_once_def by blast
    next
      case 2
      then have "frame_at x = Some f" "frame_at (M q') = Some f" using q q' by simp_all
      then show ?thesis using x [OF q'(1)] 2 by blast
    next
      case 3
      then have "frame_at x = Some f" "frame_at (M q) = Some f" using q q' by simp_all
      then show ?thesis using x [OF q(1)] 3 by blast
    qed blast
  qed
  show ?thesis unfolding frames_once_def using * by blast
qed

lemma coherent_upd:
  assumes c: "coherent bf A M (pt, m, s)" and p: "page_aligned p" "p < USER_HALF"
    and wf: "pt_wf bf m' (A \<union> held (M(p := x))) pt'" and h: "A \<inter> held (M(p := x)) = {}" "frames_once (M(p := x))"
    and look: "\<And>v. pt_lookup pt' v m' = (if same_page v p then entry_for x else pt_lookup pt v m)"
    and find: "\<And>v q. find_pte pt v m = Some q \<Longrightarrow> find_pte pt' v m' = Some q" and x: "x \<noteq> None \<Longrightarrow> find_pte pt' p m' \<noteq> None"
  shows "coherent bf A (M(p := x)) (pt', m', s')"
  unfolding coherent_def prod.case
proof (intro conjI allI impI wf h)
  show "q < USER_HALF" if "(M(p := x)) q \<noteq> None" for q using coherentD(6) [OF c, of q] that p by (auto split: if_splits)
  show "pt_lookup pt' q m' = entry_for ((M(p := x)) q)" if "page_aligned q \<and> q < USER_HALF" for q
    using that p coherentD(7) [OF c] by (simp add: look same_page_user)
  show "find_pte pt' q m' \<noteq> None" if "page_aligned q \<and> (M(p := x)) q \<noteq> None" for q
    using that x coherentD(8) [OF c, of q] find by (cases "q = p") auto
qed

subsection \<open>One page at a time\<close>

lemma pt_mem_cong:
  assumes "mem m' = mem m"
  shows "find_pte pt v m' = find_pte pt v m" "pt_lookup pt v m' = pt_lookup pt v m"
proof -
  have eq: "load_pte m' = load_pte m" using assms by (intro ext) (simp add: load_pte_def)
  show "find_pte pt v m' = find_pte pt v m" "pt_lookup pt v m' = pt_lookup pt v m"
    unfolding pt_lookup_def find_pte_def eq by (rule refl)+
qed

lemma pt_wf_swap:
  assumes "pt_wf bf m K pt" "mem m' = mem m" "frames_inv bf m'" "free_frames bf m' \<union> K' \<subseteq> free_frames bf m \<union> K"
    "K' \<inter> free_frames bf m' = {}"
  shows "pt_wf bf m' K' pt"
proof -
  obtain ks r l1 l2 where ks: "frames pt = map frame_of ks" "distinct ks" "\<forall>k \<in> set ks. k < 16777216 \<and> k \<notin> free_frames bf m \<and> k \<notin> K"
    and r: "root_paddr pt = page_addr r" "links_ok m (r, l1, l2)" "pages_ok bf m K (r, l1, l2)"
    using assms(1) by (auto simp: pt_wf_def pt_tree_def frames_owned_def)
  have eq: "load_pte m' = load_pte m" using assms(2) by (intro ext) (simp add: load_pte_def)
  have co: "child_ok m' = child_ok m" unfolding child_ok_def eq by (rule refl)
  have "links_ok m' (r, l1, l2)" using r(2) unfolding links_ok.simps co .
  moreover have "pages_ok bf m' K' (r, l1, l2)" using r(3) assms(4) unfolding pages_ok_def by blast
  moreover have "frames_owned bf m' K' pt" unfolding frames_owned_def using ks assms(4) by blast
  ultimately show ?thesis using r(1) assms(3,5) unfolding pt_wf_def pt_tree_def by blast
qed

lemma page_forget:
  assumes c: "coherent bf A M (pt, m, s)" and p: "page_aligned p" "M p = Some (fl, b)" "backing_page b = None"
  shows "coherent bf A (M(p := None)) (pt, m, s')" "held (M(p := None)) = held M"
proof -
  have f: "frame_at (M p) = None" using p by (cases b) auto
  show h: "held (M(p := None)) = held M" using held_upd [OF coherentD(3) [OF c] p(1)] f by simp
  have u: "p < USER_HALF" using coherentD(6) [OF c] p(2) by simp
  have "pt_lookup pt p m = None" using coherentD(7) [OF c p(1) u] p(2,3) by simp
  then have look: "pt_lookup pt v m = (if same_page v p then entry_for None else pt_lookup pt v m)" for v
    by (simp add: pt_lookup_def find_pte_def)
  show "coherent bf A (M(p := None)) (pt, m, s')"
    by (rule coherent_upd [OF c p(1) u _ _ _ look]) (use coherentD(1-3) [OF c] h in \<open>auto intro: frames_once_upd [OF _ _ p(1)]\<close>)
qed

lemma page_unmap:
  assumes c: "coherent bf A M (pt, m, s)" and p: "page_aligned p" "M p = Some (fl, b)" "backing_page b \<noteq> None"
    and m1: "mem m1 = mem m" "frames_inv bf m1" "free_frames bf m1 = free_frames bf m \<union> {k. k < 16777216 \<and> frame_at (M p) = Some (frame_of k)}"
  obtains m2 where "pt_unmap pt p m1 = (Ok (), m2)" "coherent bf A (M(p := None)) (pt, m2, s')"
    "free_frames bf m2 \<union> held (M(p := None)) = free_frames bf m \<union> held M" "keeps A m m2"
proof -
  let ?M = "M(p := None)" and ?k = "{k. k < 16777216 \<and> frame_at (M p) = Some (frame_of k)}"
  have u: "p < USER_HALF" using coherentD(6) [OF c] p(2) by simp
  have h: "held ?M = held M - ?k" "?k \<subseteq> held M" using held_upd [OF coherentD(3) [OF c] p(1), of None] p(1) by (auto simp: held_def)
  have wf: "pt_wf bf m1 (A \<union> held ?M) pt"
    by (rule pt_wf_swap [OF coherentD(1) [OF c] m1(1,2)]) (use m1(3) h coherentD(2,5) [OF c] in auto)
  have "pt_lookup pt p m1 \<noteq> None" using coherentD(7) [OF c p(1) u] p(2,3) pt_mem_cong(2) [OF m1(1)] by auto
  with pt_unmap_ok [OF wf, of p] obtain m2 where m2: "pt_unmap pt p m1 = (Ok (), m2)" "pt_stays bf (A \<union> held ?M) pt m1 pt m2"
    "free_frames bf m2 = free_frames bf m1" "\<And>v. pt_lookup pt v m2 = (if same_page v p then None else pt_lookup pt v m1)"
    by metis
  have "coherent bf A ?M (pt, m2, s')"
    by (rule coherent_upd [OF c p(1) u])
      (use m2(2,4) coherentD(2,3) [OF c] h pt_mem_cong [OF m1(1), of pt] in
       \<open>auto simp: pt_stays_def intro: frames_once_upd [OF _ _ p(1)]\<close>)
  moreover have "keeps A m m2"
    by (rule keeps_trans [OF keeps_mem_eq [OF m1(1)] keeps_mono]) (use m2(2) in \<open>auto simp: pt_stays_def\<close>)
  moreover have "free_frames bf m2 \<union> held ?M = free_frames bf m \<union> held M" using m2(3) m1(3) h by auto
  ultimately show ?thesis using that m2(1) by blast
qed

subsection \<open>Areas in a coherent world\<close>

definition files_apart :: "('f, 's area_world) file_ops \<Rightarrow> bool" where
  "files_apart fo \<longleftrightarrow>
     (\<forall>f off buf m s. \<exists>r s'. f_write_to_offset fo f off buf (m, s) = Some (r, m, s')) \<and>
     (\<forall>f off buf m s. \<exists>r buf' s'. f_read_from_offset fo f off buf (m, s) = Some (r, buf', m, s') \<and> length buf' = length buf)"

lemma backend_write_apart:
  "files_apart fo \<Longrightarrow> \<exists>r s'. backend_write_to_offset fo b off buf (m, s) = Some (r, m, s')"
  by (auto simp: files_apart_def backend_write_to_offset_def)

lemma backend_read_apart:
  "files_apart fo \<Longrightarrow> \<exists>r buf' s'. backend_read_from_offset fo b off buf (m, s) = Some (r, buf', m, s') \<and> length buf' = length buf"
  by (auto simp: files_apart_def backend_read_from_offset_def)

lemma unat_small [simp]: "i < 18446744073709551616 \<Longrightarrow> unat (of_nat i :: usize) = i"
  by (simp add: unat_of_nat)

lemma release_none:
  assumes "i < length (lz_frames a)" "lz_frames a ! i = None" "i < 18446744073709551616"
  shows "pma_release_frame bf fo (PmLazy a) (of_nat i) w = Some (Err PmAreaLazy_ReleaseNotAllocatedPage, PmLazy a, w)"
  using assms by (simp add: lazy_release_frame_def at_def)

lemma release_some:
  assumes fo: "files_apart fo" and i: "i < length (lz_frames a)" "lz_frames a ! i = Some (frame_of k)" "i < 18446744073709551616"
    and k: "frames_inv bf m" "k < 16777216" "k \<notin> free_frames bf m"
  obtains m' s' where "pma_release_frame bf fo (PmLazy a) (of_nat i) (m, s) =
      Some (Ok (), PmLazy (a\<lparr>lz_frames := (lz_frames a)[i := None]\<rparr>), m', s')"
    "frames_inv bf m'" "free_frames bf m' = insert k (free_frames bf m)" "mem m' = mem m"
proof -
  obtain m' where m': "frame_drop bf kernel_config (frame_of k) m = Some m'"
    "frames_inv bf m'" "free_frames bf m' = insert k (free_frames bf m)" "mem m' = mem m"
    by (rule frame_drop_one [OF k])
  obtain s' where "lazy_release_frame bf fo a (of_nat i) (m, s) = Some (Ok (), a\<lparr>lz_frames := (lz_frames a)[i := None]\<rparr>, m', s')"
  proof (cases "lz_backend a")
    case None
    then show ?thesis using that [of s] i m'(1) by (simp add: lazy_release_frame_def at_def)
  next
    case (Some b)
    obtain r s' where "backend_write_to_offset fo b (of_nat i * PAGE_SIZE) (frame_as_slice kernel_config (frame_of k) m) (m, s) = Some (r, m, s')"
      using backend_write_apart [OF fo] by blast
    then show ?thesis using that [of s'] i m'(1) Some by (simp add: lazy_release_frame_def at_def)
  qed
  then show ?thesis using that m' by simp
qed

text \<open>\<open>pages_of M s fl pma i n\<close>: pages \<open>i\<close> to \<open>n\<close> of the area that starts at \<open>s\<close> are entered in \<open>M\<close>.\<close>

definition pages_of :: "'f addr_map \<Rightarrow> usize \<Rightarrow> pte_flags \<Rightarrow> 'f pm_area \<Rightarrow> nat \<Rightarrow> nat \<Rightarrow> bool" where
  "pages_of M s fl pma i n \<longleftrightarrow> (\<forall>j. i \<le> j \<and> j < n \<longrightarrow> M (nth_page s j) = Some (fl, pma_at pma (of_nat (j * 4096))))"

lemma nth_page_inj:
  assumes "nth_page s i = nth_page s j" "unat s + i * 4096 < 18446744073709551616" "unat s + j * 4096 < 18446744073709551616"
  shows "i = j"
proof -
  have "unat s + i * 4096 = unat s + j * 4096"
    using arg_cong [OF assms(1), of unat] unat_nth_page [OF assms(2)] unat_nth_page [OF assms(3)] by simp
  then show ?thesis by simp
qed

lemma pma_at_lazy:
  "j * 4096 < 18446744073709551616 \<Longrightarrow> pma_at (PmLazy a) (of_nat (j * 4096)) =
     BackLazy (lz_frames a ! j) (map_option (\<lambda>b. backend_split b (of_nat (j * 4096))) (lz_backend a))"
  by (simp add: unat_page_offset_of del: of_nat_mult)

text \<open>Releasing page \<open>i\<close> of an area and clearing its entry.\<close>

lemma unmap_page_step:
  assumes fo: "files_apart fo" and s: "page_aligned s" "unat s + n * 4096 < 18446744073709551616" "i < n"
    and vma: "vma_start self = s" "pma_ok (vma_pma self) (n * 4096)" "pages_of M s fl (vma_pma self) i n"
    and c: "coherent bf A M (pt, m, st)"
  obtains pma' m' st' where
    "unmap_area_loop bf fo (nth_page s i # vs) self pt (m, st) = unmap_area_loop bf fo vs (self\<lparr>vma_pma := pma'\<rparr>) pt (m', st')"
    "pma_ok pma' (n * 4096)" "pages_of (M(nth_page s i := None)) s fl pma' (Suc i) n"
    "coherent bf A (M(nth_page s i := None)) (pt, m', st')"
    "free_frames bf m' \<union> held (M(nth_page s i := None)) = free_frames bf m \<union> held M" "keeps A m m'"
proof -
  let ?p = "nth_page s i"
  have bound: "unat s + j * 4096 < 18446744073709551616" "j * 4096 < 18446744073709551616" "j < 18446744073709551616" if "j < n" for j
    using s(2) that by linarith+
  note bi = bound [OF s(3)]
  have p: "page_aligned ?p" by (rule page_aligned_nth [OF s(1) bi(1)])
  have idx: "(?p - vma_start self) div PAGE_SIZE = of_nat i" unfolding vma(1) by (rule nth_page_diff [OF bi(2)])
  have at: "M ?p = Some (fl, pma_at (vma_pma self) (of_nat (i * 4096)))" using vma(3) s(3) by (simp add: pages_of_def)
  have ne: "nth_page s j \<noteq> ?p" if "Suc i \<le> j" "j < n" for j
    using nth_page_inj [of s j i] bound [OF that(2)] bi(1) that(1) by auto
  have rest: "pages_of (M(?p := None)) s fl (vma_pma self) (Suc i) n" using vma(3) ne by (auto simp: pages_of_def)
  show ?thesis
  proof (cases "vma_pma self")
    case (PmFixed a)
    then have b: "backing_page (pma_at (vma_pma self) (of_nat (i * 4096))) \<noteq> None" and fr: "frame_at (M ?p) = None"
      using at by simp_all
    obtain m2 where m2: "pt_unmap pt ?p m = (Ok (), m2)" "coherent bf A (M(?p := None)) (pt, m2, st)"
      "free_frames bf m2 \<union> held (M(?p := None)) = free_frames bf m \<union> held M" "keeps A m m2"
      by (rule page_unmap [OF c p at b refl coherentD(4) [OF c], where s' = st]) (simp add: fr)
    show ?thesis by (rule that [of "vma_pma self" m2 st]) (use PmFixed m2 vma(2) rest idx in \<open>auto simp: Let_def\<close>)
  next
    case (PmLazy a)
    have len: "length (lz_frames a) = n" using vma(2) PmLazy by simp
    have atl: "M ?p = Some (fl, BackLazy (lz_frames a ! i) (map_option (\<lambda>b. backend_split b (of_nat (i * 4096))) (lz_backend a)))"
      using at PmLazy pma_at_lazy [OF bi(2)] by simp
    show ?thesis
    proof (cases "lz_frames a ! i")
      case None
      then have b: "backing_page (BackLazy (lz_frames a ! i) (map_option (\<lambda>b. backend_split b (of_nat (i * 4096))) (lz_backend a))) = None"
        by simp
      note pf = page_forget [OF c p atl b]
      have rel: "pma_release_frame bf fo (vma_pma self) (of_nat i) (m, st) = Some (Err PmAreaLazy_ReleaseNotAllocatedPage, vma_pma self, m, st)"
        unfolding PmLazy by (rule release_none) (use None len s(3) bi(3) in auto)
      show ?thesis by (rule that [of "vma_pma self" m st]) (use rel pf vma(2) rest idx in \<open>auto simp: Let_def\<close>)
    next
      case (Some f)
      then have fr: "frame_at (M ?p) = Some f" using atl by simp
      obtain k where k: "k < 16777216" "f = frame_of k" "k \<in> held M" by (rule frames_onceD [OF coherentD(3) [OF c] p fr])
      have kf: "k \<notin> free_frames bf m" using k(3) coherentD(5) [OF c] by blast
      let ?a = "a\<lparr>lz_frames := (lz_frames a)[i := None]\<rparr>"
      obtain m1 st' where rel: "pma_release_frame bf fo (PmLazy a) (of_nat i) (m, st) = Some (Ok (), PmLazy ?a, m1, st')"
        and m1: "frames_inv bf m1" "free_frames bf m1 = insert k (free_frames bf m)" "mem m1 = mem m"
        by (rule release_some [OF fo _ _ bi(3) coherentD(4) [OF c] k(1) kf, of a st]) (use len s(3) Some k(2) in auto)
      have fr1: "free_frames bf m1 = free_frames bf m \<union> {k. k < 16777216 \<and> frame_at (M ?p) = Some (frame_of k)}"
        unfolding fr k(2) m1(2) using k(1) frame_of_inj by auto
      have b: "backing_page (BackLazy (lz_frames a ! i) (map_option (\<lambda>b. backend_split b (of_nat (i * 4096))) (lz_backend a))) \<noteq> None"
        using Some by simp
      obtain m2 where m2: "pt_unmap pt ?p m1 = (Ok (), m2)" "coherent bf A (M(?p := None)) (pt, m2, st')"
        "free_frames bf m2 \<union> held (M(?p := None)) = free_frames bf m \<union> held M" "keeps A m m2"
        by (rule page_unmap [OF c p atl b m1(3,1) fr1, where s' = st'])
      have "pages_of (M(?p := None)) s fl (PmLazy ?a) (Suc i) n"
        using rest PmLazy bound by (auto simp: pages_of_def pma_at_lazy simp del: pma_at.simps of_nat_mult)
      then show ?thesis
        by (intro that [of "PmLazy ?a" m2 st']) (use rel m2 PmLazy len idx in \<open>auto simp: Let_def\<close>)
    qed
  qed
qed

definition clear_pages :: "'f addr_map \<Rightarrow> usize \<Rightarrow> nat \<Rightarrow> nat \<Rightarrow> 'f addr_map" where
  "clear_pages M s i n = (\<lambda>p. if p \<in> nth_page s ` {i..<n} then None else M p)"

lemma clear_pages_step: "i < n \<Longrightarrow> clear_pages (M(nth_page s i := None)) s (Suc i) n = clear_pages M s i n"
proof -
  assume "i < n"
  then have "{i..<n} = insert i {Suc i..<n}" by auto
  then show ?thesis by (auto simp: clear_pages_def)
qed

lemma unmap_area_loop_runs:
  assumes "files_apart fo" "page_aligned s" "unat s + n * 4096 < 18446744073709551616" "i \<le> n"
    "vma_start self = s" "pma_ok (vma_pma self) (n * 4096)" "pages_of M s fl (vma_pma self) i n" "coherent bf A M (pt, m, st)"
  shows "\<exists>self' m' st'. unmap_area_loop bf fo (map (nth_page s) [i..<n]) self pt (m, st) = Some (Ok (), self', pt, m', st') \<and>
    coherent bf A (clear_pages M s i n) (pt, m', st') \<and>
    free_frames bf m' \<union> held (clear_pages M s i n) = free_frames bf m \<union> held M \<and> keeps A m m'"
  using assms
proof (induction "n - i" arbitrary: i self M m st)
  case 0
  then have "clear_pages M s i n = M" by (auto simp: clear_pages_def)
  with 0 show ?case by simp
next
  case (Suc d)
  then have i: "i < n" "d = n - Suc i" "Suc i \<le> n" by simp_all
  obtain pma' m1 st1 where st: "unmap_area_loop bf fo (nth_page s i # map (nth_page s) [Suc i..<n]) self pt (m, st) =
        unmap_area_loop bf fo (map (nth_page s) [Suc i..<n]) (self\<lparr>vma_pma := pma'\<rparr>) pt (m1, st1)"
    and p1: "pma_ok pma' (n * 4096)" "pages_of (M(nth_page s i := None)) s fl pma' (Suc i) n"
    and c1: "coherent bf A (M(nth_page s i := None)) (pt, m1, st1)"
    and f1: "free_frames bf m1 \<union> held (M(nth_page s i := None)) = free_frames bf m \<union> held M" "keeps A m m1"
    by (rule unmap_page_step [OF Suc.prems(1,2,3) i(1) Suc.prems(5-8)])
  obtain self' m' st' where "unmap_area_loop bf fo (map (nth_page s) [Suc i..<n]) (self\<lparr>vma_pma := pma'\<rparr>) pt (m1, st1) =
      Some (Ok (), self', pt, m', st')" "coherent bf A (clear_pages M s i n) (pt, m', st')"
    "free_frames bf m' \<union> held (clear_pages M s i n) = free_frames bf m1 \<union> held (M(nth_page s i := None))" "keeps A m1 m'"
    using Suc.hyps(1) [OF i(2) Suc.prems(1,2,3) i(3) _ _ _ c1, of "self\<lparr>vma_pma := pma'\<rparr>"] Suc.prems(5) p1
      clear_pages_step [OF i(1), of M s] by auto
  then show ?case using st f1 keeps_trans [OF f1(2)] i(1) by (simp add: upt_conv_Cons)
qed

lemma find_pte_create_hit: "find_pte pt va m = Some p \<Longrightarrow> find_pte_create bf pt va m = Some (Some p, pt, m)"
  by (auto simp: find_pte_def find_pte_create_def get_addr_create_def Let_def split: prod.splits if_splits)

lemma set_flags_mapped:
  assumes "pt_wf bf m K pt" "pt_lookup pt va m = Some (pa, old)"
  obtains m' where "pt_set_flags bf pt va fl m = Some (Ok (), pt, m')" "pt_stays bf K pt m pt m'" "free_frames bf m' = free_frames bf m"
    "\<forall>v. pt_lookup pt v m' = (if same_page v va then Some (pa, fl OR VALID OR ACCESS OR DIRTY) else pt_lookup pt v m)"
proof -
  obtain p where p: "find_pte pt va m = Some p" "is_valid (load_pte m p)"
    using assms(2) by (auto simp: pt_lookup_def Let_def split: option.splits if_splits)
  let ?m = "store_pte p (pte_set_flags (load_pte m p) (fl OR VALID OR ACCESS OR DIRTY)) m"
  have sf: "pt_set_flags bf pt va fl m = Some (Ok (), pt, ?m)"
    using p by (simp add: pt_set_flags_def find_pte_create_hit)
  have fr: "free_frames bf ?m = free_frames bf m" by (simp add: store_pte_def)
  obtain res pt' m' where r: "pt_set_flags bf pt va fl m = Some (res, pt', m')" "pt_stays bf K pt m pt' m'"
    "\<forall>v. pt_lookup pt' v m' = (if same_page v va then Some (pa, fl OR VALID OR ACCESS OR DIRTY) else pt_lookup pt v m)"
    by (rule pt_set_flags_ok [OF assms(1), of va fl]) (use assms(2) in auto)
  show ?thesis by (rule that [of ?m]) (use sf fr r in auto)
qed

lemma get_frame_at:
  assumes "i < n" "n * 4096 < 18446744073709551616" "pma_ok pma (n * 4096)"
  shows "pma_get_frame bf fo pma (of_nat i) False w = Some (Ok (backing_page (pma_at pma (of_nat (i * 4096)))), pma, w)"
proof (cases pma)
  case (PmFixed a)
  then show ?thesis by (simp add: fixed_get_frame_def PAGE_SIZE_def)
next
  case (PmLazy a)
  have "i * 4096 < 18446744073709551616" "i < 18446744073709551616" using assms(1,2) by linarith+
  then show ?thesis using PmLazy assms pma_at_lazy [of i a]
    by (simp add: lazy_get_frame_def at_def del: pma_at.simps of_nat_mult)
qed

definition with_flags :: "pte_flags \<Rightarrow> (pte_flags \<times> 'f backing) option \<Rightarrow> (pte_flags \<times> 'f backing) option" where
  "with_flags fl = map_option (apfst (\<lambda>_. fl))"

lemma with_flags_simps [simp]:
  "with_flags fl None = None" "with_flags fl (Some (f, b)) = Some (fl, b)" "frame_at (with_flags fl x) = frame_at x"
  "with_flags fl x = None \<longleftrightarrow> x = None" "with_flags fl (with_flags fl' x) = with_flags fl x"
  by (auto simp: with_flags_def) (cases x rule: frame_at.cases; simp)+

lemma modify_page_step:
  assumes s: "page_aligned s" "unat s + n * 4096 < 18446744073709551616" "i < n"
    and vma: "vma_start self = s" "pma_ok (vma_pma self) (n * 4096)" "pages_of M s fl (vma_pma self) i n"
    and c: "coherent bf A M (pt, m, st)"
  obtains m' where
    "modify_area_flags_loop bf fo (nth_page s i # vs) self pt (m, st) = modify_area_flags_loop bf fo vs self pt (m', st)"
    "coherent bf A (M(nth_page s i := with_flags (vma_flags self) (M (nth_page s i)))) (pt, m', st)"
    "free_frames bf m' = free_frames bf m" "keeps A m m'"
proof -
  let ?p = "nth_page s i" and ?b = "pma_at (vma_pma self) (of_nat (i * 4096))"
  let ?M = "M(?p := with_flags (vma_flags self) (M ?p))"
  have bi: "unat s + i * 4096 < 18446744073709551616" "i * 4096 < 18446744073709551616" "n * 4096 < 18446744073709551616"
    using s(2,3) by linarith+
  have p: "page_aligned ?p" by (rule page_aligned_nth [OF s(1) bi(1)])
  have idx: "(?p - vma_start self) div PAGE_SIZE = of_nat i" unfolding vma(1) by (rule nth_page_diff [OF bi(2)])
  have at: "M ?p = Some (fl, ?b)" using vma(3) s(3) by (simp add: pages_of_def)
  have u: "?p < USER_HALF" using coherentD(6) [OF c, of ?p] at by simp
  have h: "held ?M = held M" "frames_once ?M"
    by (rule held_cong, simp) (rule frames_once_cong [OF coherentD(3) [OF c]], simp)
  have gf: "pma_get_frame bf fo (vma_pma self) (of_nat i) False (m, st) = Some (Ok (backing_page ?b), vma_pma self, m, st)"
    by (rule get_frame_at [OF s(3) bi(3) vma(2)])
  have find: "find_pte pt ?p m \<noteq> None" using coherentD(8) [OF c p] at by simp
  have look: "pt_lookup pt ?p m = entry_for (M ?p)" by (rule coherentD(7) [OF c p u])
  show ?thesis
  proof (cases "backing_page ?b")
    case None
    then have "pt_lookup pt v m = (if same_page v ?p then entry_for (with_flags (vma_flags self) (M ?p)) else pt_lookup pt v m)" for v
      using look at by (simp add: pt_lookup_def find_pte_def)
    then have "coherent bf A ?M (pt, m, st)"
      by (intro coherent_upd [OF c p u]) (use coherentD(1,2) [OF c] h find in auto)
    then show ?thesis using that [of m] gf idx None by simp
  next
    case (Some pa)
    then have lk: "pt_lookup pt ?p m = Some (pa, fl OR VALID OR ACCESS OR DIRTY)" using look at by simp
    obtain m' where m': "pt_set_flags bf pt ?p (vma_flags self) m = Some (Ok (), pt, m')"
      "pt_stays bf (A \<union> held M) pt m pt m'" "free_frames bf m' = free_frames bf m"
      "\<forall>v. pt_lookup pt v m' = (if same_page v ?p then Some (pa, vma_flags self OR VALID OR ACCESS OR DIRTY) else pt_lookup pt v m)"
      by (rule set_flags_mapped [OF coherentD(1) [OF c] lk, of "vma_flags self"])
    have "coherent bf A ?M (pt, m', st)"
      by (rule coherent_upd [OF c p u])
        (use m'(2,4) coherentD(2) [OF c] h find at Some in \<open>auto simp: pt_stays_def\<close>)
    moreover have "keeps A m m'" using m'(2) by (auto simp: pt_stays_def intro: keeps_mono)
    ultimately show ?thesis using that [of m'] gf idx Some m'(1,3) by simp
  qed
qed

definition flag_pages :: "'f addr_map \<Rightarrow> pte_flags \<Rightarrow> usize \<Rightarrow> nat \<Rightarrow> nat \<Rightarrow> 'f addr_map" where
  "flag_pages M fl s i n = (\<lambda>p. if p \<in> nth_page s ` {i..<n} then with_flags fl (M p) else M p)"

lemma modify_area_flags_loop_runs:
  assumes "page_aligned s" "unat s + n * 4096 < 18446744073709551616" "i \<le> n"
    "vma_start self = s" "pma_ok (vma_pma self) (n * 4096)" "pages_of M s fl (vma_pma self) i n" "coherent bf A M (pt, m, st)"
  shows "\<exists>m'. modify_area_flags_loop bf fo (map (nth_page s) [i..<n]) self pt (m, st) = Some (Ok (), self, pt, m', st) \<and>
    coherent bf A (flag_pages M (vma_flags self) s i n) (pt, m', st) \<and> free_frames bf m' = free_frames bf m \<and> keeps A m m'"
  using assms
proof (induction "n - i" arbitrary: i M m)
  case 0
  then have "flag_pages M (vma_flags self) s i n = M" by (auto simp: flag_pages_def)
  with 0 show ?case by simp
next
  case (Suc d)
  then have i: "i < n" "d = n - Suc i" "Suc i \<le> n" by simp_all
  let ?M = "M(nth_page s i := with_flags (vma_flags self) (M (nth_page s i)))"
  obtain m1 where st: "modify_area_flags_loop bf fo (nth_page s i # map (nth_page s) [Suc i..<n]) self pt (m, st) =
        modify_area_flags_loop bf fo (map (nth_page s) [Suc i..<n]) self pt (m1, st)"
    and c1: "coherent bf A ?M (pt, m1, st)" "free_frames bf m1 = free_frames bf m" "keeps A m m1"
    by (rule modify_page_step [OF Suc.prems(1,2) i(1) Suc.prems(4-7)])
  have ne: "nth_page s j \<noteq> nth_page s i" if "Suc i \<le> j" "j < n" for j
    using nth_page_inj [of s j i] Suc.prems(2) that i(1) by linarith
  have pg: "pages_of ?M s fl (vma_pma self) (Suc i) n" using Suc.prems(6) ne by (auto simp: pages_of_def)
  have "{i..<n} = insert i {Suc i..<n}" using i(1) by auto
  then have "flag_pages ?M (vma_flags self) s (Suc i) n = flag_pages M (vma_flags self) s i n"
    using ne by (auto simp: flag_pages_def fun_eq_iff)
  then show ?case using st c1(2) keeps_trans [OF c1(3)] i(1)
      Suc.hyps(1) [OF i(2) Suc.prems(1,2) i(3) Suc.prems(4,5) pg c1(1)] by (auto simp: upt_conv_Cons)
qed

subsection \<open>The kernel's areas run in every coherent world\<close>

lemma aligned_range_pages:
  assumes "page_aligned s" "page_aligned e" "s < e" "page_aligned p"
  shows "s \<le> p \<and> p < e \<longleftrightarrow> p \<in> nth_page s ` {0..<unat (e - s) div 4096}"
proof -
  have "unat (e - s) mod 4096 = 0" using aligned_diff [OF assms(2,1)] assms(3) by (simp add: page_aligned_iff)
  then obtain n where n: "unat (e - s) = n * 4096" by (metis mod_eq_0_iff_dvd dvd_div_mult_self)
  then have e: "unat e = unat s + n * 4096" using assms(3) by (simp add: unat_sub_le word_less_unat word_le_unat)
  have "s \<le> nth_page s i \<and> nth_page s i < e" if "i < n" for i
  proof -
    have "i * 4096 < n * 4096" using that by simp
    then have "unat (nth_page s i) = unat s + i * 4096" "unat s + i * 4096 < unat e"
      using unat_nth_page [of s i] e unat64_less [of e] by linarith+
    then show ?thesis by (simp add: word_le_unat word_less_unat)
  qed
  moreover have "p \<in> nth_page s ` {0..<n}" if r: "s \<le> p" "p < e"
  proof -
    obtain i where i: "i < (unat e - unat s + 4095) div 4096" "p = nth_page s i" by (rule aligned_in_range [OF assms(1,4) r])
    have "(unat e - unat s + 4095) div 4096 = n" using e by simp
    then show ?thesis using i by auto
  qed
  ultimately show ?thesis using n by auto
qed

text \<open>What holds while the interval map works on an address space: it is coherent, no page frame is lost, and the frames of
  the rest of the kernel keep the contents they have in \<open>m0\<close>.\<close>

definition vm_inv ::
  "bit_field16 \<Rightarrow> ('f, 's area_world) file_ops \<Rightarrow> nat set \<Rightarrow> nat set \<Rightarrow> machine \<Rightarrow> 'f addr_map \<Rightarrow> 's vm_world \<Rightarrow> bool" where
  "vm_inv bf fo A C m0 M w \<longleftrightarrow> files_apart fo \<and> coherent bf A M w \<and>
     free_frames bf (fst (snd w)) \<union> held M = C \<and> keeps A m0 (fst (snd w))"

lemma vma_covers_pages:
  assumes c: "vma_covers vma s e" and M: "\<forall>p. s \<le> p \<and> p < e \<longrightarrow> M p = Some (vma_attr vma p)"
  obtains n where "unat (e - s) div 4096 = n" "unat s + n * 4096 < 18446744073709551616" "pma_ok (vma_pma vma) (n * 4096)"
    "pages_of M s (vma_flags vma) (vma_pma vma) 0 n" "page_steps s e = map (nth_page s) [0..<n]"
proof -
  define n where "n = unat (e - s) div 4096"
  have v: "vma_start vma = s" "s < e" "page_aligned s" "page_aligned e" "pma_ok (vma_pma vma) (unat (e - s))"
    using c by (simp_all add: vma_covers_def)
  have "unat (e - s) mod 4096 = 0" using aligned_diff [OF v(4,3)] v(2) by (simp add: page_aligned_iff)
  then have n: "unat (e - s) = n * 4096" unfolding n_def by (metis mod_eq_0_iff_dvd dvd_div_mult_self)
  then have "unat e = unat s + n * 4096" using v(2) by (simp add: unat_sub_le word_less_unat word_le_unat)
  then have b: "unat s + n * 4096 < 18446744073709551616" using unat64_less [of e] by simp
  have "M (nth_page s j) = Some (vma_flags vma, pma_at (vma_pma vma) (of_nat (j * 4096)))" if "j < n" for j
  proof -
    have "j * 4096 < n * 4096" using that by simp
    then have "page_aligned (nth_page s j)" using b by (intro page_aligned_nth [OF v(3)]) linarith
    moreover have "nth_page s j \<in> nth_page s ` {0..<n}" using that by simp
    ultimately have "s \<le> nth_page s j" "nth_page s j < e"
      using aligned_range_pages [OF v(3,4,2)] unfolding n_def by blast+
    then show ?thesis using M v(1) by (simp add: vma_attr_def nth_page_def)
  qed
  then have "pages_of M s (vma_flags vma) (vma_pma vma) 0 n" by (simp add: pages_of_def)
  moreover have "page_steps s e = map (nth_page s) [0..<n]" unfolding n_def by (rule page_steps_nth [OF v(3,4,2)])
  moreover have "pma_ok (vma_pma vma) (n * 4096)" using v(5) n by simp
  ultimately show ?thesis by (intro that [OF n_def [symmetric] b])
qed

interpretation vmw: segment_world "vma_ops bf fo" vma_covers vma_attr vma_upd page_aligned "vm_inv bf fo A C m0"
  for bf :: bit_field16 and fo :: "('f, 's area_world) file_ops" and A C m0
proof unfold_locales
  fix seg :: "'f vm_area" and s e pos args and w :: "'s vm_world"
  assume c: "vma_covers seg s e" and pos: "page_aligned pos" "s < pos" "pos < e"
  show "\<exists>l r. seg_split (vma_ops bf fo) seg pos args w = Some (l, r, w)"
    by (rule vma_split_ok [OF c pos, of bf fo args w]) (auto simp: vma_ops_def)
next
  fix seg :: "'f vm_area" and s e args M and w :: "'s vm_world"
  assume c: "vma_covers seg s e" and i: "vm_inv bf fo A C m0 M w" and M: "\<forall>p. s \<le> p \<and> p < e \<longrightarrow> M p = Some (vma_attr seg p)"
  obtain pt m st where w: "w = (pt, m, st)" by (cases w)
  have fo: "files_apart fo" and co: "coherent bf A M (pt, m, st)" and fr: "free_frames bf m \<union> held M = C" and k: "keeps A m0 m"
    using i unfolding w vm_inv_def by auto
  have v: "vma_start seg = s" "vma_end seg = e" "s < e" "page_aligned s" "page_aligned e" using c by (simp_all add: vma_covers_def)
  obtain n where n: "unat (e - s) div 4096 = n" "unat s + n * 4096 < 18446744073709551616" "pma_ok (vma_pma seg) (n * 4096)"
    "pages_of M s (vma_flags seg) (vma_pma seg) 0 n" "page_steps s e = map (nth_page s) [0..<n]"
    by (rule vma_covers_pages [OF c M])
  obtain self' m' st' where r: "unmap_area_loop bf fo (map (nth_page s) [0..<n]) seg pt (m, st) = Some (Ok (), self', pt, m', st')"
    "coherent bf A (clear_pages M s 0 n) (pt, m', st')" "free_frames bf m' \<union> held (clear_pages M s 0 n) = free_frames bf m \<union> held M"
    "keeps A m m'"
    using unmap_area_loop_runs [OF fo v(4) n(2) _ v(1) n(3,4) co] by auto
  have eq: "on_range (\<lambda>_. None) s e M p = clear_pages M s 0 n p" if "page_aligned p" for p
    using aligned_range_pages [OF v(4,5,3) that] n(1) by (simp add: on_range_def clear_pages_def)
  have ub: "p < USER_HALF" if "on_range (\<lambda>_. None) s e M p \<noteq> None" for p
    using that coherentD(6) [OF co, of p] by (auto simp: on_range_def split: if_splits)
  note c' = coherent_cong [OF r(2) eq ub]
  have "seg_remove (vma_ops bf fo) seg args w = Some (self', pt, m', st')"
    using r(1) n(5) v(1,2) by (simp add: vma_ops_def vma_remove_def unmap_area_def unmap_area_partial_def w)
  then show "\<exists>seg' w'. seg_remove (vma_ops bf fo) seg args w = Some (seg', w') \<and> vm_inv bf fo A C m0 (on_range (\<lambda>_. None) s e M) w'"
    using c' fo r(3) fr keeps_trans [OF k r(4)] by (auto simp: vm_inv_def)
next
  fix seg :: "'f vm_area" and s e f args M and w :: "'s vm_world"
  assume c: "vma_covers seg s e" and i: "vm_inv bf fo A C m0 M w" and M: "\<forall>p. s \<le> p \<and> p < e \<longrightarrow> M p = Some (vma_attr seg p)"
  obtain pt m st where w: "w = (pt, m, st)" by (cases w)
  have fo: "files_apart fo" and co: "coherent bf A M (pt, m, st)" and fr: "free_frames bf m \<union> held M = C" and k: "keeps A m0 m"
    using i unfolding w vm_inv_def by auto
  have v: "vma_start seg = s" "vma_end seg = e" "s < e" "page_aligned s" "page_aligned e" using c by (simp_all add: vma_covers_def)
  obtain n where n: "unat (e - s) div 4096 = n" "unat s + n * 4096 < 18446744073709551616" "pma_ok (vma_pma seg) (n * 4096)"
    "pages_of M s (vma_flags seg) (vma_pma seg) 0 n" "page_steps s e = map (nth_page s) [0..<n]"
    by (rule vma_covers_pages [OF c M])
  let ?seg = "seg\<lparr>vma_flags := ucast f\<rparr>" and ?M = "on_range (map_option (vma_upd f)) s e M"
  obtain m' where r: "modify_area_flags_loop bf fo (map (nth_page s) [0..<n]) ?seg pt (m, st) = Some (Ok (), ?seg, pt, m', st)"
    "coherent bf A (flag_pages M (ucast f) s 0 n) (pt, m', st)" "free_frames bf m' = free_frames bf m" "keeps A m m'"
    using modify_area_flags_loop_runs [OF v(4) n(2) _ _ _ _ co, of 0 ?seg "vma_flags seg" fo] v(1) n(3,4) by auto
  have wf: "map_option (vma_upd f) = with_flags (ucast f)" by (simp add: with_flags_def vma_upd_def)
  have eq: "?M p = flag_pages M (ucast f) s 0 n p" if "page_aligned p" for p
    using aligned_range_pages [OF v(4,5,3) that] n(1) by (simp add: on_range_def flag_pages_def wf)
  have ub: "p < USER_HALF" if "?M p \<noteq> None" for p
    using that coherentD(6) [OF co, of p] by (auto simp: on_range_def split: if_splits)
  note c' = coherent_cong(1) [OF r(2) eq ub]
  have h: "held ?M = held M" by (rule held_cong) (simp add: on_range_def wf)
  have "seg_modify (vma_ops bf fo) seg f args w = Some (?seg, pt, m', st)"
    using r(1) n(5) v(1,2) by (simp add: vma_ops_def vma_modify_def modify_area_flags_def w)
  then show "\<exists>seg' w'. seg_modify (vma_ops bf fo) seg f args w = Some (seg', w') \<and> vm_inv bf fo A C m0 ?M w'"
    using c' fo r(3) fr h keeps_trans [OF k r(4)] by (auto simp: vm_inv_def)
qed

end
