(* ===== verification/Address_Space.thy ===== *)
theory Address_Space
  imports Coherence
begin

text \<open>
  Memory sets as address spaces: \<^verbatim>\<open>munmap\<close>, \<^verbatim>\<open>mprotect\<close>, \<^verbatim>\<open>mmap\<close> at a fixed place and the page fault handler, each as an operation on the
  partial function \<open>ms_map\<close> from addresses to permissions and backing store. Each keeps the memory set coherent with the
  page table (\<open>ms_ok\<close>), never panics under the stated conditions, loses no page frame, and leaves the frames \<open>A\<close> of the rest of
  the kernel alone.
\<close>

declare kernel_config_simps(3,4) [simp del]

definition ms_map :: "'f memory_set \<Rightarrow> 'f addr_map" where
  "ms_map ms = ram_abs vma_attr (area_map ms)"

definition ms_ok :: "bit_field16 \<Rightarrow> nat set \<Rightarrow> 'f memory_set \<Rightarrow> machine \<Rightarrow> bool" where
  "ms_ok bf A ms m \<longleftrightarrow> ram_wf (area_map ms) \<and> ram_covers vma_covers (area_map ms) \<and> coherent bf A (ms_map ms) (ms_pt ms, m, ())"

lemma coherent_files: "coherent bf A M (pt, m, s) \<Longrightarrow> coherent bf A M (pt, m, s')"
  by (simp add: coherent_def)

lemma ucast_flags [simp]: "ucast (ucast fl :: usize) = fl" for fl :: pte_flags
  by (rule bit_word_eqI) (auto simp: bit_simps)

lemma ms_okD:
  assumes "ms_ok bf A ms m"
  shows "ram_wf (area_map ms)" "ram_covers vma_covers (area_map ms)" "coherent bf A (ms_map ms) (ms_pt ms, m, s)"
  using assms by (auto simp: ms_ok_def intro: coherent_files)

lemma vm_inv_start:
  assumes "ms_ok bf A ms m" "files_apart fo"
  shows "vm_inv bf fo A (free_frames bf m \<union> held (ms_map ms)) m (ram_abs vma_attr (area_map ms)) (ms_pt ms, m, st)"
  using ms_okD(3) [OF assms(1), of st] assms(2) by (simp add: vm_inv_def ms_map_def)

lemma entry_for_with_flags:
  "entry_for (with_flags fl x) = map_option (\<lambda>(pa, _). (pa, fl OR VALID OR ACCESS OR DIRTY)) (entry_for x)"
  by (cases x rule: entry_for.cases) (simp_all add: option.map_comp comp_def)

subsection \<open>munmap and mprotect\<close>

text \<open>\<open>gives_back\<close>: the frames of the machine after an operation that shrinks what the areas hold.\<close>

lemma free_after:
  assumes "vm_inv bf fo A (free_frames bf m \<union> held M) m M' (pt, m', st')"
  shows "free_frames bf m' = free_frames bf m \<union> held M - held M'"
  using assms coherentD(5) [of bf A M' pt m' st'] by (auto simp: vm_inv_def)

lemma munmap_runs:
  assumes ok: "ms_ok bf A ms m" and fo: "files_apart fo" and r: "page_aligned s" "page_aligned e" "s < e"
  obtains ms' m' st' where "munmap bf fo ms s e (m, st) = Some (True, ms', m', st')" "ms_ok bf A ms' m'"
    "ms_map ms' = ms_map ms |` (- {s..<e})" "free_frames bf m' = free_frames bf m \<union> held (ms_map ms) - held (ms_map ms')"
    "keeps A m m'"
proof -
  obtain am pt m' st' where u: "ram_unmap (vma_ops bf fo) (area_map ms) s e (ms_pt ms, m, st) = Some (am, pt, m', st')"
    "ram_wf am" "ram_covers vma_covers am" "ram_abs vma_attr am = ram_abs vma_attr (area_map ms) |` (- {s..<e})"
    "vm_inv bf fo A (free_frames bf m \<union> held (ms_map ms)) m (ram_abs vma_attr am) (pt, m', st')"
    by (rule vmw.ram_unmap_runs [OF ms_okD(1,2) [OF ok] r(3,1,2) vm_inv_start [OF ok fo], of st]) auto
  let ?ms = "ms\<lparr>area_map := am, ms_pt := pt\<rparr>"
  have "munmap bf fo ms s e (m, st) = Some (True, ?ms, m', st')" by (simp add: munmap_def u(1))
  moreover have "ms_ok bf A ?ms m'"
    using u(2,3,5) by (auto simp: ms_ok_def ms_map_def vm_inv_def intro: coherent_files)
  ultimately show ?thesis using that [of ?ms m' st'] u(4,5) free_after [OF u(5)] by (simp add: ms_map_def vm_inv_def)
qed

lemma mprotect_runs:
  assumes ok: "ms_ok bf A ms m" and fo: "files_apart fo" and r: "page_aligned s" "page_aligned e" "s < e"
  obtains ms' m' st' where "mprotect bf fo ms s e fl (m, st) = Some (True, ms', m', st')" "ms_ok bf A ms' m'"
    "ms_map ms' = on_range (with_flags fl) s e (ms_map ms)" "free_frames bf m' = free_frames bf m" "keeps A m m'"
proof -
  have wf: "map_option (vma_upd (ucast fl)) = with_flags fl" by (simp add: with_flags_def vma_upd_def)
  obtain am pt m' st' where u: "ram_mprotect (vma_ops bf fo) (area_map ms) s e (ucast fl) (ms_pt ms, m, st) = Some (am, pt, m', st')"
    "ram_wf am" "ram_covers vma_covers am" "ram_abs vma_attr am = on_range (with_flags fl) s e (ram_abs vma_attr (area_map ms))"
    "vm_inv bf fo A (free_frames bf m \<union> held (ms_map ms)) m (ram_abs vma_attr am) (pt, m', st')"
    by (rule vmw.ram_mprotect_runs [OF ms_okD(1,2) [OF ok] r(3,1,2) vm_inv_start [OF ok fo], of "ucast fl" st]) (auto simp: wf)
  let ?ms = "ms\<lparr>area_map := am, ms_pt := pt\<rparr>"
  have "mprotect bf fo ms s e fl (m, st) = Some (True, ?ms, m', st')" by (simp add: mprotect_def u(1))
  moreover have "ms_ok bf A ?ms m'"
    using u(2,3,5) by (auto simp: ms_ok_def ms_map_def vm_inv_def intro: coherent_files)
  moreover have "held (ram_abs vma_attr am) = held (ms_map ms)"
    unfolding u(4) ms_map_def by (rule held_cong) (simp add: on_range_def)
  then have "free_frames bf m' = free_frames bf m"
    using free_after [OF u(5)] coherentD(5) [OF ms_okD(3) [OF ok]] by auto
  ultimately show ?thesis using that [of ?ms m' st'] u(4,5) by (simp add: ms_map_def vm_inv_def)
qed

text \<open>C1: \<^verbatim>\<open>munmap\<close> of a page-aligned, non-empty range on a coherent address space. It returns; the address space loses exactly
  the range; the page table translates every page outside as before and none inside; the frames held by the removed
  pages, and no others, become free; the memory of the rest of the kernel is untouched; and the result is coherent
  again.\<close>

theorem munmap_exact:
  assumes "ms_ok bf A ms m" "files_apart fo" "page_aligned s" "page_aligned e" "s < e"
  shows "\<exists>ms' m' st'. munmap bf fo ms s e (m, st) = Some (True, ms', m', st') \<and> ms_ok bf A ms' m' \<and>
    ms_map ms' = ms_map ms |` (- {s..<e}) \<and>
    (\<forall>p. page_aligned p \<and> p < USER_HALF \<longrightarrow>
       pt_lookup (ms_pt ms') p m' = (if p \<in> {s..<e} then None else pt_lookup (ms_pt ms) p m)) \<and>
    free_frames bf m' = free_frames bf m \<union> (held (ms_map ms) - held (ms_map ms')) \<and> keeps A m m'"
proof -
  obtain ms' m' st' where r: "munmap bf fo ms s e (m, st) = Some (True, ms', m', st')" "ms_ok bf A ms' m'"
    "ms_map ms' = ms_map ms |` (- {s..<e})" "free_frames bf m' = free_frames bf m \<union> held (ms_map ms) - held (ms_map ms')"
    "keeps A m m'"
    by (rule munmap_runs [OF assms])
  have "pt_lookup (ms_pt ms') p m' = (if p \<in> {s..<e} then None else pt_lookup (ms_pt ms) p m)"
    if "page_aligned p" "p < USER_HALF" for p
    using coherentD(7) [OF ms_okD(3) [OF assms(1)] that] coherentD(7) [OF ms_okD(3) [OF r(2)] that] r(3)
    by (simp add: restrict_map_def)
  moreover have "held (ms_map ms') \<inter> free_frames bf m = {}"
  proof -
    have "held (ms_map ms') \<subseteq> held (ms_map ms)" unfolding held_def r(3) by (auto simp: restrict_map_def split: if_splits)
    then show ?thesis using coherentD(5) [OF ms_okD(3) [OF assms(1)]] by blast
  qed
  ultimately show ?thesis using r by blast
qed

text \<open>C4: \<^verbatim>\<open>mprotect\<close> of a page-aligned, non-empty range on a coherent address space returns, gives exactly the mapped pages of the range
  the new permissions, in the areas and in the page table, and changes no other page, no physical page and no page
  frame.\<close>

theorem mprotect_exact:
  assumes "ms_ok bf A ms m" "files_apart fo" "page_aligned s" "page_aligned e" "s < e"
  shows "\<exists>ms' m' st'. mprotect bf fo ms s e fl (m, st) = Some (True, ms', m', st') \<and> ms_ok bf A ms' m' \<and>
    ms_map ms' = (\<lambda>p. if p \<in> {s..<e} then map_option (\<lambda>(_, b). (fl, b)) (ms_map ms p) else ms_map ms p) \<and>
    (\<forall>p. page_aligned p \<and> p < USER_HALF \<longrightarrow> pt_lookup (ms_pt ms') p m' =
       (if p \<in> {s..<e} then map_option (\<lambda>(pa, _). (pa, fl OR VALID OR ACCESS OR DIRTY)) (pt_lookup (ms_pt ms) p m)
        else pt_lookup (ms_pt ms) p m)) \<and>
    free_frames bf m' = free_frames bf m \<and> keeps A m m'"
proof -
  obtain ms' m' st' where r: "mprotect bf fo ms s e fl (m, st) = Some (True, ms', m', st')" "ms_ok bf A ms' m'"
    "ms_map ms' = on_range (with_flags fl) s e (ms_map ms)" "free_frames bf m' = free_frames bf m" "keeps A m m'"
    by (rule mprotect_runs [OF assms])
  have "pt_lookup (ms_pt ms') p m' =
       (if p \<in> {s..<e} then map_option (\<lambda>(pa, _). (pa, fl OR VALID OR ACCESS OR DIRTY)) (pt_lookup (ms_pt ms) p m)
        else pt_lookup (ms_pt ms) p m)" if "page_aligned p" "p < USER_HALF" for p
    using coherentD(7) [OF ms_okD(3) [OF assms(1)] that] coherentD(7) [OF ms_okD(3) [OF r(2)] that] r(3)
    by (simp add: on_range_def entry_for_with_flags)
  moreover have "ms_map ms' = (\<lambda>p. if p \<in> {s..<e} then map_option (\<lambda>(_, b). (fl, b)) (ms_map ms p) else ms_map ms p)"
    unfolding r(3) by (auto simp: on_range_def with_flags_def fun_eq_iff apfst_def map_prod_def intro!: option.map_cong)
  ultimately show ?thesis using r by blast
qed

subsection \<open>mmap at a fixed place\<close>

definition enter_pages :: "'f addr_map \<Rightarrow> usize \<Rightarrow> pte_flags \<Rightarrow> 'f pm_area \<Rightarrow> nat \<Rightarrow> nat \<Rightarrow> 'f addr_map" where
  "enter_pages M s fl pma i n = (\<lambda>p. if p \<in> nth_page s ` {i..<n} then Some (fl, pma_at pma (p - s)) else M p)"

lemma held_enter_empty:
  assumes "frames_once M" "page_aligned p" "M p = None" "frame_at x = None"
  shows "held (M(p := x)) = held M" "frames_once (M(p := x))"
  using held_upd [OF assms(1,2), of x] frames_once_upd [OF assms(1) _ assms(2), of x] assms(3,4) by simp_all

text \<open>Entering a page that has no frame yet creates the upper levels of the page table only.\<close>

lemma map_page_step:
  assumes c: "coherent bf A M (pt, m, st)" and p: "page_aligned p" "p < USER_HALF" "M p = None"
    and b: "backing_page b = None" and fr: "2 < card (free_frames bf m)"
  obtains pt' m' where "pt_map bf pt p 0 0 m = Some (Ok (), pt', m')" "coherent bf A (M(p := Some (fl, b))) (pt', m', st)"
    "free_frames bf m' \<subseteq> free_frames bf m" "card (free_frames bf m) \<le> card (free_frames bf m') + 2" "keeps (A \<union> held M) m m'"
proof -
  have lk: "pt_lookup pt p m = None" using coherentD(7) [OF c p(1,2)] p(3) by simp
  obtain res pt' m' where r: "pt_map bf pt p 0 0 m = Some (res, pt', m')" "pt_stays bf (A \<union> held M) pt m pt' m'"
    "(res = Err PageTable_FrameAllocFailed \<and> free_frames bf m' = {}) \<or> (res = Ok () \<and> find_pte pt' p m' \<noteq> None)"
    "\<forall>v. pt_lookup pt' v m' = pt_lookup pt v m"
    by (rule pt_map_ok [OF coherentD(1) [OF c], of 0 p 0]) (use lk in auto)
  have st: "free_frames bf m' \<subseteq> free_frames bf m" "card (free_frames bf m) \<le> card (free_frames bf m') + 2"
    "keeps (A \<union> held M) m m'" using r(2) by (auto simp: pt_stays_def)
  have ok: "res = Ok ()" "find_pte pt' p m' \<noteq> None" using r(3) st(2) fr by auto
  have fb: "frame_at (Some (fl, b)) = None" using b by (cases b) auto
  note h = held_enter_empty [OF coherentD(3) [OF c] p(1,3) fb]
  have "pt_lookup pt' v m' = (if same_page v p then entry_for (Some (fl, b)) else pt_lookup pt v m)" for v
    using r(4) lk b by (simp add: pt_lookup_def find_pte_def)
  then have "coherent bf A (M(p := Some (fl, b))) (pt', m', st)"
    by (intro coherent_upd [OF c p(1,2)]) (use r(2) coherentD(2) [OF c] h ok(2) in \<open>auto simp: pt_stays_def\<close>)
  then show ?thesis using that r(1) ok(1) st by blast
qed

lemma map_area_loop_runs:
  assumes "page_aligned s" "unat s + n * 4096 \<le> unat USER_HALF" "i \<le> n" "vma_start self = s" "vma_pma self = PmLazy a"
    "lz_frames a = replicate n None" "\<forall>j. i \<le> j \<and> j < n \<longrightarrow> M (nth_page s j) = None" "coherent bf A M (pt, m, st)"
    "2 * (n - i) < card (free_frames bf m)"
  shows "\<exists>pt' m'. map_area_loop bf fo (map (nth_page s) [i..<n]) self pt (m, st) = Some (Ok (), self, pt', m', st) \<and>
    coherent bf A (enter_pages M s (vma_flags self) (PmLazy a) i n) (pt', m', st) \<and>
    held (enter_pages M s (vma_flags self) (PmLazy a) i n) = held M \<and>
    free_frames bf m' \<subseteq> free_frames bf m \<and> keeps (A \<union> held M) m m'"
  using assms
proof (induction "n - i" arbitrary: i M pt m)
  case 0
  then have "enter_pages M s (vma_flags self) (PmLazy a) i n = M" by (auto simp: enter_pages_def)
  with 0 show ?case by simp
next
  case (Suc d)
  then have i: "i < n" "d = n - Suc i" "Suc i \<le> n" by simp_all
  let ?p = "nth_page s i" and ?b = "pma_at (PmLazy a) (of_nat (i * 4096))"
  have U: "unat USER_HALF = 274877906944" by (simp add: USER_HALF_def)
  have "i * 4096 < n * 4096" using i(1) by simp
  then have bi: "unat s + i * 4096 < unat USER_HALF" "i * 4096 < 18446744073709551616" "n * 4096 < 18446744073709551616"
    using Suc.prems(2) U by linarith+
  have bi': "unat s + i * 4096 < 18446744073709551616" using bi(1) U by linarith
  have p: "page_aligned ?p" "?p < USER_HALF"
    using page_aligned_nth [OF Suc.prems(1) bi'] bi(1) unat_nth_page [OF bi'] by (simp_all add: word_less_unat)
  have idx: "(?p - vma_start self) div PAGE_SIZE = of_nat i" unfolding Suc.prems(4) by (rule nth_page_diff [OF bi(2)])
  have at: "M ?p = None" using Suc.prems(7) i(1) by simp
  have b: "backing_page ?b = None" using pma_at_lazy [OF bi(2), of a] i(1) Suc.prems(6) by simp
  have gf: "pma_get_frame bf fo (vma_pma self) (of_nat i) False (m, st) = Some (Ok None, vma_pma self, m, st)"
    using get_frame_at [OF i(1) bi(3), of "vma_pma self" bf fo "(m, st)"] b Suc.prems(5,6) by simp
  have fr: "2 < card (free_frames bf m)" using Suc.prems(9) i(1) by linarith
  obtain pt1 m1 where m1: "pt_map bf pt ?p 0 0 m = Some (Ok (), pt1, m1)"
    "coherent bf A (M(?p := Some (vma_flags self, ?b))) (pt1, m1, st)"
    "free_frames bf m1 \<subseteq> free_frames bf m" "card (free_frames bf m) \<le> card (free_frames bf m1) + 2" "keeps (A \<union> held M) m m1"
    by (rule map_page_step [OF Suc.prems(8) p at b fr])
  let ?M = "M(?p := Some (vma_flags self, ?b))"
  have fb: "frame_at (Some (vma_flags self, ?b)) = None" using b by (cases ?b) auto
  have hM: "held ?M = held M" by (rule held_enter_empty(1) [OF coherentD(3) [OF Suc.prems(8)] p(1) at fb])
  have ne: "nth_page s j \<noteq> ?p" if "Suc i \<le> j" "j < n" for j
  proof -
    have "j * 4096 < n * 4096" using that(2) by simp
    then have "unat s + j * 4096 < 18446744073709551616" using Suc.prems(2) U by linarith
    then show ?thesis using nth_page_inj [of s j i] bi' that(1) by auto
  qed
  have none: "\<forall>j. Suc i \<le> j \<and> j < n \<longrightarrow> ?M (nth_page s j) = None" using Suc.prems(7) ne by auto
  have card: "2 * (n - Suc i) < card (free_frames bf m1)" using Suc.prems(9) m1(4) i(1) by linarith
  have "{i..<n} = insert i {Suc i..<n}" using i(1) by auto
  then have en: "enter_pages ?M s (vma_flags self) (PmLazy a) (Suc i) n = enter_pages M s (vma_flags self) (PmLazy a) i n"
    using ne by (auto simp: enter_pages_def fun_eq_iff nth_page_def simp del: pma_at.simps of_nat_mult)
  obtain pt' m' where "map_area_loop bf fo (map (nth_page s) [Suc i..<n]) self pt1 (m1, st) = Some (Ok (), self, pt', m', st)"
    "coherent bf A (enter_pages M s (vma_flags self) (PmLazy a) i n) (pt', m', st)"
    "held (enter_pages M s (vma_flags self) (PmLazy a) i n) = held M"
    "free_frames bf m' \<subseteq> free_frames bf m1" "keeps (A \<union> held M) m1 m'"
    using Suc.hyps(1) [OF i(2) Suc.prems(1,2) i(3) Suc.prems(4,5,6) none m1(2) card] unfolding en hM by blast
  moreover have "self\<lparr>vma_pma := vma_pma self\<rparr> = self" by simp
  ultimately show ?case using m1(1,3) gf idx i(1) keeps_trans [OF m1(5)] by (auto simp: upt_conv_Cons)
qed

text \<open>The area that \<^verbatim>\<open>mmap\<close> makes: \<open>n\<close> pages without frames.\<close>

definition fresh_area :: "usize \<Rightarrow> usize \<Rightarrow> pte_flags \<Rightarrow> 'f backend_file option \<Rightarrow> 'f vm_area" where
  "fresh_area s e fl be = \<lparr>vma_start = s, vma_end = e, vma_flags = fl,
     vma_pma = PmLazy \<lparr>lz_frames = replicate (unat (e - s) div 4096) None, lz_backend = be\<rparr>, vma_name = ''from mmap''\<rparr>"

lemma fresh_area_covers:
  assumes "page_aligned s" "page_aligned e" "s < e"
  shows "vma_covers (fresh_area s e fl be) s e"
proof -
  have "unat (e - s) mod 4096 = 0" using aligned_diff [OF assms(2,1)] assms(3) by (simp add: page_aligned_iff)
  then have "unat (e - s) div 4096 * 4096 = unat (e - s)" by (metis mod_eq_0_iff_dvd dvd_div_mult_self)
  then show ?thesis using assms by (simp add: vma_covers_def fresh_area_def)
qed

lemma fresh_area_made:
  assumes "page_aligned s" "page_aligned e" "s < e" "e \<le> USER_VIRT_ADDR_LIMIT"
  shows "lazy_new (page_count (e - s)) be = Ok \<lparr>lz_frames = replicate (unat (e - s) div 4096) None, lz_backend = be\<rparr>"
    "vma_new s e fl (PmLazy \<lparr>lz_frames = replicate (unat (e - s) div 4096) None, lz_backend = be\<rparr>) ''from mmap'' = Ok (fresh_area s e fl be)"
proof -
  have "unat (e - s) mod 4096 = 0" using aligned_diff [OF assms(2,1)] assms(3) by (simp add: page_aligned_iff)
  then obtain n where n: "unat (e - s) = n * 4096" by (metis mod_eq_0_iff_dvd dvd_div_mult_self)
  have le: "unat (e - s) \<le> 4294967295" "0 < unat (e - s)"
    using assms(3,4) by (simp_all add: unat_sub_le word_less_unat word_le_unat USER_VIRT_ADDR_LIMIT_def)
  then have n0: "0 < n" "n \<le> 1048575" using n by linarith+
  have pc: "unat (page_count (e - s)) = n" using unat_page_count [of "e - s"] n n0(2) by simp
  have lim: "unat (page_count USER_VIRT_ADDR_LIMIT) = 1048576" using unat_page_count [of USER_VIRT_ADDR_LIMIT] by (simp add: USER_VIRT_ADDR_LIMIT_def)
  have "page_count (e - s) \<noteq> 0" "\<not> page_count USER_VIRT_ADDR_LIMIT < page_count (e - s)"
    using pc lim n0 by (auto simp: word_less_unat)
  then show "lazy_new (page_count (e - s)) be = Ok \<lparr>lz_frames = replicate (unat (e - s) div 4096) None, lz_backend = be\<rparr>"
    using pc n by (simp add: lazy_new_def)
  have "pma_ok (PmLazy \<lparr>lz_frames = replicate (unat (e - s) div 4096) None, lz_backend = be\<rparr>) (unat (e - s))" using n by simp
  then have "pma_size (PmLazy \<lparr>lz_frames = replicate (unat (e - s) div 4096) None, lz_backend = be\<rparr>) = e - s" by (rule pma_ok_size)
  then show "vma_new s e fl (PmLazy \<lparr>lz_frames = replicate (unat (e - s) div 4096) None, lz_backend = be\<rparr>) ''from mmap'' = Ok (fresh_area s e fl be)"
    using assms(1-3) by (simp add: vma_new_def fresh_area_def align_down_of_aligned align_up_of_aligned not_le Let_def)
qed

lemma USER_LIMIT_half: "e \<le> USER_VIRT_ADDR_LIMIT \<Longrightarrow> unat e \<le> unat USER_HALF"
  by (simp add: word_le_unat USER_VIRT_ADDR_LIMIT_def USER_HALF_def)

definition add_range :: "'f addr_map \<Rightarrow> usize \<Rightarrow> usize \<Rightarrow> (usize \<Rightarrow> pte_flags \<times> 'f backing) \<Rightarrow> 'f addr_map" where
  "add_range M s e g = M ++ (\<lambda>p. if p \<in> {s..<e} then Some (g p) else None)"

lemma mmap_segment_runs:
  assumes r: "page_aligned s" "page_aligned e" "s < e" "e \<le> USER_VIRT_ADDR_LIMIT" and c: "coherent bf A M (pt, m, st)"
    and M: "\<forall>p. s \<le> p \<and> p < e \<longrightarrow> M p = None" and fr: "2 * (unat (e - s) div 4096) < card (free_frames bf m)"
  obtains pt' m' where "mmap_segment bf fo fl be s e (pt, m, st) = Some (fresh_area s e fl be, pt', m', st)"
    "coherent bf A (add_range M s e (vma_attr (fresh_area s e fl be))) (pt', m', st)"
    "held (add_range M s e (vma_attr (fresh_area s e fl be))) = held M"
    "free_frames bf m' \<subseteq> free_frames bf m" "keeps (A \<union> held M) m m'"
proof -
  let ?f = "fresh_area s e fl be" and ?n = "unat (e - s) div 4096"
  let ?a = "\<lparr>lz_frames = replicate ?n None, lz_backend = be\<rparr>"
  have f: "vma_start ?f = s" "vma_end ?f = e" "vma_pma ?f = PmLazy ?a" "vma_flags ?f = fl" by (simp_all add: fresh_area_def)
  have "unat (e - s) mod 4096 = 0" using aligned_diff [OF r(2,1)] r(3) by (simp add: page_aligned_iff)
  then have "?n * 4096 = unat (e - s)" by (metis mod_eq_0_iff_dvd dvd_div_mult_self)
  then have b: "unat s + ?n * 4096 \<le> unat USER_HALF"
    using USER_LIMIT_half [OF r(4)] r(3) by (simp add: unat_sub_le word_less_unat word_le_unat)
  have inr: "s \<le> nth_page s j \<and> nth_page s j < e" if "j < ?n" for j
  proof -
    have "j * 4096 < ?n * 4096" using that by simp
    then have "unat s + j * 4096 < 18446744073709551616" using b by (simp add: USER_HALF_def)
    then have "page_aligned (nth_page s j)" by (rule page_aligned_nth [OF r(1)])
    then show ?thesis using aligned_range_pages [OF r(1,2,3), of "nth_page s j"] that by simp
  qed
  obtain pt' m' where m': "map_area_loop bf fo (map (nth_page s) [0..<?n]) ?f pt (m, st) = Some (Ok (), ?f, pt', m', st)"
    "coherent bf A (enter_pages M s fl (PmLazy ?a) 0 ?n) (pt', m', st)" "held (enter_pages M s fl (PmLazy ?a) 0 ?n) = held M"
    "free_frames bf m' \<subseteq> free_frames bf m" "keeps (A \<union> held M) m m'"
    using map_area_loop_runs [OF r(1) b, of 0 ?f ?a M bf A pt m st fo] f M inr c fr by auto
  have eq: "add_range M s e (vma_attr ?f) p = enter_pages M s fl (PmLazy ?a) 0 ?n p" if "page_aligned p" for p
    using aligned_range_pages [OF r(1,2,3) that] f
    by (auto simp: add_range_def enter_pages_def map_add_def vma_attr_def simp del: pma_at.simps)
  have ub: "p < USER_HALF" if "add_range M s e (vma_attr ?f) p \<noteq> None" for p
    using that coherentD(6) [OF c, of p] USER_LIMIT_half [OF r(4)]
    by (auto simp: add_range_def map_add_def word_less_unat split: if_splits)
  note c' = coherent_cong [OF m'(2) eq ub]
  have "mmap_segment bf fo fl be s e (pt, m, st) = Some (?f, pt', m', st)"
    using fresh_area_made(1) [OF r, of be] fresh_area_made(2) [OF r, of fl be] m'(1) page_steps_nth [OF r(1,2,3)] f by (simp add: mmap_segment_def map_area_def)
  then show ?thesis using that c' m'(3-5) by blast
qed

lemma push_fixed_runs:
  assumes ok: "ms_ok bf A ms m" and fo: "files_apart fo" and r: "page_aligned s" "page_aligned e" "s < e"
    and lim: "LOWER_LIMIT \<le> s" "e < USER_VIRT_ADDR_LIMIT" and fr: "2 * (unat (e - s) div 4096) < card (free_frames bf m)"
  obtains ms' m' st' where "push_with_backend bf fo ms s e fl be False (m, st) = Some (Ok s, ms', m', st')" "ms_ok bf A ms' m'"
    "ms_map ms' = add_range (ms_map ms) s e (vma_attr (fresh_area s e fl be))" "keeps A m m'"
proof -
  obtain am pt m1 st1 where u: "ram_unmap (vma_ops bf fo) (area_map ms) s e (ms_pt ms, m, st) = Some (am, pt, m1, st1)"
    "ram_wf am" "ram_covers vma_covers am" "ram_abs vma_attr am = ram_abs vma_attr (area_map ms) |` (- {s..<e})"
    "vm_inv bf fo A (free_frames bf m \<union> held (ms_map ms)) m (ram_abs vma_attr am) (pt, m1, st1)"
    by (rule vmw.ram_unmap_runs [OF ms_okD(1,2) [OF ok] r(3,1,2) vm_inv_start [OF ok fo], of st]) auto
  let ?M = "ram_abs vma_attr am" and ?f = "fresh_area s e fl be"
  have c: "coherent bf A ?M (pt, m1, st1)" and k: "keeps A m m1" using u(5) by (simp_all add: vm_inv_def)
  have none: "\<forall>p. s \<le> p \<and> p < e \<longrightarrow> ?M p = None" using u(4) by simp
  have "held ?M \<subseteq> held (ms_map ms)" unfolding held_def u(4) ms_map_def by (auto simp: restrict_map_def split: if_splits)
  then have "free_frames bf m \<subseteq> free_frames bf m1"
    using free_after [OF u(5)] coherentD(5) [OF ms_okD(3) [OF ok]] by blast
  moreover have "finite (free_frames bf m1)"
    by (rule finite_subset [OF _ finite_lessThan [of 16777216]]) (use free_frames_less [OF coherentD(4) [OF c]] in blast)
  ultimately have "card (free_frames bf m) \<le> card (free_frames bf m1)" by (intro card_mono)
  then have fr1: "2 * (unat (e - s) div 4096) < card (free_frames bf m1)" using fr by linarith
  obtain pt' m' where m': "mmap_segment bf fo fl be s e (pt, m1, st1) = Some (?f, pt', m', st1)"
    "coherent bf A (add_range ?M s e (vma_attr ?f)) (pt', m', st1)" "keeps (A \<union> held ?M) m1 m'"
    by (rule mmap_segment_runs [OF r _ c none fr1, of fo fl be]) (use lim in auto)
  have free: "ram_abs vma_attr am |` {s..<e} = Map.empty" using none by (auto simp: restrict_map_def fun_eq_iff)
  note ins = vma.insert_raw_abs [OF u(2,3) r(3) fresh_area_covers [OF r] free, of fl be]
  let ?ms = "ms\<lparr>area_map := insert_raw am s e ?f, ms_pt := pt'\<rparr>"
  have push: "push_with_backend bf fo ms s e fl be False (m, st) = Some (Ok s, ?ms, m', st1)"
    using lim u(1) m'(1) by (simp add: push_with_backend_def mmap_fixed_def not_le not_less)
  have map': "ms_map ?ms = add_range ?M s e (vma_attr ?f)" using ins by (simp add: ms_map_def add_range_def)
  then have "ms_ok bf A ?ms m'" using ins m'(2) by (auto simp: ms_ok_def intro: coherent_files)
  moreover have "ms_map ?ms = add_range (ms_map ms) s e (vma_attr ?f)"
    unfolding map' unfolding u(4) add_range_def ms_map_def by (auto simp: map_add_def restrict_map_def fun_eq_iff)
  moreover have "keeps A m m'" using keeps_trans [OF k keeps_mono [OF m'(3)]] by blast
  ultimately show ?thesis using that push by blast
qed

text \<open>C3: \<^verbatim>\<open>mmap\<close> with \<^verbatim>\<open>MAP_FIXED\<close>. A range that reaches the end of user space is refused without effect. A page-aligned, non-empty range in user
  space, when page frames suffice for the page table, is replaced by a mapping with the given permissions and
  backing file, without frames; everything else in the address space stays, and the result is coherent. A start below
  \<^verbatim>\<open>LOWER_LIMIT\<close> panics.\<close>

theorem mmap_fixed_exact:
  assumes "ms_ok bf A ms m" "files_apart fo" "page_aligned s" "page_aligned e" "s < e"
    "2 * (unat (e - s) div 4096) < card (free_frames bf m)"
  shows "if USER_VIRT_ADDR_LIMIT \<le> e
    then push_with_backend bf fo ms s e fl be False (m, st) = Some (Err MemorySet_UserMmapIntersectWithKernel, ms, m, st)
    else if s < LOWER_LIMIT then push_with_backend bf fo ms s e fl be False (m, st) = None
    else \<exists>ms' m' st'. push_with_backend bf fo ms s e fl be False (m, st) = Some (Ok s, ms', m', st') \<and> ms_ok bf A ms' m' \<and>
      ms_map ms' = ms_map ms ++ (\<lambda>p. if p \<in> {s..<e}
        then Some (fl, BackLazy None (map_option (\<lambda>b. backend_split b (p - s)) be)) else None) \<and> keeps A m m'"
proof -
  have "vma_attr (fresh_area s e fl be) p = (fl, BackLazy None (map_option (\<lambda>b. backend_split b (p - s)) be))" if "p \<in> {s..<e}" for p
  proof -
    have "unat (e - s) mod 4096 = 0" using aligned_diff [OF assms(4,3)] assms(5) by (simp add: page_aligned_iff)
    then have "unat (e - s) div 4096 * 4096 = unat (e - s)" by (metis mod_eq_0_iff_dvd dvd_div_mult_self)
    moreover have "unat (p - s) < unat (e - s)" using that by (simp add: unat_sub_le word_less_unat word_le_unat) linarith
    ultimately have "unat (p - s) div 4096 < unat (e - s) div 4096" by (metis less_mult_imp_div_less)
    then show ?thesis by (simp add: vma_attr_def fresh_area_def)
  qed
  then have eq: "add_range (ms_map ms) s e (vma_attr (fresh_area s e fl be)) = ms_map ms ++ (\<lambda>p. if p \<in> {s..<e}
        then Some (fl, BackLazy None (map_option (\<lambda>b. backend_split b (p - s)) be)) else None)"
    by (auto simp: add_range_def map_add_def fun_eq_iff)
  consider "USER_VIRT_ADDR_LIMIT \<le> e" | "e < USER_VIRT_ADDR_LIMIT" "s < LOWER_LIMIT" | "e < USER_VIRT_ADDR_LIMIT" "LOWER_LIMIT \<le> s"
    by fastforce
  then show ?thesis
  proof cases
    case 3
    obtain ms' m' st' where "push_with_backend bf fo ms s e fl be False (m, st) = Some (Ok s, ms', m', st')" "ms_ok bf A ms' m'"
      "ms_map ms' = add_range (ms_map ms) s e (vma_attr (fresh_area s e fl be))" "keeps A m m'"
      by (rule push_fixed_runs [OF assms(1-5) 3(2,1) assms(6)])
    moreover have "\<not> USER_VIRT_ADDR_LIMIT \<le> e" "\<not> s < LOWER_LIMIT" using 3 by auto
    ultimately show ?thesis unfolding eq by (simp only: if_False) blast
  qed (simp_all add: push_with_backend_def mmap_fixed_def not_le)
qed

subsection \<open>Storing an area back\<close>

lemma bt_insert_replace:
  "bt_sorted xs \<Longrightarrow> k \<in> fst ` set xs \<Longrightarrow> bt_insert k v xs = map (\<lambda>e. if fst e = k then (k, v) else e) xs"
proof (induction xs)
  case (Cons e xs)
  have later: "fst x \<noteq> fst e" if "x \<in> set xs" for x using Cons.prems(1) that by auto
  show ?case
  proof (cases "fst e = k")
    case True
    have "map (\<lambda>e. if fst e = k then (k, v) else e) xs = xs" using later True by (intro map_idI) auto
    then show ?thesis using True by simp
  next
    case False
    then have "k \<in> fst ` set xs" using Cons.prems(2) by auto
    moreover have "\<not> k < fst e" using calculation Cons.prems(1) by auto
    ultimately show ?thesis using False Cons by simp
  qed
qed simp

lemma put_area_eq:
  assumes wf: "ram_wf am" and a: "a \<in> areas am" "ra_contains a p"
  shows "put_area am p seg = am\<lparr>segments := map (\<lambda>e. if fst e = ra_start a then (ra_start a, a\<lparr>ra_segment := seg\<rparr>) else e) (segments am)\<rparr>"
    and "(ra_start a, a) \<in> set (segments am)"
proof -
  obtain k where k: "(k, a) \<in> set (segments am)" using a(1) by (auto simp: areas_def)
  then have ka: "k = ra_start a" using ram_wf_entry [OF wf] by force
  show e: "(ra_start a, a) \<in> set (segments am)" using k ka by simp
  have srt: "bt_sorted (segments am)" by (rule ram_wf_bt_sorted [OF wf])
  have "bt_last_le p (segments am) \<noteq> None"
    using e a(2) unfolding bt_last_le_None ra_contains_def by (metis fst_conv not_less)
  then obtain k' b where l: "bt_last_le p (segments am) = Some (k', b)" by fastforce
  note l' = bt_last_le_Some [OF l]
  have b: "b \<in> areas am" "k' = ra_start b" using l'(1) ram_wf_entry [OF wf l'(1)] by (force simp: areas_def)+
  have "ra_start a \<le> k'" using l'(3) [OF srt] e a(2) by (force simp: ra_contains_def)
  then have "b = a" using ram_wf_disjoint [OF wf a(1) b(1)] ram_wf_area [OF wf a(1)] ram_wf_area [OF wf b(1)] l'(2) b(2) a(2)
    by (auto simp: ra_contains_def)
  moreover have "ra_start a \<in> fst ` set (segments am)" using e by force
  ultimately show "put_area am p seg = am\<lparr>segments := map (\<lambda>e. if fst e = ra_start a then (ra_start a, a\<lparr>ra_segment := seg\<rparr>) else e) (segments am)\<rparr>"
    using l b(2) by (simp add: put_area_def bt_insert_replace [OF srt])
qed

lemma put_area_ok:
  assumes wf: "ram_wf am" and a: "a \<in> areas am" "ra_contains a p"
  shows "ram_wf (put_area am p seg)" "areas (put_area am p seg) = insert (a\<lparr>ra_segment := seg\<rparr>) (areas am - {a})"
    "put_area am p (ra_segment a) = am"
    "ram_abs attr (put_area am p seg) = (\<lambda>q. if ra_contains a q then Some (attr seg q) else ram_abs attr am q)"
    "ram_covers covers am \<Longrightarrow> covers seg (ra_start a) (ra_end a) \<Longrightarrow> ram_covers covers (put_area am p seg)"
proof -
  define g where "g = (\<lambda>e. if fst e = ra_start a then (ra_start a, a\<lparr>ra_segment := seg\<rparr>) else e)"
  have eq: "put_area am p seg = am\<lparr>segments := map g (segments am)\<rparr>" unfolding g_def by (rule put_area_eq(1) [OF wf a])
  note mem = put_area_eq(2) [OF wf a]
  have only: "snd e = a" if "e \<in> set (segments am)" "fst e = ra_start a" for e
  proof -
    have "snd e \<in> areas am" "fst e = ra_start (snd e)" using that(1) ram_wf_entry [OF wf] by (auto simp: areas_def)
    then show ?thesis using ram_wf_disjoint [OF wf, of "snd e" a] ram_wf_area [OF wf] a(1) that(2) by fastforce
  qed
  have same: "ra_start (snd (g e)) = ra_start (snd e) \<and> ra_end (snd (g e)) = ra_end (snd e)" if "e \<in> set (segments am)" for e
    using only [OF that] by (auto simp: g_def)
  have srt: "sorted_wrt (\<lambda>x y. area_before (snd x) (snd y)) (segments am)" using wf by (simp add: ram_wf_def case_prod_unfold)
  have "sorted_wrt (\<lambda>x y. area_before (snd (g x)) (snd (g y))) (segments am)"
    by (rule sorted_wrt_mono_rel [OF _ srt]) (use same in metis)
  moreover have "\<forall>e \<in> set (segments am). fst (g e) = ra_start (snd (g e)) \<and> ra_start (snd (g e)) < ra_end (snd (g e))"
    using ram_wf_entry [OF wf] ram_wf_area [OF wf] a(1) by (auto simp: areas_def g_def)
  ultimately show wf': "ram_wf (put_area am p seg)"
    unfolding eq by (simp add: ram_wf_def case_prod_unfold sorted_wrt_map)
  have "g ` set (segments am) = insert (ra_start a, a\<lparr>ra_segment := seg\<rparr>) {e \<in> set (segments am). fst e \<noteq> ra_start a}"
    using mem unfolding g_def by force
  then have "areas (put_area am p seg) = insert (a\<lparr>ra_segment := seg\<rparr>) (snd ` {e \<in> set (segments am). fst e \<noteq> ra_start a})"
    unfolding eq areas_def by simp
  moreover have "snd ` {e \<in> set (segments am). fst e \<noteq> ra_start a} = areas am - {a}"
    using only ram_wf_entry [OF wf] by (auto simp: areas_def)
  ultimately show ar: "areas (put_area am p seg) = insert (a\<lparr>ra_segment := seg\<rparr>) (areas am - {a})" by simp
  show "put_area am p (ra_segment a) = am"
  proof -
    have "map (\<lambda>e. if fst e = ra_start a then (ra_start a, a\<lparr>ra_segment := ra_segment a\<rparr>) else e) (segments am) = segments am"
      using only by (intro map_idI) (auto simp: prod_eq_iff)
    then show ?thesis unfolding put_area_eq(1) [OF wf a] by (simp only:) simp
  qed
  show "ram_abs attr (put_area am p seg) = (\<lambda>q. if ra_contains a q then Some (attr seg q) else ram_abs attr am q)"
  proof (rule ram_abs_eqI [OF wf'])
    fix q v
    have "hits attr (areas am - {a}) q v \<longleftrightarrow> \<not> ra_contains a q \<and> hits attr (areas am) q v"
      using ram_wf_unique_hit [OF wf _ a(1)] by (auto simp: hits_def)
    then show "hits attr (areas (put_area am p seg)) q v \<longleftrightarrow>
        (if ra_contains a q then Some (attr seg q) else ram_abs attr am q) = Some v"
      unfolding ar by (auto simp: ram_abs_Some [OF wf] ra_contains_def)
  qed
  show "ram_covers covers (put_area am p seg)" if "ram_covers covers am" "covers seg (ra_start a) (ra_end a)"
    using that unfolding ram_covers_areas ar by auto
qed

subsection \<open>Page faults\<close>

lemma keeps_write:
  assumes "k < 16777216" "off + length bs \<le> 4096"
  obtains m' where "frame_slice_write kernel_config (frame_of k) off bs m = Some m'" "keeps (- {k}) m m'"
    "frame_allocator m' = frame_allocator m"
proof -
  let ?m = "m\<lparr>mem := mem_write (mem m) (lin (k * 4096 + off)) bs\<rparr>"
  have "keeps (- {k}) m ?m" unfolding keeps_def
  proof (intro allI impI)
    fix x :: nat assume x: "x < 2 ^ 40" "x div 4096 \<in> - {k}"
    have "\<not> (k * 4096 + off \<le> x \<and> x < k * 4096 + off + length bs)"
    proof
      assume "k * 4096 + off \<le> x \<and> x < k * 4096 + off + length bs"
      then have "k * 4096 \<le> x" "x < Suc k * 4096" using assms(2) by simp_all
      then have "x div 4096 = k" by (simp add: div_nat_eqI)
      then show False using x(2) by simp
    qed
    moreover have "k * 4096 + off < 2 ^ 40" "length bs < 2 ^ 40" using assms by simp_all
    ultimately show "mem ?m (lin x) = mem m (lin x)" using x(1) by (simp add: mem_write_lin del: de_Morgan_conj)
  qed
  moreover have "frame_slice_write kernel_config (frame_of k) off bs m = Some ?m"
    using assms(2) by (simp add: frame_slice_write_def frame_ptr_lin lin_add)
  ultimately show ?thesis using that by simp
qed

lemma fill_new_frame_ok:
  assumes fo: "files_apart fo" and k: "k < 16777216"
  obtains m' s' where "fill_new_frame fo a idx (frame_of k) (m, s) = Some (m', s')" "keeps (- {k}) m m'"
    "frame_allocator m' = frame_allocator m"
    "lz_backend a = None \<longrightarrow> (\<forall>x < 2 ^ 40. x div 4096 = k \<longrightarrow> mem m' (lin x) = 0)"
proof (cases "lz_backend a")
  case None
  let ?m = "frame_zero kernel_config (frame_of k) m"
  have "mem ?m (lin x) = 0" if x: "x < 2 ^ 40" "x div 4096 = k" for x
  proof -
    have "k * 4096 \<le> x \<and> x < k * 4096 + 4096" using x(2) div_mult_mod_eq [of x 4096] mod_less_divisor [of 4096 x] by linarith
    then show ?thesis using frame_zero_mem [OF k x(1)] by simp
  qed
  then show ?thesis
    using that [of ?m s] None keeps_zero [OF k] by (simp add: fill_new_frame_def frame_zero_def frame_fill_def)
next
  case (Some b)
  obtain r buf s' where rd: "backend_read_from_offset fo b (idx * PAGE_SIZE) (frame_as_slice kernel_config (frame_of k) m) (m, s) =
      Some (r, buf, m, s')" "length buf = length (frame_as_slice kernel_config (frame_of k) m)"
    using backend_read_apart [OF fo] by blast
  have len: "0 + length buf \<le> 4096" using rd(2) by (simp add: frame_as_slice_def mem_read_def)
  obtain m1 where m1: "frame_slice_write kernel_config (frame_of k) 0 buf m = Some m1" "keeps (- {k}) m m1"
    "frame_allocator m1 = frame_allocator m" by (rule keeps_write [OF k len])
  have "keeps (- {k}) m (frame_zero kernel_config (frame_of k) m1)" by (rule keeps_trans [OF m1(2) keeps_zero [OF k]])
  then show ?thesis
    using that [of "if r = None then frame_zero kernel_config (frame_of k) m1 else m1" s'] Some rd(1) m1
    by (auto simp: fill_new_frame_def frame_zero_def frame_fill_def)
qed

text \<open>Using a free frame \<open>k\<close> for something else does not disturb a page table.\<close>

lemma entry_keeps:
  assumes "keeps K m m'" "k \<in> K" "k < 16777216" "i < 512" shows "entry m' k i = entry m k i"
proof -
  have "read_u64 (mem m') (slot k i) = read_u64 (mem m) (slot k i)"
  proof (rule read_u64_cong)
    fix b :: nat assume b: "b < 8"
    have "(k * 4096 + 8 * i + b) div 4096 = k" using assms(4) b by (intro div_nat_eqI) auto
    then show "mem m' (slot k i + of_nat b) = mem m (slot k i + of_nat b)"
      using assms(1,2) slot_byte_less [OF assms(3,4) b] unfolding keeps_def slot_def lin_add by simp
  qed
  then show ?thesis by (simp add: load_pte_def)
qed

lemma pt_wf_alloc:
  assumes wf: "pt_wf bf m K pt" and k: "k \<in> free_frames bf m"
    and m': "frames_inv bf m'" "free_frames bf m' = free_frames bf m - {k}" "keeps (- {k}) m m'"
  shows "pt_wf bf m' (insert k K) pt" "find_pte pt v m' = find_pte pt v m" "pt_lookup pt v m' = pt_lookup pt v m"
proof -
  obtain ks r l1 l2 where ks: "frames pt = map frame_of ks" "distinct ks" "\<forall>k \<in> set ks. k < 16777216 \<and> k \<notin> free_frames bf m \<and> k \<notin> K"
    and r: "root_paddr pt = page_addr r" "links_ok m (r, l1, l2)" "pages_ok bf m K (r, l1, l2)" "K \<inter> free_frames bf m = {}"
    using wf by (auto simp: pt_wf_def pt_tree_def frames_owned_def)
  have e: "entry m' q i = entry m q i" if "page_of (r, l1, l2) n = Some q" "i < 512" for n q i
    using pages_okD(1) [OF r(3) that(1)] k that(2) by (intro entry_keeps [OF m'(3)]) auto
  have "child_ok m' r i c = child_ok m r i c" if "i < 512" for i c by (rule child_ok_cong [OF e [of N0]]) (use that in simp_all)
  moreover have "child_ok m' q j c = child_ok m q j c" if "l1 i = Some q" "j < 512" for i q j c
    by (rule child_ok_cong [OF e [of "N1 i"]]) (use that in simp_all)
  ultimately have lk: "links_ok m' (r, l1, l2)" using r(2) by (auto split: option.splits)
  have "pages_ok bf m' (insert k K) (r, l1, l2)" using r(3) k unfolding pages_ok_def m'(2) by blast
  moreover have "frames_owned bf m' (insert k K) pt" unfolding frames_owned_def m'(2) using ks k by blast
  moreover have "insert k K \<inter> free_frames bf m' = {}" using r(4) m'(2) by auto
  ultimately show "pt_wf bf m' (insert k K) pt" using r(1) m'(1) lk unfolding pt_wf_def pt_tree_def by blast
  show f: "find_pte pt v m' = find_pte pt v m" for v
    unfolding find_pte_shape [OF lk r(1)] find_pte_shape [OF r(2,1)] by (cases "idx3 v") simp
  obtain i j l where ix: "idx3 v = (i, j, l)" by (cases "idx3 v")
  note less = idx3_less [OF ix]
  have "entry m' q l = entry m q l" if "l2 i j = Some q" for q using e [of "N2 i j"] that less by simp
  then show "pt_lookup pt v m' = pt_lookup pt v m"
    unfolding pt_lookup_shape [OF lk r(1)] pt_lookup_shape [OF r(2,1)] ix by (auto split: option.splits)
qed

text \<open>The page of an address inside an area.\<close>

lemma fault_page:
  assumes s: "page_aligned s" "s \<le> v"
  defines "i \<equiv> unat (v - s) div 4096"
  shows "align_down (v - s) = of_nat (i * 4096)" "s + align_down (v - s) = nth_page s i" "nth_page s i = align_down v"
    "align_down (v - s) div PAGE_SIZE = of_nat i"
proof -
  have d: "unat (v - s) = unat v - unat s" "unat s \<le> unat v" using s(2) by (simp_all add: unat_sub_le word_le_unat)
  obtain q where q: "unat s = q * 4096" using s(1) by (auto simp: page_aligned_iff mod_eq_0_iff_dvd dvd_def mult.commute)
  have i: "i * 4096 < 18446744073709551616" unfolding i_def by simp
  show al: "align_down (v - s) = of_nat (i * 4096)"
    unfolding word_unat_eq_iff unat_page_offset_of [OF i] by (simp add: unat_align_down i_def)
  then show np: "s + align_down (v - s) = nth_page s i" by (simp add: nth_page_def)
  have "unat v = q * 4096 + unat (v - s)" using d q by simp
  then have dv: "unat v div 4096 = q + i" unfolding i_def by simp
  have "unat s + i * 4096 = unat v div 4096 * 4096" unfolding dv q by simp
  moreover have "unat v div 4096 * 4096 < 18446744073709551616" by simp
  ultimately have "unat (nth_page s i) = unat v div 4096 * 4096" by (subst unat_nth_page) auto
  then show "nth_page s i = align_down v" by (simp add: word_unat_eq_iff unat_align_down)
  show "align_down (v - s) div PAGE_SIZE = of_nat i"
    unfolding al word_unat_eq_iff unat_div_distrib unat_page_offset_of [OF i] using i by simp
qed

lemma ms_area_at:
  assumes ok: "ms_ok bf A ms m" and v: "ms_map ms v = Some (fl, b)"
  obtains a n where "a \<in> areas (area_map ms)" "ra_contains a v" "ram_find (area_map ms) v = Some (ra_segment a)"
    "vma_covers (ra_segment a) (ra_start a) (ra_end a)" "(fl, b) = vma_attr (ra_segment a) v"
    "\<forall>q. ra_contains a q \<longrightarrow> ms_map ms q = Some (vma_attr (ra_segment a) q)"
    "unat (ra_end a - ra_start a) = n * 4096" "unat (v - ra_start a) div 4096 < n"
    "unat (ra_start a) + n * 4096 < 18446744073709551616"
proof -
  note wf = ms_okD(1) [OF ok]
  obtain a where a: "a \<in> areas (area_map ms)" "ra_contains a v" "vma_attr (ra_segment a) v = (fl, b)"
    using v by (auto simp: ms_map_def ram_abs_Some [OF wf] hits_def)
  have c: "vma_covers (ra_segment a) (ra_start a) (ra_end a)" using ms_okD(2) [OF ok] a(1) by (simp add: ram_covers_areas)
  then have al: "page_aligned (ra_start a)" "page_aligned (ra_end a)" "ra_start a < ra_end a" by (simp_all add: vma_covers_def)
  have at: "ms_map ms q = Some (vma_attr (ra_segment a) q)" if "ra_contains a q" for q
    using that a(1) by (auto simp: ms_map_def ram_abs_Some [OF wf] hits_def)
  have "unat (ra_end a - ra_start a) mod 4096 = 0" using aligned_diff [OF al(2,1)] al(3) by (simp add: page_aligned_iff)
  then obtain n where n: "unat (ra_end a - ra_start a) = n * 4096" by (metis mod_eq_0_iff_dvd dvd_div_mult_self)
  have "unat (ra_start a) \<le> unat v" "unat v < unat (ra_end a)" "unat (v - ra_start a) = unat v - unat (ra_start a)"
    "unat (ra_end a - ra_start a) = unat (ra_end a) - unat (ra_start a)"
    using a(2) al(3) by (simp_all add: ra_contains_def unat_sub_le word_less_unat word_le_unat)
  then have d: "unat (v - ra_start a) < n * 4096" "unat (ra_start a) + n * 4096 = unat (ra_end a)" using n by linarith+
  have "unat (v - ra_start a) div 4096 < n" using d(1) by (rule less_mult_imp_div_less)
  moreover have "unat (ra_start a) + n * 4096 < 18446744073709551616" unfolding d(2) by simp
  ultimately show ?thesis using that [OF a(1,2) ram_find_in [OF wf a(1,2)] c a(3) [symmetric]] at n by simp
qed

fun give_frame :: "frame \<Rightarrow> pte_flags \<times> 'f backing \<Rightarrow> pte_flags \<times> 'f backing" where
  "give_frame f (fl, BackLazy _ b) = (fl, BackLazy (Some f) b)"
| "give_frame f (fl, BackFixed pa) = (fl, BackFixed pa)"

text \<open>What entering a fresh frame does to the address space.\<close>

definition on_page :: "usize \<Rightarrow> frame \<Rightarrow> 'f addr_map \<Rightarrow> 'f addr_map" where
  "on_page p f M = (\<lambda>q. if align_down q = p then map_option (give_frame f) (M q) else M q)"

lemma coherent_give:
  assumes c: "coherent bf A M (pt, m, st)" and p: "page_aligned p" "M p = Some (fl, BackLazy None b)"
    and k: "k \<in> free_frames bf m" and m1: "frames_inv bf m1" "free_frames bf m1 = free_frames bf m - {k}" "keeps (- {k}) m m1"
  obtains e where "find_pte pt p m1 = Some e" "\<not> is_valid (load_pte m1 e)"
    "coherent bf A (on_page p (frame_of k) M)
       (pt, store_pte e (set_all (load_pte m1 e) (page_addr k) (fl OR VALID OR ACCESS OR DIRTY)) m1, st')"
    "keeps (A \<union> held M \<union> {k}) m1 (store_pte e (set_all (load_pte m1 e) (page_addr k) (fl OR VALID OR ACCESS OR DIRTY)) m1)"
    "pt_lookup pt p m = None"
proof -
  note al = pt_wf_alloc [OF coherentD(1) [OF c] k m1]
  have u: "p < USER_HALF" using coherentD(6) [OF c] p(2) by simp
  have k1: "k < 16777216" using free_frames_less [OF coherentD(4) [OF c] k] .
  obtain e where e: "find_pte pt p m1 = Some e" using coherentD(8) [OF c p(1)] p(2) al(2) by auto
  have lk: "pt_lookup pt p m = None" using coherentD(7) [OF c p(1) u] p(2) by simp
  have nv: "\<not> is_valid (load_pte m1 e)" using lk al(3) [of p] e by (auto simp: pt_lookup_def [of pt p m1] Let_def split: if_splits)
  let ?e = "set_all (load_pte m1 e) (page_addr k) (fl OR VALID OR ACCESS OR DIRTY)"
  let ?m = "store_pte e ?e m1" and ?x = "Some (fl, BackLazy (Some (frame_of k)) b)"
  note st = store_leaf [OF al(1) e, where e = ?e]
  have "frame_at (M p) = None" using p(2) by simp
  then have h: "held (M(p := ?x)) = insert k (held M)"
    using held_upd [OF coherentD(3) [OF c] p(1), of ?x] k1 frame_of_inj by auto
  have kn: "k \<notin> held M" "k \<notin> A" using coherentD(5) [OF c] k by auto
  have fo: "frames_once (M(p := ?x))" by (rule frames_once_upd [OF coherentD(3) [OF c] _ p(1)]) (use k1 kn in auto)
  have "coherent bf A (M(p := ?x)) (pt, ?m, st')"
  proof (rule coherent_upd [OF c p(1) u _ _ fo])
    show "pt_wf bf ?m (A \<union> held (M(p := ?x))) pt" using st(1) h by (simp add: pt_stays_def)
    show "A \<inter> held (M(p := ?x)) = {}" using h kn coherentD(2) [OF c] by auto
    show "pt_lookup pt v ?m = (if same_page v p then entry_for ?x else pt_lookup pt v m)" for v
      using st(3) al(3) addr_set_all_page [OF k1] is_valid_flags_VALID [of "load_pte m1 e" "page_addr k" fl "ACCESS OR DIRTY"] by simp
    show "find_pte pt v ?m = Some q" if "find_pte pt v m = Some q" for v q using st(1) al(2) that by (simp add: pt_stays_def)
    show "find_pte pt p ?m \<noteq> None" using st(1) e by (simp add: pt_stays_def)
  qed
  then have "coherent bf A (on_page p (frame_of k) M) (pt, ?m, st')"
  proof (rule coherent_cong(1))
    show "on_page p (frame_of k) M q = (M(p := ?x)) q" if "page_aligned q" for q
      using that p(2) align_down_of_aligned by (simp add: on_page_def)
    show "q < USER_HALF" if "on_page p (frame_of k) M q \<noteq> None" for q
      using that coherentD(6) [OF c, of q] by (auto simp: on_page_def split: if_splits)
  qed
  moreover have "keeps (A \<union> held M \<union> {k}) m1 ?m" using st(1) by (simp add: pt_stays_def insert_is_Un [symmetric] Un_assoc)
  ultimately show ?thesis using that e nv lk by blast
qed

text \<open>\<^verbatim>\<open>get_frame\<close> with allocation: the page has a frame, or gets one, or memory is exhausted.\<close>

lemma get_frame_present:
  assumes "i < n" "n * 4096 < 18446744073709551616" "pma_ok pma (n * 4096)" "backing_page (pma_at pma (of_nat (i * 4096))) = Some pa"
  shows "pma_get_frame bf fo pma (of_nat i) True w = Some (Ok (Some pa), pma, w)"
proof (cases pma)
  case (PmFixed a)
  then show ?thesis using assms(4) by (simp add: fixed_get_frame_def PAGE_SIZE_def)
next
  case (PmLazy a)
  have i: "i * 4096 < 18446744073709551616" "i < 18446744073709551616" using assms(1,2) by linarith+
  then obtain f where "lz_frames a ! i = Some f" "start_paddr f = pa" using assms(4) PmLazy pma_at_lazy [of i a] by auto
  then show ?thesis using PmLazy assms(1,3) i by (simp add: lazy_get_frame_def at_def)
qed

lemma get_frame_missing:
  assumes i: "i < n" "n * 4096 < 18446744073709551616" "pma_ok pma (n * 4096)" "backing_page (pma_at pma (of_nat (i * 4096))) = None"
    and fo: "files_apart fo" and m: "frames_inv bf m"
  obtains (full) "free_frames bf m = {}" "pma_get_frame bf fo pma (of_nat i) True (m, st) = Some (Err Memory_RunOutOfMemory, pma, m, st)"
  | (fresh) a k m1 st1 where "pma = PmLazy a" "lz_frames a ! i = None" "least_ge (free_frames bf m) 0 = Some k"
      "pma_get_frame bf fo pma (of_nat i) True (m, st) =
        Some (Ok (Some (page_addr k)), PmLazy (a\<lparr>lz_frames := (lz_frames a)[i := Some (frame_of k)]\<rparr>), m1, st1)"
      "frames_inv bf m1" "free_frames bf m1 = free_frames bf m - {k}" "keeps (- {k}) m m1"
      "lz_backend a = None \<longrightarrow> (\<forall>x < 2 ^ 40. x div 4096 = k \<longrightarrow> mem m1 (lin x) = 0)"
proof (cases pma)
  case (PmFixed a)
  then show ?thesis using i(4) by simp
next
  case (PmLazy a)
  have b: "i * 4096 < 18446744073709551616" "i < 18446744073709551616" using i(1,2) by linarith+
  have len: "i < length (lz_frames a)" using i(1,3) PmLazy by simp
  have none: "lz_frames a ! i = None" using i(4) PmLazy pma_at_lazy [OF b(1), of a] by simp
  show ?thesis
  proof (cases "least_ge (free_frames bf m) 0")
    case None
    then have e: "free_frames bf m = {}" using least_ge_NoneD [OF None] by auto
    then have "frame_new bf kernel_config m = Some (None, m)" by (rule frame_new_none [OF m])
    then show ?thesis using full e PmLazy len none b by (simp add: lazy_get_frame_def at_def)
  next
    case (Some k)
    have k: "k < 16777216" using free_frames_less [OF m least_ge_SomeD(1) [OF Some]] .
    obtain m0 where m0: "frame_new bf kernel_config m = Some (Some (frame_of k), m0)" "frames_inv bf m0"
      "free_frames bf m0 = free_frames bf m - {k}" "mem m0 = mem m" by (rule frame_new_some [OF m Some])
    obtain m1 st1 where m1: "fill_new_frame fo a (of_nat i) (frame_of k) (m0, st) = Some (m1, st1)" "keeps (- {k}) m0 m1"
      "frame_allocator m1 = frame_allocator m0" "lz_backend a = None \<longrightarrow> (\<forall>x < 2 ^ 40. x div 4096 = k \<longrightarrow> mem m1 (lin x) = 0)"
      by (rule fill_new_frame_ok [OF fo k])
    have "pma_get_frame bf fo pma (of_nat i) True (m, st) =
        Some (Ok (Some (page_addr k)), PmLazy (a\<lparr>lz_frames := (lz_frames a)[i := Some (frame_of k)]\<rparr>), m1, st1)"
      using PmLazy len none b m0(1) m1(1) by (simp add: lazy_get_frame_def at_def)
    then show ?thesis
      by (rule fresh [OF PmLazy none Some]) (use m0 m1 keeps_trans [OF keeps_mem_eq [OF m0(4)] m1(2)] in simp_all)
  qed
qed

text \<open>The area after page \<open>i\<close> got frame \<open>f\<close>.\<close>

lemma give_area:
  fixes f :: frame
  assumes c: "vma_covers vma s e" and pma: "vma_pma vma = PmLazy a"
    and i: "i < n" "unat (e - s) = n * 4096" "unat s + n * 4096 < 18446744073709551616"
  defines "vma' \<equiv> vma\<lparr>vma_pma := PmLazy (a\<lparr>lz_frames := (lz_frames a)[i := Some f]\<rparr>)\<rparr>"
  shows "vma_covers vma' s e"
    "\<And>q. s \<le> q \<Longrightarrow> q < e \<Longrightarrow> vma_attr vma' q = (if align_down q = nth_page s i then give_frame f (vma_attr vma q) else vma_attr vma q)"
proof -
  show "vma_covers vma' s e" using c pma by (simp add: vma_covers_def vma'_def)
  have len: "length (lz_frames a) = n" using c pma i(2) by (simp add: vma_covers_def)
  have al: "page_aligned s" using c by (simp add: vma_covers_def)
  fix q assume q: "s \<le> q" "q < e"
  let ?j = "unat (q - s) div 4096"
  have "unat s \<le> unat q" "unat q < unat e" "unat (q - s) = unat q - unat s" "unat (e - s) = unat e - unat s"
    using q by (simp_all add: unat_sub_le word_less_unat word_le_unat)
  then have "unat (q - s) < n * 4096" using i(2) by linarith
  then have j: "?j < n" by (rule less_mult_imp_div_less)
  have "?j * 4096 < n * 4096" "i * 4096 < n * 4096" using j i(1) by simp_all
  then have "unat s + ?j * 4096 < 18446744073709551616" "unat s + i * 4096 < 18446744073709551616" using i(3) by linarith+
  then have "align_down q = nth_page s i \<longleftrightarrow> ?j = i" using fault_page(3) [OF al q(1)] nth_page_inj [of s ?j i] by auto
  then show "vma_attr vma' q = (if align_down q = nth_page s i then give_frame f (vma_attr vma q) else vma_attr vma q)"
    using pma len j c by (simp add: vma_attr_def vma'_def vma_covers_def)
qed

text \<open>The facts about the faulting page that every case of the handler uses.\<close>

lemma fault_setting:
  assumes ok: "ms_ok bf A ms m" and v: "ms_map ms v = Some (fl, b)"
  obtains a i n where "a \<in> areas (area_map ms)" "ra_contains a v" "ram_find (area_map ms) v = Some (ra_segment a)"
    "vma_covers (ra_segment a) (ra_start a) (ra_end a)" "vma_start (ra_segment a) = ra_start a" "vma_flags (ra_segment a) = fl"
    "\<forall>q. ra_contains a q \<longrightarrow> ms_map ms q = Some (vma_attr (ra_segment a) q)"
    "i < n" "unat (ra_end a - ra_start a) = n * 4096" "unat (ra_start a) + n * 4096 < 18446744073709551616"
    "n * 4096 < 18446744073709551616" "pma_ok (vma_pma (ra_segment a)) (n * 4096)"
    "align_down (v - ra_start a) div PAGE_SIZE = of_nat i" "ra_start a + align_down (v - ra_start a) = align_down v"
    "nth_page (ra_start a) i = align_down v"
    "ms_map ms (align_down v) = Some (fl, pma_at (vma_pma (ra_segment a)) (of_nat (i * 4096)))"
proof -
  obtain a n where a: "a \<in> areas (area_map ms)" "ra_contains a v" "ram_find (area_map ms) v = Some (ra_segment a)"
    "vma_covers (ra_segment a) (ra_start a) (ra_end a)" "(fl, b) = vma_attr (ra_segment a) v"
    "\<forall>q. ra_contains a q \<longrightarrow> ms_map ms q = Some (vma_attr (ra_segment a) q)"
    and n: "unat (ra_end a - ra_start a) = n * 4096" "unat (v - ra_start a) div 4096 < n"
    "unat (ra_start a) + n * 4096 < 18446744073709551616"
    by (rule ms_area_at [OF ok v])
  let ?s = "ra_start a" and ?i = "unat (v - ra_start a) div 4096"
  have c: "vma_start (ra_segment a) = ?s" "page_aligned ?s" "page_aligned (ra_end a)" "?s < ra_end a"
    "pma_ok (vma_pma (ra_segment a)) (n * 4096)" using a(4) n(1) by (simp_all add: vma_covers_def)
  have sv: "?s \<le> v" using a(2) by (simp add: ra_contains_def)
  note fp = fault_page [OF c(2) sv]
  have "nth_page ?s ?i \<in> nth_page ?s ` {0..<unat (ra_end a - ?s) div 4096}" using n(1,2) by (intro imageI) simp
  then have "align_down v \<in> nth_page ?s ` {0..<unat (ra_end a - ?s) div 4096}" unfolding fp(3) .
  then have "ra_contains a (align_down v)"
    using aligned_range_pages [OF c(2,3,4) align_down_aligned] by (simp add: ra_contains_def)
  then have "ms_map ms (align_down v) = Some (vma_attr (ra_segment a) (align_down v))" using a(6) by blast
  moreover have "align_down v - ?s = of_nat (?i * 4096)" unfolding fp(3) [symmetric] nth_page_def by simp
  moreover have fl: "vma_flags (ra_segment a) = fl" using a(5) by (simp add: vma_attr_def)
  ultimately have M: "ms_map ms (align_down v) = Some (fl, pma_at (vma_pma (ra_segment a)) (of_nat (?i * 4096)))"
    by (simp add: vma_attr_def c(1))
  show ?thesis
    by (rule that [OF a(1-4) c(1) fl a(6) n(2,1,3) _ c(5) fp(4) _ fp(3) M]) (use n(3) fp(2,3) in simp_all)
qed

lemma same_page_in_area:
  assumes "align_down q = nth_page s i" "i < n" "unat (e - s) = n * 4096" "s < e" "unat s + n * 4096 < 18446744073709551616"
  shows "s \<le> q \<and> q < e"
proof -
  have "Suc i * 4096 \<le> n * 4096" using assms(2) by simp
  then have i: "unat s + i * 4096 < 18446744073709551616" "unat s + i * 4096 + 4096 \<le> unat s + n * 4096" using assms(5) by simp_all
  have "unat q div 4096 * 4096 = unat s + i * 4096"
    using arg_cong [OF assms(1), of unat] unat_nth_page [OF i(1)] by (simp add: unat_align_down)
  moreover have "unat e = unat s + n * 4096" using assms(3,4) by (simp add: unat_sub_le word_less_unat)
  moreover have "unat q = unat q div 4096 * 4096 + unat q mod 4096" "unat q mod 4096 < 4096" by simp_all
  ultimately have "unat s \<le> unat q" "unat q < unat e" using i(2) by linarith+
  then show ?thesis by (simp add: word_le_unat word_less_unat)
qed

text \<open>Entering the fresh frame \<open>k\<close>, which \<open>m1\<close> has filled, for page \<open>i\<close> of area \<open>a\<close>.\<close>

definition with_page :: "'f memory_set \<Rightarrow> usize \<Rightarrow> 'f vm_area \<Rightarrow> 'f pm_area_lazy \<Rightarrow> nat \<Rightarrow> frame \<Rightarrow> 'f memory_set" where
  "with_page ms v vma l i f = ms\<lparr>area_map := put_area (area_map ms) v
     (vma\<lparr>vma_pma := PmLazy (l\<lparr>lz_frames := (lz_frames l)[i := Some f]\<rparr>)\<rparr>), ms_pt := ms_pt ms\<rparr>"

lemma page_given:
  assumes ok: "ms_ok bf A ms m" and a: "a \<in> areas (area_map ms)" "ra_contains a v" "vma_covers (ra_segment a) (ra_start a) (ra_end a)"
    and fl: "vma_flags (ra_segment a) = fl" and at: "\<forall>q. ra_contains a q \<longrightarrow> ms_map ms q = Some (vma_attr (ra_segment a) q)"
    and i: "i < n" "unat (ra_end a - ra_start a) = n * 4096" "unat (ra_start a) + n * 4096 < 18446744073709551616"
    and p: "nth_page (ra_start a) i = align_down v" and l: "vma_pma (ra_segment a) = PmLazy l" "lz_frames l ! i = None"
    and M: "ms_map ms (align_down v) = Some (fl, pma_at (vma_pma (ra_segment a)) (of_nat (i * 4096)))"
    and k: "k \<in> free_frames bf m" "frames_inv bf m1" "free_frames bf m1 = free_frames bf m - {k}" "keeps (- {k}) m m1"
  obtains e where "find_pte (ms_pt ms) (align_down v) m1 = Some e" "\<not> is_valid (load_pte m1 e)"
    "let m' = store_pte e (set_all (load_pte m1 e) (page_addr k) (fl OR VALID OR ACCESS OR DIRTY)) m1;
         ms' = with_page ms v (ra_segment a) l i (frame_of k)
     in ms_ok bf A ms' m' \<and> ms_map ms' = on_page (align_down v) (frame_of k) (ms_map ms) \<and> free_frames bf m' = free_frames bf m - {k} \<and>
        (\<forall>p. page_aligned p \<and> p < USER_HALF \<longrightarrow> pt_lookup (ms_pt ms') p m' =
           (if p = align_down v then Some (page_addr k, fl OR VALID OR ACCESS OR DIRTY) else pt_lookup (ms_pt ms) p m)) \<and>
        keeps {k} m1 m' \<and> keeps (A \<union> held (ms_map ms)) m m'"
proof -
  let ?p = "align_down v" and ?M = "on_page (align_down v) (frame_of k) (ms_map ms)"
  note co = ms_okD(3) [OF ok, of "()"] and pa = put_area_ok [OF ms_okD(1) [OF ok] a(1,2)]
  note ga = give_area [OF a(3) l(1) i, where f = "frame_of k"]
  have "i * 4096 < n * 4096" using i(1) by simp
  then have "i * 4096 < 18446744073709551616" using i(3) by linarith
  then have M': "ms_map ms ?p = Some (fl, BackLazy None (map_option (\<lambda>b. backend_split b (of_nat (i * 4096))) (lz_backend l)))"
    using M l pma_at_lazy [of i l] by simp
  obtain e where e: "find_pte (ms_pt ms) ?p m1 = Some e" "\<not> is_valid (load_pte m1 e)"
    "coherent bf A ?M (ms_pt ms, store_pte e (set_all (load_pte m1 e) (page_addr k) (fl OR VALID OR ACCESS OR DIRTY)) m1, ())"
    "keeps (A \<union> held (ms_map ms) \<union> {k}) m1 (store_pte e (set_all (load_pte m1 e) (page_addr k) (fl OR VALID OR ACCESS OR DIRTY)) m1)"
    by (rule coherent_give [OF co align_down_aligned M' k, where st' = "()"])
  define m' where "m' = store_pte e (set_all (load_pte m1 e) (page_addr k) (fl OR VALID OR ACCESS OR DIRTY)) m1"
  define ms' where "ms' = with_page ms v (ra_segment a) l i (frame_of k)"
  have se: "ra_start a < ra_end a" using a(3) by (simp add: vma_covers_def)
  have map': "ms_map ms' = ?M"
  proof
    fix q
    have "ms_map ms' q = (if ra_contains a q
        then Some (if align_down q = ?p then give_frame (frame_of k) (vma_attr (ra_segment a) q) else vma_attr (ra_segment a) q)
        else ms_map ms q)"
      using ga(2) [of q] unfolding p by (auto simp: ms_map_def ms'_def with_page_def pa(4) ra_contains_def)
    moreover have "ra_contains a q" if "align_down q = ?p"
      using same_page_in_area [OF _ i(1,2) se i(3), of q] that p by (simp add: ra_contains_def)
    ultimately show "ms_map ms' q = ?M q" using at by (auto simp: on_page_def)
  qed
  have okm: "ms_ok bf A ms' m'"
    using pa(1,5) ga(1) ms_okD(2) [OF ok] e(3) map' by (simp add: ms_ok_def ms'_def m'_def with_page_def)
  have lk: "pt_lookup (ms_pt ms') q m' = (if q = ?p then Some (page_addr k, fl OR VALID OR ACCESS OR DIRTY) else pt_lookup (ms_pt ms) q m)"
    if "page_aligned q" "q < USER_HALF" for q
    using coherentD(7) [OF ms_okD(3) [OF okm] that] coherentD(7) [OF co that] M' map' that(1)
    by (auto simp: on_page_def align_down_of_aligned)
  have "k \<notin> A \<union> held (ms_map ms)" using coherentD(5) [OF co] k(1) by blast
  then have kp: "keeps (A \<union> held (ms_map ms)) m m'"
    by (intro keeps_trans [OF keeps_mono [OF k(4)] keeps_mono [OF e(4) [folded m'_def]]]) auto
  have "free_frames bf m' = free_frames bf m - {k}" using k(3) by (simp add: m'_def store_pte_def)
  then show ?thesis using that [OF e(1,2)] okm map' lk kp keeps_mono [OF e(4), of "{k}"]
    unfolding ms'_def m'_def Let_def by blast
qed

lemma three_cases: "\<lbrakk>\<not> P \<Longrightarrow> X; P \<Longrightarrow> Q \<Longrightarrow> Y; P \<Longrightarrow> \<not> Q \<Longrightarrow> Z\<rbrakk> \<Longrightarrow> if \<not> P then X else if Q then Y else Z"
  by simp

lemma fault_present:
  assumes ok: "ms_ok bf A ms m" and v: "ms_map ms v = Some (fl, b)"
  shows "\<not> flags_contains fl acc \<Longrightarrow>
      ms_handle_page_fault bf fo ms v acc (m, st) = Some (Err PageFaultHandler_AccessDenied, ms, m, st)"
    "flags_contains fl acc \<Longrightarrow> pt_lookup (ms_pt ms) (align_down v) m \<noteq> None \<Longrightarrow>
      ms_handle_page_fault bf fo ms v acc (m, st) = Some (Err PageFaultHandler_TrapAtValidPage, ms, m, st)"
proof -
  obtain a i n where a: "a \<in> areas (area_map ms)" "ra_contains a v" "ram_find (area_map ms) v = Some (ra_segment a)"
    "vma_covers (ra_segment a) (ra_start a) (ra_end a)" "vma_start (ra_segment a) = ra_start a" "vma_flags (ra_segment a) = fl"
    and at: "\<forall>q. ra_contains a q \<longrightarrow> ms_map ms q = Some (vma_attr (ra_segment a) q)"
    and i: "i < n" "unat (ra_end a - ra_start a) = n * 4096" "unat (ra_start a) + n * 4096 < 18446744073709551616"
      "n * 4096 < 18446744073709551616" "pma_ok (vma_pma (ra_segment a)) (n * 4096)"
    and p: "align_down (v - ra_start a) div PAGE_SIZE = of_nat i" "ra_start a + align_down (v - ra_start a) = align_down v"
      "nth_page (ra_start a) i = align_down v"
    and M: "ms_map ms (align_down v) = Some (fl, pma_at (vma_pma (ra_segment a)) (of_nat (i * 4096)))"
    by (rule fault_setting [OF ok v])
  let ?vma = "ra_segment a" and ?p = "align_down v" and ?b = "pma_at (vma_pma (ra_segment a)) (of_nat (i * 4096))"
  note pa = put_area_ok [OF ms_okD(1) [OF ok] a(1,2)] and co = ms_okD(3) [OF ok, of st]
  have same: "ms\<lparr>area_map := put_area (area_map ms) v ?vma, ms_pt := ms_pt ms\<rparr> = ms" "?vma\<lparr>vma_pma := vma_pma ?vma\<rparr> = ?vma"
    using pa(3) by simp_all
  have "?p < USER_HALF" using coherentD(6) [OF co, of ?p] M by simp
  then have lk: "pt_lookup (ms_pt ms) ?p m = entry_for (Some (fl, ?b))" using coherentD(7) [OF co align_down_aligned] M by simp
  show "ms_handle_page_fault bf fo ms v acc (m, st) = Some (Err PageFaultHandler_AccessDenied, ms, m, st)" if "\<not> flags_contains fl acc"
    using that a(3,6) same(1) by (simp add: ms_handle_page_fault_def vma_handle_page_fault_def)
  show "ms_handle_page_fault bf fo ms v acc (m, st) = Some (Err PageFaultHandler_TrapAtValidPage, ms, m, st)"
    if f: "flags_contains fl acc" and l: "pt_lookup (ms_pt ms) ?p m \<noteq> None"
  proof -
    obtain pa' where b: "backing_page ?b = Some pa'" using l lk by auto
    obtain e where e: "find_pte (ms_pt ms) ?p m = Some e" "is_valid (load_pte m e)"
      using l by (auto simp: pt_lookup_def Let_def split: option.splits if_splits)
    have "pma_get_frame bf fo (vma_pma ?vma) (of_nat i) True (m, st) = Some (Ok (Some pa'), vma_pma ?vma, m, st)"
      by (rule get_frame_present [OF i(1,4,5) b])
    then show ?thesis using a(3,5,6) same f e p
      by (simp add: ms_handle_page_fault_def vma_handle_page_fault_def get_entry_def Let_def)
  qed
qed

lemma fault_absent:
  assumes ok: "ms_ok bf A ms m" and fo: "files_apart fo" and v: "ms_map ms v = Some (fl, b)" and f: "flags_contains fl acc"
    and l: "pt_lookup (ms_pt ms) (align_down v) m = None"
  shows "if free_frames bf m = {}
    then ms_handle_page_fault bf fo ms v acc (m, st) = Some (Err Memory_RunOutOfMemory, ms, m, st)
    else \<exists>ms' m' st' k. ms_handle_page_fault bf fo ms v acc (m, st) = Some (Ok (), ms', m', st') \<and>
      least_ge (free_frames bf m) 0 = Some k \<and> ms_ok bf A ms' m' \<and> free_frames bf m' = free_frames bf m - {k} \<and>
      ms_map ms' = on_page (align_down v) (frame_of k) (ms_map ms) \<and>
      (\<forall>p. page_aligned p \<and> p < USER_HALF \<longrightarrow> pt_lookup (ms_pt ms') p m' =
         (if p = align_down v then Some (page_addr k, fl OR VALID OR ACCESS OR DIRTY) else pt_lookup (ms_pt ms) p m)) \<and>
      (b = BackLazy None None \<longrightarrow> (\<forall>x < 2 ^ 40. x div 4096 = k \<longrightarrow> mem m' (lin x) = 0)) \<and>
      keeps (A \<union> held (ms_map ms)) m m'"
proof -
  obtain a i n where a: "a \<in> areas (area_map ms)" "ra_contains a v" "ram_find (area_map ms) v = Some (ra_segment a)"
    "vma_covers (ra_segment a) (ra_start a) (ra_end a)" "vma_start (ra_segment a) = ra_start a" "vma_flags (ra_segment a) = fl"
    and at: "\<forall>q. ra_contains a q \<longrightarrow> ms_map ms q = Some (vma_attr (ra_segment a) q)"
    and i: "i < n" "unat (ra_end a - ra_start a) = n * 4096" "unat (ra_start a) + n * 4096 < 18446744073709551616"
      "n * 4096 < 18446744073709551616" "pma_ok (vma_pma (ra_segment a)) (n * 4096)"
    and p: "align_down (v - ra_start a) div PAGE_SIZE = of_nat i" "ra_start a + align_down (v - ra_start a) = align_down v"
      "nth_page (ra_start a) i = align_down v"
    and M: "ms_map ms (align_down v) = Some (fl, pma_at (vma_pma (ra_segment a)) (of_nat (i * 4096)))"
    by (rule fault_setting [OF ok v])
  let ?vma = "ra_segment a" and ?p = "align_down v" and ?b = "pma_at (vma_pma (ra_segment a)) (of_nat (i * 4096))"
  note pa = put_area_ok [OF ms_okD(1) [OF ok] a(1,2)] and co = ms_okD(3) [OF ok, of st]
  have same: "ms\<lparr>area_map := put_area (area_map ms) v ?vma, ms_pt := ms_pt ms\<rparr> = ms" "?vma\<lparr>vma_pma := vma_pma ?vma\<rparr> = ?vma"
    using pa(3) by simp_all
  have "?p < USER_HALF" using coherentD(6) [OF co, of ?p] M by simp
  then have lk: "pt_lookup (ms_pt ms) ?p m = entry_for (Some (fl, ?b))" using coherentD(7) [OF co align_down_aligned] M by simp
  have none: "backing_page ?b = None" using l lk by simp
  show ?thesis
  proof (cases rule: get_frame_missing [OF i(1,4,5) none fo coherentD(4) [OF co], where st = st])
    case full: 1
    then show ?thesis using a(3,5,6) same f p by (simp add: ms_handle_page_fault_def vma_handle_page_fault_def Let_def)
  next
    case fresh: (2 l' k m1 st1)
    have kf: "k \<in> free_frames bf m" by (rule least_ge_SomeD(1) [OF fresh(3)])
    then have ne: "free_frames bf m \<noteq> {}" by blast
    obtain e where e: "find_pte (ms_pt ms) ?p m1 = Some e" "\<not> is_valid (load_pte m1 e)"
      "let m' = store_pte e (set_all (load_pte m1 e) (page_addr k) (fl OR VALID OR ACCESS OR DIRTY)) m1;
           ms' = with_page ms v (ra_segment a) l' i (frame_of k)
       in ms_ok bf A ms' m' \<and> ms_map ms' = on_page ?p (frame_of k) (ms_map ms) \<and> free_frames bf m' = free_frames bf m - {k} \<and>
          (\<forall>p. page_aligned p \<and> p < USER_HALF \<longrightarrow> pt_lookup (ms_pt ms') p m' =
             (if p = ?p then Some (page_addr k, fl OR VALID OR ACCESS OR DIRTY) else pt_lookup (ms_pt ms) p m)) \<and>
          keeps {k} m1 m' \<and> keeps (A \<union> held (ms_map ms)) m m'"
      by (rule page_given [OF ok a(1,2,4,6) at i(1-3) p(3) fresh(1,2) M kf fresh(5-7)])
    define m' where "m' = store_pte e (set_all (load_pte m1 e) (page_addr k) (fl OR VALID OR ACCESS OR DIRTY)) m1"
    define ms' where "ms' = with_page ms v (ra_segment a) l' i (frame_of k)"
    have run: "ms_handle_page_fault bf fo ms v acc (m, st) = Some (Ok (), ms', m', st1)"
      using a(3,5,6) f fresh(4) e(1,2) p
      by (simp add: ms_handle_page_fault_def vma_handle_page_fault_def get_entry_def Let_def ms'_def m'_def with_page_def)
    note r = e(3) [unfolded Let_def, folded m'_def ms'_def]
    have zero: "\<forall>x < 2 ^ 40. x div 4096 = k \<longrightarrow> mem m' (lin x) = 0" if "b = BackLazy None None"
    proof -
      have "lz_backend l' = None" using that v at a(2) fresh(1) by (auto simp: vma_attr_def)
      then show ?thesis using fresh(8) r unfolding keeps_def by auto
    qed
    show ?thesis unfolding if_not_P [OF ne]
      by (intro exI [of _ ms'] exI [of _ m'] exI [of _ st1] exI [of _ k] conjI)
        (use run fresh(3) r zero in \<open>(assumption | blast)+\<close>)
  qed
qed

text \<open>C2: The page fault handler of an address space. At an unmapped address it answers \<^verbatim>\<open>Unhandled\<close>. At a mapped one: without the
  permission it answers \<^verbatim>\<open>AccessDenied\<close>; if the page is already mapped it answers \<^verbatim>\<open>TrapAtValidPage\<close>; when no page frame is free it
  answers \<^verbatim>\<open>RunOutOfMemory\<close>; and in these cases nothing changes. Otherwise it takes the lowest free frame, enters it for exactly
  that page in the area and in the page table with the area's permissions, fills it with zeros if no file backs it,
  and changes neither any other translation nor the contents of any frame in use.\<close>

theorem page_fault_exact:
  assumes ok: "ms_ok bf A ms m" and fo: "files_apart fo"
  shows "case ms_map ms v of
      None \<Rightarrow> ms_handle_page_fault bf fo ms v acc (m, st) = Some (Err PageFaultHandler_Unhandled, ms, m, st)
    | Some (fl, b) \<Rightarrow>
        if \<not> flags_contains fl acc
        then ms_handle_page_fault bf fo ms v acc (m, st) = Some (Err PageFaultHandler_AccessDenied, ms, m, st)
        else if pt_lookup (ms_pt ms) (align_down v) m \<noteq> None
        then ms_handle_page_fault bf fo ms v acc (m, st) = Some (Err PageFaultHandler_TrapAtValidPage, ms, m, st)
        else if free_frames bf m = {}
        then ms_handle_page_fault bf fo ms v acc (m, st) = Some (Err Memory_RunOutOfMemory, ms, m, st)
        else \<exists>ms' m' st' k. ms_handle_page_fault bf fo ms v acc (m, st) = Some (Ok (), ms', m', st') \<and>
          least_ge (free_frames bf m) 0 = Some k \<and> ms_ok bf A ms' m' \<and> free_frames bf m' = free_frames bf m - {k} \<and>
          ms_map ms' = on_page (align_down v) (frame_of k) (ms_map ms) \<and>
          (\<forall>p. page_aligned p \<and> p < USER_HALF \<longrightarrow> pt_lookup (ms_pt ms') p m' =
             (if p = align_down v then Some (page_addr k, fl OR VALID OR ACCESS OR DIRTY) else pt_lookup (ms_pt ms) p m)) \<and>
          (b = BackLazy None None \<longrightarrow> (\<forall>x < 2 ^ 40. x div 4096 = k \<longrightarrow> mem m' (lin x) = 0)) \<and>
          keeps (A \<union> held (ms_map ms)) m m'"
proof (cases "ms_map ms v")
  case None
  then have "ram_find (area_map ms) v = None"
    using ram_find_abs [OF ms_okD(1) [OF ok], of vma_attr v] by (simp add: ms_map_def)
  then show ?thesis using None by (simp add: ms_handle_page_fault_def)
next
  case (Some x)
  obtain fl b where x: "x = (fl, b)" by (cases x)
  have v: "ms_map ms v = Some (fl, b)" using Some x by simp
  show ?thesis unfolding v option.case prod.case
    by (rule three_cases [OF fault_present [OF ok v] fault_absent [OF ok fo v]]) (assumption | blast)+
qed

subsection \<open>Witnesses\<close>

text \<open>A new address space is coherent and empty.\<close>

lemma new_user_ok:
  assumes "frames_inv bf m" "least_ge (free_frames bf m) 0 = Some q" "A \<inter> free_frames bf m = {}"
  obtains ms :: "'f memory_set" and m' where "new_user bf args m = Some (ms, m')" "ms_ok bf A ms m'" "ms_map ms = Map.empty"
    "free_frames bf m' = free_frames bf m - {q}"
proof -
  obtain pt m' where p: "page_table_new bf m = Some (Ok pt, m')" "pt_wf bf m' A pt" "\<forall>v. pt_lookup pt v m' = None"
    "free_frames bf m' = free_frames bf m - {q}"
    by (rule page_table_new_ok [OF assms]) auto
  let ?ms = "\<lparr>area_map = ram_new args, ms_pt = pt, ms_is_user = True\<rparr> :: 'f memory_set"
  have M: "ms_map ?ms = Map.empty" by (simp add: ms_map_def ram_abs_def ram_find_def ram_new_def fun_eq_iff)
  moreover have h: "held (Map.empty :: 'f addr_map) = {}" by (simp add: held_def)
  moreover have "frames_once (Map.empty :: 'f addr_map)" by (simp add: frames_once_def)
  ultimately have "coherent bf A (ms_map ?ms) (pt, m', ())" using p(2,3) by (simp add: coherent_def)
  then have "ms_ok bf A ?ms m'"
    using ram_wf_new by (simp add: ms_ok_def ram_covers_def areas_def ram_new_def ram_wf_def)
  then show ?thesis using that [of ?ms m'] p(1,4) M by (simp add: new_user_def)
qed

text \<open>A file that is always empty.\<close>

definition empty_file :: "(unit, unit area_world) file_ops" where
  "empty_file = \<lparr>f_read = (\<lambda>f buf w. Some (Some 0, buf, w)), f_write = (\<lambda>f buf w. Some (Some 0, w)),
     f_seek = (\<lambda>f s w. Some (Some 0, w)), f_read_from_offset = (\<lambda>f off buf w. Some (Some 0, buf, w)),
     f_write_to_offset = (\<lambda>f off buf w. Some (Some 0, w))\<rparr>"

lemma empty_file_apart: "files_apart empty_file"
  by (simp add: files_apart_def empty_file_def)

lemma demo_limits:
  "page_aligned 0x1000" "page_aligned 0x2000" "page_aligned 0x3000" "LOWER_LIMIT \<le> 0x1000" "0x3000 < USER_VIRT_ADDR_LIMIT"
  by (simp_all add: page_aligned_iff LOWER_LIMIT_def USER_VIRT_ADDR_LIMIT_def)

definition demo_empty :: "unit memory_set \<times> machine" where
  "demo_empty = the (new_user ref_bit_field 0 (machine_with 5 20))"

lemma demo_empty_ok:
  "ms_ok ref_bit_field {} (fst demo_empty) (snd demo_empty)" "ms_map (fst demo_empty) = Map.empty"
  "free_frames ref_bit_field (snd demo_empty) = {6..<20}"
proof -
  have m: "frames_inv ref_bit_field (machine_with 5 20)" "free_frames ref_bit_field (machine_with 5 20) = {5..<20}"
    by (rule machine_with_frames; simp)+
  have least: "least_ge (free_frames ref_bit_field (machine_with 5 20)) 0 = Some 5"
    unfolding m(2) by (rule least_ge_SomeI) auto
  obtain ms :: "unit memory_set" and m' where r: "new_user ref_bit_field 0 (machine_with 5 20) = Some (ms, m')"
    "ms_ok ref_bit_field {} ms m'" "ms_map ms = Map.empty" "free_frames ref_bit_field m' = {5..<20} - {5}"
    by (rule new_user_ok [OF m(1) least, where A = "{}" and args = 0]) (simp_all only: m(2) Int_empty_left)
  have d: "demo_empty = (ms, m')" unfolding demo_empty_def r(1) by (rule option.sel)
  have "{5..<20} - {5} = {6..<20 :: nat}" by auto
  with r(2-4) show "ms_ok ref_bit_field {} (fst demo_empty) (snd demo_empty)" "ms_map (fst demo_empty) = Map.empty"
    "free_frames ref_bit_field (snd demo_empty) = {6..<20}" unfolding d fst_conv snd_conv by simp_all
qed

text \<open>Two pages at \<open>0x1000\<close>, readable and writable.\<close>

lemma demo_space:
  obtains ms :: "unit memory_set" and m :: machine where "ms_ok ref_bit_field {} ms m"
    "\<forall>p. 0x1000 \<le> p \<and> p < 0x3000 \<longrightarrow> ms_map ms p = Some (READ OR WRITE, BackLazy None None)"
proof -
  have card: "2 * (unat ((0x3000 :: usize) - 0x1000) div 4096) < card (free_frames ref_bit_field (snd demo_empty))"
    by (simp add: demo_empty_ok(3))
  obtain ms m where r: "ms_ok ref_bit_field {} ms m"
    "ms_map ms = add_range (ms_map (fst demo_empty)) 0x1000 0x3000 (vma_attr (fresh_area 0x1000 0x3000 (READ OR WRITE) None))"
    by (rule push_fixed_runs [OF demo_empty_ok(1) empty_file_apart demo_limits(1,3) _ demo_limits(4,5) card]) auto
  have "ms_map ms p = Some (READ OR WRITE, BackLazy None None)" if "0x1000 \<le> p" "p < 0x3000" for p
  proof -
    have "unat (p - 0x1000) < 8192" using that by (simp add: unat_sub_le word_le_unat word_less_unat)
    then have "unat (p - 0x1000) div 4096 < 2" by (simp add: less_mult_imp_div_less)
    then have "replicate 2 None ! (unat (p - 0x1000) div 4096) = (None :: frame option)" by (rule nth_replicate)
    then show ?thesis using that by (simp add: r(2) add_range_def map_add_def vma_attr_def fresh_area_def)
  qed
  then show ?thesis using that r(1) by blast
qed

theorem munmap_exact_witness:
  "\<exists>(ms :: unit memory_set) m ms' m' st. ms_map ms 0x1000 \<noteq> None \<and>
     munmap ref_bit_field empty_file ms 0x1000 0x2000 (m, ()) = Some (True, ms', m', st) \<and>
     ms_map ms' 0x1000 = None \<and> ms_map ms' 0x2000 = ms_map ms 0x2000"
proof -
  obtain ms :: "unit memory_set" and m where d: "ms_ok ref_bit_field {} ms m"
    "\<forall>p. 0x1000 \<le> p \<and> p < 0x3000 \<longrightarrow> ms_map ms p = Some (READ OR WRITE, BackLazy None None)" by (rule demo_space)
  show ?thesis
    using munmap_exact [OF d(1) empty_file_apart demo_limits(1,2), of "()"] d(2) by (force simp: restrict_map_def)
qed

theorem mprotect_exact_witness:
  "\<exists>(ms :: unit memory_set) m ms' m' st.
     mprotect ref_bit_field empty_file ms 0x1000 0x2000 READ (m, ()) = Some (True, ms', m', st) \<and>
     ms_map ms' 0x1000 = Some (READ, BackLazy None None) \<and> ms_map ms' 0x2000 = Some (READ OR WRITE, BackLazy None None)"
proof -
  obtain ms :: "unit memory_set" and m where d: "ms_ok ref_bit_field {} ms m"
    "\<forall>p. 0x1000 \<le> p \<and> p < 0x3000 \<longrightarrow> ms_map ms p = Some (READ OR WRITE, BackLazy None None)" by (rule demo_space)
  show ?thesis
    using mprotect_exact [OF d(1) empty_file_apart demo_limits(1,2), of READ "()"] d(2) by force
qed

theorem mmap_fixed_exact_witness:
  "\<exists>ms' m' st. push_with_backend ref_bit_field empty_file (fst demo_empty) 0x1000 0x3000 READ None False (snd demo_empty, ()) =
     Some (Ok 0x1000, ms', m', st) \<and> ms_map ms' 0x2000 = Some (READ, BackLazy None None) \<and> ms_map ms' 0x3000 = None"
proof -
  have "2 * (unat ((0x3000 :: usize) - 0x1000) div 4096) < card (free_frames ref_bit_field (snd demo_empty))"
    by (simp add: demo_empty_ok(3))
  from mmap_fixed_exact [OF demo_empty_ok(1) empty_file_apart demo_limits(1,3) _ this, of READ None "()"]
  obtain ms' m' st where "push_with_backend ref_bit_field empty_file (fst demo_empty) 0x1000 0x3000 READ None False (snd demo_empty, ()) =
      Some (Ok 0x1000, ms', m', st)"
    "ms_map ms' = Map.empty ++ (\<lambda>p. if p \<in> {0x1000..<0x3000} then Some (READ, BackLazy None None) else None)"
    unfolding if_not_P [OF leD [OF demo_limits(4)]] if_not_P [OF demo_limits(5) [unfolded not_le [symmetric]]] demo_empty_ok(2) option.map(1) by auto
  then show ?thesis by (auto simp: map_add_def)
qed

theorem page_fault_exact_witness:
  "\<exists>(ms :: unit memory_set) m. ms_handle_page_fault ref_bit_field empty_file ms 0x1234 EXECUTE (m, ()) =
     Some (Err PageFaultHandler_AccessDenied, ms, m, ()) \<and> ms_map ms 0x1234 \<noteq> None"
proof -
  obtain ms :: "unit memory_set" and m where d: "ms_ok ref_bit_field {} ms m"
    "\<forall>p. 0x1000 \<le> p \<and> p < 0x3000 \<longrightarrow> ms_map ms p = Some (READ OR WRITE, BackLazy None None)" by (rule demo_space)
  have "\<not> flags_contains (READ OR WRITE) EXECUTE" by (simp add: flags_contains_def READ_def WRITE_def EXECUTE_def)
  then show ?thesis
    using page_fault_exact [OF d(1) empty_file_apart, of "0x1234" EXECUTE "()"] d(2) by force
qed

end
