(* ===== verification/Scheduler.thy ===== *)
theory Scheduler
  imports Timer "HOL-Library.Multiset"
begin

text \<open>
  The ready queue, \<^verbatim>\<open>kernel/src/task/scheduler.rs\<close>, the waiting board and the futex waiters, \<^verbatim>\<open>kernel/src/syscall/futex\<close>, the
  counter of suspicious system calls, \<^verbatim>\<open>kernel/src/syscall/loops.rs\<close>, and the part of \<^verbatim>\<open>run_tasks\<close> that picks the next task.

  Tasks are references (\<^verbatim>\<open>Arc<TaskControlBlock>\<close>) of a type \<open>'t\<close>. The kernel runs as a batch system (\<^verbatim>\<open>IS_TEST_ENV\<close> is true): when
  the queue is empty \<^verbatim>\<open>load_next_testcase\<close> supplies the next program; that function is an argument \<open>load\<close> on the rest of the
  kernel's state, \<open>None\<close> where it panics. The \<open>i\<close>-th reading of the time register is \<open>clock i\<close>. \<open>None\<close> is a call that does not return.
\<close>

subsection \<open>Waiters and the waiting board\<close>

record futex_waiter =
  timed_out_us :: usize
  woken :: bool

definition futex_waiter_new :: "usize option \<Rightarrow> futex_waiter" where
  "futex_waiter_new timed_out = \<lparr>timed_out_us = (case timed_out of Some t \<Rightarrow> t | None \<Rightarrow> - 1), woken = False\<rparr>"

definition wake :: "futex_waiter \<Rightarrow> futex_waiter" where
  "wake self = self\<lparr>woken := True\<rparr>"

definition is_woken :: "usize \<Rightarrow> futex_waiter \<Rightarrow> bool" where
  "is_woken t self \<longleftrightarrow> (if woken self then True else get_time_us t \<ge> timed_out_us self)"

type_synonym waiting_board = "futex_waiter option list"

definition set_waiter_for_thread :: "waiting_board \<Rightarrow> nat \<Rightarrow> futex_waiter \<Rightarrow> waiting_board" where
  "set_waiter_for_thread board tid waiter =
     (let board = (if tid \<ge> length board then board @ replicate (Suc tid - length board) None else board)
      in board[tid := Some waiter])"

definition check_thread_blocked :: "usize \<Rightarrow> waiting_board \<Rightarrow> nat \<Rightarrow> bool \<times> waiting_board" where
  "check_thread_blocked t board tid =
     (if tid \<ge> length board then (False, board)
      else case board ! tid of
          None \<Rightarrow> (False, board[tid := None])
        | Some waiter \<Rightarrow> if is_woken t waiter then (False, board[tid := None]) else (True, board[tid := Some waiter]))"

definition wake_thread :: "waiting_board \<Rightarrow> nat \<Rightarrow> bool \<times> waiting_board" where
  "wake_thread board tid =
     (if tid \<ge> length board then (False, board)
      else case board ! tid of None \<Rightarrow> (False, board) | Some w \<Rightarrow> (True, board[tid := Some (wake w)]))"

subsection \<open>Futex options\<close>

datatype futex_op = FutexWAIT | FutexWAKE | FutexREQUEUE | FutexUNSUPPORTED

type_synonym futex_flag = "32 word"

definition is_private :: "futex_flag \<Rightarrow> bool" where
  "is_private self \<longleftrightarrow> sint (self AND 0x80) > 0"

definition operation :: "futex_flag \<Rightarrow> futex_op" where
  "operation self =
     (let op = self AND 0x7f
      in if op = 0 then FutexWAIT else if op = 1 then FutexWAKE else if op = 3 then FutexREQUEUE else FutexUNSUPPORTED)"

subsection \<open>Scheduler\<close>

record 't scheduler =
  ready_queue :: "'t list"

definition sched_new :: "'t scheduler" where
  "sched_new = \<lparr>ready_queue = []\<rparr>"

definition sched_push :: "'t scheduler \<Rightarrow> 't \<Rightarrow> 't scheduler" where
  "sched_push self task = self\<lparr>ready_queue := ready_queue self @ [task]\<rparr>"

definition sched_pop :: "'t scheduler \<Rightarrow> 't option \<times> 't scheduler" where
  "sched_pop self = (case ready_queue self of [] \<Rightarrow> (None, self) | t # ts \<Rightarrow> (Some t, self\<lparr>ready_queue := ts\<rparr>))"

definition sched_size :: "'t scheduler \<Rightarrow> nat" where
  "sched_size self = length (ready_queue self)"

definition fetch_task_from_scheduler ::
  "('w \<Rightarrow> ('t option \<times> 'w) option) \<Rightarrow> 't scheduler \<Rightarrow> 'w \<Rightarrow> ('t \<times> 't scheduler \<times> 'w) option" where
  "fetch_task_from_scheduler load q w =
     (case sched_pop q of
        (Some task, q) \<Rightarrow> Some (task, q, w)
      | (None, q) \<Rightarrow> do { (r, w) \<leftarrow> load w; map_option (\<lambda>task. (task, q, w)) r })"

text \<open>The head of the loop of \<^verbatim>\<open>run_tasks\<close>: fetch a task; if it is waiting, put it back and go on.\<close>

partial_function (option) pick_task ::
  "('w \<Rightarrow> ('t option \<times> 'w) option) \<Rightarrow> ('w \<Rightarrow> 't \<Rightarrow> nat) \<Rightarrow> (nat \<Rightarrow> usize) \<Rightarrow> nat \<Rightarrow> waiting_board \<Rightarrow> 't scheduler \<Rightarrow> 'w \<Rightarrow>
     ('t \<times> nat \<times> waiting_board \<times> 't scheduler \<times> 'w) option" where
  "pick_task load tid_of clock i board q w = do {
     (task, q, w) \<leftarrow> fetch_task_from_scheduler load q w;
     (case check_thread_blocked (clock i) board (tid_of w task) of (blocked, board) \<Rightarrow>
        if blocked then pick_task load tid_of clock (Suc i) board (sched_push q task) w
        else Some (task, Suc i, board, q, w))
   }"

subsection \<open>LoopCounter\<close>

record loop_counter =
  lc_cnt :: usize
  lc_limit :: usize

definition LOOP_LIMIT :: usize where "LOOP_LIMIT = 100"

definition loop_counter_init :: loop_counter where
  "loop_counter_init = \<lparr>lc_cnt = 0, lc_limit = LOOP_LIMIT\<rparr>"

definition loop_count :: "loop_counter \<Rightarrow> bool \<times> loop_counter" where
  "loop_count self = (let self = self\<lparr>lc_cnt := lc_cnt self + 1\<rparr> in (lc_cnt self \<ge> lc_limit self, self))"

definition loop_clear :: "loop_counter \<Rightarrow> loop_counter" where
  "loop_clear self = self\<lparr>lc_cnt := 0\<rparr>"

subsection \<open>The waiting board as a partial map\<close>

definition waiter_of :: "waiting_board \<Rightarrow> nat \<Rightarrow> futex_waiter option" where
  "waiter_of board tid = (if tid < length board then board ! tid else None)"

definition blocked :: "usize \<Rightarrow> waiting_board \<Rightarrow> nat \<Rightarrow> bool" where
  "blocked t board tid \<longleftrightarrow> (\<exists>w. waiter_of board tid = Some w \<and> \<not> is_woken t w)"

lemma set_waiter_of: "waiter_of (set_waiter_for_thread board tid w) = (waiter_of board)(tid \<mapsto> w)"
  by (auto simp: waiter_of_def set_waiter_for_thread_def Let_def fun_eq_iff nth_append nth_list_update)

lemma check_of:
  "fst (check_thread_blocked t board tid) \<longleftrightarrow> blocked t board tid"
  "waiter_of (snd (check_thread_blocked t board tid)) =
     (if blocked t board tid then waiter_of board else (waiter_of board)(tid := None))"
  by (auto simp: check_thread_blocked_def blocked_def waiter_of_def fun_eq_iff nth_list_update split: option.splits)

lemma wake_of:
  "fst (wake_thread board tid) \<longleftrightarrow> waiter_of board tid \<noteq> None"
  "waiter_of (snd (wake_thread board tid)) = (waiter_of board)(tid := map_option wake (waiter_of board tid))"
  by (auto simp: wake_thread_def waiter_of_def fun_eq_iff nth_list_update split: option.splits)

lemma check_blocked:
  "check_thread_blocked t board tid = (if blocked t board tid then (True, board) else (False, snd (check_thread_blocked t board tid)))"
  by (auto simp: check_thread_blocked_def blocked_def waiter_of_def list_update_same_conv split: option.splits)

text \<open>The waiting board. A thread is held back exactly while it has a waiter that was neither woken nor timed out; asking
  removes the waiter of a thread that may run, so it is asked only once; \<^verbatim>\<open>wake_thread\<close> reports whether there was a waiter
  and lets the thread pass from then on; no operation touches another thread.\<close>

lemma waiting_board_protocol:
  "waiter_of (set_waiter_for_thread board tid w) = (waiter_of board)(tid \<mapsto> w) \<and>
   fst (check_thread_blocked t board tid) =
     (case waiter_of board tid of None \<Rightarrow> False | Some w \<Rightarrow> \<not> woken w \<and> get_time_us t < timed_out_us w) \<and>
   waiter_of (snd (check_thread_blocked t board tid)) =
     (if fst (check_thread_blocked t board tid) then waiter_of board else (waiter_of board)(tid := None)) \<and>
   fst (wake_thread board tid) = (waiter_of board tid \<noteq> None) \<and>
   waiter_of (snd (wake_thread board tid)) = (waiter_of board)(tid := map_option wake (waiter_of board tid)) \<and>
   fst (check_thread_blocked t (snd (wake_thread board tid)) tid) = False"
  by (auto simp: set_waiter_of check_of wake_of blocked_def is_woken_def wake_def split: option.splits)

subsection \<open>Picking a task\<close>

lemma pick_task_step:
  assumes "ready_queue q = task # ts"
  shows "pick_task load tid_of clock i board q w =
    (if blocked (clock i) board (tid_of w task)
     then pick_task load tid_of clock (Suc i) board (q\<lparr>ready_queue := ts @ [task]\<rparr>) w
     else Some (task, Suc i, snd (check_thread_blocked (clock i) board (tid_of w task)), q\<lparr>ready_queue := ts\<rparr>, w))"
  unfolding pick_task.simps [of load tid_of clock i]
  by (subst check_blocked) (simp add: fetch_task_from_scheduler_def sched_pop_def sched_push_def assms)

lemma pick_rotates:
  assumes "j \<le> length (ready_queue q)" "\<forall>l < j. blocked (clock (i + l)) board (tid_of w (ready_queue q ! l))"
  shows "pick_task load tid_of clock i board q w =
    pick_task load tid_of clock (i + j) board (q\<lparr>ready_queue := drop j (ready_queue q) @ take j (ready_queue q)\<rparr>) w"
  using assms
proof (induction j)
  case (Suc j)
  let ?q = "ready_queue q"
  have "drop j ?q @ take j ?q = ?q ! j # (drop (Suc j) ?q @ take j ?q)" using Suc.prems(1) by (simp add: Cons_nth_drop_Suc)
  then have "ready_queue (q\<lparr>ready_queue := drop j ?q @ take j ?q\<rparr>) = ?q ! j # (drop (Suc j) ?q @ take j ?q)" by simp
  from pick_task_step [OF this, of load tid_of clock "i + j" board w] Suc show ?case
    by (simp add: take_Suc_conv_app_nth)
qed simp

lemma pick_first_ready:
  assumes "j < length (ready_queue q)" "\<forall>l < j. blocked (clock (i + l)) board (tid_of w (ready_queue q ! l))"
    "\<not> blocked (clock (i + j)) board (tid_of w (ready_queue q ! j))"
  shows "pick_task load tid_of clock i board q w =
    Some (ready_queue q ! j, Suc (i + j), snd (check_thread_blocked (clock (i + j)) board (tid_of w (ready_queue q ! j))),
      q\<lparr>ready_queue := drop (Suc j) (ready_queue q) @ take j (ready_queue q)\<rparr>, w)"
proof -
  let ?q = "ready_queue q"
  have "drop j ?q @ take j ?q = ?q ! j # (drop (Suc j) ?q @ take j ?q)" using assms(1) by (simp add: Cons_nth_drop_Suc)
  then have "ready_queue (q\<lparr>ready_queue := drop j ?q @ take j ?q\<rparr>) = ?q ! j # (drop (Suc j) ?q @ take j ?q)" by simp
  from pick_task_step [OF this, of load tid_of clock "i + j" board w] pick_rotates [where clock = clock and i = i and tid_of = tid_of and w = w, OF less_imp_le [OF assms(1)] assms(2), of load] assms(3)
  show ?thesis by simp
qed

text \<open>C40: Round robin. If, asking the tasks of the queue in order, the \<open>j\<close>-th is the first that is not waiting, \<^verbatim>\<open>run_tasks\<close> picks it
  after exactly \<open>j + 1\<close> readings of the clock; the tasks behind it come first in the new queue, in their order, and those that
  were asked come after them. So no task is overtaken by one behind it: a task at place \<open>k > j\<close> moves to place \<open>k - j - 1\<close>.\<close>

theorem round_robin_order:
  assumes "j < length (ready_queue q)" "\<forall>l < j. blocked (clock (i + l)) board (tid_of w (ready_queue q ! l))"
    "\<not> blocked (clock (i + j)) board (tid_of w (ready_queue q ! j))"
  shows "\<exists>board' q'. pick_task load tid_of clock i board q w = Some (ready_queue q ! j, Suc (i + j), board', q', w) \<and>
    ready_queue q' = drop (Suc j) (ready_queue q) @ take j (ready_queue q) \<and>
    waiter_of board' = (waiter_of board)(tid_of w (ready_queue q ! j) := None) \<and>
    (\<forall>k. j < k \<and> k < length (ready_queue q) \<longrightarrow> ready_queue q' ! (k - Suc j) = ready_queue q ! k)"
proof -
  have "(drop (Suc j) (ready_queue q) @ take j (ready_queue q)) ! (k - Suc j) = ready_queue q ! k"
    if "j < k" "k < length (ready_queue q)" for k
  proof -
    have "k - Suc j < length (ready_queue q) - Suc j" using that by linarith
    then show ?thesis using that by (simp add: nth_append)
  qed
  then show ?thesis using pick_first_ready [where clock = clock and i = i and tid_of = tid_of and w = w, OF assms, of load] assms(3) by (simp add: check_of)
qed

text \<open>When the loop ends, it has taken one task out of the queue, or loaded one into the empty queue.\<close>

lemma pick_task_result:
  assumes "pick_task load tid_of clock i board q w = Some (a, i', board', q', w')"
  shows "if ready_queue q = [] then load w = Some (Some a, w') \<and> ready_queue q' = []
    else w' = w \<and> mset (ready_queue q) = add_mset a (mset (ready_queue q'))"
proof -
  have "case y of (a, i', board', q', w') \<Rightarrow> if ready_queue q = [] then load w = Some (Some a, w') \<and> ready_queue q' = []
      else w' = w \<and> mset (ready_queue q) = add_mset a (mset (ready_queue q'))"
    if "pick_task load tid_of clock i board q w = Some y" for y
    using that
  proof (induction load tid_of clock i board q w y rule: pick_task.raw_induct [rotated, consumes 1])
    case (1 pick load tid_of clock i board q w y)
    obtain task q1 w1 where f: "fetch_task_from_scheduler load q w = Some (task, q1, w1)" using 1(2) by (auto split: bind_splits)
    then have f': "if ready_queue q = [] then load w = Some (Some task, w1) \<and> ready_queue q1 = [] else w1 = w \<and> ready_queue q = task # ready_queue q1"
      by (auto simp: fetch_task_from_scheduler_def sched_pop_def split: list.splits bind_splits)
    obtain b board1 where c: "check_thread_blocked (clock i) board (tid_of w1 task) = (b, board1)" by fastforce
    show ?case
    proof (cases b)
      case True
      then have "pick load tid_of clock (Suc i) board1 (sched_push q1 task) w1 = Some y" using 1(2) f c by simp
      from 1(1) [OF this] f' show ?thesis by (cases y) (auto simp: sched_push_def split: if_splits)
    qed (use 1(2) f c f' in auto)
  qed
  from this [OF assms] show ?thesis by simp
qed

text \<open>If some queued task stops waiting at some time, the loop ends: when all tasks have been asked once, \<open>length q\<close> later, the
  queue is as it was, so it suffices to look at readings that late.\<close>

lemma pick_returns:
  assumes "k < length (ready_queue q)" "\<forall>i' \<ge> N. \<not> blocked (clock i') board (tid_of w (ready_queue q ! k))"
  shows "\<exists>r. pick_task load tid_of clock i board q w = Some r \<and> fst r \<in> set (ready_queue q)"
  using assms
proof (induction "N - i" arbitrary: i q rule: less_induct)
  case less
  let ?q = "ready_queue q"
  show ?case
  proof (cases "\<exists>j < length ?q. \<not> blocked (clock (i + j)) board (tid_of w (?q ! j))")
    case True
    then obtain j where "j < length ?q \<and> \<not> blocked (clock (i + j)) board (tid_of w (?q ! j))"
      "\<forall>l < j. \<not> (l < length ?q \<and> \<not> blocked (clock (i + l)) board (tid_of w (?q ! l)))"
      unfolding exists_least_iff [of "\<lambda>j. j < length ?q \<and> \<not> blocked (clock (i + j)) board (tid_of w (?q ! j))"] by blast
    then have j: "j < length ?q" "\<not> blocked (clock (i + j)) board (tid_of w (?q ! j))"
      "\<forall>l < j. blocked (clock (i + l)) board (tid_of w (?q ! l))" by auto
    from pick_first_ready [where clock = clock and i = i and tid_of = tid_of and w = w, OF j(1,3,2), of load] j(1) show ?thesis by simp
  next
    case False
    then have all: "\<forall>l < length ?q. blocked (clock (i + l)) board (tid_of w (?q ! l))" by blast
    have "i < N"
    proof (rule ccontr)
      assume "\<not> i < N"
      then have "\<not> blocked (clock (i + k)) board (tid_of w (?q ! k))" using less.prems(2) by simp
      then show False using all less.prems(1) by blast
    qed
    then have "N - (i + length ?q) < N - i" using less.prems(1) by linarith
    from less.hyps [OF this less.prems] obtain r where r: "pick_task load tid_of clock (i + length ?q) board q w = Some r"
      "fst r \<in> set ?q" by blast
    have "pick_task load tid_of clock i board q w = pick_task load tid_of clock (i + length ?q) board q w"
      using pick_rotates [OF order_refl, of q clock i board tid_of w load] all by simp
    then show ?thesis using r by simp
  qed
qed

text \<open>C39: The scheduler does not starve the machine. If from some reading of the clock on some queued task is no longer waiting,
  in particular if it has no waiter, was woken, or its waiter times out, then \<^verbatim>\<open>run_tasks\<close> picks a task.\<close>

theorem scheduler_returns:
  assumes "task \<in> set (ready_queue q)"
    "\<forall>x. waiter_of board (tid_of w task) = Some x \<longrightarrow> woken x \<or> (\<exists>N. \<forall>i' \<ge> N. timed_out_us x \<le> get_time_us (clock i'))"
  shows "\<exists>next i' board' q' w'. pick_task load tid_of clock i board q w = Some (next, i', board', q', w') \<and> next \<in> set (ready_queue q)"
proof -
  obtain k where k: "k < length (ready_queue q)" "ready_queue q ! k = task" using assms(1) by (auto simp: in_set_conv_nth)
  obtain N where N: "\<forall>i' \<ge> N. \<not> blocked (clock i') board (tid_of w task)"
    using assms(2) unfolding blocked_def is_woken_def by (metis (full_types) option.inject)
  obtain r where "pick_task load tid_of clock i board q w = Some r" "fst r \<in> set (ready_queue q)"
    using pick_returns [OF k(1), of N clock board tid_of w load i] N k(2) by blast
  then show ?thesis by (cases r) auto
qed

subsection \<open>Witnesses\<close>

definition demo_queue :: "nat scheduler" where
  "demo_queue = \<lparr>ready_queue = [2, 3, 4]\<rparr>"

definition demo_board :: waiting_board where
  "demo_board = set_waiter_for_thread [] 2 (futex_waiter_new (Some 500))"

lemma demo_board_waits: "waiter_of demo_board = [2 \<mapsto> \<lparr>timed_out_us = 500, woken = False\<rparr>]"
proof -
  have "waiter_of [] = Map.empty" by (simp add: waiter_of_def fun_eq_iff)
  then show ?thesis by (simp add: demo_board_def set_waiter_of futex_waiter_new_def)
qed

theorem round_robin_order_witness:
  "\<exists>board' q'. pick_task (\<lambda>w. None) (\<lambda>w. id) (\<lambda>_. 7) 0 demo_board demo_queue () = Some (3, 2, board', q', ()) \<and>
     ready_queue q' = [4, 2]"
  using round_robin_order [of 1 demo_queue "\<lambda>_. 7" 0 demo_board "\<lambda>w. id" "()" "\<lambda>w. None"]
  by (auto simp: demo_queue_def blocked_def demo_board_waits is_woken_def get_time_us_def time_const_defs)

theorem scheduler_returns_witness:
  "\<exists>next i' board' q' w'. pick_task (\<lambda>w. None) (\<lambda>w. id) of_nat 0 demo_board demo_queue () = Some (next, i', board', q', w') \<and>
     next \<in> {2, 3, 4}"
  using scheduler_returns [of 4 demo_queue demo_board "\<lambda>w. id" "()" of_nat "\<lambda>w. None" 0]
  by (auto simp: demo_queue_def demo_board_waits)

end
