(* ===== verification/Testcases.thy ===== *)
theory Testcases
  imports Prelude
begin

text \<open>
  The batch of programs, \<^verbatim>\<open>kernel/src/file/device/test.rs\<close>: splitting a command line into arguments and the record of passed and failed
  programs. Command lines are constants of the kernel in ASCII, so \<^verbatim>\<open>from_utf8\<close> accepts every part of them. Output to the
  console is left out.
\<close>

subsection \<open>Splitting a command line\<close>

definition quote :: char where "quote = CHR 0x22"
definition space :: char where "space = CHR 0x20"

text \<open>The loop over the positions of \<open>s\<close>; the accumulators are \<^verbatim>\<open>argv\<close>, \<^verbatim>\<open>in_quotation\<close> and \<^verbatim>\<open>start\<close>.\<close>

fun split_argv_loop :: "string \<Rightarrow> nat list \<Rightarrow> string list \<times> bool \<times> nat \<Rightarrow> string list \<times> bool \<times> nat" where
  "split_argv_loop s [] acc = acc"
| "split_argv_loop s (pos # ps) (argv, in_quotation, start) =
     (if s ! pos = quote then split_argv_loop s ps (argv, \<not> in_quotation, start)
      else if s ! pos = space \<and> \<not> in_quotation then
        split_argv_loop s ps (if pos > start then argv @ [take (pos - start) (drop start s)] else argv, in_quotation, pos + 1)
      else split_argv_loop s ps (argv, in_quotation, start))"

definition split_argv :: "string \<Rightarrow> string list" where
  "split_argv s =
     (let (argv, in_quotation, start) = split_argv_loop s [0..<length s] ([], False, 0)
      in if start < length s then argv @ [drop start s] else argv)"

subsection \<open>TestStatus\<close>

record test_status =
  ts_cnt :: nat
  ts_passed :: nat
  ts_now :: "string option"
  ts_failed :: "string list"

definition test_status_new :: "string list \<Rightarrow> test_status" where
  "test_status_new cases = \<lparr>ts_cnt = length cases, ts_passed = 0, ts_now = None, ts_failed = []\<rparr>"

definition test_load :: "string \<Rightarrow> test_status \<Rightarrow> test_status" where
  "test_load testcase self = self\<lparr>ts_now := Some testcase\<rparr>"

definition update_result :: "32 word \<Rightarrow> test_status \<Rightarrow> test_status" where
  "update_result exit_code self =
     (case ts_now self of
        None \<Rightarrow> self
      | Some testcase \<Rightarrow>
          if exit_code = 0 then self\<lparr>ts_passed := ts_passed self + 1, ts_now := None\<rparr>
          else self\<lparr>ts_failed := ts_failed self @ [testcase], ts_now := None\<rparr>)"

subsection \<open>Arguments survive splitting\<close>

text \<open>Reading a word from inside (\<open>q\<close>) or outside a quotation: it has no space outside quotations and closes every quotation.\<close>

fun word_from :: "bool \<Rightarrow> string \<Rightarrow> bool" where
  "word_from q [] \<longleftrightarrow> \<not> q"
| "word_from q (c # cs) \<longleftrightarrow> (if c = quote then word_from (\<not> q) cs else (c = space \<longrightarrow> q) \<and> word_from q cs)"

lemma quote_not_space [simp]: "quote \<noteq> space" "space \<noteq> quote"
  by (simp_all add: quote_def space_def)

lemma upt_split: "i \<le> j \<Longrightarrow> j \<le> k \<Longrightarrow> [i..<k] = [i..<j] @ [j..<k]"
  using upt_add_eq_append [of i j "k - j"] by simp

text \<open>The loop passes over a word, and skips spaces.\<close>

lemma loop_word:
  assumes "word_from q w" "s = pre @ w @ post"
  shows "split_argv_loop s ([length pre..<length pre + length w] @ ps) (argv, q, st) = split_argv_loop s ps (argv, False, st)"
  using assms
proof (induction w arbitrary: q pre)
  case (Cons c cs)
  have "s = (pre @ [c]) @ cs @ post" "s ! length pre = c" using Cons.prems(2) by simp_all
  moreover have "[length pre..<length pre + length (c # cs)] = length pre # [length (pre @ [c])..<length (pre @ [c]) + length cs]"
    by (subst upt_conv_Cons) simp_all
  ultimately show ?case using Cons.IH [of _ "pre @ [c]"] Cons.prems(1) by (auto split: if_splits)
qed simp

lemma loop_spaces:
  assumes "s = pre @ replicate n space @ post"
  shows "split_argv_loop s ([length pre..<length pre + n] @ ps) (argv, False, length pre) = split_argv_loop s ps (argv, False, length pre + n)"
  using assms
proof (induction n arbitrary: pre)
  case (Suc n)
  have "s = (pre @ [space]) @ replicate n space @ post" "s ! length pre = space" using Suc.prems by (simp_all add: replicate_app_Cons_same)
  moreover have "[length pre..<length pre + Suc n] = length pre # [length (pre @ [space])..<length (pre @ [space]) + n]"
    by (subst upt_conv_Cons) simp_all
  ultimately show ?case using Suc.IH [of "pre @ [space]"] by simp
qed simp

lemma loop_word_spaces:
  assumes "word_from False w" "w \<noteq> []" "s = pre @ w @ replicate (Suc n) space @ post"
  shows "split_argv_loop s ([length pre..<length pre + length w + Suc n] @ ps) (argv, False, length pre) =
    split_argv_loop s ps (argv @ [w], False, length pre + length w + Suc n)"
proof -
  let ?p = "length pre + length w"
  have "[length pre..<?p + Suc n] = [length pre..<?p] @ ?p # [Suc ?p..<Suc ?p + n]"
    using upt_add_eq_append [of "length pre" ?p "Suc n"] by (simp add: upt_conv_Cons)
  moreover have "s ! ?p = space" "take (?p - length pre) (drop (length pre) s) = w" using assms(3) by (simp_all add: nth_append)
  moreover have "s = (pre @ w @ [space]) @ replicate n space @ post" using assms(3) by (simp add: replicate_app_Cons_same)
  ultimately show ?thesis
    using loop_word [OF assms(1), of s pre "replicate (Suc n) space @ post"] assms(2,3) loop_spaces [of s "pre @ w @ [space]" n post ps] by simp
qed

lemma loop_words:
  assumes "\<forall>(w, n) \<in> set ws. word_from False w \<and> w \<noteq> []" "s = pre @ concat (map (\<lambda>(w, n). w @ replicate (Suc n) space) ws) @ post"
  shows "split_argv_loop s ([length pre..<length s - length post] @ ps) (argv, False, length pre) =
    split_argv_loop s ps (argv @ map fst ws, False, length s - length post)"
  using assms
proof (induction ws arbitrary: pre argv)
  case (Cons wn ws)
  obtain w n where wn: "wn = (w, n)" by fastforce
  let ?pre = "pre @ w @ replicate (Suc n) space" and ?rest = "concat (map (\<lambda>(w, n). w @ replicate (Suc n) space) ws)"
  have s: "s = ?pre @ ?rest @ post" "s = pre @ w @ replicate (Suc n) space @ ?rest @ post" using Cons.prems(2) by (simp_all add: wn)
  have "[length pre..<length s - length post] = [length pre..<length pre + length w + Suc n] @ [length ?pre..<length s - length post]"
    using upt_split [of "length pre" "length pre + length w + Suc n" "length s - length post"] s(1) by (simp del: upt_Suc add: add.assoc)
  then show ?case
    using loop_word_spaces [OF _ _ s(2), of "[length ?pre..<length s - length post] @ ps" argv] Cons.IH [OF _ s(1), of "argv @ [w]"] Cons.prems(1)
    by (simp add: wn add.assoc)
qed simp

text \<open>A command line is split into its arguments. Write the arguments one after another, each with at least one space behind it, after
  any number of spaces and before a last argument or nothing: \<^verbatim>\<open>split_argv\<close> gives back exactly the arguments, where an
  argument may have spaces inside quotation marks, and keeps its quotation marks.\<close>

lemma split_argv_arguments:
  assumes "\<forall>(w, n) \<in> set ws. word_from False w \<and> w \<noteq> []" "word_from False final"
  shows "split_argv (replicate k space @ concat (map (\<lambda>(w, n). w @ replicate (Suc n) space) ws) @ final) =
    map fst ws @ (if final = [] then [] else [final])"
proof -
  let ?s = "replicate k space @ concat (map (\<lambda>(w, n). w @ replicate (Suc n) space) ws) @ final"
  let ?e = "length ?s - length final"
  have "[0..<length ?s] = [0..<k] @ [k..<?e] @ [?e..<?e + length final]"
    using upt_split [of 0 k "length ?s"] upt_split [of k ?e "length ?s"] by (simp del: upt_Suc add: add.assoc)
  moreover have "split_argv_loop ?s ([0..<k] @ ps) ([], False, 0) = split_argv_loop ?s ps ([], False, k)" for ps
    using loop_spaces [of ?s "[]" k _ ps "[]"] by simp
  moreover have "split_argv_loop ?s ([k..<?e] @ ps) ([], False, k) = split_argv_loop ?s ps (map fst ws, False, ?e)" for ps
    using loop_words [OF assms(1), of ?s "replicate k space" final ps "[]"] by simp
  moreover have "split_argv_loop ?s [?e..<?e + length final] (map fst ws, False, ?e) = (map fst ws, False, ?e)"
    using loop_word [OF assms(2), of ?s "replicate k space @ concat (map (\<lambda>(w, n). w @ replicate (Suc n) space) ws)" "[]" "[]"] by simp
  ultimately have "split_argv_loop ?s [0..<length ?s] ([], False, 0) = (map fst ws, False, ?e)" by metis
  then show ?thesis by (auto simp: split_argv_def)
qed

lemma split_argv_arguments_example:
  "split_argv ''busybox sh  a'' = [''busybox'', ''sh'', ''a'']"
  using split_argv_arguments [of "[(''busybox'', 0), (''sh'', 1)]" "''a''" 0]
  by (simp add: quote_def space_def)

end
