(* ===== verification/Tasks.thy ===== *)
theory Tasks
  imports Scheduler Vmm Testcases
begin

text \<open>
  Tasks, \<^verbatim>\<open>kernel/src/task\<close>: the task control block with its clone, exit and wait, the trap context, and the two halves of the
  loop \<^verbatim>\<open>run_tasks\<close> around the switch to a task.

  The kernel runs user programs on one core (\<^verbatim>\<open>IS_SINGLE_CORE\<close>), as a batch system (\<^verbatim>\<open>IS_TEST_ENV\<close>). An \<^verbatim>\<open>Arc\<close> is an address: \<open>k_tasks\<close>
  holds the task control blocks, \<open>k_vms\<close>, \<open>k_fds\<close> and \<open>k_handlers\<close> what they share, and the receivers of signals are in the store
  of \<open>k_signals\<close>. \<open>k_next\<close> is the next fresh address. A task control block lives while an \<^verbatim>\<open>Arc\<close> refers to it: from the ready queue, from
  the core, from the children of another task, or from a kernel stack that was abandoned by an exit inside a function
  with a local \<^verbatim>\<open>Arc\<close> (\<open>k_leaked\<close>); \<open>release\<close> drops it with the last reference. A lock is free whenever an operation starts, except
  the locks of handlers and receivers that were held when a kernel stack was abandoned (\<open>k_locked\<close>); taking one of these spins forever,
  \<open>None\<close>. The first trap context on a kernel stack is the field \<open>t_trap_cx\<close> of its task, and the
  registers saved by a switch are left out.

  Kernel code that dereferences a user pointer goes through the page table of the task: \<open>user_store\<close> and \<open>user_load\<close> are \<open>None\<close> where that
  faults, since a page fault in kernel mode ends in the panic of \<^verbatim>\<open>kernel_trap_handler\<close>. The record \<open>kenv\<close> collects what the kernel is
  linked with: files, the kernel's memory set, the addresses of boxed page tables and of \<^verbatim>\<open>__restore\<close>, and the functions
  \<^verbatim>\<open>check_file_exists\<close> and \<^verbatim>\<open>parse_user_app\<close> of the loader. \<open>e_drop_files fs k\<close> is the world after the references to the files \<open>fs\<close> were dropped, in
  this order, in the kernel \<open>k\<close>, which does not hold them any more: a file that loses its last reference there gives back the page frames it holds.
\<close>

declare kernel_config_simps(3,4) [simp del]

subsection \<open>Constants and flags\<close>

definition NO_PARENT :: nat where "NO_PARENT = 18446744073709551615"
definition USER_STACK_SIZE :: usize where "USER_STACK_SIZE = 0x200000"
definition USER_STACK_OFFSET :: usize where "USER_STACK_OFFSET = 0x40000000 - USER_STACK_SIZE"
definition KERNEL_STACK_SIZE :: usize where "KERNEL_STACK_SIZE = 0x80000"

definition CLONE_VM :: u32 where "CLONE_VM = push_bit 8 1"
definition CLONE_FILES :: u32 where "CLONE_FILES = push_bit 10 1"
definition CLONE_SIGHAND :: u32 where "CLONE_SIGHAND = push_bit 11 1"
definition CLONE_PARENT :: u32 where "CLONE_PARENT = push_bit 15 1"
definition CLONE_THREAD :: u32 where "CLONE_THREAD = push_bit 16 1"
definition CLONE_SETTLS :: u32 where "CLONE_SETTLS = push_bit 19 1"
definition CLONE_PARENT_SETTID :: u32 where "CLONE_PARENT_SETTID = push_bit 20 1"
definition CLONE_CHILD_CLEARTID :: u32 where "CLONE_CHILD_CLEARTID = push_bit 21 1"
definition CLONE_CHILD_SETTID :: u32 where "CLONE_CHILD_SETTID = push_bit 24 1"

text \<open>All bits of \<^verbatim>\<open>CloneFlags\<close>, 7 to 24.\<close>

definition clone_flags_all :: u32 where "clone_flags_all = 0x1ffff80"

definition resolve_clone_flags_and_signal :: "usize \<Rightarrow> u32 \<times> signal_no" where
  "resolve_clone_flags_and_signal flag = (ucast flag AND NOT 0x3f AND clone_flags_all, ucast flag AND 0x3f)"

subsection \<open>TrapContext, TaskContext and KernelStack\<close>

record trap_context =
  tc_x :: "usize list"
  tc_sstatus :: usize
  tc_sepc :: usize
  tc_cpu_id :: usize
  tc_fs :: "usize list"

definition set_ra :: "usize \<Rightarrow> trap_context \<Rightarrow> trap_context" where "set_ra ra self = self\<lparr>tc_x := (tc_x self)[1 := ra]\<rparr>"
definition set_sp :: "usize \<Rightarrow> trap_context \<Rightarrow> trap_context" where "set_sp sp self = self\<lparr>tc_x := (tc_x self)[2 := sp]\<rparr>"
definition get_sp :: "trap_context \<Rightarrow> usize" where "get_sp self = tc_x self ! 2"
definition set_gp :: "usize \<Rightarrow> trap_context \<Rightarrow> trap_context" where "set_gp gp self = self\<lparr>tc_x := (tc_x self)[3 := gp]\<rparr>"
definition set_tp :: "usize \<Rightarrow> trap_context \<Rightarrow> trap_context" where "set_tp tp self = self\<lparr>tc_x := (tc_x self)[4 := tp]\<rparr>"
definition set_a0 :: "usize \<Rightarrow> trap_context \<Rightarrow> trap_context" where "set_a0 a self = self\<lparr>tc_x := (tc_x self)[10 := a]\<rparr>"
definition get_a0 :: "trap_context \<Rightarrow> usize" where "get_a0 self = tc_x self ! 10"
definition set_a1 :: "usize \<Rightarrow> trap_context \<Rightarrow> trap_context" where "set_a1 a self = self\<lparr>tc_x := (tc_x self)[11 := a]\<rparr>"
definition set_a2 :: "usize \<Rightarrow> trap_context \<Rightarrow> trap_context" where "set_a2 a self = self\<lparr>tc_x := (tc_x self)[12 := a]\<rparr>"
definition set_sepc :: "usize \<Rightarrow> trap_context \<Rightarrow> trap_context" where "set_sepc pc self = self\<lparr>tc_sepc := pc\<rparr>"
definition get_sepc :: "trap_context \<Rightarrow> usize" where "get_sepc self = tc_sepc self"

text \<open>\<open>sstatus\<close> is the value of the register; \<^verbatim>\<open>set_spp(User)\<close> clears its bit 8.\<close>

definition app_init_context :: "usize \<Rightarrow> usize \<Rightarrow> usize \<Rightarrow> trap_context" where
  "app_init_context sstatus user_entry sp =
     set_a0 sp (set_gp 0x17908 (set_sp sp
       \<lparr>tc_x = replicate 32 0, tc_sstatus = sstatus AND NOT (push_bit 8 1), tc_sepc = user_entry, tc_cpu_id = - 1, tc_fs = replicate 2 0\<rparr>))"

definition app_exec_context :: "usize \<Rightarrow> usize \<Rightarrow> usize \<Rightarrow> usize \<Rightarrow> usize \<Rightarrow> trap_context" where
  "app_exec_context sstatus user_entry sp argc argv = set_a1 argv (set_a0 argc (app_init_context sstatus user_entry sp))"

definition trap_context_new :: "usize \<Rightarrow> trap_context" where
  "trap_context_new sstatus =
     \<lparr>tc_x = replicate 32 0, tc_sstatus = sstatus, tc_sepc = 0, tc_cpu_id = - 1, tc_fs = replicate 2 0\<rparr>"

text \<open>\<^verbatim>\<open>size_of::<TrapContext>()\<close>: 37 registers.\<close>

definition size_of_trap_context :: usize where "size_of_trap_context = 296"

record task_context =
  cx_ra :: usize
  cx_sp :: usize
  cx_s :: "usize list"

definition zero_init :: task_context where
  "zero_init = \<lparr>cx_ra = 0, cx_sp = 0, cx_s = replicate 12 0\<rparr>"

definition goto_restore :: "usize \<Rightarrow> usize \<Rightarrow> task_context" where
  "goto_restore restore kstack_ptr = \<lparr>cx_ra = restore, cx_sp = kstack_ptr, cx_s = replicate 12 0\<rparr>"

definition get_ra :: "task_context \<Rightarrow> usize" where "get_ra self = cx_ra self"

definition kernel_stack_new :: "bit_field16 \<Rightarrow> machine \<Rightarrow> (frame os_result \<times> machine) option" where
  "kernel_stack_new bf m = do {
     (r, m) \<leftarrow> frame_new_contiguous bf kernel_config (KERNEL_STACK_SIZE div PAGE_SIZE) 0 m;
     Some (case r of Some f \<Rightarrow> Ok f | None \<Rightarrow> Err Task_RunOutOfMemory, m)
   }"

definition kernel_stack_sp :: "frame \<Rightarrow> usize" where
  "kernel_stack_sp self = frame_as_ptr kernel_config self + KERNEL_STACK_SIZE"

definition get_first_context :: "frame \<Rightarrow> usize" where
  "get_first_context self = kernel_stack_sp self - size_of_trap_context"

subsection \<open>State\<close>

datatype task_status = UnInit | Ready | Running | Dying | Zombie | Exited

record task =
  t_kernel_stack :: frame
  t_pid :: nat
  t_tid :: nat
  t_sigchld :: bool
  t_handlers :: nat
  t_receivers :: nat
  t_vm :: nat
  t_fds :: nat
  t_time :: time_stat
  t_dir :: string
  t_ppid :: nat
  t_heap_top :: usize
  t_status :: task_status
  t_cx :: task_context
  t_parent :: "nat option"
  t_children :: "nat list"
  t_exit_code :: "32 word"
  t_set_child_tid :: usize
  t_clear_child_tid :: usize
  t_saved_cx :: "trap_context option"
  t_siginfo :: bool
  t_trap_cx :: trap_context

record ('f, 's) kernel =
  k_tasks :: "nat \<rightharpoonup> task"
  k_next :: nat
  k_queue :: "nat scheduler"
  k_current :: "nat option"
  k_board :: waiting_board
  k_loop :: loop_counter
  k_signals :: signal_table
  k_handlers :: "nat \<Rightarrow> signal_handlers"
  k_vms :: "nat \<Rightarrow> 'f memory_set"
  k_fds :: "nat \<Rightarrow> 'f fd_manager"
  k_tids :: tid_allocator
  k_leaked :: "nat set"
  k_locked :: "nat set"
  k_cases :: "string list"
  k_tests :: test_status
  k_world :: "'s area_world"

record ('f, 's) kenv =
  e_bf :: bit_field16
  e_fo :: "('f, 's area_world) file_ops"
  e_get_status :: "'f \<Rightarrow> u32"
  e_drop_files :: "'f list \<Rightarrow> ('f, 's) kernel \<Rightarrow> 's area_world option"
  e_stdio :: "'f \<times> 'f \<times> 'f"
  e_kernel_ms :: "'f memory_set"
  e_pt_addr :: "nat \<Rightarrow> usize"
  e_restore :: usize
  e_sstatus :: usize
  e_exists :: "string \<Rightarrow> string \<Rightarrow> bool"
  e_loader :: "string \<Rightarrow> string \<Rightarrow> string list \<Rightarrow> 'f memory_set \<Rightarrow> 's area_world \<Rightarrow>
     ((usize \<times> usize) os_result \<times> 'f memory_set \<times> 's area_world) option"

definition set_task :: "nat \<Rightarrow> task \<Rightarrow> ('f, 's) kernel \<Rightarrow> ('f, 's) kernel" where
  "set_task a t k = k\<lparr>k_tasks := (k_tasks k)(a \<mapsto> t)\<rparr>"

text \<open>The task running on the core; calling without one panics.\<close>

definition current_task :: "('f, 's) kernel \<Rightarrow> (nat \<times> task) option" where
  "current_task k = do { a \<leftarrow> k_current k; t \<leftarrow> k_tasks k a; Some (a, t) }"

text \<open>\<^verbatim>\<open>lock()\<close> on the mutex at address \<open>r\<close>.\<close>

definition lock_at :: "nat \<Rightarrow> ('f, 's) kernel \<Rightarrow> unit option" where
  "lock_at r k = (if r \<in> k_locked k then None else Some ())"

subsection \<open>User memory\<close>

fun user_store :: "page_table \<Rightarrow> usize \<Rightarrow> byte list \<Rightarrow> machine \<Rightarrow> machine option" where
  "user_store pt v [] m = Some m"
| "user_store pt v (b # bs) m =
     (case pt_lookup pt v m of
        Some (pa, fl) \<Rightarrow>
          if flags_contains fl WRITE
          then user_store pt (v + 1) bs (m\<lparr>mem := (mem m)(phys_to_virt (pa + page_offset v) := b)\<rparr>)
          else None
      | None \<Rightarrow> None)"

fun user_load :: "page_table \<Rightarrow> usize \<Rightarrow> nat \<Rightarrow> machine \<Rightarrow> byte list option" where
  "user_load pt v 0 m = Some []"
| "user_load pt v (Suc n) m =
     (case pt_lookup pt v m of
        Some (pa, fl) \<Rightarrow>
          if flags_contains fl READ
          then map_option (Cons (mem m (phys_to_virt (pa + page_offset v)))) (user_load pt (v + 1) n m)
          else None
      | None \<Rightarrow> None)"

definition u32_bytes :: "32 word \<Rightarrow> byte list" where
  "u32_bytes x = map (\<lambda>b. ucast (drop_bit (8 * b) x)) [0..<4]"

definition put_user :: "nat \<Rightarrow> usize \<Rightarrow> byte list \<Rightarrow> ('f, 's) kernel \<Rightarrow> ('f, 's) kernel option" where
  "put_user v va bs k = do {
     m \<leftarrow> user_store (ms_pt (k_vms k v)) va bs (fst (k_world k));
     Some (k\<lparr>k_world := (m, snd (k_world k))\<rparr>)
   }"

text \<open>\<^verbatim>\<open>vm.lock().manually_alloc_page(va).is_ok()\<close>\<close>

definition alloc_page :: "('f, 's) kenv \<Rightarrow> nat \<Rightarrow> usize \<Rightarrow> ('f, 's) kernel \<Rightarrow> (bool \<times> ('f, 's) kernel) option" where
  "alloc_page env v va k = do {
     (r, ms, w) \<leftarrow> ms_manually_alloc_page (e_bf env) (e_fo env) (k_vms k v) va (k_world k);
     Some (\<not> isl r, k\<lparr>k_vms := (k_vms k)(v := ms), k_world := w\<rparr>)
   }"

definition put_user_alloc ::
  "('f, 's) kenv \<Rightarrow> nat \<Rightarrow> usize \<Rightarrow> byte list \<Rightarrow> ('f, 's) kernel \<Rightarrow> ('f, 's) kernel option" where
  "put_user_alloc env v va bs k = do {
     (ok, k) \<leftarrow> alloc_page env v va k;
     if ok then put_user v va bs k else Some k
   }"

subsection \<open>Clone\<close>

definition clone_vm :: "('f, 's) kenv \<Rightarrow> task \<Rightarrow> u32 \<Rightarrow> ('f, 's) kernel \<Rightarrow> (nat \<times> ('f, 's) kernel) option" where
  "clone_vm env self fl k =
     (if flags_contains fl CLONE_VM then Some (t_vm self, k)
      else let v = k_next k
        in case copy_as_fork (e_bf env) (e_fo env) (e_pt_addr env v) (e_kernel_ms env) (k_vms k (t_vm self)) (k_world k) of
             Some (Inr ms, w) \<Rightarrow> Some (v, k\<lparr>k_next := Suc v, k_vms := (k_vms k)(v := ms), k_world := w\<rparr>)
           | _ \<Rightarrow> None)"

definition clone_fds :: "('f, 's) kenv \<Rightarrow> task \<Rightarrow> u32 \<Rightarrow> ('f, 's) kernel \<Rightarrow> (nat \<times> ('f, 's) kernel) option" where
  "clone_fds env self fl k =
     (if flags_contains fl CLONE_FILES then Some (t_fds self, k)
      else do {
        fdm \<leftarrow> copy_all (e_bf env) (k_fds k (t_fds self));
        Some (k_next k, k\<lparr>k_next := Suc (k_next k), k_fds := (k_fds k)(k_next k := fdm)\<rparr>)
      })"

definition clone_handlers :: "task \<Rightarrow> u32 \<Rightarrow> ('f, 's) kernel \<Rightarrow> (nat \<times> ('f, 's) kernel) option" where
  "clone_handlers self fl k =
     (if flags_contains fl CLONE_SIGHAND then Some (t_handlers self, k)
      else do {
        lock_at (t_handlers self) k;
        Some (k_next k, k\<lparr>k_next := Suc (k_next k), k_handlers := (k_handlers k)(k_next k := k_handlers k (t_handlers self))\<rparr>)
      })"

definition new_tid :: "('f, 's) kenv \<Rightarrow> ('f, 's) kernel \<Rightarrow> (nat \<times> ('f, 's) kernel) option" where
  "new_tid env k =
     (case tid_new (e_bf env) (k_tids k) of
        Some (Some (Tid n), tids) \<Rightarrow> Some (n, k\<lparr>k_tids := tids\<rparr>)
      | _ \<Rightarrow> None)"

text \<open>New receivers, entered in the global table.\<close>

definition new_receivers :: "nat \<Rightarrow> ('f, 's) kernel \<Rightarrow> nat \<times> ('f, 's) kernel" where
  "new_receivers tid k =
     (let r = k_next k; st = (k_signals k)\<lparr>receiver_store := (receiver_store (k_signals k))(r := receivers_new)\<rparr>
      in (r, k\<lparr>k_next := Suc r, k_signals := global_register_signals st (of_nat tid) r\<rparr>))"

definition new_kernel_stack :: "('f, 's) kenv \<Rightarrow> ('f, 's) kernel \<Rightarrow> (frame \<times> ('f, 's) kernel) option" where
  "new_kernel_stack env k =
     (case kernel_stack_new (e_bf env) (fst (k_world k)) of
        Some (Inr f, m) \<Rightarrow> Some (f, k\<lparr>k_world := (m, snd (k_world k))\<rparr>)
      | _ \<Rightarrow> None)"

definition set_parent_tid ::
  "('f, 's) kenv \<Rightarrow> task \<Rightarrow> u32 \<Rightarrow> nat \<Rightarrow> usize \<Rightarrow> ('f, 's) kernel \<Rightarrow> ('f, 's) kernel option" where
  "set_parent_tid env self fl tid ptid k =
     (if flags_contains fl CLONE_PARENT_SETTID then put_user_alloc env (t_vm self) ptid (u32_bytes (of_nat tid)) k else Some k)"

text \<open>In a copied address space the kernel writes to the physical page that \<^verbatim>\<open>query\<close> answers.\<close>

definition set_child_tid ::
  "('f, 's) kenv \<Rightarrow> task \<Rightarrow> nat \<Rightarrow> u32 \<Rightarrow> nat \<Rightarrow> usize \<Rightarrow> ('f, 's) kernel \<Rightarrow> ('f, 's) kernel option" where
  "set_child_tid env self vm fl tid ctid k =
     (if flags_contains fl CLONE_CHILD_SETTID \<or> flags_contains fl CLONE_CHILD_CLEARTID then
        let bs = u32_bytes (if flags_contains fl CLONE_CHILD_SETTID then of_nat tid else 0)
        in if flags_contains fl CLONE_VM then put_user_alloc env (t_vm self) ctid bs k
           else do {
             (ok, k) \<leftarrow> alloc_page env vm ctid k;
             let (m, s) = k_world k;
             Some (if ok then (case query (ms_pt (k_vms k vm)) ctid m of
                                 Some paddr \<Rightarrow> k\<lparr>k_world := (m\<lparr>mem := mem_write (mem m) (phys_to_virt paddr) bs\<rparr>, s)\<rparr>
                               | None \<Rightarrow> k)
                   else k)
           }
      else Some k)"

definition clone_context :: "trap_context \<Rightarrow> u32 \<Rightarrow> usize \<Rightarrow> usize option \<Rightarrow> trap_context" where
  "clone_context cx fl tls user_stack =
     (let cx = set_a0 0 cx;
          cx = (if flags_contains fl CLONE_SETTLS then set_tp tls cx else cx)
      in case user_stack of Some sp \<Rightarrow> set_sp sp cx | None \<Rightarrow> cx)"

text \<open>\<open>now\<close> is the time in microseconds that \<^verbatim>\<open>TimeStat::new\<close> reads. The answer is the address of the new task.\<close>

definition from_clone ::
  "('f, 's) kenv \<Rightarrow> usize \<Rightarrow> nat \<Rightarrow> usize option \<Rightarrow> bool \<Rightarrow> u32 \<Rightarrow> usize \<Rightarrow> usize \<Rightarrow> usize \<Rightarrow> ('f, 's) kernel \<Rightarrow>
     (nat \<times> ('f, 's) kernel) option" where
  "from_clone env now a user_stack send_sigchld fl tls ptid ctid k = do {
     self \<leftarrow> k_tasks k a;
     (vm, k) \<leftarrow> clone_vm env self fl k;
     (fds, k) \<leftarrow> clone_fds env self fl k;
     (hs, k) \<leftarrow> clone_handlers self fl k;
     (tid, k) \<leftarrow> new_tid env k;
     let pid = (if flags_contains fl CLONE_THREAD then t_pid self else tid);
     let ppid = (if flags_contains fl CLONE_PARENT then t_ppid self else t_tid self);
     let (rs, k) = new_receivers tid k;
     (stack, k) \<leftarrow> new_kernel_stack env k;
     k \<leftarrow> set_parent_tid env self fl tid ptid k;
     k \<leftarrow> set_child_tid env self vm fl tid ctid k;
     let new = \<lparr>t_kernel_stack = stack, t_pid = pid, t_tid = tid, t_sigchld = send_sigchld, t_handlers = hs, t_receivers = rs,
        t_vm = vm, t_fds = fds, t_time = time_stat_new now (of_nat tid), t_dir = t_dir self, t_ppid = ppid,
        t_heap_top = USER_STACK_OFFSET, t_status = Ready, t_cx = goto_restore (e_restore env) (get_first_context stack),
        t_parent = Some a, t_children = [], t_exit_code = 0,
        t_set_child_tid = (if flags_contains fl CLONE_CHILD_SETTID then ctid else 0),
        t_clear_child_tid = (if flags_contains fl CLONE_CHILD_CLEARTID then ctid else 0),
        t_saved_cx = None, t_siginfo = False, t_trap_cx = clone_context (t_trap_cx self) fl tls user_stack\<rparr>;
     let c = k_next k;
     let k = set_task c new (k\<lparr>k_next := Suc c\<rparr>);
     Some (c, if \<not> flags_contains fl CLONE_PARENT then set_task a (self\<lparr>t_children := t_children self @ [c]\<rparr>) k else k)
   }"

definition push_task_to_scheduler :: "nat \<Rightarrow> ('f, 's) kernel \<Rightarrow> ('f, 's) kernel" where
  "push_task_to_scheduler a k = k\<lparr>k_queue := sched_push (k_queue k) a\<rparr>"

definition sys_clone ::
  "('f, 's) kenv \<Rightarrow> usize \<Rightarrow> usize \<Rightarrow> usize \<Rightarrow> usize \<Rightarrow> usize \<Rightarrow> usize \<Rightarrow> ('f, 's) kernel \<Rightarrow> (sys_result \<times> ('f, 's) kernel) option" where
  "sys_clone env now fl user_stack ptid tls ctid k =
     (let (clone_flags, signal) = resolve_clone_flags_and_signal fl
      in if sint user_stack < 0 then Some (Inl EINVAL, k)
         else do {
           (a, _) \<leftarrow> current_task k;
           (c, k) \<leftarrow> from_clone env now a (if sint user_stack > 0 then Some user_stack else None) (signal = SIGCHLD) clone_flags tls ptid ctid k;
           new \<leftarrow> k_tasks k c;
           Some (Inr (of_nat (t_tid new)), push_task_to_scheduler c k)
         })"

subsection \<open>Starting and replacing programs\<close>

text \<open>\<^verbatim>\<open>from_app_name\<close> answers the address of the new task, or no address when the program is not there or cannot be loaded.\<close>

definition from_app_name ::
  "('f, 's) kenv \<Rightarrow> usize \<Rightarrow> string \<Rightarrow> nat \<Rightarrow> string list \<Rightarrow> ('f, 's) kernel \<Rightarrow> (nat option \<times> ('f, 's) kernel) option" where
  "from_app_name env now app_dir ppid args k =
     (case args of
        [] \<Rightarrow> Some (None, k)
      | app_name # _ \<Rightarrow>
          if \<not> e_exists env app_dir app_name then Some (None, k)
          else do {
            (r, m) \<leftarrow> new_memory_set_for_task (e_bf env) (e_pt_addr env (k_next k)) (e_kernel_ms env) (fst (k_world k));
            ms \<leftarrow> (case r of Inr ms \<Rightarrow> Some ms | Inl _ \<Rightarrow> None);
            (r, ms, w) \<leftarrow> e_loader env app_dir app_name args ms (m, snd (k_world k));
            (case r of
               Inl _ \<Rightarrow> do {
                 w \<leftarrow> memory_set_drop (e_bf env) (e_fo env) ms w;
                 Some (None, k\<lparr>k_world := w\<rparr>)
               }
             | Inr (user_entry, user_stack) \<Rightarrow> do {
                 let v = k_next k;
                 let k = k\<lparr>k_next := Suc v, k_vms := (k_vms k)(v := ms), k_world := w\<rparr>;
                 (stack, k) \<leftarrow> new_kernel_stack env k;
                 (tid, k) \<leftarrow> new_tid env k;
                 let (hs, k) = (k_next k, k\<lparr>k_next := Suc (k_next k), k_handlers := (k_handlers k)(k_next k := handlers_new)\<rparr>);
                 let (rs, k) = new_receivers tid k;
                 fdm \<leftarrow> (case e_stdio env of (i, out, err) \<Rightarrow> fd_manager_new (e_bf env) i out err 0);
                 let (fds, k) = (k_next k, k\<lparr>k_next := Suc (k_next k), k_fds := (k_fds k)(k_next k := fdm)\<rparr>);
                 let new = \<lparr>t_kernel_stack = stack, t_pid = tid, t_tid = tid, t_sigchld = True, t_handlers = hs, t_receivers = rs,
                    t_vm = v, t_fds = fds, t_time = time_stat_new now (of_nat tid), t_dir = app_dir, t_ppid = ppid,
                    t_heap_top = USER_STACK_OFFSET, t_status = Ready,
                    t_cx = goto_restore (e_restore env) (get_first_context stack),
                    t_parent = None, t_children = [], t_exit_code = 0, t_set_child_tid = 0, t_clear_child_tid = 0,
                    t_saved_cx = None, t_siginfo = False, t_trap_cx = app_init_context (e_sstatus env) user_entry user_stack\<rparr>;
                 let c = k_next k;
                 Some (Some c, set_task c new (k\<lparr>k_next := Suc c\<rparr>))
               })
          })"

text \<open>\<^verbatim>\<open>load_next_testcase\<close>; at the end of the list it reports the results and panics. \<^verbatim>\<open>GLOBAL_TASK_SCHEDULER\<close> starts with the first program.\<close>

definition ROOT_DIR :: string where "ROOT_DIR = ''./''"

definition load_next_testcase :: "('f, 's) kenv \<Rightarrow> usize \<Rightarrow> ('f, 's) kernel \<Rightarrow> (nat option \<times> ('f, 's) kernel) option" where
  "load_next_testcase env now k =
     (case k_cases k of
        [] \<Rightarrow> None
      | user_command # rest \<Rightarrow> do {
          let argv = split_argv user_command;
          let k = k\<lparr>k_cases := rest, k_tests := test_load user_command (k_tests k)\<rparr>;
          (r, k) \<leftarrow> from_app_name env now ROOT_DIR NO_PARENT argv k;
          map_option (\<lambda>a. (Some a, k)) r
        })"

definition init_scheduler :: "('f, 's) kenv \<Rightarrow> usize \<Rightarrow> ('f, 's) kernel \<Rightarrow> ('f, 's) kernel option" where
  "init_scheduler env now k = do {
     (r, k) \<leftarrow> load_next_testcase env now (k\<lparr>k_queue := sched_new\<rparr>);
     a \<leftarrow> r;
     Some (k\<lparr>k_queue := sched_push (k_queue k) a\<rparr>)
   }"

definition u64_of_bytes :: "byte list \<Rightarrow> u64" where
  "u64_of_bytes bs = foldr (\<lambda>b acc. push_bit 8 acc OR ucast b) bs 0"

text \<open>The files of a descriptor table, and those that \<^verbatim>\<open>close_cloexec_files\<close> takes out, in the order of their descriptors.\<close>

definition open_files :: "'f fd_manager \<Rightarrow> 'f list" where
  "open_files self = List.map_filter id (files self)"

definition cloexec_files :: "('f \<Rightarrow> u32) \<Rightarrow> 'f fd_manager \<Rightarrow> 'f list" where
  "cloexec_files get_status self = filter (\<lambda>f. flags_contains (get_status f) CLOEXEC) (open_files self)"

text \<open>\<^verbatim>\<open>exec\<close> of the task at \<open>a\<close>.\<close>

definition task_exec ::
  "('f, 's) kenv \<Rightarrow> usize \<Rightarrow> nat \<Rightarrow> string \<Rightarrow> string list \<Rightarrow> ('f, 's) kernel \<Rightarrow> (bool \<times> ('f, 's) kernel) option" where
  "task_exec env now a app_name args k = do {
     t \<leftarrow> k_tasks k a;
     if \<not> e_exists env (t_dir t) app_name then Some (False, k)
     else do {
       (ms, w) \<leftarrow> clear_user_pages_and_save_kernel (e_bf env) (e_fo env) (k_vms k (t_vm t)) (k_world k);
       lock_at (t_handlers t) k;
       let hs = (k_handlers k)(t_handlers t := handlers_clear (k_handlers k (t_handlers t)));
       lock_at (t_receivers t) k;
       let st = k_signals k;
       let st = st\<lparr>receiver_store := (receiver_store st)(t_receivers t := receivers_clear (receiver_store st (t_receivers t)))\<rparr>;
       let fds = (k_fds k)(t_fds t := close_cloexec_files (e_get_status env) (k_fds k (t_fds t)));
       let closed = cloexec_files (e_get_status env) (k_fds k (t_fds t));
       let t = t\<lparr>t_heap_top := USER_STACK_OFFSET, t_time := time_stat_clear now (t_time t)\<rparr>;
       w \<leftarrow> e_drop_files env closed
         (set_task a t (k\<lparr>k_vms := (k_vms k)(t_vm t := ms), k_world := w, k_handlers := hs, k_signals := st, k_fds := fds\<rparr>));
       let args = (if args = [] then [app_name] else args);
       (r, ms, w) \<leftarrow> e_loader env (t_dir t) app_name args ms w;
       let k = set_task a t (k\<lparr>k_vms := (k_vms k)(t_vm t := ms), k_world := w, k_handlers := hs, k_signals := st, k_fds := fds\<rparr>);
       (case r of
          Inl _ \<Rightarrow> Some (False, k)
        | Inr (user_entry, user_stack) \<Rightarrow> do {
            argc \<leftarrow> user_load (ms_pt ms) user_stack 8 (fst w);
            let cx = app_exec_context (e_sstatus env) user_entry user_stack (u64_of_bytes argc) (user_stack + 8);
            Some (True, set_task a (t\<lparr>t_trap_cx := cx, t_cx := goto_restore (e_restore env) (get_first_context (t_kernel_stack t))\<rparr>) k)
          })
     }
   }"

subsection \<open>Reading and changing a task\<close>

definition get_ppid :: "task \<Rightarrow> nat" where
  "get_ppid self = (if t_ppid self = NO_PARENT then 1 else t_ppid self)"

definition set_user_heap_top :: "usize \<Rightarrow> task \<Rightarrow> usize \<times> task" where
  "set_user_heap_top new_top self =
     (let user_sp = get_sp (t_trap_cx self)
      in if new_top \<ge> USER_STACK_OFFSET \<and> new_top < user_sp then (new_top, self\<lparr>t_heap_top := new_top\<rparr>)
         else (t_heap_top self, self))"

definition get_code_if_exit :: "task \<Rightarrow> 32 word option" where
  "get_code_if_exit self = (case t_status self of Zombie \<Rightarrow> Some (t_exit_code self) | _ \<Rightarrow> None)"

definition set_tid_address :: "usize \<Rightarrow> task \<Rightarrow> task" where
  "set_tid_address a self = self\<lparr>t_clear_child_tid := a\<rparr>"

subsection \<open>Dropping task control blocks\<close>

definition referenced :: "('f, 's) kernel \<Rightarrow> nat \<Rightarrow> bool" where
  "referenced k a \<longleftrightarrow> a \<in> set (ready_queue (k_queue k)) \<or> k_current k = Some a \<or> a \<in> k_leaked k \<or>
     list_ex (\<lambda>p. case k_tasks k p of Some t \<Rightarrow> a \<in> set (t_children t) | None \<Rightarrow> False) [0..<k_next k]"

text \<open>\<^verbatim>\<open>Arc::strong_count(&task.vm)\<close>\<close>

definition vm_strong_count :: "('f, 's) kernel \<Rightarrow> nat \<Rightarrow> nat" where
  "vm_strong_count k v = length (filter (\<lambda>p. case k_tasks k p of Some t \<Rightarrow> t_vm t = v | None \<Rightarrow> False) [0..<k_next k])"

text \<open>\<^verbatim>\<open>Arc::strong_count(&task.fd_manager)\<close>\<close>

definition fds_strong_count :: "('f, 's) kernel \<Rightarrow> nat \<Rightarrow> nat" where
  "fds_strong_count k r = length (filter (\<lambda>p. case k_tasks k p of Some t \<Rightarrow> t_fds t = r | None \<Rightarrow> False) [0..<k_next k])"

text \<open>The fields that own something, in the order of their declaration: the kernel stack, the thread id, and the memory set and the descriptor table
  when this was the last owner.\<close>

definition drop_task :: "('f, 's) kenv \<Rightarrow> nat \<Rightarrow> ('f, 's) kernel \<Rightarrow> ('f, 's) kernel option" where
  "drop_task env a k = do {
     t \<leftarrow> k_tasks k a;
     m \<leftarrow> frame_drop (e_bf env) kernel_config (t_kernel_stack t) (fst (k_world k));
     tids \<leftarrow> tid_drop (e_bf env) (k_tids k) (Tid (t_tid t));
     let k = k\<lparr>k_tasks := (k_tasks k)(a := None), k_tids := tids, k_world := (m, snd (k_world k))\<rparr>;
     k \<leftarrow> (if vm_strong_count k (t_vm t) = 0 then do {
            w \<leftarrow> memory_set_drop (e_bf env) (e_fo env) (k_vms k (t_vm t)) (k_world k);
            Some (k\<lparr>k_world := w\<rparr>)
          }
          else Some k);
     if fds_strong_count k (t_fds t) = 0 then do {
       let fdm = k_fds k (t_fds t);
       let k = k\<lparr>k_fds := (k_fds k)(t_fds t := fdm\<lparr>files := []\<rparr>)\<rparr>;
       w \<leftarrow> e_drop_files env (open_files fdm) k;
       Some (k\<lparr>k_world := w\<rparr>)
     }
     else Some k
   }"

definition release :: "('f, 's) kenv \<Rightarrow> nat \<Rightarrow> ('f, 's) kernel \<Rightarrow> ('f, 's) kernel option" where
  "release env a k = (if referenced k a then Some k else drop_task env a k)"

fun release_all :: "('f, 's) kenv \<Rightarrow> nat list \<Rightarrow> ('f, 's) kernel \<Rightarrow> ('f, 's) kernel option" where
  "release_all env [] k = Some k"
| "release_all env (a # as) k = release env a k \<bind> release_all env as"

subsection \<open>Leaving a task\<close>

definition suspend_current_task :: "('f, 's) kernel \<Rightarrow> ('f, 's) kernel option" where
  "suspend_current_task k = do {
     (a, t) \<leftarrow> current_task k;
     Some (set_task a (t\<lparr>t_status := Ready\<rparr>) k)
   }"

definition exit_current_task :: "('f, 's) kenv \<Rightarrow> 32 word \<Rightarrow> ('f, 's) kernel \<Rightarrow> ('f, 's) kernel option" where
  "exit_current_task env exit_code k = do {
     (a, t) \<leftarrow> current_task k;
     let k = set_task a (t\<lparr>t_status := Dying, t_exit_code := exit_code\<rparr>) k;
     if t_clear_child_tid t \<noteq> 0 then put_user_alloc env (t_vm t) (t_clear_child_tid t) (u32_bytes 0) k else Some k
   }"

text \<open>The loop over the children: every child loses its parent.\<close>

fun orphan_children :: "nat list \<Rightarrow> ('f, 's) kernel \<Rightarrow> ('f, 's) kernel" where
  "orphan_children [] k = k"
| "orphan_children (c # cs) k =
     orphan_children cs (case k_tasks k c of Some t \<Rightarrow> set_task c (t\<lparr>t_ppid := NO_PARENT\<rparr>) k | None \<Rightarrow> k)"

definition handle_zombie_task :: "('f, 's) kenv \<Rightarrow> nat \<Rightarrow> ('f, 's) kernel \<Rightarrow> ('f, 's) kernel option" where
  "handle_zombie_task env a k = do {
     t \<leftarrow> k_tasks k a;
     let children = t_children t;
     let k = orphan_children children k;
     let k = set_task a (t\<lparr>t_children := []\<rparr>) k;
     k \<leftarrow> release_all env children k;
     let k = set_task a (t\<lparr>t_children := [], t_status := Zombie\<rparr>) k;
     let k = (if t_pid t = t_tid t then k\<lparr>k_tests := update_result (t_exit_code t) (k_tests k)\<rparr> else k);
     let k = (if t_sigchld t \<or> t_pid t = t_tid t
              then k\<lparr>k_signals := send_signal (k_signals k) (of_nat (t_ppid t)) (ucast SIGCHLD)\<rparr> else k);
     let k = k\<lparr>k_signals := global_logoff_signals (k_signals k) (of_nat (t_tid t))\<rparr>;
     if vm_strong_count k (t_vm t) = 1 then do {
       (ms, w) \<leftarrow> clear_user_pages (e_bf env) (e_fo env) (k_vms k (t_vm t)) (k_world k);
       Some (k\<lparr>k_vms := (k_vms k)(t_vm t := ms), k_world := w\<rparr>)
     }
     else Some k
   }"

text \<open>Whether \<^verbatim>\<open>switch_out_task\<close> sends the signal of a timer to the task itself.\<close>

definition switch_out_sends :: "usize \<Rightarrow> time_stat \<Rightarrow> signal_table \<Rightarrow> bool" where
  "switch_out_sends now ts st \<longleftrightarrow>
     (let delta = now - kernel_tick ts; ts = ts\<lparr>stime_us := stime_us ts + delta\<rparr>
      in (timer_type ts = TimerReal \<or> timer_type ts = TimerProf) \<and> fst (update_timer_and_send_signal ts delta st))"

text \<open>The second half of \<^verbatim>\<open>run_tasks\<close>: the core has switched back from the current task.\<close>

definition switched_out :: "('f, 's) kenv \<Rightarrow> usize \<Rightarrow> ('f, 's) kernel \<Rightarrow> ('f, 's) kernel option" where
  "switched_out env now k = do {
     (a, t) \<leftarrow> current_task k;
     _ \<leftarrow> (if switch_out_sends now (t_time t) (k_signals k) then lock_at (t_receivers t) k else Some ());
     let (ts, st) = switch_out_task now (t_time t) (k_signals k);
     let k = set_task a (t\<lparr>t_time := ts\<rparr>) (k\<lparr>k_signals := st, k_current := None\<rparr>);
     (case t_status t of
        Ready \<Rightarrow> Some (push_task_to_scheduler a k)
      | Dying \<Rightarrow> handle_zombie_task env a k \<bind> release env a
      | _ \<Rightarrow> None)
   }"

text \<open>The first half: enter task \<open>a\<close>.\<close>

definition enter_task :: "usize \<Rightarrow> nat \<Rightarrow> ('f, 's) kernel \<Rightarrow> ('f, 's) kernel option" where
  "enter_task now a k = do {
     t \<leftarrow> k_tasks k a;
     Some (set_task a (t\<lparr>t_status := Running, t_time := switch_into_task now (t_time t)\<rparr>)
       (k\<lparr>k_current := Some a, k_loop := loop_clear (k_loop k)\<rparr>))
   }"

definition tid_in :: "('f, 's) kernel \<Rightarrow> nat \<Rightarrow> nat" where
  "tid_in k a = (case k_tasks k a of Some t \<Rightarrow> t_tid t | None \<Rightarrow> 0)"

text \<open>From the idle loop to the next task; \<open>i\<close> counts the readings of the clock, a program that is loaded first starts at \<open>now\<close>.\<close>

definition run_next ::
  "('f, 's) kenv \<Rightarrow> usize \<Rightarrow> (nat \<Rightarrow> usize) \<Rightarrow> nat \<Rightarrow> ('f, 's) kernel \<Rightarrow> ('f, 's) kernel option" where
  "run_next env now clock i k = do {
     (a, i, board, q, k) \<leftarrow> pick_task (load_next_testcase env now) tid_in clock i (k_board k) (k_queue k) k;
     enter_task (get_time_us (clock i)) a (k\<lparr>k_board := board, k_queue := q\<rparr>)
   }"

subsection \<open>Waiting for a child\<close>

text \<open>The loop of \<^verbatim>\<open>waitpid\<close>, with its variables \<open>flag\<close>, \<open>exit_code\<close> and \<open>pid_found\<close>.\<close>

fun wait_loop ::
  "('f, 's) kernel \<Rightarrow> usize \<Rightarrow> nat \<Rightarrow> nat list \<Rightarrow> int \<times> 32 word \<times> int \<Rightarrow> (int \<times> 32 word \<times> int) option" where
  "wait_loop k pid idx [] s = Some s"
| "wait_loop k pid idx (c # cs) (flag, code, found) = do {
     child \<leftarrow> k_tasks k c;
     if pid = - 1 then
       (case get_code_if_exit child of
          Some code \<Rightarrow> Some (int idx, code, int (t_pid child))
        | None \<Rightarrow> wait_loop k pid (Suc idx) cs (- 2, code, found))
     else if t_pid child = unat pid then
       (case get_code_if_exit child of
          Some code \<Rightarrow> Some (int idx, code, found)
        | None \<Rightarrow> Some (- 2, code, found))
     else wait_loop k pid (Suc idx) cs (flag, code, found)
   }"

definition waitpid :: "('f, 's) kenv \<Rightarrow> usize \<Rightarrow> usize \<Rightarrow> ('f, 's) kernel \<Rightarrow> (int \<times> ('f, 's) kernel) option" where
  "waitpid env pid exit_code_ptr k = do {
     (a, t) \<leftarrow> current_task k;
     (flag, code, found) \<leftarrow> wait_loop k pid 0 (t_children t) (- 1, - 1, sint pid);
     if flag \<ge> 0 then do {
       let i = nat flag;
       let child = t_children t ! i;
       let k = set_task a (t\<lparr>t_children := take i (t_children t) @ drop (Suc i) (t_children t)\<rparr>) k;
       k \<leftarrow> (if exit_code_ptr \<noteq> 0 then put_user (t_vm t) exit_code_ptr (u32_bytes (push_bit 8 code)) k else Some k);
       k \<leftarrow> release env child k;
       Some (found, k)
     }
     else Some (flag, k)
   }"

text \<open>One round of the loop of \<^verbatim>\<open>sys_wait4\<close>: either it returns, or the task is suspended and tries again.\<close>

datatype wait_outcome = WaitDone sys_result | WaitSuspended

definition WNOHANG :: u32 where "WNOHANG = push_bit 0 1"

definition wait4_round ::
  "('f, 's) kenv \<Rightarrow> usize \<Rightarrow> usize \<Rightarrow> u32 \<Rightarrow> ('f, 's) kernel \<Rightarrow> (wait_outcome \<times> ('f, 's) kernel) option" where
  "wait4_round env pid exit_code_ptr option k = do {
     (child_pid, k) \<leftarrow> waitpid env pid exit_code_ptr k;
     if child_pid = - 1 then Some (WaitDone (Inl EINVAL), k)
     else if child_pid = - 2 then
       (if flags_contains option WNOHANG then Some (WaitDone (Inr 0), k)
        else map_option (Pair WaitSuspended) (suspend_current_task k))
     else Some (WaitDone (Inr (of_int child_pid)), k)
   }"

end
