(* ===== verification/Delivery.thy ===== *)
theory Delivery
  imports Tasks
begin

text \<open>
  Delivery of signals to the running task: \<^verbatim>\<open>handle_signals\<close> and \<^verbatim>\<open>signal_return\<close> of \<^verbatim>\<open>kernel/src/task/cpu_local.rs\<close> with the methods of
  \<^verbatim>\<open>TaskControlBlock\<close> they use, and the system calls on signals of \<^verbatim>\<open>kernel/src/syscall/process.rs\<close>.

  \<open>handle_signals\<close> answers whether it returns; if it does not, the task has left through \<^verbatim>\<open>exit_current_task\<close> and its kernel stack, with the
  local \<^verbatim>\<open>Arc\<close> and the guards in it, is never unwound. Structures are written to user memory byte by byte in the order of
  their fields, padding as zeros. Log output is left out; \<^verbatim>\<open>LOG_LEVEL\<close> disables the arguments of \<^verbatim>\<open>info!\<close> too.
\<close>

subsection \<open>Layout of the structures passed to a handler\<close>

definition SIGBUS :: signal_no where "SIGBUS = 7"
definition SIGKILL :: signal_no where "SIGKILL = 9"
definition SIGSEGV :: signal_no where "SIGSEGV = 11"
definition SIGSTOP :: signal_no where "SIGSTOP = 19"
definition USER_STACK_RED_ZONE :: usize where "USER_STACK_RED_ZONE = 0x200"
definition SIGSET_SIZE_IN_BYTE :: usize where "SIGSET_SIZE_IN_BYTE = 8"

definition u64_bytes :: "u64 \<Rightarrow> byte list" where
  "u64_bytes x = map (\<lambda>b. ucast (drop_bit (8 * b) x)) [0..<8]"

definition sig_info_bytes :: "sig_info \<Rightarrow> byte list" where
  "sig_info_bytes i = u32_bytes (si_signo i) @ u32_bytes (si_errno i) @ u32_bytes (si_code i)"

definition signal_user_context_bytes :: "signal_user_context \<Rightarrow> byte list" where
  "signal_user_context_bytes u =
     u64_bytes (uc_flags u) @ u64_bytes (uc_link u) @
     u64_bytes (ss_sp (uc_stack u)) @ u32_bytes (ss_flags (uc_stack u)) @ replicate 4 0 @ u64_bytes (ss_size (uc_stack u)) @
     u64_bytes (uc_sig_mask u) @
     concat (map u64_bytes (mc_reserved0 (uc_context u))) @ u64_bytes (mc_pc (uc_context u)) @
     concat (map u64_bytes (mc_reserved (uc_context u))) @ concat (map u64_bytes (mc_fpstate (uc_context u)))"

text \<open>\<^verbatim>\<open>size_of::<SigInfo>()\<close>, \<^verbatim>\<open>size_of::<SignalUserContext>()\<close>, and the offset of the saved program counter in the latter.\<close>

definition size_of_sig_info :: usize where "size_of_sig_info = 12"
definition size_of_user_context :: usize where "size_of_user_context = 848"
definition pc_offset :: usize where "pc_offset = 176"

subsection \<open>Saving and restoring the user context\<close>

definition save_trap_cx_if_not_handling_signals :: "task \<Rightarrow> bool \<times> task" where
  "save_trap_cx_if_not_handling_signals self =
     (if t_saved_cx self \<noteq> None then (False, self)
      else (True, self\<lparr>t_saved_cx := Some (t_trap_cx self), t_siginfo := False\<rparr>))"

definition save_if_set_siginfo :: "bool \<Rightarrow> task \<Rightarrow> task" where
  "save_if_set_siginfo siginfo self = self\<lparr>t_siginfo := siginfo\<rparr>"

text \<open>The program counter is read from the user stack whether or not it is used.\<close>

definition load_trap_cx_if_handling_signals :: "nat \<Rightarrow> ('f, 's) kernel \<Rightarrow> (bool \<times> ('f, 's) kernel) option" where
  "load_trap_cx_if_handling_signals a k = do {
     self \<leftarrow> k_tasks k a;
     (case t_saved_cx self of
        None \<Rightarrow> Some (False, k)
      | Some trap_cx_old \<Rightarrow> do {
          let sp = get_sp (t_trap_cx self);
          bs \<leftarrow> user_load (ms_pt (k_vms k (t_vm self))) (sp + pc_offset) 8 (fst (k_world k));
          let cx = (if t_siginfo self then set_sepc (u64_of_bytes bs) trap_cx_old else trap_cx_old);
          Some (True, set_task a (self\<lparr>t_saved_cx := None, t_trap_cx := cx\<rparr>) k)
        })
   }"

subsection \<open>handle_signals\<close>

definition set_receivers :: "nat \<Rightarrow> signal_receivers \<Rightarrow> ('f, 's) kernel \<Rightarrow> ('f, 's) kernel" where
  "set_receivers r rs k =
     k\<lparr>k_signals := (k_signals k)\<lparr>receiver_store := (receiver_store (k_signals k))(r := rs)\<rparr>\<rparr>"

text \<open>The registers on entry to a handler, and what \<^verbatim>\<open>SA_SIGINFO\<close> puts on the user stack.\<close>

definition enter_handler ::
  "nat \<Rightarrow> usize \<Rightarrow> sig_action \<Rightarrow> bitset \<Rightarrow> ('f, 's) kernel \<Rightarrow> ('f, 's) kernel option" where
  "enter_handler a signum action mask' k = do {
     t \<leftarrow> k_tasks k a;
     let cx = set_ra (get_restorer action) (t_trap_cx t);
     let sp = get_sp cx - USER_STACK_RED_ZONE;
     let old_pc = get_sepc cx;
     let cx = set_a0 signum (set_sepc (sa_handler action) cx);
     if flags_contains (sa_flags action) SA_SIGINFO then do {
       let t = save_if_set_siginfo True t;
       let sp = (sp - size_of_sig_info) AND NOT 0xf;
       k \<leftarrow> put_user (t_vm t) sp (sig_info_bytes (sig_info_default\<lparr>si_signo := ucast signum\<rparr>)) k;
       let cx = set_a1 sp cx;
       let sp = (sp - size_of_user_context) AND NOT 0xf;
       k \<leftarrow> put_user (t_vm t) sp (signal_user_context_bytes (ucontext_init mask' old_pc)) k;
       let cx = set_a2 sp cx;
       Some (set_task a (t\<lparr>t_trap_cx := set_sp sp cx\<rparr>) k)
     }
     else Some (set_task a (t\<lparr>t_trap_cx := set_sp sp cx\<rparr>) k)
   }"

text \<open>Leaving through \<^verbatim>\<open>exit_current_task\<close> inside \<^verbatim>\<open>handle_signals\<close>: the local reference to the task is never dropped, nor are the guards \<open>held\<close>.\<close>

definition abandon :: "('f, 's) kenv \<Rightarrow> nat \<Rightarrow> nat set \<Rightarrow> 32 word \<Rightarrow> ('f, 's) kernel \<Rightarrow> (bool \<times> ('f, 's) kernel) option" where
  "abandon env a held exit_code k =
     map_option (Pair False) (exit_current_task env exit_code (k\<lparr>k_leaked := insert a (k_leaked k), k_locked := held \<union> k_locked k\<rparr>))"

text \<open>The part of \<^verbatim>\<open>handle_signals\<close> after the user context was saved.\<close>

definition deliver ::
  "('f, 's) kenv \<Rightarrow> nat \<Rightarrow> task \<Rightarrow> usize \<Rightarrow> bitset \<Rightarrow> ('f, 's) kernel \<Rightarrow> (bool \<times> ('f, 's) kernel) option" where
  "deliver env a t signum mask' k = do {
     action \<leftarrow> get_action_ref (k_handlers k (t_handlers t)) signum;
     (case action of
        Some action \<Rightarrow>
          if sa_handler action = SIG_IGN then Some (True, k)
          else map_option (Pair True) (enter_handler a signum action mask' k)
      | None \<Rightarrow>
          (case of_signal (signal_no_from signum) of
             SigTerminate \<Rightarrow> abandon env a {} 0 k
           | SigIgnore \<Rightarrow> map_option (\<lambda>(_, k). (True, k)) (load_trap_cx_if_handling_signals a k)))
   }"

definition handle_signals :: "('f, 's) kenv \<Rightarrow> ('f, 's) kernel \<Rightarrow> (bool \<times> ('f, 's) kernel) option" where
  "handle_signals env k = do {
     (a, t) \<leftarrow> current_task k;
     lock_at (t_receivers t) k;
     lock_at (t_handlers t) k;
     (case get_one_signal (receiver_store (k_signals k) (t_receivers t)) of
        (None, _) \<Rightarrow> Some (True, k)
      | (Some signum, sig_inner) \<Rightarrow>
          (let k = set_receivers (t_receivers t) sig_inner k; signal = signal_no_from signum
           in case save_trap_cx_if_not_handling_signals t of
                (True, t) \<Rightarrow> deliver env a t signum (sig_mask sig_inner) (set_task a t k)
              | (False, t) \<Rightarrow>
                  if signal = SIGSEGV \<or> signal = SIGBUS then abandon env a {t_receivers t, t_handlers t} (- 1) k
                  else Some (True, k)))
   }"

definition signal_return :: "('f, 's) kernel \<Rightarrow> (usize \<times> ('f, 's) kernel) option" where
  "signal_return k = do {
     (a, _) \<leftarrow> current_task k;
     (ok, k) \<leftarrow> load_trap_cx_if_handling_signals a k;
     if ok then do { t \<leftarrow> k_tasks k a; Some (get_a0 (t_trap_cx t), k) }
     else Some (- 1, k)
   }"

definition sys_sigreturn :: "('f, 's) kernel \<Rightarrow> (sys_result \<times> ('f, 's) kernel) option" where
  "sys_sigreturn k = do {
     (a0, k) \<leftarrow> signal_return k;
     Some (if a0 = - 1 then Inl EINVAL else Inr a0, k)
   }"

subsection \<open>System calls on signals\<close>

definition sys_kill :: "usize \<Rightarrow> usize \<Rightarrow> ('f, 's) kernel \<Rightarrow> sys_result \<times> ('f, 's) kernel" where
  "sys_kill pid signal_id k =
     (if sint pid > 0 \<and> sint signal_id > 0 then (Inr 0, k\<lparr>k_signals := send_signal (k_signals k) pid signal_id\<rparr>)
      else if pid = 0 then (Inl ESRCH, k)
      else (Inl EINVAL, k))"

definition sys_tkill :: "usize \<Rightarrow> usize \<Rightarrow> ('f, 's) kernel \<Rightarrow> sys_result \<times> ('f, 's) kernel" where
  "sys_tkill tid signal_id k =
     (if sint tid > 0 then (Inr 0, k\<lparr>k_signals := send_signal (k_signals k) tid signal_id\<rparr>) else (Inl EINVAL, k))"

definition SIG_BLOCK :: "32 word" where "SIG_BLOCK = 0"
definition SIG_UNBLOCK :: "32 word" where "SIG_UNBLOCK = 1"
definition SIG_SETMASK :: "32 word" where "SIG_SETMASK = 2"

definition get_user :: "nat \<Rightarrow> usize \<Rightarrow> nat \<Rightarrow> ('f, 's) kernel \<Rightarrow> byte list option" where
  "get_user v va n k = user_load (ms_pt (k_vms k v)) va n (fst (k_world k))"

text \<open>The part that changes the mask; the answer is \<^verbatim>\<open>None\<close> inside when \<open>how\<close> is unknown.\<close>

definition new_mask :: "32 word \<Rightarrow> bitset \<Rightarrow> bitset \<Rightarrow> bitset option" where
  "new_mask how mask' set' =
     (if how = SIG_BLOCK then Some (get_union mask' set')
      else if how = SIG_UNBLOCK then Some (get_difference mask' set')
      else if how = SIG_SETMASK then Some (set_new mask' set')
      else None)"

text \<open>The two halves of \<^verbatim>\<open>sys_sigprocmask\<close>: storing the old mask and setting a new one.\<close>

definition store_old_mask ::
  "('f, 's) kenv \<Rightarrow> task \<Rightarrow> usize \<Rightarrow> ('f, 's) kernel \<Rightarrow> (bool \<times> ('f, 's) kernel) option" where
  "store_old_mask env t old_set k =
     (if old_set = 0 then Some (True, k)
      else do {
        (ok, k) \<leftarrow> alloc_page env (t_vm t) old_set k;
        if ok then map_option (Pair True) (put_user (t_vm t) old_set (u64_bytes (sig_mask (receiver_store (k_signals k) (t_receivers t)))) k)
        else Some (False, k)
      })"

definition set_mask ::
  "('f, 's) kenv \<Rightarrow> task \<Rightarrow> 32 word \<Rightarrow> usize \<Rightarrow> ('f, 's) kernel \<Rightarrow> (sys_result \<times> ('f, 's) kernel) option" where
  "set_mask env t how set' k =
     (if set' = 0 then Some (Inr 0, k)
      else do {
        (ok, k) \<leftarrow> alloc_page env (t_vm t) set' k;
        if \<not> ok then Some (Inl EINVAL, k)
        else do {
          bs \<leftarrow> get_user (t_vm t) set' 8 k;
          let receiver = receiver_store (k_signals k) (t_receivers t);
          Some (case new_mask how (sig_mask receiver) (bitset_new (u64_of_bytes bs)) of
                  Some m \<Rightarrow> (Inr 0, set_receivers (t_receivers t) (receiver\<lparr>sig_mask := m\<rparr>) k)
                | None \<Rightarrow> (Inl EINVAL, k))
        }
      })"

definition sys_sigprocmask ::
  "('f, 's) kenv \<Rightarrow> 32 word \<Rightarrow> usize \<Rightarrow> usize \<Rightarrow> usize \<Rightarrow> ('f, 's) kernel \<Rightarrow> (sys_result \<times> ('f, 's) kernel) option" where
  "sys_sigprocmask env how set' old_set sigsetsize k =
     (if sigsetsize \<noteq> SIGSET_SIZE_IN_BYTE then Some (Inl EINVAL, k)
      else do {
        (a, t) \<leftarrow> current_task k;
        lock_at (t_receivers t) k;
        (ok, k) \<leftarrow> store_old_mask env t old_set k;
        if ok then set_mask env t how set' k else Some (Inl EINVAL, k)
      })"

definition size_of_sig_action :: usize where "size_of_sig_action = 32"

definition sig_action_bytes :: "sig_action \<Rightarrow> byte list" where
  "sig_action_bytes s = u64_bytes (sa_handler s) @ u64_bytes (sa_flags s) @ u64_bytes (sa_restorer s) @ u64_bytes (sa_mask s)"

definition sig_action_of_bytes :: "byte list \<Rightarrow> sig_action" where
  "sig_action_of_bytes bs =
     \<lparr>sa_handler = u64_of_bytes (take 8 bs), sa_flags = u64_of_bytes (take 8 (drop 8 bs)),
      sa_restorer = u64_of_bytes (take 8 (drop 16 bs)), sa_mask = u64_of_bytes (take 8 (drop 24 bs))\<rparr>"

text \<open>\<^verbatim>\<open>manually_alloc_page\<close> for the first and the last byte of a structure.\<close>

definition alloc_sig_action :: "('f, 's) kenv \<Rightarrow> nat \<Rightarrow> usize \<Rightarrow> ('f, 's) kernel \<Rightarrow> (bool \<times> ('f, 's) kernel) option" where
  "alloc_sig_action env v va k = do {
     (ok, k) \<leftarrow> alloc_page env v va k;
     if ok then alloc_page env v (va + size_of_sig_action - 1) k else Some (False, k)
   }"

text \<open>The two halves of \<^verbatim>\<open>sys_sigaction\<close>; \<^verbatim>\<open>get_action\<close> writes only if there is an action.\<close>

definition store_old_action ::
  "('f, 's) kenv \<Rightarrow> task \<Rightarrow> usize \<Rightarrow> usize \<Rightarrow> ('f, 's) kernel \<Rightarrow> (bool \<times> ('f, 's) kernel) option" where
  "store_old_action env t signum old_action k =
     (if old_action = 0 then Some (True, k)
      else do {
        (ok, k) \<leftarrow> alloc_sig_action env (t_vm t) old_action k;
        if ok then do {
          act \<leftarrow> at (actions (k_handlers k (t_handlers t))) (unat (signum - 1));
          (case act of
             Some act \<Rightarrow> map_option (Pair True) (put_user (t_vm t) old_action (sig_action_bytes act) k)
           | None \<Rightarrow> Some (True, k))
        }
        else Some (False, k)
      })"

definition set_new_action ::
  "('f, 's) kenv \<Rightarrow> task \<Rightarrow> usize \<Rightarrow> usize \<Rightarrow> ('f, 's) kernel \<Rightarrow> (sys_result \<times> ('f, 's) kernel) option" where
  "set_new_action env t signum action k =
     (if action = 0 then Some (Inr 0, k)
      else do {
        (ok, k) \<leftarrow> alloc_sig_action env (t_vm t) action k;
        if ok then do {
          bs \<leftarrow> get_user (t_vm t) action 32 k;
          hs \<leftarrow> set_action (k_handlers k (t_handlers t)) signum (sig_action_of_bytes bs);
          Some (Inr 0, k\<lparr>k_handlers := (k_handlers k)(t_handlers t := hs)\<rparr>)
        }
        else Some (Inl EINVAL, k)
      })"

definition sys_sigaction ::
  "('f, 's) kenv \<Rightarrow> usize \<Rightarrow> usize \<Rightarrow> usize \<Rightarrow> ('f, 's) kernel \<Rightarrow> (sys_result \<times> ('f, 's) kernel) option" where
  "sys_sigaction env signum action old_action k =
     (if signum = ucast SIGKILL \<or> signum = ucast SIGSTOP then Some (Inl EINVAL, k)
      else do {
        (a, t) \<leftarrow> current_task k;
        lock_at (t_handlers t) k;
        (ok, k) \<leftarrow> store_old_action env t signum old_action k;
        if ok then set_new_action env t signum action k else Some (Inl EINVAL, k)
      })"

subsection \<open>Delivery and return\<close>

text \<open>The current task may handle a signal: \<open>signum\<close> is the next one, and \<open>rs\<close> are the receivers without it.\<close>

definition pending :: "('f, 's) kernel \<Rightarrow> nat \<Rightarrow> task \<Rightarrow> usize \<Rightarrow> signal_receivers \<Rightarrow> bool" where
  "pending k a t signum rs \<longleftrightarrow> k_current k = Some a \<and> k_tasks k a = Some t \<and> t_receivers t \<notin> k_locked k \<and> t_handlers t \<notin> k_locked k \<and>
     get_one_signal (receiver_store (k_signals k) (t_receivers t)) = (Some signum, rs)"

lemma handle_signals_fresh:
  assumes "pending k a t signum rs" "t_saved_cx t = None"
  defines "t' \<equiv> t\<lparr>t_saved_cx := Some (t_trap_cx t), t_siginfo := False\<rparr>"
  shows "handle_signals env k = deliver env a t' signum (sig_mask rs) (set_task a t' (set_receivers (t_receivers t) rs k))"
  using assms(1,2) unfolding t'_def
  by (simp add: pending_def handle_signals_def current_task_def lock_at_def save_trap_cx_if_not_handling_signals_def Let_def)

lemma handle_signals_nested:
  assumes "pending k a t signum rs" "t_saved_cx t \<noteq> None"
  shows "handle_signals env k =
    (if signal_no_from signum = SIGSEGV \<or> signal_no_from signum = SIGBUS
     then abandon env a {t_receivers t, t_handlers t} (- 1) (set_receivers (t_receivers t) rs k)
     else Some (True, set_receivers (t_receivers t) rs k))"
  using assms by (auto simp: pending_def handle_signals_def current_task_def lock_at_def save_trap_cx_if_not_handling_signals_def Let_def)

lemma put_user_keeps: "put_user v va bs k = Some k' \<Longrightarrow> k_tasks k' = k_tasks k \<and> k_current k' = k_current k \<and> k_vms k' = k_vms k"
  by (auto simp: put_user_def split: bind_splits)

lemma enter_handler_regs:
  assumes "enter_handler a signum action m k = Some k'" "k_tasks k a = Some t" "length (tc_x (t_trap_cx t)) = 32"
  shows "\<exists>t'. k_tasks k' a = Some t' \<and> t_saved_cx t' = t_saved_cx t \<and> t_vm t' = t_vm t \<and>
    t_siginfo t' = (flags_contains (sa_flags action) SA_SIGINFO \<or> t_siginfo t) \<and> tc_sepc (t_trap_cx t') = sa_handler action \<and>
    get_a0 (t_trap_cx t') = signum \<and> tc_x (t_trap_cx t') ! 1 = get_restorer action \<and> k_current k' = k_current k"
  using assms
  by (auto simp: enter_handler_def save_if_set_siginfo_def set_task_def set_ra_def set_sp_def set_a0_def get_a0_def set_a1_def set_a2_def set_sepc_def
      Let_def split: bind_splits if_splits dest!: put_user_keeps)

lemma signal_return_loads:
  assumes "k_current k = Some a" "k_tasks k a = Some t" "t_saved_cx t = Some old"
    "get_user (t_vm t) (get_sp (t_trap_cx t) + pc_offset) 8 k = Some bs"
  defines "cx \<equiv> if t_siginfo t then set_sepc (u64_of_bytes bs) old else old"
  shows "signal_return k = Some (get_a0 cx, set_task a (t\<lparr>t_saved_cx := None, t_trap_cx := cx\<rparr>) k)"
  using assms unfolding cx_def
  by (simp add: signal_return_def current_task_def load_trap_cx_if_handling_signals_def get_user_def set_task_def Let_def)

text \<open>C8: Delivery and return of a signal. If the current task is not in a handler and the next signal has a handler, the task
  continues in the handler, with the number of the signal in \<open>a0\<close> and the restorer in \<open>ra\<close>; without \<^verbatim>\<open>SA_SIGINFO\<close> this cannot fail. Whatever the
  handler does to the registers and to memory, returning (by \<^verbatim>\<open>signal_return\<close>) restores exactly the interrupted context, where with \<^verbatim>\<open>SA_SIGINFO\<close> the
  program counter is the one in the user context on the stack, and the task can be interrupted again.\<close>

theorem signal_round_trip:
  assumes p: "pending k a t signum rs" and "t_saved_cx t = None" "length (tc_x (t_trap_cx t)) = 32"
    and act: "get_action_ref (k_handlers k (t_handlers t)) signum = Some (Some action)" "sa_handler action \<noteq> SIG_IGN"
  shows "(\<not> flags_contains (sa_flags action) SA_SIGINFO \<longrightarrow> handle_signals env k \<noteq> None) \<and>
    (\<forall>b k1. handle_signals env k = Some (b, k1) \<longrightarrow> b \<and> (\<exists>t1. k_tasks k1 a = Some t1 \<and>
       tc_sepc (t_trap_cx t1) = sa_handler action \<and> get_a0 (t_trap_cx t1) = signum \<and> tc_x (t_trap_cx t1) ! 1 = get_restorer action \<and>
       (\<forall>cx w bs. let k2 = set_task a (t1\<lparr>t_trap_cx := cx\<rparr>) (k1\<lparr>k_world := w\<rparr>) in
          get_user (t_vm t) (get_sp cx + pc_offset) 8 k2 = Some bs \<longrightarrow>
          (\<exists>k3 t3. signal_return k2 = Some (get_a0 (t_trap_cx t), k3) \<and> k_tasks k3 a = Some t3 \<and> t_saved_cx t3 = None \<and>
             t_trap_cx t3 = (if flags_contains (sa_flags action) SA_SIGINFO then set_sepc (u64_of_bytes bs) (t_trap_cx t) else t_trap_cx t)))))"
proof -
  let ?t = "t\<lparr>t_saved_cx := Some (t_trap_cx t), t_siginfo := False\<rparr>"
  let ?k = "set_task a ?t (set_receivers (t_receivers t) rs k)"
  have k: "k_tasks ?k a = Some ?t" "k_current ?k = Some a" "k_handlers ?k = k_handlers k"
    using p by (simp_all add: set_task_def set_receivers_def pending_def)
  have h: "handle_signals env k = map_option (Pair True) (enter_handler a signum action (sig_mask rs) ?k)"
    unfolding handle_signals_fresh [OF p assms(2)] using act k(3) by (simp add: deliver_def)
  have "\<not> flags_contains (sa_flags action) SA_SIGINFO \<Longrightarrow> handle_signals env k \<noteq> None" unfolding h by (simp add: enter_handler_def k(1) Let_def)
  moreover have "b \<and> (\<exists>t1. k_tasks k1 a = Some t1 \<and>
       tc_sepc (t_trap_cx t1) = sa_handler action \<and> get_a0 (t_trap_cx t1) = signum \<and> tc_x (t_trap_cx t1) ! 1 = get_restorer action \<and>
       (\<forall>cx w bs. let k2 = set_task a (t1\<lparr>t_trap_cx := cx\<rparr>) (k1\<lparr>k_world := w\<rparr>) in
          get_user (t_vm t) (get_sp cx + pc_offset) 8 k2 = Some bs \<longrightarrow>
          (\<exists>k3 t3. signal_return k2 = Some (get_a0 (t_trap_cx t), k3) \<and> k_tasks k3 a = Some t3 \<and> t_saved_cx t3 = None \<and>
             t_trap_cx t3 = (if flags_contains (sa_flags action) SA_SIGINFO then set_sepc (u64_of_bytes bs) (t_trap_cx t) else t_trap_cx t))))"
    if "handle_signals env k = Some (b, k1)" for b k1
  proof -
    have e: "b" "enter_handler a signum action (sig_mask rs) ?k = Some k1" using that h by auto
    obtain t1 where r: "k_tasks k1 a = Some t1" "t_saved_cx t1 = Some (t_trap_cx t)" "t_vm t1 = t_vm t"
      "t_siginfo t1 = flags_contains (sa_flags action) SA_SIGINFO" "tc_sepc (t_trap_cx t1) = sa_handler action" "get_a0 (t_trap_cx t1) = signum"
      "tc_x (t_trap_cx t1) ! 1 = get_restorer action" "k_current k1 = Some a"
      using enter_handler_regs [OF e(2) k(1)] assms(3) k(2) by auto
    have "let k2 = set_task a (t1\<lparr>t_trap_cx := cx\<rparr>) (k1\<lparr>k_world := w\<rparr>) in
          get_user (t_vm t) (get_sp cx + pc_offset) 8 k2 = Some bs \<longrightarrow>
          (\<exists>k3 t3. signal_return k2 = Some (get_a0 (t_trap_cx t), k3) \<and> k_tasks k3 a = Some t3 \<and> t_saved_cx t3 = None \<and>
             t_trap_cx t3 = (if flags_contains (sa_flags action) SA_SIGINFO then set_sepc (u64_of_bytes bs) (t_trap_cx t) else t_trap_cx t))" for cx w bs
      using signal_return_loads [of "set_task a (t1\<lparr>t_trap_cx := cx\<rparr>) (k1\<lparr>k_world := w\<rparr>)" a "t1\<lparr>t_trap_cx := cx\<rparr>" "t_trap_cx t" bs] r(2-4,8)
      by (auto simp: set_task_def Let_def get_a0_def set_sepc_def)
    then show ?thesis using e(1) r by (intro conjI exI [of _ t1] allI) simp_all
  qed
  ultimately show ?thesis by blast
qed

text \<open>C10: An ignored signal stops the delivery of signals. If the action of the next signal is \<^verbatim>\<open>SIG_IGN\<close>, \<^verbatim>\<open>handle_signals\<close> leaves the registers
  alone but keeps a saved context, as if the task were in a handler. In every state in which the task has a saved context, whatever else has changed,
  \<^verbatim>\<open>handle_signals\<close> takes the next pending signal and throws it away, even if it has a handler, and the task keeps its saved context; only \<^verbatim>\<open>SIGSEGV\<close>
  and \<^verbatim>\<open>SIGBUS\<close> are not lost but end the task, even if it has a handler for them.\<close>

theorem ignored_signal_loses_signals:
  assumes p: "pending k a t signum rs" and "t_saved_cx t = None"
    and act: "get_action_ref (k_handlers k (t_handlers t)) signum = Some (Some action)" "sa_handler action = SIG_IGN"
  shows "(\<exists>k1 t1. handle_signals env k = Some (True, k1) \<and> k_current k1 = Some a \<and> k_tasks k1 a = Some t1 \<and> t_trap_cx t1 = t_trap_cx t \<and>
      t_saved_cx t1 = Some (t_trap_cx t)) \<and>
    (\<forall>k2 t2 signum' rs'. pending k2 a t2 signum' rs' \<and> t_saved_cx t2 \<noteq> None \<longrightarrow>
       (if signal_no_from signum' = SIGSEGV \<or> signal_no_from signum' = SIGBUS
        then (\<forall>b k3. handle_signals env k2 = Some (b, k3) \<longrightarrow> \<not> b)
        else handle_signals env k2 = Some (True, set_receivers (t_receivers t2) rs' k2) \<and> k_tasks (set_receivers (t_receivers t2) rs' k2) a = Some t2))"
proof
  let ?t = "t\<lparr>t_saved_cx := Some (t_trap_cx t), t_siginfo := False\<rparr>"
  let ?k = "set_task a ?t (set_receivers (t_receivers t) rs k)"
  have k: "k_tasks ?k a = Some ?t" "k_current ?k = Some a" "k_handlers ?k = k_handlers k"
    using p by (simp_all add: set_task_def set_receivers_def pending_def)
  have "handle_signals env k = Some (True, ?k)" unfolding handle_signals_fresh [OF p assms(2)] using act k(3) by (simp add: deliver_def)
  then show "\<exists>k1 t1. handle_signals env k = Some (True, k1) \<and> k_current k1 = Some a \<and> k_tasks k1 a = Some t1 \<and> t_trap_cx t1 = t_trap_cx t \<and>
      t_saved_cx t1 = Some (t_trap_cx t)"
    using k(1,2) by (intro exI [of _ ?k] exI [of _ ?t]) simp
  show "\<forall>k2 t2 signum' rs'. pending k2 a t2 signum' rs' \<and> t_saved_cx t2 \<noteq> None \<longrightarrow>
       (if signal_no_from signum' = SIGSEGV \<or> signal_no_from signum' = SIGBUS
        then (\<forall>b k3. handle_signals env k2 = Some (b, k3) \<longrightarrow> \<not> b)
        else handle_signals env k2 = Some (True, set_receivers (t_receivers t2) rs' k2) \<and> k_tasks (set_receivers (t_receivers t2) rs' k2) a = Some t2)"
    using handle_signals_nested [of _ a _ _ _ env] by (auto simp: abandon_def set_receivers_def pending_def)
qed

subsection \<open>Witnesses\<close>

text \<open>A kernel with one running task. Every byte of memory is \<open>0x0f\<close>, so every address is mapped, readable and writable.\<close>

definition demo_cx :: trap_context where
  "demo_cx = \<lparr>tc_x = replicate 32 0, tc_sstatus = 0, tc_sepc = 0x1000, tc_cpu_id = 0, tc_fs = [0, 0]\<rparr>"

definition demo_task :: task where
  "demo_task = \<lparr>t_kernel_stack = \<lparr>start_paddr = 0, frame_count = 0\<rparr>, t_pid = 2, t_tid = 2, t_sigchld = True, t_handlers = 1, t_receivers = 2,
     t_vm = 3, t_fds = 4, t_time = time_stat_new 0 2, t_dir = ROOT_DIR, t_ppid = NO_PARENT, t_heap_top = USER_STACK_OFFSET, t_status = Running,
     t_cx = zero_init, t_parent = None, t_children = [], t_exit_code = 0, t_set_child_tid = 0, t_clear_child_tid = 0, t_saved_cx = None,
     t_siginfo = False, t_trap_cx = demo_cx\<rparr>"

definition demo_world :: "unit area_world" where
  "demo_world = (\<lparr>frame_allocator = DEFAULT (BitAlloc16M ref_bit_field), mem = (\<lambda>_. 0x0f)\<rparr>, ())"

definition demo_kernel :: "sig_action \<Rightarrow> bitset \<Rightarrow> (unit, unit) kernel" where
  "demo_kernel action received =
     \<lparr>k_tasks = [0 \<mapsto> demo_task], k_next = 5, k_queue = sched_new, k_current = Some 0, k_board = [], k_loop = loop_counter_init,
      k_signals = \<lparr>tid2signals = [2 \<mapsto> 2], receiver_store = (\<lambda>_. \<lparr>sig_mask = 0, sig_received = received\<rparr>)\<rparr>,
      k_handlers = (\<lambda>_. \<lparr>actions = replicate 64 (Some action)\<rparr>),
      k_vms = (\<lambda>_. \<lparr>area_map = ram_new 0, ms_pt = \<lparr>root_paddr = 0, frames = []\<rparr>, ms_is_user = True\<rparr>),
      k_fds = (\<lambda>_. \<lparr>files = [], fd_allocator = DEFAULT (BitAlloc256 ref_bit_field), limit = 0, umask = 0\<rparr>),
      k_tids = DEFAULT (BitAlloc4K ref_bit_field), k_leaked = {}, k_locked = {}, k_cases = [], k_tests = test_status_new [], k_world = demo_world\<rparr>"

lemma first_of_word: "find_first_one 0x200 0 = Some 9"
  by (simp add: find_first_one_def get_trailing_zeros_def upt_rec bit_simps)

lemma demo_pending:
  "pending (demo_kernel action 0x200) 0 demo_task 10 \<lparr>sig_mask = 0, sig_received = 0\<rparr>"
  by (simp add: pending_def demo_kernel_def demo_task_def get_one_signal_def first_of_word remove_bit_def shift_amount_def)

theorem signal_round_trip_witness:
  "\<forall>env :: (unit, unit) kenv. \<exists>k1 t1. handle_signals env (demo_kernel \<lparr>sa_handler = 0x2000, sa_flags = 0, sa_restorer = 0, sa_mask = 0\<rparr> 0x200) = Some (True, k1) \<and>
     k_tasks k1 0 = Some t1 \<and> tc_sepc (t_trap_cx t1) = 0x2000 \<and> get_a0 (t_trap_cx t1) = 10"
proof
  fix env :: "(unit, unit) kenv"
  let ?act = "\<lparr>sa_handler = 0x2000, sa_flags = 0, sa_restorer = 0, sa_mask = 0\<rparr>"
  have a: "get_action_ref (k_handlers (demo_kernel ?act 0x200) (t_handlers demo_task)) 10 = Some (Some ?act)"
    by (simp add: demo_kernel_def get_action_ref_def at_def SIG_DFL_def)
  have "sa_handler ?act \<noteq> SIG_IGN" "\<not> flags_contains (sa_flags ?act) SA_SIGINFO" by (simp_all add: SIG_IGN_def flags_contains_def SA_SIGINFO_def)
  with signal_round_trip [OF demo_pending _ _ a, of env] show "\<exists>k1 t1. handle_signals env (demo_kernel ?act 0x200) = Some (True, k1) \<and>
     k_tasks k1 0 = Some t1 \<and> tc_sepc (t_trap_cx t1) = 0x2000 \<and> get_a0 (t_trap_cx t1) = 10"
    by (auto simp: demo_task_def demo_cx_def)
qed

text \<open>After the ignored signal 10, a second one is lost.\<close>

theorem ignored_signal_loses_signals_witness:
  "\<forall>env :: (unit, unit) kenv. \<exists>k1 t1 k3. handle_signals env (demo_kernel \<lparr>sa_handler = SIG_IGN, sa_flags = 0, sa_restorer = 0, sa_mask = 0\<rparr> 0x200) = Some (True, k1) \<and>
     k_tasks k1 0 = Some t1 \<and> t_saved_cx t1 = Some demo_cx \<and>
     handle_signals env (set_task 0 (demo_task\<lparr>t_saved_cx := Some demo_cx\<rparr>) (demo_kernel \<lparr>sa_handler = 0x2000, sa_flags = 0, sa_restorer = 0, sa_mask = 0\<rparr> 0x200)) = Some (True, k3) \<and>
     k_tasks k3 0 = Some (demo_task\<lparr>t_saved_cx := Some demo_cx\<rparr>) \<and> sig_received (receiver_store (k_signals k3) 2) = 0"
proof
  fix env :: "(unit, unit) kenv"
  let ?act = "\<lparr>sa_handler = SIG_IGN, sa_flags = 0, sa_restorer = 0, sa_mask = 0\<rparr>" and ?t = "demo_task\<lparr>t_saved_cx := Some demo_cx\<rparr>"
  let ?k2 = "set_task 0 ?t (demo_kernel \<lparr>sa_handler = 0x2000, sa_flags = 0, sa_restorer = 0, sa_mask = 0\<rparr> 0x200)" and ?rs = "\<lparr>sig_mask = 0, sig_received = 0\<rparr>"
  have "get_action_ref (k_handlers (demo_kernel ?act 0x200) (t_handlers demo_task)) 10 = Some (Some ?act)"
    by (simp add: demo_kernel_def get_action_ref_def at_def SIG_DFL_def SIG_IGN_def)
  note lost = ignored_signal_loses_signals [OF demo_pending _ this, of env]
  have "pending ?k2 0 ?t 10 ?rs" using demo_pending by (simp add: pending_def set_task_def demo_task_def demo_kernel_def)
  moreover have "signal_no_from 10 \<noteq> SIGSEGV" "signal_no_from 10 \<noteq> SIGBUS" by (simp_all add: signal_no_from_def SIGSEGV_def SIGBUS_def)
  ultimately have "handle_signals env ?k2 = Some (True, set_receivers 2 ?rs ?k2)" "k_tasks (set_receivers 2 ?rs ?k2) 0 = Some ?t"
    using lost by (force simp: demo_task_def)+
  moreover have "sig_received (receiver_store (k_signals (set_receivers 2 ?rs ?k2)) 2) = 0" by (simp add: set_receivers_def)
  moreover have "t_trap_cx demo_task = demo_cx" by (simp add: demo_task_def)
  ultimately show "\<exists>k1 t1 k3. handle_signals env (demo_kernel ?act 0x200) = Some (True, k1) \<and> k_tasks k1 0 = Some t1 \<and> t_saved_cx t1 = Some demo_cx \<and>
     handle_signals env ?k2 = Some (True, k3) \<and> k_tasks k3 0 = Some ?t \<and> sig_received (receiver_store (k_signals k3) 2) = 0"
    using lost by (auto simp: demo_task_def)
qed

end
