(* ===== verification/Syscalls.thy ===== *)
theory Syscalls
  imports Delivery
begin

text \<open>
  The system calls of \<^verbatim>\<open>kernel/src/syscall/process.rs\<close> and \<^verbatim>\<open>kernel/src/syscall/futex\<close>, the strings they read (\<^verbatim>\<open>kernel/src/utils.rs\<close>), the
  dispatch of \<^verbatim>\<open>kernel/src/syscall/mod.rs\<close> with its loop check, and the handler of traps from user mode, \<^verbatim>\<open>kernel/src/trap/mod.rs\<close>.

  A system call that gives up the core inside the kernel goes on when the task runs again: \<open>flow\<close> says how a call leaves the
  kernel's code, so that the part after the switch can be a later step. Files, sockets, polling and clocks are the argument \<open>other\<close> of the
  dispatch. The counter \<^verbatim>\<open>FCOUNT\<close>, which nothing reads, is left out.
\<close>

subsection \<open>Strings in user memory\<close>

text \<open>\<^verbatim>\<open>core::str::from_utf8\<close> accepts exactly the well-formed byte sequences of the Unicode standard.\<close>

definition cont :: "byte \<Rightarrow> bool" where
  "cont b \<longleftrightarrow> 0x80 \<le> b \<and> b \<le> 0xbf"

fun utf8_valid :: "byte list \<Rightarrow> bool" where
  "utf8_valid [] \<longleftrightarrow> True"
| "utf8_valid (a # bs) \<longleftrightarrow>
     (if a < 0x80 then utf8_valid bs
      else if 0xc2 \<le> a \<and> a \<le> 0xdf then (case bs of b # rest \<Rightarrow> cont b \<and> utf8_valid rest | _ \<Rightarrow> False)
      else if 0xe0 \<le> a \<and> a \<le> 0xef then
        (case bs of
           b # c # rest \<Rightarrow>
             cont b \<and> (a = 0xe0 \<longrightarrow> 0xa0 \<le> b) \<and> (a = 0xed \<longrightarrow> b \<le> 0x9f) \<and> cont c \<and> utf8_valid rest
         | _ \<Rightarrow> False)
      else if 0xf0 \<le> a \<and> a \<le> 0xf4 then
        (case bs of
           b # c # d # rest \<Rightarrow>
             cont b \<and> (a = 0xf0 \<longrightarrow> 0x90 \<le> b) \<and> (a = 0xf4 \<longrightarrow> b \<le> 0x8f) \<and> cont c \<and> cont d \<and> utf8_valid rest
         | _ \<Rightarrow> False)
      else False)"

definition string_of_bytes :: "byte list \<Rightarrow> string" where
  "string_of_bytes bs = map (\<lambda>b. char_of (unat b)) bs"

text \<open>The bytes up to the next zero; a fault panics.\<close>

partial_function (option) user_bytes :: "page_table \<Rightarrow> usize \<Rightarrow> machine \<Rightarrow> byte list option" where
  "user_bytes pt p m = do {
     bs \<leftarrow> user_load pt p 1 m;
     if hd bs = 0 then Some [] else do { rest \<leftarrow> user_bytes pt (p + 1) m; Some (hd bs # rest) }
   }"

definition get_str_len :: "page_table \<Rightarrow> usize \<Rightarrow> machine \<Rightarrow> usize option" where
  "get_str_len pt start m = map_option (\<lambda>bs. of_nat (length bs)) (user_bytes pt start m)"

definition raw_ptr_to_ref_str :: "page_table \<Rightarrow> usize \<Rightarrow> machine \<Rightarrow> string option" where
  "raw_ptr_to_ref_str pt start m = do {
     len \<leftarrow> get_str_len pt start m;
     slice \<leftarrow> user_load pt start (unat len) m;
     Some (if utf8_valid slice then string_of_bytes slice else ''p'')
   }"

definition raw_ptr_to_string :: "page_table \<Rightarrow> usize \<Rightarrow> machine \<Rightarrow> string option" where
  "raw_ptr_to_string pt start m = raw_ptr_to_ref_str pt start m"

partial_function (option) str_ptr_array_to_vec_string :: "page_table \<Rightarrow> usize \<Rightarrow> machine \<Rightarrow> string list option" where
  "str_ptr_array_to_vec_string pt ptr_now m = do {
     bs \<leftarrow> user_load pt ptr_now 8 m;
     let p = u64_of_bytes bs;
     if p = 0 then Some []
     else do {
       s \<leftarrow> raw_ptr_to_string pt p m;
       strs \<leftarrow> str_ptr_array_to_vec_string pt (ptr_now + 8) m;
       Some (s # strs)
     }
   }"

subsection \<open>Identifiers, heap and programs\<close>

datatype flow =
    FlowReturn sys_result
  | FlowSuspend sys_result
  | FlowRetry
  | FlowExit
  | FlowRestart

definition sys_exit :: "('f, 's) kenv \<Rightarrow> 32 word \<Rightarrow> ('f, 's) kernel \<Rightarrow> (flow \<times> ('f, 's) kernel) option" where
  "sys_exit env exit_code k = map_option (Pair FlowExit) (exit_current_task env exit_code k)"

definition sys_yield :: "('f, 's) kernel \<Rightarrow> (flow \<times> ('f, 's) kernel) option" where
  "sys_yield k = map_option (Pair (FlowSuspend (Inr 0))) (suspend_current_task k)"

definition sys_getpid :: "('f, 's) kernel \<Rightarrow> sys_result option" where
  "sys_getpid k = do { (_, t) \<leftarrow> current_task k; Some (Inr (of_nat (t_pid t))) }"

definition sys_getppid :: "('f, 's) kernel \<Rightarrow> sys_result option" where
  "sys_getppid k = do { (_, t) \<leftarrow> current_task k; Some (Inr (of_nat (get_ppid t))) }"

definition sys_gettid :: "('f, 's) kernel \<Rightarrow> sys_result option" where
  "sys_gettid k = do { (_, t) \<leftarrow> current_task k; Some (Inr (of_nat (t_tid t))) }"

definition sys_brk :: "usize \<Rightarrow> ('f, 's) kernel \<Rightarrow> (sys_result \<times> ('f, 's) kernel) option" where
  "sys_brk brk k = do {
     (a, t) \<leftarrow> current_task k;
     Some (if brk = 0 then (Inr (t_heap_top t), k)
           else case set_user_heap_top brk t of (new_top, t) \<Rightarrow> (Inr new_top, set_task a t k))
   }"

definition sys_exec :: "('f, 's) kenv \<Rightarrow> usize \<Rightarrow> usize \<Rightarrow> usize \<Rightarrow> ('f, 's) kernel \<Rightarrow> (flow \<times> ('f, 's) kernel) option" where
  "sys_exec env now path args k = do {
     (a, t) \<leftarrow> current_task k;
     let pt = ms_pt (k_vms k (t_vm t));
     app_name \<leftarrow> raw_ptr_to_string pt path (fst (k_world k));
     args \<leftarrow> str_ptr_array_to_vec_string pt args (fst (k_world k));
     (ok, k) \<leftarrow> task_exec env now a app_name args k;
     if ok then Some (FlowRestart, k) else sys_exit env 0 k
   }"

definition sys_execve :: "('f, 's) kenv \<Rightarrow> usize \<Rightarrow> usize \<Rightarrow> usize \<Rightarrow> usize \<Rightarrow> ('f, 's) kernel \<Rightarrow> (flow \<times> ('f, 's) kernel) option" where
  "sys_execve env now path args envs k = sys_exec env now path args k"

text \<open>A round of \<^verbatim>\<open>sys_wait4\<close>; after a suspension it starts again.\<close>

definition sys_wait4 :: "('f, 's) kenv \<Rightarrow> usize \<Rightarrow> usize \<Rightarrow> u32 \<Rightarrow> ('f, 's) kernel \<Rightarrow> (flow \<times> ('f, 's) kernel) option" where
  "sys_wait4 env pid exit_code_ptr option k = do {
     (r, k) \<leftarrow> wait4_round env pid exit_code_ptr option k;
     Some (case r of WaitDone res \<Rightarrow> FlowReturn res | WaitSuspended \<Rightarrow> FlowRetry, k)
   }"

definition sys_set_tid_address :: "usize \<Rightarrow> ('f, 's) kernel \<Rightarrow> (sys_result \<times> ('f, 's) kernel) option" where
  "sys_set_tid_address a' k = do {
     (a, t) \<leftarrow> current_task k;
     let k = set_task a (set_tid_address a' t) k;
     r \<leftarrow> sys_gettid k;
     Some (r, k)
   }"

subsection \<open>Memory\<close>

definition PROT_READ :: u32 where "PROT_READ = push_bit 0 1"
definition PROT_WRITE :: u32 where "PROT_WRITE = push_bit 1 1"
definition PROT_EXEC :: u32 where "PROT_EXEC = push_bit 2 1"
definition MAP_FIXED :: u32 where "MAP_FIXED = push_bit 4 1"
definition MAP_ANONYMOUS :: u32 where "MAP_ANONYMOUS = push_bit 5 1"
definition MS_INVALIDATE :: u32 where "MS_INVALIDATE = push_bit 1 1"
definition USE_MSYNC :: bool where "USE_MSYNC = True"

definition prot_into_flags :: "u32 \<Rightarrow> pte_flags" where
  "prot_into_flags self =
     (let flag = USER;
          flag = (if flags_contains self PROT_READ then flag OR READ else flag);
          flag = (if flags_contains self PROT_WRITE then flag OR WRITE else flag)
      in if flags_contains self PROT_EXEC then flag OR EXECUTE else flag)"

definition prot_into_policy :: "u32 \<Rightarrow> sync_policy" where
  "prot_into_policy self =
     (if flags_contains self PROT_READ \<and> flags_contains self PROT_WRITE then SyncReadWrite
      else if flags_contains self PROT_WRITE then SyncWrite
      else SyncRead)"

definition task_mmap ::
  "('f, 's) kenv \<Rightarrow> task \<Rightarrow> usize \<Rightarrow> usize \<Rightarrow> pte_flags \<Rightarrow> 'f backend_file option \<Rightarrow> bool \<Rightarrow> ('f, 's) kernel \<Rightarrow>
     (usize option \<times> ('f, 's) kernel) option" where
  "task_mmap env self start end' fl backend anywhere k = do {
     (r, ms, w) \<leftarrow> push_with_backend (e_bf env) (e_fo env) (k_vms k (t_vm self)) start end' fl backend anywhere (k_world k);
     Some (case r of Inr s \<Rightarrow> Some s | Inl _ \<Rightarrow> None, k\<lparr>k_vms := (k_vms k)(t_vm self := ms), k_world := w\<rparr>)
   }"

definition sys_mmap ::
  "('f, 's) kenv \<Rightarrow> usize \<Rightarrow> usize \<Rightarrow> u32 \<Rightarrow> u32 \<Rightarrow> 32 word \<Rightarrow> usize \<Rightarrow> ('f, 's) kernel \<Rightarrow> (sys_result \<times> ('f, 's) kernel) option" where
  "sys_mmap env start len prot fl fd offset k =
     (let len = align_up (start + len) - align_down start; start = align_down start
      in if start = 0 \<and> flags_contains fl MAP_FIXED then Some (Inl EINVAL, k)
         else do {
           let anywhere = (start = 0 \<or> \<not> flags_contains fl MAP_FIXED);
           (a, task) \<leftarrow> current_task k;
           let answer = (\<lambda>(r, k). (case r of Some s \<Rightarrow> Inr s | None \<Rightarrow> Inl EINVAL, k));
           if flags_contains fl MAP_ANONYMOUS then
             (if fd = - 1 \<and> offset = 0
              then map_option answer (task_mmap env task start (start + len) (prot_into_flags prot) None anywhere k)
              else Some (Inl EINVAL, k))
           else (case get_file (k_fds k (t_fds task)) (unat (scast fd :: usize)) of
               Inl _ \<Rightarrow> Some (Inl EINVAL, k)
             | Inr f \<Rightarrow> do {
                 (r, w) \<leftarrow> f_seek (e_fo env) f (SeekStart offset) (k_world k);
                 let k = k\<lparr>k_world := w\<rparr>;
                 (case r of
                    None \<Rightarrow> Some (Inl EINVAL, k)
                  | Some _ \<Rightarrow>
                      map_option answer
                        (task_mmap env task start (start + len) (prot_into_flags prot)
                           (Some (backend_new f offset (prot_into_policy prot))) anywhere k))
               })
         })"

definition sys_munmap :: "('f, 's) kenv \<Rightarrow> usize \<Rightarrow> usize \<Rightarrow> ('f, 's) kernel \<Rightarrow> (sys_result \<times> ('f, 's) kernel) option" where
  "sys_munmap env start len k = do {
     (a, t) \<leftarrow> current_task k;
     (ok, ms, w) \<leftarrow> munmap (e_bf env) (e_fo env) (k_vms k (t_vm t)) start (start + len) (k_world k);
     Some (if ok then Inr 0 else Inl EINVAL, k\<lparr>k_vms := (k_vms k)(t_vm t := ms), k_world := w\<rparr>)
   }"

definition sys_mprotect :: "('f, 's) kenv \<Rightarrow> usize \<Rightarrow> usize \<Rightarrow> u32 \<Rightarrow> ('f, 's) kernel \<Rightarrow> (sys_result \<times> ('f, 's) kernel) option" where
  "sys_mprotect env start len prot k = do {
     (a, t) \<leftarrow> current_task k;
     (ok, ms, w) \<leftarrow> mprotect (e_bf env) (e_fo env) (k_vms k (t_vm t)) start (start + len) (prot_into_flags prot) (k_world k);
     Some (if ok then Inr 0 else Inl EINVAL, k\<lparr>k_vms := (k_vms k)(t_vm t := ms), k_world := w\<rparr>)
   }"

definition sys_msync :: "('f, 's) kenv \<Rightarrow> usize \<Rightarrow> usize \<Rightarrow> u32 \<Rightarrow> ('f, 's) kernel \<Rightarrow> (sys_result \<times> ('f, 's) kernel) option" where
  "sys_msync env start len fl k =
     (if \<not> USE_MSYNC then Some (Inr 0, k)
      else if page_offset start \<noteq> 0 \<or> page_offset (start + len) \<noteq> 0 then Some (Inl EINVAL, k)
      else if flags_contains fl MS_INVALIDATE then Some (Inr 0, k)
      else do {
        (a, t) \<leftarrow> current_task k;
        (r, w) \<leftarrow> msync_areas (e_fo env) (k_vms k (t_vm t)) start (start + len) (k_world k);
        Some (case r of Inr _ \<Rightarrow> Inr 0 | Inl _ \<Rightarrow> Inl ENOMEM, k\<lparr>k_world := w\<rparr>)
      })"

subsection \<open>Information and limits\<close>

text \<open>The six strings of \<^verbatim>\<open>UtsName\<close>, padded with zeros to 65 bytes.\<close>

definition uts_from_str :: "string \<Rightarrow> byte list" where
  "uts_from_str info = map (\<lambda>c. of_nat (of_char c)) info @ replicate (65 - length info) 0"

definition uts_name_default :: "byte list" where
  "uts_name_default =
     concat (map uts_from_str
       [''MaturinOS'', ''MaturinOS - machine[0]'', ''233'', ''1.0'', ''RISC-V 64 on SIFIVE FU740'',
        ''https://github.com/scPointer/maturin''])"

definition sys_uname :: "usize \<Rightarrow> ('f, 's) kernel \<Rightarrow> (sys_result \<times> ('f, 's) kernel) option" where
  "sys_uname uts k = do {
     (a, t) \<leftarrow> current_task k;
     k \<leftarrow> put_user (t_vm t) uts uts_name_default k;
     Some (Inr 0, k)
   }"

text \<open>\<^verbatim>\<open>size_of::<SysInfo>()\<close>; \<^verbatim>\<open>uptime\<close> is its first field. \<open>t\<close> is the time register.\<close>

definition size_of_sys_info :: usize where "size_of_sys_info = 112"

definition sys_sysinfo :: "('f, 's) kenv \<Rightarrow> usize \<Rightarrow> usize \<Rightarrow> ('f, 's) kernel \<Rightarrow> (sys_result \<times> ('f, 's) kernel) option" where
  "sys_sysinfo env t info k = do {
     (a, task) \<leftarrow> current_task k;
     (r, ms, w) \<leftarrow> manually_alloc_type (e_bf env) (e_fo env) size_of_sys_info (k_vms k (t_vm task)) info (k_world k);
     let k = k\<lparr>k_vms := (k_vms k)(t_vm task := ms), k_world := w\<rparr>;
     (case r of
        Inl _ \<Rightarrow> Some (Inl EFAULT, k)
      | Inr _ \<Rightarrow> do { k \<leftarrow> put_user (t_vm task) info (u64_bytes (get_time_sec t)) k; Some (Inr 0, k) })
   }"

definition sys_getuid :: sys_result where "sys_getuid = Inr 0"
definition sys_geteuid :: sys_result where "sys_geteuid = Inr 0"
definition sys_getgid :: sys_result where "sys_getgid = Inr 0"
definition sys_getegid :: sys_result where "sys_getegid = Inr 0"

definition RLIMIT_STACK :: "32 word" where "RLIMIT_STACK = 3"
definition RLIMIT_NOFILE :: "32 word" where "RLIMIT_NOFILE = 7"
definition RLIMIT_AS :: "32 word" where "RLIMIT_AS = 9"

text \<open>An \<^verbatim>\<open>RLimit\<close> with both limits equal, written to \<open>p\<close> unless that is null.\<close>

definition put_rlimit :: "nat \<Rightarrow> usize \<Rightarrow> u64 \<Rightarrow> ('f, 's) kernel \<Rightarrow> ('f, 's) kernel option" where
  "put_rlimit v p x k = (if p \<noteq> 0 then put_user v p (u64_bytes x @ u64_bytes x) k else Some k)"

definition sys_prlimt64 ::
  "('f, 's) kenv \<Rightarrow> usize \<Rightarrow> 32 word \<Rightarrow> usize \<Rightarrow> usize \<Rightarrow> ('f, 's) kernel \<Rightarrow> (sys_result \<times> ('f, 's) kernel) option" where
  "sys_prlimt64 env pid resource new_limit old_limit k =
     (if pid \<noteq> 0 then Some (Inr 0, k)
      else do {
        (a, t) \<leftarrow> current_task k;
        k \<leftarrow> (if resource = RLIMIT_STACK then put_rlimit (t_vm t) old_limit USER_STACK_SIZE k
              else if resource = RLIMIT_NOFILE then do {
                k \<leftarrow> put_rlimit (t_vm t) old_limit (of_nat (get_limit (k_fds k (t_fds t)))) k;
                if new_limit \<noteq> 0 then do {
                  bs \<leftarrow> get_user (t_vm t) new_limit 8 k;
                  fdm \<leftarrow> modify_limit (e_bf env) (k_fds k (t_fds t)) (unat (u64_of_bytes bs));
                  Some (k\<lparr>k_fds := (k_fds k)(t_fds t := fdm)\<rparr>)
                }
                else Some k
              }
              else if resource = RLIMIT_AS then put_rlimit (t_vm t) old_limit USER_VIRT_ADDR_LIMIT k
              else Some k);
        Some (Inr 0, k)
      })"

subsection \<open>Futex\<close>

definition time_spec_of_bytes :: "byte list \<Rightarrow> time_spec" where
  "time_spec_of_bytes bs = \<lparr>tv_sec = u64_of_bytes (take 8 bs), tv_nsec = u64_of_bytes (take 8 (drop 8 bs))\<rparr>"

text \<open>The time limit of a wait: the given one if its page is there, else 0.\<close>

definition futex_timeout :: "('f, 's) kenv \<Rightarrow> nat \<Rightarrow> usize \<Rightarrow> ('f, 's) kernel \<Rightarrow> (usize option \<times> ('f, 's) kernel) option" where
  "futex_timeout env v val2 k = do {
     (ok, k) \<leftarrow> (if val2 \<noteq> 0 then alloc_page env v val2 k else Some (False, k));
     if ok then do {
       bs \<leftarrow> get_user v val2 16 k;
       Some (Some (tv_into_us (tv_from_ts (time_spec_of_bytes bs))), k)
     }
     else Some (Some 0, k)
   }"

definition sys_futex ::
  "('f, 's) kenv \<Rightarrow> usize \<Rightarrow> futex_flag \<Rightarrow> u32 \<Rightarrow> usize \<Rightarrow> usize \<Rightarrow> u32 \<Rightarrow> ('f, 's) kernel \<Rightarrow> (flow \<times> ('f, 's) kernel) option" where
  "sys_futex env uaddr flag val val2 uaddr2 val3 k = do {
     (a, task) \<leftarrow> current_task k;
     (case operation flag of
        FutexWAIT \<Rightarrow> do {
          (ok, k) \<leftarrow> alloc_page env (t_vm task) uaddr k;
          if ok then do {
            bs \<leftarrow> get_user (t_vm task) uaddr 4 k;
            if ucast (u64_of_bytes bs) \<noteq> val then Some (FlowReturn (Inl EAGAIN), k)
            else do {
              (timed_out, k) \<leftarrow> futex_timeout env (t_vm task) val2 k;
              let k = k\<lparr>k_board := set_waiter_for_thread (k_board k) (t_tid task) (futex_waiter_new timed_out)\<rparr>;
              map_option (Pair (FlowSuspend (Inr 0))) (suspend_current_task k)
            }
          }
          else Some (FlowReturn (Inl EFAULT), k)
        }
      | FutexWAKE \<Rightarrow> map_option (Pair (FlowSuspend (Inr (ucast val)))) (suspend_current_task k)
      | _ \<Rightarrow> Some (FlowReturn (Inl EINVAL), k))
   }"

subsection \<open>Dispatch\<close>

text \<open>The numbers of \<^verbatim>\<open>SyscallNo\<close>. \<open>SYS_OTHER\<close> are the calls of other modules, \<open>SYS_UNHANDLED\<close> the numbers that \<^verbatim>\<open>syscall\<close> has no case for.\<close>

datatype syscall_no =
    SYS_EPOLL_WAIT | SYS_FSYNC | SYS_EXIT | SYS_EXIT_GROUP | SYS_SET_TID_ADDRESS | SYS_FUTEX | SYS_YIELD | SYS_KILL |
    SYS_TKILL | SYS_SIGACTION | SYS_SIGPROCMASK | SYS_SIGTIMEDWAIT | SYS_SIGRETURN | SYS_UNAME | SYS_GETPID | SYS_GETPPID |
    SYS_GETUID | SYS_GETEUID | SYS_GETGID | SYS_GETEGID | SYS_GETTID | SYS_SYSINFO | SYS_BRK | SYS_MUNMAP | SYS_CLONE |
    SYS_EXECVE | SYS_MMAP | SYS_MPROTECT | SYS_MSYNC | SYS_WAIT4 | SYS_PRLIMIT64 | SYS_MEMBARRIER | SYS_OTHER | SYS_UNHANDLED

definition syscall_no_table :: "(usize \<times> syscall_no) list" where
  "syscall_no_table =
     [(- 1, SYS_UNHANDLED), (17, SYS_OTHER), (20, SYS_OTHER), (21, SYS_OTHER), (22, SYS_EPOLL_WAIT), (23, SYS_OTHER), (24,
      SYS_OTHER), (25, SYS_OTHER), (29, SYS_OTHER), (34, SYS_OTHER), (35, SYS_OTHER), (37, SYS_OTHER), (39, SYS_OTHER), (40,
      SYS_OTHER), (43, SYS_OTHER), (48, SYS_OTHER), (49, SYS_OTHER), (53, SYS_UNHANDLED), (56, SYS_OTHER), (57, SYS_OTHER),
      (59, SYS_OTHER), (61, SYS_OTHER), (62, SYS_OTHER), (63, SYS_OTHER), (64, SYS_OTHER), (65, SYS_OTHER), (66, SYS_OTHER),
      (67, SYS_OTHER), (71, SYS_OTHER), (72, SYS_OTHER), (73, SYS_OTHER), (78, SYS_OTHER), (79, SYS_OTHER), (80, SYS_OTHER),
      (82, SYS_FSYNC), (83, SYS_UNHANDLED), (88, SYS_OTHER), (93, SYS_EXIT), (94, SYS_EXIT_GROUP), (96, SYS_SET_TID_ADDRESS),
      (98, SYS_FUTEX), (99, SYS_UNHANDLED), (100, SYS_UNHANDLED), (101, SYS_OTHER), (102, SYS_OTHER), (103, SYS_OTHER), (113,
      SYS_OTHER), (116, SYS_UNHANDLED), (124, SYS_YIELD), (129, SYS_KILL), (130, SYS_TKILL), (134, SYS_SIGACTION), (135,
      SYS_SIGPROCMASK), (137, SYS_SIGTIMEDWAIT), (139, SYS_SIGRETURN), (153, SYS_OTHER), (160, SYS_UNAME), (165, SYS_OTHER),
      (166, SYS_OTHER), (167, SYS_UNHANDLED), (169, SYS_OTHER), (172, SYS_GETPID), (173, SYS_GETPPID), (174, SYS_GETUID),
      (175, SYS_GETEUID), (176, SYS_GETGID), (177, SYS_GETEGID), (178, SYS_GETTID), (179, SYS_SYSINFO), (198, SYS_OTHER),
      (200, SYS_OTHER), (201, SYS_OTHER), (202, SYS_OTHER), (203, SYS_OTHER), (204, SYS_UNHANDLED), (205, SYS_UNHANDLED),
      (206, SYS_OTHER), (207, SYS_OTHER), (208, SYS_UNHANDLED), (209, SYS_UNHANDLED), (210, SYS_UNHANDLED), (211,
      SYS_UNHANDLED), (212, SYS_UNHANDLED), (214, SYS_BRK), (215, SYS_MUNMAP), (220, SYS_CLONE), (221, SYS_EXECVE), (222,
      SYS_MMAP), (226, SYS_MPROTECT), (227, SYS_MSYNC), (233, SYS_UNHANDLED), (242, SYS_OTHER), (260, SYS_WAIT4), (261,
      SYS_PRLIMIT64), (276, SYS_OTHER), (283, SYS_MEMBARRIER)]"

definition syscall_no_try_from :: "usize \<Rightarrow> syscall_no option" where
  "syscall_no_try_from n = map_of syscall_no_table n"

primrec errno :: "error_no \<Rightarrow> usize" where
  "errno EPERM = - 1"
| "errno ENOENT = - 2"
| "errno ESRCH = - 3"
| "errno EBADF = - 9"
| "errno EAGAIN = - 11"
| "errno ENOMEM = - 12"
| "errno EFAULT = - 14"
| "errno EBUSY = - 16"
| "errno EEXIST = - 17"
| "errno ENOTDIR = - 20"
| "errno EISDIR = - 21"
| "errno EINVAL = - 22"
| "errno EMFILE = - 24"
| "errno ESPIPE = - 29"
| "errno ERANGE = - 34"
| "errno EPFNOSUPPORT = - 96"
| "errno EAFNOSUPPORT = - 97"
| "errno ECONNREFUSED = - 111"

definition sys_value :: "sys_result \<Rightarrow> usize" where
  "sys_value r = (case r of Inl e \<Rightarrow> errno e | Inr a0 \<Rightarrow> a0)"

definition LOOP_EXIT_CODE :: "32 word" where "LOOP_EXIT_CODE = - 100"

text \<open>Whether the process is to be killed, and the counter.\<close>

definition check_dead_loop :: "usize \<Rightarrow> loop_counter \<Rightarrow> bool \<times> loop_counter" where
  "check_dead_loop syscall_id lc =
     (case syscall_no_try_from syscall_id of
        Some SYS_EPOLL_WAIT \<Rightarrow> loop_count lc
      | Some _ \<Rightarrow> (False, lc)
      | None \<Rightarrow> loop_count lc)"

text \<open>\<^verbatim>\<open>from_bits(x).unwrap()\<close> of a set of flags with the bits \<open>all\<close>.\<close>

definition from_bits_unwrap :: "u32 \<Rightarrow> u32 \<Rightarrow> u32 option" where
  "from_bits_unwrap all_bits x = (if x AND NOT all_bits = 0 then Some x else None)"

definition ret :: "(sys_result \<times> ('f, 's) kernel) option \<Rightarrow> (flow \<times> ('f, 's) kernel) option" where
  "ret r = map_option (\<lambda>(x, k). (FlowReturn x, k)) r"

text \<open>\<open>now\<close> is the time in microseconds and \<open>t\<close> the time register.\<close>

definition syscall_match ::
  "('f, 's) kenv \<Rightarrow> (usize \<Rightarrow> usize list \<Rightarrow> ('f, 's) kernel \<Rightarrow> (flow \<times> ('f, 's) kernel) option) \<Rightarrow> usize \<Rightarrow> usize \<Rightarrow> usize \<Rightarrow>
     syscall_no \<Rightarrow> usize list \<Rightarrow> ('f, 's) kernel \<Rightarrow> (flow \<times> ('f, 's) kernel) option" where
  "syscall_match env other now t syscall_id no args k =
     (let a0 = args ! 0; a1 = args ! 1; a2 = args ! 2; a3 = args ! 3; a4 = args ! 4; a5 = args ! 5
      in case no of
        SYS_EXIT \<Rightarrow> sys_exit env (ucast a0) k
      | SYS_EXIT_GROUP \<Rightarrow> sys_exit env (ucast a0) k
      | SYS_SET_TID_ADDRESS \<Rightarrow> ret (sys_set_tid_address a0 k)
      | SYS_FUTEX \<Rightarrow> sys_futex env a0 (ucast a1) (ucast a2) a3 a4 (ucast a5) k
      | SYS_YIELD \<Rightarrow> sys_yield k
      | SYS_KILL \<Rightarrow> ret (Some (sys_kill a0 a1 k))
      | SYS_TKILL \<Rightarrow> ret (Some (sys_tkill a0 a1 k))
      | SYS_SIGACTION \<Rightarrow> ret (sys_sigaction env a0 a1 a2 k)
      | SYS_SIGPROCMASK \<Rightarrow> ret (sys_sigprocmask env (ucast a0) a1 a2 a3 k)
      | SYS_SIGRETURN \<Rightarrow> ret (sys_sigreturn k)
      | SYS_UNAME \<Rightarrow> ret (sys_uname a0 k)
      | SYS_GETPID \<Rightarrow> ret (map_option (\<lambda>r. (r, k)) (sys_getpid k))
      | SYS_GETPPID \<Rightarrow> ret (map_option (\<lambda>r. (r, k)) (sys_getppid k))
      | SYS_GETUID \<Rightarrow> ret (Some (sys_getuid, k))
      | SYS_GETEUID \<Rightarrow> ret (Some (sys_geteuid, k))
      | SYS_GETGID \<Rightarrow> ret (Some (sys_getgid, k))
      | SYS_GETEGID \<Rightarrow> ret (Some (sys_getegid, k))
      | SYS_GETTID \<Rightarrow> ret (map_option (\<lambda>r. (r, k)) (sys_gettid k))
      | SYS_SYSINFO \<Rightarrow> ret (sys_sysinfo env t a0 k)
      | SYS_BRK \<Rightarrow> ret (sys_brk a0 k)
      | SYS_MUNMAP \<Rightarrow> ret (sys_munmap env a0 a1 k)
      | SYS_CLONE \<Rightarrow> ret (sys_clone env now a0 a1 a2 a3 a4 k)
      | SYS_MMAP \<Rightarrow> ret (sys_mmap env a0 a1 (ucast a2 AND 0x7) (ucast a3 AND 0x4033) (ucast a4) a5 k)
      | SYS_MPROTECT \<Rightarrow> do { prot \<leftarrow> from_bits_unwrap 0x7 (ucast a2); ret (sys_mprotect env a0 a1 prot k) }
      | SYS_MSYNC \<Rightarrow> do { fl \<leftarrow> from_bits_unwrap 0x7 (ucast a2); ret (sys_msync env a0 a1 fl k) }
      | SYS_EXECVE \<Rightarrow> sys_execve env now a0 a1 a2 k
      | SYS_WAIT4 \<Rightarrow> do { fl \<leftarrow> from_bits_unwrap 0xb (ucast a2); sys_wait4 env a0 a1 fl k }
      | SYS_PRLIMIT64 \<Rightarrow> ret (sys_prlimt64 env a0 (ucast a1) a2 a3 k)
      | SYS_SIGTIMEDWAIT \<Rightarrow> Some (FlowReturn (Inr 0), k)
      | SYS_MEMBARRIER \<Rightarrow> Some (FlowReturn (Inr 0), k)
      | SYS_FSYNC \<Rightarrow> Some (FlowReturn (Inr 0), k)
      | SYS_EPOLL_WAIT \<Rightarrow> other syscall_id args k
      | SYS_OTHER \<Rightarrow> other syscall_id args k
      | SYS_UNHANDLED \<Rightarrow> Some (FlowReturn (Inr 0), k))"

definition syscall ::
  "('f, 's) kenv \<Rightarrow> (usize \<Rightarrow> usize list \<Rightarrow> ('f, 's) kernel \<Rightarrow> (flow \<times> ('f, 's) kernel) option) \<Rightarrow> usize \<Rightarrow> usize \<Rightarrow>
     usize \<Rightarrow> usize list \<Rightarrow> ('f, 's) kernel \<Rightarrow> (flow \<times> ('f, 's) kernel) option" where
  "syscall env other now t syscall_id args k =
     (case check_dead_loop syscall_id (k_loop k) of
        (True, lc) \<Rightarrow> sys_exit env LOOP_EXIT_CODE (k\<lparr>k_loop := lc\<rparr>)
      | (False, lc) \<Rightarrow>
          (let k = k\<lparr>k_loop := lc\<rparr>
           in case syscall_no_try_from syscall_id of
                None \<Rightarrow> Some (FlowReturn (Inr 0), k)
              | Some no \<Rightarrow> syscall_match env other now t syscall_id no args k))"

subsection \<open>Traps from user mode\<close>

datatype trap_cause =
    UserEnvCall | StoreFault | IllegalInstruction | InstructionPageFault | LoadPageFault | StorePageFault | SupervisorTimer | UnsupportedTrap

text \<open>How a trap goes on: through \<^verbatim>\<open>handle_signals\<close>, directly back to the user, later, after a switch, where a system call
  that was interrupted goes on, or not at all. \<open>TrapRestart\<close> enters a new program.\<close>

datatype trap_next = TrapSignals | TrapReturn | TrapSwitch "flow option" | TrapExit | TrapRestart

definition set_cx :: "(trap_context \<Rightarrow> trap_context) \<Rightarrow> ('f, 's) kernel \<Rightarrow> ('f, 's) kernel option" where
  "set_cx f k = do { (a, t) \<leftarrow> current_task k; Some (set_task a (t\<lparr>t_trap_cx := f (t_trap_cx t)\<rparr>) k) }"

definition set_time :: "(time_stat \<Rightarrow> signal_table \<Rightarrow> time_stat \<times> signal_table) \<Rightarrow> ('f, 's) kernel \<Rightarrow> ('f, 's) kernel option" where
  "set_time f k = do {
     (a, t) \<leftarrow> current_task k;
     let (ts, st) = f (t_time t) (k_signals k);
     Some (set_task a (t\<lparr>t_time := ts\<rparr>) (k\<lparr>k_signals := st\<rparr>))
   }"

definition send_segv :: "('f, 's) kernel \<Rightarrow> ('f, 's) kernel option" where
  "send_segv k = do { (a, t) \<leftarrow> current_task k; Some (k\<lparr>k_signals := send_signal (k_signals k) (of_nat (t_tid t)) (ucast SIGSEGV)\<rparr>) }"

definition handle_user_page_fault ::
  "('f, 's) kenv \<Rightarrow> usize \<Rightarrow> pte_flags \<Rightarrow> ('f, 's) kernel \<Rightarrow> (unit os_result \<times> ('f, 's) kernel) option" where
  "handle_user_page_fault env vaddr access_flags k =
     (case current_task k of
        Some (a, t) \<Rightarrow> do {
          (r, ms, w) \<leftarrow> ms_handle_page_fault (e_bf env) (e_fo env) (k_vms k (t_vm t)) vaddr access_flags (k_world k);
          Some (r, k\<lparr>k_vms := (k_vms k)(t_vm t := ms), k_world := w\<rparr>)
        }
      | None \<Rightarrow> Some (Err Task_NoTrapHandler, k))"

definition page_fault_or_segv ::
  "('f, 's) kenv \<Rightarrow> usize \<Rightarrow> pte_flags \<Rightarrow> ('f, 's) kernel \<Rightarrow> (trap_next \<times> ('f, 's) kernel) option" where
  "page_fault_or_segv env stval fl k = do {
     (r, k) \<leftarrow> handle_user_page_fault env stval fl k;
     (case r of Inl _ \<Rightarrow> map_option (Pair TrapSignals) (send_segv k) | Inr _ \<Rightarrow> Some (TrapSignals, k))
   }"

text \<open>The match on the cause, after both calls of \<^verbatim>\<open>timer_user_to_kernel\<close>.\<close>

definition user_trap_match ::
  "('f, 's) kenv \<Rightarrow> (usize \<Rightarrow> usize list \<Rightarrow> ('f, 's) kernel \<Rightarrow> (flow \<times> ('f, 's) kernel) option) \<Rightarrow> usize \<Rightarrow> usize \<Rightarrow>
     trap_cause \<Rightarrow> usize \<Rightarrow> ('f, 's) kernel \<Rightarrow> (trap_next \<times> ('f, 's) kernel) option" where
  "user_trap_match env other now t cause stval k =
     (case cause of
        UserEnvCall \<Rightarrow> do {
          k \<leftarrow> set_cx (\<lambda>cx. cx\<lparr>tc_sepc := tc_sepc cx + 4\<rparr>) k;
          (_, task) \<leftarrow> current_task k;
          let x = tc_x (t_trap_cx task);
          (f, k) \<leftarrow> syscall env other now t (x ! 17) [x ! 10, x ! 11, x ! 12, x ! 13, x ! 14, x ! 15] k;
          (case f of
             FlowReturn r \<Rightarrow> map_option (Pair TrapSignals) (set_cx (set_a0 (sys_value r)) k)
           | FlowExit \<Rightarrow> Some (TrapExit, k)
           | FlowRestart \<Rightarrow> Some (TrapRestart, k)
           | _ \<Rightarrow> Some (TrapSwitch (Some f), k))
        }
      | StoreFault \<Rightarrow> map_option (Pair TrapSignals) (send_segv k)
      | IllegalInstruction \<Rightarrow> map_option (Pair TrapSignals) (send_segv k)
      | InstructionPageFault \<Rightarrow>
          if stval = SIGNAL_RETURN_TRAP then do {
            (r, k) \<leftarrow> signal_return k;
            map_option (Pair TrapReturn) (set_cx (set_a0 r) k)
          }
          else page_fault_or_segv env stval (USER OR EXECUTE) k
      | LoadPageFault \<Rightarrow> page_fault_or_segv env stval (USER OR READ) k
      | StorePageFault \<Rightarrow> page_fault_or_segv env stval (USER OR WRITE) k
      | SupervisorTimer \<Rightarrow> map_option (Pair (TrapSwitch None)) (suspend_current_task k)
      | UnsupportedTrap \<Rightarrow> None)"

text \<open>\<^verbatim>\<open>trap_handler\<close> up to the point where it is known how the trap goes on; \<open>now0\<close> and \<open>now1\<close> are the readings of the clock.\<close>

definition trap_enter ::
  "('f, 's) kenv \<Rightarrow> (usize \<Rightarrow> usize list \<Rightarrow> ('f, 's) kernel \<Rightarrow> (flow \<times> ('f, 's) kernel) option) \<Rightarrow> usize \<Rightarrow> usize \<Rightarrow> usize \<Rightarrow>
     trap_cause \<Rightarrow> usize \<Rightarrow> ('f, 's) kernel \<Rightarrow> (trap_next \<times> ('f, 's) kernel) option" where
  "trap_enter env other now0 now1 t cause stval k = do {
     k \<leftarrow> set_time (timer_user_to_kernel now0) k;
     k \<leftarrow> set_time (timer_user_to_kernel now1) k;
     user_trap_match env other now1 t cause stval k
   }"

text \<open>The end of \<^verbatim>\<open>trap_handler\<close>: signals, if they are to be handled, then the clock; the answer is whether the user runs again.\<close>

definition trap_leave :: "('f, 's) kenv \<Rightarrow> usize \<Rightarrow> bool \<Rightarrow> ('f, 's) kernel \<Rightarrow> (bool \<times> ('f, 's) kernel) option" where
  "trap_leave env now signals k = do {
     (back, k) \<leftarrow> (if signals then handle_signals env k else Some (True, k));
     if back then map_option (Pair True) (set_time (timer_kernel_to_user now) k) else Some (False, k)
   }"

subsection \<open>The system call sigreturn\<close>

lemma syscall_sigreturn: "syscall env other now t 139 args k = ret (sys_sigreturn (k\<lparr>k_loop := k_loop k\<rparr>))"
  by (simp add: syscall_def check_dead_loop_def syscall_no_try_from_def syscall_no_table_def syscall_match_def Let_def)

lemma get_user_cong: "ms_pt (k_vms k' v) = ms_pt (k_vms k v) \<Longrightarrow> k_world k' = k_world k \<Longrightarrow> get_user v va n k' = get_user v va n k"
  by (simp add: get_user_def)

text \<open>C9: The system call \<^verbatim>\<open>sigreturn\<close> (number 139) resumes the interrupted program: all registers are as before the handler, and the program counter is
  the saved one (or, with \<^verbatim>\<open>SA_SIGINFO\<close>, the one on the user's stack). There is one exception: if the interrupted program had \<open>- 1\<close> in \<open>a0\<close>, for
  example as the error \<^verbatim>\<open>EPERM\<close> of an interrupted system call, it finds \<open>- 22\<close> there, because \<^verbatim>\<open>sys_sigreturn\<close> takes \<open>- 1\<close> for a failure.\<close>

theorem sigreturn_restores_context:
  assumes "k_current k = Some a" "k_tasks k a = Some task" "t_saved_cx task = Some old" "length (tc_x old) = 32"
    "tc_x (t_trap_cx task) ! 17 = 139" "get_user (t_vm task) (get_sp (t_trap_cx task) + pc_offset) 8 k = Some bs"
  defines "cx \<equiv> if t_siginfo task then set_sepc (u64_of_bytes bs) old else old"
  shows "\<exists>k' task'. user_trap_match env other now t UserEnvCall stval k = Some (TrapSignals, k') \<and> k_tasks k' a = Some task' \<and>
    t_saved_cx task' = None \<and> t_trap_cx task' = (if get_a0 cx = - 1 then set_a0 (- 22) cx else cx)"
proof -
  let ?t = "task\<lparr>t_trap_cx := (t_trap_cx task)\<lparr>tc_sepc := tc_sepc (t_trap_cx task) + 4\<rparr>\<rparr>"
  let ?k = "(set_task a ?t k)\<lparr>k_loop := k_loop k\<rparr>"
  have g: "get_sp (t_trap_cx ?t) = get_sp (t_trap_cx task)" by (simp add: get_sp_def)
  have u: "get_user (t_vm ?t) (get_sp (t_trap_cx ?t) + pc_offset) 8 ?k = Some bs"
    unfolding g using assms(6) by (subst get_user_cong [where k = k]) (simp_all add: set_task_def)
  have "signal_return ?k = Some (get_a0 cx, set_task a (?t\<lparr>t_saved_cx := None, t_trap_cx := cx\<rparr>) ?k)"
    unfolding cx_def using signal_return_loads [of ?k a ?t old bs] u assms(1,3) by (simp add: set_task_def)
  then have s: "sys_sigreturn ?k = Some (if get_a0 cx = - 1 then Inl EINVAL else Inr (get_a0 cx),
      set_task a (?t\<lparr>t_saved_cx := None, t_trap_cx := cx\<rparr>) ?k)" by (simp add: sys_sigreturn_def)
  have same: "set_a0 (get_a0 cx) cx = cx" by (simp add: set_a0_def get_a0_def)
  show ?thesis
    using assms(1,2,5) s same
    by (simp add: user_trap_match_def set_cx_def current_task_def set_task_def syscall_sigreturn ret_def sys_value_def Let_def split del: if_split)
      (simp add: fun_upd_same split: if_split)
qed

definition demo_sigreturn :: "(unit, unit) kernel" where
  "demo_sigreturn = set_task 0 (demo_task\<lparr>t_saved_cx := Some (set_a0 (- 1) demo_cx), t_trap_cx := demo_cx\<lparr>tc_x := (replicate 32 0)[17 := 139]\<rparr>\<rparr>)
     (demo_kernel \<lparr>sa_handler = 0x2000, sa_flags = 0, sa_restorer = 0, sa_mask = 0\<rparr> 0)"

lemma demo_user_load: "user_load \<lparr>root_paddr = 0, frames = []\<rparr> p 8 (fst demo_world) = Some (replicate 8 0x0f)"
proof -
  have r: "load_pte (fst demo_world) q = \<lparr>bits = 0x0f0f0f0f0f0f0f0f\<rparr>" for q
    by (simp add: load_pte_def read_u64_def demo_world_def upt_rec)
  have "pt_lookup \<lparr>root_paddr = 0, frames = []\<rparr> q (fst demo_world) = Some (addr \<lparr>bits = 0x0f0f0f0f0f0f0f0f\<rparr>, 0x0f)" for q
    by (simp add: pt_lookup_def find_pte_def r is_valid_def flags_def VALID_def Let_def split: prod.split)
  then have "user_load \<lparr>root_paddr = 0, frames = []\<rparr> q n (fst demo_world) = Some (replicate n 0x0f)" for q n
    by (induction n arbitrary: q) (simp_all add: flags_contains_def READ_def demo_world_def)
  then show ?thesis .
qed

theorem sigreturn_restores_context_witness:
  "\<forall>env other now t stval. \<exists>k' task'. user_trap_match env other now t UserEnvCall stval demo_sigreturn = Some (TrapSignals, k') \<and>
     k_tasks k' 0 = Some task' \<and> t_trap_cx task' = set_a0 (- 22) (set_a0 (- 1) demo_cx)"
proof (intro allI)
  fix env :: "(unit, unit) kenv" and other now t stval
  let ?task = "demo_task\<lparr>t_saved_cx := Some (set_a0 (- 1) demo_cx), t_trap_cx := demo_cx\<lparr>tc_x := (replicate 32 0)[17 := 139]\<rparr>\<rparr>"
  have k: "k_current demo_sigreturn = Some 0" "k_tasks demo_sigreturn 0 = Some ?task" "k_world demo_sigreturn = demo_world"
    "ms_pt (k_vms demo_sigreturn v) = \<lparr>root_paddr = 0, frames = []\<rparr>" for v by (simp_all add: demo_sigreturn_def demo_kernel_def set_task_def)
  have "get_user (t_vm ?task) (get_sp (t_trap_cx ?task) + pc_offset) 8 demo_sigreturn = Some (replicate 8 0x0f)"
    by (simp add: get_user_def k demo_user_load)
  from sigreturn_restores_context [OF k(1,2) _ _ _ this, of "set_a0 (- 1) demo_cx" env other now t stval]
  show "\<exists>k' task'. user_trap_match env other now t UserEnvCall stval demo_sigreturn = Some (TrapSignals, k') \<and>
     k_tasks k' 0 = Some task' \<and> t_trap_cx task' = set_a0 (- 22) (set_a0 (- 1) demo_cx)"
    by (auto simp: demo_task_def demo_cx_def set_a0_def get_a0_def)
qed

end
