(* ===== verification/Processes.thy ===== *)
theory Processes
  imports Tasks
begin

text \<open>
  The invariant of the processes, and that clone, exit, wait and the switches of \<^verbatim>\<open>run_tasks\<close> keep it. \<open>procs_ok\<close> says that the parent and child
  links form a forest, that every task is in exactly one of the states ready (and queued), running (and on the core) and
  zombie (and waited for by a living parent, or leaked), and that the thread ids in use are exactly those of the tasks. Inside an operation
  some tasks are exempt: \<open>procs_inv P Q\<close>.
\<close>

subsection \<open>The invariant\<close>

definition child_of :: "('f, 's) kernel \<Rightarrow> nat \<Rightarrow> nat \<Rightarrow> bool" where
  "child_of k c p \<longleftrightarrow> (\<exists>t. k_tasks k p = Some t \<and> c \<in> set (t_children t))"

definition family_ok :: "('f, 's) kernel \<Rightarrow> bool" where
  "family_ok k \<longleftrightarrow> (\<forall>p t. k_tasks k p = Some t \<longrightarrow> p < k_next k \<and> distinct (t_children t) \<and>
     (\<forall>c \<in> set (t_children t). \<exists>u. k_tasks k c = Some u \<and> p < c \<and> t_parent u = Some p \<and> t_ppid u = t_tid t))"

text \<open>Tasks of \<open>P\<close> and \<open>Q\<close> are held by an operation in progress: those of \<open>P\<close> it is about to release, those of \<open>Q\<close> it still works on.\<close>

definition status_ok :: "nat set \<Rightarrow> nat set \<Rightarrow> ('f, 's) kernel \<Rightarrow> nat \<Rightarrow> task \<Rightarrow> bool" where
  "status_ok P Q k p t \<longleftrightarrow>
     p \<in> set (ready_queue (k_queue k)) \<and> t_status t = Ready \<or>
     k_current k = Some p \<and> t_status t = Running \<or>
     t_status t = Zombie \<and> t_children t = [] \<and> ((\<exists>q. child_of k p q) \<or> p \<in> P \<union> k_leaked k) \<or>
     p \<in> Q"

definition states_ok :: "nat set \<Rightarrow> nat set \<Rightarrow> ('f, 's) kernel \<Rightarrow> bool" where
  "states_ok P Q k \<longleftrightarrow>
     distinct (ready_queue (k_queue k)) \<and>
     (\<forall>p \<in> set (ready_queue (k_queue k)). k_current k \<noteq> Some p \<and> (\<exists>t. k_tasks k p = Some t \<and> t_status t = Ready)) \<and>
     (\<forall>p. k_current k = Some p \<longrightarrow> (\<exists>t. k_tasks k p = Some t \<and> t_status t = Running)) \<and>
     (\<forall>p t. k_tasks k p = Some t \<longrightarrow> status_ok P Q k p t)"

definition tids_ok :: "bit_field16 \<Rightarrow> ('f, 's) kernel \<Rightarrow> bool" where
  "tids_ok bf k \<longleftrightarrow> inv4k bf (k_tids k) \<and> free4k bf (k_tids k) \<subseteq> {2..<TID_LIMIT} \<and>
     inj_on (tid_in k) (dom (k_tasks k)) \<and> tid_in k ` dom (k_tasks k) = {2..<TID_LIMIT} - free4k bf (k_tids k)"

definition procs_inv :: "nat set \<Rightarrow> nat set \<Rightarrow> bit_field16 \<Rightarrow> ('f, 's) kernel \<Rightarrow> bool" where
  "procs_inv P Q bf k \<longleftrightarrow> family_ok k \<and> states_ok P Q k \<and> tids_ok bf k \<and> k_leaked k \<subseteq> dom (k_tasks k)"

definition procs_ok :: "bit_field16 \<Rightarrow> ('f, 's) kernel \<Rightarrow> bool" where
  "procs_ok bf k \<longleftrightarrow> procs_inv {} {} bf k"

subsection \<open>Operations that leave the tasks alone\<close>

definition same_procs :: "('f, 's) kernel \<Rightarrow> ('f, 's) kernel \<Rightarrow> bool" where
  "same_procs k k' \<longleftrightarrow> k_tasks k' = k_tasks k \<and> k_queue k' = k_queue k \<and> k_current k' = k_current k \<and> k_tids k' = k_tids k \<and>
     k_leaked k' = k_leaked k \<and> k_next k \<le> k_next k'"

lemma same_procs_refl [simp]: "same_procs k k"
  by (simp add: same_procs_def)

lemma same_procs_trans [trans]: "same_procs k k' \<Longrightarrow> same_procs k' k'' \<Longrightarrow> same_procs k k''"
  by (simp add: same_procs_def)

lemma same_procs_inv:
  assumes "same_procs k k'" "procs_inv P Q bf k"
  shows "procs_inv P Q bf k'"
proof -
  have e: "k_tasks k' = k_tasks k" "k_queue k' = k_queue k" "k_current k' = k_current k" "k_tids k' = k_tids k" "k_next k \<le> k_next k'"
    "k_leaked k' = k_leaked k" using assms(1) by (simp_all add: same_procs_def)
  then have c: "child_of k' = child_of k" "tid_in k' = tid_in k" by (simp_all add: child_of_def tid_in_def fun_eq_iff)
  have "family_ok k'" using assms(2) e(5) unfolding procs_inv_def family_ok_def e(1) by (meson order_less_le_trans)
  moreover have "states_ok P Q k' = states_ok P Q k" unfolding states_ok_def status_ok_def e(1-3,6) c ..
  moreover have "tids_ok bf k' = tids_ok bf k" unfolding tids_ok_def e(1,4) c ..
  ultimately show ?thesis using assms(2) e(1,6) by (simp add: procs_inv_def)
qed

lemma put_user_same: "put_user v va bs k = Some k' \<Longrightarrow> same_procs k k'"
  by (auto simp: put_user_def same_procs_def split: option.splits bind_splits)

lemma alloc_page_same: "alloc_page env v va k = Some (ok, k') \<Longrightarrow> same_procs k k'"
  by (auto simp: alloc_page_def same_procs_def split: option.splits bind_splits)

lemma put_user_alloc_same: "put_user_alloc env v va bs k = Some k' \<Longrightarrow> same_procs k k'"
  by (auto simp: put_user_alloc_def split: bind_splits if_splits dest!: alloc_page_same put_user_same intro: same_procs_trans)

lemma clone_vm_same: "clone_vm env self fl k = Some (v, k') \<Longrightarrow> same_procs k k'"
  by (auto simp: clone_vm_def same_procs_def Let_def split: if_splits option.splits sum.splits)

lemma clone_fds_same: "clone_fds env self fl k = Some (v, k') \<Longrightarrow> same_procs k k'"
  by (auto simp: clone_fds_def same_procs_def split: if_splits bind_splits)

lemma clone_handlers_same: "clone_handlers self fl k = Some (hs, k') \<Longrightarrow> same_procs k k'"
  by (auto simp: clone_handlers_def same_procs_def split: if_splits bind_splits)

lemma new_receivers_same: "same_procs k (snd (new_receivers tid k))"
  by (simp add: new_receivers_def same_procs_def Let_def)

lemma new_kernel_stack_same: "new_kernel_stack env k = Some (f, k') \<Longrightarrow> same_procs k k'"
  by (auto simp: new_kernel_stack_def same_procs_def split: option.splits sum.splits)

lemma set_parent_tid_same: "set_parent_tid env self fl tid ptid k = Some k' \<Longrightarrow> same_procs k k'"
  by (auto simp: set_parent_tid_def split: if_splits dest: put_user_alloc_same)

lemma set_child_tid_same: "set_child_tid env self vm fl tid ctid k = Some k' \<Longrightarrow> same_procs k k'"
  by (auto simp: set_child_tid_def Let_def split: if_splits bind_splits option.splits prod.splits dest!: put_user_alloc_same alloc_page_same
      simp: same_procs_def)

subsection \<open>A new task\<close>

lemma new_tid_spec:
  assumes "new_tid env k = Some (n, k')"
  obtains tids where "tid_new (e_bf env) (k_tids k) = Some (Some (Tid n), tids)" "k' = k\<lparr>k_tids := tids\<rparr>"
  using assms that by (auto simp: new_tid_def split: option.splits prod.splits tid.splits)

lemma tid_new_takes:
  assumes "inv4k bf a" "free4k bf a \<subseteq> {2..<TID_LIMIT}" "tid_new bf a = Some (Some (Tid n), a')"
  shows "n \<in> free4k bf a" "inv4k bf a'" "free4k bf a' = free4k bf a - {n}"
proof -
  obtain m where m: "least_ge (free4k bf a) 0 = Some m"
    using assms(3) ba4k.alloc_none [OF assms(1)]
    by (cases "least_ge (free4k bf a) 0") (fastforce simp: tid_new_def alloc_tid_def dest: least_ge_NoneD)+
  have mf: "m \<in> free4k bf a" by (rule least_ge_SomeD(1) [OF m])
  obtain b where b: "ba_alloc (BitAlloc4K bf) a = Some (Some m, b)" "inv4k bf b" "free4k bf b = free4k bf a - {m}"
    using ba4k.alloc_some [OF assms(1)] mf m by auto
  have "m < TID_LIMIT" using mf assms(2) by auto
  then have "n = m \<and> a' = b" using assms(3) b(1) by (simp add: tid_new_def alloc_tid_def TID_LIMIT_def)
  then show "n \<in> free4k bf a" "inv4k bf a'" "free4k bf a' = free4k bf a - {n}" using b mf by simp_all
qed

lemma tid_drop_gives:
  assumes "inv4k bf a" "n < TID_LIMIT" "n \<notin> free4k bf a" "tid_drop bf a (Tid n) = Some a'"
  shows "inv4k bf a'" "free4k bf a' = insert n (free4k bf a)"
  using ba4k.dealloc_ok [OF assms(1), of n] assms(2-4) by (auto simp: dealloc_tid_raw_def TID_LIMIT_def)

text \<open>What \<^verbatim>\<open>from_clone\<close> and \<^verbatim>\<open>from_app_name\<close> do to the tasks: a new one at the fresh address \<open>c\<close>, in the family of \<open>par\<close> if that is given.\<close>

definition adds_task :: "bit_field16 \<Rightarrow> nat option \<Rightarrow> nat \<Rightarrow> ('f, 's) kernel \<Rightarrow> ('f, 's) kernel \<Rightarrow> bool" where
  "adds_task bf par c k k' \<longleftrightarrow> (\<exists>new tids. tid_new bf (k_tids k) = Some (Some (Tid (t_tid new)), tids) \<and> k_tids k' = tids \<and>
     k_next k \<le> c \<and> k_next k' = Suc c \<and> k_queue k' = k_queue k \<and> k_current k' = k_current k \<and> k_leaked k' = k_leaked k \<and>
     t_status new = Ready \<and> t_children new = [] \<and>
     (case par of
        None \<Rightarrow> k_tasks k' = (k_tasks k)(c \<mapsto> new)
      | Some a \<Rightarrow> \<exists>self. k_tasks k a = Some self \<and> t_parent new = Some a \<and> t_ppid new = t_tid self \<and>
          k_tasks k' = (k_tasks k)(c \<mapsto> new, a \<mapsto> self\<lparr>t_children := t_children self @ [c]\<rparr>)))"

lemma from_clone_adds:
  assumes "from_clone env now a us sg fl tls ptid ctid k = Some (c, k')"
  shows "adds_task (e_bf env) (if flags_contains fl CLONE_PARENT then None else Some a) c k k'"
proof -
  obtain self where self: "k_tasks k a = Some self" using assms by (auto simp: from_clone_def split: bind_splits)
  obtain vm k1 where k1: "clone_vm env self fl k = Some (vm, k1)" using assms self by (auto simp: from_clone_def split: bind_splits)
  obtain fds k2 where k2: "clone_fds env self fl k1 = Some (fds, k2)" using assms self k1 by (auto simp: from_clone_def split: bind_splits)
  obtain hs k3 where k3: "clone_handlers self fl k2 = Some (hs, k3)" using assms self k1 k2 by (auto simp: from_clone_def split: bind_splits)
  obtain n k4 where k4: "new_tid env k3 = Some (n, k4)" using assms self k1 k2 k3 by (auto simp: from_clone_def split: bind_splits)
  obtain tids where t: "tid_new (e_bf env) (k_tids k3) = Some (Some (Tid n), tids)" "k4 = k3\<lparr>k_tids := tids\<rparr>" by (rule new_tid_spec [OF k4])
  obtain rs k5 where k5: "new_receivers n k4 = (rs, k5)" by fastforce
  obtain stack k6 where k6: "new_kernel_stack env k5 = Some (stack, k6)"
    using assms self k1 k2 k3 k4 k5 by (auto simp: from_clone_def split: bind_splits)
  obtain k7 where k7: "set_parent_tid env self fl n ptid k6 = Some k7"
    using assms self k1 k2 k3 k4 k5 k6 by (auto simp: from_clone_def split: bind_splits)
  obtain k8 where k8: "set_child_tid env self vm fl n ctid k7 = Some k8"
    using assms self k1 k2 k3 k4 k5 k6 k7 by (auto simp: from_clone_def split: bind_splits)
  have before: "same_procs k k3"
    using clone_vm_same [OF k1] clone_fds_same [OF k2] clone_handlers_same [OF k3] by (auto intro: same_procs_trans)
  have after: "same_procs k4 k8"
    using new_receivers_same [of k4 n] k5 new_kernel_stack_same [OF k6] set_parent_tid_same [OF k7] set_child_tid_same [OF k8]
    by (auto intro: same_procs_trans)
  have e: "k_tasks k8 = k_tasks k" "k_queue k8 = k_queue k" "k_current k8 = k_current k" "k_tids k8 = tids" "k_tids k3 = k_tids k" "k_next k \<le> k_next k8" "k_leaked k8 = k_leaked k"
    using before after t(2) by (auto simp: same_procs_def)
  define new where "new = \<lparr>t_kernel_stack = stack, t_pid = (if flags_contains fl CLONE_THREAD then t_pid self else n), t_tid = n,
      t_sigchld = sg, t_handlers = hs, t_receivers = rs, t_vm = vm, t_fds = fds, t_time = time_stat_new now (of_nat n),
      t_dir = t_dir self, t_ppid = (if flags_contains fl CLONE_PARENT then t_ppid self else t_tid self),
      t_heap_top = USER_STACK_OFFSET, t_status = Ready, t_cx = goto_restore (e_restore env) (get_first_context stack),
      t_parent = Some a, t_children = [], t_exit_code = 0,
      t_set_child_tid = (if flags_contains fl CLONE_CHILD_SETTID then ctid else 0),
      t_clear_child_tid = (if flags_contains fl CLONE_CHILD_CLEARTID then ctid else 0),
      t_saved_cx = None, t_siginfo = False, t_trap_cx = clone_context (t_trap_cx self) fl tls us\<rparr>"
  have n: "t_tid new = n" "t_status new = Ready" "t_children new = []" "t_parent new = Some a"
    "\<not> flags_contains fl CLONE_PARENT \<Longrightarrow> t_ppid new = t_tid self" by (simp_all add: new_def)
  have "c = k_next k8" "k' = (if \<not> flags_contains fl CLONE_PARENT then set_task a (self\<lparr>t_children := t_children self @ [k_next k8]\<rparr>)
      (set_task (k_next k8) new (k8\<lparr>k_next := Suc (k_next k8)\<rparr>)) else set_task (k_next k8) new (k8\<lparr>k_next := Suc (k_next k8)\<rparr>))"
    using assms self unfolding from_clone_def new_def by (simp_all add: k1 k2 k3 k4 k5 k6 k7 k8 Let_def split del: if_split)
  then show ?thesis
    using self e t(1) n unfolding adds_task_def by (intro exI [of _ new] exI [of _ tids]) (simp add: set_task_def)
qed

lemma procs_invD:
  assumes "procs_inv P Q bf k"
  shows "family_ok k" "states_ok P Q k" "tids_ok bf k"
    "\<And>p t. k_tasks k p = Some t \<Longrightarrow> p < k_next k"
    "\<And>p t c. k_tasks k p = Some t \<Longrightarrow> c \<in> set (t_children t) \<Longrightarrow>
       \<exists>u. k_tasks k c = Some u \<and> p < c \<and> t_parent u = Some p \<and> t_ppid u = t_tid t"
    "\<And>p. p \<in> set (ready_queue (k_queue k)) \<Longrightarrow> \<exists>t. k_tasks k p = Some t \<and> t_status t = Ready"
    "\<And>p. p \<in> set (ready_queue (k_queue k)) \<Longrightarrow> k_current k \<noteq> Some p"
    "\<And>p. k_current k = Some p \<Longrightarrow> \<exists>t. k_tasks k p = Some t \<and> t_status t = Running"
    "\<And>p t. k_tasks k p = Some t \<Longrightarrow> status_ok P Q k p t"
    "distinct (ready_queue (k_queue k))"
    "\<And>p t. k_tasks k p = Some t \<Longrightarrow> distinct (t_children t)"
    "\<And>p. p \<in> k_leaked k \<Longrightarrow> \<exists>t. k_tasks k p = Some t"
  using assms by (auto simp: procs_inv_def family_ok_def states_ok_def)

text \<open>Thread ids depend only on the map from addresses to ids.\<close>

lemma tids_ok_cong:
  assumes "tids_ok bf k" "map_option t_tid \<circ> k_tasks k' = map_option t_tid \<circ> k_tasks k" "k_tids k' = k_tids k"
  shows "tids_ok bf k'"
proof -
  have m: "map_option t_tid (k_tasks k' p) = map_option t_tid (k_tasks k p)" for p using fun_cong [OF assms(2), of p] by simp
  then have "tid_in k' = tid_in k"
    by (auto simp: tid_in_def fun_eq_iff split: option.splits) (metis map_option_eq_Some option.inject option.simps(3) m)+
  moreover have "dom (k_tasks k') = dom (k_tasks k)" using m by (auto simp: dom_def) (metis map_option_is_None not_None_eq)+
  ultimately show ?thesis using assms(1,3) by (simp add: tids_ok_def)
qed

lemma tids_ok_add:
  assumes "tids_ok bf k" "tid_new bf (k_tids k) = Some (Some (Tid n), tids)" "k_tids k' = tids" "k_tasks k c = None"
    "dom (k_tasks k') = insert c (dom (k_tasks k))" "tid_in k' = (tid_in k)(c := n)"
  shows "tids_ok bf k'"
proof -
  have o: "inv4k bf (k_tids k)" "free4k bf (k_tids k) \<subseteq> {2..<TID_LIMIT}" "inj_on (tid_in k) (dom (k_tasks k))"
    "tid_in k ` dom (k_tasks k) = {2..<TID_LIMIT} - free4k bf (k_tids k)" using assms(1) by (simp_all add: tids_ok_def)
  note t = tid_new_takes [OF o(1,2) assms(2)]
  have c: "c \<notin> dom (k_tasks k)" using assms(4) by auto
  have n: "n \<notin> tid_in k ` dom (k_tasks k)" using o(4) t(1) by simp
  have im: "(tid_in k)(c := n) ` dom (k_tasks k) = tid_in k ` dom (k_tasks k)"
    by (rule image_cong [OF refl]) (use c in \<open>metis fun_upd_other\<close>)
  have "inj_on ((tid_in k)(c := n)) (dom (k_tasks k))" using o(3) n by (rule inj_on_fun_updI)
  then have "inj_on ((tid_in k)(c := n)) (insert c (dom (k_tasks k)))" using n c im by simp
  moreover have "(tid_in k)(c := n) ` insert c (dom (k_tasks k)) = {2..<TID_LIMIT} - free4k bf tids"
  proof -
    have "(tid_in k)(c := n) ` insert c (dom (k_tasks k)) = insert n ({2..<TID_LIMIT} - free4k bf (k_tids k))"
      unfolding image_insert im o(4) by simp
    also have "\<dots> = {2..<TID_LIMIT} - free4k bf tids" unfolding t(3) using t(1) o(2) by blast
    finally show ?thesis .
  qed
  moreover have "free4k bf tids \<subseteq> {2..<TID_LIMIT}" using t(3) o(2) by blast
  ultimately show ?thesis unfolding tids_ok_def assms(3,5,6) using t(2) by (intro conjI)
qed

text \<open>The new task map: the parent \<open>par\<close>, which runs, gains the child \<open>c\<close>.\<close>

definition grown :: "nat option \<Rightarrow> nat \<Rightarrow> nat \<Rightarrow> task \<Rightarrow> task" where
  "grown par c p t = (if par = Some p then t\<lparr>t_children := t_children t @ [c]\<rparr> else t)"

lemma grown_simps [simp]:
  "t_tid (grown par c p t) = t_tid t" "t_status (grown par c p t) = t_status t" "t_parent (grown par c p t) = t_parent t"
  "t_ppid (grown par c p t) = t_ppid t" "par \<noteq> Some p \<Longrightarrow> grown par c p t = t"
  "set (t_children (grown par c p t)) = (if par = Some p then {c} else {}) \<union> set (t_children t)"
  by (simp_all add: grown_def)

lemma adds_taskE:
  assumes "adds_task bf par c k k'" "procs_inv P Q bf k"
  obtains new tids where "tid_new bf (k_tids k) = Some (Some (Tid (t_tid new)), tids)" "k_tids k' = tids" "k_next k \<le> c" "k_next k' = Suc c"
    "k_queue k' = k_queue k" "k_current k' = k_current k" "t_status new = Ready" "t_children new = []" "k_leaked k' = k_leaked k"
    "k_tasks k c = None" "\<And>p. k_tasks k' p = (if p = c then Some new else map_option (grown par c p) (k_tasks k p))"
    "\<And>a. par = Some a \<Longrightarrow> t_parent new = Some a \<and> (\<exists>self. k_tasks k a = Some self \<and> t_ppid new = t_tid self)"
proof -
  obtain new tids where new: "tid_new bf (k_tids k) = Some (Some (Tid (t_tid new)), tids)" "k_tids k' = tids" "k_next k \<le> c" "k_next k' = Suc c"
    "k_queue k' = k_queue k" "k_current k' = k_current k" "t_status new = Ready" "t_children new = []" "k_leaked k' = k_leaked k"
    and par: "case par of None \<Rightarrow> k_tasks k' = (k_tasks k)(c \<mapsto> new)
      | Some a \<Rightarrow> \<exists>self. k_tasks k a = Some self \<and> t_parent new = Some a \<and> t_ppid new = t_tid self \<and>
          k_tasks k' = (k_tasks k)(c \<mapsto> new, a \<mapsto> self\<lparr>t_children := t_children self @ [c]\<rparr>)"
    using assms(1) unfolding adds_task_def by blast
  have c: "k_tasks k c = None" using procs_invD(4) [OF assms(2), of c] new(3) by (cases "k_tasks k c") auto
  have tk: "k_tasks k' p = (if p = c then Some new else map_option (grown par c p) (k_tasks k p))" for p
  proof (cases par)
    case None
    then show ?thesis using par by (cases "k_tasks k p") (simp_all add: grown_def)
  next
    case (Some a)
    then show ?thesis using par c by (cases "k_tasks k p") (auto simp: grown_def)
  qed
  have "t_parent new = Some a \<and> (\<exists>self. k_tasks k a = Some self \<and> t_ppid new = t_tid self)" if "par = Some a" for a
    using par that by auto
  with new c tk show ?thesis by (rule that)
qed

lemma adds_inv:
  assumes ad: "adds_task bf par c k k'" and inv: "procs_inv P Q bf k" and cur: "\<And>a. par = Some a \<Longrightarrow> k_current k = Some a"
  shows "procs_inv P (insert c Q) bf k'" "c \<notin> set (ready_queue (k_queue k'))" "k_current k' \<noteq> Some c"
    "\<exists>new. k_tasks k' c = Some new \<and> t_status new = Ready"
proof -
  note i = procs_invD [OF inv]
  obtain new tids where new: "tid_new bf (k_tids k) = Some (Some (Tid (t_tid new)), tids)" "k_tids k' = tids" "k_next k \<le> c" "k_next k' = Suc c"
    "k_queue k' = k_queue k" "k_current k' = k_current k" "t_status new = Ready" "t_children new = []" "k_leaked k' = k_leaked k"
    and c: "k_tasks k c = None" and tk: "\<And>p. k_tasks k' p = (if p = c then Some new else map_option (grown par c p) (k_tasks k p))"
    and pn: "\<And>a. par = Some a \<Longrightarrow> t_parent new = Some a \<and> (\<exists>self. k_tasks k a = Some self \<and> t_ppid new = t_tid self)"
    by (rule adds_taskE [OF ad inv]) blast
  have pc: "par \<noteq> Some c" using cur [of c] i(8) [of c] c by auto
  have kid: "child_of k' x p \<longleftrightarrow> child_of k x p \<or> par = Some p \<and> x = c" for x p
    using c new(8) pc pn [of p] by (cases "k_tasks k p") (auto simp: child_of_def tk)
  show "c \<notin> set (ready_queue (k_queue k'))" using i(6) [of c] c new(5) by auto
  show "k_current k' \<noteq> Some c" using i(8) [of c] c new(6) by auto
  show "\<exists>new. k_tasks k' c = Some new \<and> t_status new = Ready" using tk new(7) by simp
  have keep: "\<exists>t. k_tasks k' p = Some t \<and> t_status t = t_status s \<and> t_tid t = t_tid s \<and> t_parent t = t_parent s \<and> t_ppid t = t_ppid s"
    if "k_tasks k p = Some s" for p s using that c by (cases "p = c") (auto simp: tk)
  have "family_ok k'"
    unfolding family_ok_def
  proof (intro allI impI conjI ballI)
    fix p t assume p: "k_tasks k' p = Some t"
    show "p < k_next k'" using p i(4) [of p] new(3,4) by (auto simp: tk split: if_splits)
    have "c \<notin> set (t_children s)" if "k_tasks k p = Some s" for s using i(5) [OF that, of c] c by auto
    then show "distinct (t_children t)" using p i(11) [of p] new(8) by (auto simp: tk grown_def split: if_splits)
    fix x assume x: "x \<in> set (t_children t)"
    then have "child_of k' x p" using p by (auto simp: child_of_def)
    then consider s where "k_tasks k p = Some s" "x \<in> set (t_children s)" | "par = Some p" "x = c" unfolding kid by (auto simp: child_of_def)
    then show "\<exists>u. k_tasks k' x = Some u \<and> p < x \<and> t_parent u = Some p \<and> t_ppid u = t_tid t"
    proof cases
      case 1
      then show ?thesis using i(5) [OF 1] keep [of x] keep [OF 1(1)] p by auto
    next
      case 2
      then obtain self where "k_tasks k p = Some self" "t_ppid new = t_tid self" "t_parent new = Some p" using pn by blast
      then show ?thesis using 2 i(4) [of p] new(3) keep [of p] p by (auto simp: tk)
    qed
  qed
  moreover have "status_ok P (insert c Q) k' p t" if p: "k_tasks k' p = Some t" for p t
  proof (cases "p = c")
    case False
    then obtain s where s: "k_tasks k p = Some s" "t = grown par c p s" using p by (auto simp: tk)
    have "par = Some p \<Longrightarrow> k_current k = Some p \<and> t_status s = Running" using cur [of p] i(8) [of p] s(1) by auto
    then show ?thesis using i(9) [OF s(1)] s(2) kid [of p] unfolding status_ok_def new(5,6,9) by (cases "par = Some p") auto
  qed (simp add: status_ok_def)
  then have "states_ok P (insert c Q) k'"
    unfolding states_ok_def new(5,6)
  proof (intro conjI ballI allI impI)
    fix p assume "p \<in> set (ready_queue (k_queue k))"
    then show "k_current k \<noteq> Some p" "\<exists>t. k_tasks k' p = Some t \<and> t_status t = Ready" using i(6,7) [of p] keep [of p] by auto
  next
    fix p assume "k_current k = Some p"
    then show "\<exists>t. k_tasks k' p = Some t \<and> t_status t = Running" using i(8) [of p] keep [of p] by auto
  qed (use i(10) in simp_all)
  moreover have "tids_ok bf k'"
    by (rule tids_ok_add [OF i(3) new(1,2) c]) (use c in \<open>simp_all add: dom_def tk tid_in_def fun_eq_iff split: option.split\<close>, auto)
  moreover have "k_leaked k' \<subseteq> dom (k_tasks k')" using i(12) keep unfolding new(9) by blast
  ultimately show "procs_inv P (insert c Q) bf k'" by (simp add: procs_inv_def)
qed

subsection \<open>Changing one task\<close>

text \<open>What the invariant depends on of a task.\<close>

definition skel :: "task \<Rightarrow> nat \<times> nat list \<times> nat option \<times> nat \<times> task_status" where
  "skel t = (t_tid t, t_children t, t_parent t, t_ppid t, t_status t)"

lemma skel_simps:
  "t_tid t' = t_tid t \<Longrightarrow> t_children t' = t_children t \<Longrightarrow> t_parent t' = t_parent t \<Longrightarrow> t_ppid t' = t_ppid t \<Longrightarrow> t_status t' = t_status t \<Longrightarrow>
     skel t' = skel t"
  by (simp add: skel_def)

lemma skel_Some:
  assumes "\<And>p. map_option skel (k_tasks k' p) = map_option skel (k_tasks k p)" "k_tasks k p = Some t"
  obtains t' where "k_tasks k' p = Some t'" "skel t' = skel t"
  using assms(1) [of p] assms(2) by auto

lemma procs_inv_skel:
  assumes sk: "\<And>p. map_option skel (k_tasks k' p) = map_option skel (k_tasks k p)"
    and e: "k_queue k' = k_queue k" "k_current k' = k_current k" "k_tids k' = k_tids k" "k_next k \<le> k_next k'" and lk: "k_leaked k \<subseteq> k_leaked k'" "k_leaked k' \<subseteq> k_leaked k \<union> dom (k_tasks k)"
    and inv: "procs_inv P Q bf k"
  shows "procs_inv P Q bf k'"
proof -
  note i = procs_invD [OF inv]
  have fwd: "\<exists>t'. k_tasks k' p = Some t' \<and> skel t' = skel t" if "k_tasks k p = Some t" for p t using sk [of p] that by auto
  have bwd: "\<exists>t. k_tasks k p = Some t \<and> skel t' = skel t" if "k_tasks k' p = Some t'" for p t' using sk [of p] that by (metis map_option_eq_Some)
  have kid: "child_of k' = child_of k"
  proof (intro ext)
    fix x p show "child_of k' x p = child_of k x p" using fwd [of p] bwd [of p] by (fastforce simp: child_of_def skel_def)
  qed
  have "family_ok k'"
    unfolding family_ok_def
  proof (intro allI impI)
    fix p t' assume "k_tasks k' p = Some t'"
    then obtain t where t: "k_tasks k p = Some t" "skel t' = skel t" using bwd by blast
    have "p < k_next k'" using i(4) [OF t(1)] e(4) by simp
    moreover have "distinct (t_children t')" using i(1) t by (simp add: family_ok_def skel_def)
    moreover have "\<exists>u. k_tasks k' c = Some u \<and> p < c \<and> t_parent u = Some p \<and> t_ppid u = t_tid t'" if "c \<in> set (t_children t')" for c
      using i(5) [OF t(1), of c] that t(2) fwd [of c] by (auto simp: skel_def)
    ultimately show "p < k_next k' \<and> distinct (t_children t') \<and>
        (\<forall>c \<in> set (t_children t'). \<exists>u. k_tasks k' c = Some u \<and> p < c \<and> t_parent u = Some p \<and> t_ppid u = t_tid t')" by blast
  qed
  moreover have "status_ok P Q k' p t'" if "k_tasks k' p = Some t'" for p t'
    using bwd [OF that] i(9) [of p] lk(1) unfolding status_ok_def e kid by (auto simp: skel_def)
  then have "states_ok P Q k'"
    unfolding states_ok_def e using i(6-8,10) fwd by (fastforce simp: skel_def)
  moreover have "map_option t_tid \<circ> k_tasks k' = map_option t_tid \<circ> k_tasks k"
  proof
    fix p show "(map_option t_tid \<circ> k_tasks k') p = (map_option t_tid \<circ> k_tasks k) p"
      using arg_cong [OF sk [of p], of "map_option fst"] by (simp add: option.map_comp comp_def skel_def)
  qed
  then have "tids_ok bf k'" by (rule tids_ok_cong [OF i(3) _ e(3)])
  moreover have "k_leaked k' \<subseteq> dom (k_tasks k')" using i(12) fwd lk(2) by blast
  ultimately show ?thesis by (simp add: procs_inv_def)
qed

lemma set_task_skel:
  assumes "procs_inv P Q bf k" "k_tasks k a = Some t" "skel t' = skel t"
  shows "procs_inv P Q bf (set_task a t' k)"
  by (rule procs_inv_skel [OF _ _ _ _ _ _ _ assms(1)]) (use assms(2,3) in \<open>simp_all add: set_task_def\<close>)

text \<open>A task that no operation works on any more is in one of its regular states.\<close>

lemma procs_inv_settle:
  assumes inv: "procs_inv P (insert a Q) bf k" and a: "k_tasks k a = Some t" and st: "status_ok P Q k a t"
  shows "procs_inv P Q bf k"
proof -
  note i = procs_invD [OF inv]
  have "status_ok P Q k p u" if "k_tasks k p = Some u" for p u
    using i(9) [OF that] st a that by (cases "p = a") (auto simp: status_ok_def)
  then have "states_ok P Q k" using i(2) unfolding states_ok_def by blast
  then show ?thesis using inv by (simp add: procs_inv_def)
qed

text \<open>Moving a task between the queue, the core and an operation. \<open>q\<close> is the new queue, \<open>cur\<close> the new current task.\<close>

lemma procs_inv_move:
  assumes inv: "procs_inv P Q bf k" and t: "k_tasks k a = Some t" and sk: "skel t' = skel (t\<lparr>t_status := s\<rparr>)"
    and q: "distinct q" "set q - {a} = set (ready_queue (k_queue k)) - {a}" "a \<in> set q \<Longrightarrow> s = Ready \<and> cur \<noteq> Some a"
    and cur: "\<And>p. p \<noteq> a \<Longrightarrow> cur = Some p \<longleftrightarrow> k_current k = Some p" "cur = Some a \<Longrightarrow> s = Running"
    and k': "k_tasks k' = (k_tasks k)(a \<mapsto> t')" "ready_queue (k_queue k') = q" "k_current k' = cur" "k_tids k' = k_tids k" "k_next k \<le> k_next k'"
      "k_leaked k' = k_leaked k"
  shows "procs_inv P (insert a Q) bf k'"
proof -
  note i = procs_invD [OF inv]
  have s: "t_tid t' = t_tid t" "t_children t' = t_children t" "t_parent t' = t_parent t" "t_ppid t' = t_ppid t" "t_status t' = s"
    using sk by (simp_all add: skel_def)
  have kid: "child_of k' x p \<longleftrightarrow> child_of k x p" for x p using t s by (auto simp: child_of_def k')
  have "family_ok k'"
    unfolding family_ok_def
  proof (intro allI impI)
    fix p u assume u: "k_tasks k' p = Some u"
    then obtain v where v: "k_tasks k p = Some v" "t_children u = t_children v" "t_tid u = t_tid v" using t s by (cases "p = a") (auto simp: k')
    have "p < k_next k'" "distinct (t_children u)" using i(4,11) [OF v(1)] v k'(5) by auto
    moreover have "\<exists>w. k_tasks k' c = Some w \<and> p < c \<and> t_parent w = Some p \<and> t_ppid w = t_tid u" if "c \<in> set (t_children u)" for c
      using i(5) [OF v(1), of c] that v(2,3) t s by (cases "c = a") (auto simp: k')
    ultimately show "p < k_next k' \<and> distinct (t_children u) \<and>
        (\<forall>c \<in> set (t_children u). \<exists>w. k_tasks k' c = Some w \<and> p < c \<and> t_parent w = Some p \<and> t_ppid w = t_tid u)" by blast
  qed
  moreover have "states_ok P (insert a Q) k'"
    unfolding states_ok_def k'(2,3)
  proof (intro conjI allI impI ballI)
    fix p assume p: "p \<in> set q"
    show "cur \<noteq> Some p" using p q(2,3) cur(1) [of p] i(7) [of p] by (cases "p = a") auto
    show "\<exists>t. k_tasks k' p = Some t \<and> t_status t = Ready" using p q(2,3) i(6) [of p] s by (cases "p = a") (auto simp: k')
  next
    fix p assume "cur = Some p"
    then show "\<exists>t. k_tasks k' p = Some t \<and> t_status t = Running" using cur i(8) [of p] s by (cases "p = a") (auto simp: k')
  next
    fix p u assume u: "k_tasks k' p = Some u"
    show "status_ok P (insert a Q) k' p u"
    proof (cases "p = a")
      case False
      then have "status_ok P Q k p u" using u i(9) by (simp add: k')
      then show ?thesis using False q(2) cur(1) [OF False] kid unfolding status_ok_def k'(2,3,6) by blast
    qed (simp add: status_ok_def)
  qed (use q(1) in simp)
  moreover have "tids_ok bf k'" by (rule tids_ok_cong [OF i(3) _ k'(4)]) (use t s in \<open>auto simp: k' fun_eq_iff\<close>)
  moreover have "k_leaked k' \<subseteq> dom (k_tasks k')" using i(12) unfolding k'(1,6) by auto
  ultimately show ?thesis by (simp add: procs_inv_def)
qed

subsection \<open>Releasing a task\<close>

lemma referenced_iff:
  assumes "procs_inv P Q bf k"
  shows "referenced k a \<longleftrightarrow> a \<in> set (ready_queue (k_queue k)) \<or> k_current k = Some a \<or> a \<in> k_leaked k \<or> (\<exists>p. child_of k a p)"
proof -
  have "(\<exists>p < k_next k. child_of k a p) \<longleftrightarrow> (\<exists>p. child_of k a p)" using procs_invD(4) [OF assms] by (auto simp: child_of_def)
  then show ?thesis by (auto simp: referenced_def list_ex_iff child_of_def split: option.splits)
qed

lemma drop_task_spec:
  assumes "drop_task env a k = Some k'"
  obtains t where "k_tasks k a = Some t" "tid_drop (e_bf env) (k_tids k) (Tid (t_tid t)) = Some (k_tids k')"
    "k_tasks k' = (k_tasks k)(a := None)" "k_queue k' = k_queue k" "k_current k' = k_current k" "k_next k' = k_next k"
    "k_signals k' = k_signals k" "k_leaked k' = k_leaked k"
  using assms that by (auto simp: drop_task_def Let_def split: bind_splits if_splits simp del: tid_drop.simps)

lemma tids_ok_remove:
  assumes "tids_ok bf k" "k_tasks k a = Some t" "tid_drop bf (k_tids k) (Tid (t_tid t)) = Some (k_tids k')"
    "k_tasks k' = (k_tasks k)(a := None)"
  shows "tids_ok bf k'"
proof -
  have o: "inv4k bf (k_tids k)" "free4k bf (k_tids k) \<subseteq> {2..<TID_LIMIT}" "inj_on (tid_in k) (dom (k_tasks k))"
    "tid_in k ` dom (k_tasks k) = {2..<TID_LIMIT} - free4k bf (k_tids k)" using assms(1) by (simp_all add: tids_ok_def)
  have a: "a \<in> dom (k_tasks k)" "tid_in k a = t_tid t" using assms(2) by (auto simp: tid_in_def)
  then have n: "t_tid t \<in> {2..<TID_LIMIT} - free4k bf (k_tids k)" using o(4) by (metis imageI)
  then have n': "t_tid t < TID_LIMIT" "t_tid t \<notin> free4k bf (k_tids k)" by auto
  note d = tid_drop_gives [OF o(1) n' assms(3)]
  have dom: "dom (k_tasks k') = dom (k_tasks k) - {a}" using assms(4) by auto
  have eq: "tid_in k' p = tid_in k p" if "p \<in> dom (k_tasks k) - {a}" for p using that assms(4) by (simp add: tid_in_def)
  have "inj_on (tid_in k') (dom (k_tasks k'))"
    unfolding dom using inj_on_subset [OF o(3), of "dom (k_tasks k) - {a}"] eq by (auto simp: inj_on_def)
  moreover have "tid_in k' ` dom (k_tasks k') = tid_in k ` (dom (k_tasks k) - {a})" unfolding dom by (rule image_cong [OF refl eq])
  moreover have "tid_in k ` (dom (k_tasks k) - {a}) = tid_in k ` dom (k_tasks k) - {t_tid t}"
    using inj_on_image_set_diff [OF o(3), of "dom (k_tasks k)" "{a}"] a by auto
  moreover have "{2..<TID_LIMIT} - free4k bf (k_tids k) - {t_tid t} = {2..<TID_LIMIT} - free4k bf (k_tids k')" unfolding d(2) by blast
  moreover have "free4k bf (k_tids k') \<subseteq> {2..<TID_LIMIT}" unfolding d(2) using o(2) n by blast
  ultimately show ?thesis unfolding tids_ok_def using d(1) o(4) by simp
qed

text \<open>A task with another reference stays, in one of its regular states.\<close>

lemma referenced_inv:
  assumes inv: "procs_inv (insert a P) Q bf k" and r: "referenced k a" "a \<notin> Q"
  shows "procs_inv P Q bf k"
proof -
  note i = procs_invD [OF inv]
  have "status_ok P Q k p u" if u: "k_tasks k p = Some u" for p u
  proof (cases "p = a")
    case pa: True
    then consider "p \<in> set (ready_queue (k_queue k))" | "k_current k = Some p" | "p \<in> k_leaked k \<or> (\<exists>q. child_of k p q)"
      using r(1) referenced_iff [OF inv, of a] by blast
    then show ?thesis
    proof cases
      case 1 then show ?thesis using i(6) [of p] u by (auto simp: status_ok_def)
    next
      case 2 then show ?thesis using i(8) [of p] u by (auto simp: status_ok_def)
    next
      case 3 then show ?thesis using i(9) [OF u] r(2) pa by (auto simp: status_ok_def)
    qed
  qed (use i(9) [OF u] in \<open>simp add: status_ok_def\<close>)
  then have "states_ok P Q k" using i(2) unfolding states_ok_def by blast
  then show ?thesis using inv by (simp add: procs_inv_def)
qed

text \<open>A zombie without a reference is removed.\<close>

lemma drop_task_inv:
  assumes d: "drop_task env a k = Some k'" and inv: "procs_inv (insert a P) Q (e_bf env) k" and n: "\<not> referenced k a" "a \<notin> Q"
  shows "procs_inv P Q (e_bf env) k'"
proof -
  note i = procs_invD [OF inv]
  obtain t where t: "k_tasks k a = Some t" "tid_drop (e_bf env) (k_tids k) (Tid (t_tid t)) = Some (k_tids k')"
    "k_tasks k' = (k_tasks k)(a := None)" "k_queue k' = k_queue k" "k_current k' = k_current k" "k_next k' = k_next k" "k_leaked k' = k_leaked k"
    by (rule drop_task_spec [OF d])
  have nr: "a \<notin> set (ready_queue (k_queue k))" "k_current k \<noteq> Some a" "\<And>p. \<not> child_of k a p" "a \<notin> k_leaked k" using n(1) referenced_iff [OF inv, of a] by auto
  have "t_children t = []" using i(9) [OF t(1)] nr n(2) by (auto simp: status_ok_def)
  then have kid: "child_of k' = child_of k" using t(1) by (auto simp: child_of_def t(3) fun_eq_iff)
  have sub: "k_tasks k' p = Some v \<longleftrightarrow> p \<noteq> a \<and> k_tasks k p = Some v" for p v by (simp add: t(3))
  have "family_ok k'"
    unfolding family_ok_def
  proof (intro allI impI conjI ballI)
    fix p v assume v: "k_tasks k' p = Some v"
    then show "p < k_next k'" "distinct (t_children v)" using i(4,11) [of p v] by (simp_all add: sub t(6))
    fix c assume c: "c \<in> set (t_children v)"
    then have "c \<noteq> a" using nr(3) [of p] v by (auto simp: child_of_def sub)
    then show "\<exists>w. k_tasks k' c = Some w \<and> p < c \<and> t_parent w = Some p \<and> t_ppid w = t_tid v" using i(5) [of p v c] v c by (simp add: sub)
  qed
  moreover have "status_ok P Q k' p v" if "k_tasks k' p = Some v" for p v
    using i(9) [of p v] that unfolding status_ok_def sub t(4,5,7) kid by auto
  then have "states_ok P Q k'"
    unfolding states_ok_def t(4,5)
  proof (intro conjI ballI allI impI)
    fix p assume p: "p \<in> set (ready_queue (k_queue k))"
    then show "k_current k \<noteq> Some p" "\<exists>t. k_tasks k' p = Some t \<and> t_status t = Ready" using i(6,7) [of p] nr(1) by (auto simp: sub)
  qed (use i(8,10) nr(2) in \<open>auto simp: sub\<close>)
  moreover have "tids_ok (e_bf env) k'" by (rule tids_ok_remove [OF i(3) t(1-3)])
  moreover have "k_leaked k' \<subseteq> dom (k_tasks k')" using i(12) nr(4) unfolding t(3,7) by auto
  ultimately show ?thesis by (simp add: procs_inv_def)
qed

lemma release_inv:
  assumes r: "release env a k = Some k'" and inv: "procs_inv (insert a P) Q (e_bf env) k" and a: "a \<notin> Q"
  shows "procs_inv P Q (e_bf env) k'" "\<And>p. p \<noteq> a \<Longrightarrow> k_tasks k' p = k_tasks k p"
proof -
  show "procs_inv P Q (e_bf env) k'"
    using referenced_inv [OF inv _ a] drop_task_inv [OF _ inv _ a] r by (auto simp: release_def split: if_splits)
  show "k_tasks k' p = k_tasks k p" if "p \<noteq> a" for p
    using r that by (auto simp: release_def split: if_splits elim: drop_task_spec)
qed

lemma release_all_inv:
  assumes "release_all env cs k = Some k'" "procs_inv (set cs \<union> P) Q (e_bf env) k" "\<forall>c \<in> set cs. c \<notin> Q"
  shows "procs_inv P Q (e_bf env) k' \<and> (\<forall>p. p \<notin> set cs \<longrightarrow> k_tasks k' p = k_tasks k p)"
  using assms
proof (induction cs arbitrary: k)
  case (Cons c cs)
  then obtain k1 where k1: "release env c k = Some k1" "release_all env cs k1 = Some k'" by (auto split: bind_splits)
  have "procs_inv (insert c (set cs \<union> P)) Q (e_bf env) k" "c \<notin> Q" using Cons.prems(2,3) by simp_all
  note r = release_inv [OF k1(1) this]
  show ?case using Cons.IH [OF k1(2) r(1)] Cons.prems(3) r(2) by simp
qed simp

subsection \<open>The end of a task\<close>

lemma orphan_children_spec:
  "k_tasks (orphan_children cs k) p =
     (if p \<in> set cs then map_option (\<lambda>t. t\<lparr>t_ppid := NO_PARENT\<rparr>) (k_tasks k p) else k_tasks k p)"
  "k_queue (orphan_children cs k) = k_queue k" "k_current (orphan_children cs k) = k_current k"
  "k_tids (orphan_children cs k) = k_tids k" "k_next (orphan_children cs k) = k_next k"
  "k_leaked (orphan_children cs k) = k_leaked k"
  by (induction cs arbitrary: k) (auto simp: set_task_def option.map_comp comp_def split: option.splits)

text \<open>A task gives up the children \<open>S\<close>, which wait to be released; their parent process id may change.\<close>

lemma lose_children:
  assumes inv: "procs_inv {} Q bf k" and t: "k_tasks k a = Some t" and S: "S \<subseteq> set (t_children t)" "set cs = set (t_children t) - S" "distinct cs"
    and k': "\<And>p. k_tasks k' p = (if p = a then Some (t\<lparr>t_children := cs\<rparr>)
        else if p \<in> S then map_option (\<lambda>t. t\<lparr>t_ppid := g t\<rparr>) (k_tasks k p) else k_tasks k p)"
      "k_queue k' = k_queue k" "k_current k' = k_current k" "k_tids k' = k_tids k" "k_next k' = k_next k" "k_leaked k' = k_leaked k"
  shows "procs_inv S Q bf k'"
proof -
  note i = procs_invD [OF inv]
  have old: "\<exists>u. k_tasks k p = Some u \<and> t_status v = t_status u \<and> t_tid v = t_tid u \<and>
      (p \<noteq> a \<longrightarrow> t_children v = t_children u)" if "k_tasks k' p = Some v" for p v
    using that t by (auto simp: k' split: if_splits)
  have new: "\<exists>v. k_tasks k' p = Some v \<and> t_status v = t_status u \<and> t_parent v = t_parent u \<and>
      (p \<notin> S \<longrightarrow> t_ppid v = t_ppid u)" if "k_tasks k p = Some u" for p u
    using that t by (auto simp: k')
  have other: "c \<notin> S" if "k_tasks k p = Some u" "c \<in> set (t_children u)" "p \<noteq> a" for p u c
    using i(5) [OF that(1,2)] i(5) [OF t, of c] that(3) S(1) by auto
  have kid: "child_of k' x p \<longleftrightarrow> child_of k x p \<and> (p = a \<longrightarrow> x \<notin> S)" for x p
    using t S(2) by (cases "p = a") (auto simp: child_of_def k')
  have "family_ok k'"
    unfolding family_ok_def
  proof (intro allI impI conjI ballI)
    fix p v assume v: "k_tasks k' p = Some v"
    then obtain u where u: "k_tasks k p = Some u" "t_tid v = t_tid u" "p \<noteq> a \<longrightarrow> t_children v = t_children u" using old by blast
    show "p < k_next k'" using i(4) [OF u(1)] by (simp add: k'(5))
    show "distinct (t_children v)" using i(11) [OF u(1)] u(3) v S(3) by (cases "p = a") (auto simp: k')
    fix c assume "c \<in> set (t_children v)"
    then have c: "c \<in> set (t_children u) \<and> c \<notin> S"
    proof (cases "p = a")
      case True
      then have "u = t" "v = t\<lparr>t_children := cs\<rparr>" using v u(1) t by (simp_all add: k')
      with \<open>c \<in> set (t_children v)\<close> show ?thesis by (simp add: S(2))
    next
      case False
      then show ?thesis using \<open>c \<in> set (t_children v)\<close> u(3) other [OF u(1)] by simp
    qed
    show "\<exists>w. k_tasks k' c = Some w \<and> p < c \<and> t_parent w = Some p \<and> t_ppid w = t_tid v"
    proof -
      obtain w where w: "k_tasks k c = Some w" "p < c" "t_parent w = Some p" "t_ppid w = t_tid u" using i(5) [OF u(1) conjunct1 [OF c]] by blast
      then show ?thesis using new [OF w(1)] c u(2) by auto
    qed
  qed
  moreover have "status_ok S Q k' p v" if v: "k_tasks k' p = Some v" for p v
  proof -
    obtain u where u: "k_tasks k p = Some u" "t_status v = t_status u" "p \<noteq> a \<longrightarrow> t_children v = t_children u" using old [OF v] by blast
    have "t_children u = [] \<Longrightarrow> t_children v = []" using u(1,3) t v S(2) by (cases "p = a") (auto simp: k')
    moreover have "child_of k p q \<Longrightarrow> child_of k' p q \<or> p \<in> S" for q using kid by blast
    ultimately show ?thesis using i(9) [OF u(1)] u(2) unfolding status_ok_def k'(2,3,6) by auto
  qed
  then have "states_ok S Q k'"
    unfolding states_ok_def k'(2,3)
  proof (intro conjI ballI allI impI)
    fix p assume p: "p \<in> set (ready_queue (k_queue k))"
    then show "k_current k \<noteq> Some p" "\<exists>t. k_tasks k' p = Some t \<and> t_status t = Ready" using i(6,7) [of p] new [of p] by auto
  next
    fix p assume "k_current k = Some p"
    then show "\<exists>t. k_tasks k' p = Some t \<and> t_status t = Running" using i(8) [of p] new [of p] by auto
  qed (use i(10) in auto)
  moreover have "tids_ok bf k'"
    by (rule tids_ok_cong [OF i(3) _ k'(4)]) (use t in \<open>auto simp: k'(1) fun_eq_iff option.map_comp comp_def\<close>)
  moreover have "k_leaked k' \<subseteq> dom (k_tasks k')" using i(12) new unfolding k'(6) by blast
  ultimately show ?thesis by (simp add: procs_inv_def)
qed

lemma handle_zombie_inv:
  assumes h: "handle_zombie_task env a k = Some k'" and inv: "procs_inv {} {a} (e_bf env) k" and t: "k_tasks k a = Some t" "t_status t = Dying"
  shows "procs_inv {a} {} (e_bf env) k'" "\<exists>t'. k_tasks k' a = Some t' \<and> t_exit_code t' = t_exit_code t"
proof -
  let ?cs = "t_children t" and ?k1 = "set_task a (t\<lparr>t_children := []\<rparr>) (orphan_children (t_children t) k)"
  note i = procs_invD [OF inv]
  obtain k2 where k2: "release_all env ?cs ?k1 = Some k2" using h t(1) by (auto simp: handle_zombie_task_def Let_def split: bind_splits)
  have inv1: "procs_inv (set ?cs \<union> {}) {a} (e_bf env) ?k1"
    unfolding Un_empty_right by (rule lose_children [OF inv t(1), where cs = "[]" and g = "\<lambda>_. NO_PARENT"]) (simp_all add: set_task_def orphan_children_spec)
  have cs: "\<forall>c \<in> set ?cs. c \<notin> {a}" using i(5) [OF t(1)] by fastforce
  then have na: "a \<notin> set ?cs" by blast
  have inv2: "procs_inv {} {a} (e_bf env) k2" "k_tasks k2 a = Some (t\<lparr>t_children := []\<rparr>)"
    using release_all_inv [OF k2 inv1 cs] na by (auto simp: set_task_def)
  let ?z = "t\<lparr>t_children := [], t_status := Zombie\<rparr>"
  let ?k3 = "set_task a ?z k2"
  have q: "a \<notin> set (ready_queue (k_queue k2))" "k_current k2 \<noteq> Some a"
    using procs_invD(6,8) [OF inv2(1), of a] inv2(2) t(2) by auto
  have "procs_inv {} (insert a {a}) (e_bf env) ?k3"
    by (rule procs_inv_move [OF inv2, where s = Zombie and q = "ready_queue (k_queue k2)" and cur = "k_current k2"])
      (use q procs_invD(10) [OF inv2(1)] in \<open>simp_all add: skel_def set_task_def\<close>)
  then have "procs_inv {a} {a} (e_bf env) ?k3" unfolding procs_inv_def states_ok_def status_ok_def by auto
  then have inv3: "procs_inv {a} {} (e_bf env) ?k3"
    by (rule procs_inv_settle [of _ a "{}", where t = ?z]) (simp_all add: set_task_def status_ok_def)
  have "same_procs ?k3 k'" using h t(1) k2
    by (auto simp: handle_zombie_task_def Let_def same_procs_def split: bind_splits if_splits)
  then show "procs_inv {a} {} (e_bf env) k'" "\<exists>t'. k_tasks k' a = Some t' \<and> t_exit_code t' = t_exit_code t"
    using same_procs_inv [OF _ inv3] by (auto simp: same_procs_def set_task_def)
qed

subsection \<open>Yield, exit and wait\<close>

lemma current_task_SomeD: "current_task k = Some (a, t) \<Longrightarrow> k_current k = Some a \<and> k_tasks k a = Some t"
  by (auto simp: current_task_def split: bind_splits)

lemma yield_inv:
  assumes "procs_ok bf k" "suspend_current_task k = Some k1" "switched_out env now k1 = Some k'"
  shows "procs_ok bf k'"
proof -
  obtain a t where a: "k_current k = Some a" "k_tasks k a = Some t" "k1 = set_task a (t\<lparr>t_status := Ready\<rparr>) k"
    using assms(2) by (auto simp: suspend_current_task_def split: bind_splits dest!: current_task_SomeD)
  obtain ts st where ts: "switch_out_task now (t_time t) (k_signals k) = (ts, st)" by fastforce
  let ?t = "t\<lparr>t_status := Ready, t_time := ts\<rparr>"
  have k': "k_tasks k' = (k_tasks k)(a \<mapsto> ?t)" "ready_queue (k_queue k') = ready_queue (k_queue k) @ [a]" "k_current k' = None" "k_tids k' = k_tids k"
    "k_next k' = k_next k" "k_leaked k' = k_leaked k"
    using assms(3) a ts by (auto split: bind_splits simp: switched_out_def current_task_def set_task_def push_task_to_scheduler_def sched_push_def)
  have inv: "procs_inv {} {} bf k" using assms(1) by (simp add: procs_ok_def)
  note i = procs_invD [OF inv]
  have q: "a \<notin> set (ready_queue (k_queue k))" using i(7) [of a] a(1) by auto
  have "procs_inv {} {a} bf k'"
    by (rule procs_inv_move [OF inv a(2), where s = Ready and t' = ?t and q = "ready_queue (k_queue k) @ [a]" and cur = None])
      (use q i(10) a(1) k' in \<open>auto simp: skel_def\<close>)
  then have "procs_inv {} {} bf k'" by (rule procs_inv_settle [where t = ?t]) (simp_all add: k' status_ok_def)
  then show ?thesis by (simp add: procs_ok_def)
qed

text \<open>A task that exits, on its way to \<^verbatim>\<open>handle_zombie_task\<close>.\<close>

lemma exit_to_zombie:
  assumes "procs_ok (e_bf env) k" "exit_current_task env code k = Some k1" "switched_out env now k1 = Some k'"
  obtains a t u k2 where "k_current k = Some a" "k_tasks k a = Some t" "procs_inv {} {a} (e_bf env) k2" "k_tasks k2 = (k_tasks k)(a \<mapsto> u)"
    "t_status u = Dying" "t_exit_code u = code" "t_pid u = t_pid t" "t_tid u = t_tid t" "t_children u = t_children t" "k_current k2 = None"
    "(handle_zombie_task env a k2 \<bind> release env a) = Some k'"
proof -
  obtain a t where a: "k_current k = Some a" "k_tasks k a = Some t"
    and s1: "same_procs (set_task a (t\<lparr>t_status := Dying, t_exit_code := code\<rparr>) k) k1"
    using assms(2) by (auto simp: exit_current_task_def Let_def split: bind_splits if_splits dest!: current_task_SomeD put_user_alloc_same)
  let ?t = "t\<lparr>t_status := Dying, t_exit_code := code\<rparr>"
  have k1: "k_tasks k1 = (k_tasks k)(a \<mapsto> ?t)" "k_queue k1 = k_queue k" "k_current k1 = Some a" "k_tids k1 = k_tids k" "k_next k \<le> k_next k1" "k_leaked k1 = k_leaked k"
    using s1 a(1) by (auto simp: same_procs_def set_task_def)
  obtain ts st where ts: "switch_out_task now (t_time ?t) (k_signals k1) = (ts, st)" by fastforce
  let ?u = "?t\<lparr>t_time := ts\<rparr>"
  let ?k2 = "set_task a ?u (k1\<lparr>k_signals := st, k_current := None\<rparr>)"
  have z: "(handle_zombie_task env a ?k2 \<bind> release env a) = Some k'"
    using assms(3) k1 ts by (auto simp: switched_out_def current_task_def split: bind_splits)
  have inv: "procs_inv {} {} (e_bf env) k" using assms(1) by (simp add: procs_ok_def)
  note i = procs_invD [OF inv]
  have q: "a \<notin> set (ready_queue (k_queue k))" using i(7) [of a] a(1) by auto
  have "procs_inv {} {a} (e_bf env) ?k2"
    by (rule procs_inv_move [OF inv a(2), where s = Dying and t' = ?u and q = "ready_queue (k_queue k)" and cur = None])
      (use q i(10) a(1) k1 in \<open>auto simp: skel_def set_task_def\<close>)
  then show ?thesis using that [OF a, of ?k2 ?u] z k1(1) by (simp add: set_task_def)
qed

lemma exit_inv:
  assumes "procs_ok (e_bf env) k" "exit_current_task env code k = Some k1" "switched_out env now k1 = Some k'"
  shows "procs_ok (e_bf env) k'"
proof -
  obtain a u k2 where k2: "procs_inv {} {a} (e_bf env) k2" "k_tasks k2 a = Some u" "t_status u = Dying"
    "(handle_zombie_task env a k2 \<bind> release env a) = Some k'" by (rule exit_to_zombie [OF assms]) auto
  then obtain k3 where k3: "handle_zombie_task env a k2 = Some k3" "release env a k3 = Some k'" by (auto split: bind_splits)
  show ?thesis using release_inv(1) [OF k3(2), of "{}" "{}"] handle_zombie_inv [OF k3(1) k2(1-3)] by (auto simp: procs_ok_def)
qed

lemma wait_loop_child:
  assumes "wait_loop k pid idx cs s = Some (flag, code, found)" "flag \<ge> 0" "\<not> fst s \<ge> 0"
  shows "idx \<le> nat flag \<and> nat flag < idx + length cs \<and>
    (\<exists>u. k_tasks k (cs ! (nat flag - idx)) = Some u \<and> t_status u = Zombie \<and> t_exit_code u = code)"
  using assms
proof (induction k pid idx cs s rule: wait_loop.induct)
  case (2 k pid idx c cs flag0 code0 found0)
  obtain u where u: "k_tasks k c = Some u" using 2(3) by (auto split: bind_splits)
  have z: "get_code_if_exit u = Some x \<Longrightarrow> t_status u = Zombie \<and> t_exit_code u = x" for x
    by (auto simp: get_code_if_exit_def split: task_status.splits)
  have later: "idx \<le> nat flag \<and> nat flag < idx + length (c # cs) \<and>
      (\<exists>u. k_tasks k ((c # cs) ! (nat flag - idx)) = Some u \<and> t_status u = Zombie \<and> t_exit_code u = code)"
    if "Suc idx \<le> nat flag \<and> nat flag < Suc idx + length cs \<and>
      (\<exists>u. k_tasks k (cs ! (nat flag - Suc idx)) = Some u \<and> t_status u = Zombie \<and> t_exit_code u = code)"
    using that by (auto simp: nth_Cons' Suc_diff_le)
  show ?case
  proof (cases "pid = - 1")
    case True
    show ?thesis
    proof (cases "get_code_if_exit u")
      case None
      then show ?thesis using 2(1) [OF u True None] 2(3-) u True later by auto
    next
      case (Some x)
      then show ?thesis using 2(3) u True z by auto
    qed
  next
    case False
    show ?thesis
    proof (cases "t_pid u = unat pid")
      case True
      then show ?thesis using 2(3,4) u False z by (auto split: option.splits)
    next
      case no: False
      then show ?thesis using 2(2) [OF u False no] 2(3-) u False later by auto
    qed
  qed
qed auto

lemma distinct_without_nth:
  assumes "distinct xs" "i < length xs"
  shows "distinct (take i xs @ drop (Suc i) xs)" "set (take i xs @ drop (Suc i) xs) = set xs - {xs ! i}"
proof -
  obtain ys x zs where xs: "xs = ys @ x # zs" "i = length ys"
    using id_take_nth_drop [OF assms(2)] assms(2) by (metis length_take min.absorb4)
  then show "distinct (take i xs @ drop (Suc i) xs)" "set (take i xs @ drop (Suc i) xs) = set xs - {xs ! i}"
    using assms(1) by auto
qed

lemma wait_inv:
  assumes "procs_ok (e_bf env) k" "waitpid env pid ptr k = Some (r, k')"
  shows "procs_ok (e_bf env) k'"
proof -
  obtain a t flag code found where a: "k_current k = Some a" "k_tasks k a = Some t"
    "wait_loop k pid 0 (t_children t) (- 1, - 1, sint pid) = Some (flag, code, found)"
    using assms(2) by (auto simp: waitpid_def split: bind_splits dest!: current_task_SomeD)
  have cur: "current_task k = Some (a, t)" using a by (simp add: current_task_def)
  have inv: "procs_inv {} {} (e_bf env) k" using assms(1) by (simp add: procs_ok_def)
  note i = procs_invD [OF inv]
  show ?thesis
  proof (cases "flag \<ge> 0")
    case True
    let ?c = "t_children t ! nat flag" and ?cs = "take (nat flag) (t_children t) @ drop (Suc (nat flag)) (t_children t)"
    let ?k1 = "set_task a (t\<lparr>t_children := ?cs\<rparr>) k"
    have c: "nat flag < length (t_children t)" using wait_loop_child [OF a(3) True] by simp
    then have cin: "?c \<in> set (t_children t)" by simp
    note d = distinct_without_nth [OF i(11) [OF a(2)] c]
    have "\<exists>k2. same_procs ?k1 k2 \<and> release env ?c k2 = Some k'"
      using assms(2) cur a(3) True
      by (cases "ptr = 0") (fastforce simp: waitpid_def Let_def intro: same_procs_refl split: bind_splits dest!: put_user_same)+
    then obtain k2 where k2: "same_procs ?k1 k2" "release env ?c k2 = Some k'" by blast
    have "procs_inv {?c} {} (e_bf env) ?k1"
      by (rule lose_children [OF inv a(2), where cs = ?cs and g = t_ppid])
        (use cin d in \<open>simp_all add: set_task_def option.map_ident\<close>)
    then have inv2: "procs_inv (insert ?c {}) {} (e_bf env) k2" by (rule same_procs_inv [OF k2(1)])
    from release_inv(1) [OF k2(2) inv2] show ?thesis by (simp add: procs_ok_def)
  next
    case False
    then show ?thesis using assms cur a(3) by (simp add: waitpid_def)
  qed
qed

end
