(* ===== verification/Process_Calls.thy ===== *)
theory Process_Calls
  imports Processes Syscalls
begin

text \<open>
  What the system calls and the idle loop do to the invariant of the processes. Most keep everything it depends on (\<open>tame\<close>); \<open>effect\<close>
  sums up a system call: it returns to a good state, or gives up the core, or ends the task, from a good state.
\<close>

subsection \<open>Operations that keep what the invariant depends on\<close>

definition tame :: "('f, 's) kernel \<Rightarrow> ('f, 's) kernel \<Rightarrow> bool" where
  "tame k k' \<longleftrightarrow> (\<forall>p. map_option skel (k_tasks k' p) = map_option skel (k_tasks k p)) \<and> k_queue k' = k_queue k \<and>
     k_current k' = k_current k \<and> k_tids k' = k_tids k \<and> k_leaked k' = k_leaked k \<and> k_next k \<le> k_next k'"

lemma tame_refl [simp]: "tame k k"
  by (simp add: tame_def)

lemma tame_trans: "tame k k1 \<Longrightarrow> tame k1 k2 \<Longrightarrow> tame k k2"
  by (auto simp: tame_def)

lemma same_tame: "same_procs k k' \<Longrightarrow> tame k k'"
  by (auto simp: tame_def same_procs_def)

lemma tame_set_task: "k_tasks k a = Some t \<Longrightarrow> skel t' = skel t \<Longrightarrow> tame k (set_task a t' k)"
  by (simp add: tame_def set_task_def)

lemma tame_inv: "tame k k' \<Longrightarrow> procs_inv P Q bf k \<Longrightarrow> procs_inv P Q bf k'"
  by (rule procs_inv_skel [of k' k]) (simp_all add: tame_def)

lemma tame_ok: "tame k k' \<Longrightarrow> procs_ok bf k \<Longrightarrow> procs_ok bf k'"
  unfolding procs_ok_def by (rule tame_inv)

lemma tame_current: "tame k k' \<Longrightarrow> k_current k' = k_current k"
  by (simp add: tame_def)

lemma tame_leaked: "tame k k' \<Longrightarrow> k_leaked k' = k_leaked k"
  by (simp add: tame_def)

text \<open>Updates of the other components.\<close>

lemma tame_updates [simp]:
  "tame k (k\<lparr>k_signals := a\<rparr>)" "tame k (k\<lparr>k_handlers := b\<rparr>)" "tame k (k\<lparr>k_fds := c\<rparr>)" "tame k (k\<lparr>k_world := d\<rparr>)"
  "tame k (k\<lparr>k_vms := e, k_world := d\<rparr>)" "tame k (k\<lparr>k_board := f\<rparr>)" "tame k (k\<lparr>k_loop := g\<rparr>)"
  "tame k (set_receivers r rs k)"
  by (simp_all add: tame_def set_receivers_def)

lemma put_user_tame: "put_user v va bs k = Some k' \<Longrightarrow> tame k k'"
  by (rule same_tame [OF put_user_same])

lemma alloc_page_tame: "alloc_page env v va k = Some (ok, k') \<Longrightarrow> tame k k'"
  by (rule same_tame [OF alloc_page_same])

lemma alloc_sig_action_tame: "alloc_sig_action env v va k = Some (ok, k') \<Longrightarrow> tame k k'"
  by (auto simp: alloc_sig_action_def split: bind_splits if_splits dest!: alloc_page_tame intro: tame_trans)

lemma task_mmap_tame: "task_mmap env t s e fl b aw k = Some (r, k') \<Longrightarrow> tame k k'"
  by (auto simp: task_mmap_def split: bind_splits)

lemma load_trap_cx_tame: "load_trap_cx_if_handling_signals a k = Some (ok, k') \<Longrightarrow> tame k k'"
  by (auto simp: load_trap_cx_if_handling_signals_def Let_def skel_def intro!: tame_set_task split: bind_splits option.splits)

lemma set_cx_tame: "set_cx f k = Some k' \<Longrightarrow> tame k k'"
  by (auto simp: set_cx_def skel_def intro!: tame_set_task split: bind_splits dest!: current_task_SomeD)

lemma set_time_tame: "set_time f k = Some k' \<Longrightarrow> tame k k'"
  by (auto simp: set_time_def tame_def set_task_def skel_def split: bind_splits prod.splits dest!: current_task_SomeD)

lemma task_exec_tame: "task_exec env now a nm args k = Some (ok, k') \<Longrightarrow> tame k k'"
  by (auto simp: task_exec_def Let_def tame_def set_task_def skel_def split: bind_splits if_splits sum.splits)

subsection \<open>System calls\<close>

lemma sys_brk_tame: "sys_brk b k = Some (r, k') \<Longrightarrow> tame k k'"
  by (auto simp: sys_brk_def set_user_heap_top_def Let_def skel_def intro!: tame_set_task split: bind_splits if_splits dest!: current_task_SomeD)

lemma sys_set_tid_address_tame: "sys_set_tid_address b k = Some (r, k') \<Longrightarrow> tame k k'"
  by (auto simp: sys_set_tid_address_def set_tid_address_def Let_def skel_def intro!: tame_set_task split: bind_splits dest!: current_task_SomeD)

lemma sys_mmap_tame: "sys_mmap env st len prot fl fd off k = Some (r, k') \<Longrightarrow> tame k k'"
  by (auto simp: sys_mmap_def Let_def split: bind_splits if_splits sum.splits option.splits dest!: task_mmap_tame simp: tame_def)

lemma sys_munmap_tame: "sys_munmap env st len k = Some (r, k') \<Longrightarrow> tame k k'"
  by (auto simp: sys_munmap_def split: bind_splits)

lemma sys_mprotect_tame: "sys_mprotect env st len prot k = Some (r, k') \<Longrightarrow> tame k k'"
  by (auto simp: sys_mprotect_def split: bind_splits)

lemma sys_msync_tame: "sys_msync env st len fl k = Some (r, k') \<Longrightarrow> tame k k'"
  by (auto simp: sys_msync_def split: bind_splits if_splits)

lemma sys_uname_tame: "sys_uname p k = Some (r, k') \<Longrightarrow> tame k k'"
  by (auto simp: sys_uname_def split: bind_splits dest: put_user_tame)

lemma sys_sysinfo_tame: "sys_sysinfo env t p k = Some (r, k') \<Longrightarrow> tame k k'"
  by (auto simp: sys_sysinfo_def Let_def split: bind_splits sum.splits dest!: put_user_tame simp: tame_def)

lemma sys_sigreturn_tame: "sys_sigreturn k = Some (r, k') \<Longrightarrow> tame k k'"
  by (auto simp: sys_sigreturn_def signal_return_def split: bind_splits if_splits dest!: load_trap_cx_tame)

lemma sys_kill_tame: "tame k (snd (sys_kill p s k))"
  by (simp add: sys_kill_def)

lemma sys_tkill_tame: "tame k (snd (sys_tkill p s k))"
  by (simp add: sys_tkill_def)

lemma put_rlimit_tame: "put_rlimit v p x k = Some k' \<Longrightarrow> tame k k'"
  by (auto simp: put_rlimit_def split: if_splits dest: put_user_tame)

lemma sys_prlimt64_tame: "sys_prlimt64 env pid res nl ol k = Some (r, k') \<Longrightarrow> tame k k'"
  by (auto simp: sys_prlimt64_def split: bind_splits if_splits dest!: put_rlimit_tame simp: tame_def)

lemma store_old_mask_tame: "store_old_mask env t os k = Some (ok, k') \<Longrightarrow> tame k k'"
  by (auto simp: store_old_mask_def split: bind_splits if_splits dest!: alloc_page_tame put_user_tame simp: tame_def)

lemma set_mask_tame: "set_mask env t how s k = Some (r, k') \<Longrightarrow> tame k k'"
  by (auto simp: set_mask_def Let_def split: bind_splits if_splits option.splits dest!: alloc_page_tame simp: tame_def set_receivers_def)

lemma sys_sigprocmask_tame: "sys_sigprocmask env how s os sz k = Some (r, k') \<Longrightarrow> tame k k'"
  by (auto simp: sys_sigprocmask_def split: bind_splits if_splits dest!: store_old_mask_tame set_mask_tame simp: tame_def)

lemma store_old_action_tame: "store_old_action env t sg old k = Some (ok, k') \<Longrightarrow> tame k k'"
  by (auto simp: store_old_action_def split: bind_splits if_splits option.splits dest!: alloc_sig_action_tame put_user_tame simp: tame_def)

lemma set_new_action_tame: "set_new_action env t sg act k = Some (r, k') \<Longrightarrow> tame k k'"
  by (auto simp: set_new_action_def split: bind_splits if_splits dest!: alloc_sig_action_tame simp: tame_def)

lemma sys_sigaction_tame: "sys_sigaction env sg act old k = Some (r, k') \<Longrightarrow> tame k k'"
  by (auto simp: sys_sigaction_def split: bind_splits if_splits dest!: store_old_action_tame set_new_action_tame simp: tame_def)

lemma futex_timeout_tame: "futex_timeout env v p k = Some (r, k') \<Longrightarrow> tame k k'"
  by (auto simp: futex_timeout_def split: bind_splits if_splits dest!: alloc_page_tame)

subsection \<open>New tasks\<close>

text \<open>A new task is held by the operation that made it until it is queued or runs.\<close>

lemma push_inv:
  assumes "procs_inv P (insert c Q) bf k" "k_tasks k c = Some t" "t_status t = Ready" "c \<notin> set (ready_queue (k_queue k))" "k_current k \<noteq> Some c"
  shows "procs_inv P Q bf (push_task_to_scheduler c k)"
proof -
  let ?k = "push_task_to_scheduler c k"
  have "procs_inv P (insert c (insert c Q)) bf ?k"
    by (rule procs_inv_move [OF assms(1,2), where s = Ready and t' = t and q = "ready_queue (k_queue k) @ [c]" and cur = "k_current k"])
      (use assms(2-5) procs_invD(10) [OF assms(1)] in \<open>auto simp: skel_def push_task_to_scheduler_def sched_push_def\<close>)
  then show ?thesis
    by (intro procs_inv_settle [of P c Q bf _ t]) (use assms(2,3) in \<open>simp_all add: status_ok_def push_task_to_scheduler_def sched_push_def\<close>)
qed

lemma enter_inv:
  assumes "procs_inv P (insert c Q) bf k" "k_tasks k c = Some t" "c \<notin> set (ready_queue (k_queue k))" "k_current k = None"
    "enter_task now c k = Some k'"
  shows "procs_inv P Q bf k'"
proof -
  let ?t = "t\<lparr>t_status := Running, t_time := switch_into_task now (t_time t)\<rparr>"
  have k': "k_tasks k' = (k_tasks k)(c \<mapsto> ?t)" "k_queue k' = k_queue k" "k_current k' = Some c" "k_tids k' = k_tids k" "k_next k' = k_next k"
    "k_leaked k' = k_leaked k" using assms(2,5) by (auto simp: enter_task_def set_task_def)
  have "procs_inv P (insert c (insert c Q)) bf k'"
    by (rule procs_inv_move [OF assms(1,2), where s = Running and t' = ?t and q = "ready_queue (k_queue k)" and cur = "Some c"])
      (use assms(3,4) procs_invD(10) [OF assms(1)] in \<open>auto simp: skel_def k'\<close>)
  then show ?thesis by (intro procs_inv_settle [of P c Q bf _ ?t]) (simp_all add: k' status_ok_def)
qed

lemma enter_task_leaked: "enter_task now a k = Some k' \<Longrightarrow> k_leaked k' = k_leaked k"
  by (auto simp: enter_task_def set_task_def split: bind_splits)

lemma clone_inv:
  assumes ok: "procs_ok (e_bf env) k" and c: "sys_clone env now fl us ptid tls ctid k = Some (r, k')"
  shows "procs_ok (e_bf env) k' \<and> k_current k' = k_current k \<and> k_leaked k' = k_leaked k"
proof (cases "sint us < 0")
  case True
  then show ?thesis using assms by (auto simp: sys_clone_def split: prod.splits)
next
  case False
  obtain cf sg where f: "resolve_clone_flags_and_signal fl = (cf, sg)" by fastforce
  obtain a u s b t where a: "k_current k = Some a" and n: "from_clone env now a u s cf tls ptid ctid k = Some (b, t)" "k' = push_task_to_scheduler b t"
    using c False f by (auto simp: sys_clone_def split: bind_splits dest!: current_task_SomeD)
  note ad = from_clone_adds [OF n(1)]
  have inv: "procs_inv {} {} (e_bf env) k" using ok by (simp add: procs_ok_def)
  have "par = Some x \<Longrightarrow> k_current k = Some x" if "par = (if flags_contains cf CLONE_PARENT then None else Some a)" for par x
    using a that by (auto split: if_splits)
  note i = adds_inv [OF ad inv this [OF refl]]
  have "k_current t = k_current k" "k_leaked t = k_leaked k" using ad by (auto simp: adds_task_def)
  then show ?thesis using push_inv [OF i(1) _ _ i(2,3)] i(4) n(2) by (auto simp: procs_ok_def push_task_to_scheduler_def)
qed

subsection \<open>Loading and running\<close>

lemma from_app_name_adds:
  assumes "from_app_name env now dir ppid args k = Some (Some c, k')"
  shows "adds_task (e_bf env) None c k k'"
proof -
  obtain nm rest where args: "args = nm # rest" using assms by (cases args) (auto simp: from_app_name_def)
  have ex: "e_exists env dir nm" using assms by (auto simp: from_app_name_def args split: if_splits)
  obtain ms m ms' w en us where l: "new_memory_set_for_task (e_bf env) (e_pt_addr env (k_next k)) (e_kernel_ms env) (fst (k_world k)) = Some (Inr ms, m)"
    "e_loader env dir nm args ms (m, snd (k_world k)) = Some (Inr (en, us), ms', w)"
    using assms ex by (auto simp: from_app_name_def args split: bind_splits sum.splits prod.splits)
  let ?k1 = "k\<lparr>k_next := Suc (k_next k), k_vms := (k_vms k)(k_next k := ms'), k_world := w\<rparr>"
  obtain stack k2 where k2: "new_kernel_stack env ?k1 = Some (stack, k2)"
    using assms ex l by (auto simp: from_app_name_def args Let_def split: bind_splits)
  obtain n k3 where k3: "new_tid env k2 = Some (n, k3)"
    using assms ex l k2 by (auto simp: from_app_name_def args Let_def split: bind_splits)
  obtain tids where t: "tid_new (e_bf env) (k_tids k2) = Some (Some (Tid n), tids)" "k3 = k2\<lparr>k_tids := tids\<rparr>" by (rule new_tid_spec [OF k3])
  let ?k4 = "k3\<lparr>k_next := Suc (k_next k3), k_handlers := (k_handlers k3)(k_next k3 := handlers_new)\<rparr>"
  obtain rs k5 where k5: "new_receivers n ?k4 = (rs, k5)" by fastforce
  obtain fdm where fd: "(case e_stdio env of (i, out, err) \<Rightarrow> fd_manager_new (e_bf env) i out err 0) = Some fdm"
    using assms ex l k2 k3 k5 by (auto simp: from_app_name_def args Let_def split: bind_splits)
  let ?k6 = "k5\<lparr>k_next := Suc (k_next k5), k_fds := (k_fds k5)(k_next k5 := fdm)\<rparr>"
  have same: "same_procs ?k1 k2" "same_procs ?k4 k5" using new_kernel_stack_same [OF k2] new_receivers_same [of ?k4 n] k5 by simp_all
  then have e: "k_tasks ?k6 = k_tasks k" "k_queue ?k6 = k_queue k" "k_current ?k6 = k_current k" "k_leaked ?k6 = k_leaked k" "k_tids ?k6 = tids"
    "k_tids k2 = k_tids k" "k_next k \<le> k_next ?k6" using t(2) by (auto simp: same_procs_def)
  define new where "new = \<lparr>t_kernel_stack = stack, t_pid = n, t_tid = n, t_sigchld = True, t_handlers = k_next k3, t_receivers = rs,
      t_vm = k_next k, t_fds = k_next k5, t_time = time_stat_new now (of_nat n), t_dir = dir, t_ppid = ppid, t_heap_top = USER_STACK_OFFSET,
      t_status = Ready, t_cx = goto_restore (e_restore env) (get_first_context stack), t_parent = None, t_children = [], t_exit_code = 0,
      t_set_child_tid = 0, t_clear_child_tid = 0, t_saved_cx = None, t_siginfo = False, t_trap_cx = app_init_context (e_sstatus env) en us\<rparr>"
  have n: "t_tid new = n" "t_status new = Ready" "t_children new = []" by (simp_all add: new_def)
  have "c = k_next ?k6" "k' = set_task (k_next ?k6) new (?k6\<lparr>k_next := Suc (k_next ?k6)\<rparr>)"
    using assms ex l k2 k3 k5 fd by (auto simp: from_app_name_def args Let_def new_def)
  then show ?thesis
    using e t(1) n unfolding adds_task_def by (intro exI [of _ new] exI [of _ tids]) (simp add: set_task_def)
qed

lemma load_adds:
  assumes "load_next_testcase env now k = Some (Some c, k')"
  shows "adds_task (e_bf env) None c k k'"
proof -
  obtain cmd rest where "k_cases k = cmd # rest" using assms by (auto simp: load_next_testcase_def split: list.splits)
  then have "from_app_name env now ROOT_DIR NO_PARENT (split_argv cmd)
      (k\<lparr>k_cases := rest, k_tests := test_load cmd (k_tests k)\<rparr>) = Some (Some c, k')"
    using assms by (auto simp: load_next_testcase_def Let_def split: bind_splits)
  from from_app_name_adds [OF this] show ?thesis by (simp add: adds_task_def)
qed

text \<open>The task that was picked is held by \<^verbatim>\<open>run_tasks\<close>.\<close>

lemma pick_inv:
  assumes inv: "procs_inv {} {} (e_bf env) k" and idle: "k_current k = None"
    and p: "pick_task (load_next_testcase env now) tid_in clock i (k_board k) (k_queue k) k = Some (a, i', board, q, k1)"
    and k2: "k2 = k1\<lparr>k_board := board, k_queue := q\<rparr>"
  shows "procs_inv {} {a} (e_bf env) k2" "a \<notin> set (ready_queue (k_queue k2))" "k_current k2 = None" "\<exists>t. k_tasks k2 a = Some t"
    "k_leaked k2 = k_leaked k"
proof -
  have "procs_inv {} {a} (e_bf env) k2 \<and> a \<notin> set (ready_queue (k_queue k2)) \<and> k_current k2 = None \<and> (\<exists>t. k_tasks k2 a = Some t) \<and>
      k_leaked k2 = k_leaked k"
  proof (cases "ready_queue (k_queue k) = []")
    case True
    then have l: "load_next_testcase env now k = Some (Some a, k1)" "ready_queue q = []" using pick_task_result [OF p] by simp_all
    note ad = load_adds [OF l(1)]
    have q: "ready_queue (k_queue k1) = []" "k_current k1 = None" "k_leaked k1 = k_leaked k" using ad True idle by (auto simp: adds_task_def)
    have ai: "procs_inv {} {a} (e_bf env) k1" "\<exists>t. k_tasks k1 a = Some t" using adds_inv(1,4) [OF ad inv] by auto
    have "q = k_queue k1" using l(2) q(1) by (simp add: scheduler.equality)
    then have "tame k1 k2" by (simp add: tame_def k2)
    then have "procs_inv {} {a} (e_bf env) k2" using ai(1) by (rule tame_inv)
    then show ?thesis using ai(2) q l(2) by (simp add: k2)
  next
    case False
    then have m: "k1 = k" "mset (ready_queue (k_queue k)) = add_mset a (mset (ready_queue q))" using pick_task_result [OF p] by simp_all
    have s: "set (ready_queue (k_queue k)) = insert a (set (ready_queue q))" using m(2) by (metis set_mset_add_mset_insert set_mset_mset)
    have "mset (ready_queue (k_queue k)) = mset (a # ready_queue q)" using m(2) by simp
    then have "distinct (a # ready_queue q)" using procs_invD(10) [OF inv] mset_eq_imp_distinct_iff by blast
    then have d: "distinct (ready_queue q)" "a \<notin> set (ready_queue q)" by simp_all
    obtain t where t: "k_tasks k a = Some t" "t_status t = Ready" using procs_invD(6) [OF inv, of a] s by auto
    have "procs_inv {} {a} (e_bf env) k2"
      by (rule procs_inv_move [OF inv t(1), where s = Ready and t' = t and q = "ready_queue q" and cur = None])
        (use d s idle t m(1) in \<open>auto simp: skel_def k2\<close>)
    then show ?thesis using d t idle m(1) by (simp add: k2)
  qed
  then show "procs_inv {} {a} (e_bf env) k2" "a \<notin> set (ready_queue (k_queue k2))" "k_current k2 = None" "\<exists>t. k_tasks k2 a = Some t"
    "k_leaked k2 = k_leaked k" by simp_all
qed

lemma run_inv:
  assumes ok: "procs_ok (e_bf env) k" and idle: "k_current k = None" and r: "run_next env now clock i k = Some k'"
  shows "procs_ok (e_bf env) k'" "k_leaked k' = k_leaked k"
proof -
  let ?pick = "pick_task (load_next_testcase env now) tid_in clock i (k_board k) (k_queue k) k"
  obtain y where y: "?pick = Some y" using r unfolding run_next_def by (cases ?pick) simp_all
  obtain a i' board q k1 where "y = (a, i', board, q, k1)" by (rule prod_cases5)
  with y have p: "?pick = Some (a, i', board, q, k1)" by simp
  have e: "enter_task (get_time_us (clock i')) a (k1\<lparr>k_board := board, k_queue := q\<rparr>) = Some k'"
    using r unfolding run_next_def p by simp
  note i = pick_inv [OF ok [unfolded procs_ok_def] idle p refl]
  obtain t where t: "k_tasks (k1\<lparr>k_board := board, k_queue := q\<rparr>) a = Some t" using i(4) by blast
  show "procs_ok (e_bf env) k'" unfolding procs_ok_def by (rule enter_inv [OF i(1) t i(2,3) e])
  show "k_leaked k' = k_leaked k" using enter_task_leaked [OF e] i(5) by simp
qed

subsection \<open>The effect of a system call\<close>

text \<open>The parts of the invariant that a step starts from and ends in.\<close>

definition good :: "('f, 's) kenv \<Rightarrow> ('f, 's) kernel \<Rightarrow> ('f, 's) kernel \<Rightarrow> bool" where
  "good env k k' \<longleftrightarrow> procs_ok (e_bf env) k' \<and> k_current k' = k_current k \<and> k_leaked k' = k_leaked k"

definition suspends :: "('f, 's) kenv \<Rightarrow> ('f, 's) kernel \<Rightarrow> ('f, 's) kernel \<Rightarrow> bool" where
  "suspends env k k' \<longleftrightarrow> (\<exists>k1. good env k k1 \<and> suspend_current_task k1 = Some k')"

definition exits :: "('f, 's) kenv \<Rightarrow> ('f, 's) kernel \<Rightarrow> ('f, 's) kernel \<Rightarrow> bool" where
  "exits env k k' \<longleftrightarrow> (\<exists>k1 code. good env k k1 \<and> exit_current_task env code k1 = Some k')"

fun effect :: "('f, 's) kenv \<Rightarrow> ('f, 's) kernel \<Rightarrow> flow \<Rightarrow> ('f, 's) kernel \<Rightarrow> bool" where
  "effect env k (FlowReturn r) k' \<longleftrightarrow> good env k k'"
| "effect env k (FlowSuspend r) k' \<longleftrightarrow> suspends env k k'"
| "effect env k FlowRetry k' \<longleftrightarrow> suspends env k k'"
| "effect env k FlowExit k' \<longleftrightarrow> exits env k k'"
| "effect env k FlowRestart k' \<longleftrightarrow> good env k k'"

text \<open>What is assumed of the system calls of other modules: they return, or suspend the current task, and do not touch the tasks otherwise.\<close>

definition other_ok :: "(usize \<Rightarrow> usize list \<Rightarrow> ('f, 's) kernel \<Rightarrow> (flow \<times> ('f, 's) kernel) option) \<Rightarrow> bool" where
  "other_ok other \<longleftrightarrow> (\<forall>id args k f k'. other id args k = Some (f, k') \<longrightarrow>
     (case f of
        FlowReturn r \<Rightarrow> tame k k'
      | FlowExit \<Rightarrow> False
      | FlowRestart \<Rightarrow> False
      | _ \<Rightarrow> \<exists>k1. tame k k1 \<and> suspend_current_task k1 = Some k'))"

lemma good_refl: "procs_ok (e_bf env) k \<Longrightarrow> good env k k"
  by (simp add: good_def)

lemma tame_good: "procs_ok (e_bf env) k \<Longrightarrow> tame k k' \<Longrightarrow> good env k k'"
  by (simp add: good_def tame_ok tame_current tame_leaked)

lemma suspend_suspends: "suspend_current_task k1 = Some k' \<Longrightarrow> procs_ok (e_bf env) k \<Longrightarrow> tame k k1 \<Longrightarrow> suspends env k k'"
  unfolding suspends_def using tame_good by blast

lemma exit_exits: "exit_current_task env code k1 = Some k' \<Longrightarrow> procs_ok (e_bf env) k \<Longrightarrow> tame k k1 \<Longrightarrow> exits env k k'"
  unfolding exits_def using tame_good by blast

lemma ret_effect: "ret r = Some (f, k') \<Longrightarrow> (\<And>x. r = Some (x, k') \<Longrightarrow> good env k k') \<Longrightarrow> effect env k f k'"
  by (auto simp: ret_def)

lemma ret_tame: "ret r = Some (f, k') \<Longrightarrow> procs_ok (e_bf env) k \<Longrightarrow> (\<And>x. r = Some (x, k') \<Longrightarrow> tame k k') \<Longrightarrow> effect env k f k'"
  by (rule ret_effect) (blast intro: tame_good)+

lemma release_leaked: "release env a k = Some k' \<Longrightarrow> k_leaked k' = k_leaked k \<and> k_current k' = k_current k"
  by (auto simp: release_def split: if_splits elim: drop_task_spec)

lemma release_all_leaked: "release_all env cs k = Some k' \<Longrightarrow> k_leaked k' = k_leaked k"
  by (induction cs arbitrary: k) (auto split: bind_splits dest!: release_leaked)

lemma wait_leaked: "waitpid env pid ptr k = Some (r, k') \<Longrightarrow> k_leaked k' = k_leaked k \<and> k_current k' = k_current k"
  by (auto simp: waitpid_def Let_def set_task_def split: bind_splits if_splits dest!: release_leaked put_user_same simp: same_procs_def)

lemma wait4_effect:
  assumes ok: "procs_ok (e_bf env) k" and w: "sys_wait4 env pid ptr opt k = Some (f, k')"
  shows "effect env k f k'"
proof -
  obtain r k1 where k1: "waitpid env pid ptr k = Some (r, k1)" using w by (auto simp: sys_wait4_def wait4_round_def split: bind_splits)
  have g: "good env k k1" using wait_inv [OF ok k1] wait_leaked [OF k1] by (simp add: good_def)
  show ?thesis using w k1 g by (auto simp: sys_wait4_def wait4_round_def suspends_def split: if_splits bind_splits)
qed

lemma futex_wait_effect:
  assumes ok: "procs_ok (e_bf env) k" and w: "sys_futex env ua fl v v2 ua2 v3 k = Some (f, k')" "operation fl = FutexWAIT"
  shows "effect env k f k'"
proof -
  obtain a t where c: "current_task k = Some (a, t)" using w by (auto simp: sys_futex_def split: bind_splits)
  obtain b k1 where k1: "alloc_page env (t_vm t) ua k = Some (b, k1)" using w c by (auto simp: sys_futex_def split: bind_splits)
  note t1 = alloc_page_tame [OF k1]
  show ?thesis
  proof (cases f)
    case (FlowSuspend r)
    then obtain to k2 where "futex_timeout env (t_vm t) v2 k1 = Some (to, k2)"
      "suspend_current_task (k2\<lparr>k_board := set_waiter_for_thread (k_board k2) (t_tid t) (futex_waiter_new to)\<rparr>) = Some k'"
      using w c k1 by (auto simp: sys_futex_def Let_def split: bind_splits if_splits)
    then show ?thesis using FlowSuspend t1 suspend_suspends [OF _ ok] futex_timeout_tame tame_trans tame_updates(6) by (metis effect.simps(2))
  qed (use w c k1 t1 in \<open>auto simp: sys_futex_def Let_def intro: tame_good [OF ok] split: bind_splits if_splits\<close>)
qed

lemma futex_effect:
  assumes ok: "procs_ok (e_bf env) k" and w: "sys_futex env ua fl v v2 ua2 v3 k = Some (f, k')"
  shows "effect env k f k'"
proof (cases "operation fl")
  case FutexWAIT
  then show ?thesis by (rule futex_wait_effect [OF ok w])
next
  case FutexWAKE
  then show ?thesis using w suspend_suspends [OF _ ok tame_refl] by (auto simp: sys_futex_def split: bind_splits)
qed (use ok w in \<open>auto simp: sys_futex_def intro: good_refl split: bind_splits\<close>)

lemma exec_effect:
  assumes ok: "procs_ok (e_bf env) k" and w: "sys_execve env now p args envs k = Some (f, k')"
  shows "effect env k f k'"
proof -
  obtain a t nm as b k1 where k1: "current_task k = Some (a, t)" "raw_ptr_to_string (ms_pt (k_vms k (t_vm t))) p (fst (k_world k)) = Some nm"
    "str_ptr_array_to_vec_string (ms_pt (k_vms k (t_vm t))) args (fst (k_world k)) = Some as" "task_exec env now a nm as k = Some (b, k1)"
    using w by (auto simp: sys_execve_def sys_exec_def Let_def split: bind_splits)
  show ?thesis
    using w k1 tame_good [OF ok task_exec_tame [OF k1(4)]] exit_exits [OF _ ok task_exec_tame [OF k1(4)]]
    by (auto simp: sys_execve_def sys_exec_def sys_exit_def Let_def split: if_splits)
qed

lemma other_effect:
  assumes ok: "procs_ok (e_bf env) k" and o: "other_ok other" "other nr args k = Some (f, k')"
  shows "effect env k f k'"
proof -
  have "case f of FlowReturn r \<Rightarrow> tame k k' | FlowExit \<Rightarrow> False | FlowRestart \<Rightarrow> False
      | _ \<Rightarrow> \<exists>k1. tame k k1 \<and> suspend_current_task k1 = Some k'" using o unfolding other_ok_def by blast
  then show ?thesis by (cases f) (auto intro: tame_good [OF ok] suspend_suspends [OF _ ok])
qed

lemmas call_tame = sys_brk_tame sys_set_tid_address_tame sys_mmap_tame sys_munmap_tame sys_mprotect_tame sys_msync_tame sys_uname_tame
  sys_sysinfo_tame sys_sigreturn_tame sys_prlimt64_tame sys_sigprocmask_tame sys_sigaction_tame

lemma syscall_match_effect:
  assumes ok: "procs_ok (e_bf env) k" and o: "other_ok other"
    and m: "syscall_match env other now t nr no args k = Some (f, k')"
  shows "effect env k f k'"
proof -
  note m' = m [unfolded syscall_match_def Let_def]
  have call: "effect env k f k'" if "ret r = Some (f, k')" "\<And>x. r = Some (x, k') \<Longrightarrow> tame k k'" for r
    by (rule ret_tame [OF that(1) ok that(2)])
  have answer: "effect env k f k'" if "ret (map_option (\<lambda>r. (r, k)) x) = Some (f, k')" for x
    by (rule call [OF that]) auto
  have kills: "effect env k f k'" if "ret (Some y) = Some (f, k')" "tame k (snd y)" for y
    by (rule call [OF that(1)]) (use that(2) in auto)
  show ?thesis
  proof (cases no)
    case SYS_CLONE
    then show ?thesis using m' clone_inv [OF ok] by (intro ret_effect) (auto simp: good_def)
  next
    case SYS_WAIT4
    then show ?thesis using m' wait4_effect [OF ok] by (auto split: bind_splits)
  next
    case SYS_FUTEX
    then show ?thesis using m' futex_effect [OF ok] by simp
  next
    case SYS_EXECVE
    then show ?thesis using m' exec_effect [OF ok] by simp
  next
    case SYS_YIELD
    then show ?thesis using m' suspend_suspends [OF _ ok tame_refl] by (auto simp: sys_yield_def)
  qed (use m' good_refl [OF ok] exit_exits [OF _ ok tame_refl] other_effect [OF ok o] in
      \<open>auto simp: sys_exit_def sys_kill_tame sys_tkill_tame split: bind_splits elim!: call kills answer dest: call_tame\<close>)
qed

end
