(* ===== verification/Process_Steps.thy ===== *)
theory Process_Steps
  imports Process_Calls
begin

text \<open>
  The kernel as a state machine on its processes. \<open>kstep\<close> has a rule for every way a trap, a switch or the idle loop changes the state;
  it does not keep track of which part of a trap a task is in, so it has more runs than the kernel. The main result is that
  \<open>procs_ok\<close> holds in every reachable state.
\<close>

subsection \<open>Traps\<close>

lemma handle_zombie_leaked: "handle_zombie_task env a k = Some k' \<Longrightarrow> k_leaked k' = k_leaked k"
  by (auto simp: handle_zombie_task_def Let_def set_task_def orphan_children_spec split: bind_splits if_splits dest!: release_all_leaked)

lemma switched_out_leaked: "switched_out env now k = Some k' \<Longrightarrow> k_leaked k' = k_leaked k"
  by (auto simp: switched_out_def Let_def set_task_def push_task_to_scheduler_def split: bind_splits prod.splits task_status.splits
      dest!: handle_zombie_leaked release_leaked)

lemma exit_current_leaked: "exit_current_task env code k = Some k' \<Longrightarrow> k_leaked k' = k_leaked k"
  by (auto simp: exit_current_task_def Let_def set_task_def same_procs_def split: bind_splits if_splits dest!: put_user_alloc_same)

lemma suspend_leaked: "suspend_current_task k = Some k' \<Longrightarrow> k_leaked k' = k_leaked k"
  by (auto simp: suspend_current_task_def set_task_def split: bind_splits)

lemma switched_out_suspended:
  assumes "suspends env k k1" "switched_out env now k1 = Some k'"
  shows "procs_ok (e_bf env) k'" "k_leaked k' = k_leaked k"
proof -
  obtain k0 where k0: "good env k k0" "suspend_current_task k0 = Some k1" using assms(1) by (auto simp: suspends_def)
  show "procs_ok (e_bf env) k'" using yield_inv [OF _ k0(2) assms(2)] k0(1) by (simp add: good_def)
  show "k_leaked k' = k_leaked k" using switched_out_leaked [OF assms(2)] suspend_leaked [OF k0(2)] k0(1) by (simp add: good_def)
qed

lemma switched_out_exited:
  assumes "exits env k k1" "switched_out env now k1 = Some k'"
  shows "procs_ok (e_bf env) k'" "k_leaked k' = k_leaked k"
proof -
  obtain k0 code where k0: "good env k k0" "exit_current_task env code k0 = Some k1" using assms(1) by (auto simp: exits_def)
  show "procs_ok (e_bf env) k'" using exit_inv [OF _ k0(2) assms(2)] k0(1) by (simp add: good_def)
  show "k_leaked k' = k_leaked k" using switched_out_leaked [OF assms(2)] exit_current_leaked [OF k0(2)] k0(1) by (simp add: good_def)
qed

lemma good_tame: "good env k k1 \<Longrightarrow> tame k1 k2 \<Longrightarrow> good env k k2"
  by (simp add: good_def tame_ok tame_current tame_leaked)

lemma syscall_effect:
  assumes "procs_ok (e_bf env) k" "other_ok other" "syscall env other now t nr args k = Some (f, k')"
  shows "effect env k f k'"
proof -
  obtain kill lc where lc: "check_dead_loop nr (k_loop k) = (kill, lc)" by fastforce
  let ?k = "k\<lparr>k_loop := lc\<rparr>"
  have t: "tame k ?k" by simp
  have ok: "procs_ok (e_bf env) ?k" by (rule tame_ok [OF t assms(1)])
  have e: "effect env ?k f k' \<Longrightarrow> effect env k f k'" by (cases f) (simp_all add: good_def suspends_def exits_def)
  show ?thesis
  proof (cases kill)
    case True
    then show ?thesis using assms(3) lc exit_exits [OF _ assms(1) t] by (auto simp: syscall_def sys_exit_def)
  next
    case False
    then show ?thesis using assms(3) lc e syscall_match_effect [OF ok assms(2)] tame_good [OF assms(1) t]
      by (auto simp: syscall_def Let_def split: option.splits)
  qed
qed

fun trap_effect :: "('f, 's) kenv \<Rightarrow> ('f, 's) kernel \<Rightarrow> trap_next \<Rightarrow> ('f, 's) kernel \<Rightarrow> bool" where
  "trap_effect env k TrapExit k' \<longleftrightarrow> exits env k k'"
| "trap_effect env k (TrapSwitch f) k' \<longleftrightarrow> suspends env k k'"
| "trap_effect env k _ k' \<longleftrightarrow> good env k k'"

lemma effect_tame: "tame k k1 \<Longrightarrow> effect env k1 f k2 \<Longrightarrow> effect env k f k2"
  by (cases f) (auto simp: good_def suspends_def exits_def tame_current tame_leaked)

lemma env_call_effect:
  assumes ok: "procs_ok (e_bf env) k" and o: "other_ok other" and m: "user_trap_match env other now t UserEnvCall stval k = Some (nx, k')"
  shows "trap_effect env k nx k'"
proof -
  obtain k1 where k1: "set_cx (\<lambda>cx. cx\<lparr>tc_sepc := tc_sepc cx + 4\<rparr>) k = Some k1" using m by (auto simp: user_trap_match_def split: bind_splits)
  obtain a t1 where c: "current_task k1 = Some (a, t1)" using m k1 by (auto simp: user_trap_match_def split: bind_splits)
  let ?x = "tc_x (t_trap_cx t1)"
  obtain f k2 where f: "syscall env other now t (?x ! 17) [?x ! 10, ?x ! 11, ?x ! 12, ?x ! 13, ?x ! 14, ?x ! 15] k1 = Some (f, k2)"
    using m k1 c by (auto simp: user_trap_match_def Let_def split: bind_splits)
  have t1: "tame k k1" by (rule set_cx_tame [OF k1])
  have e: "effect env k f k2" by (rule effect_tame [OF t1 syscall_effect [OF tame_ok [OF t1 ok] o f]])
  show ?thesis
  proof (cases f)
    case (FlowReturn r)
    then obtain k3 where "set_cx (set_a0 (sys_value r)) k2 = Some k3" "nx = TrapSignals" "k' = k3"
      using m k1 c f by (auto simp: user_trap_match_def Let_def)
    then show ?thesis using good_tame [OF _ set_cx_tame] e FlowReturn by simp
  qed (use m k1 c f e in \<open>auto simp: user_trap_match_def Let_def\<close>)
qed

lemma send_segv_tame: "send_segv k = Some k' \<Longrightarrow> tame k k'"
  by (auto simp: send_segv_def split: bind_splits)

lemma handle_user_page_fault_tame: "handle_user_page_fault env v fl k = Some (r, k') \<Longrightarrow> tame k k'"
  by (auto simp: handle_user_page_fault_def split: option.splits bind_splits prod.splits)

lemma page_fault_effect:
  assumes ok: "procs_ok (e_bf env) k" and p: "page_fault_or_segv env v fl k = Some (nx, k')"
  shows "trap_effect env k nx k'"
proof -
  obtain r k1 where k1: "handle_user_page_fault env v fl k = Some (r, k1)" using p by (auto simp: page_fault_or_segv_def split: bind_splits)
  have "good env k k1" by (rule tame_good [OF ok handle_user_page_fault_tame [OF k1]])
  then show ?thesis using p k1 by (auto simp: page_fault_or_segv_def split: sum.splits dest!: send_segv_tame intro: good_tame)
qed

lemma signal_return_tame: "signal_return k = Some (r, k') \<Longrightarrow> tame k k'"
  by (auto simp: signal_return_def split: bind_splits if_splits dest!: load_trap_cx_tame)

lemma user_trap_match_effect:
  assumes ok: "procs_ok (e_bf env) k" and o: "other_ok other" and m: "user_trap_match env other now t cause stval k = Some (nx, k')"
  shows "trap_effect env k nx k'"
proof (cases cause)
  case UserEnvCall
  then show ?thesis using env_call_effect [OF ok o] m by blast
next
  case InstructionPageFault
  show ?thesis
  proof (cases "stval = SIGNAL_RETURN_TRAP")
    case True
    then obtain r k1 where k1: "signal_return k = Some (r, k1)" "set_cx (set_a0 r) k1 = Some k'" "nx = TrapReturn"
      using m InstructionPageFault by (auto simp: user_trap_match_def split: bind_splits)
    then show ?thesis using tame_good [OF ok tame_trans [OF signal_return_tame set_cx_tame]] by simp
  next
    case False
    then show ?thesis using m InstructionPageFault page_fault_effect [OF ok] by (simp add: user_trap_match_def)
  qed
next
  case SupervisorTimer
  then show ?thesis using m suspend_suspends [OF _ ok tame_refl] by (auto simp: user_trap_match_def)
qed (use m page_fault_effect [OF ok] tame_good [OF ok send_segv_tame] in \<open>auto simp: user_trap_match_def\<close>)

subsection \<open>Signals\<close>

lemma enter_handler_tame: "enter_handler a sn act m k = Some k' \<Longrightarrow> tame k k'"
  by (auto simp: enter_handler_def save_if_set_siginfo_def Let_def tame_def same_procs_def set_task_def skel_def split: bind_splits if_splits
      dest!: put_user_same)

text \<open>An exit inside \<^verbatim>\<open>handle_signals\<close> starts from a good state with one more leaked task, the current one.\<close>

definition leaves :: "('f, 's) kenv \<Rightarrow> ('f, 's) kernel \<Rightarrow> ('f, 's) kernel \<Rightarrow> bool" where
  "leaves env k k' \<longleftrightarrow> (\<exists>k1 code a. procs_ok (e_bf env) k1 \<and> k_current k = Some a \<and> k_leaked k1 = insert a (k_leaked k) \<and>
     exit_current_task env code k1 = Some k')"

lemma leak_inv:
  assumes "procs_ok bf k" "k_current k = Some a"
  shows "procs_ok bf (k\<lparr>k_leaked := insert a (k_leaked k), k_locked := l\<rparr>)"
proof -
  have inv: "procs_inv {} {} bf k" using assms(1) by (simp add: procs_ok_def)
  have "a \<in> dom (k_tasks k)" using procs_invD(8) [OF inv assms(2)] by blast
  then show ?thesis unfolding procs_ok_def by (intro procs_inv_skel [OF _ _ _ _ _ _ _ inv]) (simp_all add: subset_insertI)
qed

lemma abandon_leaves:
  assumes "procs_ok (e_bf env) k" "tame k k1" "k_current k = Some a" "abandon env a held code k1 = Some (b, k')"
  shows "\<not> b \<and> leaves env k k'"
proof -
  let ?k1 = "k1\<lparr>k_leaked := insert a (k_leaked k1), k_locked := held \<union> k_locked k1\<rparr>"
  have "procs_ok (e_bf env) ?k1" using leak_inv [OF tame_ok [OF assms(2,1)]] tame_current [OF assms(2)] assms(3) by simp
  moreover have "exit_current_task env code ?k1 = Some k'" "\<not> b" using assms(4) by (auto simp: abandon_def)
  ultimately show ?thesis using assms(3) tame_leaked [OF assms(2)] unfolding leaves_def by (intro conjI exI [of _ ?k1] exI [of _ code] exI [of _ a]) simp_all
qed

lemma deliver_effect:
  assumes "procs_ok (e_bf env) k" "tame k k1" "k_current k = Some a" "deliver env a t sn m k1 = Some (b, k')"
  shows "if b then tame k k' else leaves env k k'"
proof -
  obtain act where act: "get_action_ref (k_handlers k1 (t_handlers t)) sn = Some act" using assms(4) by (auto simp: deliver_def split: bind_splits)
  show ?thesis
  proof (cases act)
    case (Some ac)
    then show ?thesis using assms(2,4) act tame_trans [OF assms(2) enter_handler_tame] by (cases "sa_handler ac = SIG_IGN") (auto simp: deliver_def)
  next
    case None
    then show ?thesis
      using assms(4) act abandon_leaves [OF assms(1-3)] tame_trans [OF assms(2) load_trap_cx_tame]
      by (cases "of_signal (signal_no_from sn)") (auto simp: deliver_def)
  qed
qed

lemma handle_signals_effect:
  assumes ok: "procs_ok (e_bf env) k" and h: "handle_signals env k = Some (b, k')"
  shows "if b then tame k k' else leaves env k k'"
proof -
  obtain a t where c: "k_current k = Some a" "k_tasks k a = Some t" "current_task k = Some (a, t)"
    using h by (auto simp: handle_signals_def split: bind_splits dest: current_task_SomeD)
  have l: "lock_at (t_receivers t) k = Some ()" "lock_at (t_handlers t) k = Some ()" using h c(3) by (auto simp: handle_signals_def split: bind_splits)
  obtain sn rs where g: "get_one_signal (receiver_store (k_signals k) (t_receivers t)) = (sn, rs)" by fastforce
  let ?k1 = "set_receivers (t_receivers t) rs k"
  have t1: "tame k ?k1" by simp
  show ?thesis
  proof (cases sn)
    case None
    then show ?thesis using h c(3) l g by (auto simp: handle_signals_def)
  next
    case (Some n)
    show ?thesis
    proof (cases "t_saved_cx t")
      case None
      let ?t = "t\<lparr>t_saved_cx := Some (t_trap_cx t), t_siginfo := False\<rparr>"
      have "tame k (set_task a ?t ?k1)"
        using c(2) by (intro tame_trans [OF t1 tame_set_task [of _ a t]]) (simp_all add: set_receivers_def skel_def)
      moreover have "deliver env a ?t n (sig_mask rs) (set_task a ?t ?k1) = Some (b, k')"
        using h c(3) l g Some None by (simp add: handle_signals_def save_trap_cx_if_not_handling_signals_def Let_def)
      ultimately show ?thesis by (rule deliver_effect [OF ok _ c(1)])
    next
      case cx: (Some cx)
      show ?thesis
      proof (cases "signal_no_from n = SIGSEGV \<or> signal_no_from n = SIGBUS")
        case True
        then have "abandon env a {t_receivers t, t_handlers t} (- 1) ?k1 = Some (b, k')"
          using h c(3) l g Some cx by (auto simp: handle_signals_def save_trap_cx_if_not_handling_signals_def Let_def)
        from abandon_leaves [OF ok t1 c(1) this] show ?thesis by simp
      next
        case False
        then show ?thesis using h c(3) l g Some cx t1 by (simp add: handle_signals_def save_trap_cx_if_not_handling_signals_def Let_def)
      qed
    qed
  qed
qed

subsection \<open>Steps\<close>

inductive kstep ::
  "('f, 's) kenv \<Rightarrow> (usize \<Rightarrow> usize list \<Rightarrow> ('f, 's) kernel \<Rightarrow> (flow \<times> ('f, 's) kernel) option) \<Rightarrow>
     ('f, 's) kernel \<Rightarrow> ('f, 's) kernel \<Rightarrow> bool" for env other where
  idle: "k_current k = None \<Longrightarrow> run_next env now clock i k = Some k' \<Longrightarrow> kstep env other k k'"
| user: "set_cx f k = Some k1 \<Longrightarrow> kstep env other k (k1\<lparr>k_world := w\<rparr>)"
| trap: "trap_enter env other n0 n1 t cause stval k = Some (nx, k') \<Longrightarrow> nx \<in> {TrapSignals, TrapReturn, TrapRestart} \<Longrightarrow>
    kstep env other k k'"
| trap_switch: "trap_enter env other n0 n1 t cause stval k = Some (nx, k1) \<Longrightarrow> nx \<in> insert TrapExit (range TrapSwitch) \<Longrightarrow>
    switched_out env now k1 = Some k' \<Longrightarrow> kstep env other k k'"
| resume: "set_cx (set_a0 (sys_value r)) k = Some k' \<Longrightarrow> kstep env other k k'"
| retry: "syscall_match env other now t nr no args k = Some (FlowReturn r, k1) \<Longrightarrow> set_cx (set_a0 (sys_value r)) k1 = Some k' \<Longrightarrow>
    kstep env other k k'"
| retry_switch: "syscall_match env other now t nr no args k = Some (f, k1) \<Longrightarrow> f = FlowRetry \<or> f = FlowSuspend r \<Longrightarrow>
    switched_out env now' k1 = Some k' \<Longrightarrow> kstep env other k k'"
| leave: "trap_leave env now sg k = Some (True, k') \<Longrightarrow> kstep env other k k'"
| killed: "trap_leave env now sg k = Some (False, k1) \<Longrightarrow> switched_out env now' k1 = Some k' \<Longrightarrow> kstep env other k k'"

inductive_cases kstepE: "kstep env other k k'"

lemma trap_enter_effect:
  assumes "procs_ok (e_bf env) k" "other_ok other" "trap_enter env other n0 n1 t cause stval k = Some (nx, k')"
  shows "trap_effect env k nx k'"
proof -
  obtain k1 k2 where k: "set_time (timer_user_to_kernel n0) k = Some k1" "set_time (timer_user_to_kernel n1) k1 = Some k2"
    and m: "user_trap_match env other n1 t cause stval k2 = Some (nx, k')"
    using assms(3) by (auto simp: trap_enter_def split: bind_splits)
  have t: "tame k k2" by (rule tame_trans [OF set_time_tame set_time_tame]) (rule k)+
  have "trap_effect env k2 nx k'" by (rule user_trap_match_effect [OF tame_ok [OF t assms(1)] assms(2) m])
  then show ?thesis using tame_current [OF t] tame_leaked [OF t] by (cases nx) (auto simp: good_def suspends_def exits_def)
qed

lemma trap_leave_effect:
  assumes ok: "procs_ok (e_bf env) k" and l: "trap_leave env now sg k = Some (b, k')"
  shows "if b then tame k k' else leaves env k k'"
proof -
  obtain c k1 where k1: "(if sg then handle_signals env k else Some (True, k)) = Some (c, k1)" using l by (auto simp: trap_leave_def split: bind_splits)
  have e: "if c then tame k k1 else leaves env k k1" using k1 handle_signals_effect [OF ok] by (cases sg) auto
  show ?thesis
  proof (cases c)
    case True
    then have "b" "set_time (timer_kernel_to_user now) k1 = Some k'" using l k1 by (auto simp: trap_leave_def)
    then show ?thesis using tame_trans [OF _ set_time_tame] e True by simp
  next
    case False
    then show ?thesis using l k1 e by (auto simp: trap_leave_def)
  qed
qed

lemma switched_out_left:
  assumes "leaves env k k1" "switched_out env now k1 = Some k'"
  shows "procs_ok (e_bf env) k'" "k_leaked k \<subseteq> k_leaked k'"
proof -
  obtain k0 code a where k0: "procs_ok (e_bf env) k0" "k_leaked k0 = insert a (k_leaked k)" "exit_current_task env code k0 = Some k1"
    using assms(1) by (auto simp: leaves_def)
  show "procs_ok (e_bf env) k'" by (rule exit_inv [OF k0(1,3) assms(2)])
  show "k_leaked k \<subseteq> k_leaked k'" using switched_out_leaked [OF assms(2)] exit_current_leaked [OF k0(3)] k0(2) by auto
qed

lemma kstep_inv:
  assumes "kstep env other k k'" "other_ok other" "procs_ok (e_bf env) k"
  shows "procs_ok (e_bf env) k' \<and> k_leaked k \<subseteq> k_leaked k'"
  using assms
proof cases
  case (idle now clock i)
  then show ?thesis using run_inv [OF assms(3)] by simp
next
  case (user f k1 w)
  have "tame k k'" unfolding user(1) by (rule tame_trans [OF set_cx_tame [OF user(2)] tame_updates(4)])
  then show ?thesis using tame_ok [OF _ assms(3)] tame_leaked by blast
next
  case (trap n0 n1 t cause stval nx)
  then have "good env k k'" using trap_enter_effect [OF assms(3,2) trap(1)] by auto
  then show ?thesis by (simp add: good_def)
next
  case (trap_switch n0 n1 t cause stval nx k1 now)
  then show ?thesis
    using trap_enter_effect [OF assms(3,2) trap_switch(1)] switched_out_exited [OF _ trap_switch(3)] switched_out_suspended [OF _ trap_switch(3)] by auto
next
  case (resume r)
  then show ?thesis using tame_ok [OF set_cx_tame assms(3)] tame_leaked [OF set_cx_tame] by blast
next
  case (retry now t nr no args r k1)
  have "good env k k'" using good_tame [OF _ set_cx_tame [OF retry(2)]] syscall_match_effect [OF assms(3,2) retry(1)] by simp
  then show ?thesis by (simp add: good_def)
next
  case (retry_switch now t nr no args f k1 r now')
  then have "suspends env k k1" using syscall_match_effect [OF assms(3,2) retry_switch(1)] by auto
  then show ?thesis using switched_out_suspended [OF _ retry_switch(3)] by simp
next
  case (leave now sg)
  then have "tame k k'" using trap_leave_effect [OF assms(3) leave] by simp
  then show ?thesis using tame_ok [OF _ assms(3)] tame_leaked by blast
next
  case (killed now sg k1 now')
  then show ?thesis using trap_leave_effect [OF assms(3) killed(1)] switched_out_left [OF _ killed(2)] by simp
qed

end
