(* ===== verification/Process_Theorems.thy ===== *)
theory Process_Theorems
  imports Process_Steps Address_Space
begin

text \<open>
  The theorems about processes: the invariant of all runs, the way of an exit code from a child to its parent, the exact behaviour of
  \<^verbatim>\<open>waitpid\<close>, and the leak of tasks that a signal ends.
\<close>

subsection \<open>Runs\<close>

lemma ksteps_inv:
  assumes "(kstep env other)\<^sup>*\<^sup>* k k'" "other_ok other" "procs_ok (e_bf env) k"
  shows "procs_ok (e_bf env) k' \<and> k_leaked k \<subseteq> k_leaked k'"
  using assms(1)
proof (induction rule: rtranclp_induct)
  case base
  then show ?case using assms(3) by simp
next
  case (step y z)
  then show ?case using kstep_inv [OF step(2) assms(2)] by auto
qed

text \<open>When the machine starts there are no tasks and all thread ids are free; \<open>init_scheduler\<close> makes the first task.\<close>

lemma boot_inv:
  assumes "k_tasks k = Map.empty" "k_current k = None" "k_leaked k = {}" "inv4k (e_bf env) (k_tids k)"
    "free4k (e_bf env) (k_tids k) = {2..<TID_LIMIT}" "init_scheduler env now k = Some k'"
  shows "procs_ok (e_bf env) k'"
proof -
  let ?k = "k\<lparr>k_queue := sched_new\<rparr>"
  obtain a k1 where k1: "load_next_testcase env now ?k = Some (Some a, k1)" "k' = push_task_to_scheduler a k1"
    using assms(6) by (auto simp: init_scheduler_def push_task_to_scheduler_def split: bind_splits)
  have inv: "procs_inv {} {} (e_bf env) ?k"
    using assms(1-5) by (simp add: procs_inv_def family_ok_def states_ok_def tids_ok_def sched_new_def)
  note i = adds_inv [OF load_adds [OF k1(1)] inv]
  show ?thesis unfolding procs_ok_def k1(2) using push_inv [OF i(1) _ _ i(2,3)] i(4) by auto
qed

text \<open>C5: The processes are consistent in every reachable state. From a state with \<open>procs_ok\<close>, in particular the one the boot leaves
  behind, no sequence of system calls, traps, signals, switches and user steps leads out of it: a ready task is in the queue
  once, a running one is on the core, a zombie has no children and waits for its parent (or was leaked), there are no other
  tasks; a child knows its parent, which is older, so the tasks form a forest; and a thread id is in use exactly if a task has it.\<close>

theorem process_invariant:
  assumes "other_ok other" "procs_ok (e_bf env) k0" "(kstep env other)\<^sup>*\<^sup>* k0 k"
  shows "procs_ok (e_bf env) k \<and>
    (\<forall>p t. k_tasks k p = Some t \<longrightarrow>
       (t_status t = Ready \<and> p \<in> set (ready_queue (k_queue k)) \<or> t_status t = Running \<and> k_current k = Some p \<or>
        t_status t = Zombie \<and> t_children t = [] \<and> ((\<exists>q. child_of k p q) \<or> p \<in> k_leaked k))) \<and>
    (\<forall>p t c. k_tasks k p = Some t \<and> c \<in> set (t_children t) \<longrightarrow>
       (\<exists>u. k_tasks k c = Some u \<and> p < c \<and> t_parent u = Some p \<and> t_ppid u = t_tid t)) \<and>
    (\<forall>n. 2 \<le> n \<and> n < TID_LIMIT \<longrightarrow> (n \<notin> free4k (e_bf env) (k_tids k)) = (\<exists>!p. \<exists>t. k_tasks k p = Some t \<and> t_tid t = n))"
proof -
  have ok: "procs_ok (e_bf env) k" using ksteps_inv [OF assms(3,1,2)] by simp
  then have inv: "procs_inv {} {} (e_bf env) k" by (simp add: procs_ok_def)
  note i = procs_invD [OF inv]
  have tin: "tid_in k p = t_tid t" if "k_tasks k p = Some t" for p t using that by (simp add: tid_in_def)
  have inj: "p = q" if "k_tasks k p = Some t" "k_tasks k q = Some u" "t_tid t = t_tid u" for p q t u
    using i(3) that tin [OF that(1)] tin [OF that(2)] unfolding tids_ok_def inj_on_def by (metis domI)
  have "n \<notin> free4k (e_bf env) (k_tids k) \<longleftrightarrow> (\<exists>p t. k_tasks k p = Some t \<and> t_tid t = n)" if "2 \<le> n" "n < TID_LIMIT" for n
  proof -
    have "n \<notin> free4k (e_bf env) (k_tids k) \<longleftrightarrow> n \<in> tid_in k ` dom (k_tasks k)" using i(3) that unfolding tids_ok_def by auto
    also have "\<dots> \<longleftrightarrow> (\<exists>p t. k_tasks k p = Some t \<and> t_tid t = n)" using tin by (force simp: dom_def)
    finally show ?thesis .
  qed
  then have "(n \<notin> free4k (e_bf env) (k_tids k)) = (\<exists>!p. \<exists>t. k_tasks k p = Some t \<and> t_tid t = n)" if "2 \<le> n \<and> n < TID_LIMIT" for n
    using inj that by blast
  moreover have "t_status t = Ready \<and> p \<in> set (ready_queue (k_queue k)) \<or> t_status t = Running \<and> k_current k = Some p \<or>
      t_status t = Zombie \<and> t_children t = [] \<and> ((\<exists>q. child_of k p q) \<or> p \<in> k_leaked k)" if "k_tasks k p = Some t" for p t
    using i(9) [OF that] by (auto simp: status_ok_def)
  ultimately show ?thesis using ok i(5) by blast
qed

text \<open>C7: A task that a signal ends is never freed. When \<^verbatim>\<open>handle_signals\<close> ends the current task, its reference to the task stays on the abandoned kernel
  stack; from then on the task control block exists and its thread id is in use in every later state, whether or not the parent
  waits for it. After \<^verbatim>\<open>TID_LIMIT\<close> such ends no task can be created any more.\<close>

theorem killed_task_never_freed:
  assumes "other_ok other" "procs_ok (e_bf env) k" "k_current k = Some a" "trap_leave env now sg k = Some (False, k1)"
    "switched_out env now' k1 = Some k2" "(kstep env other)\<^sup>*\<^sup>* k2 k3"
  shows "\<exists>t. k_tasks k3 a = Some t \<and> 2 \<le> t_tid t \<and> t_tid t < TID_LIMIT \<and> t_tid t \<notin> free4k (e_bf env) (k_tids k3)"
proof -
  have l: "leaves env k k1" using trap_leave_effect [OF assms(2,4)] by simp
  then obtain k0 code where k0: "k_leaked k0 = insert a (k_leaked k)" "exit_current_task env code k0 = Some k1" using assms(3) by (auto simp: leaves_def)
  have ok: "procs_ok (e_bf env) k2" by (rule switched_out_left(1) [OF l assms(5)])
  have "a \<in> k_leaked k2" using switched_out_leaked [OF assms(5)] exit_current_leaked [OF k0(2)] k0(1) by simp
  then have a: "a \<in> k_leaked k3" "procs_inv {} {} (e_bf env) k3" using ksteps_inv [OF assms(6,1) ok] by (auto simp: procs_ok_def)
  obtain t where t: "k_tasks k3 a = Some t" using procs_invD(12) [OF a(2,1)] by blast
  then have "t_tid t \<in> tid_in k3 ` dom (k_tasks k3)" by (force simp: tid_in_def)
  then show ?thesis using t procs_invD(3) [OF a(2)] unfolding tids_ok_def by simp
qed

subsection \<open>Exit and wait\<close>

lemma release_all_current: "release_all env cs k = Some k' \<Longrightarrow> k_current k' = k_current k"
  by (induction cs arbitrary: k) (auto split: bind_splits dest!: release_leaked)

text \<open>What \<^verbatim>\<open>handle_zombie_task\<close> leaves of the task, and that it only touches the task and its children.\<close>

lemma handle_zombie_spec:
  assumes h: "handle_zombie_task env a k = Some k'" and inv: "procs_inv {} {a} (e_bf env) k" and t: "k_tasks k a = Some t"
  shows "\<exists>z. k_tasks k' a = Some z \<and> t_status z = Zombie \<and> t_exit_code z = t_exit_code t \<and> t_pid z = t_pid t \<and> t_tid z = t_tid t"
    "\<And>q. q \<noteq> a \<Longrightarrow> q \<notin> set (t_children t) \<Longrightarrow> k_tasks k' q = k_tasks k q" "k_current k' = k_current k"
proof -
  let ?k1 = "set_task a (t\<lparr>t_children := []\<rparr>) (orphan_children (t_children t) k)"
  obtain k2 where k2: "release_all env (t_children t) ?k1 = Some k2" using h t by (auto simp: handle_zombie_task_def Let_def split: bind_splits)
  have inv1: "procs_inv (set (t_children t) \<union> {}) {a} (e_bf env) ?k1"
    unfolding Un_empty_right by (rule lose_children [OF inv t, where cs = "[]" and g = "\<lambda>_. NO_PARENT"]) (simp_all add: set_task_def orphan_children_spec)
  have cs: "\<forall>c \<in> set (t_children t). c \<notin> {a}" using procs_invD(5) [OF inv t] by fastforce
  have r: "\<And>q. q \<notin> set (t_children t) \<Longrightarrow> k_tasks k2 q = k_tasks ?k1 q" using release_all_inv [OF k2 inv1 cs] by simp
  have cur: "k_current k2 = k_current k" using release_all_current [OF k2] by (simp add: set_task_def orphan_children_spec)
  have sp: "same_procs (set_task a (t\<lparr>t_children := [], t_status := Zombie\<rparr>) k2) k'" using h t k2
    by (auto simp: handle_zombie_task_def Let_def same_procs_def split: bind_splits if_splits)
  then show "\<exists>z. k_tasks k' a = Some z \<and> t_status z = Zombie \<and> t_exit_code z = t_exit_code t \<and> t_pid z = t_pid t \<and> t_tid z = t_tid t"
    by (simp add: same_procs_def set_task_def)
  show "k_tasks k' q = k_tasks k q" if "q \<noteq> a" "q \<notin> set (t_children t)" for q
    using sp r [OF that(2)] that by (simp add: same_procs_def set_task_def orphan_children_spec)
  show "k_current k' = k_current k" using sp cur by (simp add: same_procs_def set_task_def)
qed

text \<open>A child that exits stays as a zombie with its exit code, and its parent stays as it was.\<close>

lemma exit_leaves_zombie:
  assumes ok: "procs_ok (e_bf env) k" and c: "k_current k = Some c" "k_tasks k c = Some t"
    and p: "k_tasks k p = Some u" "c \<in> set (t_children u)"
    and e: "exit_current_task env code k = Some k1" "switched_out env now k1 = Some k2"
  shows "k_current k2 = None" "k_tasks k2 p = Some u"
    "\<exists>z. k_tasks k2 c = Some z \<and> t_status z = Zombie \<and> t_exit_code z = code \<and> t_pid z = t_pid t \<and> t_tid z = t_tid t"
proof -
  have inv: "procs_inv {} {} (e_bf env) k" using ok by (simp add: procs_ok_def)
  note i = procs_invD [OF inv]
  have pc: "p < c" using i(5) [OF p] by blast
  obtain k3 v where k3: "procs_inv {} {c} (e_bf env) k3" "k_tasks k3 = (k_tasks k)(c \<mapsto> v)" "t_exit_code v = code" "t_pid v = t_pid t" "t_tid v = t_tid t"
      "t_children v = t_children t" "k_current k3 = None" "t_status v = Dying"
    and z: "(handle_zombie_task env c k3 \<bind> release env c) = Some k2"
    by (rule exit_to_zombie [OF ok e]) (use c in auto)
  obtain k4 where k4: "handle_zombie_task env c k3 = Some k4" "release env c k4 = Some k2" using z by (auto split: bind_splits)
  have v: "k_tasks k3 c = Some v" by (simp add: k3(2))
  note s = handle_zombie_spec [OF k4(1) k3(1) v]
  have "p \<notin> set (t_children t)" using i(5) [OF c(2), of p] pc by auto
  then have p4: "k_tasks k4 p = Some u" using s(2) [of p] pc p(1) by (simp add: k3(2,6))
  have "child_of k4 c p" using p4 p(2) by (simp add: child_of_def)
  then have "referenced k4 c" using referenced_iff [OF handle_zombie_inv(1) [OF k4(1) k3(1) v k3(8)]] by blast
  then have "k2 = k4" using k4(2) by (simp add: release_def)
  then show "k_current k2 = None" "k_tasks k2 p = Some u"
    "\<exists>z. k_tasks k2 c = Some z \<and> t_status z = Zombie \<and> t_exit_code z = code \<and> t_pid z = t_pid t \<and> t_tid z = t_tid t"
    using p4 s(1,3) k3(3-5,7) by auto
qed

text \<open>The children that \<^verbatim>\<open>waitpid\<close> passes over, and the child it takes.\<close>

definition passed :: "usize \<Rightarrow> ('f, 's) kernel \<Rightarrow> nat \<Rightarrow> bool" where
  "passed pid k x \<longleftrightarrow> (\<exists>w. k_tasks k x = Some w \<and> (if pid = - 1 then t_status w \<noteq> Zombie else t_pid w \<noteq> unat pid))"

definition taken :: "usize \<Rightarrow> ('f, 's) kernel \<Rightarrow> nat \<Rightarrow> task \<Rightarrow> bool" where
  "taken pid k c z \<longleftrightarrow> k_tasks k c = Some z \<and> t_status z = Zombie \<and> (pid = - 1 \<or> t_pid z = unat pid)"

lemma wait_loop_takes:
  assumes "\<forall>x \<in> set xs. passed pid k x" "taken pid k c z"
  shows "wait_loop k pid idx (xs @ c # ys) (flag, code, found) =
    Some (int (idx + length xs), t_exit_code z, if pid = - 1 then int (t_pid z) else found)"
  using assms
proof (induction xs arbitrary: idx flag)
  case Nil
  then show ?case by (auto simp: taken_def get_code_if_exit_def)
next
  case (Cons x xs)
  then obtain w where w: "k_tasks k x = Some w" "if pid = - 1 then t_status w \<noteq> Zombie else t_pid w \<noteq> unat pid"
    by (auto simp: passed_def)
  moreover have "t_status w \<noteq> Zombie \<Longrightarrow> get_code_if_exit w = None" by (auto simp: get_code_if_exit_def split: task_status.splits)
  ultimately show ?case using Cons by (auto split: if_splits)
qed

lemma waitpid_takes:
  assumes "k_current k = Some p" "k_tasks k p = Some v" "t_children v = xs @ c # ys" "\<forall>x \<in> set xs. passed pid k x" "taken pid k c z"
    "waitpid env pid ptr k = Some (r, k')"
  obtains k1 where "of_int r = (of_nat (t_pid z) :: usize)"
    "(if ptr \<noteq> 0 then put_user (t_vm v) ptr (u32_bytes (push_bit 8 (t_exit_code z))) (set_task p (v\<lparr>t_children := xs @ ys\<rparr>) k)
      else Some (set_task p (v\<lparr>t_children := xs @ ys\<rparr>) k)) = Some k1" "release env c k1 = Some k'"
proof -
  have l: "wait_loop k pid 0 (t_children v) (- 1, - 1, sint pid) = Some (int (length xs), t_exit_code z, if pid = - 1 then int (t_pid z) else sint pid)"
    using wait_loop_takes [OF assms(4,5), of 0] assms(3) by simp
  have "of_int (if pid = - 1 then int (t_pid z) else sint pid) = (of_nat (t_pid z) :: usize)" using assms(5) by (auto simp: taken_def)
  with assms(1-3,6) l show ?thesis
    by (auto simp: waitpid_def current_task_def Let_def intro!: that split: bind_splits)
qed

text \<open>Once its parent has taken it off its list, nothing holds a zombie any more.\<close>

lemma zombie_freed:
  assumes inv: "procs_inv {} {} bf k" and p: "k_tasks k p = Some v" "t_children v = xs @ c # ys" and z: "k_tasks k c = Some z" "t_status z = Zombie"
    and l: "c \<notin> k_leaked k" and k1: "same_procs (set_task p (v\<lparr>t_children := xs @ ys\<rparr>) k) k1"
  shows "\<not> referenced k1 c"
proof -
  note i = procs_invD [OF inv]
  have e: "k_tasks k1 = (k_tasks k)(p \<mapsto> v\<lparr>t_children := xs @ ys\<rparr>)" "k_queue k1 = k_queue k" "k_current k1 = k_current k" "k_leaked k1 = k_leaked k"
    using k1 by (simp_all add: same_procs_def set_task_def)
  have "c \<notin> set (ready_queue (k_queue k))" "k_current k \<noteq> Some c" using i(6,8) [of c] z by auto
  moreover have "\<not> child_of k1 c q" for q
  proof
    assume "child_of k1 c q"
    then obtain w where w: "k_tasks k1 q = Some w" "c \<in> set (t_children w)" by (auto simp: child_of_def)
    have "q \<noteq> p" using w e(1) i(11) [OF p(1)] p(2) by auto
    then have "k_tasks k q = Some w" using w(1) e(1) by simp
    then show False using i(5) [OF _ w(2)] i(5) [OF p(1), of c] p(2) \<open>q \<noteq> p\<close> by auto
  qed
  ultimately show ?thesis using l unfolding referenced_def list_ex_iff child_of_def e(2-4) by (auto split: option.splits)
qed

text \<open>C6: The exit code of a child reaches its parent. When a child exits with a code, it stays as a zombie; a later \<^verbatim>\<open>waitpid\<close> of the parent that asks
  for this child, or for any child with no zombie before this one, returns the process id of the child, stores the code
  shifted by 8 at the given address, takes the child from the list of children, and, unless the child's reference was leaked, frees
  its task control block and its thread id.\<close>

theorem exit_code_reaches_parent:
  assumes "procs_ok (e_bf env) k" "k_current k = Some c" "k_tasks k c = Some t" "k_tasks k p = Some u" "c \<in> set (t_children u)"
    "exit_current_task env code k = Some k1" "switched_out env now k1 = Some k2"
    "procs_ok (e_bf env) k3" "k_current k3 = Some p" "k_tasks k3 p = Some v" "t_children v = xs @ c # ys" "k_tasks k3 c = k_tasks k2 c"
    "\<forall>x \<in> set xs. passed pid k3 x" "pid = - 1 \<or> unat pid = t_pid t" "waitpid env pid ptr k3 = Some (r, k')"
  shows "of_int r = (of_nat (t_pid t) :: usize) \<and> procs_ok (e_bf env) k' \<and> (\<exists>k4. release env c k4 = Some k' \<and>
      (if ptr \<noteq> 0 then put_user (t_vm v) ptr (u32_bytes (push_bit 8 code)) (set_task p (v\<lparr>t_children := xs @ ys\<rparr>) k3)
       else Some (set_task p (v\<lparr>t_children := xs @ ys\<rparr>) k3)) = Some k4) \<and>
    (c \<notin> k_leaked k3 \<longrightarrow> k_tasks k' c = None \<and> t_tid t \<in> free4k (e_bf env) (k_tids k'))"
proof -
  obtain z where z: "k_tasks k2 c = Some z" "t_status z = Zombie" "t_exit_code z = code" "t_pid z = t_pid t" "t_tid z = t_tid t"
    using exit_leaves_zombie(3) [OF assms(1-7)] by blast
  have tk: "taken pid k3 c z" using z assms(12,14) by (auto simp: taken_def)
  obtain k4 where k4: "of_int r = (of_nat (t_pid z) :: usize)"
    "(if ptr \<noteq> 0 then put_user (t_vm v) ptr (u32_bytes (push_bit 8 (t_exit_code z))) (set_task p (v\<lparr>t_children := xs @ ys\<rparr>) k3)
      else Some (set_task p (v\<lparr>t_children := xs @ ys\<rparr>) k3)) = Some k4" "release env c k4 = Some k'"
    by (rule waitpid_takes [OF assms(9-11,13) tk assms(15)])
  have ok: "procs_ok (e_bf env) k'" by (rule wait_inv [OF assms(8,15)])
  have inv: "procs_inv {} {} (e_bf env) k3" "procs_inv {} {} (e_bf env) k'" using assms(8) ok by (simp_all add: procs_ok_def)
  have s: "same_procs (set_task p (v\<lparr>t_children := xs @ ys\<rparr>) k3) k4" using k4(2) by (auto split: if_splits dest: put_user_same)
  have z3: "k_tasks k3 c = Some z" using z(1) assms(12) by simp
  have "k_tasks k' c = None \<and> t_tid t \<in> free4k (e_bf env) (k_tids k')" if l: "c \<notin> k_leaked k3"
  proof -
    have "drop_task env c k4 = Some k'" using k4(3) zombie_freed [OF inv(1) assms(10,11) z3 z(2) l s] by (simp add: release_def)
    then have d: "k_tasks k' = (k_tasks k4)(c := None)" by (rule drop_task_spec) 
    have t3: "tid_in k3 c = t_tid t" "c \<in> dom (k_tasks k3)" using z3 z(5) by (auto simp: tid_in_def)
    have e: "tid_in k' q = tid_in k3 q \<and> q \<in> dom (k_tasks k3) \<and> q \<noteq> c" if "q \<in> dom (k_tasks k')" for q
      using that s d assms(10) by (auto simp: same_procs_def set_task_def tid_in_def split: if_splits)
    have "t_tid t \<notin> tid_in k' ` dom (k_tasks k')"
      using e t3 procs_invD(3) [OF inv(1)] unfolding tids_ok_def inj_on_def by fastforce
    moreover have "t_tid t \<in> {2..<TID_LIMIT}" using t3 procs_invD(3) [OF inv(1)] unfolding tids_ok_def by (metis DiffE imageI)
    ultimately show ?thesis using d procs_invD(3) [OF inv(2)] unfolding tids_ok_def by auto
  qed
  then show ?thesis using k4 ok z(3,4) by auto
qed

subsection \<open>A parent and a child\<close>

text \<open>The parent at address 0 is ready, its child at address 1 is running and has received signal 10, whose action is the default.\<close>

definition demo_env :: "(unit, unit) kenv" where
  "demo_env = \<lparr>e_bf = ref_bit_field, e_fo = empty_file, e_get_status = (\<lambda>_. 0), e_drop_files = (\<lambda>_ k. Some (k_world k)), e_stdio = ((), (), ()),
     e_kernel_ms = \<lparr>area_map = ram_new 0, ms_pt = \<lparr>root_paddr = 0, frames = []\<rparr>, ms_is_user = False\<rparr>,
     e_pt_addr = of_nat, e_restore = 0, e_sstatus = 0, e_exists = (\<lambda>_ _. False), e_loader = (\<lambda>_ _ _ _ _. None)\<rparr>"

definition demo_parent :: task where
  "demo_parent = demo_task\<lparr>t_status := Ready, t_children := [1]\<rparr>"

definition demo_child :: task where
  "demo_child = demo_task\<lparr>t_tid := 3, t_pid := 3, t_ppid := 2, t_parent := Some 0, t_receivers := 3, t_time := time_stat_new 0 3\<rparr>"

definition demo_family :: "tid_allocator \<Rightarrow> (unit, unit) kernel" where
  "demo_family tids = (demo_kernel \<lparr>sa_handler = 0, sa_flags = 0, sa_restorer = 0, sa_mask = 0\<rparr> 0x200)
     \<lparr>k_tasks := [0 \<mapsto> demo_parent, 1 \<mapsto> demo_child], k_queue := sched_push sched_new 0, k_current := Some 1, k_tids := tids,
      k_handlers := \<lambda>_. \<lparr>actions = replicate 64 None\<rparr>\<rparr>"

lemma demo_tids: obtains a where "inv4k ref_bit_field a" "free4k ref_bit_field a = {4..<TID_LIMIT}"
  using ba4k.insert_ok [OF ba4k.default_inv [OF ref_bit_field_ok], of 4 4096] by (auto simp: TID_LIMIT_def ba4k.default_free)

lemma demo_family_ok:
  assumes "inv4k ref_bit_field a" "free4k ref_bit_field a = {4..<TID_LIMIT}"
  shows "procs_ok (e_bf demo_env) (demo_family a)"
proof -
  have t: "k_tasks (demo_family a) p = Some t \<longleftrightarrow> p = 0 \<and> t = demo_parent \<or> p = 1 \<and> t = demo_child" for p t
    by (auto simp: demo_family_def)
  have f: "k_current (demo_family a) = Some 1" "ready_queue (k_queue (demo_family a)) = [0]" "k_next (demo_family a) = 5"
    "k_tids (demo_family a) = a" "k_leaked (demo_family a) = {}"
    by (simp_all add: demo_family_def demo_kernel_def sched_push_def sched_new_def)
  have i: "tid_in (demo_family a) 0 = 2" "tid_in (demo_family a) 1 = 3" "dom (k_tasks (demo_family a)) = {0, 1}"
    by (auto simp: tid_in_def demo_family_def demo_parent_def demo_child_def demo_task_def split: if_splits)
  have "family_ok (demo_family a)" "states_ok {} {} (demo_family a)"
    unfolding family_ok_def states_ok_def status_ok_def t f by (auto simp: demo_parent_def demo_child_def demo_task_def)
  moreover have "tids_ok ref_bit_field (demo_family a)"
  proof -
    have "4 < TID_LIMIT" by (simp add: TID_LIMIT_def)
    then have "{2..<TID_LIMIT} - {4..<TID_LIMIT} = {2, 3}" by auto
    then show ?thesis using assms i unfolding tids_ok_def f by (simp add: inj_on_def)
  qed
  ultimately show ?thesis by (simp add: procs_ok_def procs_inv_def f demo_env_def)
qed

lemma demo_signal: "get_one_signal \<lparr>sig_mask = 0, sig_received = 0x200\<rparr> = (Some 10, \<lparr>sig_mask = 0, sig_received = 0\<rparr>)"
  by (simp add: get_one_signal_def first_of_word remove_bit_def shift_amount_def)

lemma demo_fields [simp]:
  "t_children demo_parent = [1]" "t_vm demo_parent = 3" "t_status demo_parent = Ready" "t_tid demo_parent = 2" "t_pid demo_parent = 2"
  "t_children demo_child = []" "t_vm demo_child = 3" "t_tid demo_child = 3" "t_pid demo_child = 3" "t_saved_cx demo_child = None"
  "t_clear_child_tid demo_child = 0" "timer_type (t_time demo_child) = TimerNone" "t_receivers demo_child = 3"
  "t_kernel_stack demo_child = \<lparr>start_paddr = 0, frame_count = 0\<rparr>"
  by (simp_all add: demo_parent_def demo_child_def demo_task_def time_stat_new_def)

lemma demo_family_fields [simp]:
  "k_tasks (demo_family a) = [0 \<mapsto> demo_parent, 1 \<mapsto> demo_child]" "k_next (demo_family a) = 5" "ready_queue (k_queue (demo_family a)) = [0]"
  "k_current (demo_family a) = Some 1" "k_tids (demo_family a) = a" "k_leaked (demo_family a) = {}" "k_locked (demo_family a) = {}"
  "receiver_store (k_signals (demo_family a)) 3 = \<lparr>sig_mask = 0, sig_received = 0x200\<rparr>"
  "k_handlers (demo_family a) = (\<lambda>_. \<lparr>actions = replicate 64 None\<rparr>)" "k_board (demo_family a) = []"
  by (simp_all add: demo_family_def demo_kernel_def sched_push_def sched_new_def)

text \<open>When the child dies, its parent still uses the memory set and still knows the child.\<close>

lemma two_owners: "k_next k = 5 \<Longrightarrow> k_tasks k 0 = Some t \<Longrightarrow> k_tasks k (Suc 0) = Some u \<Longrightarrow> t_vm t = 3 \<Longrightarrow> t_vm u = 3 \<Longrightarrow>
    (vm_strong_count k 3 = Suc 0) = False"
  by (simp add: vm_strong_count_def upt_rec)

lemma an_owner: "k_next k = 5 \<Longrightarrow> k_tasks k 0 = Some t \<Longrightarrow> t_vm t = 3 \<Longrightarrow> (vm_strong_count k 3 = 0) = False"
  by (simp add: vm_strong_count_def upt_rec)

lemma known_child: "k_next k = 5 \<Longrightarrow> k_tasks k 0 = Some t \<Longrightarrow> 1 \<in> set (t_children t) \<Longrightarrow> referenced k 1"
  by (simp add: referenced_def upt_rec)

lemma dying_child:
  assumes "k_current k = Some 1" "k_tasks k 0 = Some t" "k_tasks k 1 = Some u" "k_next k = 5" "t_vm t = 3" "t_vm u = 3" "1 \<in> set (t_children t)"
    "t_status u = Dying" "t_children u = []" "timer_type (t_time u) = TimerNone"
  shows "\<exists>k' ts. switched_out env now k = Some k' \<and> k_current k' = None \<and> k_tasks k' = (k_tasks k)(1 \<mapsto> u\<lparr>t_time := ts, t_children := [], t_status := Zombie\<rparr>) \<and>
    k_queue k' = k_queue k \<and> k_tids k' = k_tids k \<and> k_leaked k' = k_leaked k \<and> k_board k' = k_board k \<and> k_next k' = 5"
proof -
  define ts where "ts = fst (switch_out_task now (t_time u) (k_signals k))"
  have so: "switch_out_task now (t_time u) (k_signals k) = (ts, k_signals k)" "\<not> switch_out_sends now (t_time u) (k_signals k)"
    using assms(10) by (simp_all add: ts_def switch_out_task_def switch_out_sends_def Let_def)
  define k1 where "k1 = set_task 1 (u\<lparr>t_time := ts, t_children := [], t_status := Zombie\<rparr>) (k\<lparr>k_current := None\<rparr>)"
  have z: "\<exists>k2. handle_zombie_task env 1 (set_task 1 (u\<lparr>t_time := ts\<rparr>) (k\<lparr>k_current := None\<rparr>)) = Some k2 \<and> same_procs k1 k2 \<and>
      k_board k2 = k_board k1 \<and> k_next k2 = k_next k1"
    using assms by (simp add: handle_zombie_task_def k1_def set_task_def Let_def two_owners same_procs_def)
  then obtain k2 where k2: "handle_zombie_task env 1 (set_task 1 (u\<lparr>t_time := ts\<rparr>) (k\<lparr>k_current := None\<rparr>)) = Some k2" "same_procs k1 k2"
    "k_board k2 = k_board k1" "k_next k2 = k_next k1" by blast
  have "referenced k2 1" by (rule known_child [of _ t]) (use k2 assms in \<open>simp_all add: k1_def same_procs_def set_task_def\<close>)
  then have "switched_out env now k = Some k2"
    using assms so k2(1) by (simp add: switched_out_def current_task_def release_def)
  then show ?thesis using k2 assms(4) by (auto simp: k1_def same_procs_def set_task_def)
qed

lemma demo_killed:
  "\<exists>k1 k2. trap_leave demo_env 0 True (demo_family a) = Some (False, k1) \<and> switched_out demo_env 0 k1 = Some k2"
proof -
  have "of_signal (signal_no_from 10) = SigTerminate" by (simp add: signal_no_from_def of_signal_def SIGCHLD_def SIGURG_def)
  then have "\<exists>k1. trap_leave demo_env 0 True (demo_family a) = Some (False, k1) \<and> k_current k1 = Some 1 \<and> k_next k1 = 5 \<and>
      k_tasks k1 = [0 \<mapsto> demo_parent, 1 \<mapsto> demo_child\<lparr>t_saved_cx := Some (t_trap_cx demo_child), t_siginfo := False, t_status := Dying, t_exit_code := 0\<rparr>]"
    by (simp add: trap_leave_def handle_signals_def current_task_def lock_at_def demo_signal set_receivers_def save_trap_cx_if_not_handling_signals_def deliver_def
      get_action_ref_def at_def abandon_def exit_current_task_def set_task_def Let_def)
  then obtain k1 where k1: "trap_leave demo_env 0 True (demo_family a) = Some (False, k1)" and "k_current k1 = Some 1" "k_next k1 = 5"
      "k_tasks k1 = [0 \<mapsto> demo_parent, 1 \<mapsto> demo_child\<lparr>t_saved_cx := Some (t_trap_cx demo_child), t_siginfo := False, t_status := Dying, t_exit_code := 0\<rparr>]"
    by blast
  then have "\<exists>k2. switched_out demo_env 0 k1 = Some k2"
    using dying_child [of k1 demo_parent "demo_child\<lparr>t_saved_cx := Some (t_trap_cx demo_child), t_siginfo := False, t_status := Dying, t_exit_code := 0\<rparr>" demo_env 0]
    by auto
  with k1 show ?thesis by blast
qed

theorem process_invariant_witness:
  "\<exists>a k. kstep demo_env (\<lambda>_ _ _. None) (demo_family a) k \<and> procs_ok (e_bf demo_env) k"
proof -
  obtain a where a: "inv4k ref_bit_field a" "free4k ref_bit_field a = {4..<TID_LIMIT}" by (rule demo_tids)
  obtain k1 k2 where k: "trap_leave demo_env 0 True (demo_family a) = Some (False, k1)" "switched_out demo_env 0 k1 = Some k2"
    using demo_killed [of a] by blast
  have s: "kstep demo_env (\<lambda>_ _ _. None) (demo_family a) k2" by (rule kstep.killed [OF k])
  have "other_ok (\<lambda>_ _ _. None)" by (simp add: other_ok_def)
  from process_invariant [OF this demo_family_ok [OF a] r_into_rtranclp [of "kstep demo_env (\<lambda>_ _ _. None)", OF s]] s show ?thesis by blast
qed

theorem killed_task_never_freed_witness:
  "\<exists>a k1 k2 t. trap_leave demo_env 0 True (demo_family a) = Some (False, k1) \<and> switched_out demo_env 0 k1 = Some k2 \<and>
     k_tasks k2 1 = Some t \<and> t_tid t \<notin> free4k ref_bit_field (k_tids k2)"
proof -
  obtain a where a: "inv4k ref_bit_field a" "free4k ref_bit_field a = {4..<TID_LIMIT}" by (rule demo_tids)
  obtain k1 k2 where k: "trap_leave demo_env 0 True (demo_family a) = Some (False, k1)" "switched_out demo_env 0 k1 = Some k2"
    using demo_killed [of a] by blast
  have "other_ok (\<lambda>_ _ _. None)" "k_current (demo_family a) = Some 1" by (simp_all add: other_ok_def demo_family_def)
  from killed_task_never_freed [OF this(1) demo_family_ok [OF a] this(2) k rtranclp.rtrancl_refl] k show ?thesis
    by (auto simp: demo_env_def)
qed

lemma demo_exited:
  assumes "inv4k ref_bit_field a" "free4k ref_bit_field a = {4..<TID_LIMIT}"
  shows "\<exists>k1 k2 k3 v k'. exit_current_task demo_env 7 (demo_family a) = Some k1 \<and> switched_out demo_env 0 k1 = Some k2 \<and>
    run_next demo_env 0 (\<lambda>_. 0) 0 k2 = Some k3 \<and> k_current k3 = Some 0 \<and> k_tasks k3 0 = Some v \<and> t_children v = [1] \<and>
    k_tasks k3 1 = k_tasks k2 1 \<and> waitpid demo_env (- 1) 0 k3 = Some (3, k') \<and> k_leaked k3 = {}"
proof -
  let ?u = "demo_child\<lparr>t_status := Dying, t_exit_code := 7\<rparr>"
  define k1 where "k1 = set_task 1 ?u (demo_family a)"
  have e: "exit_current_task demo_env 7 (demo_family a) = Some k1" by (simp add: exit_current_task_def current_task_def k1_def)
  obtain k2 ts where k2: "switched_out demo_env 0 k1 = Some k2" "k_current k2 = None" "k_tasks k2 = (k_tasks k1)(1 \<mapsto> ?u\<lparr>t_time := ts, t_children := [], t_status := Zombie\<rparr>)"
    "k_queue k2 = k_queue k1" "k_tids k2 = k_tids k1" "k_leaked k2 = k_leaked k1" "k_board k2 = k_board k1" "k_next k2 = 5"
    using dying_child [of k1 demo_parent ?u demo_env 0] by (auto simp: k1_def set_task_def)
  let ?z = "?u\<lparr>t_time := ts, t_children := [], t_status := Zombie\<rparr>"
  let ?v = "demo_parent\<lparr>t_status := Running, t_time := switch_into_task (get_time_us 0) (t_time demo_parent)\<rparr>"
  have r: "ready_queue (k_queue k2) = [0]" by (simp add: k2 k1_def set_task_def)
  have "\<exists>k3. run_next demo_env 0 (\<lambda>_. 0) 0 k2 = Some k3 \<and> k_current k3 = Some 0 \<and> k_tasks k3 = (k_tasks k2)(0 \<mapsto> ?v) \<and> ready_queue (k_queue k3) = [] \<and>
      k_tids k3 = k_tids k2 \<and> k_leaked k3 = k_leaked k2 \<and> k_next k3 = k_next k2"
    using k2 r by (simp add: run_next_def pick_task_step [OF r] blocked_def waiter_of_def enter_task_def set_task_def k1_def)
  then obtain k3 where k3: "run_next demo_env 0 (\<lambda>_. 0) 0 k2 = Some k3" "k_current k3 = Some 0" "k_tasks k3 = (k_tasks k2)(0 \<mapsto> ?v)" "ready_queue (k_queue k3) = []"
      "k_tids k3 = k_tids k2" "k_leaked k3 = k_leaked k2" "k_next k3 = k_next k2" by blast
  have "3 \<notin> {4..<TID_LIMIT}" "3 < CAP (BitAlloc4K ref_bit_field)" by (simp_all add: TID_LIMIT_def)
  then obtain a' where "ba_dealloc (BitAlloc4K ref_bit_field) a 3 = Some a'" using ba4k.dealloc_ok [OF assms(1), of 3] assms(2) by auto
  then have d: "tid_drop (e_bf demo_env) a (Tid 3) = Some a'" by (simp add: demo_env_def dealloc_tid_raw_def)
  have t3: "k_tasks k3 = [0 \<mapsto> ?v, 1 \<mapsto> ?z]" "k_tids k3 = a" "k_leaked k3 = {}" "k_next k3 = 5" using k3 k2 by (auto simp: k1_def set_task_def fun_eq_iff)
  have f: "frame_drop bf kernel_config \<lparr>start_paddr = 0, frame_count = 0\<rparr> m = Some m" for bf m
    by (simp add: frame_drop_def dealloc_frame_contiguous_def Let_def)
  have dr: "e_drop_files demo_env fs k = Some (k_world k)" for fs k by (simp add: demo_env_def)
  have w: "wait_loop k3 (- 1) 0 [1] (- 1, - 1, - 1) = Some (0, 7, 3)" by (simp add: t3 get_code_if_exit_def)
  let ?k4 = "set_task 0 (?v\<lparr>t_children := []\<rparr>) k3"
  have "\<not> referenced ?k4 1" using k3(2,4) by (simp add: referenced_def t3 set_task_def upt_rec)
  moreover have "\<exists>k'. drop_task demo_env 1 ?k4 = Some k'"
    by (simp add: drop_task_def set_task_def t3 f d dr Let_def an_owner [where t = "?v\<lparr>t_children := []\<rparr>"] del: tid_drop.simps)
  ultimately have "\<exists>k'. waitpid demo_env (- 1) 0 k3 = Some (3, k')"
    using w k3(2) by (auto simp: waitpid_def current_task_def t3 release_def)
  then obtain k' where "waitpid demo_env (- 1) 0 k3 = Some (3, k')" ..
  moreover have "k_tasks k3 0 = Some ?v" "t_children ?v = [1]" "k_tasks k3 1 = k_tasks k2 1" by (simp_all add: t3 k2)
  ultimately show ?thesis using e k2(1) k3(1,2) t3(3) by blast
qed

theorem exit_code_reaches_parent_witness:
  "\<exists>a k1 k2 k3 k'. exit_current_task demo_env 7 (demo_family a) = Some k1 \<and> switched_out demo_env 0 k1 = Some k2 \<and>
     run_next demo_env 0 (\<lambda>_. 0) 0 k2 = Some k3 \<and> waitpid demo_env (- 1) 0 k3 = Some (3, k') \<and> k_tasks k' 1 = None \<and> 3 \<in> free4k ref_bit_field (k_tids k')"
proof -
  obtain a where a: "inv4k ref_bit_field a" "free4k ref_bit_field a = {4..<TID_LIMIT}" by (rule demo_tids)
  obtain k1 k2 k3 v k' where k: "exit_current_task demo_env 7 (demo_family a) = Some k1" "switched_out demo_env 0 k1 = Some k2"
    "run_next demo_env 0 (\<lambda>_. 0) 0 k2 = Some k3" "k_current k3 = Some 0" "k_tasks k3 0 = Some v" "t_children v = [] @ 1 # []"
    "k_tasks k3 1 = k_tasks k2 1" "waitpid demo_env (- 1) 0 k3 = Some (3, k')" "k_leaked k3 = {}"
    using demo_exited [OF a] by auto
  have f: "k_current (demo_family a) = Some 1" "k_tasks (demo_family a) 1 = Some demo_child" "k_tasks (demo_family a) 0 = Some demo_parent"
    "1 \<in> set (t_children demo_parent)" by simp_all
  have n: "k_current k2 = None" by (rule exit_leaves_zombie(1) [OF demo_family_ok [OF a] f k(1,2)])
  have "procs_ok (e_bf demo_env) k3" by (rule run_inv(1) [OF exit_inv [OF demo_family_ok [OF a] k(1,2)] n k(3)])
  from exit_code_reaches_parent [OF demo_family_ok [OF a] f k(1,2) this k(4-7) _ _ k(8)]
  have "k_tasks k' 1 = None \<and> 3 \<in> free4k ref_bit_field (k_tids k')" using k(9) by (simp add: demo_env_def)
  then show ?thesis using k(1-3,8) by blast
qed

end
