(* ===== verification/Locks.thy ===== *)
theory Locks
  imports Prelude
begin

text \<open>
  The locks of \<^verbatim>\<open>dependencies/kernel-sync\<close>: the nesting of disabled interrupts (\<^verbatim>\<open>interrupt.rs\<close>), \<^verbatim>\<open>TicketMutex\<close>, which the kernel uses as its
  \<^verbatim>\<open>Mutex\<close>, and \<^verbatim>\<open>SpinMutex\<close> and \<^verbatim>\<open>MCSLock\<close>. One atomic access is one step, and the steps of the cores interleave. The position of a core in the code is
  its program counter; interrupts are core-local, so \<^verbatim>\<open>push_off\<close> and \<^verbatim>\<open>pop_off\<close> belong to the neighbouring atomic access. The
  locale \<open>mutex_machine\<close> is what a lock promises: the holder is unique in every reachable state.
\<close>

subsection \<open>Interrupts\<close>

record cpu =
  noff :: "32 word"
  interrupt_enable :: bool

text \<open>A core: its \<open>Cpu\<close> entry and the interrupt bit \<^verbatim>\<open>sstatus.sie\<close>.\<close>

record core =
  sie :: bool
  mycpu :: cpu

definition cpu_new :: cpu where
  "cpu_new = \<lparr>noff = 0, interrupt_enable = False\<rparr>"

definition MAX_CORE_NUM :: nat where "MAX_CORE_NUM = 16"

definition push_off :: "core \<Rightarrow> core" where
  "push_off c =
     (let old = sie c; c = c\<lparr>sie := False\<rparr>; cpu = mycpu c;
          cpu = (if noff cpu = 0 then cpu\<lparr>interrupt_enable := old\<rparr> else cpu);
          cpu = cpu\<lparr>noff := noff cpu + 1\<rparr>
      in c\<lparr>mycpu := cpu\<rparr>)"

definition pop_off :: "core \<Rightarrow> core option" where
  "pop_off c =
     (let cpu = mycpu c
      in if sie c \<or> noff cpu <s 1 then None
         else let cpu = cpu\<lparr>noff := noff cpu - 1\<rparr>;
                  should_enable = noff cpu = 0 \<and> interrupt_enable cpu;
                  c = c\<lparr>mycpu := cpu\<rparr>
              in Some (if should_enable then c\<lparr>sie := True\<rparr> else c))"

subsection \<open>TicketMutex\<close>

record ticket_mutex =
  next_ticket :: usize
  next_serving :: usize

definition ticket_mutex_new :: ticket_mutex where
  "ticket_mutex_new = \<lparr>next_ticket = 0, next_serving = 0\<rparr>"

definition ticket_is_locked :: "ticket_mutex \<Rightarrow> bool" where
  "ticket_is_locked l \<longleftrightarrow> next_serving l \<noteq> next_ticket l"

text \<open>Where a core is: outside, in the loop of \<^verbatim>\<open>lock\<close> with its ticket, with the guard, in \<^verbatim>\<open>fetch_update\<close> of \<^verbatim>\<open>try_lock\<close> before the closure and
  before the exchange.\<close>

datatype ticket_pc = TIdle | TSpin usize | THold usize | TTry usize | TCas usize

record ticket_state =
  ts_lock :: ticket_mutex
  ts_pc :: "nat \<Rightarrow> ticket_pc"
  ts_core :: "nat \<Rightarrow> core"

definition ticket_at :: "nat \<Rightarrow> ticket_pc \<Rightarrow> core \<Rightarrow> ticket_state \<Rightarrow> ticket_state" where
  "ticket_at c p q s = s\<lparr>ts_pc := (ts_pc s)(c := p), ts_core := (ts_core s)(c := q)\<rparr>"

text \<open>\<^verbatim>\<open>lock\<close>: the \<^verbatim>\<open>fetch_add\<close>, and one round of the loop.\<close>

definition ticket_lock :: "nat \<Rightarrow> ticket_state \<Rightarrow> ticket_state option" where
  "ticket_lock c s =
     (if ts_pc s c = TIdle
      then let ticket = next_ticket (ts_lock s)
           in Some (ticket_at c (TSpin ticket) (push_off (ts_core s c)) (s\<lparr>ts_lock := (ts_lock s)\<lparr>next_ticket := ticket + 1\<rparr>\<rparr>))
      else None)"

definition ticket_spin :: "nat \<Rightarrow> ticket_state \<Rightarrow> ticket_state option" where
  "ticket_spin c s =
     (case ts_pc s c of
        TSpin ticket \<Rightarrow> Some (if next_serving (ts_lock s) \<noteq> ticket then s else ticket_at c (THold ticket) (ts_core s c) s)
      | _ \<Rightarrow> None)"

text \<open>\<^verbatim>\<open>try_lock\<close>: the first load of \<^verbatim>\<open>fetch_update\<close>, the closure, and the exchange, which may fail spuriously and then goes back to the closure with
  the value it saw.\<close>

definition ticket_try_lock :: "nat \<Rightarrow> ticket_state \<Rightarrow> ticket_state option" where
  "ticket_try_lock c s =
     (if ts_pc s c = TIdle then Some (ticket_at c (TTry (next_ticket (ts_lock s))) (push_off (ts_core s c)) s) else None)"

definition ticket_try_closure :: "nat \<Rightarrow> ticket_state \<Rightarrow> ticket_state option" where
  "ticket_try_closure c s =
     (case ts_pc s c of
        TTry ticket \<Rightarrow>
          if next_serving (ts_lock s) = ticket then Some (ticket_at c (TCas ticket) (ts_core s c) s)
          else map_option (\<lambda>q. ticket_at c TIdle q s) (pop_off (ts_core s c))
      | _ \<Rightarrow> None)"

definition ticket_try_exchange :: "bool \<Rightarrow> nat \<Rightarrow> ticket_state \<Rightarrow> ticket_state option" where
  "ticket_try_exchange spurious c s =
     (case ts_pc s c of
        TCas ticket \<Rightarrow>
          let current = next_ticket (ts_lock s)
          in if current = ticket \<and> \<not> spurious
             then Some (ticket_at c (THold ticket) (ts_core s c) (s\<lparr>ts_lock := (ts_lock s)\<lparr>next_ticket := ticket + 1\<rparr>\<rparr>))
             else Some (ticket_at c (TTry current) (ts_core s c) s)
      | _ \<Rightarrow> None)"

text \<open>The drop of the guard.\<close>

definition ticket_unlock :: "nat \<Rightarrow> ticket_state \<Rightarrow> ticket_state option" where
  "ticket_unlock c s =
     (case ts_pc s c of
        THold ticket \<Rightarrow>
          map_option (\<lambda>q. ticket_at c TIdle q (s\<lparr>ts_lock := (ts_lock s)\<lparr>next_serving := ticket + 1\<rparr>\<rparr>)) (pop_off (ts_core s c))
      | _ \<Rightarrow> None)"

definition ticket_init :: "(nat \<Rightarrow> bool) \<Rightarrow> ticket_state" where
  "ticket_init on = \<lparr>ts_lock = ticket_mutex_new, ts_pc = (\<lambda>_. TIdle), ts_core = (\<lambda>c. \<lparr>sie = on c, mycpu = cpu_new\<rparr>)\<rparr>"

text \<open>An index into \<^verbatim>\<open>CPUS\<close> behind its end panics, so only cores below \<^verbatim>\<open>MAX_CORE_NUM\<close> use locks.\<close>

inductive ticket_step :: "ticket_state \<Rightarrow> ticket_state \<Rightarrow> bool" where
  lock: "c < MAX_CORE_NUM \<Longrightarrow> ticket_lock c s = Some s' \<Longrightarrow> ticket_step s s'"
| spin: "c < MAX_CORE_NUM \<Longrightarrow> ticket_spin c s = Some s' \<Longrightarrow> ticket_step s s'"
| try_lock: "c < MAX_CORE_NUM \<Longrightarrow> ticket_try_lock c s = Some s' \<Longrightarrow> ticket_step s s'"
| try_closure: "c < MAX_CORE_NUM \<Longrightarrow> ticket_try_closure c s = Some s' \<Longrightarrow> ticket_step s s'"
| try_exchange: "c < MAX_CORE_NUM \<Longrightarrow> ticket_try_exchange sp c s = Some s' \<Longrightarrow> ticket_step s s'"
| unlock: "c < MAX_CORE_NUM \<Longrightarrow> ticket_unlock c s = Some s' \<Longrightarrow> ticket_step s s'"

inductive_cases ticket_stepE: "ticket_step s s'"

subsection \<open>SpinMutex\<close>

text \<open>Where a core is: outside, before the exchange of \<^verbatim>\<open>lock\<close>, in its inner loop, with the guard.\<close>

datatype spin_pc = SIdle | SCas | SWait | SHold

record spin_state =
  ss_locked :: bool
  ss_pc :: "nat \<Rightarrow> spin_pc"
  ss_core :: "nat \<Rightarrow> core"

definition spin_at :: "nat \<Rightarrow> spin_pc \<Rightarrow> core \<Rightarrow> spin_state \<Rightarrow> spin_state" where
  "spin_at c p q s = s\<lparr>ss_pc := (ss_pc s)(c := p), ss_core := (ss_core s)(c := q)\<rparr>"

definition spin_lock :: "nat \<Rightarrow> spin_state \<Rightarrow> spin_state option" where
  "spin_lock c s = (if ss_pc s c = SIdle then Some (spin_at c SCas (push_off (ss_core s c)) s) else None)"

definition spin_exchange :: "bool \<Rightarrow> nat \<Rightarrow> spin_state \<Rightarrow> spin_state option" where
  "spin_exchange spurious c s =
     (if ss_pc s c = SCas
      then if \<not> ss_locked s \<and> \<not> spurious then Some (spin_at c SHold (ss_core s c) (s\<lparr>ss_locked := True\<rparr>))
           else Some (spin_at c SWait (ss_core s c) s)
      else None)"

definition spin_wait :: "nat \<Rightarrow> spin_state \<Rightarrow> spin_state option" where
  "spin_wait c s =
     (if ss_pc s c = SWait then Some (if ss_locked s then s else spin_at c SCas (ss_core s c) s) else None)"

definition spin_try_lock :: "nat \<Rightarrow> spin_state \<Rightarrow> spin_state option" where
  "spin_try_lock c s =
     (if ss_pc s c = SIdle
      then let q = push_off (ss_core s c)
           in if \<not> ss_locked s then Some (spin_at c SHold q (s\<lparr>ss_locked := True\<rparr>))
              else map_option (\<lambda>q. spin_at c SIdle q s) (pop_off q)
      else None)"

definition spin_unlock :: "nat \<Rightarrow> spin_state \<Rightarrow> spin_state option" where
  "spin_unlock c s =
     (if ss_pc s c = SHold then map_option (\<lambda>q. spin_at c SIdle q (s\<lparr>ss_locked := False\<rparr>)) (pop_off (ss_core s c)) else None)"

definition spin_init :: "(nat \<Rightarrow> bool) \<Rightarrow> spin_state" where
  "spin_init on = \<lparr>ss_locked = False, ss_pc = (\<lambda>_. SIdle), ss_core = (\<lambda>c. \<lparr>sie = on c, mycpu = cpu_new\<rparr>)\<rparr>"

inductive spin_step :: "spin_state \<Rightarrow> spin_state \<Rightarrow> bool" where
  spin_lock: "c < MAX_CORE_NUM \<Longrightarrow> spin_lock c s = Some s' \<Longrightarrow> spin_step s s'"
| spin_exchange: "c < MAX_CORE_NUM \<Longrightarrow> spin_exchange sp c s = Some s' \<Longrightarrow> spin_step s s'"
| spin_wait: "c < MAX_CORE_NUM \<Longrightarrow> spin_wait c s = Some s' \<Longrightarrow> spin_step s s'"
| spin_try_lock: "c < MAX_CORE_NUM \<Longrightarrow> spin_try_lock c s = Some s' \<Longrightarrow> spin_step s s'"
| spin_unlock: "c < MAX_CORE_NUM \<Longrightarrow> spin_unlock c s = Some s' \<Longrightarrow> spin_step s s'"

inductive_cases spin_stepE: "spin_step s s'"

subsection \<open>MCSLock\<close>

text \<open>Two flags for one datum; a guard of one channel does not exclude a guard of the other. The operations of a channel are those of \<open>SpinMutex\<close>
  without the interrupts.\<close>

datatype lock_channel = Normal | Interrupt

type_synonym mcs_lock = "lock_channel \<Rightarrow> bool"

definition mcs_new :: mcs_lock where "mcs_new = (\<lambda>_. False)"

definition mcs_try_lock :: "lock_channel \<Rightarrow> mcs_lock \<Rightarrow> bool \<times> mcs_lock" where
  "mcs_try_lock channel l = (if l channel then (False, l) else (True, l(channel := True)))"

definition mcs_is_locked :: "lock_channel \<Rightarrow> mcs_lock \<Rightarrow> bool" where
  "mcs_is_locked channel l = l channel"

definition mcs_unlock :: "lock_channel \<Rightarrow> mcs_lock \<Rightarrow> mcs_lock" where
  "mcs_unlock channel l = l(channel := False)"

subsection \<open>Nested locks and interrupts\<close>

text \<open>\<open>core_ok on d q\<close>: core \<open>q\<close> is inside \<open>d\<close> locks, and outside it had its interrupts on exactly if \<open>on\<close>.\<close>

definition core_ok :: "bool \<Rightarrow> nat \<Rightarrow> core \<Rightarrow> bool" where
  "core_ok on d q \<longleftrightarrow> noff (mycpu q) = of_nat d \<and>
     (if d = 0 then sie q = on else \<not> sie q \<and> interrupt_enable (mycpu q) = on)"

lemma of_nat_int32: "d < 2 ^ 31 \<Longrightarrow> sint (of_nat d :: 32 word) = int d"
  by (simp add: signed_of_nat signed_take_bit_int_eq_self)

lemma of_nat_zero32: "d < 2 ^ 31 \<Longrightarrow> (of_nat d :: 32 word) = 0 \<longleftrightarrow> d = 0"
  using of_nat_int32 [of d] by auto

lemma push_off_ok:
  assumes "core_ok on d q" "d < 2 ^ 31"
  shows "core_ok on (Suc d) (push_off q)"
  using assms(1) of_nat_zero32 [OF assms(2)] by (auto simp: core_ok_def push_off_def Let_def)

lemma pop_off_ok:
  assumes "core_ok on (Suc d) q" "Suc d < 2 ^ 31"
  shows "\<exists>q'. pop_off q = Some q' \<and> core_ok on d q'"
proof -
  have n: "noff (mycpu q) = of_nat (Suc d)" "\<not> sie q" "interrupt_enable (mycpu q) = on" using assms(1) by (simp_all add: core_ok_def)
  have "\<not> noff (mycpu q) <s 1" unfolding n(1) using of_nat_int32 [OF assms(2)] by (simp add: word_sless_alt del: of_nat_Suc)
  moreover have "noff (mycpu q) - 1 = of_nat d" unfolding n(1) by simp
  ultimately show ?thesis using n(2,3) of_nat_zero32 [of d] assms(2) by (simp add: pop_off_def Let_def core_ok_def)
qed

lemma pop_off_panics: "core_ok on 0 q \<Longrightarrow> pop_off q = None"
  by (simp add: core_ok_def pop_off_def Let_def word_sless_alt)

text \<open>A core takes locks (\<open>True\<close>) and drops guards (\<open>False\<close>), in any order. The reference is a counter.\<close>

fun run_off :: "bool list \<Rightarrow> core \<Rightarrow> core option" where
  "run_off [] q = Some q"
| "run_off (True # xs) q = run_off xs (push_off q)"
| "run_off (False # xs) q = pop_off q \<bind> run_off xs"

fun lock_depth :: "nat \<Rightarrow> bool list \<Rightarrow> nat option" where
  "lock_depth d [] = Some d"
| "lock_depth d (True # xs) = lock_depth (Suc d) xs"
| "lock_depth 0 (False # xs) = None"
| "lock_depth (Suc d) (False # xs) = lock_depth d xs"

lemma run_off_depth:
  assumes "core_ok on d q" "d + length xs < 2 ^ 31"
  shows "case lock_depth d xs of None \<Rightarrow> run_off xs q = None | Some d' \<Rightarrow> \<exists>q'. run_off xs q = Some q' \<and> core_ok on d' q'"
  using assms
proof (induction d xs arbitrary: q rule: lock_depth.induct)
  case (2 d xs)
  have "core_ok on (Suc d) (push_off q)" by (rule push_off_ok) (use 2 in auto)
  with 2 show ?case by (fastforce split: option.splits)
next
  case (3 xs)
  then show ?case by (simp add: pop_off_panics)
next
  case (4 d xs)
  have "Suc d < 2 ^ 31" using 4(3) by simp
  from pop_off_ok [OF 4(2) this] obtain q' where "pop_off q = Some q'" "core_ok on d q'" by blast
  with 4 show ?case by (fastforce split: option.splits)
qed simp

text \<open>C16: Disabling interrupts nests. For every sequence of \<^verbatim>\<open>push_off\<close> and \<^verbatim>\<open>pop_off\<close> on a core that holds no lock, a counter says what happens: the core panics
  exactly when a \<^verbatim>\<open>pop_off\<close> has no \<^verbatim>\<open>push_off\<close>; otherwise interrupts are off while some \<^verbatim>\<open>push_off\<close> is open, and are as in the
  beginning when none is.\<close>

theorem interrupt_nesting:
  assumes "noff (mycpu q) = 0" "length xs < 2 ^ 31"
  shows "case lock_depth 0 xs of
       None \<Rightarrow> run_off xs q = None
     | Some d \<Rightarrow> \<exists>q'. run_off xs q = Some q' \<and> noff (mycpu q') = of_nat d \<and> (if d = 0 then sie q' = sie q else \<not> sie q')"
proof -
  have "core_ok (sie q) 0 q" using assms(1) by (simp add: core_ok_def)
  from run_off_depth [OF this, of xs] assms(2) show ?thesis by (auto simp: core_ok_def split: option.splits if_splits)
qed

theorem interrupt_nesting_witness:
  "\<exists>q'. run_off [True, True, False, False] \<lparr>sie = True, mycpu = cpu_new\<rparr> = Some q' \<and> sie q'"
  using interrupt_nesting [of "\<lparr>sie = True, mycpu = cpu_new\<rparr>" "[True, True, False, False]"] by (auto simp: cpu_new_def)

subsection \<open>What a mutex promises\<close>

locale mutex_machine =
  fixes start :: "'s \<Rightarrow> bool" and step :: "'s \<Rightarrow> 's \<Rightarrow> bool" and holds :: "'s \<Rightarrow> nat \<Rightarrow> bool"
    and inv :: "nat \<Rightarrow> 's \<Rightarrow> bool" and bound :: nat
  assumes start_inv: "start s \<Longrightarrow> inv 0 s"
    and step_inv: "inv n s \<Longrightarrow> step s s' \<Longrightarrow> Suc n < bound \<Longrightarrow> inv (Suc n) s'"
    and one_holder: "inv n s \<Longrightarrow> holds s c \<Longrightarrow> holds s d \<Longrightarrow> c = d"
begin

lemma steps_inv: "(step ^^ m) s s' \<Longrightarrow> inv n s \<Longrightarrow> n + m < bound \<Longrightarrow> inv (n + m) s'"
proof (induction m arbitrary: s')
  case (Suc m)
  then obtain s1 where "(step ^^ m) s s1" "step s1 s'" by (auto elim: relpowp_Suc_E)
  with Suc show ?case by (auto intro: step_inv)
qed simp

lemma reach_inv: "(step ^^ n) s0 s \<Longrightarrow> start s0 \<Longrightarrow> n < bound \<Longrightarrow> inv n s"
  using steps_inv [of n s0 s 0] start_inv by simp

lemma mutual_exclusion: "(step ^^ n) s0 s \<Longrightarrow> start s0 \<Longrightarrow> n < bound \<Longrightarrow> holds s c \<Longrightarrow> holds s d \<Longrightarrow> c = d"
  using reach_inv one_holder by blast

end

subsection \<open>The ticket mutex\<close>

definition holds_ticket :: "ticket_pc \<Rightarrow> nat option" where
  "holds_ticket p = (case p of TSpin t \<Rightarrow> Some (unat t) | THold t \<Rightarrow> Some (unat t) | _ \<Rightarrow> None)"

lemma holds_ticket_simps [simp]:
  "holds_ticket TIdle = None" "holds_ticket (TSpin t) = Some (unat t)" "holds_ticket (THold t) = Some (unat t)"
  "holds_ticket (TTry t) = None" "holds_ticket (TCas t) = None"
  by (simp_all add: holds_ticket_def)

text \<open>After at most \<open>n\<close> steps: the outstanding tickets are those from \<^verbatim>\<open>next_serving\<close> to \<^verbatim>\<open>next_ticket\<close>, one for each core that waits or holds; the
  holder has the first of them; a core about to take a ticket in \<^verbatim>\<open>try_lock\<close> saw an earlier or the present \<^verbatim>\<open>next_serving\<close>.\<close>

definition ticket_inv :: "(nat \<Rightarrow> bool) \<Rightarrow> nat \<Rightarrow> ticket_state \<Rightarrow> bool" where
  "ticket_inv on n s \<longleftrightarrow>
     (let ns = unat (next_serving (ts_lock s)); nt = unat (next_ticket (ts_lock s)); t = (\<lambda>c. holds_ticket (ts_pc s c))
      in ns \<le> nt \<and> nt \<le> n \<and> (\<forall>k. ns \<le> k \<and> k < nt \<longleftrightarrow> (\<exists>c. t c = Some k)) \<and> (\<forall>c d. t c \<noteq> None \<longrightarrow> t c = t d \<longrightarrow> c = d) \<and>
         (\<forall>c k. ts_pc s c = THold k \<longrightarrow> unat k = ns) \<and> (\<forall>c k. ts_pc s c = TCas k \<longrightarrow> unat k \<le> ns) \<and>
         (\<forall>c. core_ok (on c) (if ts_pc s c = TIdle then 0 else 1) (ts_core s c)) \<and> (\<forall>c. ts_pc s c \<noteq> TIdle \<longrightarrow> c < MAX_CORE_NUM))"

lemma ticket_invD:
  assumes "ticket_inv on n s"
  defines "ns \<equiv> unat (next_serving (ts_lock s))" and "nt \<equiv> unat (next_ticket (ts_lock s))"
  shows "ns \<le> nt" "nt \<le> n" "\<And>k. ns \<le> k \<and> k < nt \<longleftrightarrow> (\<exists>c. holds_ticket (ts_pc s c) = Some k)"
    "\<And>c d k. holds_ticket (ts_pc s c) = Some k \<Longrightarrow> holds_ticket (ts_pc s d) = Some k \<Longrightarrow> c = d"
    "\<And>c k. ts_pc s c = THold k \<Longrightarrow> unat k = ns" "\<And>c k. ts_pc s c = TCas k \<Longrightarrow> unat k \<le> ns"
    "\<And>c. core_ok (on c) (if ts_pc s c = TIdle then 0 else 1) (ts_core s c)" "\<And>c. ts_pc s c \<noteq> TIdle \<Longrightarrow> c < MAX_CORE_NUM"
  using assms unfolding ticket_inv_def Let_def by auto

lemma ticket_invI:
  assumes "unat (next_serving (ts_lock s)) \<le> unat (next_ticket (ts_lock s))" "unat (next_ticket (ts_lock s)) \<le> n"
    "\<And>k. unat (next_serving (ts_lock s)) \<le> k \<and> k < unat (next_ticket (ts_lock s)) \<longleftrightarrow> (\<exists>c. holds_ticket (ts_pc s c) = Some k)"
    "\<And>c d k. holds_ticket (ts_pc s c) = Some k \<Longrightarrow> holds_ticket (ts_pc s d) = Some k \<Longrightarrow> c = d"
    "\<And>c k. ts_pc s c = THold k \<Longrightarrow> unat k = unat (next_serving (ts_lock s))" "\<And>c k. ts_pc s c = TCas k \<Longrightarrow> unat k \<le> unat (next_serving (ts_lock s))"
    "\<And>c. core_ok (on c) (if ts_pc s c = TIdle then 0 else 1) (ts_core s c)" "\<And>c. ts_pc s c \<noteq> TIdle \<Longrightarrow> c < MAX_CORE_NUM"
  shows "ticket_inv on n s"
  unfolding ticket_inv_def Let_def using assms by auto

lemma ticket_at_simps [simp]:
  "ts_lock (ticket_at c p q s) = ts_lock s" "ts_pc (ticket_at c p q s) = (ts_pc s)(c := p)" "ts_core (ticket_at c p q s) = (ts_core s)(c := q)"
  by (simp_all add: ticket_at_def)

text \<open>A step of core \<open>c\<close> that changes neither the lock nor which tickets are held.\<close>

lemma ticket_inv_local:
  assumes i: "ticket_inv on n s" and t: "holds_ticket p = holds_ticket (ts_pc s c)"
    and h: "\<And>k. p = THold k \<Longrightarrow> unat k = unat (next_serving (ts_lock s))" "\<And>k. p = TCas k \<Longrightarrow> unat k \<le> unat (next_serving (ts_lock s))"
    and q: "core_ok (on c) (if p = TIdle then 0 else 1) q" "c < MAX_CORE_NUM"
  shows "ticket_inv on (Suc n) (ticket_at c p q s)"
proof -
  note D = ticket_invD [OF i]
  have e: "holds_ticket (((ts_pc s)(c := p)) d) = holds_ticket (ts_pc s d)" for d using t by simp
  show ?thesis
  proof (rule ticket_invI, goal_cases)
    case (3 k)
    show ?case using D(3) [of k] by (simp only: e ticket_at_simps)
  next
    case (4 a b k)
    then show ?case using D(4) [of a k b] by (simp only: e ticket_at_simps)
  next
    case (5 d k)
    then show ?case using h(1) D(5) by (simp split: if_splits)
  next
    case (6 d k)
    then show ?case using h(2) D(6) by (simp split: if_splits)
  next
    case (7 d)
    then show ?case using q D(7) by simp
  next
    case (8 d)
    then show ?case using q(2) D(8) by (simp split: if_splits)
  qed (use D(1,2) in simp_all)
qed

lemma unat_Suc: "Suc (unat a) < 2 ^ 64 \<Longrightarrow> unat (a + 1) = Suc (unat a)" for a :: usize
  by (simp add: unat_word_ariths)

text \<open>A step in which core \<open>c\<close> takes the next ticket.\<close>

lemma ticket_inv_take:
  assumes i: "ticket_inv on n s" and n: "Suc n < 2 ^ 64" and c: "holds_ticket (ts_pc s c) = None"
    and p: "p = TSpin (next_ticket (ts_lock s)) \<or> p = THold (next_ticket (ts_lock s)) \<and> next_serving (ts_lock s) = next_ticket (ts_lock s)"
    and q: "core_ok (on c) 1 q" "c < MAX_CORE_NUM"
  shows "ticket_inv on (Suc n) (ticket_at c p q (s\<lparr>ts_lock := (ts_lock s)\<lparr>next_ticket := next_ticket (ts_lock s) + 1\<rparr>\<rparr>))"
proof -
  note D = ticket_invD [OF i]
  let ?nt = "unat (next_ticket (ts_lock s))"
  have nt: "unat (next_ticket (ts_lock s) + 1) = Suc ?nt" using D(2) n by (intro unat_Suc) simp
  have e: "holds_ticket (((ts_pc s)(c := p)) d) = (if d = c then Some ?nt else holds_ticket (ts_pc s d))" for d using p by auto
  have f: "d \<noteq> c" if "holds_ticket (ts_pc s d) = Some k" for d k using that c by auto
  have l: "k < ?nt" if "holds_ticket (ts_pc s d) = Some k" for d k using that D(3) [of k] by blast
  have ex: "(\<exists>d. (if d = c then Some ?nt else holds_ticket (ts_pc s d)) = Some k) \<longleftrightarrow> k = ?nt \<or> (\<exists>d. holds_ticket (ts_pc s d) = Some k)" for k
    using f by auto
  let ?s = "ticket_at c p q (s\<lparr>ts_lock := (ts_lock s)\<lparr>next_ticket := next_ticket (ts_lock s) + 1\<rparr>\<rparr>)"
  have fs: "next_serving (ts_lock ?s) = next_serving (ts_lock s)" "unat (next_ticket (ts_lock ?s)) = Suc ?nt" "ts_pc ?s = (ts_pc s)(c := p)"
    by (simp_all add: nt)
  show ?thesis
  proof (rule ticket_invI, goal_cases)
    case (3 k)
    have "unat (next_serving (ts_lock s)) \<le> k \<and> k < Suc ?nt \<longleftrightarrow> k = ?nt \<or> (\<exists>d. holds_ticket (ts_pc s d) = Some k)" using D(1) D(3) [of k] by auto
    then show ?case by (simp only: fs e ex)
  next
    case (4 a b k)
    then show ?case using D(4) [of a k b] l [of a k] l [of b k] by (simp only: fs e split: if_splits) auto
  next
    case (5 d k)
    then show ?case using p D(5) [of d k] by (auto split: if_splits)
  next
    case (6 d k)
    then show ?case using p D(6) [of d k] by (auto split: if_splits)
  next
    case (7 d)
    then show ?case using p q D(7) [of d] by auto
  next
    case (8 d)
    then show ?case using q(2) D(8) by (simp split: if_splits)
  qed (use D(1,2) nt in simp_all)
qed

text \<open>The step in which the holder serves the next ticket.\<close>

lemma ticket_inv_serve:
  assumes i: "ticket_inv on n s" and n: "Suc n < 2 ^ 64" and c: "ts_pc s c = THold t" and q: "core_ok (on c) 0 q"
  shows "ticket_inv on (Suc n) (ticket_at c TIdle q (s\<lparr>ts_lock := (ts_lock s)\<lparr>next_serving := t + 1\<rparr>\<rparr>))"
proof -
  note D = ticket_invD [OF i]
  let ?ns = "unat (next_serving (ts_lock s))" and ?nt = "unat (next_ticket (ts_lock s))"
  have t: "unat t = ?ns" by (rule D(5) [OF c])
  have lt: "?ns < ?nt" using D(3) [of "?ns"] c t by (metis holds_ticket_simps(3))
  have ns: "unat (t + 1) = Suc ?ns" using t lt D(2) n by (subst unat_Suc) auto
  have e: "holds_ticket (((ts_pc s)(c := TIdle)) d) = (if d = c then None else holds_ticket (ts_pc s d))" for d by simp
  have u: "holds_ticket (ts_pc s d) = Some ?ns \<longleftrightarrow> d = c" for d using D(4) [of d "?ns" c] c t by auto
  have ex: "(\<exists>d. (if d = c then None else holds_ticket (ts_pc s d)) = Some k) \<longleftrightarrow> k \<noteq> ?ns \<and> (\<exists>d. holds_ticket (ts_pc s d) = Some k)" for k
    using u c t by (metis holds_ticket_simps(3) option.inject option.simps(3))
  let ?s = "ticket_at c TIdle q (s\<lparr>ts_lock := (ts_lock s)\<lparr>next_serving := t + 1\<rparr>\<rparr>)"
  have fs: "unat (next_serving (ts_lock ?s)) = Suc ?ns" "next_ticket (ts_lock ?s) = next_ticket (ts_lock s)" "ts_pc ?s = (ts_pc s)(c := TIdle)"
    by (simp_all add: ns)
  show ?thesis
  proof (rule ticket_invI, goal_cases)
    case (3 k)
    have "Suc ?ns \<le> k \<and> k < ?nt \<longleftrightarrow> k \<noteq> ?ns \<and> (\<exists>d. holds_ticket (ts_pc s d) = Some k)" using D(3) [of k] by auto
    then show ?case by (simp only: fs e ex)
  next
    case (4 a b k)
    then show ?case using D(4) [of a k b] by (simp only: fs e split: if_splits) auto
  next
    case (5 d k)
    then have "d \<noteq> c" "ts_pc s d = THold k" by (auto split: if_splits)
    then show ?case using D(5) [of d k] D(4) [of d ?ns c] c t by auto
  next
    case (6 d k)
    then have "unat k \<le> ?ns" using D(6) [of d k] by (simp split: if_splits)
    then show ?case by (simp add: ns)
  next
    case (7 d)
    then show ?case using q D(7) [of d] by simp
  next
    case (8 d)
    then show ?case using D(8) [of d] by (simp split: if_splits)
  qed (use D(1,2) ns lt in simp_all)
qed

lemma core_ok_push: "core_ok on 0 q \<Longrightarrow> core_ok on 1 (push_off q)"
  using push_off_ok [of on 0 q] by simp

lemma core_ok_pop: "core_ok on 1 q \<Longrightarrow> \<exists>q'. pop_off q = Some q' \<and> core_ok on 0 q'"
  using pop_off_ok [of on 0 q] by simp

lemma ticket_step_inv:
  assumes i: "ticket_inv on n s" and st: "ticket_step s s'" and n: "Suc n < 2 ^ 64"
  shows "ticket_inv on (Suc n) s'"
  using st
proof cases
  case (lock c)
  then have p: "ts_pc s c = TIdle" by (simp add: ticket_lock_def split: if_splits)
  have q: "core_ok (on c) 1 (push_off (ts_core s c))" using core_ok_push ticket_invD(7) [OF i, of c] p by simp
  have s': "s' = ticket_at c (TSpin (next_ticket (ts_lock s))) (push_off (ts_core s c))
      (s\<lparr>ts_lock := (ts_lock s)\<lparr>next_ticket := next_ticket (ts_lock s) + 1\<rparr>\<rparr>)"
    using lock p by (simp add: ticket_lock_def Let_def)
  show ?thesis unfolding s' by (rule ticket_inv_take [OF i n _ _ q lock(1)]) (simp_all add: p)
next
  case (spin c)
  then obtain t where p: "ts_pc s c = TSpin t" by (auto simp: ticket_spin_def split: ticket_pc.splits)
  have q: "core_ok (on c) 1 (ts_core s c)" using ticket_invD(7) [OF i, of c] p by simp
  have s': "s' = ticket_at c (if next_serving (ts_lock s) = t then THold t else TSpin t) (ts_core s c) s"
    using spin p by (auto simp: ticket_spin_def ticket_at_def fun_upd_idem)
  show ?thesis unfolding s' by (rule ticket_inv_local [OF i _ _ _ _ spin(1)]) (use p q in \<open>simp_all split: if_splits\<close>)
next
  case (try_lock c)
  then have p: "ts_pc s c = TIdle" by (simp add: ticket_try_lock_def split: if_splits)
  have q: "core_ok (on c) 1 (push_off (ts_core s c))" using core_ok_push ticket_invD(7) [OF i, of c] p by simp
  have s': "s' = ticket_at c (TTry (next_ticket (ts_lock s))) (push_off (ts_core s c)) s" using try_lock p by (simp add: ticket_try_lock_def)
  show ?thesis unfolding s' by (rule ticket_inv_local [OF i _ _ _ _ try_lock(1)]) (use p q in simp_all)
next
  case (try_closure c)
  then obtain t where p: "ts_pc s c = TTry t" by (auto simp: ticket_try_closure_def split: ticket_pc.splits)
  then have q: "core_ok (on c) 1 (ts_core s c)" using ticket_invD(7) [OF i, of c] by simp
  obtain q' where q': "pop_off (ts_core s c) = Some q'" "core_ok (on c) 0 q'" using core_ok_pop [OF q] by blast
  have s': "s' = (if next_serving (ts_lock s) = t then ticket_at c (TCas t) (ts_core s c) s else ticket_at c TIdle q' s)"
    using try_closure p q' by (simp add: ticket_try_closure_def split: if_splits)
  have "ticket_inv on (Suc n) (ticket_at c TIdle q' s)" by (rule ticket_inv_local [OF i _ _ _ _ try_closure(1)]) (use p q' in simp_all)
  moreover have "ticket_inv on (Suc n) (ticket_at c (TCas t) (ts_core s c) s)" if "next_serving (ts_lock s) = t"
    by (rule ticket_inv_local [OF i _ _ _ _ try_closure(1)]) (use p q that in simp_all)
  ultimately show ?thesis unfolding s' by simp
next
  case (try_exchange c sp)
  then obtain t where p: "ts_pc s c = TCas t" by (auto simp: ticket_try_exchange_def split: ticket_pc.splits)
  then have q: "core_ok (on c) 1 (ts_core s c)" using ticket_invD(7) [OF i, of c] by simp
  let ?nt = "next_ticket (ts_lock s)"
  have s': "s' = (if ?nt = t \<and> \<not> sp then ticket_at c (THold ?nt) (ts_core s c) (s\<lparr>ts_lock := (ts_lock s)\<lparr>next_ticket := ?nt + 1\<rparr>\<rparr>)
      else ticket_at c (TTry ?nt) (ts_core s c) s)"
    using try_exchange p by (auto simp: ticket_try_exchange_def Let_def split: if_splits)
  have "ticket_inv on (Suc n) (ticket_at c (TTry ?nt) (ts_core s c) s)" by (rule ticket_inv_local [OF i _ _ _ _ try_exchange(1)]) (use p q in simp_all)
  moreover have "ticket_inv on (Suc n) (ticket_at c (THold ?nt) (ts_core s c) (s\<lparr>ts_lock := (ts_lock s)\<lparr>next_ticket := ?nt + 1\<rparr>\<rparr>))" if "?nt = t"
  proof (rule ticket_inv_take [OF i n _ _ q try_exchange(1)])
    show "THold ?nt = TSpin ?nt \<or> THold ?nt = THold ?nt \<and> next_serving (ts_lock s) = ?nt"
      using ticket_invD(6) [OF i p] ticket_invD(1) [OF i] that by (simp add: word_unat_eq_iff)
  qed (simp add: p)
  ultimately show ?thesis unfolding s' by simp
next
  case (unlock c)
  then obtain t where p: "ts_pc s c = THold t" by (auto simp: ticket_unlock_def split: ticket_pc.splits)
  then have q: "core_ok (on c) 1 (ts_core s c)" using ticket_invD(7) [OF i, of c] by simp
  obtain q' where q': "pop_off (ts_core s c) = Some q'" "core_ok (on c) 0 q'" using core_ok_pop [OF q] by blast
  have s': "s' = ticket_at c TIdle q' (s\<lparr>ts_lock := (ts_lock s)\<lparr>next_serving := t + 1\<rparr>\<rparr>)" using unlock p q' by (simp add: ticket_unlock_def)
  show ?thesis unfolding s' by (rule ticket_inv_serve [OF i n p q'(2)])
qed

definition ticket_start :: "(nat \<Rightarrow> bool) \<Rightarrow> ticket_state \<Rightarrow> bool" where
  "ticket_start on s \<longleftrightarrow> s = ticket_init on"

definition ticket_holds :: "ticket_state \<Rightarrow> nat \<Rightarrow> bool" where
  "ticket_holds s c \<longleftrightarrow> (\<exists>t. ts_pc s c = THold t)"

interpretation ticket: mutex_machine "ticket_start on" ticket_step ticket_holds "ticket_inv on" "2 ^ 64" for on
proof (unfold_locales, goal_cases)
  case (1 s)
  then show ?case by (simp add: ticket_start_def ticket_inv_def ticket_init_def ticket_mutex_new_def Let_def core_ok_def cpu_new_def)
next
  case (2 n s s')
  then show ?case by (rule ticket_step_inv)
next
  case (3 n s c d)
  then obtain t u where p: "ts_pc s c = THold t" "ts_pc s d = THold u" by (auto simp: ticket_holds_def)
  then show ?case using ticket_invD(4) [OF 3(1), of c _ d] ticket_invD(5) [OF 3(1)] by (metis holds_ticket_simps(3))
qed

lemma ticket_reach: "(ticket_step ^^ n) (ticket_init on) s \<Longrightarrow> n < 2 ^ 64 \<Longrightarrow> ticket_inv on n s"
  by (rule ticket.reach_inv [of n "ticket_init on" s on]) (simp_all add: ticket_start_def)

text \<open>C11: The kernel's mutex. In every state that the cores reach in fewer than \<open>2\<^sup>6\<^sup>4\<close> atomic steps, with any mix of \<^verbatim>\<open>lock\<close>, \<^verbatim>\<open>try_lock\<close> and
  drops of guards, at most one core has the guard; cores that wait in \<^verbatim>\<open>lock\<close> have later tickets than the holder, so they are
  served in the order in which they came; a core has its interrupts off exactly while it waits for or holds the lock and as at the start otherwise, and dropping the
  guard does not panic.\<close>

theorem ticket_mutual_exclusion:
  assumes "(ticket_step ^^ n) (ticket_init on) s" "n < 2 ^ 64"
  shows "(\<forall>c d. ticket_holds s c \<and> ticket_holds s d \<longrightarrow> c = d) \<and>
    (\<forall>c d t u. ts_pc s c = THold t \<and> ts_pc s d = TSpin u \<longrightarrow> t < u) \<and>
    (\<forall>c. sie (ts_core s c) = (on c \<and> ts_pc s c = TIdle)) \<and>
    (\<forall>c. ticket_holds s c \<longrightarrow> ticket_unlock c s \<noteq> None)"
proof (intro conjI allI impI)
  have i: "ticket_inv on n s" by (rule ticket_reach [OF assms])
  note D = ticket_invD [OF i]
  show "c = d" if "ticket_holds s c \<and> ticket_holds s d" for c d using ticket.one_holder [OF i] that by blast
  show "t < u" if p: "ts_pc s c = THold t \<and> ts_pc s d = TSpin u" for c d t u
  proof -
    have "unat t = unat (next_serving (ts_lock s))" using D(5) p by blast
    moreover have "unat (next_serving (ts_lock s)) \<le> unat u" using D(3) [of "unat u"] p by (metis holds_ticket_simps(2))
    moreover have "unat t \<noteq> unat u" using D(4) [of c "unat t" d] p by auto
    ultimately show ?thesis by (simp add: word_less_nat_alt)
  qed
  show "sie (ts_core s c) = (on c \<and> ts_pc s c = TIdle)" for c using D(7) [of c] by (auto simp: core_ok_def split: if_splits)
  show "ticket_unlock c s \<noteq> None" if "ticket_holds s c" for c
    using that D(7) [of c] core_ok_pop [of "on c" "ts_core s c"] by (auto simp: ticket_holds_def ticket_unlock_def)
qed

text \<open>The holder drops its guard.\<close>

lemma ticket_unlock_step:
  assumes i: "ticket_inv on n s" and n: "Suc n < 2 ^ 64" and c: "ts_pc s c = THold t"
  shows "\<exists>s'. ticket_step s s' \<and> unat (next_serving (ts_lock s')) = Suc (unat (next_serving (ts_lock s))) \<and> (\<forall>d. d \<noteq> c \<longrightarrow> ts_pc s' d = ts_pc s d)"
proof -
  note D = ticket_invD [OF i]
  obtain q where q: "pop_off (ts_core s c) = Some q" using core_ok_pop [of "on c" "ts_core s c"] D(7) [of c] c by auto
  let ?s = "ticket_at c TIdle q (s\<lparr>ts_lock := (ts_lock s)\<lparr>next_serving := t + 1\<rparr>\<rparr>)"
  have "unat (next_serving (ts_lock s)) < unat (next_ticket (ts_lock s))" using D(3) [of "unat t"] D(5) [OF c] c by (metis holds_ticket_simps(3))
  then have "unat (t + 1) = Suc (unat (next_serving (ts_lock s)))" using D(5) [OF c] D(2) n by (subst unat_Suc) auto
  moreover have "ticket_step s ?s" by (rule ticket_step.unlock [OF D(8) [of c]]) (simp_all add: c q ticket_unlock_def)
  ultimately show ?thesis by (intro exI [of _ ?s]) simp
qed

lemma ticket_spin_enters:
  assumes i: "ticket_inv on n s" and c: "ts_pc s c = TSpin t" "t = next_serving (ts_lock s)"
  shows "ticket_step s (ticket_at c (THold t) (ts_core s c) s)"
  by (rule ticket_step.spin [OF ticket_invD(8) [OF i, of c]]) (simp_all add: c ticket_spin_def)

text \<open>The core whose turn it is, brought past its critical section: at most two steps.\<close>

lemma ticket_serve_first:
  assumes i: "ticket_inv on n s" and n: "n + 2 < 2 ^ 64" and c: "ts_pc s c = TSpin t" "unat (next_serving (ts_lock s)) < unat t"
  shows "\<exists>m s'. m \<le> 2 \<and> (ticket_step ^^ m) s s' \<and> unat (next_serving (ts_lock s')) = Suc (unat (next_serving (ts_lock s))) \<and> ts_pc s' c = TSpin t"
proof -
  note D = ticket_invD [OF i]
  let ?ns = "next_serving (ts_lock s)"
  have "unat t < unat (next_ticket (ts_lock s))" using D(3) [of "unat t"] c(1) by (metis holds_ticket_simps(2))
  then obtain d where d: "holds_ticket (ts_pc s d) = Some (unat ?ns)" using D(3) [of "unat ?ns"] c(2) by auto
  then have dc: "d \<noteq> c" using c by auto
  show ?thesis
  proof (cases "ts_pc s d")
    case (THold u)
    obtain s' where s': "ticket_step s s'" "unat (next_serving (ts_lock s')) = Suc (unat ?ns)" "\<forall>e. e \<noteq> d \<longrightarrow> ts_pc s' e = ts_pc s e"
      using ticket_unlock_step [OF i _ THold] n by auto
    then show ?thesis using dc c(1) by (intro exI [of _ 1] exI [of _ s']) auto
  next
    case (TSpin u)
    then have u: "u = ?ns" using d by (simp add: word_unat_eq_iff)
    let ?s1 = "ticket_at d (THold u) (ts_core s d) s"
    have st: "ticket_step s ?s1" by (rule ticket_spin_enters [OF i TSpin u])
    have i1: "ticket_inv on (Suc n) ?s1" by (rule ticket_step_inv [OF i st]) (use n in simp)
    obtain s' where s': "ticket_step ?s1 s'" "unat (next_serving (ts_lock s')) = Suc (unat ?ns)" "\<forall>e. e \<noteq> d \<longrightarrow> ts_pc s' e = ts_pc ?s1 e"
      using ticket_unlock_step [OF i1, of d u] n by auto
    then have "(ticket_step ^^ 2) s s'" using st by (auto simp: numeral_2_eq_2)
    then show ?thesis using s' dc c(1) by (intro exI [of _ 2] exI [of _ s']) auto
  qed (use d in simp_all)
qed

lemma ticket_served:
  assumes "ticket_inv on n s" "ts_pc s c = TSpin t" "unat t = unat (next_serving (ts_lock s)) + k" "n + 2 * k + 1 < 2 ^ 64"
  shows "\<exists>m s'. m \<le> 2 * k + 1 \<and> (ticket_step ^^ m) s s' \<and> ts_pc s' c = THold t"
  using assms
proof (induction k arbitrary: n s)
  case 0
  then have "t = next_serving (ts_lock s)" by (simp add: word_unat_eq_iff)
  from ticket_spin_enters [OF 0(1,2) this] show ?case by (intro exI [of _ 1] exI [of _ "ticket_at c (THold t) (ts_core s c) s"]) auto
next
  case (Suc k)
  obtain m s1 where s1: "m \<le> 2" "(ticket_step ^^ m) s s1" "unat (next_serving (ts_lock s1)) = Suc (unat (next_serving (ts_lock s)))" "ts_pc s1 c = TSpin t"
    using ticket_serve_first [OF Suc.prems(1) _ Suc.prems(2)] Suc.prems(3,4) by auto
  have "ticket_inv on (n + m) s1" by (rule ticket.steps_inv [OF s1(2) Suc.prems(1)]) (use s1(1) Suc.prems(4) in simp)
  then obtain m' s' where s': "m' \<le> 2 * k + 1" "(ticket_step ^^ m') s1 s'" "ts_pc s' c = THold t"
    using Suc.IH [OF _ s1(4), of "n + m"] s1(1,3) Suc.prems(3,4) by auto
  have "(ticket_step ^^ (m + m')) s s'" using s1(2) s'(2) by (auto simp: relpowp_add)
  then show ?case using s1(1) s'(1,3) by (intro exI [of _ "m + m'"] exI [of _ s']) simp
qed

lemma ticket_few_waiting:
  assumes i: "ticket_inv on n s"
  shows "unat (next_ticket (ts_lock s)) \<le> unat (next_serving (ts_lock s)) + MAX_CORE_NUM"
proof -
  note D = ticket_invD [OF i]
  let ?T = "{unat (next_serving (ts_lock s))..<unat (next_ticket (ts_lock s))}"
  define f where "f k = (SOME c. holds_ticket (ts_pc s c) = Some k)" for k
  have f: "holds_ticket (ts_pc s (f k)) = Some k" if "k \<in> ?T" for k
    using D(3) [of k] that unfolding f_def by (metis (mono_tags, lifting) atLeastLessThan_iff someI_ex)
  have "inj_on f ?T" using f by (metis inj_onI option.inject)
  moreover have "f k < MAX_CORE_NUM" if "k \<in> ?T" for k using f [OF that] D(8) [of "f k"] by (cases "ts_pc s (f k)") simp_all
  then have "f ` ?T \<subseteq> {..<MAX_CORE_NUM}" by auto
  ultimately have "card ?T \<le> card {..<MAX_CORE_NUM}" by (rule card_inj_on_le) simp
  then show ?thesis by simp
qed

text \<open>C12: The mutex does not deadlock and does not starve a core. Fewer than 16 cores can be before a core that waits in \<^verbatim>\<open>lock\<close>, and if \<open>k\<close> are, then
  steps of these cores lead to the state where it has the guard: at most two of each and one of its own.\<close>

theorem ticket_no_deadlock:
  assumes "(ticket_step ^^ n) (ticket_init on) s" "n + 32 < 2 ^ 64" "ts_pc s c = TSpin t"
  shows "\<exists>k m s'. unat t = unat (next_serving (ts_lock s)) + k \<and> k < MAX_CORE_NUM \<and> m \<le> 2 * k + 1 \<and> (ticket_step ^^ m) s s' \<and> ts_pc s' c = THold t"
proof -
  have i: "ticket_inv on n s" by (rule ticket_reach [OF assms(1)]) (use assms(2) in simp)
  have "unat (next_serving (ts_lock s)) \<le> unat t \<and> unat t < unat (next_ticket (ts_lock s))"
    using ticket_invD(3) [OF i, of "unat t"] assms(3) by (metis holds_ticket_simps(2))
  then obtain k where k: "unat t = unat (next_serving (ts_lock s)) + k" "k < MAX_CORE_NUM"
    using ticket_few_waiting [OF i] by (metis add_less_cancel_left le_Suc_ex less_le_trans)
  have "n + 2 * k + 1 < 2 ^ 64" using k(2) assms(2) by (simp add: MAX_CORE_NUM_def)
  from ticket_served [OF i assms(3) k(1) this] k show ?thesis by blast
qed

text \<open>Core 0 locks and enters, then core 1 locks.\<close>

lemma demo_tickets:
  "\<exists>s s'. (ticket_step ^^ 2) (ticket_init (\<lambda>_. True)) s \<and> ticket_holds s 0 \<and> ticket_step s s' \<and> ts_pc s' 1 = TSpin 1 \<and> ticket_holds s' 0"
proof -
  let ?s0 = "ticket_init (\<lambda>_. True)"
  let ?s1 = "the (ticket_lock 0 ?s0)"
  let ?s2 = "the (ticket_spin 0 ?s1)"
  let ?s3 = "the (ticket_lock 1 ?s2)"
  note defs = ticket_init_def ticket_lock_def ticket_spin_def ticket_mutex_new_def ticket_at_def Let_def
  have r: "ticket_lock 0 ?s0 = Some ?s1" "ticket_spin 0 ?s1 = Some ?s2" "ticket_lock 1 ?s2 = Some ?s3"
    "ticket_holds ?s2 0" "ts_pc ?s3 1 = TSpin 1" "ticket_holds ?s3 0" by (simp_all add: defs ticket_holds_def)
  have st: "ticket_step ?s0 ?s1" "ticket_step ?s1 ?s2" "ticket_step ?s2 ?s3"
    by (rule ticket_step.lock [OF _ r(1)] ticket_step.spin [OF _ r(2)] ticket_step.lock [OF _ r(3)], simp add: MAX_CORE_NUM_def)+
  have "(ticket_step ^^ 2) ?s0 ?s2" using st(1,2) by (auto simp: numeral_2_eq_2)
  with r(4-6) st(3) show ?thesis by blast
qed

theorem ticket_mutual_exclusion_witness:
  "\<exists>s. (ticket_step ^^ 2) (ticket_init (\<lambda>_. True)) s \<and> ticket_holds s 0 \<and> \<not> ticket_holds s 1 \<and> \<not> sie (ts_core s 0)"
proof -
  obtain s where s: "(ticket_step ^^ 2) (ticket_init (\<lambda>_. True)) s" "ticket_holds s 0" using demo_tickets by blast
  then have "ts_pc s 0 \<noteq> TIdle" by (auto simp: ticket_holds_def)
  moreover have "\<forall>c d. ticket_holds s c \<and> ticket_holds s d \<longrightarrow> c = d" "\<forall>c. sie (ts_core s c) = (True \<and> ts_pc s c = TIdle)"
    using ticket_mutual_exclusion [OF s(1)] by simp_all
  ultimately show ?thesis using s by (metis zero_neq_one)
qed

theorem ticket_no_deadlock_witness:
  "\<exists>s m s'. (ticket_step ^^ 3) (ticket_init (\<lambda>_. True)) s \<and> ts_pc s 1 = TSpin 1 \<and> (ticket_step ^^ m) s s' \<and> ticket_holds s' 1"
proof -
  obtain s0 s where s: "(ticket_step ^^ 2) (ticket_init (\<lambda>_. True)) s0" "ticket_step s0 s" "ts_pc s 1 = TSpin 1" using demo_tickets by blast
  have "(ticket_step ^^ 3) (ticket_init (\<lambda>_. True)) s" using s(1,2) by (auto simp: numeral_3_eq_3 numeral_2_eq_2)
  with ticket_no_deadlock [OF this _ s(3)] s(3) show ?thesis by (auto simp: ticket_holds_def)
qed

subsection \<open>The spin mutex\<close>

definition spin_holders :: "spin_state \<Rightarrow> nat set" where
  "spin_holders s = {c. ss_pc s c = SHold}"

definition spin_inv :: "nat \<Rightarrow> spin_state \<Rightarrow> bool" where
  "spin_inv n s \<longleftrightarrow> (if ss_locked s then \<exists>c. spin_holders s = {c} else spin_holders s = {})"

lemma spin_at_simps [simp]:
  "ss_locked (spin_at c p q s) = ss_locked s"
  "spin_holders (spin_at c p q s) = (if p = SHold then insert c (spin_holders s) else spin_holders s - {c})"
  "spin_holders (s\<lparr>ss_locked := l\<rparr>) = spin_holders s"
  by (auto simp: spin_at_def spin_holders_def)

text \<open>A step that keeps the lock, an acquisition and a release.\<close>

lemma spin_inv_keep:
  assumes "spin_inv n s" "ss_pc s c \<noteq> SHold" "p \<noteq> SHold"
  shows "spin_inv (Suc n) (spin_at c p q s)"
proof -
  have "c \<notin> spin_holders s" using assms(2) by (simp add: spin_holders_def)
  then have "spin_holders s - {c} = spin_holders s" by simp
  then show ?thesis using assms(1,3) by (simp add: spin_inv_def)
qed

lemma spin_inv_acquire: "spin_inv n s \<Longrightarrow> \<not> ss_locked s \<Longrightarrow> spin_inv (Suc n) (spin_at c SHold q (s\<lparr>ss_locked := True\<rparr>))"
  by (simp add: spin_inv_def)

lemma spin_inv_release:
  assumes "spin_inv n s" "ss_pc s c = SHold"
  shows "spin_inv (Suc n) (spin_at c SIdle q (s\<lparr>ss_locked := False\<rparr>))"
proof -
  have "c \<in> spin_holders s" using assms(2) by (simp add: spin_holders_def)
  then have "spin_holders s = {c}" using assms(1) by (auto simp: spin_inv_def split: if_splits)
  then show ?thesis by (simp add: spin_inv_def)
qed

lemma spin_step_inv:
  assumes i: "spin_inv n s" and st: "spin_step s s'"
  shows "spin_inv (Suc n) s'"
  using st
proof cases
  case (spin_lock c)
  then show ?thesis using spin_inv_keep [OF i] by (auto simp: spin_lock_def split: if_splits)
next
  case (spin_exchange c sp)
  then show ?thesis using spin_inv_keep [OF i] spin_inv_acquire [OF i] by (auto simp: spin_exchange_def split: if_splits)
next
  case (spin_wait c)
  have "spin_inv (Suc n) s" using i by (simp add: spin_inv_def)
  then show ?thesis using spin_wait spin_inv_keep [OF i] by (auto simp: spin_wait_def split: if_splits)
next
  case (spin_try_lock c)
  then show ?thesis using spin_inv_keep [OF i] spin_inv_acquire [OF i] by (auto simp: spin_try_lock_def Let_def split: if_splits)
next
  case (spin_unlock c)
  then show ?thesis using spin_inv_release [OF i] by (auto simp: spin_unlock_def split: if_splits)
qed

definition spin_start :: "spin_state \<Rightarrow> bool" where
  "spin_start s \<longleftrightarrow> (\<exists>on. s = spin_init on)"

definition spin_holds :: "spin_state \<Rightarrow> nat \<Rightarrow> bool" where
  "spin_holds s c \<longleftrightarrow> ss_pc s c = SHold"

interpretation spin: mutex_machine spin_start spin_step spin_holds spin_inv b for b
proof (unfold_locales, goal_cases)
  case (1 s)
  then show ?case by (auto simp: spin_start_def spin_init_def spin_inv_def spin_holders_def)
next
  case (2 n s s')
  then show ?case by (auto intro: spin_step_inv)
next
  case (3 n s c d)
  then have "c \<in> spin_holders s" "d \<in> spin_holders s" by (simp_all add: spin_holds_def spin_holders_def)
  then show ?case using 3(1) by (auto simp: spin_inv_def split: if_splits)
qed

lemma spin_mutual_exclusion:
  assumes "(spin_step ^^ n) (spin_init on) s" "spin_holds s c" "spin_holds s d"
  shows "c = d"
  by (rule spin.mutual_exclusion [OF assms(1) _ lessI assms(2,3)]) (auto simp: spin_start_def)

lemma mcs_channels_overlap:
  "mcs_try_lock Interrupt (snd (mcs_try_lock Normal mcs_new)) = (True, \<lambda>_. True)"
  by (auto simp: mcs_try_lock_def mcs_new_def fun_eq_iff intro: lock_channel.exhaust)

end
