(* ===== verification/Rw_Lock.thy ===== *)
theory Rw_Lock
  imports Locks
begin

text \<open>
  \<^verbatim>\<open>RwLock\<close> of \<^verbatim>\<open>dependencies/kernel-sync\<close>. The lock word counts readers in steps of 4 and has the bits \<^verbatim>\<open>UPGRADED\<close> and \<^verbatim>\<open>WRITER\<close>. As in \<open>Locks\<close>, an
  atomic access is a step and the steps of the cores interleave. The loops of \<^verbatim>\<open>read\<close>, \<^verbatim>\<open>write\<close>, \<^verbatim>\<open>upgradeable_read\<close> and \<^verbatim>\<open>upgrade\<close> repeat the \<^verbatim>\<open>try_\<close> operations. A core
  has at most one guard at a time.
\<close>

subsection \<open>The lock word and the guards\<close>

definition READER :: usize where "READER = push_bit 2 1"
definition UPGRADED :: usize where "UPGRADED = push_bit 1 1"
definition WRITER :: usize where "WRITER = 1"

text \<open>Where a core is: without a guard, before the undo of a failed \<^verbatim>\<open>try_read\<close>, with a read, write or upgradable guard, between the two accesses of
  a downgrade.\<close>

datatype rw_pc = RIdle | RUndo | RRead | RWrite | RUpg | RWDown | RUDown

record rw_state =
  rw_lock :: usize
  rw_pc :: "nat \<Rightarrow> rw_pc"
  rw_core :: "nat \<Rightarrow> core"

definition rw_at :: "nat \<Rightarrow> usize \<Rightarrow> rw_pc \<Rightarrow> core \<Rightarrow> rw_state \<Rightarrow> rw_state" where
  "rw_at c l p q s = s\<lparr>rw_lock := l, rw_pc := (rw_pc s)(c := p), rw_core := (rw_core s)(c := q)\<rparr>"

definition rw_init :: "(nat \<Rightarrow> bool) \<Rightarrow> rw_state" where
  "rw_init on = \<lparr>rw_lock = 0, rw_pc = (\<lambda>_. RIdle), rw_core = (\<lambda>c. \<lparr>sie = on c, mycpu = cpu_new\<rparr>)\<rparr>"

definition rw_reader_count :: "usize \<Rightarrow> usize" where
  "rw_reader_count state = state div READER + (state AND UPGRADED) div UPGRADED"

definition rw_writer_count :: "usize \<Rightarrow> usize" where
  "rw_writer_count state = (state AND WRITER) div WRITER"

definition rw_try_read :: "nat \<Rightarrow> rw_state \<Rightarrow> rw_state option" where
  "rw_try_read c s =
     (if rw_pc s c = RIdle
      then let q = push_off (rw_core s c); val = rw_lock s
           in Some (rw_at c (val + READER) (if val AND (WRITER OR UPGRADED) \<noteq> 0 then RUndo else RRead) q s)
      else None)"

definition rw_undo :: "nat \<Rightarrow> rw_state \<Rightarrow> rw_state option" where
  "rw_undo c s =
     (if rw_pc s c = RUndo then map_option (\<lambda>q. rw_at c (rw_lock s - READER) RIdle q s) (pop_off (rw_core s c)) else None)"

text \<open>A weak exchange may fail spuriously.\<close>

definition rw_try_write :: "bool \<Rightarrow> nat \<Rightarrow> rw_state \<Rightarrow> rw_state option" where
  "rw_try_write spurious c s =
     (if rw_pc s c = RIdle
      then let q = push_off (rw_core s c)
           in if rw_lock s = 0 \<and> \<not> spurious then Some (rw_at c WRITER RWrite q s)
              else map_option (\<lambda>q. rw_at c (rw_lock s) RIdle q s) (pop_off q)
      else None)"

definition rw_try_upgradeable_read :: "nat \<Rightarrow> rw_state \<Rightarrow> rw_state option" where
  "rw_try_upgradeable_read c s =
     (if rw_pc s c = RIdle
      then let q = push_off (rw_core s c); val = rw_lock s
           in if val AND (WRITER OR UPGRADED) = 0 then Some (rw_at c (val OR UPGRADED) RUpg q s)
              else map_option (\<lambda>q. rw_at c (val OR UPGRADED) RIdle q s) (pop_off q)
      else None)"

definition rw_try_upgrade :: "bool \<Rightarrow> nat \<Rightarrow> rw_state \<Rightarrow> rw_state option" where
  "rw_try_upgrade spurious c s =
     (if rw_pc s c = RUpg
      then Some (if rw_lock s = UPGRADED \<and> \<not> spurious then rw_at c WRITER RWrite (rw_core s c) s else s)
      else None)"

definition rw_drop_read :: "nat \<Rightarrow> rw_state \<Rightarrow> rw_state option" where
  "rw_drop_read c s =
     (if rw_pc s c = RRead then map_option (\<lambda>q. rw_at c (rw_lock s - READER) RIdle q s) (pop_off (rw_core s c)) else None)"

definition rw_drop_upgradable :: "nat \<Rightarrow> rw_state \<Rightarrow> rw_state option" where
  "rw_drop_upgradable c s =
     (if rw_pc s c = RUpg then map_option (\<lambda>q. rw_at c (rw_lock s - UPGRADED) RIdle q s) (pop_off (rw_core s c)) else None)"

definition rw_drop_write :: "nat \<Rightarrow> rw_state \<Rightarrow> rw_state option" where
  "rw_drop_write c s =
     (if rw_pc s c = RWrite
      then map_option (\<lambda>q. rw_at c (rw_lock s AND NOT (WRITER OR UPGRADED)) RIdle q s) (pop_off (rw_core s c)) else None)"

text \<open>The downgrades to a read guard: the reader is counted, then the old guard is dropped.\<close>

definition rw_upgradable_downgrade :: "nat \<Rightarrow> rw_state \<Rightarrow> rw_state option" where
  "rw_upgradable_downgrade c s =
     (case rw_pc s c of
        RUpg \<Rightarrow> Some (rw_at c (rw_lock s + READER) RUDown (rw_core s c) s)
      | RUDown \<Rightarrow> map_option (\<lambda>q. rw_at c (rw_lock s - UPGRADED) RRead q s) (pop_off (rw_core s c))
      | _ \<Rightarrow> None)"

definition rw_write_downgrade :: "nat \<Rightarrow> rw_state \<Rightarrow> rw_state option" where
  "rw_write_downgrade c s =
     (case rw_pc s c of
        RWrite \<Rightarrow> Some (rw_at c (rw_lock s + READER) RWDown (rw_core s c) s)
      | RWDown \<Rightarrow> map_option (\<lambda>q. rw_at c (rw_lock s AND NOT (WRITER OR UPGRADED)) RRead q s) (pop_off (rw_core s c))
      | _ \<Rightarrow> None)"

definition rw_downgrade_to_upgradeable :: "nat \<Rightarrow> rw_state \<Rightarrow> rw_state option" where
  "rw_downgrade_to_upgradeable c s = (if rw_pc s c = RWrite then Some (rw_at c UPGRADED RUpg (rw_core s c) s) else None)"

text \<open>\<^verbatim>\<open>leak\<close> of a read or upgradable guard copies the reference out of the guard; the guard itself is dropped at the end of the function.\<close>

definition rw_read_leak :: "nat \<Rightarrow> rw_state \<Rightarrow> rw_state option" where
  "rw_read_leak c s =
     (if rw_pc s c = RRead then pop_off (rw_core s c) \<bind> (\<lambda>q. rw_drop_read c (rw_at c (rw_lock s) RRead q s)) else None)"

definition rw_upgradable_leak :: "nat \<Rightarrow> rw_state \<Rightarrow> rw_state option" where
  "rw_upgradable_leak c s = rw_drop_upgradable c s"

text \<open>\<^verbatim>\<open>leak\<close> of a write guard forgets the guard and leaves the lock word as it is.\<close>

definition rw_write_leak :: "nat \<Rightarrow> rw_state \<Rightarrow> rw_state option" where
  "rw_write_leak c s = (if rw_pc s c = RWrite then map_option (\<lambda>q. rw_at c (rw_lock s) RIdle q s) (pop_off (rw_core s c)) else None)"

text \<open>The operations for callers without guards.\<close>

definition rw_force_read_decrement :: "rw_state \<Rightarrow> rw_state" where
  "rw_force_read_decrement s = s\<lparr>rw_lock := rw_lock s - READER\<rparr>"

definition rw_force_write_unlock :: "rw_state \<Rightarrow> rw_state" where
  "rw_force_write_unlock s = s\<lparr>rw_lock := rw_lock s AND NOT (WRITER OR UPGRADED)\<rparr>"

text \<open>All operations that acquire, release, upgrade and downgrade guards, except for \<^verbatim>\<open>downgrade_to_upgradeable\<close>, which is possible only with \<open>dtu\<close>.\<close>

inductive rw_step :: "bool \<Rightarrow> rw_state \<Rightarrow> rw_state \<Rightarrow> bool" for dtu where
  try_read: "c < MAX_CORE_NUM \<Longrightarrow> rw_try_read c s = Some s' \<Longrightarrow> rw_step dtu s s'"
| undo: "c < MAX_CORE_NUM \<Longrightarrow> rw_undo c s = Some s' \<Longrightarrow> rw_step dtu s s'"
| try_write: "c < MAX_CORE_NUM \<Longrightarrow> rw_try_write sp c s = Some s' \<Longrightarrow> rw_step dtu s s'"
| try_upgradeable_read: "c < MAX_CORE_NUM \<Longrightarrow> rw_try_upgradeable_read c s = Some s' \<Longrightarrow> rw_step dtu s s'"
| try_upgrade: "c < MAX_CORE_NUM \<Longrightarrow> rw_try_upgrade sp c s = Some s' \<Longrightarrow> rw_step dtu s s'"
| drop_read: "c < MAX_CORE_NUM \<Longrightarrow> rw_drop_read c s = Some s' \<Longrightarrow> rw_step dtu s s'"
| drop_upgradable: "c < MAX_CORE_NUM \<Longrightarrow> rw_drop_upgradable c s = Some s' \<Longrightarrow> rw_step dtu s s'"
| drop_write: "c < MAX_CORE_NUM \<Longrightarrow> rw_drop_write c s = Some s' \<Longrightarrow> rw_step dtu s s'"
| upgradable_downgrade: "c < MAX_CORE_NUM \<Longrightarrow> rw_upgradable_downgrade c s = Some s' \<Longrightarrow> rw_step dtu s s'"
| write_downgrade: "c < MAX_CORE_NUM \<Longrightarrow> rw_write_downgrade c s = Some s' \<Longrightarrow> rw_step dtu s s'"
| downgrade_to_upgradeable: "dtu \<Longrightarrow> c < MAX_CORE_NUM \<Longrightarrow> rw_downgrade_to_upgradeable c s = Some s' \<Longrightarrow> rw_step dtu s s'"

subsection \<open>The lock word as a number\<close>

lemma bit_one_unat: "bit x 1 \<longleftrightarrow> 2 \<le> unat x mod 4" for x :: usize
proof -
  have "bit x 1 \<longleftrightarrow> odd (unat x div 2)" using bit_iff_odd [of "unat x" 1] by (simp add: bit_unsigned_iff)
  also have "\<dots> \<longleftrightarrow> 2 \<le> unat x mod 4" by presburger
  finally show ?thesis .
qed

lemma lock_bits:
  fixes x :: usize
  shows "x AND (WRITER OR UPGRADED) = 0 \<longleftrightarrow> unat x mod 4 = 0"
    "unat (x AND NOT (WRITER OR UPGRADED)) = unat x - unat x mod 4"
    "unat (x OR UPGRADED) = unat x + (if unat x mod 4 < 2 then 2 else 0)"
proof -
  have m: "WRITER OR UPGRADED = (mask 2 :: usize)" by (simp add: WRITER_def UPGRADED_def mask_eq_exp_minus_1)
  have t: "unat (take_bit 2 x) = unat x mod 4" by (simp add: take_bit_eq_mod unat_mod)
  have "x AND mask 2 = 0 \<longleftrightarrow> unat (take_bit 2 x) = 0" by (simp add: take_bit_eq_mask unat_eq_0)
  then show "x AND (WRITER OR UPGRADED) = 0 \<longleftrightarrow> unat x mod 4 = 0" by (simp add: m t)
  have "x AND NOT (mask 2) = x AND NOT (take_bit 2 x)" by (rule bit_eqI) (auto simp: bit_simps)
  also have "\<dots> = x - take_bit 2 x" by (rule disjunctive_diff [symmetric]) (auto simp: bit_simps)
  finally have "x AND NOT (mask 2) = x - take_bit 2 x" .
  moreover have "take_bit 2 x \<le> x" by (simp add: word_le_nat_alt t)
  ultimately show "unat (x AND NOT (WRITER OR UPGRADED)) = unat x - unat x mod 4" by (simp add: m unat_sub t)
  have u: "bit UPGRADED n \<longleftrightarrow> n = 1" for n by (auto simp: UPGRADED_def bit_simps)
  show "unat (x OR UPGRADED) = unat x + (if unat x mod 4 < 2 then 2 else 0)"
  proof (cases "bit x 1")
    case True
    then have "x OR UPGRADED = x" by (intro bit_eqI) (auto simp: bit_or_iff u)
    then show ?thesis using True bit_one_unat by simp
  next
    case False
    then have "x OR UPGRADED = x + UPGRADED" by (intro disjunctive_add [symmetric]) (auto simp: u)
    moreover have "unat x mod 4 < 2" using False bit_one_unat [of x] by simp
    moreover from this have "unat x + 2 < 2 ^ 64"
    proof -
      assume r: "unat x mod 4 < 2"
      have "unat x div 4 < 4611686018427387904" using unat64_less [of x] by (simp add: div_less_iff_less_mult)
      moreover have "unat x = 4 * (unat x div 4) + unat x mod 4" by simp
      ultimately have "unat x + 2 < 18446744073709551616" using r by linarith
      then show ?thesis by simp
    qed
    ultimately show ?thesis by (simp add: unat_word_ariths UPGRADED_def)
  qed
qed

subsection \<open>Counting guards\<close>

definition rd :: "rw_pc \<Rightarrow> nat" where "rd p = (if p \<in> {RUndo, RRead, RWDown, RUDown} then 1 else 0)"
definition wr :: "rw_pc \<Rightarrow> nat" where "wr p = (if p \<in> {RWrite, RWDown} then 1 else 0)"
definition up :: "rw_pc \<Rightarrow> nat" where "up p = (if p \<in> {RUpg, RUDown} then 1 else 0)"
definition sh :: "rw_pc \<Rightarrow> nat" where "sh p = (if p = RRead then 1 else 0)"

lemmas pc_counts = rd_def wr_def up_def sh_def

definition guards :: "(rw_pc \<Rightarrow> nat) \<Rightarrow> rw_state \<Rightarrow> nat" where
  "guards f s = (\<Sum>c < MAX_CORE_NUM. f (rw_pc s c))"

lemma total_at:
  assumes "c < MAX_CORE_NUM"
  shows "guards f (rw_at c l p q s) + f (rw_pc s c) = guards f s + f p"
proof -
  have "guards f (rw_at c l p q s) = f p + (\<Sum>i \<in> {..<MAX_CORE_NUM} - {c}. f (rw_pc s i))"
    unfolding guards_def using assms by (subst sum.remove [of _ c]) (auto simp: rw_at_def)
  moreover have "guards f s = f (rw_pc s c) + (\<Sum>i \<in> {..<MAX_CORE_NUM} - {c}. f (rw_pc s i))"
    unfolding guards_def using assms by (subst sum.remove [of _ c]) auto
  ultimately show ?thesis by simp
qed

lemma total_ge: "c < MAX_CORE_NUM \<Longrightarrow> f (rw_pc s c) \<le> guards f s"
  unfolding guards_def by (rule member_le_sum) auto

lemma total_ge_two:
  assumes "c < MAX_CORE_NUM" "d < MAX_CORE_NUM" "c \<noteq> d"
  shows "f (rw_pc s c) + f (rw_pc s d) \<le> guards f s"
proof -
  have "f (rw_pc s c) + f (rw_pc s d) = (\<Sum>i \<in> {c, d}. f (rw_pc s i))" using assms(3) by simp
  also have "\<dots> \<le> guards f s" unfolding guards_def by (rule sum_mono2) (use assms in auto)
  finally show ?thesis .
qed

lemma total_sh_rd: "guards sh s \<le> guards rd s"
  unfolding guards_def by (rule sum_mono) (simp add: pc_counts)

lemma total_rd_cores: "guards rd s \<le> MAX_CORE_NUM"
proof -
  have "guards rd s \<le> (\<Sum>c < MAX_CORE_NUM. 1)" unfolding guards_def by (rule sum_mono) (simp add: pc_counts)
  then show ?thesis by simp
qed

text \<open>The lock word counts the readers, counts the writer, and has the bit \<open>b\<close> for upgradable guards, which a failed \<^verbatim>\<open>try_upgradeable_read\<close> may
  also set while there is a writer.\<close>

definition rw_inv :: "rw_state \<Rightarrow> bool" where
  "rw_inv s \<longleftrightarrow> (\<exists>b \<le> 1. unat (rw_lock s) = 4 * guards rd s + 2 * b + guards wr s \<and> guards wr s + guards up s \<le> 1 \<and>
     guards up s \<le> b \<and> b \<le> guards up s + guards wr s) \<and> (guards wr s = 1 \<longrightarrow> guards sh s = 0) \<and> (\<forall>c \<ge> MAX_CORE_NUM. rw_pc s c = RIdle)"

lemma rw_invE:
  assumes "rw_inv s"
  obtains b where "b \<le> 1" "unat (rw_lock s) = 4 * guards rd s + 2 * b + guards wr s" "guards wr s + guards up s \<le> 1" "guards up s \<le> b"
    "b \<le> guards up s + guards wr s" "guards wr s = 1 \<longrightarrow> guards sh s = 0" "\<forall>c \<ge> MAX_CORE_NUM. rw_pc s c = RIdle"
  using assms by (auto simp: rw_inv_def)

text \<open>A step of core \<open>c\<close>, as arithmetic on the counts.\<close>

lemma rw_inv_at:
  assumes "rw_inv s" "c < MAX_CORE_NUM"
    "\<And>b r w u h. b \<le> 1 \<Longrightarrow> unat (rw_lock s) = 4 * (r + rd (rw_pc s c)) + 2 * b + (w + wr (rw_pc s c)) \<Longrightarrow>
       w + wr (rw_pc s c) + (u + up (rw_pc s c)) \<le> 1 \<Longrightarrow> u + up (rw_pc s c) \<le> b \<Longrightarrow> b \<le> u + up (rw_pc s c) + (w + wr (rw_pc s c)) \<Longrightarrow>
       (w + wr (rw_pc s c) = 1 \<Longrightarrow> h + sh (rw_pc s c) = 0) \<Longrightarrow> r + rd (rw_pc s c) \<le> MAX_CORE_NUM \<Longrightarrow> h \<le> r \<Longrightarrow>
       (\<exists>b' \<le> 1. unat l = 4 * (r + rd p) + 2 * b' + (w + wr p) \<and> w + wr p + (u + up p) \<le> 1 \<and> u + up p \<le> b' \<and>
         b' \<le> u + up p + (w + wr p)) \<and> (w + wr p = 1 \<longrightarrow> h + sh p = 0)"
  shows "rw_inv (rw_at c l p q s)"
proof -
  define rest where "rest f = guards f s - f (rw_pc s c)" for f :: "rw_pc \<Rightarrow> nat"
  have t: "guards f s = rest f + f (rw_pc s c)" for f using total_ge [OF assms(2), of f s] by (simp add: rest_def)
  have t': "guards f (rw_at c l p q s) = rest f + f p" for f using total_at [OF assms(2), of f l p q s] t [of f] by simp
  have le: "rest sh \<le> rest rd"
  proof -
    have "rest f = (\<Sum>i \<in> {..<MAX_CORE_NUM} - {c}. f (rw_pc s i))" for f
      using assms(2) unfolding rest_def guards_def by (subst sum.remove [of _ c]) auto
    then show ?thesis by (simp add: sum_mono pc_counts)
  qed
  obtain b where b: "b \<le> 1" "unat (rw_lock s) = 4 * guards rd s + 2 * b + guards wr s" "guards wr s + guards up s \<le> 1" "guards up s \<le> b"
    "b \<le> guards up s + guards wr s" "guards wr s = 1 \<longrightarrow> guards sh s = 0" "\<forall>c \<ge> MAX_CORE_NUM. rw_pc s c = RIdle" by (rule rw_invE [OF assms(1)])
  have "(\<exists>b' \<le> 1. unat l = 4 * (rest rd + rd p) + 2 * b' + (rest wr + wr p) \<and> rest wr + wr p + (rest up + up p) \<le> 1 \<and> rest up + up p \<le> b' \<and>
         b' \<le> rest up + up p + (rest wr + wr p)) \<and> (rest wr + wr p = 1 \<longrightarrow> rest sh + sh p = 0)"
    by (rule assms(3) [OF b(1)]) (use b t total_rd_cores [of s] le in simp_all)
  then show ?thesis using b(7) assms(2) unfolding rw_inv_def t' by (simp add: rw_at_def)
qed

lemma unat_lock_add: "unat x \<le> 4 * MAX_CORE_NUM + 3 \<Longrightarrow> unat (x + READER) = unat x + 4" for x :: usize
  by (simp add: unat_word_ariths READER_def MAX_CORE_NUM_def)

lemma unat_lock_sub:
  "4 \<le> unat x \<Longrightarrow> unat (x - READER) = unat x - 4" "2 \<le> unat x \<Longrightarrow> unat (x - UPGRADED) = unat x - 2" for x :: usize
  by (simp_all add: unat_sub word_le_nat_alt READER_def UPGRADED_def)

lemma lock_mod: "x = 4 * r + 2 * b + w \<Longrightarrow> b \<le> 1 \<Longrightarrow> w \<le> 1 \<Longrightarrow> x mod 4 = 2 * b + w" for x :: nat
  by presburger

text \<open>Each operation that changes the lock word.\<close>

lemma rw_inv_read:
  assumes i: "rw_inv s" and c: "c < MAX_CORE_NUM" "rw_pc s c = RIdle"
  shows "rw_inv (rw_at c (rw_lock s + READER) (if rw_lock s AND (WRITER OR UPGRADED) \<noteq> 0 then RUndo else RRead) q s)"
proof (rule rw_inv_at [OF i c(1)], goal_cases)
  case (1 b r w u h)
  then have l: "unat (rw_lock s) = 4 * r + 2 * b + w" "w \<le> 1" using c(2) by (simp_all add: pc_counts)
  then have "unat (rw_lock s + READER) = unat (rw_lock s) + 4" using 1 c(2) by (intro unat_lock_add) (simp add: pc_counts)
  then show ?case using 1 c(2) l lock_mod [OF l(1) 1(1) l(2)] by (auto simp: lock_bits(1) pc_counts intro!: exI [of _ b])
qed

lemma rw_inv_unread:
  assumes i: "rw_inv s" and c: "c < MAX_CORE_NUM" "rw_pc s c = RUndo \<or> rw_pc s c = RRead"
  shows "rw_inv (rw_at c (rw_lock s - READER) RIdle q s)"
proof (rule rw_inv_at [OF i c(1)], goal_cases)
  case (1 b r w u h)
  then have "unat (rw_lock s - READER) = unat (rw_lock s) - 4" using c(2) by (intro unat_lock_sub) (auto simp: pc_counts)
  then show ?case using 1 c(2) by (auto simp: pc_counts intro!: exI [of _ b])
qed

lemma rw_inv_write:
  assumes i: "rw_inv s" and c: "c < MAX_CORE_NUM" "rw_pc s c = RIdle \<and> rw_lock s = 0 \<or> rw_pc s c = RUpg \<and> rw_lock s = UPGRADED"
  shows "rw_inv (rw_at c WRITER RWrite q s)"
proof (rule rw_inv_at [OF i c(1)], goal_cases)
  case (1 b r w u h)
  then show ?case using c(2) by (auto simp: pc_counts WRITER_def UPGRADED_def intro!: exI [of _ 0])
qed

lemma rw_inv_upgradeable:
  assumes i: "rw_inv s" and c: "c < MAX_CORE_NUM" "rw_pc s c = RIdle"
  shows "rw_inv (rw_at c (rw_lock s OR UPGRADED) (if rw_lock s AND (WRITER OR UPGRADED) = 0 then RUpg else RIdle) q s)"
proof (rule rw_inv_at [OF i c(1)], goal_cases)
  case (1 b r w u h)
  then have l: "unat (rw_lock s) = 4 * r + 2 * b + w" "w \<le> 1" using c(2) by (simp_all add: pc_counts)
  then show ?case using 1 c(2) lock_mod [OF l(1) 1(1) l(2)] by (auto simp: lock_bits(1,3) pc_counts intro!: exI [of _ 1])
qed

lemma rw_inv_unupgrade:
  assumes i: "rw_inv s" and c: "c < MAX_CORE_NUM" "rw_pc s c = RUpg \<and> p = RIdle \<or> rw_pc s c = RUDown \<and> p = RRead"
  shows "rw_inv (rw_at c (rw_lock s - UPGRADED) p q s)"
proof (rule rw_inv_at [OF i c(1)], goal_cases)
  case (1 b r w u h)
  then have "unat (rw_lock s - UPGRADED) = unat (rw_lock s) - 2" using c(2) by (intro unat_lock_sub) (auto simp: pc_counts)
  then show ?case using 1 c(2) by (auto simp: pc_counts intro!: exI [of _ 0])
qed

lemma rw_inv_unwrite:
  assumes i: "rw_inv s" and c: "c < MAX_CORE_NUM" "rw_pc s c = RWrite \<and> p = RIdle \<or> rw_pc s c = RWDown \<and> p = RRead"
  shows "rw_inv (rw_at c (rw_lock s AND NOT (WRITER OR UPGRADED)) p q s)"
proof (rule rw_inv_at [OF i c(1)], goal_cases)
  case (1 b r w u h)
  let ?r = "r + rd (rw_pc s c)" and ?w = "w + wr (rw_pc s c)"
  have "?w \<le> 1" using 1(3) by simp
  then have "unat (rw_lock s AND NOT (WRITER OR UPGRADED)) = 4 * ?r" unfolding lock_bits(2) lock_mod [OF 1(2,1) \<open>?w \<le> 1\<close>] using 1(2) by simp
  then show ?case using 1 c(2) by (auto simp: pc_counts intro!: exI [of _ 0])
qed

lemma rw_inv_reserve:
  assumes i: "rw_inv s" and c: "c < MAX_CORE_NUM" "rw_pc s c = RWrite \<and> p = RWDown \<or> rw_pc s c = RUpg \<and> p = RUDown"
  shows "rw_inv (rw_at c (rw_lock s + READER) p q s)"
proof (rule rw_inv_at [OF i c(1)], goal_cases)
  case (1 b r w u h)
  then have "unat (rw_lock s + READER) = unat (rw_lock s) + 4" using c(2) by (intro unat_lock_add) (auto simp: pc_counts)
  then show ?case using 1 c(2) by (auto simp: pc_counts intro!: exI [of _ b])
qed

lemma rw_inv_same: "rw_inv s \<Longrightarrow> rw_pc s c = p \<Longrightarrow> rw_inv (rw_at c (rw_lock s) p q s)"
  by (simp add: rw_inv_def guards_def rw_at_def fun_upd_idem)

lemma rw_step_inv:
  assumes i: "rw_inv s" and st: "rw_step False s s'"
  shows "rw_inv s'"
  using st
proof cases
  case (try_read c)
  then show ?thesis using rw_inv_read [OF i try_read(1)] by (auto simp: rw_try_read_def Let_def split: if_split_asm)
next
  case (undo c)
  then show ?thesis using rw_inv_unread [OF i undo(1)] by (auto simp: rw_undo_def split: if_splits)
next
  case (try_write c sp)
  then show ?thesis using rw_inv_write [OF i try_write(1)] rw_inv_same [OF i] by (auto simp: rw_try_write_def Let_def split: if_splits)
next
  case (try_upgradeable_read c)
  then show ?thesis using rw_inv_upgradeable [OF i try_upgradeable_read(1)] by (auto simp: rw_try_upgradeable_read_def Let_def split: if_splits)
next
  case (try_upgrade c sp)
  then show ?thesis using rw_inv_write [OF i try_upgrade(1)] i by (auto simp: rw_try_upgrade_def split: if_splits)
next
  case (drop_read c)
  then show ?thesis using rw_inv_unread [OF i drop_read(1)] by (auto simp: rw_drop_read_def split: if_splits)
next
  case (drop_upgradable c)
  then show ?thesis using rw_inv_unupgrade [OF i drop_upgradable(1)] by (auto simp: rw_drop_upgradable_def split: if_splits)
next
  case (drop_write c)
  then show ?thesis using rw_inv_unwrite [OF i drop_write(1)] by (auto simp: rw_drop_write_def split: if_splits)
next
  case (upgradable_downgrade c)
  then show ?thesis using rw_inv_unupgrade [OF i upgradable_downgrade(1)] rw_inv_reserve [OF i upgradable_downgrade(1)]
    by (auto simp: rw_upgradable_downgrade_def split: rw_pc.splits)
next
  case (write_downgrade c)
  then show ?thesis using rw_inv_unwrite [OF i write_downgrade(1)] rw_inv_reserve [OF i write_downgrade(1)]
    by (auto simp: rw_write_downgrade_def split: rw_pc.splits)
qed simp

lemma rw_reach: "(rw_step False)\<^sup>*\<^sup>* (rw_init on) s \<Longrightarrow> rw_inv s"
proof (induction rule: rtranclp_induct)
  case base
  have "guards f (rw_init on) = MAX_CORE_NUM * f RIdle" for f by (simp add: guards_def rw_init_def)
  then show ?case by (simp add: rw_inv_def pc_counts) (simp add: rw_init_def)
next
  case (step s s')
  then show ?case by (blast intro: rw_step_inv)
qed

text \<open>C13: Readers and writers exclude each other. In every state that the cores reach with \<^verbatim>\<open>try_read\<close>, \<^verbatim>\<open>try_write\<close>, \<^verbatim>\<open>try_upgradeable_read\<close>, upgrades,
  downgrades to read guards and drops (and so with the loops around them), a core with a write guard is the only one with any guard, and there is at most one
  upgradable guard. When all guards are gone the lock word is 0 again, so every kind of guard can be had.\<close>

theorem rwlock_exclusion:
  assumes "(rw_step False)\<^sup>*\<^sup>* (rw_init on) s"
  shows "(\<forall>c d. c \<noteq> d \<and> rw_pc s c = RWrite \<longrightarrow> rw_pc s d \<in> {RIdle, RUndo}) \<and>
    (\<forall>c d. rw_pc s c = RUpg \<and> rw_pc s d = RUpg \<longrightarrow> c = d) \<and>
    ((\<forall>c. rw_pc s c = RIdle) \<longrightarrow> rw_lock s = 0)"
proof (intro conjI allI impI)
  obtain b where b: "b \<le> 1" "unat (rw_lock s) = 4 * guards rd s + 2 * b + guards wr s" "guards wr s + guards up s \<le> 1" "guards up s \<le> b"
    "b \<le> guards up s + guards wr s" "guards wr s = 1 \<longrightarrow> guards sh s = 0" "\<forall>c \<ge> MAX_CORE_NUM. rw_pc s c = RIdle"
    by (rule rw_invE [OF rw_reach [OF assms]])
  have core: "c < MAX_CORE_NUM" if "rw_pc s c \<noteq> RIdle" for c using b(7) that not_less by blast
  show "rw_pc s d \<in> {RIdle, RUndo}" if "c \<noteq> d \<and> rw_pc s c = RWrite" for c d
  proof (cases "rw_pc s d = RIdle")
    case False
    have cd: "c < MAX_CORE_NUM" "d < MAX_CORE_NUM" using core False that by auto
    have w: "guards wr s = 1" using total_ge [OF cd(1), of wr s] b(3) that by (simp add: wr_def)
    then have "guards sh s = 0" "guards up s = 0" using b(3,6) by simp_all
    then have "sh (rw_pc s d) = 0" "up (rw_pc s d) = 0" using total_ge [OF cd(2), of sh s] total_ge [OF cd(2), of up s] by simp_all
    moreover have "wr (rw_pc s d) = 0" using total_ge_two [OF cd, of wr s] that w by (simp add: wr_def)
    ultimately show ?thesis by (cases "rw_pc s d") (simp_all add: pc_counts)
  qed simp
  show "c = d" if "rw_pc s c = RUpg \<and> rw_pc s d = RUpg" for c d
    using total_ge_two [of c d up s] core [of c] core [of d] that b(3) by (auto simp: up_def)
  show "rw_lock s = 0" if "\<forall>c. rw_pc s c = RIdle"
  proof -
    have "guards rd s = 0" "guards wr s = 0" "guards up s = 0" using that by (simp_all add: guards_def pc_counts)
    then show ?thesis using b(2,5) by (simp add: unat_eq_0)
  qed
qed

subsection \<open>Operations that break the lock\<close>

lemma idle_push: "core_ok (on c) 1 (push_off \<lparr>sie = on c, mycpu = cpu_new\<rparr>)"
  by (rule core_ok_push) (simp add: core_ok_def cpu_new_def)

text \<open>C14: \<^verbatim>\<open>downgrade_to_upgradeable\<close> breaks the exclusion. It overwrites the lock word, and with it the count of a core between the two accesses of a failed
  \<^verbatim>\<open>try_read\<close>; the undo of that core then makes the count one too small, so that after the next reader the word is 0 and a
  writer enters beside the reader.\<close>

theorem rwlock_downgrade_to_upgradeable_race:
  "\<exists>s. (rw_step True)\<^sup>*\<^sup>* (rw_init on) s \<and> rw_pc s 2 = RRead \<and> rw_pc s 3 = RWrite"
proof -
  let ?s0 = "rw_init on"
  obtain q0 where q0: "pop_off (push_off (rw_core ?s0 0)) = Some q0" using core_ok_pop [OF idle_push [of on 0]] by (auto simp: rw_init_def)
  obtain q1 where q1: "pop_off (push_off (rw_core ?s0 1)) = Some q1" using core_ok_pop [OF idle_push [of on 1]] by (auto simp: rw_init_def)
  define s1 where "s1 = rw_at 0 WRITER RWrite (push_off (rw_core ?s0 0)) ?s0"
  define s2 where "s2 = rw_at 1 5 RUndo (push_off (rw_core ?s0 1)) s1"
  define s3 where "s3 = rw_at 0 UPGRADED RUpg (push_off (rw_core ?s0 0)) s2"
  define s4 where "s4 = rw_at 1 (- 2) RIdle q1 s3"
  define s5 where "s5 = rw_at 0 (- 4) RIdle q0 s4"
  define s6 where "s6 = rw_at 2 0 RRead (push_off (rw_core ?s0 2)) s5"
  define s7 where "s7 = rw_at 3 WRITER RWrite (push_off (rw_core ?s0 3)) s6"
  note defs = s1_def s2_def s3_def s4_def s5_def s6_def s7_def rw_at_def WRITER_def UPGRADED_def READER_def
  have m: "0 < MAX_CORE_NUM" "1 < MAX_CORE_NUM" "2 < MAX_CORE_NUM" "3 < MAX_CORE_NUM" by (simp_all add: MAX_CORE_NUM_def)
  have 1: "rw_step True ?s0 s1" by (rule rw_step.try_write [OF m(1), of False]) (simp add: rw_try_write_def rw_init_def defs)
  have 2: "rw_step True s1 s2" by (rule rw_step.try_read [OF m(2)]) (simp add: rw_try_read_def rw_init_def defs)
  have 3: "rw_step True s2 s3" by (rule rw_step.downgrade_to_upgradeable [OF _ m(1)]) (simp_all add: rw_downgrade_to_upgradeable_def rw_init_def defs)
  have 4: "rw_step True s3 s4" by (rule rw_step.undo [OF m(2)]) (use q1 in \<open>simp add: rw_undo_def rw_init_def defs\<close>)
  have 5: "rw_step True s4 s5" by (rule rw_step.drop_upgradable [OF m(1)]) (use q0 in \<open>simp add: rw_drop_upgradable_def rw_init_def defs\<close>)
  have 6: "rw_step True s5 s6" by (rule rw_step.try_read [OF m(3)]) (simp add: rw_try_read_def rw_init_def defs)
  have 7: "rw_step True s6 s7" by (rule rw_step.try_write [OF m(4), of False]) (simp add: rw_try_write_def rw_init_def defs)
  have "(rw_step True)\<^sup>*\<^sup>* ?s0 s7" using 1 2 3 4 5 6 7 by (meson converse_rtranclp_into_rtranclp rtranclp.rtrancl_refl)
  moreover have "rw_pc s7 2 = RRead" "rw_pc s7 3 = RWrite" by (simp_all add: defs)
  ultimately show ?thesis by blast
qed

text \<open>C15: A core that downgrades its only guard to a read guard panics when it drops the read guard: the downgrade has already enabled
  interrupts again for the guard it replaced. \<^verbatim>\<open>leak\<close> of its only read guard panics at once, for the same reason.\<close>

theorem rwlock_downgrade_panics:
  assumes "core_ok on 1 (rw_core s c)"
  shows "(rw_pc s c = RWrite \<longrightarrow> (\<exists>s1 s2. rw_write_downgrade c s = Some s1 \<and> rw_write_downgrade c s1 = Some s2 \<and> rw_pc s2 c = RRead \<and> rw_drop_read c s2 = None)) \<and>
    (rw_pc s c = RUpg \<longrightarrow> (\<exists>s1 s2. rw_upgradable_downgrade c s = Some s1 \<and> rw_upgradable_downgrade c s1 = Some s2 \<and> rw_pc s2 c = RRead \<and> rw_drop_read c s2 = None)) \<and>
    (rw_pc s c = RRead \<longrightarrow> rw_read_leak c s = None)"
proof -
  obtain q where q: "pop_off (rw_core s c) = Some q" "core_ok on 0 q" using core_ok_pop [OF assms] by blast
  have n: "pop_off q = None" by (rule pop_off_panics [OF q(2)])
  show ?thesis using q(1) n
    by (auto simp: rw_write_downgrade_def rw_upgradable_downgrade_def rw_drop_read_def rw_read_leak_def rw_at_def)
qed

text \<open>Core 0 takes the write guard.\<close>

lemma demo_writer:
  "\<exists>s. (rw_step False)\<^sup>*\<^sup>* (rw_init (\<lambda>_. True)) s \<and> rw_pc s 0 = RWrite \<and> core_ok True 1 (rw_core s 0)"
proof -
  let ?init = "rw_init (\<lambda>_. True)"
  let ?s = "rw_at 0 WRITER RWrite (push_off (rw_core ?init 0)) ?init"
  have "rw_try_write False 0 ?init = Some ?s" by (simp add: rw_try_write_def rw_init_def)
  then have "rw_step False ?init ?s" by (intro rw_step.try_write) (simp_all add: MAX_CORE_NUM_def)
  moreover have "rw_pc ?s 0 = RWrite" "core_ok True 1 (rw_core ?s 0)" using idle_push [of "\<lambda>_. True" 0] by (simp_all add: rw_at_def rw_init_def)
  ultimately show ?thesis by blast
qed

theorem rwlock_exclusion_witness:
  "\<exists>s. (rw_step False)\<^sup>*\<^sup>* (rw_init (\<lambda>_. True)) s \<and> rw_pc s 0 = RWrite \<and> rw_pc s 1 \<noteq> RRead"
proof -
  obtain s where s: "(rw_step False)\<^sup>*\<^sup>* (rw_init (\<lambda>_. True)) s" "rw_pc s 0 = RWrite" using demo_writer by blast
  from rwlock_exclusion [OF s(1)] have "0 \<noteq> (1 :: nat) \<and> rw_pc s 0 = RWrite \<longrightarrow> rw_pc s 1 \<in> {RIdle, RUndo}" by blast
  then show ?thesis using s by auto
qed

theorem rwlock_downgrade_panics_witness:
  "\<exists>s s1 s2. rw_pc s 0 = RWrite \<and> rw_write_downgrade 0 s = Some s1 \<and> rw_write_downgrade 0 s1 = Some s2 \<and> rw_drop_read 0 s2 = None"
proof -
  obtain s :: rw_state where s: "rw_pc s 0 = RWrite" "core_ok True 1 (rw_core s 0)" using demo_writer by blast
  from rwlock_downgrade_panics [OF s(2)] s(1) show ?thesis by blast
qed

end
