(* ===== verification/Storage.thy ===== *)
theory Storage
  imports Page_Bytes
begin

text \<open>
  The storage under the FAT file system: the traits of \<^verbatim>\<open>rust-fatfs/src/io.rs\<close> and \<^verbatim>\<open>error.rs\<close>, the disk image in memory (\<^verbatim>\<open>kernel/src/drivers/memory\<close>) and the
  buffer in front of it (\<^verbatim>\<open>fscommon/src/buf_stream.rs\<close>).

  A type that implements \<^verbatim>\<open>Read\<close>, \<^verbatim>\<open>Write\<close> and \<^verbatim>\<open>Seek\<close> is a record of functions on its state; generic code takes the record as an argument. A read takes the
  length of the buffer and returns the bytes read. The locale \<open>storage\<close> says what the file system relies on: a byte array with a
  position. The image in memory satisfies it and the buffer preserves it, as do the slices of \<open>Disk_Slice\<close>.
\<close>

subsection \<open>Errors and outcomes\<close>

datatype io_error_kind =
    Kind_NotFound | Kind_PermissionDenied | Kind_ConnectionRefused | Kind_ConnectionReset | Kind_ConnectionAborted | Kind_NotConnected
  | Kind_AddrInUse | Kind_AddrNotAvailable | Kind_BrokenPipe | Kind_AlreadyExists | Kind_WouldBlock | Kind_InvalidInput | Kind_InvalidData
  | Kind_TimedOut | Kind_WriteZero | Kind_Interrupted | Kind_Other | Kind_UnexpectedEof | Kind_Uncategorized

datatype 'e fat_error =
    Fat_Io 'e
  | Fat_UnexpectedEof
  | Fat_WriteZero
  | Fat_InvalidInput
  | Fat_NotFound
  | Fat_AlreadyExists
  | Fat_DirectoryIsNotEmpty
  | Fat_CorruptedFileSystem
  | Fat_NotEnoughSpace
  | Fat_InvalidFileNameLength
  | Fat_UnsupportedFileNameCharacter

text \<open>An offset relative to the end or to the position is an \<^verbatim>\<open>i64\<close>, kept as its bits.\<close>

datatype seek_from = SeekStart u64 | SeekEnd u64 | SeekCurrent u64

type_synonym ('e, 'a, 's) outcome = "(('e + 'a) \<times> 's) option"

text \<open>\<^verbatim>\<open>m?\<close>, a conversion of the error, and an operation on a component of the state.\<close>

definition try_io :: "('e, 'a, 's) outcome \<Rightarrow> ('a \<Rightarrow> 's \<Rightarrow> ('e, 'b, 's) outcome) \<Rightarrow> ('e, 'b, 's) outcome" where
  "try_io m k = (case m of None \<Rightarrow> None | Some (r, s) \<Rightarrow> (case r of Inl e \<Rightarrow> Some (Inl e, s) | Inr a \<Rightarrow> k a s))"

definition map_err :: "('e \<Rightarrow> 'f) \<Rightarrow> ('e, 'a, 's) outcome \<Rightarrow> ('f, 'a, 's) outcome" where
  "map_err f m = map_option (map_prod (map_sum f id) id) m"

definition inside :: "('t \<Rightarrow> 's) \<Rightarrow> ('e, 'a, 't) outcome \<Rightarrow> ('e, 'a, 's) outcome" where
  "inside f m = map_option (map_prod id f) m"

lemma outcome_simps [simp]:
  "try_io None k = None" "try_io (Some (Inl e, s)) k = Some (Inl e, s)" "try_io (Some (Inr a, s)) k = k a s"
  "map_err f None = None" "map_err f (Some (Inl e, s)) = Some (Inl (f e), s)" "map_err f (Some (Inr a, s)) = Some (Inr a, s)"
  "inside g None = None" "inside g (Some (r, t)) = Some (r, g t)"
  by (simp_all add: try_io_def map_err_def inside_def)

subsection \<open>Streams (io.rs)\<close>

record ('s, 'e) stream =
  rd :: "nat \<Rightarrow> 's \<Rightarrow> ('e, byte list, 's) outcome"
  wr :: "byte list \<Rightarrow> 's \<Rightarrow> ('e, nat, 's) outcome"
  sk :: "seek_from \<Rightarrow> 's \<Rightarrow> ('e, u64, 's) outcome"
  fl :: "'s \<Rightarrow> ('e, unit, 's) outcome"
  is_interrupted :: "'e \<Rightarrow> bool"
  unexpected_eof_error :: 'e
  write_zero_error :: 'e

text \<open>\<^verbatim>\<open>read_exact\<close> and \<^verbatim>\<open>write_all\<close> retry interrupted operations, without a bound. \<open>n\<close> is the rest of the buffer, \<open>acc\<close> what is already filled.\<close>

partial_function (option) read_exact_loop :: "('s, 'e) stream \<Rightarrow> nat \<Rightarrow> byte list \<Rightarrow> 's \<Rightarrow> ('e, byte list, 's) outcome" where
  "read_exact_loop S n acc s =
     (if n = 0 then Some (Inr acc, s)
      else do {
        (r, s) \<leftarrow> rd S n s;
        case r of
          Inr bs \<Rightarrow>
            (if bs = [] then Some (Inl (unexpected_eof_error S), s)
             else if length bs \<le> n then read_exact_loop S (n - length bs) (acc @ bs) s else None)
        | Inl e \<Rightarrow> (if is_interrupted S e then read_exact_loop S n acc s else Some (Inl e, s))
      })"

definition read_exact :: "('s, 'e) stream \<Rightarrow> nat \<Rightarrow> 's \<Rightarrow> ('e, byte list, 's) outcome" where
  "read_exact S n s = read_exact_loop S n [] s"

partial_function (option) write_all :: "('s, 'e) stream \<Rightarrow> byte list \<Rightarrow> 's \<Rightarrow> ('e, unit, 's) outcome" where
  "write_all S buf s =
     (if buf = [] then Some (Inr (), s)
      else do {
        (r, s) \<leftarrow> wr S buf s;
        case r of
          Inr n \<Rightarrow>
            (if n = 0 then Some (Inl (write_zero_error S), s)
             else if n \<le> length buf then write_all S (drop n buf) s else None)
        | Inl e \<Rightarrow> (if is_interrupted S e then write_all S buf s else Some (Inl e, s))
      })"

text \<open>\<^verbatim>\<open>from_le_bytes\<close> and \<^verbatim>\<open>to_le_bytes\<close>, \<^verbatim>\<open>ReadLeExt\<close> and \<^verbatim>\<open>WriteLeExt\<close>.\<close>

definition from_le_bytes :: "byte list \<Rightarrow> 'w::len word" where
  "from_le_bytes bs = foldr (\<lambda>b w. push_bit 8 w OR ucast b) bs 0"

definition to_le_bytes :: "nat \<Rightarrow> 'w::len word \<Rightarrow> byte list" where
  "to_le_bytes n w = map (\<lambda>i. ucast (drop_bit (8 * i) w)) [0..<n]"

definition read_u8 :: "('s, 'e) stream \<Rightarrow> 's \<Rightarrow> ('e, u8, 's) outcome" where
  "read_u8 S s = try_io (read_exact S 1 s) (\<lambda>buf s. Some (Inr (hd buf), s))"

definition read_u16_le :: "('s, 'e) stream \<Rightarrow> 's \<Rightarrow> ('e, u16, 's) outcome" where
  "read_u16_le S s = try_io (read_exact S 2 s) (\<lambda>buf s. Some (Inr (from_le_bytes buf), s))"

definition read_u32_le :: "('s, 'e) stream \<Rightarrow> 's \<Rightarrow> ('e, u32, 's) outcome" where
  "read_u32_le S s = try_io (read_exact S 4 s) (\<lambda>buf s. Some (Inr (from_le_bytes buf), s))"

definition write_u8 :: "('s, 'e) stream \<Rightarrow> u8 \<Rightarrow> 's \<Rightarrow> ('e, unit, 's) outcome" where
  "write_u8 S n s = write_all S [n] s"

definition write_u16_le :: "('s, 'e) stream \<Rightarrow> u16 \<Rightarrow> 's \<Rightarrow> ('e, unit, 's) outcome" where
  "write_u16_le S n s = write_all S (to_le_bytes 2 n) s"

definition write_u32_le :: "('s, 'e) stream \<Rightarrow> u32 \<Rightarrow> 's \<Rightarrow> ('e, unit, 's) outcome" where
  "write_u32_le S n s = write_all S (to_le_bytes 4 n) s"

subsection \<open>The disk image in memory (device.rs)\<close>

record mem_device =
  dev_start :: usize
  dev_end :: usize
  dev_pos :: usize
  dev_mem :: "usize \<Rightarrow> byte"

definition mmd_new :: "usize \<Rightarrow> usize \<Rightarrow> (usize \<Rightarrow> byte) \<Rightarrow> mem_device" where
  "mmd_new start end' m = \<lparr>dev_start = start, dev_end = end', dev_pos = start, dev_mem = m\<rparr>"

definition mmd_read :: "nat \<Rightarrow> mem_device \<Rightarrow> (io_error_kind, byte list, mem_device) outcome" where
  "mmd_read n d =
     (let read_len = min (unat (dev_end d - dev_pos d)) n
      in Some (Inr (mem_read (dev_mem d) (dev_pos d) read_len), d\<lparr>dev_pos := dev_pos d + of_nat read_len\<rparr>))"

definition mmd_write :: "byte list \<Rightarrow> mem_device \<Rightarrow> (io_error_kind, nat, mem_device) outcome" where
  "mmd_write buf d =
     (let write_len = min (unat (dev_end d - dev_pos d)) (length buf)
      in Some (Inr write_len,
           d\<lparr>dev_mem := mem_write (dev_mem d) (dev_pos d) (take write_len buf), dev_pos := dev_pos d + of_nat write_len\<rparr>))"

definition mmd_seek :: "seek_from \<Rightarrow> mem_device \<Rightarrow> (io_error_kind, u64, mem_device) outcome" where
  "mmd_seek pos d =
     (let new_pos = (case pos of SeekCurrent delta \<Rightarrow> dev_pos d + delta | SeekStart delta \<Rightarrow> dev_start d + delta | SeekEnd delta \<Rightarrow> dev_end d + delta)
      in if new_pos < dev_start d \<or> new_pos > dev_end d then Some (Inl Kind_Uncategorized, d)
         else Some (Inr (new_pos - dev_start d), d\<lparr>dev_pos := new_pos\<rparr>))"

definition mmd :: "(mem_device, io_error_kind) stream" where
  "mmd = \<lparr>rd = mmd_read, wr = mmd_write, sk = mmd_seek, fl = (\<lambda>d. Some (Inr (), d)),
     is_interrupted = (\<lambda>e. e = Kind_Interrupted), unexpected_eof_error = Kind_UnexpectedEof, write_zero_error = Kind_WriteZero\<rparr>"

subsection \<open>The buffer (buf_stream.rs)\<close>

record 's buf_stream =
  bs_inner :: 's
  bs_buf :: "byte list"
  bs_len :: nat
  bs_pos :: nat
  bs_write :: bool

definition BUF_SIZE :: nat where "BUF_SIZE = 512"

definition buf_new :: "'s \<Rightarrow> 's buf_stream" where
  "buf_new inner = \<lparr>bs_inner = inner, bs_buf = replicate BUF_SIZE 0, bs_len = 0, bs_pos = 0, bs_write = False\<rparr>"

abbreviation with_inner :: "'s buf_stream \<Rightarrow> 's \<Rightarrow> 's buf_stream" where
  "with_inner b i \<equiv> b\<lparr>bs_inner := i\<rparr>"

definition flush_buf :: "('s, 'e) stream \<Rightarrow> 's buf_stream \<Rightarrow> ('e, unit, 's buf_stream) outcome" where
  "flush_buf S b =
     (if bs_write b
      then do {
        xs \<leftarrow> slice (bs_buf b) 0 (bs_pos b);
        try_io (inside (with_inner b) (write_all S xs (bs_inner b))) (\<lambda>_ b. Some (Inr (), b\<lparr>bs_pos := 0\<rparr>))
      }
      else Some (Inr (), b))"

definition make_reader :: "('s, 'e) stream \<Rightarrow> 's buf_stream \<Rightarrow> ('e, unit, 's buf_stream) outcome" where
  "make_reader S b =
     (if bs_write b then try_io (flush_buf S b) (\<lambda>_ b. Some (Inr (), b\<lparr>bs_write := False, bs_len := 0, bs_pos := 0\<rparr>))
      else Some (Inr (), b))"

definition make_writter :: "('s, 'e) stream \<Rightarrow> 's buf_stream \<Rightarrow> ('e, unit, 's buf_stream) outcome" where
  "make_writter S b =
     (if \<not> bs_write b
      then try_io (inside (with_inner b) (sk S (SeekCurrent (- (of_nat (bs_len b) - of_nat (bs_pos b)))) (bs_inner b)))
             (\<lambda>_ b. Some (Inr (), b\<lparr>bs_write := True, bs_len := 0, bs_pos := 0\<rparr>))
      else Some (Inr (), b))"

definition fill_buf :: "('s, 'e) stream \<Rightarrow> 's buf_stream \<Rightarrow> ('e, byte list, 's buf_stream) outcome" where
  "fill_buf S b =
     try_io (make_reader S b) (\<lambda>_ b.
       try_io
         (if bs_pos b \<ge> bs_len b
          then try_io (inside (with_inner b) (rd S (length (bs_buf b)) (bs_inner b))) (\<lambda>xs b. do {
                 buf \<leftarrow> copy_into (bs_buf b) 0 xs;
                 Some (Inr (), b\<lparr>bs_buf := buf, bs_len := length xs, bs_pos := 0\<rparr>)
               })
          else Some (Inr (), b))
         (\<lambda>_ b. map_option (\<lambda>xs. (Inr xs, b)) (slice (bs_buf b) (bs_pos b) (bs_len b))))"

definition buf_consume :: "nat \<Rightarrow> 's buf_stream \<Rightarrow> 's buf_stream" where
  "buf_consume amt b = b\<lparr>bs_pos := min (bs_pos b + amt) (bs_len b)\<rparr>"

definition buf_read :: "('s, 'e) stream \<Rightarrow> nat \<Rightarrow> 's buf_stream \<Rightarrow> ('e, byte list, 's buf_stream) outcome" where
  "buf_read S n b =
     try_io (make_reader S b) (\<lambda>_ b.
       if bs_pos b = bs_len b \<and> n \<ge> BUF_SIZE then inside (with_inner b) (rd S n (bs_inner b))
       else try_io (fill_buf S b) (\<lambda>rem b. let xs = take n rem in Some (Inr xs, buf_consume (length xs) b)))"

definition buf_write :: "('s, 'e) stream \<Rightarrow> byte list \<Rightarrow> 's buf_stream \<Rightarrow> ('e, nat, 's buf_stream) outcome" where
  "buf_write S buf b =
     try_io (make_writter S b) (\<lambda>_ b.
       try_io (if bs_pos b + length buf > BUF_SIZE then flush_buf S b else Some (Inr (), b)) (\<lambda>_ b'.
         if bs_pos b + length buf > BUF_SIZE \<and> length buf \<ge> BUF_SIZE then inside (with_inner b') (wr S buf (bs_inner b'))
         else do {
           room \<leftarrow> slice (bs_buf b') (bs_pos b') (length (bs_buf b'));
           let xs = take (length room) buf;
           bs \<leftarrow> copy_into (bs_buf b') (bs_pos b') xs;
           Some (Inr (length xs), b'\<lparr>bs_buf := bs, bs_pos := bs_pos b' + length xs\<rparr>)
         }))"

definition buf_flush :: "('s, 'e) stream \<Rightarrow> 's buf_stream \<Rightarrow> ('e, unit, 's buf_stream) outcome" where
  "buf_flush S b = try_io (flush_buf S b) (\<lambda>_ b. inside (with_inner b) (fl S (bs_inner b)))"

definition buf_seek :: "('s, 'e) stream \<Rightarrow> seek_from \<Rightarrow> 's buf_stream \<Rightarrow> ('e, u64, 's buf_stream) outcome" where
  "buf_seek S pos b =
     try_io (flush_buf S b) (\<lambda>_ b.
       let new_pos = (case pos of SeekCurrent x \<Rightarrow> SeekCurrent (x - (of_nat (bs_len b) - of_nat (bs_pos b))) | _ \<Rightarrow> pos);
           b = b\<lparr>bs_pos := 0, bs_len := 0\<rparr>
       in inside (with_inner b) (sk S new_pos (bs_inner b)))"

definition buf_stream :: "('s, 'e) stream \<Rightarrow> ('s buf_stream, 'e) stream" where
  "buf_stream S = \<lparr>rd = buf_read S, wr = buf_write S, sk = buf_seek S, fl = buf_flush S,
     is_interrupted = is_interrupted S, unexpected_eof_error = unexpected_eof_error S, write_zero_error = write_zero_error S\<rparr>"

subsection \<open>Runs of operations\<close>

text \<open>A sequence of operations on a stream and on an array with a position. The array is undefined outside its bounds.\<close>

datatype disk_op = Op_Seek u64 | Op_Read nat | Op_Write "byte list"

fun stream_run :: "('s, 'e) stream \<Rightarrow> disk_op list \<Rightarrow> 's \<Rightarrow> ('e, byte list list, 's) outcome" where
  "stream_run S [] s = Some (Inr [], s)"
| "stream_run S (Op_Seek q # ops) s = try_io (sk S (SeekStart q) s) (\<lambda>_ s. stream_run S ops s)"
| "stream_run S (Op_Read n # ops) s =
     try_io (read_exact S n s) (\<lambda>bs s. try_io (stream_run S ops s) (\<lambda>r s. Some (Inr (bs # r), s)))"
| "stream_run S (Op_Write bs # ops) s = try_io (write_all S bs s) (\<lambda>_ s. stream_run S ops s)"

definition patch :: "nat \<Rightarrow> 'a list \<Rightarrow> 'a list \<Rightarrow> 'a list" where
  "patch p bs xs = take p xs @ bs @ drop (p + length bs) xs"

fun array_run :: "disk_op list \<Rightarrow> byte list \<Rightarrow> nat \<Rightarrow> (byte list list \<times> byte list) option" where
  "array_run [] xs p = Some ([], xs)"
| "array_run (Op_Seek q # ops) xs p = (if unat q \<le> length xs then array_run ops xs (unat q) else None)"
| "array_run (Op_Read n # ops) xs p =
     (if p + n \<le> length xs then map_option (\<lambda>(r, ys). (take n (drop p xs) # r, ys)) (array_run ops xs (p + n)) else None)"
| "array_run (Op_Write bs # ops) xs p =
     (if p + length bs \<le> length xs then array_run ops (patch p bs xs) (p + length bs) else None)"

subsection \<open>What the file system relies on\<close>

lemma length_patch [simp]: "p + length bs \<le> length xs \<Longrightarrow> length (patch p bs xs) = length xs"
  by (simp add: patch_def)

lemma nth_patch:
  "p + length bs \<le> length xs \<Longrightarrow> i < length xs \<Longrightarrow> patch p bs xs ! i = (if p \<le> i \<and> i < p + length bs then bs ! (i - p) else xs ! i)"
  by (auto simp: patch_def nth_append min_def)

lemma patch_empty [simp]: "patch p [] xs = xs"
  by (simp add: patch_def)

lemma take_drop_patch_same: "p + length bs \<le> length xs \<Longrightarrow> take (length bs) (drop p (patch p bs xs)) = bs"
  by (simp add: patch_def)

text \<open>\<open>ivr\<close> is an invariant of the state, \<open>img\<close> the bytes, \<open>cur s\<close> the position, if it is known. A read may be short. A write inside the bytes is
  complete; it must not touch the bytes \<open>hidden\<close>, which the stream changes by itself, and it moves the position as usual if \<open>seq\<close>.\<close>

locale storage =
  fixes S :: "('s, 'e) stream" and ivr :: "'s \<Rightarrow> bool" and img :: "'s \<Rightarrow> byte list" and cur :: "'s \<Rightarrow> nat option" and hidden :: "nat set" and seq :: bool
  assumes small: "ivr s \<Longrightarrow> length (img s) < 2 ^ 63"
    and in_range: "ivr s \<Longrightarrow> cur s = Some p \<Longrightarrow> p \<le> length (img s)"
    and seek_start: "ivr s \<Longrightarrow> unat q \<le> length (img s) \<Longrightarrow>
      \<exists>s'. sk S (SeekStart q) s = Some (Inr q, s') \<and> ivr s' \<and> img s' = img s \<and> cur s' = Some (unat q)"
    and seek_back: "ivr s \<Longrightarrow> cur s = Some p \<Longrightarrow> d \<le> p \<Longrightarrow>
      \<exists>s'. sk S (SeekCurrent (- of_nat d)) s = Some (Inr (of_nat (p - d)), s') \<and> ivr s' \<and> img s' = img s \<and> cur s' = Some (p - d)"
    and reads: "ivr s \<Longrightarrow> cur s = Some p \<Longrightarrow>
      \<exists>k s'. rd S n s = Some (Inr (take k (drop p (img s))), s') \<and> k \<le> n \<and> p + k \<le> length (img s) \<and> (k = 0 \<longrightarrow> n = 0 \<or> p = length (img s)) \<and>
        ivr s' \<and> img s' = img s \<and> cur s' = Some (p + k)"
    and writes: "ivr s \<Longrightarrow> cur s = Some p \<Longrightarrow> bs \<noteq> [] \<Longrightarrow> p + length bs \<le> length (img s) \<Longrightarrow> {p..<p + length bs} \<inter> hidden = {} \<Longrightarrow>
      \<exists>s'. wr S bs s = Some (Inr (length bs), s') \<and> ivr s' \<and> img s' = patch p bs (img s) \<and> (seq \<longrightarrow> cur s' = Some (p + length bs))"
begin

lemma read_exact_loop_ok:
  assumes "ivr s" "cur s = Some p" "p + n \<le> length (img s)"
  shows "\<exists>s'. read_exact_loop S n acc s = Some (Inr (acc @ take n (drop p (img s))), s') \<and> ivr s' \<and> img s' = img s \<and> cur s' = Some (p + n)"
  using assms
proof (induction n arbitrary: acc s p rule: less_induct)
  case (less n)
  show ?case
  proof (cases "n = 0")
    case True
    then show ?thesis using less.prems by (subst read_exact_loop.simps) simp
  next
    case False
    obtain k s' where r: "rd S n s = Some (Inr (take k (drop p (img s))), s')" "k \<le> n" "p + k \<le> length (img s)"
      "k = 0 \<longrightarrow> n = 0 \<or> p = length (img s)" "ivr s'" "img s' = img s" "cur s' = Some (p + k)"
      using reads [OF less.prems(1,2), of n] by blast
    have k: "k \<noteq> 0" using r(4) False less.prems(3) by auto
    have l: "length (take k (drop p (img s))) = k" using r(3) by simp
    obtain s2 where s2: "read_exact_loop S (n - k) (acc @ take k (drop p (img s))) s' = Some (Inr ((acc @ take k (drop p (img s))) @ take (n - k) (drop (p + k) (img s))), s2)"
      "ivr s2" "img s2 = img s" "cur s2 = Some (p + n)"
      using less.IH [of "n - k" s' "p + k" "acc @ take k (drop p (img s))"] k r less.prems(3) by auto
    have "take n (drop p (img s)) = take k (drop p (img s)) @ take (n - k) (drop (p + k) (img s))"
      using r(2) by (metis add.commute drop_drop le_add_diff_inverse take_add)
    moreover have "read_exact_loop S n acc s = read_exact_loop S (n - k) (acc @ take k (drop p (img s))) s'"
      using False k l r(1,2,3) by (subst read_exact_loop.simps) auto
    ultimately show ?thesis using s2 by simp
  qed
qed

lemma read_exact_ok:
  assumes "ivr s" "cur s = Some p" "p + n \<le> length (img s)"
  shows "\<exists>s'. read_exact S n s = Some (Inr (take n (drop p (img s))), s') \<and> ivr s' \<and> img s' = img s \<and> cur s' = Some (p + n)"
  using read_exact_loop_ok [OF assms, of "[]"] by (simp add: read_exact_def)

lemma write_all_ok:
  assumes "ivr s" "cur s = Some p" "p + length bs \<le> length (img s)" "{p..<p + length bs} \<inter> hidden = {}"
  shows "\<exists>s'. write_all S bs s = Some (Inr (), s') \<and> ivr s' \<and> img s' = patch p bs (img s) \<and> (seq \<longrightarrow> cur s' = Some (p + length bs))"
proof (cases "bs = []")
  case True
  then show ?thesis using assms by (subst write_all.simps) simp
next
  case False
  obtain s' where w: "wr S bs s = Some (Inr (length bs), s')" "ivr s'" "img s' = patch p bs (img s)" "seq \<longrightarrow> cur s' = Some (p + length bs)"
    using writes [OF assms(1,2) False assms(3,4)] by blast
  have "write_all S bs s = Some (Inr (), s')"
    using False w(1) by (subst write_all.simps) (simp add: write_all.simps)
  then show ?thesis using w by blast
qed

text \<open>The common pattern: seek to a byte, then read or write.\<close>

lemma seek_then_read:
  assumes "ivr s" "unat p + n \<le> length (img s)"
  shows "\<exists>s' s''. sk S (SeekStart p) s = Some (Inr p, s') \<and> read_exact S n s' = Some (Inr (take n (drop (unat p) (img s))), s'') \<and>
    ivr s'' \<and> img s'' = img s \<and> cur s'' = Some (unat p + n)"
proof -
  obtain s' where s': "sk S (SeekStart p) s = Some (Inr p, s')" "ivr s'" "img s' = img s" "cur s' = Some (unat p)" using seek_start [OF assms(1), of p] assms(2) by auto
  then show ?thesis using read_exact_ok [of s' "unat p" n] assms(2) by auto
qed

lemma seek_then_write:
  assumes "ivr s" "unat p + length bs \<le> length (img s)" "{unat p..<unat p + length bs} \<inter> hidden = {}"
  shows "\<exists>s' s''. sk S (SeekStart p) s = Some (Inr p, s') \<and> write_all S bs s' = Some (Inr (), s'') \<and>
    ivr s'' \<and> img s'' = patch (unat p) bs (img s)"
proof -
  obtain s' where s': "sk S (SeekStart p) s = Some (Inr p, s')" "ivr s'" "img s' = img s" "cur s' = Some (unat p)" using seek_start [OF assms(1), of p] assms(2) by auto
  then show ?thesis using write_all_ok [of s' "unat p" bs] assms(2,3) by auto
qed

lemma stream_run_ok:
  assumes "hidden = {}" "seq" "ivr s" "cur s = Some p" "array_run ops (img s) p = Some (outs, ys)"
  shows "\<exists>s'. stream_run S ops s = Some (Inr outs, s') \<and> ivr s' \<and> img s' = ys"
  using assms(3-5)
proof (induction ops "img s" p arbitrary: s outs rule: array_run.induct)
  case (2 q ops p)
  then show ?case using seek_start [OF 2(2), of q] by (fastforce split: if_splits)
next
  case (3 n ops p)
  then obtain r where r: "p + n \<le> length (img s)" "outs = take n (drop p (img s)) # r" "array_run ops (img s) (p + n) = Some (r, ys)"
    by (auto split: if_splits)
  obtain t where t: "read_exact S n s = Some (Inr (take n (drop p (img s))), t)" "ivr t" "img t = img s" "cur t = Some (p + n)"
    using read_exact_ok [OF 3(2,3) r(1)] by blast
  then show ?case using 3(1) [OF r(1) t(3) [symmetric] t(2,4)] r(2,3) by auto
next
  case (4 bs ops p)
  then have l: "p + length bs \<le> length (img s)" by (simp split: if_splits)
  obtain t where t: "write_all S bs s = Some (Inr (), t)" "ivr t" "img t = patch p bs (img s)" "cur t = Some (p + length bs)"
    using write_all_ok [OF 4(2,3) l] assms(1,2) by auto
  then show ?case using 4(1) [OF l t(3) [symmetric] t(2,4)] 4(4) l by auto
qed simp

end

text \<open>The disk image in memory, from \<open>a\<close> to \<open>z\<close>; the memory around it is \<open>rest\<close>.\<close>

definition dev_inv :: "usize \<Rightarrow> usize \<Rightarrow> (usize \<Rightarrow> byte) \<Rightarrow> mem_device \<Rightarrow> bool" where
  "dev_inv a z rest d \<longleftrightarrow> dev_start d = a \<and> dev_end d = z \<and> a \<le> dev_pos d \<and> dev_pos d \<le> z \<and> unat (z - a) < 2 ^ 63 \<and>
     (\<forall>x. \<not> (a \<le> x \<and> x < z) \<longrightarrow> dev_mem d x = rest x)"

definition dev_img :: "mem_device \<Rightarrow> byte list" where
  "dev_img d = mem_read (dev_mem d) (dev_start d) (unat (dev_end d - dev_start d))"

definition dev_at :: "mem_device \<Rightarrow> nat option" where
  "dev_at d = Some (unat (dev_pos d - dev_start d))"

lemma dev_invD:
  assumes "dev_inv a z rest d"
  shows "unat (dev_end d - dev_start d) = unat (dev_end d) - unat (dev_start d)" "unat (dev_pos d - dev_start d) = unat (dev_pos d) - unat (dev_start d)"
    "unat (dev_end d - dev_pos d) = unat (dev_end d) - unat (dev_pos d)" "unat (dev_start d) \<le> unat (dev_pos d)" "unat (dev_pos d) \<le> unat (dev_end d)"
  using assms by (auto simp: dev_inv_def unat_sub word_le_nat_alt)

lemma mem_read_part: "p + k \<le> n \<Longrightarrow> mem_read m (a + of_nat p) k = take k (drop p (mem_read m a n))"
  by (rule nth_equalityI) (auto simp: mem_read_def add.assoc)

lemma mem_read_write:
  assumes "p + length bs \<le> n" "n < 2 ^ 63"
  shows "mem_read (mem_write m (a + of_nat p) bs) a n = patch p bs (mem_read m a n)"
proof (rule nth_equalityI)
  fix i assume "i < length (mem_read (mem_write m (a + of_nat p) bs) a n)"
  then have i: "i < n" by (simp add: mem_read_def)
  have e: "a + of_nat i - (a + of_nat p) = (of_nat i - of_nat p :: usize)" by simp
  have u: "unat (of_nat i :: usize) = i" "unat (of_nat p :: usize) = p" using i assms by (simp_all add: unat_of_nat)
  have "unat (of_nat i - of_nat p :: usize) = i - p" if "p \<le> i" using that u by (simp add: unat_sub_if')
  moreover have "\<not> unat (of_nat i - of_nat p :: usize) < length bs" if "i < p" using that u assms by (simp add: unat_sub_if')
  ultimately show "mem_read (mem_write m (a + of_nat p) bs) a n ! i = patch p bs (mem_read m a n) ! i"
    using i assms by (cases "p \<le> i") (auto simp: mem_read_def mem_write_def e nth_patch)
qed (use assms in \<open>simp add: mem_read_def\<close>)



lemma dev_img_length [simp]: "length (dev_img d) = unat (dev_end d - dev_start d)"
  by (simp add: dev_img_def mem_read_def)

lemma dev_img_cong [simp]: "dev_img (d\<lparr>dev_pos := x\<rparr>) = dev_img d"
  by (simp add: dev_img_def)

lemma dev_atD: "dev_at d = Some p \<Longrightarrow> dev_pos d = dev_start d + of_nat p"
  by (auto simp: dev_at_def)

lemma dev_move:
  assumes "dev_inv a z rest d" "p \<le> unat (dev_end d - dev_start d)"
  shows "dev_inv a z rest (d\<lparr>dev_pos := dev_start d + of_nat p\<rparr>)" "dev_at (d\<lparr>dev_pos := dev_start d + of_nat p\<rparr>) = Some p"
    "\<not> dev_start d + of_nat p < dev_start d" "\<not> dev_end d < dev_start d + of_nat p" "unat (dev_end d - (dev_start d + of_nat p)) = unat (dev_end d - dev_start d) - p"
proof -
  note D = dev_invD [OF assms(1)]
  have p: "unat (of_nat p :: usize) = p" using assms by (auto simp: unat_of_nat dev_inv_def)
  have "unat (dev_start d) + p < 18446744073709551616" using assms(2) D unat64_less [of "dev_end d"] by linarith
  then have u: "unat (dev_start d + of_nat p) = unat (dev_start d) + p" using p by (subst unat_add_small) simp_all
  then have le: "dev_start d + of_nat p \<le> dev_end d" using assms(2) D by (simp add: word_le_nat_alt)
  show "dev_inv a z rest (d\<lparr>dev_pos := dev_start d + of_nat p\<rparr>)" using assms(1) le u by (simp add: dev_inv_def word_le_nat_alt)
  show "dev_at (d\<lparr>dev_pos := dev_start d + of_nat p\<rparr>) = Some p" using p by (simp add: dev_at_def)
  show "\<not> dev_start d + of_nat p < dev_start d" "\<not> dev_end d < dev_start d + of_nat p" using u le by (simp_all add: word_less_nat_alt word_le_nat_alt)
  show "unat (dev_end d - (dev_start d + of_nat p)) = unat (dev_end d - dev_start d) - p" using u le D(1) by (simp add: unat_sub)
qed

lemma dev_seek_ok:
  assumes "dev_inv a z rest d" "p \<le> unat (dev_end d - dev_start d)"
    "(case pos of SeekCurrent delta \<Rightarrow> dev_pos d + delta | SeekStart delta \<Rightarrow> dev_start d + delta | SeekEnd delta \<Rightarrow> dev_end d + delta) = dev_start d + of_nat p"
  shows "\<exists>d'. sk mmd pos d = Some (Inr (of_nat p), d') \<and> dev_inv a z rest d' \<and> dev_img d' = dev_img d \<and> dev_at d' = Some p"
  using dev_move [OF assms(1,2)] assms(3) by (simp add: mmd_def mmd_seek_def)

interpretation dev: storage mmd "dev_inv a z rest" dev_img dev_at "{}" True for a z rest
proof
  show "length (dev_img d) < 2 ^ 63" if "dev_inv a z rest d" for d using that by (simp add: dev_inv_def)
  show le: "p \<le> length (dev_img d)" if "dev_inv a z rest d" "dev_at d = Some p" for d p
    using that dev_invD [OF that(1)] by (auto simp: dev_at_def)
  show "\<exists>d'. sk mmd (SeekStart q) d = Some (Inr q, d') \<and> dev_inv a z rest d' \<and> dev_img d' = dev_img d \<and> dev_at d' = Some (unat q)"
    if "dev_inv a z rest d" "unat q \<le> length (dev_img d)" for d q
    using dev_seek_ok [of a z rest d "unat q" "SeekStart q"] that by simp
  show "\<exists>d'. sk mmd (SeekCurrent (- of_nat k)) d = Some (Inr (of_nat (p - k)), d') \<and> dev_inv a z rest d' \<and> dev_img d' = dev_img d \<and> dev_at d' = Some (p - k)"
    if "dev_inv a z rest d" "dev_at d = Some p" "k \<le> p" for d p k
    using dev_seek_ok [of a z rest d "p - k" "SeekCurrent (- of_nat k)"] that le [OF that(1,2)] dev_atD [OF that(2)] by (simp add: of_nat_diff)
  show "\<exists>k d'. rd mmd n d = Some (Inr (take k (drop p (dev_img d))), d') \<and> k \<le> n \<and> p + k \<le> length (dev_img d) \<and>
      (k = 0 \<longrightarrow> n = 0 \<or> p = length (dev_img d)) \<and> dev_inv a z rest d' \<and> dev_img d' = dev_img d \<and> dev_at d' = Some (p + k)"
    if "dev_inv a z rest d" "dev_at d = Some p" for d p n
  proof -
    let ?n = "unat (dev_end d - dev_start d)"
    let ?k = "min (?n - p) n"
    have p: "p \<le> ?n" using le [OF that] by simp
    have e: "unat (dev_end d - dev_pos d) = ?n - p" using dev_move(5) [OF that(1) p] dev_atD [OF that(2)] by simp
    have "mem_read (dev_mem d) (dev_pos d) ?k = take ?k (drop p (dev_img d))"
      using mem_read_part [of p ?k ?n] p dev_atD [OF that(2)] by (simp add: dev_img_def)
    then have "rd mmd n d = Some (Inr (take ?k (drop p (dev_img d))), d\<lparr>dev_pos := dev_start d + of_nat (p + ?k)\<rparr>)"
      using e dev_atD [OF that(2)] by (simp add: mmd_def mmd_read_def add.assoc Let_def)
    moreover have "p + ?k \<le> ?n" using p by simp
    ultimately show ?thesis using dev_move [OF that(1), of "p + ?k"] p by (intro exI [of _ ?k] exI [of _ "d\<lparr>dev_pos := dev_start d + of_nat (p + ?k)\<rparr>"]) auto
  qed
  show "\<exists>d'. wr mmd bs d = Some (Inr (length bs), d') \<and> dev_inv a z rest d' \<and> dev_img d' = patch p bs (dev_img d) \<and> (True \<longrightarrow> dev_at d' = Some (p + length bs))"
    if "dev_inv a z rest d" "dev_at d = Some p" "bs \<noteq> []" "p + length bs \<le> length (dev_img d)" "{p..<p + length bs} \<inter> {} = {}" for d p bs
  proof -
    let ?n = "unat (dev_end d - dev_start d)"
    let ?d = "d\<lparr>dev_mem := mem_write (dev_mem d) (dev_pos d) bs\<rparr>"
    have p: "p \<le> ?n" using le [OF that(1,2)] by simp
    have e: "unat (dev_end d - dev_pos d) = ?n - p" using dev_move(5) [OF that(1) p] dev_atD [OF that(2)] by simp
    have "wr mmd bs d = Some (Inr (length bs), ?d\<lparr>dev_pos := dev_start d + of_nat (p + length bs)\<rparr>)"
      using e that(4) dev_atD [OF that(2)] by (simp add: mmd_def mmd_write_def add.assoc Let_def min_absorb2)
    moreover have "p + length bs \<le> ?n" "?n < 2 ^ 63" using that(1,4) by (simp_all add: dev_inv_def)
    from mem_read_write [OF this] have "dev_img ?d = patch p bs (dev_img d)" using dev_atD [OF that(2)] by (simp add: dev_img_def)
    moreover have "dev_inv a z rest ?d"
    proof -
      have az: "dev_start d = a" "dev_end d = z" using that(1) by (simp_all add: dev_inv_def)
      have "dev_mem ?d x = dev_mem d x" if "\<not> (a \<le> x \<and> x < z)" for x
      proof -
        have "\<not> unat (x - dev_pos d) < length bs"
        proof
          assume l: "unat (x - dev_pos d) < length bs"
          have b: "unat (dev_pos d) + length bs \<le> unat (dev_end d)" using e \<open>p + length bs \<le> ?n\<close> dev_invD [OF \<open>dev_inv a z rest d\<close>] p by linarith
          then have "unat (dev_pos d) + unat (x - dev_pos d) < 18446744073709551616" using l unat64_less [of "dev_end d"] by linarith
          then have "unat (dev_pos d + (x - dev_pos d)) = unat (dev_pos d) + unat (x - dev_pos d)" by (intro unat_add_small) simp
          then show False using that l b az dev_invD(4) [OF \<open>dev_inv a z rest d\<close>] by (simp add: word_le_nat_alt word_less_nat_alt)
        qed
        then show ?thesis by (simp add: mem_write_def)
      qed
      then show ?thesis using that(1) by (simp add: dev_inv_def)
    qed
    ultimately show ?thesis using dev_move [of a z rest ?d "p + length bs"] that(4) by simp
  qed
qed

text \<open>The buffer. In read mode it holds the bytes before the position of the inner stream, in write mode those that are to be written there.\<close>

definition buf_inv :: "('s \<Rightarrow> bool) \<Rightarrow> ('s \<Rightarrow> byte list) \<Rightarrow> ('s \<Rightarrow> nat option) \<Rightarrow> 's buf_stream \<Rightarrow> bool" where
  "buf_inv ivr img cur b \<longleftrightarrow> ivr (bs_inner b) \<and> length (bs_buf b) = BUF_SIZE \<and> bs_pos b \<le> BUF_SIZE \<and>
     (\<exists>p. cur (bs_inner b) = Some p \<and>
        (if bs_write b then bs_len b = 0 \<and> p + bs_pos b \<le> length (img (bs_inner b))
         else bs_pos b \<le> bs_len b \<and> bs_len b - bs_pos b \<le> p \<and> bs_len b \<le> BUF_SIZE \<and>
           take (bs_len b - bs_pos b) (drop (bs_pos b) (bs_buf b)) = take (bs_len b - bs_pos b) (drop (p - (bs_len b - bs_pos b)) (img (bs_inner b)))))"

definition buf_img :: "('s \<Rightarrow> byte list) \<Rightarrow> ('s \<Rightarrow> nat option) \<Rightarrow> 's buf_stream \<Rightarrow> byte list" where
  "buf_img img cur b =
     (if bs_write b then patch (the (cur (bs_inner b))) (take (bs_pos b) (bs_buf b)) (img (bs_inner b)) else img (bs_inner b))"

definition buf_at :: "('s \<Rightarrow> nat option) \<Rightarrow> 's buf_stream \<Rightarrow> nat option" where
  "buf_at cur b = map_option (\<lambda>p. if bs_write b then p + bs_pos b else p - (bs_len b - bs_pos b)) (cur (bs_inner b))"

locale buffered = storage S ivr img cur "{}" True
  for S :: "('s, 'e) stream" and ivr :: "'s \<Rightarrow> bool" and img :: "'s \<Rightarrow> byte list" and cur :: "'s \<Rightarrow> nat option"
begin

abbreviation ok :: "'s buf_stream \<Rightarrow> bool" where "ok \<equiv> buf_inv ivr img cur"
abbreviation contents :: "'s buf_stream \<Rightarrow> byte list" where "contents \<equiv> buf_img img cur"
abbreviation position :: "'s buf_stream \<Rightarrow> nat option" where "position \<equiv> buf_at cur"

lemma writing:
  assumes "ok b" "bs_write b"
  obtains p where "ivr (bs_inner b)" "length (bs_buf b) = BUF_SIZE" "bs_pos b \<le> BUF_SIZE" "cur (bs_inner b) = Some p" "bs_len b = 0"
    "p + bs_pos b \<le> length (img (bs_inner b))" "contents b = patch p (take (bs_pos b) (bs_buf b)) (img (bs_inner b))" "position b = Some (p + bs_pos b)"
  using assms by (auto simp: buf_inv_def buf_img_def buf_at_def)

lemma reading:
  assumes "ok b" "\<not> bs_write b"
  obtains p where "ivr (bs_inner b)" "length (bs_buf b) = BUF_SIZE" "bs_len b \<le> BUF_SIZE" "cur (bs_inner b) = Some p" "bs_pos b \<le> bs_len b" "bs_len b - bs_pos b \<le> p"
    "take (bs_len b - bs_pos b) (drop (bs_pos b) (bs_buf b)) = take (bs_len b - bs_pos b) (drop (p - (bs_len b - bs_pos b)) (img (bs_inner b)))" "contents b = img (bs_inner b)"
    "position b = Some (p - (bs_len b - bs_pos b))"
  using assms by (auto simp: buf_inv_def buf_img_def buf_at_def)

lemma flush_ok:
  assumes "ok b"
  shows "\<exists>b'. flush_buf S b = Some (Inr (), b') \<and> ok b' \<and> contents b' = contents b \<and> position b' = position b \<and> bs_write b' = bs_write b \<and>
    img (bs_inner b') = contents b \<and> (bs_write b \<longrightarrow> bs_pos b' = 0 \<and> bs_len b' = 0)"
proof (cases "bs_write b")
  case True
  obtain p where p: "ivr (bs_inner b)" "length (bs_buf b) = BUF_SIZE" "bs_pos b \<le> BUF_SIZE" "cur (bs_inner b) = Some p" "bs_len b = 0"
    "p + bs_pos b \<le> length (img (bs_inner b))" "contents b = patch p (take (bs_pos b) (bs_buf b)) (img (bs_inner b))" "position b = Some (p + bs_pos b)"
    by (rule writing [OF assms True])
  let ?xs = "take (bs_pos b) (bs_buf b)"
  have l: "length ?xs = bs_pos b" using p(2,3) by simp
  obtain i where i: "write_all S ?xs (bs_inner b) = Some (Inr (), i)" "ivr i" "img i = patch p ?xs (img (bs_inner b))" "cur i = Some (p + bs_pos b)"
    using write_all_ok [OF p(1,4), of ?xs] p(6) l by auto
  have "flush_buf S b = Some (Inr (), b\<lparr>bs_inner := i, bs_pos := 0\<rparr>)" using True p(2,3) i(1) by (simp add: flush_buf_def slice_def)
  moreover have "ok (b\<lparr>bs_inner := i, bs_pos := 0\<rparr>)" using True i p l by (simp add: buf_inv_def)
  moreover have "contents (b\<lparr>bs_inner := i, bs_pos := 0\<rparr>) = contents b" using True i(3) p(7) by (simp add: buf_img_def)
  moreover have "position (b\<lparr>bs_inner := i, bs_pos := 0\<rparr>) = position b" using True i(4) p(8) by (simp add: buf_at_def)
  ultimately show ?thesis using True p(5,7) i(3) by auto
next
  case False
  then show ?thesis using assms by (simp add: flush_buf_def buf_img_def)
qed

lemma make_reader_ok:
  assumes "ok b"
  shows "\<exists>b'. make_reader S b = Some (Inr (), b') \<and> ok b' \<and> contents b' = contents b \<and> position b' = position b \<and> \<not> bs_write b'"
proof (cases "bs_write b")
  case True
  obtain b' where b: "flush_buf S b = Some (Inr (), b')" "ok b'" "contents b' = contents b" "position b' = position b" "bs_write b'"
    "img (bs_inner b') = contents b" "bs_pos b' = 0" "bs_len b' = 0" using flush_ok [OF assms] True by auto
  then show ?thesis using True by (auto simp: make_reader_def buf_inv_def buf_img_def buf_at_def)
qed (simp add: make_reader_def assms)

lemma make_writter_ok:
  assumes "ok b"
  shows "\<exists>b'. make_writter S b = Some (Inr (), b') \<and> ok b' \<and> contents b' = contents b \<and> position b' = position b \<and> bs_write b'"
proof (cases "bs_write b")
  case False
  obtain p where p: "ivr (bs_inner b)" "length (bs_buf b) = BUF_SIZE" "cur (bs_inner b) = Some p" "bs_pos b \<le> bs_len b" "bs_len b - bs_pos b \<le> p"
    "contents b = img (bs_inner b)" "position b = Some (p - (bs_len b - bs_pos b))" by (rule reading [OF assms False])
  obtain i where i: "sk S (SeekCurrent (- of_nat (bs_len b - bs_pos b))) (bs_inner b) = Some (Inr (of_nat (p - (bs_len b - bs_pos b))), i)" "ivr i"
    "img i = img (bs_inner b)" "cur i = Some (p - (bs_len b - bs_pos b))"
    using seek_back [OF p(1,3,5)] by blast
  have "p - (bs_len b - bs_pos b) \<le> length (img i)" using in_range [OF i(2,4)] .
  then show ?thesis using False p i by (simp add: make_writter_def of_nat_diff buf_inv_def buf_img_def buf_at_def)
qed (simp add: make_writter_def assms)

lemma fill_ok:
  assumes "ok b" "\<not> bs_write b" "position b = Some p"
  shows "\<exists>b'. fill_buf S b = Some (Inr (take (bs_len b' - bs_pos b') (drop p (contents b))), b') \<and> ok b' \<and> \<not> bs_write b' \<and> contents b' = contents b \<and>
    position b' = Some p \<and> bs_pos b' \<le> bs_len b' \<and> p + (bs_len b' - bs_pos b') \<le> length (contents b) \<and>
    (bs_pos b' = bs_len b' \<longrightarrow> p = length (contents b))"
proof -
  obtain q where q: "ivr (bs_inner b)" "length (bs_buf b) = BUF_SIZE" "bs_len b \<le> BUF_SIZE" "cur (bs_inner b) = Some q" "bs_pos b \<le> bs_len b" "bs_len b - bs_pos b \<le> q"
    "take (bs_len b - bs_pos b) (drop (bs_pos b) (bs_buf b)) = take (bs_len b - bs_pos b) (drop (q - (bs_len b - bs_pos b)) (img (bs_inner b)))" "contents b = img (bs_inner b)"
    "position b = Some (q - (bs_len b - bs_pos b))" by (rule reading [OF assms(1,2)])
  have r: "make_reader S b = Some (Inr (), b)" using assms(2) by (simp add: make_reader_def)
  show ?thesis
  proof (cases "bs_len b \<le> bs_pos b")
    case True
    then have p: "q = p" "bs_pos b = bs_len b" using q(5,9) assms(3) by auto
    obtain k i where i: "rd S BUF_SIZE (bs_inner b) = Some (Inr (take k (drop p (img (bs_inner b)))), i)" "k \<le> BUF_SIZE" "p + k \<le> length (img (bs_inner b))"
      "k = 0 \<longrightarrow> BUF_SIZE = 0 \<or> p = length (img (bs_inner b))" "ivr i" "img i = img (bs_inner b)" "cur i = Some (p + k)"
      using reads [OF q(1), of p BUF_SIZE] q(4) p(1) by blast
    let ?xs = "take k (drop p (img (bs_inner b)))"
    let ?b = "b\<lparr>bs_inner := i, bs_buf := ?xs @ drop k (bs_buf b), bs_len := k, bs_pos := 0\<rparr>"
    have l: "length ?xs = k" using i(3) by simp
    have "fill_buf S b = Some (Inr ?xs, ?b)" using True r q(2) i(1,2) l by (simp add: fill_buf_def copy_into_def slice_def)
    moreover have "ok ?b" using i q(2) l assms(2) by (simp add: buf_inv_def)
    ultimately show ?thesis using i l assms(2) q(8) by (intro exI [of _ ?b]) (auto simp: buf_img_def buf_at_def BUF_SIZE_def)
  next
    case False
    have p: "p = q - (bs_len b - bs_pos b)" using q(9) assms(3) by simp
    have "fill_buf S b = Some (Inr (take (bs_len b - bs_pos b) (drop p (contents b))), b)"
      using False r q(2,3,5,7,8) p by (simp add: fill_buf_def slice_def)
    moreover have "q \<le> length (img (bs_inner b))" using in_range [OF q(1,4)] .
    ultimately show ?thesis using False assms q(5,6,8) p by (intro exI [of _ b]) auto
  qed
qed

lemma consume_ok:
  assumes "ok b" "\<not> bs_write b" "position b = Some p" "k \<le> bs_len b - bs_pos b"
  shows "ok (buf_consume k b) \<and> contents (buf_consume k b) = contents b \<and> position (buf_consume k b) = Some (p + k)"
proof -
  obtain q where q: "length (bs_buf b) = BUF_SIZE" "bs_len b \<le> BUF_SIZE" "cur (bs_inner b) = Some q" "bs_pos b \<le> bs_len b" "bs_len b - bs_pos b \<le> q"
    "take (bs_len b - bs_pos b) (drop (bs_pos b) (bs_buf b)) = take (bs_len b - bs_pos b) (drop (q - (bs_len b - bs_pos b)) (img (bs_inner b)))"
    "position b = Some (q - (bs_len b - bs_pos b))" by (rule reading [OF assms(1,2)])
  have "take (bs_len b - bs_pos b - k) (drop k (drop (bs_pos b) (bs_buf b))) = take (bs_len b - bs_pos b - k) (drop k (drop (q - (bs_len b - bs_pos b)) (img (bs_inner b))))"
    using arg_cong [OF q(6), of "drop k"] by (simp add: drop_take)
  moreover have "q - (bs_len b - bs_pos b) + k = q - (bs_len b - (bs_pos b + k))" using q(4,5) assms(4) by simp
  moreover have "bs_pos b + k \<le> bs_len b" using assms(4) q(4) by simp
  ultimately show ?thesis using assms q(1-5,7) by (auto simp: buf_consume_def buf_inv_def buf_img_def buf_at_def min_def add.commute add.left_commute)
qed

lemma buf_read_ok:
  assumes "ok b" "position b = Some p"
  shows "\<exists>k b'. buf_read S n b = Some (Inr (take k (drop p (contents b))), b') \<and> k \<le> n \<and> p + k \<le> length (contents b) \<and>
    (k = 0 \<longrightarrow> n = 0 \<or> p = length (contents b)) \<and> ok b' \<and> contents b' = contents b \<and> position b' = Some (p + k)"
proof -
  obtain c where c: "make_reader S b = Some (Inr (), c)" "ok c" "contents c = contents b" "position c = Some p" "\<not> bs_write c"
    using make_reader_ok [OF assms(1)] assms(2) by auto
  obtain q where q: "ivr (bs_inner c)" "cur (bs_inner c) = Some q" "contents c = img (bs_inner c)" "position c = Some (q - (bs_len c - bs_pos c))" "bs_pos c \<le> bs_len c"
    by (rule reading [OF c(2,5)])
  show ?thesis
  proof (cases "bs_pos c = bs_len c \<and> n \<ge> BUF_SIZE")
    case True
    then have "q = p" using q(4) c(4) by simp
    obtain k i where i: "rd S n (bs_inner c) = Some (Inr (take k (drop p (img (bs_inner c)))), i)" "k \<le> n" "p + k \<le> length (img (bs_inner c))"
      "k = 0 \<longrightarrow> n = 0 \<or> p = length (img (bs_inner c))" "ivr i" "img i = img (bs_inner c)" "cur i = Some (p + k)"
      using reads [OF q(1), of p n] q(2) \<open>q = p\<close> by blast
    let ?b = "c\<lparr>bs_inner := i\<rparr>"
    have "buf_read S n b = Some (Inr (take k (drop p (contents b))), ?b)" using True c(1,3) q(3) i(1) by (simp add: buf_read_def)
    moreover have "ok ?b" using c(2,5) i(5,7) True by (simp add: buf_inv_def)
    ultimately show ?thesis using i True c(3,5) q(3) by (intro exI [of _ k] exI [of _ ?b]) (simp add: buf_img_def buf_at_def)
  next
    case False
    obtain d where d: "fill_buf S c = Some (Inr (take (bs_len d - bs_pos d) (drop p (contents c))), d)" "ok d" "\<not> bs_write d" "contents d = contents c"
      "position d = Some p" "bs_pos d \<le> bs_len d" "p + (bs_len d - bs_pos d) \<le> length (contents c)" "bs_pos d = bs_len d \<longrightarrow> p = length (contents c)"
      using fill_ok [OF c(2,5,4)] by blast
    let ?k = "min n (bs_len d - bs_pos d)"
    have "buf_read S n b = Some (Inr (take ?k (drop p (contents b))), buf_consume ?k d)"
      using False c(1,3) d(1,7) by (auto simp: buf_read_def Let_def min_absorb1 min.assoc min.commute)
    then show ?thesis using consume_ok [OF d(2,3,5), of ?k] d(4,6,7,8) c(3) by (intro exI [of _ ?k] exI [of _ "buf_consume ?k d"]) auto
  qed
qed

lemma patch_patch:
  assumes "p + length xs + length ys \<le> length zs"
  shows "patch (p + length xs) ys (patch p xs zs) = patch p (xs @ ys) zs"
  using assms by (intro nth_equalityI) (auto simp: nth_patch nth_append)

lemma buf_write_ok:
  assumes "ok b" "position b = Some p" "bs \<noteq> []" "p + length bs \<le> length (contents b)"
  shows "\<exists>b'. buf_write S bs b = Some (Inr (length bs), b') \<and> ok b' \<and> contents b' = patch p bs (contents b) \<and> position b' = Some (p + length bs)"
proof -
  obtain c where c: "make_writter S b = Some (Inr (), c)" "ok c" "contents c = contents b" "position c = Some p" "bs_write c"
    using make_writter_ok [OF assms(1)] assms(2) by auto
  obtain d where d: "(if bs_pos c + length bs > BUF_SIZE then flush_buf S c else Some (Inr (), c)) = Some (Inr (), d)" "ok d" "contents d = contents b"
    "position d = Some p" "bs_write d" "BUF_SIZE < bs_pos c + length bs \<Longrightarrow> bs_pos d = 0" "\<not> BUF_SIZE < bs_pos c + length bs \<Longrightarrow> d = c"
    using flush_ok [OF c(2)] c by (cases "bs_pos c + length bs > BUF_SIZE") auto
  obtain q where q: "ivr (bs_inner d)" "length (bs_buf d) = BUF_SIZE" "bs_pos d \<le> BUF_SIZE" "cur (bs_inner d) = Some q" "bs_len d = 0"
    "q + bs_pos d \<le> length (img (bs_inner d))" "contents d = patch q (take (bs_pos d) (bs_buf d)) (img (bs_inner d))" "position d = Some (q + bs_pos d)"
    by (rule writing [OF d(2,5)])
  have p: "p = q + bs_pos d" using q(8) d(4) by simp
  have l: "length (contents b) = length (img (bs_inner d))" using q(2,3,6,7) d(3) by simp
  show ?thesis
  proof (cases "BUF_SIZE < bs_pos c + length bs \<and> BUF_SIZE \<le> length bs")
    case True
    then have 0: "bs_pos d = 0" "p = q" "contents d = img (bs_inner d)" using d(6) p q(7) by simp_all
    obtain i where i: "wr S bs (bs_inner d) = Some (Inr (length bs), i)" "ivr i" "img i = patch p bs (img (bs_inner d))" "cur i = Some (p + length bs)"
      using writes [OF q(1,4) assms(3)] assms(4) l 0(2) by auto
    have "buf_write S bs b = Some (Inr (length bs), d\<lparr>bs_inner := i\<rparr>)" using True c(1) d(1) i(1) by (simp add: buf_write_def)
    moreover have "p + length bs \<le> length (img i)" using in_range [OF i(2,4)] .
    ultimately show ?thesis using i 0 q(2,5) d(3,5) by (simp add: buf_inv_def buf_img_def buf_at_def)
  next
    case False
    then have fits: "bs_pos d + length bs \<le> BUF_SIZE" using d(6,7) by (cases "BUF_SIZE < bs_pos c + length bs") auto
    let ?buf = "take (bs_pos d) (bs_buf d) @ bs @ drop (bs_pos d + length bs) (bs_buf d)"
    let ?d = "d\<lparr>bs_buf := ?buf, bs_pos := bs_pos d + length bs\<rparr>"
    have "buf_write S bs b = Some (Inr (length bs), ?d)"
      using False c(1) d(1) q(2,3) fits by (auto simp: buf_write_def slice_def copy_into_def)
    moreover have "ok ?d" using d(5) q fits assms(4) p l by (simp add: buf_inv_def)
    moreover have "contents ?d = patch p bs (contents b)"
      using patch_patch [of q "take (bs_pos d) (bs_buf d)" bs "img (bs_inner d)"] d(3,5) q(2-4,7) p assms(4) l fits by (simp add: buf_img_def)
    moreover have "position ?d = Some (p + length bs)" using d(5) q(4) p by (simp add: buf_at_def)
    ultimately show ?thesis by blast
  qed
qed

lemma flushed:
  assumes "ok b" "position b = Some p"
  obtains c i q where "flush_buf S b = Some (Inr (), c)" "i = bs_inner c" "ivr i" "img i = contents b" "cur i = Some q" "bs_len c - bs_pos c \<le> q"
    "p = q - (bs_len c - bs_pos c)" "bs_pos c \<le> bs_len c" "\<And>j r. ivr j \<Longrightarrow> img j = contents b \<Longrightarrow> cur j = Some r \<Longrightarrow>
      ok (c\<lparr>bs_pos := 0, bs_len := 0, bs_inner := j\<rparr>) \<and> contents (c\<lparr>bs_pos := 0, bs_len := 0, bs_inner := j\<rparr>) = contents b \<and>
      position (c\<lparr>bs_pos := 0, bs_len := 0, bs_inner := j\<rparr>) = Some r"
proof -
  obtain c where c: "flush_buf S b = Some (Inr (), c)" "ok c" "position c = Some p" "img (bs_inner c) = contents b" "bs_write c \<longrightarrow> bs_pos c = 0 \<and> bs_len c = 0"
    using flush_ok [OF assms(1)] assms(2) by auto
  obtain q where q: "ivr (bs_inner c)" "cur (bs_inner c) = Some q" "length (bs_buf c) = BUF_SIZE" "bs_pos c \<le> bs_len c" "bs_len c - bs_pos c \<le> q" "p = q - (bs_len c - bs_pos c)"
    using c(2,3,5) by (auto simp: buf_inv_def buf_at_def split: if_splits)
  have "ok (c\<lparr>bs_pos := 0, bs_len := 0, bs_inner := j\<rparr>) \<and> contents (c\<lparr>bs_pos := 0, bs_len := 0, bs_inner := j\<rparr>) = contents b \<and>
      position (c\<lparr>bs_pos := 0, bs_len := 0, bs_inner := j\<rparr>) = Some r" if "ivr j" "img j = contents b" "cur j = Some r" for j r
    using that q(3) in_range [OF that(1,3)] by (simp add: buf_inv_def buf_img_def buf_at_def)
  then show thesis using that [OF c(1) refl q(1) c(4) q(2,5,6,4)] by blast
qed

lemma buf_seek_start_ok:
  assumes "ok b" "unat q \<le> length (contents b)"
  shows "\<exists>b'. buf_seek S (SeekStart q) b = Some (Inr q, b') \<and> ok b' \<and> contents b' = contents b \<and> position b' = Some (unat q)"
proof -
  obtain p where p: "position b = Some p" using assms(1) by (auto simp: buf_inv_def buf_at_def)
  show ?thesis
  proof (rule flushed [OF assms(1) p])
    fix c i r
    assume c: "flush_buf S b = Some (Inr (), c)" "i = bs_inner c" "ivr i" "img i = contents b"
      and keep: "\<And>j r. ivr j \<Longrightarrow> img j = contents b \<Longrightarrow> cur j = Some r \<Longrightarrow>
      ok (c\<lparr>bs_pos := 0, bs_len := 0, bs_inner := j\<rparr>) \<and> contents (c\<lparr>bs_pos := 0, bs_len := 0, bs_inner := j\<rparr>) = contents b \<and>
      position (c\<lparr>bs_pos := 0, bs_len := 0, bs_inner := j\<rparr>) = Some r"
    obtain j where j: "sk S (SeekStart q) i = Some (Inr q, j)" "ivr j" "img j = contents b" "cur j = Some (unat q)"
      using seek_start [OF c(3), of q] assms(2) c(4) by auto
    then show ?thesis using keep [OF j(2-4)] c(1,2) by (simp add: buf_seek_def)
  qed
qed

lemma buf_seek_back_ok:
  assumes "ok b" "position b = Some p" "k \<le> p"
  shows "\<exists>b'. buf_seek S (SeekCurrent (- of_nat k)) b = Some (Inr (of_nat (p - k)), b') \<and> ok b' \<and> contents b' = contents b \<and> position b' = Some (p - k)"
proof (rule flushed [OF assms(1,2)])
  fix c i q
  assume c: "flush_buf S b = Some (Inr (), c)" "i = bs_inner c" "ivr i" "img i = contents b" "cur i = Some q" "bs_len c - bs_pos c \<le> q"
      "p = q - (bs_len c - bs_pos c)" "bs_pos c \<le> bs_len c"
    and keep: "\<And>j r. ivr j \<Longrightarrow> img j = contents b \<Longrightarrow> cur j = Some r \<Longrightarrow>
      ok (c\<lparr>bs_pos := 0, bs_len := 0, bs_inner := j\<rparr>) \<and> contents (c\<lparr>bs_pos := 0, bs_len := 0, bs_inner := j\<rparr>) = contents b \<and>
      position (c\<lparr>bs_pos := 0, bs_len := 0, bs_inner := j\<rparr>) = Some r"
  let ?d = "k + (bs_len c - bs_pos c)"
  have le: "?d \<le> q" "q - ?d = p - k" using c(6,7) assms(3) by auto
  have e: "- of_nat k - (of_nat (bs_len c) - of_nat (bs_pos c)) = (- of_nat ?d :: u64)" using c(8) by (simp add: of_nat_diff)
  obtain j where j: "sk S (SeekCurrent (- of_nat ?d)) i = Some (Inr (of_nat (p - k)), j)" "ivr j" "img j = contents b" "cur j = Some (p - k)"
    using seek_back [OF c(3,5) le(1)] c(4) le(2) by (metis (no_types, lifting))
  have "buf_seek S (SeekCurrent (- of_nat k)) b = Some (Inr (of_nat (p - k)), c\<lparr>bs_pos := 0, bs_len := 0, bs_inner := j\<rparr>)"
    using c(1,2) j(1) unfolding buf_seek_def e [symmetric] by simp
  then show ?thesis using keep [OF j(2-4)] by blast
qed

end

sublocale buffered \<subseteq> buf: storage "buf_stream S" "buf_inv ivr img cur" "buf_img img cur" "buf_at cur" "{}" True
proof
  show "length (contents b) < 2 ^ 63" if "ok b" for b
  proof (cases "bs_write b")
    case True
    then show ?thesis using that small [of "bs_inner b"] by (auto simp: buf_inv_def buf_img_def)
  qed (use that small [of "bs_inner b"] in \<open>auto simp: buf_inv_def buf_img_def\<close>)
  show "p \<le> length (contents b)" if "ok b" "position b = Some p" for b p
  proof (cases "bs_write b")
    case True
    then show ?thesis using that by (auto simp: buf_inv_def buf_img_def buf_at_def)
  next
    case False
    note ok = that
    obtain q where "ivr (bs_inner b)" "cur (bs_inner b) = Some q" "contents b = img (bs_inner b)" "position b = Some (q - (bs_len b - bs_pos b))"
      by (rule reading [OF ok(1) False])
    then show ?thesis using ok(2) in_range [of "bs_inner b" q] by simp
  qed
qed (use buf_seek_start_ok buf_seek_back_ok buf_read_ok buf_write_ok in \<open>simp_all add: buf_stream_def\<close>)

interpretation bufdev: buffered mmd "dev_inv a z rest" dev_img dev_at for a z rest
  by unfold_locales

text \<open>C17: The buffered disk image is a byte array. Take any sequence of seeks, exact reads and complete writes that stays inside an image of less than
  \<open>2\<^sup>6\<^sup>3\<close> bytes in memory, given to a new \<^verbatim>\<open>BufStream\<close> over the image. The reads return what they return on an array, and after a \<^verbatim>\<open>flush\<close> the memory holds the
  array that results, and is as before around the image.\<close>

theorem buffered_image_is_array:
  assumes "start \<le> end'" "unat (end' - start) < 2 ^ 63" "array_run ops (mem_read m start (unat (end' - start))) 0 = Some (outs, ys)"
  shows "\<exists>b b'. stream_run (buf_stream mmd) ops (buf_new (mmd_new start end' m)) = Some (Inr outs, b) \<and> buf_flush mmd b = Some (Inr (), b') \<and>
    mem_read (dev_mem (bs_inner b')) start (unat (end' - start)) = ys \<and> (\<forall>x. \<not> (start \<le> x \<and> x < end') \<longrightarrow> dev_mem (bs_inner b') x = m x)"
proof -
  let ?b = "buf_new (mmd_new start end' m)"
  let ?ok = "buf_inv (dev_inv start end' m) dev_img dev_at"
  have "?ok ?b" "buf_at dev_at ?b = Some 0" "buf_img dev_img dev_at ?b = mem_read m start (unat (end' - start))"
    using assms(1,2) by (simp_all add: buf_new_def mmd_new_def buf_inv_def dev_inv_def dev_at_def buf_at_def buf_img_def dev_img_def)
  then obtain b where b: "stream_run (buf_stream mmd) ops ?b = Some (Inr outs, b)" "?ok b" "buf_img dev_img dev_at b = ys"
    using bufdev.buf.stream_run_ok [of start end' m ?b 0 ops outs ys] assms(3) by auto
  obtain c where c: "flush_buf mmd b = Some (Inr (), c)" "?ok c" "dev_img (bs_inner c) = ys" using bufdev.flush_ok [OF b(2)] b(3) by auto
  have "buf_flush mmd b = Some (Inr (), c)" using c(1) by (simp add: buf_flush_def mmd_def)
  moreover have "dev_inv start end' m (bs_inner c)" using c(2) by (simp add: buf_inv_def)
  ultimately show ?thesis using b(1) c(3) by (auto simp: dev_inv_def dev_img_def)
qed

theorem buffered_image_is_array_witness:
  "\<exists>b b'. stream_run (buf_stream mmd) [Op_Write [1, 2], Op_Seek 1, Op_Read 1] (buf_new (mmd_new 4096 8192 (\<lambda>_. 0))) = Some (Inr [[2]], b) \<and>
    buf_flush mmd b = Some (Inr (), b') \<and> dev_mem (bs_inner b') 4097 = 2 \<and> dev_mem (bs_inner b') 8192 = 0"
proof -
  let ?ops = "[Op_Write [1, 2], Op_Seek 1, Op_Read 1]"
  let ?xs = "mem_read (\<lambda>_. 0) 4096 (unat (8192 - 4096 :: usize))"
  have l: "length ?xs = 4096" by (simp add: mem_read_def)
  have r: "array_run ?ops ?xs 0 = Some ([[2]], patch 0 [1, 2] ?xs)" using l by (simp add: patch_def)
  have n: "patch 0 [1, 2] ?xs ! 1 = 2" using l by (simp add: patch_def)
  from buffered_image_is_array [OF _ _ r] obtain b b' where b: "stream_run (buf_stream mmd) ?ops (buf_new (mmd_new 4096 8192 (\<lambda>_. 0))) = Some (Inr [[2]], b)"
    "buf_flush mmd b = Some (Inr (), b')" "mem_read (dev_mem (bs_inner b')) 4096 (unat (8192 - 4096 :: usize)) = patch 0 [1, 2] ?xs"
    "\<forall>x. \<not> (4096 \<le> x \<and> x < 8192) \<longrightarrow> dev_mem (bs_inner b') x = 0" by auto
  have "dev_mem (bs_inner b') 4097 = 2" using arg_cong [OF b(3), of "\<lambda>xs. xs ! 1"] n by (simp add: mem_read_def)
  then show ?thesis using b by auto
qed

end
