(* ===== verification/Disk_Slice.thy ===== *)
theory Disk_Slice
  imports Storage
begin

text \<open>
  \<^verbatim>\<open>DiskSlice\<close> of \<^verbatim>\<open>rust-fatfs/src/fs.rs\<close>: a part of a disk that is kept in several copies, as the file allocation table is. A read takes the first copy, a
  write goes to all. A slice of a storage is a storage, its copies stay equal, and the disk around it stays as it is.
\<close>

subsection \<open>Slices of a disk (DiskSlice in fs.rs)\<close>

record 's disk_slice =
  ds_begin :: u64
  ds_size :: u64
  ds_offset :: u64
  ds_mirrors :: u8
  ds_inner :: 's

abbreviation at_inner :: "'s disk_slice \<Rightarrow> 's \<Rightarrow> 's disk_slice" where
  "at_inner d i \<equiv> d\<lparr>ds_inner := i\<rparr>"

definition ds_new :: "u64 \<Rightarrow> u64 \<Rightarrow> u8 \<Rightarrow> 's \<Rightarrow> 's disk_slice" where
  "ds_new begin' size' mirrors inner = \<lparr>ds_begin = begin', ds_size = size', ds_offset = 0, ds_mirrors = mirrors, ds_inner = inner\<rparr>"

definition ds_abs_pos :: "'s disk_slice \<Rightarrow> u64" where
  "ds_abs_pos d = ds_begin d + ds_offset d"

definition ds_read :: "('s, 'e) stream \<Rightarrow> nat \<Rightarrow> 's disk_slice \<Rightarrow> ('e fat_error, byte list, 's disk_slice) outcome" where
  "ds_read S n d =
     (let offset = ds_begin d + ds_offset d; read_size = min (unat (ds_size d - ds_offset d)) n
      in try_io (map_err Fat_Io (inside (at_inner d) (sk S (SeekStart offset) (ds_inner d)))) (\<lambda>_ d.
           try_io (map_err Fat_Io (inside (at_inner d) (rd S read_size (ds_inner d)))) (\<lambda>xs d.
             Some (Inr xs, d\<lparr>ds_offset := ds_offset d + of_nat (length xs)\<rparr>))))"

text \<open>The loop over the copies, with those that remain to be written.\<close>

fun ds_write_loop :: "('s, 'e) stream \<Rightarrow> u64 \<Rightarrow> byte list \<Rightarrow> nat list \<Rightarrow> 's disk_slice \<Rightarrow> ('e fat_error, unit, 's disk_slice) outcome" where
  "ds_write_loop S offset xs [] d = Some (Inr (), d)"
| "ds_write_loop S offset xs (i # is) d =
     try_io (map_err Fat_Io (inside (at_inner d) (sk S (SeekStart (offset + of_nat i * ds_size d)) (ds_inner d)))) (\<lambda>_ d.
       try_io (map_err Fat_Io (inside (at_inner d) (write_all S xs (ds_inner d)))) (\<lambda>_ d. ds_write_loop S offset xs is d))"

definition ds_write :: "('s, 'e) stream \<Rightarrow> byte list \<Rightarrow> 's disk_slice \<Rightarrow> ('e fat_error, nat, 's disk_slice) outcome" where
  "ds_write S buf d =
     (let offset = ds_begin d + ds_offset d; write_size = min (unat (ds_size d - ds_offset d)) (length buf)
      in if write_size = 0 then Some (Inr 0, d)
         else try_io (ds_write_loop S offset (take write_size buf) [0..<unat (ds_mirrors d)] d) (\<lambda>_ d.
                Some (Inr write_size, d\<lparr>ds_offset := ds_offset d + of_nat write_size\<rparr>)))"

definition ds_flush :: "('s, 'e) stream \<Rightarrow> 's disk_slice \<Rightarrow> ('e fat_error, unit, 's disk_slice) outcome" where
  "ds_flush S d = map_err Fat_Io (inside (at_inner d) (fl S (ds_inner d)))"

text \<open>A checked sum of an unsigned base and a signed offset: none if the base, the sum or the result is out of range.\<close>

definition checked_offset :: "u64 \<Rightarrow> u64 \<Rightarrow> u64 option" where
  "checked_offset base x =
     (let n = uint base + sint x in if uint base < 2 ^ 63 \<and> 0 \<le> n \<and> n < 2 ^ 63 then Some (of_int n) else None)"

definition ds_seek :: "seek_from \<Rightarrow> 's disk_slice \<Rightarrow> ('e fat_error, u64, 's disk_slice) outcome" where
  "ds_seek pos d =
     (case (case pos of SeekCurrent x \<Rightarrow> checked_offset (ds_offset d) x | SeekStart x \<Rightarrow> Some x | SeekEnd x \<Rightarrow> checked_offset (ds_size d) x) of
        Some new_offset \<Rightarrow>
          (if new_offset > ds_size d then Some (Inl Fat_InvalidInput, d) else Some (Inr new_offset, d\<lparr>ds_offset := new_offset\<rparr>))
      | None \<Rightarrow> Some (Inl Fat_InvalidInput, d))"

definition fat_is_interrupted :: "('s, 'e) stream \<Rightarrow> 'e fat_error \<Rightarrow> bool" where
  "fat_is_interrupted S e = (case e of Fat_Io i \<Rightarrow> is_interrupted S i | _ \<Rightarrow> False)"

definition disk_slice :: "('s, 'e) stream \<Rightarrow> ('s disk_slice, 'e fat_error) stream" where
  "disk_slice S = \<lparr>rd = ds_read S, wr = ds_write S, sk = ds_seek, fl = ds_flush S,
     is_interrupted = fat_is_interrupted S, unexpected_eof_error = Fat_UnexpectedEof, write_zero_error = Fat_WriteZero\<rparr>"

subsection \<open>A slice is a storage\<close>

definition ds_region :: "'s disk_slice \<Rightarrow> nat set" where
  "ds_region d = {unat (ds_begin d)..<unat (ds_begin d) + unat (ds_mirrors d) * unat (ds_size d)}"

definition ds_copy :: "('s \<Rightarrow> byte list) \<Rightarrow> nat \<Rightarrow> 's disk_slice \<Rightarrow> byte list" where
  "ds_copy img i d = take (unat (ds_size d)) (drop (unat (ds_begin d) + i * unat (ds_size d)) (img (ds_inner d)))"

abbreviation ds_img :: "('s \<Rightarrow> byte list) \<Rightarrow> 's disk_slice \<Rightarrow> byte list" where
  "ds_img img \<equiv> ds_copy img 0"

definition ds_at :: "'s disk_slice \<Rightarrow> nat option" where
  "ds_at d = Some (unat (ds_offset d))"

text \<open>\<open>rest\<close> is the disk around the slice.\<close>

definition ds_inv :: "('s \<Rightarrow> bool) \<Rightarrow> ('s \<Rightarrow> byte list) \<Rightarrow> nat set \<Rightarrow> byte list \<Rightarrow> 's disk_slice \<Rightarrow> bool" where
  "ds_inv ivr img hidden rest d \<longleftrightarrow> ivr (ds_inner d) \<and> ds_offset d \<le> ds_size d \<and> 0 < unat (ds_mirrors d) \<and>
     unat (ds_begin d) + unat (ds_mirrors d) * unat (ds_size d) \<le> length (img (ds_inner d)) \<and> ds_region d \<inter> hidden = {} \<and>
     (\<forall>i < unat (ds_mirrors d). ds_copy img i d = ds_img img d) \<and>
     length rest = length (img (ds_inner d)) \<and> (\<forall>x < length rest. x \<notin> ds_region d \<and> x \<notin> hidden \<longrightarrow> img (ds_inner d) ! x = rest ! x)"

text \<open>Writing the same bytes at several places.\<close>

definition patches :: "nat \<Rightarrow> nat \<Rightarrow> 'a list \<Rightarrow> nat list \<Rightarrow> 'a list \<Rightarrow> 'a list" where
  "patches base n bs is xs = fold (\<lambda>i. patch (base + i * n) bs) is xs"

lemma patches_length: "(\<And>i. i \<in> set is \<Longrightarrow> base + i * n + length bs \<le> length xs) \<Longrightarrow> length (patches base n bs is xs) = length xs"
  by (induction "is" arbitrary: xs) (auto simp: patches_def)

lemma patches_apart:
  "(\<And>i. i \<in> set is \<Longrightarrow> base + i * n + length bs \<le> length xs) \<Longrightarrow> x < length xs \<Longrightarrow>
    (\<And>i. i \<in> set is \<Longrightarrow> \<not> (base + i * n \<le> x \<and> x < base + i * n + length bs)) \<Longrightarrow> patches base n bs is xs ! x = xs ! x"
  by (induction "is" arbitrary: xs) (auto simp: patches_def nth_patch)

lemma patches_hit:
  assumes "i \<in> set is" "\<And>i. i \<in> set is \<Longrightarrow> base + i * n + length bs \<le> length xs" "y < length bs" "length bs \<le> n"
  shows "patches base n bs is xs ! (base + i * n + y) = bs ! y"
  using assms(1,2)
proof (induction "is" arbitrary: xs)
  case (Cons j js)
  have l: "base + j * n + length bs \<le> length xs" "base + i * n + y < length xs" using Cons.prems assms(3) by fastforce+
  show ?case
  proof (cases "i \<in> set js")
    case True
    then show ?thesis using Cons.IH [of "patch (base + j * n) bs xs"] Cons.prems(2) l by (simp add: patches_def)
  next
    case False
    have "\<not> (base + k * n \<le> base + i * n + y \<and> base + i * n + y < base + k * n + length bs)" if "k \<in> set js" for k
    proof -
      have "k \<noteq> i" using that False by blast
      then consider "k + 1 \<le> i" | "i + 1 \<le> k" by linarith
      then show ?thesis
      proof cases
        case 1
        then have "(k + 1) * n \<le> i * n" by (rule mult_le_mono1)
        then show ?thesis using assms(4) by (simp add: algebra_simps)
      next
        case 2
        then have "(i + 1) * n \<le> k * n" by (rule mult_le_mono1)
        then show ?thesis using assms(3,4) by (simp add: algebra_simps)
      qed
    qed
    moreover have "i = j" using False Cons.prems(1) by simp
    ultimately show ?thesis using patches_apart [of js base n bs "patch (base + j * n) bs xs" "base + i * n + y"] Cons.prems(2) l assms(3)
      by (simp add: patches_def nth_patch)
  qed
qed simp

locale sliced = storage S ivr img cur hidden seq
  for S :: "('s, 'e) stream" and ivr :: "'s \<Rightarrow> bool" and img :: "'s \<Rightarrow> byte list" and cur :: "'s \<Rightarrow> nat option" and hidden :: "nat set" and seq :: bool +
  fixes rest :: "byte list"
begin

abbreviation ok :: "'s disk_slice \<Rightarrow> bool" where "ok \<equiv> ds_inv ivr img hidden rest"

lemma sizes:
  assumes "ok d"
  shows "unat (ds_begin d + ds_offset d) = unat (ds_begin d) + unat (ds_offset d)" "unat (ds_size d - ds_offset d) = unat (ds_size d) - unat (ds_offset d)"
    "unat (ds_offset d) \<le> unat (ds_size d)" "unat (ds_begin d) + unat (ds_size d) \<le> length (img (ds_inner d))" "length (ds_img img d) = unat (ds_size d)"
    "length (img (ds_inner d)) < 2 ^ 63"
proof -
  have m: "1 * unat (ds_size d) \<le> unat (ds_mirrors d) * unat (ds_size d)" using assms by (intro mult_le_mono1) (simp add: ds_inv_def)
  show le: "unat (ds_begin d) + unat (ds_size d) \<le> length (img (ds_inner d))" using m assms unfolding ds_inv_def by linarith
  show o: "unat (ds_offset d) \<le> unat (ds_size d)" using assms by (simp add: ds_inv_def word_le_nat_alt)
  show sm: "length (img (ds_inner d)) < 2 ^ 63" using assms small by (simp add: ds_inv_def)
  show "unat (ds_begin d + ds_offset d) = unat (ds_begin d) + unat (ds_offset d)" by (rule unat_add_small) (use le o sm in simp)
  show "unat (ds_size d - ds_offset d) = unat (ds_size d) - unat (ds_offset d)" using assms by (intro unat_sub) (simp add: ds_inv_def)
  show "length (ds_img img d) = unat (ds_size d)" using le by (simp add: ds_copy_def)
qed

lemma ds_img_part: "ok d \<Longrightarrow> p + k \<le> unat (ds_size d) \<Longrightarrow> take k (drop p (ds_img img d)) = take k (drop (unat (ds_begin d) + p) (img (ds_inner d)))"
  by (simp add: ds_copy_def drop_take min_absorb2 add.commute)

lemma ok_inner:
  assumes "ok d" "ivr i" "img i = img (ds_inner d)" "x \<le> ds_size d"
  shows "ok (d\<lparr>ds_inner := i, ds_offset := x\<rparr>)" "ds_img img (d\<lparr>ds_inner := i, ds_offset := x\<rparr>) = ds_img img d"
  using assms by (simp_all add: ds_inv_def ds_copy_def ds_region_def)

lemma ds_read_ok:
  assumes "ok d" "ds_at d = Some p"
  shows "\<exists>k d'. ds_read S n d = Some (Inr (take k (drop p (ds_img img d))), d') \<and> k \<le> n \<and> p + k \<le> length (ds_img img d) \<and>
    (k = 0 \<longrightarrow> n = 0 \<or> p = length (ds_img img d)) \<and> ok d' \<and> ds_img img d' = ds_img img d \<and> ds_at d' = Some (p + k)"
proof -
  note z = sizes [OF assms(1)]
  have p: "p = unat (ds_offset d)" using assms(2) by (simp add: ds_at_def)
  have "ivr (ds_inner d)" using assms(1) by (simp add: ds_inv_def)
  moreover have "unat (ds_begin d + ds_offset d) \<le> length (img (ds_inner d))" using z by simp
  ultimately obtain i where i: "sk S (SeekStart (ds_begin d + ds_offset d)) (ds_inner d) = Some (Inr (ds_begin d + ds_offset d), i)" "ivr i"
    "img i = img (ds_inner d)" "cur i = Some (unat (ds_begin d) + p)" using seek_start [of "ds_inner d" "ds_begin d + ds_offset d"] z(1) p by auto
  let ?n = "min (unat (ds_size d) - p) n"
  obtain k j where j: "rd S ?n i = Some (Inr (take k (drop (unat (ds_begin d) + p) (img i))), j)" "k \<le> ?n" "unat (ds_begin d) + p + k \<le> length (img i)"
    "k = 0 \<longrightarrow> ?n = 0 \<or> unat (ds_begin d) + p = length (img i)" "ivr j" "img j = img i" using reads [OF i(2,4), of ?n] by blast
  let ?x = "ds_offset d + of_nat k"
  have "k \<le> unat (ds_size d) - p" using j(2) by simp
  then have k: "p + k \<le> unat (ds_size d)" using z(3) p by linarith
  have "unat (of_nat k :: u64) = k" using k z(4,6) by (simp add: unat_of_nat)
  then have x: "unat ?x = p + k" using k z(4,6) p by (subst unat_add_small) simp_all
  have "ds_read S n d = Some (Inr (take k (drop p (ds_img img d))), d\<lparr>ds_inner := j, ds_offset := ?x\<rparr>)"
    using i(1,3) j(1,3) z(2) p ds_img_part [OF assms(1) k] by (simp add: ds_read_def)
  moreover have "?x \<le> ds_size d" using k x by (simp add: word_le_nat_alt)
  moreover have "k = 0 \<longrightarrow> n = 0 \<or> p = unat (ds_size d)" using j(4) i(3) k z(3,4) p by (auto simp: min_def split: if_splits)
  ultimately show ?thesis using ok_inner [OF assms(1) j(5), of ?x] j(2,6) i(3) k x z(5)
    by (intro exI [of _ k] exI [of _ "d\<lparr>ds_inner := j, ds_offset := ?x\<rparr>"]) (simp add: ds_at_def)
qed

lemma ds_write_loop_ok:
  assumes "ivr (ds_inner d)" "length (img (ds_inner d)) < 2 ^ 63"
    "\<And>i. i \<in> set is \<Longrightarrow> unat off + i * unat (ds_size d) + length bs \<le> length (img (ds_inner d)) \<and>
       {unat off + i * unat (ds_size d)..<unat off + i * unat (ds_size d) + length bs} \<inter> hidden = {}"
  shows "\<exists>i. ds_write_loop S off bs is d = Some (Inr (), d\<lparr>ds_inner := i\<rparr>) \<and> ivr i \<and> img i = patches (unat off) (unat (ds_size d)) bs is (img (ds_inner d))"
  using assms
proof (induction "is" arbitrary: d)
  case Nil
  then show ?case by (auto simp: patches_def intro!: exI [of _ "ds_inner d"])
next
  case (Cons i "is")
  let ?q = "off + of_nat i * ds_size d"
  have le: "unat off + i * unat (ds_size d) + length bs \<le> length (img (ds_inner d))" and h: "{unat off + i * unat (ds_size d)..<unat off + i * unat (ds_size d) + length bs} \<inter> hidden = {}"
    using Cons.prems(3) [of i] by simp_all
  have q: "unat ?q = unat off + i * unat (ds_size d)"
  proof -
    have "?q = of_nat (unat off + i * unat (ds_size d))" by simp
    also have "unat \<dots> = unat off + i * unat (ds_size d)" using le Cons.prems(2) by (simp add: unat_of_nat del: of_nat_add of_nat_mult)
    finally show ?thesis .
  qed
  obtain j j' where j: "sk S (SeekStart ?q) (ds_inner d) = Some (Inr ?q, j)" "write_all S bs j = Some (Inr (), j')" "ivr j'" "img j' = patch (unat ?q) bs (img (ds_inner d))"
    using seek_then_write [OF Cons.prems(1), of ?q bs] le h q by auto
  have l: "length (img j') = length (img (ds_inner d))" using j(4) le q by simp
  then obtain i' where i': "ds_write_loop S off bs is (d\<lparr>ds_inner := j'\<rparr>) = Some (Inr (), d\<lparr>ds_inner := i'\<rparr>)" "ivr i'"
    "img i' = patches (unat off) (unat (ds_size d)) bs is (img j')"
    using Cons.IH [of "d\<lparr>ds_inner := j'\<rparr>"] Cons.prems(2,3) j(3) by auto
  then show ?case using j q by (auto simp: patches_def)
qed

lemma ds_write_ok:
  assumes "ok d" "ds_at d = Some p" "bs \<noteq> []" "p + length bs \<le> length (ds_img img d)"
  shows "\<exists>d'. ds_write S bs d = Some (Inr (length bs), d') \<and> ok d' \<and> ds_img img d' = patch p bs (ds_img img d) \<and> ds_at d' = Some (p + length bs)"
proof -
  note z = sizes [OF assms(1)]
  let ?s = "unat (ds_size d)" and ?b = "unat (ds_begin d)" and ?m = "unat (ds_mirrors d)" and ?I = "img (ds_inner d)"
  have p: "p = unat (ds_offset d)" using assms(2) by (simp add: ds_at_def)
  have fit: "p + length bs \<le> ?s" using assms(4) z(5) by simp
  have D: "ivr (ds_inner d)" "?b + ?m * ?s \<le> length ?I" "ds_region d \<inter> hidden = {}" "length rest = length ?I"
    "\<And>i. i < ?m \<Longrightarrow> ds_copy img i d = ds_img img d" "\<And>x. x < length rest \<Longrightarrow> x \<notin> ds_region d \<Longrightarrow> x \<notin> hidden \<Longrightarrow> ?I ! x = rest ! x"
    using assms(1) unfolding ds_inv_def by blast+
  have places: "?b + p + i * ?s + length bs \<le> ?b + ?m * ?s" if "i < ?m" for i
  proof -
    have "(i + 1) * ?s \<le> ?m * ?s" using that by (intro mult_le_mono1) simp
    then show ?thesis using fit by (simp add: algebra_simps)
  qed
  have "?b + p + i * ?s + length bs \<le> length ?I \<and> {?b + p + i * ?s..<?b + p + i * ?s + length bs} \<inter> hidden = {}" if "i \<in> set [0..<?m]" for i
  proof
    have i: "?b + p + i * ?s + length bs \<le> ?b + ?m * ?s" using places that by simp
    then show "?b + p + i * ?s + length bs \<le> length ?I" using D(2) by simp
    have "{?b + p + i * ?s..<?b + p + i * ?s + length bs} \<subseteq> ds_region d" using i by (auto simp: ds_region_def)
    then show "{?b + p + i * ?s..<?b + p + i * ?s + length bs} \<inter> hidden = {}" using D(3) by blast
  qed
  note P = this
  note P1 = conjunct1 [OF P]
  have off: "unat (ds_begin d + ds_offset d) = ?b + p" using z(1) p by simp
  obtain i where i: "ds_write_loop S (ds_begin d + ds_offset d) bs [0..<?m] d = Some (Inr (), d\<lparr>ds_inner := i\<rparr>)" "ivr i" "img i = patches (?b + p) ?s bs [0..<?m] ?I"
    using ds_write_loop_ok [OF D(1) z(6), of "[0..<?m]" "ds_begin d + ds_offset d" bs, unfolded off, OF P] by blast
  let ?x = "ds_offset d + of_nat (length bs)"
  have "unat (of_nat (length bs) :: u64) = length bs" using fit z(4,6) by (simp add: unat_of_nat)
  then have x: "unat ?x = p + length bs" using fit z(4,6) p by (subst unat_add_small) simp_all
  let ?d = "d\<lparr>ds_inner := i, ds_offset := ?x\<rparr>"
  have l: "length (img i) = length ?I" unfolding i(3) by (rule patches_length) (rule P1)
  have copy: "ds_copy img k ?d = patch p bs (ds_img img d)" if k: "k < ?m" for k
  proof (rule nth_equalityI)
    have "(k + 1) * ?s \<le> ?m * ?s" using k by (intro mult_le_mono1) simp
    then have kk: "?b + k * ?s + ?s \<le> length ?I" using D(2) by (simp add: algebra_simps)
    then show "length (ds_copy img k ?d) = length (patch p bs (ds_img img d))" using l z(5) fit by (simp add: ds_copy_def)
    fix y assume "y < length (ds_copy img k ?d)"
    then have y: "y < ?s" by (simp add: ds_copy_def)
    have e: "ds_copy img k ?d ! y = patches (?b + p) ?s bs [0..<?m] ?I ! (?b + k * ?s + y)" using y kk l i(3) by (simp add: ds_copy_def)
    show "ds_copy img k ?d ! y = patch p bs (ds_img img d) ! y"
    proof (cases "p \<le> y \<and> y < p + length bs")
      case True
      have "patches (?b + p) ?s bs [0..<?m] ?I ! (?b + p + k * ?s + (y - p)) = bs ! (y - p)"
      proof (rule patches_hit)
        show "k \<in> set [0..<?m]" using k by simp
        show "y - p < length bs" "length bs \<le> ?s" using True fit by linarith+
      qed (rule P1)
      then show ?thesis using e True y z(5) fit by (simp add: nth_patch algebra_simps)
    next
      case False
      have "\<not> (?b + p + j * ?s \<le> ?b + k * ?s + y \<and> ?b + k * ?s + y < ?b + p + j * ?s + length bs)" for j
      proof (cases j k rule: linorder_cases)
        case less
        then have "(j + 1) * ?s \<le> k * ?s" by (intro mult_le_mono1) simp
        then show ?thesis using fit by (simp add: algebra_simps)
      next
        case greater
        then have "(k + 1) * ?s \<le> j * ?s" by (intro mult_le_mono1) simp
        then show ?thesis using y by (simp add: algebra_simps)
      qed (use False in auto)
      then have "patches (?b + p) ?s bs [0..<?m] ?I ! (?b + k * ?s + y) = ?I ! (?b + k * ?s + y)" using y kk by (intro patches_apart P1) simp_all
      moreover have "?I ! (?b + k * ?s + y) = ds_copy img k d ! y" using y kk by (simp add: ds_copy_def)
      ultimately show ?thesis using e False y z(5) fit D(5) [OF k] by (auto simp: nth_patch)
    qed
  qed
  have m0: "0 < ?m" using assms(1) by (simp add: ds_inv_def)
  have around: "img i ! x = rest ! x" if "x < length rest" "x \<notin> ds_region d" "x \<notin> hidden" for x
  proof -
    have "\<not> (?b + p + j * ?s \<le> x \<and> x < ?b + p + j * ?s + length bs)" if "j \<in> set [0..<?m]" for j
      using places [of j] that \<open>x \<notin> ds_region d\<close> by (auto simp: ds_region_def)
    then have "patches (?b + p) ?s bs [0..<?m] ?I ! x = ?I ! x" using that(1) D(4) by (intro patches_apart P1) simp_all
    then show ?thesis using i(3) D(6) that by simp
  qed
  have "?x \<le> ds_size d" using x fit by (simp add: word_le_nat_alt)
  moreover have "ds_region ?d = ds_region d" by (simp add: ds_region_def)
  ultimately have "ok ?d" unfolding ds_inv_def using i(2) l copy m0 around D(2-4) by simp
  moreover have "ds_write S bs d = Some (Inr (length bs), ?d)"
    using i(1) z(2) fit p assms(3) by (simp add: ds_write_def Let_def min_absorb2)
  ultimately show ?thesis using copy [OF m0] x by (intro exI [of _ ?d]) (simp add: ds_at_def)
qed

lemma ds_seek_ok:
  assumes "ok d" "unat q \<le> unat (ds_size d)"
  shows "ok (d\<lparr>ds_offset := q\<rparr>)" "ds_img img (d\<lparr>ds_offset := q\<rparr>) = ds_img img d"
  using assms by (simp_all add: ds_inv_def ds_copy_def ds_region_def word_le_nat_alt)

end

sublocale sliced \<subseteq> ds: storage "disk_slice S" "ds_inv ivr img hidden rest" "ds_img img" ds_at "{}" True
proof
  show "length (ds_img img d) < 2 ^ 63" if "ok d" for d using sizes [OF that] by simp
  show le: "p \<le> length (ds_img img d)" if "ok d" "ds_at d = Some p" for d p using sizes [OF that(1)] that(2) by (auto simp: ds_at_def)
  show "\<exists>d'. sk (disk_slice S) (SeekStart q) d = Some (Inr q, d') \<and> ok d' \<and> ds_img img d' = ds_img img d \<and> ds_at d' = Some (unat q)"
    if "ok d" "unat q \<le> length (ds_img img d)" for d q
    using ds_seek_ok [OF that(1), of q] that(2) sizes(5) [OF that(1)] by (simp add: disk_slice_def ds_seek_def ds_at_def word_less_nat_alt)
  show "\<exists>d'. sk (disk_slice S) (SeekCurrent (- of_nat k)) d = Some (Inr (of_nat (p - k)), d') \<and> ok d' \<and> ds_img img d' = ds_img img d \<and> ds_at d' = Some (p - k)"
    if "ok d" "ds_at d = Some p" "k \<le> p" for d p k
  proof -
    note z = sizes [OF that(1)]
    have p: "p = unat (ds_offset d)" using that(2) by (simp add: ds_at_def)
    have sm: "p \<le> unat (ds_size d)" "p < 2 ^ 63" using z p by simp_all
    have u: "uint (ds_offset d) = int p" using p by simp
    have "sint (- of_nat k :: u64) = - int k"
    proof -
      have "(- of_nat k :: u64) = word_of_int (- int k)" by simp
      then show ?thesis using that(3) sm by (simp only: int_word_sint) simp
    qed
    then have "checked_offset (ds_offset d) (- of_nat k) = Some (of_nat (p - k))"
      using that(3) sm u by (simp add: checked_offset_def Let_def of_nat_diff)
    moreover have "unat (of_nat (p - k) :: u64) = p - k" using sm by (simp add: unat_of_nat del: of_nat_diff)
    ultimately show ?thesis using ds_seek_ok [OF that(1), of "of_nat (p - k)"] sm by (simp add: disk_slice_def ds_seek_def ds_at_def word_less_nat_alt del: of_nat_diff)
  qed
  show "\<exists>k d'. rd (disk_slice S) n d = Some (Inr (take k (drop p (ds_img img d))), d') \<and> k \<le> n \<and> p + k \<le> length (ds_img img d) \<and>
    (k = 0 \<longrightarrow> n = 0 \<or> p = length (ds_img img d)) \<and> ok d' \<and> ds_img img d' = ds_img img d \<and> ds_at d' = Some (p + k)" if "ok d" "ds_at d = Some p" for d p n
    using ds_read_ok [OF that] unfolding disk_slice_def stream.simps .
  show "\<exists>d'. wr (disk_slice S) bs d = Some (Inr (length bs), d') \<and> ok d' \<and> ds_img img d' = patch p bs (ds_img img d) \<and> (True \<longrightarrow> ds_at d' = Some (p + length bs))"
    if "ok d" "ds_at d = Some p" "bs \<noteq> []" "p + length bs \<le> length (ds_img img d)" "{p..<p + length bs} \<inter> {} = {}" for d p bs
    using ds_write_ok [OF that(1-4)] unfolding disk_slice_def stream.simps by simp
qed

end
