(* ===== verification/Fat_Table.thy ===== *)
theory Fat_Table
  imports Disk_Slice
begin

text \<open>
  The file allocation table: \<^verbatim>\<open>rust-fatfs/src/table.rs\<close> and \<^verbatim>\<open>FatType\<close>, \<^verbatim>\<open>FsStatusFlags\<close> of \<^verbatim>\<open>fs.rs\<close>. The operations take the stream of the table as an
  argument. Entries are 12, 16 or 32 bits wide (28 of them in use); those of 12 bits share bytes.
\<close>

subsection \<open>Types (fs.rs, table.rs)\<close>

datatype fat_type = Fat12 | Fat16 | Fat32

definition FAT16_MIN_CLUSTERS :: u32 where "FAT16_MIN_CLUSTERS = 4085"
definition FAT32_MIN_CLUSTERS :: u32 where "FAT32_MIN_CLUSTERS = 65525"
definition FAT32_MAX_CLUSTERS :: u32 where "FAT32_MAX_CLUSTERS = 0x0FFFFFF4"

definition from_clusters :: "u32 \<Rightarrow> fat_type" where
  "from_clusters total_clusters =
     (if total_clusters < FAT16_MIN_CLUSTERS then Fat12 else if total_clusters < FAT32_MIN_CLUSTERS then Fat16 else Fat32)"

definition bits_per_fat_entry :: "fat_type \<Rightarrow> u32" where
  "bits_per_fat_entry t = (case t of Fat12 \<Rightarrow> 12 | Fat16 \<Rightarrow> 16 | Fat32 \<Rightarrow> 32)"

definition min_clusters :: "fat_type \<Rightarrow> u32" where
  "min_clusters t = (case t of Fat12 \<Rightarrow> 0 | Fat16 \<Rightarrow> FAT16_MIN_CLUSTERS | Fat32 \<Rightarrow> FAT32_MIN_CLUSTERS)"

definition max_clusters :: "fat_type \<Rightarrow> u32" where
  "max_clusters t = (case t of Fat12 \<Rightarrow> FAT16_MIN_CLUSTERS - 1 | Fat16 \<Rightarrow> FAT32_MIN_CLUSTERS - 1 | Fat32 \<Rightarrow> FAT32_MAX_CLUSTERS)"

record fs_status_flags =
  fsf_dirty :: bool
  fsf_io_error :: bool

definition flags_encode :: "fs_status_flags \<Rightarrow> u8" where
  "flags_encode f = (if fsf_dirty f then 1 else 0) OR (if fsf_io_error f then 2 else 0)"

definition flags_decode :: "u8 \<Rightarrow> fs_status_flags" where
  "flags_decode b = \<lparr>fsf_dirty = (b AND 1 \<noteq> 0), fsf_io_error = (b AND 2 \<noteq> 0)\<rparr>"

definition RESERVED_FAT_ENTRIES :: u32 where "RESERVED_FAT_ENTRIES = 2"

datatype fat_value = FatFree | FatData u32 | FatBad | FatEndOfChain

type_synonym ('s, 'e) fat_stream = "('s, 'e fat_error) stream"
type_synonym ('e, 'a, 's) fat_outcome = "('e fat_error, 'a, 's) outcome"

lemma try_io_cong [fundef_cong]:
  "m = m' \<Longrightarrow> (\<And>a s. m' = Some (Inr a, s) \<Longrightarrow> k a s = k' a s) \<Longrightarrow> try_io m k = try_io m' k'"
  by (auto simp: try_io_def split: option.splits sum.splits)

subsection \<open>Entries of 12 bits\<close>

definition fat12_offset :: "u32 \<Rightarrow> seek_from" where
  "fat12_offset cluster = SeekStart (ucast (cluster + cluster div 2))"

definition fat12_unpack :: "u32 \<Rightarrow> u16 \<Rightarrow> u16" where
  "fat12_unpack cluster packed_val = (if cluster AND 1 = 0 then packed_val AND 0x0FFF else drop_bit 4 packed_val)"

definition fat12_get_raw :: "('s, 'e) fat_stream \<Rightarrow> u32 \<Rightarrow> 's \<Rightarrow> ('e, u32, 's) fat_outcome" where
  "fat12_get_raw S cluster s =
     try_io (sk S (fat12_offset cluster) s) (\<lambda>_ s.
       try_io (read_u16_le S s) (\<lambda>packed_val s. Some (Inr (ucast (fat12_unpack cluster packed_val)), s)))"

definition fat12_decode :: "u32 \<Rightarrow> fat_value" where
  "fat12_decode val = (if val = 0 then FatFree else if val = 0xFF7 then FatBad else if 0xFF8 \<le> val \<and> val \<le> 0xFFF then FatEndOfChain else FatData val)"

definition fat12_get :: "('s, 'e) fat_stream \<Rightarrow> u32 \<Rightarrow> 's \<Rightarrow> ('e, fat_value, 's) fat_outcome" where
  "fat12_get S cluster s = try_io (fat12_get_raw S cluster s) (\<lambda>val s. Some (Inr (fat12_decode val), s))"

definition fat12_set_raw :: "('s, 'e) fat_stream \<Rightarrow> u32 \<Rightarrow> u32 \<Rightarrow> 's \<Rightarrow> ('e, unit, 's) fat_outcome" where
  "fat12_set_raw S cluster raw_val s =
     try_io (sk S (fat12_offset cluster) s) (\<lambda>_ s.
       try_io (read_u16_le S s) (\<lambda>old_packed s.
         try_io (sk S (fat12_offset cluster) s) (\<lambda>_ s.
           let new_packed = (if cluster AND 1 = 0 then (old_packed AND 0xF000) OR ucast raw_val else (old_packed AND 0x000F) OR push_bit 4 (ucast raw_val))
           in write_u16_le S new_packed s)))"

definition fat12_encode :: "fat_value \<Rightarrow> u32" where
  "fat12_encode value = (case value of FatFree \<Rightarrow> 0 | FatBad \<Rightarrow> 0xFF7 | FatEndOfChain \<Rightarrow> 0xFFF | FatData n \<Rightarrow> n)"

definition fat12_set :: "('s, 'e) fat_stream \<Rightarrow> u32 \<Rightarrow> fat_value \<Rightarrow> 's \<Rightarrow> ('e, unit, 's) fat_outcome" where
  "fat12_set S cluster value s = fat12_set_raw S cluster (fat12_encode value) s"

text \<open>The loop ends at \<open>end_cluster\<close>, however far that is.\<close>

function fat12_find_free_loop :: "('s, 'e) fat_stream \<Rightarrow> u32 \<Rightarrow> u32 \<Rightarrow> u16 \<Rightarrow> 's \<Rightarrow> ('e, u32, 's) fat_outcome" where
  "fat12_find_free_loop S cluster end_cluster packed_val s =
     (if fat12_unpack cluster packed_val = 0 then Some (Inr cluster, s)
      else if cluster + 1 = end_cluster then Some (Inl Fat_NotEnoughSpace, s)
      else try_io
        (if (cluster + 1) AND 1 = 0 then read_u16_le S s
         else try_io (read_u8 S s) (\<lambda>next_byte s. Some (Inr (drop_bit 8 packed_val OR push_bit 8 (ucast next_byte)), s)))
        (\<lambda>packed_val s. fat12_find_free_loop S (cluster + 1) end_cluster packed_val s))"
  by pat_completeness auto
termination
proof (relation "measure (\<lambda>(S, cluster, end_cluster, packed_val, s). unat (end_cluster - cluster - 1))", goal_cases)
  case (2 S cluster end_cluster packed_val s)
  have e: "end_cluster - cluster - 1 = end_cluster - (cluster + 1)" "end_cluster - (cluster + 1) - 1 = end_cluster - cluster - 1 - 1" by simp_all
  have "end_cluster - (cluster + 1) \<noteq> 0" using 2(2) by (metis right_minus_eq)
  then have "unat (end_cluster - (cluster + 1) - 1) < unat (end_cluster - (cluster + 1))" by (rule measure_unat)
  then show ?case by (simp only: in_measure prod.case e(1))
qed simp

definition fat12_find_free :: "('s, 'e) fat_stream \<Rightarrow> u32 \<Rightarrow> u32 \<Rightarrow> 's \<Rightarrow> ('e, u32, 's) fat_outcome" where
  "fat12_find_free S start_cluster end_cluster s =
     try_io (sk S (fat12_offset start_cluster) s) (\<lambda>_ s.
       try_io (read_u16_le S s) (\<lambda>packed_val s. fat12_find_free_loop S start_cluster end_cluster packed_val s))"

lemma unat_step: "c < e \<Longrightarrow> unat (c + 1) = Suc (unat c)" for c e :: u32
  using unsigned_less [of e, where 'a = nat] by (subst unat_add_small) (auto simp: word_less_nat_alt)

lemma while_measure: "c < e \<Longrightarrow> unat e - unat (c + 1) < unat e - unat c" for c e :: u32
  by (simp add: unat_step word_less_nat_alt)

function fat12_count_free_loop :: "('s, 'e) fat_stream \<Rightarrow> u32 \<Rightarrow> u32 \<Rightarrow> u16 \<Rightarrow> u32 \<Rightarrow> 's \<Rightarrow> ('e, u32, 's) fat_outcome" where
  "fat12_count_free_loop S cluster end_cluster prev_packed_val count s =
     (if cluster < end_cluster
      then try_io (if cluster AND 1 = 0 then read_u16_le S s else try_io (read_u8 S s) (\<lambda>b s. Some (Inr (ucast b), s))) (\<lambda>packed_val s.
             let val = (if cluster AND 1 = 0 then packed_val AND 0x0FFF else push_bit 8 packed_val OR drop_bit 12 prev_packed_val)
             in fat12_count_free_loop S (cluster + 1) end_cluster packed_val (if val = 0 then count + 1 else count) s)
      else Some (Inr count, s))"
  by pat_completeness auto
termination
  by (relation "measure (\<lambda>(S, cluster, end_cluster, _). unat end_cluster - unat cluster)") (simp_all add: while_measure)

definition fat12_count_free :: "('s, 'e) fat_stream \<Rightarrow> u32 \<Rightarrow> 's \<Rightarrow> ('e, u32, 's) fat_outcome" where
  "fat12_count_free S end_cluster s =
     try_io (sk S (SeekStart (ucast (RESERVED_FAT_ENTRIES * 3 div 2))) s) (\<lambda>_ s. fat12_count_free_loop S RESERVED_FAT_ENTRIES end_cluster 0 0 s)"

subsection \<open>Entries of 16 bits\<close>

definition fat16_get_raw :: "('s, 'e) fat_stream \<Rightarrow> u32 \<Rightarrow> 's \<Rightarrow> ('e, u32, 's) fat_outcome" where
  "fat16_get_raw S cluster s =
     try_io (sk S (SeekStart (ucast (cluster * 2))) s) (\<lambda>_ s. try_io (read_u16_le S s) (\<lambda>val s. Some (Inr (ucast val), s)))"

definition fat16_decode :: "u32 \<Rightarrow> fat_value" where
  "fat16_decode val = (if val = 0 then FatFree else if val = 0xFFF7 then FatBad else if 0xFFF8 \<le> val \<and> val \<le> 0xFFFF then FatEndOfChain else FatData val)"

definition fat16_get :: "('s, 'e) fat_stream \<Rightarrow> u32 \<Rightarrow> 's \<Rightarrow> ('e, fat_value, 's) fat_outcome" where
  "fat16_get S cluster s = try_io (fat16_get_raw S cluster s) (\<lambda>val s. Some (Inr (fat16_decode val), s))"

definition fat16_set_raw :: "('s, 'e) fat_stream \<Rightarrow> u32 \<Rightarrow> u32 \<Rightarrow> 's \<Rightarrow> ('e, unit, 's) fat_outcome" where
  "fat16_set_raw S cluster raw_value s =
     try_io (sk S (SeekStart (ucast (cluster * 2))) s) (\<lambda>_ s. write_u16_le S (ucast raw_value) s)"

definition fat16_encode :: "fat_value \<Rightarrow> u32" where
  "fat16_encode value = (case value of FatFree \<Rightarrow> 0 | FatBad \<Rightarrow> 0xFFF7 | FatEndOfChain \<Rightarrow> 0xFFFF | FatData n \<Rightarrow> n)"

definition fat16_set :: "('s, 'e) fat_stream \<Rightarrow> u32 \<Rightarrow> fat_value \<Rightarrow> 's \<Rightarrow> ('e, unit, 's) fat_outcome" where
  "fat16_set S cluster value s = fat16_set_raw S cluster (fat16_encode value) s"

function fat16_find_free_loop :: "('s, 'e) fat_stream \<Rightarrow> u32 \<Rightarrow> u32 \<Rightarrow> 's \<Rightarrow> ('e, u32, 's) fat_outcome" where
  "fat16_find_free_loop S cluster end_cluster s =
     (if cluster < end_cluster
      then try_io (read_u16_le S s) (\<lambda>val s. if val = 0 then Some (Inr cluster, s) else fat16_find_free_loop S (cluster + 1) end_cluster s)
      else Some (Inl Fat_NotEnoughSpace, s))"
  by pat_completeness auto
termination
  by (relation "measure (\<lambda>(S, cluster, end_cluster, s). unat end_cluster - unat cluster)") (simp_all add: while_measure)

definition fat16_find_free :: "('s, 'e) fat_stream \<Rightarrow> u32 \<Rightarrow> u32 \<Rightarrow> 's \<Rightarrow> ('e, u32, 's) fat_outcome" where
  "fat16_find_free S start_cluster end_cluster s =
     try_io (sk S (SeekStart (ucast (start_cluster * 2))) s) (\<lambda>_ s. fat16_find_free_loop S start_cluster end_cluster s)"

function fat16_count_free_loop :: "('s, 'e) fat_stream \<Rightarrow> u32 \<Rightarrow> u32 \<Rightarrow> u32 \<Rightarrow> 's \<Rightarrow> ('e, u32, 's) fat_outcome" where
  "fat16_count_free_loop S cluster end_cluster count s =
     (if cluster < end_cluster
      then try_io (read_u16_le S s) (\<lambda>val s. fat16_count_free_loop S (cluster + 1) end_cluster (if val = 0 then count + 1 else count) s)
      else Some (Inr count, s))"
  by pat_completeness auto
termination
  by (relation "measure (\<lambda>(S, cluster, end_cluster, _). unat end_cluster - unat cluster)") (simp_all add: while_measure)

definition fat16_count_free :: "('s, 'e) fat_stream \<Rightarrow> u32 \<Rightarrow> 's \<Rightarrow> ('e, u32, 's) fat_outcome" where
  "fat16_count_free S end_cluster s =
     try_io (sk S (SeekStart (ucast (RESERVED_FAT_ENTRIES * 2))) s) (\<lambda>_ s. fat16_count_free_loop S RESERVED_FAT_ENTRIES end_cluster 0 s)"

subsection \<open>Entries of 32 bits\<close>

definition fat32_get_raw :: "('s, 'e) fat_stream \<Rightarrow> u32 \<Rightarrow> 's \<Rightarrow> ('e, u32, 's) fat_outcome" where
  "fat32_get_raw S cluster s = try_io (sk S (SeekStart (ucast (cluster * 4))) s) (\<lambda>_ s. read_u32_le S s)"

definition fat32_special :: "u32 \<Rightarrow> bool" where
  "fat32_special cluster \<longleftrightarrow> 0x0FFFFFF7 \<le> cluster \<and> cluster \<le> 0x0FFFFFFF"

definition fat32_decode :: "u32 \<Rightarrow> u32 \<Rightarrow> fat_value" where
  "fat32_decode cluster val =
     (if val = 0 \<and> fat32_special cluster then FatBad
      else if val = 0 then FatFree
      else if val = 0x0FFFFFF7 then FatBad
      else if 0x0FFFFFF8 \<le> val \<and> val \<le> 0x0FFFFFFF then FatEndOfChain
      else if fat32_special cluster then FatBad
      else FatData val)"

definition fat32_get :: "('s, 'e) fat_stream \<Rightarrow> u32 \<Rightarrow> 's \<Rightarrow> ('e, fat_value, 's) fat_outcome" where
  "fat32_get S cluster s = try_io (fat32_get_raw S cluster s) (\<lambda>val s. Some (Inr (fat32_decode cluster (val AND 0x0FFFFFFF)), s))"

definition fat32_set_raw :: "('s, 'e) fat_stream \<Rightarrow> u32 \<Rightarrow> u32 \<Rightarrow> 's \<Rightarrow> ('e, unit, 's) fat_outcome" where
  "fat32_set_raw S cluster raw_value s = try_io (sk S (SeekStart (ucast (cluster * 4))) s) (\<lambda>_ s. write_u32_le S raw_value s)"

definition fat32_encode :: "fat_value \<Rightarrow> u32" where
  "fat32_encode value = (case value of FatFree \<Rightarrow> 0 | FatBad \<Rightarrow> 0x0FFFFFF7 | FatEndOfChain \<Rightarrow> 0x0FFFFFFF | FatData n \<Rightarrow> n)"

definition fat32_set :: "('s, 'e) fat_stream \<Rightarrow> u32 \<Rightarrow> fat_value \<Rightarrow> 's \<Rightarrow> ('e, unit, 's) fat_outcome" where
  "fat32_set S cluster value s =
     try_io (fat32_get_raw S cluster s) (\<lambda>val s.
       let old_reserved_bits = val AND 0xF0000000
       in if value = FatFree \<and> fat32_special cluster then None
          else fat32_set_raw S cluster (fat32_encode value OR old_reserved_bits) s)"

function fat32_find_free_loop :: "('s, 'e) fat_stream \<Rightarrow> u32 \<Rightarrow> u32 \<Rightarrow> 's \<Rightarrow> ('e, u32, 's) fat_outcome" where
  "fat32_find_free_loop S cluster end_cluster s =
     (if cluster < end_cluster
      then try_io (read_u32_le S s) (\<lambda>val s. if val AND 0x0FFFFFFF = 0 then Some (Inr cluster, s) else fat32_find_free_loop S (cluster + 1) end_cluster s)
      else Some (Inl Fat_NotEnoughSpace, s))"
  by pat_completeness auto
termination
  by (relation "measure (\<lambda>(S, cluster, end_cluster, s). unat end_cluster - unat cluster)") (simp_all add: while_measure)

definition fat32_find_free :: "('s, 'e) fat_stream \<Rightarrow> u32 \<Rightarrow> u32 \<Rightarrow> 's \<Rightarrow> ('e, u32, 's) fat_outcome" where
  "fat32_find_free S start_cluster end_cluster s =
     try_io (sk S (SeekStart (ucast (start_cluster * 4))) s) (\<lambda>_ s. fat32_find_free_loop S start_cluster end_cluster s)"

function fat32_count_free_loop :: "('s, 'e) fat_stream \<Rightarrow> u32 \<Rightarrow> u32 \<Rightarrow> u32 \<Rightarrow> 's \<Rightarrow> ('e, u32, 's) fat_outcome" where
  "fat32_count_free_loop S cluster end_cluster count s =
     (if cluster < end_cluster
      then try_io (read_u32_le S s) (\<lambda>val s. fat32_count_free_loop S (cluster + 1) end_cluster (if val AND 0x0FFFFFFF = 0 then count + 1 else count) s)
      else Some (Inr count, s))"
  by pat_completeness auto
termination
  by (relation "measure (\<lambda>(S, cluster, end_cluster, _). unat end_cluster - unat cluster)") (simp_all add: while_measure)

definition fat32_count_free :: "('s, 'e) fat_stream \<Rightarrow> u32 \<Rightarrow> 's \<Rightarrow> ('e, u32, 's) fat_outcome" where
  "fat32_count_free S end_cluster s =
     try_io (sk S (SeekStart (ucast (RESERVED_FAT_ENTRIES * 4))) s) (\<lambda>_ s. fat32_count_free_loop S RESERVED_FAT_ENTRIES end_cluster 0 s)"

declare fat12_find_free_loop.simps [simp del] fat16_find_free_loop.simps [simp del] fat32_find_free_loop.simps [simp del]
declare fat12_count_free_loop.simps [simp del] fat16_count_free_loop.simps [simp del] fat32_count_free_loop.simps [simp del]

subsection \<open>The table\<close>

definition read_fat :: "('s, 'e) fat_stream \<Rightarrow> fat_type \<Rightarrow> u32 \<Rightarrow> 's \<Rightarrow> ('e, fat_value, 's) fat_outcome" where
  "read_fat S t cluster s = (case t of Fat12 \<Rightarrow> fat12_get S cluster s | Fat16 \<Rightarrow> fat16_get S cluster s | Fat32 \<Rightarrow> fat32_get S cluster s)"

definition write_fat :: "('s, 'e) fat_stream \<Rightarrow> fat_type \<Rightarrow> u32 \<Rightarrow> fat_value \<Rightarrow> 's \<Rightarrow> ('e, unit, 's) fat_outcome" where
  "write_fat S t cluster value s =
     (case t of Fat12 \<Rightarrow> fat12_set S cluster value s | Fat16 \<Rightarrow> fat16_set S cluster value s | Fat32 \<Rightarrow> fat32_set S cluster value s)"

definition get_next_cluster :: "('s, 'e) fat_stream \<Rightarrow> fat_type \<Rightarrow> u32 \<Rightarrow> 's \<Rightarrow> ('e, u32 option, 's) fat_outcome" where
  "get_next_cluster S t cluster s =
     try_io (read_fat S t cluster s) (\<lambda>val s. Some (Inr (case val of FatData n \<Rightarrow> Some n | _ \<Rightarrow> None), s))"

definition find_free_cluster :: "('s, 'e) fat_stream \<Rightarrow> fat_type \<Rightarrow> u32 \<Rightarrow> u32 \<Rightarrow> 's \<Rightarrow> ('e, u32, 's) fat_outcome" where
  "find_free_cluster S t start_cluster end_cluster s =
     (case t of
        Fat12 \<Rightarrow> fat12_find_free S start_cluster end_cluster s
      | Fat16 \<Rightarrow> fat16_find_free S start_cluster end_cluster s
      | Fat32 \<Rightarrow> fat32_find_free S start_cluster end_cluster s)"

definition alloc_cluster ::
  "('s, 'e) fat_stream \<Rightarrow> fat_type \<Rightarrow> u32 option \<Rightarrow> u32 option \<Rightarrow> u32 \<Rightarrow> 's \<Rightarrow> ('e, u32, 's) fat_outcome" where
  "alloc_cluster S t prev_cluster hint total_clusters s =
     (let end_cluster = total_clusters + RESERVED_FAT_ENTRIES;
          start_cluster = (case hint of Some n \<Rightarrow> if n < end_cluster then n else RESERVED_FAT_ENTRIES | None \<Rightarrow> RESERVED_FAT_ENTRIES)
      in try_io
           (case find_free_cluster S t start_cluster end_cluster s of
              None \<Rightarrow> None
            | Some (Inr n, s) \<Rightarrow> Some (Inr n, s)
            | Some (Inl e, s) \<Rightarrow>
                (if start_cluster > RESERVED_FAT_ENTRIES then find_free_cluster S t RESERVED_FAT_ENTRIES start_cluster s else Some (Inl e, s)))
           (\<lambda>new_cluster s.
             try_io (write_fat S t new_cluster FatEndOfChain s) (\<lambda>_ s.
               try_io (case prev_cluster of Some n \<Rightarrow> write_fat S t n (FatData new_cluster) s | None \<Rightarrow> Some (Inr (), s)) (\<lambda>_ s.
                 Some (Inr new_cluster, s)))))"

definition read_fat_flags :: "('s, 'e) fat_stream \<Rightarrow> fat_type \<Rightarrow> 's \<Rightarrow> ('e, fs_status_flags, 's) fat_outcome" where
  "read_fat_flags S t s =
     try_io (case t of Fat12 \<Rightarrow> Some (Inr 0xFFF, s) | Fat16 \<Rightarrow> fat16_get_raw S 1 s | Fat32 \<Rightarrow> fat32_get_raw S 1 s) (\<lambda>val s.
       Some (Inr \<lparr>fsf_dirty = (case t of Fat12 \<Rightarrow> False | Fat16 \<Rightarrow> val AND push_bit 15 1 = 0 | Fat32 \<Rightarrow> val AND push_bit 27 1 = 0),
                  fsf_io_error = (case t of Fat12 \<Rightarrow> False | Fat16 \<Rightarrow> val AND push_bit 14 1 = 0 | Fat32 \<Rightarrow> val AND push_bit 26 1 = 0)\<rparr>, s))"

definition count_free_clusters :: "('s, 'e) fat_stream \<Rightarrow> fat_type \<Rightarrow> u32 \<Rightarrow> 's \<Rightarrow> ('e, u32, 's) fat_outcome" where
  "count_free_clusters S t total_clusters s =
     (let end_cluster = total_clusters + RESERVED_FAT_ENTRIES
      in case t of Fat12 \<Rightarrow> fat12_count_free S end_cluster s | Fat16 \<Rightarrow> fat16_count_free S end_cluster s | Fat32 \<Rightarrow> fat32_count_free S end_cluster s)"

fun mark_clusters :: "('s, 'e) fat_stream \<Rightarrow> fat_type \<Rightarrow> fat_value \<Rightarrow> nat list \<Rightarrow> 's \<Rightarrow> ('e, unit, 's) fat_outcome" where
  "mark_clusters S t value [] s = Some (Inr (), s)"
| "mark_clusters S t value (c # cs) s = try_io (write_fat S t (of_nat c) value s) (\<lambda>_ s. mark_clusters S t value cs s)"

definition format_fat :: "('s, 'e) fat_stream \<Rightarrow> fat_type \<Rightarrow> u8 \<Rightarrow> u64 \<Rightarrow> u32 \<Rightarrow> 's \<Rightarrow> ('e, unit, 's) fat_outcome" where
  "format_fat S t media bytes_per_fat total_clusters s =
     try_io
       (case t of
          Fat12 \<Rightarrow> try_io (write_u8 S media s) (\<lambda>_ s. write_u16_le S 0xFFFF s)
        | Fat16 \<Rightarrow> try_io (write_u16_le S (ucast media OR 0xFF00) s) (\<lambda>_ s. write_u16_le S 0xFFFF s)
        | Fat32 \<Rightarrow> try_io (write_u32_le S (ucast media OR 0xFFFFF00) s) (\<lambda>_ s. write_u32_le S 0xFFFFFFFF s))
       (\<lambda>_ s.
         let start_cluster = total_clusters + RESERVED_FAT_ENTRIES;
             end_cluster = ucast (bytes_per_fat * 8 div ucast (bits_per_fat_entry t)) :: u32
         in try_io (mark_clusters S t FatEndOfChain [unat start_cluster..<unat end_cluster] s) (\<lambda>_ s.
              if end_cluster > 0x0FFFFFF0
              then mark_clusters S t FatBad [0x0FFFFFF0..<unat (min (0x0FFFFFFF + 1) end_cluster)] s
              else Some (Inr (), s)))"

subsection \<open>Chains of clusters\<close>

record 's cluster_iterator =
  ci_fat :: 's
  ci_type :: fat_type
  ci_cluster :: "u32 option"
  ci_err :: bool

definition ci_new :: "'s \<Rightarrow> fat_type \<Rightarrow> u32 \<Rightarrow> 's cluster_iterator" where
  "ci_new fat t cluster = \<lparr>ci_fat = fat, ci_type = t, ci_cluster = Some cluster, ci_err = False\<rparr>"

text \<open>\<^verbatim>\<open>next\<close> returns an optional result.\<close>

definition ci_next :: "('s, 'e) fat_stream \<Rightarrow> 's cluster_iterator \<Rightarrow> (('e fat_error + u32) option \<times> 's cluster_iterator) option" where
  "ci_next S it =
     (if ci_err it then Some (None, it)
      else case ci_cluster it of
        None \<Rightarrow> Some (None, it)
      | Some current_cluster \<Rightarrow> do {
          (r, fat) \<leftarrow> get_next_cluster S (ci_type it) current_cluster (ci_fat it);
          Some (case r of
              Inl err \<Rightarrow> (Some (Inl err), it\<lparr>ci_fat := fat, ci_err := True\<rparr>)
            | Inr next_cluster \<Rightarrow> (map_option Inr next_cluster, it\<lparr>ci_fat := fat, ci_cluster := next_cluster\<rparr>))
        })"

partial_function (option) ci_free_loop :: "('s, 'e) fat_stream \<Rightarrow> u32 \<Rightarrow> 's cluster_iterator \<Rightarrow> ('e, u32, 's cluster_iterator) fat_outcome" where
  "ci_free_loop S num_free it =
     (case ci_cluster it of
        None \<Rightarrow> Some (Inr num_free, it)
      | Some n \<Rightarrow> do {
          (_, it) \<leftarrow> ci_next S it;
          (r, fat) \<leftarrow> write_fat S (ci_type it) n FatFree (ci_fat it);
          case r of
            Inl e \<Rightarrow> Some (Inl e, it\<lparr>ci_fat := fat\<rparr>)
          | Inr _ \<Rightarrow> ci_free_loop S (num_free + 1) (it\<lparr>ci_fat := fat\<rparr>)
        })"

definition ci_free :: "('s, 'e) fat_stream \<Rightarrow> 's cluster_iterator \<Rightarrow> ('e, u32, 's cluster_iterator) fat_outcome" where
  "ci_free S it = ci_free_loop S 0 it"

definition ci_truncate :: "('s, 'e) fat_stream \<Rightarrow> 's cluster_iterator \<Rightarrow> ('e, u32, 's cluster_iterator) fat_outcome" where
  "ci_truncate S it =
     (case ci_cluster it of
        None \<Rightarrow> Some (Inr 0, it)
      | Some n \<Rightarrow> do {
          (_, it) \<leftarrow> ci_next S it;
          (r, fat) \<leftarrow> write_fat S (ci_type it) n FatEndOfChain (ci_fat it);
          case r of Inl e \<Rightarrow> Some (Inl e, it\<lparr>ci_fat := fat\<rparr>) | Inr _ \<Rightarrow> ci_free S (it\<lparr>ci_fat := fat\<rparr>)
        })"

end
