(* ===== verification/Fat_Entries.thy ===== *)
theory Fat_Entries
  imports Fat_Table
begin

text \<open>
  The table as a map. Entry \<open>c\<close> is a run of bits of the image: bit \<open>i\<close> of the entry is bit \<open>stride t * c + i\<close> of the image. Reading an
  entry, writing one, looking for a free one and counting the free ones are the operations on the map \<open>fat_entry t xs\<close>.
\<close>

subsection \<open>Bits of the image\<close>

definition img_bit :: "byte list \<Rightarrow> nat \<Rightarrow> bool" where
  "img_bit xs k = bit (xs ! (k div 8)) (k mod 8)"

lemma bit_from_le_bytes:
  "bit (from_le_bytes bs :: 'w::len word) i \<longleftrightarrow> i < LENGTH('w) \<and> i div 8 < length bs \<and> bit (bs ! (i div 8)) (i mod 8)"
proof (induction bs arbitrary: i)
  case (Cons b bs)
  have step: "from_le_bytes (b # bs) = push_bit 8 (from_le_bytes bs) OR (ucast b :: 'w word)" by (simp add: from_le_bytes_def)
  show ?case
  proof (cases "i < 8")
    case True
    then show ?thesis unfolding step by (auto simp: bit_simps)
  next
    case False
    then obtain j where j: "i = j + 8" by (metis add.commute le_Suc_ex not_less)
    have "\<not> bit b i" using False by (auto dest: bit_imp_le_length)
    moreover have "(j + 8) div 8 = Suc (j div 8)" "(j + 8) mod 8 = j mod 8" by simp_all
    ultimately show ?thesis unfolding step using False by (auto simp: bit_simps Cons.IH j)
  qed
qed (simp add: from_le_bytes_def)

lemma length_to_le_bytes [simp]: "length (to_le_bytes n w) = n"
  by (simp add: to_le_bytes_def)

lemma bit_to_le_bytes: "j < n \<Longrightarrow> b < 8 \<Longrightarrow> bit (to_le_bytes n w ! j) b \<longleftrightarrow> bit w (8 * j + b)"
  by (simp add: to_le_bytes_def bit_simps)

lemma bit_word_at:
  assumes "p + n \<le> length xs" "LENGTH('w) = 8 * n"
  shows "bit (from_le_bytes (take n (drop p xs)) :: 'w::len word) i \<longleftrightarrow> i < 8 * n \<and> img_bit xs (8 * p + i)"
proof (cases "i < 8 * n")
  case True
  then have "i div 8 < n" by (simp add: less_mult_imp_div_less mult.commute)
  then show ?thesis using assms True by (auto simp: bit_from_le_bytes img_bit_def)
qed (use assms in \<open>auto simp: bit_from_le_bytes\<close>)

lemma img_bit_patch:
  assumes "p + n \<le> length xs" "k < 8 * length xs"
  shows "img_bit (patch p (to_le_bytes n w) xs) k = (if 8 * p \<le> k \<and> k < 8 * (p + n) then bit w (k - 8 * p) else img_bit xs k)"
proof -
  have l: "k div 8 < length xs" using assms(2) by (simp add: less_mult_imp_div_less mult.commute)
  have i: "p \<le> k div 8 \<and> k div 8 < p + n \<longleftrightarrow> 8 * p \<le> k \<and> k < 8 * (p + n)"
    by (simp add: less_eq_div_iff_mult_less_eq div_less_iff_less_mult mult.commute)
  show ?thesis
  proof (cases "8 * p \<le> k \<and> k < 8 * (p + n)")
    case True
    have "8 * (k div 8) + k mod 8 = k" by simp
    moreover have "8 * p \<le> 8 * (k div 8)" using True i by simp
    ultimately have "8 * (k div 8 - p) + k mod 8 = k - 8 * p" unfolding diff_mult_distrib2 by linarith
    then show ?thesis using True i l assms(1) by (auto simp: img_bit_def nth_patch bit_to_le_bytes)
  next
    case False
    then show ?thesis using i l assms(1) by (auto simp: img_bit_def nth_patch)
  qed
qed

subsection \<open>Entries as bits\<close>

definition stride :: "fat_type \<Rightarrow> nat" where
  "stride t = (case t of Fat12 \<Rightarrow> 12 | Fat16 \<Rightarrow> 16 | Fat32 \<Rightarrow> 32)"

definition width :: "fat_type \<Rightarrow> nat" where
  "width t = (case t of Fat12 \<Rightarrow> 12 | Fat16 \<Rightarrow> 16 | Fat32 \<Rightarrow> 28)"

definition fat_val :: "fat_type \<Rightarrow> byte list \<Rightarrow> u32 \<Rightarrow> u32" where
  "fat_val t xs c =
     (case t of
        Fat12 \<Rightarrow> ucast (fat12_unpack c (from_le_bytes (take 2 (drop (unat c + unat c div 2) xs))))
      | Fat16 \<Rightarrow> ucast (from_le_bytes (take 2 (drop (2 * unat c) xs)) :: u16)
      | Fat32 \<Rightarrow> from_le_bytes (take 4 (drop (4 * unat c) xs)) AND 0x0FFFFFFF)"

definition fat_decode :: "fat_type \<Rightarrow> u32 \<Rightarrow> u32 \<Rightarrow> fat_value" where
  "fat_decode t c val = (case t of Fat12 \<Rightarrow> fat12_decode val | Fat16 \<Rightarrow> fat16_decode val | Fat32 \<Rightarrow> fat32_decode c val)"

definition fat_encode :: "fat_type \<Rightarrow> fat_value \<Rightarrow> u32" where
  "fat_encode t v = (case t of Fat12 \<Rightarrow> fat12_encode v | Fat16 \<Rightarrow> fat16_encode v | Fat32 \<Rightarrow> fat32_encode v)"

definition fat_entry :: "fat_type \<Rightarrow> byte list \<Rightarrow> u32 \<Rightarrow> fat_value" where
  "fat_entry t xs c = fat_decode t c (fat_val t xs c)"

text \<open>The clusters whose entry lies in an image, and the values an entry can hold.\<close>

definition fat_fits :: "fat_type \<Rightarrow> byte list \<Rightarrow> u32 \<Rightarrow> bool" where
  "fat_fits t xs c \<longleftrightarrow> stride t * unat c + stride t \<le> 8 * length xs \<and> c < 0x0FFFFFF7"

definition fat_storable :: "fat_type \<Rightarrow> fat_value \<Rightarrow> bool" where
  "fat_storable t v =
     (case v of FatData n \<Rightarrow> n \<noteq> 0 \<and> n < (case t of Fat12 \<Rightarrow> 0xFF7 | Fat16 \<Rightarrow> 0xFFF7 | Fat32 \<Rightarrow> 0x0FFFFFF7) | _ \<Rightarrow> True)"

lemma and_1_parity: "c AND 1 = 0 \<longleftrightarrow> even (unat c)" for c :: u32
proof -
  have "odd c \<longleftrightarrow> odd (unat c)" by (metis bit_0 bit_unsigned_iff possible_bit_nat)
  then show ?thesis by (auto simp: and_one_eq mod_2_eq_odd)
qed

lemma stride_simps [simp]: "stride Fat12 = 12" "stride Fat16 = 16" "stride Fat32 = 32" "width Fat12 = 12" "width Fat16 = 16" "width Fat32 = 28"
  by (simp_all add: stride_def width_def)

text \<open>The first byte of an entry.\<close>

definition fat_byte :: "fat_type \<Rightarrow> u32 \<Rightarrow> nat" where
  "fat_byte t c = (case t of Fat12 \<Rightarrow> unat c + unat c div 2 | Fat16 \<Rightarrow> 2 * unat c | Fat32 \<Rightarrow> 4 * unat c)"

lemma triple_half: "8 * (n + n div 2) = (if odd n then 12 * n - 4 else 12 * n)" for n :: nat
  by (cases "even n") (auto elim!: evenE oddE)

lemma fat_byte_bits:
  "8 * fat_byte t c = (if t = Fat12 \<and> odd (unat c) then stride t * unat c - 4 else stride t * unat c)"
  using triple_half [of "unat c"] by (cases t) (simp_all add: fat_byte_def)

lemma fat_byte_fits:
  assumes "fat_fits t xs c"
  shows "fat_byte t c + (if t = Fat32 then 4 else 2) \<le> length xs"
proof (cases t)
  case Fat12
  obtain k where k: "unat c = 2 * k \<or> unat c = 2 * k + 1" by (metis evenE oddE)
  then have "12 * unat c + 12 \<le> 8 * length xs \<Longrightarrow> unat c + unat c div 2 + 2 \<le> length xs" by (elim disjE) simp_all
  then show ?thesis using assms Fat12 by (simp add: fat_fits_def fat_byte_def)
qed (use assms in \<open>simp_all add: fat_fits_def fat_byte_def\<close>)

lemma unat_u32_u64: "unat (ucast (x :: u32) :: u64) = unat x"
  using unsigned_less [of x, where 'a = nat] by (simp add: unsigned_ucast_eq take_bit_nat_eq_self)

lemma fits_small: "fat_fits t xs c \<Longrightarrow> unat c < 0x0FFFFFF7"
  by (simp add: fat_fits_def word_less_nat_alt)

lemma fat_seek:
  assumes "fat_fits t xs c"
  shows "unat (ucast (case t of Fat12 \<Rightarrow> c + c div 2 | Fat16 \<Rightarrow> c * 2 | Fat32 \<Rightarrow> c * 4) :: u64) = fat_byte t c"
proof (cases t)
  case Fat12
  have "unat (c div 2) = unat c div 2" by (simp add: unat_div)
  moreover have "unat c + unat c div 2 < 2 ^ 32" using fits_small [OF assms] by simp
  ultimately have "unat (c + c div 2) = unat c + unat c div 2" by (subst unat_add_small) simp_all
  then show ?thesis using Fat12 by (simp add: fat_byte_def unat_u32_u64)
qed (use fits_small [OF assms] in \<open>simp_all add: fat_byte_def unat_u32_u64 unat_word_ariths\<close>)

lemma masks:
  "(0x0FFF :: u16) = mask 12" "(0xF000 :: u16) = NOT (mask 12)" "(0x000F :: u16) = mask 4" "(0x0FFFFFFF :: u32) = mask 28" "(0xF0000000 :: u32) = NOT (mask 28)"
  by (simp_all add: mask_eq_exp_minus_1)

lemma bit_fat_val:
  assumes "fat_fits t xs c"
  shows "bit (fat_val t xs c) i \<longleftrightarrow> i < width t \<and> img_bit xs (stride t * unat c + i)"
proof (cases t)
  case Fat12
  let ?p = "from_le_bytes (take 2 (drop (fat_byte t c) xs)) :: u16"
  have p: "bit ?p k \<longleftrightarrow> k < 16 \<and> img_bit xs (8 * fat_byte t c + k)" for k
    using bit_word_at [of "fat_byte t c" 2 xs k, where 'w = 16] fat_byte_fits [OF assms] Fat12 by simp
  have v: "fat_val t xs c = ucast (fat12_unpack c ?p)" using Fat12 by (simp add: fat_val_def fat_byte_def)
  show ?thesis
  proof (cases "even (unat c)")
    case True
    then show ?thesis using Fat12 p [of i] fat_byte_bits [of t c] unfolding v fat12_unpack_def by (auto simp: and_1_parity masks bit_simps)
  next
    case False
    have "4 \<le> 12 * unat c" using False by (cases "unat c") auto
    then have e: "8 * fat_byte t c + (4 + i) = 12 * unat c + i" using fat_byte_bits [of t c] Fat12 False by simp
    have "bit ?p (4 + i) \<longleftrightarrow> 4 + i < 16 \<and> img_bit xs (12 * unat c + i)" using p [of "4 + i"] unfolding e .
    then show ?thesis using Fat12 False unfolding v fat12_unpack_def by (auto simp: and_1_parity bit_simps)
  qed
next
  case Fat16
  then show ?thesis using bit_word_at [of "fat_byte t c" 2 xs i, where 'w = 16] fat_byte_fits [OF assms] fat_byte_bits [of t c]
    by (auto simp: fat_val_def fat_byte_def bit_simps)
next
  case Fat32
  then show ?thesis using bit_word_at [of "fat_byte t c" 4 xs i, where 'w = 32] fat_byte_fits [OF assms] fat_byte_bits [of t c]
    by (auto simp: fat_val_def fat_byte_def bit_simps masks)
qed

text \<open>An entry depends on its bits only, and decoding inverts encoding.\<close>

lemma fat_entry_cong:
  assumes "fat_fits t xs c" "fat_fits t ys c" "\<And>i. i < width t \<Longrightarrow> img_bit xs (stride t * unat c + i) = img_bit ys (stride t * unat c + i)"
  shows "fat_val t xs c = fat_val t ys c" "fat_entry t xs c = fat_entry t ys c"
proof -
  show "fat_val t xs c = fat_val t ys c" by (rule bit_word_eqI) (use assms in \<open>auto simp: bit_fat_val\<close>)
  then show "fat_entry t xs c = fat_entry t ys c" by (simp add: fat_entry_def)
qed

lemma encode_width:
  assumes "fat_storable t v" "bit (fat_encode t v) i"
  shows "i < width t"
proof -
  have "unat (fat_encode t v) < 2 ^ width t" using assms(1)
    by (cases t; cases v) (auto simp: fat_storable_def fat_encode_def fat12_encode_def fat16_encode_def fat32_encode_def word_less_nat_alt)
  then have "take_bit (width t) (fat_encode t v) = fat_encode t v" by (simp add: word_unat_eq_iff unsigned_take_bit_eq take_bit_nat_eq_self)
  then show ?thesis using assms(2) by (metis bit_take_bit_iff)
qed

lemma decode_encode: "fat_storable t v \<Longrightarrow> c < 0x0FFFFFF7 \<Longrightarrow> fat_decode t c (fat_encode t v) = v"
  by (cases t; cases v)
    (auto simp: fat_storable_def fat_decode_def fat_encode_def fat12_decode_def fat12_encode_def fat16_decode_def fat16_encode_def fat32_decode_def fat32_encode_def
      fat32_special_def word_less_nat_alt word_le_nat_alt)


subsection \<open>Reading and writing an entry\<close>

text \<open>The image after an entry is written: only the bits of the entry change.\<close>

definition entry_set :: "fat_type \<Rightarrow> u32 \<Rightarrow> fat_value \<Rightarrow> byte list \<Rightarrow> byte list \<Rightarrow> bool" where
  "entry_set t c v xs ys \<longleftrightarrow> length ys = length xs \<and>
     (\<forall>k < 8 * length xs. img_bit ys k =
        (if stride t * unat c \<le> k \<and> k < stride t * unat c + width t then bit (fat_encode t v) (k - stride t * unat c) else img_bit xs k))"

lemma entry_set_map:
  assumes "entry_set t c v xs ys" "fat_fits t xs c" "fat_storable t v" "fat_fits t xs d"
  shows "fat_fits t ys d \<and> fat_entry t ys d = (if d = c then v else fat_entry t xs d)"
proof -
  have l: "length ys = length xs" using assms(1) by (simp add: entry_set_def)
  then have f: "fat_fits t ys d" using assms(4) by (simp add: fat_fits_def)
  have w: "width t \<le> stride t" by (cases t) simp_all
  have k: "stride t * unat d + i < 8 * length xs" if "i < width t" for i using assms(4) w that by (simp add: fat_fits_def)
  show ?thesis
  proof (cases "d = c")
    case True
    have "fat_val t ys c = fat_encode t v"
      by (rule bit_word_eqI) (use True assms(1) f k encode_width [OF assms(3)] in \<open>auto simp: bit_fat_val entry_set_def\<close>)
    then show ?thesis using True f decode_encode [OF assms(3), of c] assms(2) by (simp add: fat_entry_def fat_fits_def)
  next
    case False
    then have "unat d + 1 \<le> unat c \<or> unat c + 1 \<le> unat d" by (metis Suc_eq_plus1 Suc_leI linorder_cases word_unat_eq_iff)
    then have ap: "stride t * unat d + stride t \<le> stride t * unat c \<or> stride t * unat c + stride t \<le> stride t * unat d"
      by (metis mult_le_mono2 distrib_left mult.right_neutral)
    have "img_bit ys (stride t * unat d + i) = img_bit xs (stride t * unat d + i)" if "i < width t" for i
      using assms(1) k [OF that] ap that w by (auto simp: entry_set_def)
    then show ?thesis using False f fat_entry_cong(2) [OF f assms(4)] by auto
  qed
qed

lemma patch_entry16:
  fixes old n :: u16
  assumes "fat_fits t xs c" "fat_storable t v" "t \<noteq> Fat32"
    "n = (if t = Fat16 then ucast (fat_encode t v)
          else if even (unat c) then (old AND 0xF000) OR ucast (fat_encode t v) else (old AND 0x000F) OR push_bit 4 (ucast (fat_encode t v)))"
    "old = from_le_bytes (take 2 (drop (fat_byte t c) xs))"
  shows "entry_set t c v xs (patch (fat_byte t c) (to_le_bytes 2 n) xs)"
proof -
  let ?p = "fat_byte t c" and ?o = "stride t * unat c"
  have p: "?p + 2 \<le> length xs" using fat_byte_fits [OF assms(1)] assms(3) by simp
  have o: "bit old i \<longleftrightarrow> i < 16 \<and> img_bit xs (8 * ?p + i)" for i
    using bit_word_at [of ?p 2 xs i, where 'w = 16] p assms(5) by simp
  note e = encode_width [OF assms(2)]
  have n: "bit n i = (if ?o \<le> 8 * ?p + i \<and> 8 * ?p + i < ?o + width t then bit (fat_encode t v) (8 * ?p + i - ?o) else img_bit xs (8 * ?p + i))" if "i < 16" for i
  proof (cases "t = Fat12 \<and> odd (unat c)")
    case True
    have "4 \<le> 12 * unat c" using True by (cases "unat c") auto
    then have b: "?o = 8 * ?p + 4" using True fat_byte_bits [of t c] by simp
    show ?thesis using True that e [of "i - 4"] unfolding assms(4) b by (auto simp: masks bit_simps o)
  next
    case False
    then have b: "?o = 8 * ?p" using fat_byte_bits [of t c] by auto
    show ?thesis using False that e [of i] assms(3) unfolding assms(4) b by (cases t) (auto simp: masks bit_simps o)
  qed
  have r: "?o + width t \<le> 8 * (?p + 2)" "8 * ?p \<le> ?o" using fat_byte_bits [of t c] assms(3) by (cases t; auto)+
  show ?thesis unfolding entry_set_def
  proof (intro conjI allI impI)
    fix k assume k: "k < 8 * length xs"
    show "img_bit (patch ?p (to_le_bytes 2 n) xs) k = (if ?o \<le> k \<and> k < ?o + width t then bit (fat_encode t v) (k - ?o) else img_bit xs k)"
    proof (cases "8 * ?p \<le> k \<and> k < 8 * (?p + 2)")
      case True
      then obtain i where i: "k = 8 * ?p + i" "i < 16" by (auto simp: le_iff_add)
      show ?thesis using img_bit_patch [OF p k, of n] True n [OF i(2)] i(1) by simp
    qed (use img_bit_patch [OF p k, of n] r in auto)
  qed (use p in simp)
qed

lemma patch_entry32:
  fixes n :: u32
  assumes "fat_fits Fat32 xs c" "fat_storable Fat32 v" "n = fat_encode Fat32 v OR (from_le_bytes (take 4 (drop (fat_byte Fat32 c) xs)) AND 0xF0000000)"
  shows "entry_set Fat32 c v xs (patch (fat_byte Fat32 c) (to_le_bytes 4 n) xs)"
proof -
  let ?p = "fat_byte Fat32 c"
  have p: "?p + 4 \<le> length xs" using fat_byte_fits [OF assms(1)] by simp
  have b: "32 * unat c = 8 * ?p" using fat_byte_bits [of Fat32 c] by simp
  have o: "bit (from_le_bytes (take 4 (drop ?p xs)) :: u32) i \<longleftrightarrow> i < 32 \<and> img_bit xs (8 * ?p + i)" for i
    using bit_word_at [of ?p 4 xs i, where 'w = 32] p by simp
  have n: "bit n i = (if i < 28 then bit (fat_encode Fat32 v) i else img_bit xs (8 * ?p + i))" if "i < 32" for i
    using that encode_width [OF assms(2), of i] unfolding assms(3) by (auto simp: masks bit_simps o)
  show ?thesis unfolding entry_set_def stride_simps b
  proof (intro conjI allI impI)
    fix k assume k: "k < 8 * length xs"
    show "img_bit (patch ?p (to_le_bytes 4 n) xs) k = (if 8 * ?p \<le> k \<and> k < 8 * ?p + 28 then bit (fat_encode Fat32 v) (k - 8 * ?p) else img_bit xs k)"
    proof (cases "8 * ?p \<le> k \<and> k < 8 * (?p + 4)")
      case True
      then obtain i where i: "k = 8 * ?p + i" "i < 32" by (auto simp: le_iff_add)
      show ?thesis using img_bit_patch [OF p k, of n] True n [OF i(2)] i(1) by simp
    qed (use img_bit_patch [OF p k, of n] in auto)
  qed (use p in simp)
qed

locale fat_storage = storage S ivr img cur "{}" True
  for S :: "('s, 'e fat_error) stream" and ivr :: "'s \<Rightarrow> bool" and img :: "'s \<Rightarrow> byte list" and cur :: "'s \<Rightarrow> nat option"
begin

lemma read_u8_ok:
  assumes "ivr s" "cur s = Some p" "p + 1 \<le> length (img s)"
  shows "\<exists>s'. read_u8 S s = Some (Inr (img s ! p), s') \<and> ivr s' \<and> img s' = img s \<and> cur s' = Some (p + 1)"
  using read_exact_ok [OF assms] assms(3) by (auto simp: read_u8_def take_Suc_conv_app_nth hd_drop_conv_nth)

lemma read_u16_ok:
  assumes "ivr s" "cur s = Some p" "p + 2 \<le> length (img s)"
  shows "\<exists>s'. read_u16_le S s = Some (Inr (from_le_bytes (take 2 (drop p (img s)))), s') \<and> ivr s' \<and> img s' = img s \<and> cur s' = Some (p + 2)"
  using read_exact_ok [OF assms] by (auto simp: read_u16_le_def)

lemma read_u32_ok:
  assumes "ivr s" "cur s = Some p" "p + 4 \<le> length (img s)"
  shows "\<exists>s'. read_u32_le S s = Some (Inr (from_le_bytes (take 4 (drop p (img s)))), s') \<and> ivr s' \<and> img s' = img s \<and> cur s' = Some (p + 4)"
  using read_exact_ok [OF assms] by (auto simp: read_u32_le_def)

text \<open>Seeking to an entry.\<close>

lemma seek_entry:
  assumes "ivr s" "fat_fits t (img s) c"
  shows "\<exists>s'. sk S (SeekStart (ucast (case t of Fat12 \<Rightarrow> c + c div 2 | Fat16 \<Rightarrow> c * 2 | Fat32 \<Rightarrow> c * 4))) s =
      Some (Inr (ucast (case t of Fat12 \<Rightarrow> c + c div 2 | Fat16 \<Rightarrow> c * 2 | Fat32 \<Rightarrow> c * 4)), s') \<and> ivr s' \<and> img s' = img s \<and> cur s' = Some (fat_byte t c)"
  using seek_start [OF assms(1), of "ucast (case t of Fat12 \<Rightarrow> c + c div 2 | Fat16 \<Rightarrow> c * 2 | Fat32 \<Rightarrow> c * 4)"] fat_seek [OF assms(2)] fat_byte_fits [OF assms(2)]
  by (auto split: if_splits)

lemma read_fat_ok:
  assumes "ivr s" "fat_fits t (img s) c"
  shows "\<exists>s'. read_fat S t c s = Some (Inr (fat_entry t (img s) c), s') \<and> ivr s' \<and> img s' = img s"
proof -
  obtain s1 where s1: "sk S (SeekStart (ucast (case t of Fat12 \<Rightarrow> c + c div 2 | Fat16 \<Rightarrow> c * 2 | Fat32 \<Rightarrow> c * 4))) s =
      Some (Inr (ucast (case t of Fat12 \<Rightarrow> c + c div 2 | Fat16 \<Rightarrow> c * 2 | Fat32 \<Rightarrow> c * 4)), s1)" "ivr s1" "img s1 = img s" "cur s1 = Some (fat_byte t c)"
    using seek_entry [OF assms] by blast
  note fit = fat_byte_fits [OF assms(2), folded s1(3)]
  show ?thesis
  proof (cases t)
    case Fat12
    then show ?thesis using s1 read_u16_ok [OF s1(2,4)] fit
      by (auto simp: read_fat_def fat12_get_def fat12_get_raw_def fat12_offset_def fat_entry_def fat_decode_def fat_val_def fat_byte_def)
  next
    case Fat16
    then show ?thesis using s1 read_u16_ok [OF s1(2,4)] fit
      by (auto simp: read_fat_def fat16_get_def fat16_get_raw_def fat_entry_def fat_decode_def fat_val_def fat_byte_def)
  next
    case Fat32
    then show ?thesis using s1 read_u32_ok [OF s1(2,4)] fit
      by (auto simp: read_fat_def fat32_get_def fat32_get_raw_def fat_entry_def fat_decode_def fat_val_def fat_byte_def)
  qed
qed

lemma write_fat_ok:
  assumes "ivr s" "fat_fits t (img s) c" "fat_storable t v"
  shows "\<exists>s'. write_fat S t c v s = Some (Inr (), s') \<and> ivr s' \<and> entry_set t c v (img s) (img s')"
proof -
  let ?q = "SeekStart (ucast (case t of Fat12 \<Rightarrow> c + c div 2 | Fat16 \<Rightarrow> c * 2 | Fat32 \<Rightarrow> c * 4))" and ?p = "fat_byte t c"
  have sk: "\<exists>s1. sk S ?q s0 = Some (Inr (ucast (case t of Fat12 \<Rightarrow> c + c div 2 | Fat16 \<Rightarrow> c * 2 | Fat32 \<Rightarrow> c * 4)), s1) \<and> ivr s1 \<and> img s1 = img s \<and> cur s1 = Some ?p"
    if "ivr s0" "img s0 = img s" for s0 using seek_entry [of s0 t c] that assms(2) by simp
  have wr: "\<exists>s1. write_all S bs s0 = Some (Inr (), s1) \<and> ivr s1 \<and> img s1 = patch ?p bs (img s)"
    if "ivr s0" "img s0 = img s" "cur s0 = Some ?p" "length bs = (if t = Fat32 then 4 else 2)" for s0 bs
    using write_all_ok [OF that(1,3), of bs] that(2,4) fat_byte_fits [OF assms(2)] by auto
  obtain s1 where s1: "sk S ?q s = Some (Inr (ucast (case t of Fat12 \<Rightarrow> c + c div 2 | Fat16 \<Rightarrow> c * 2 | Fat32 \<Rightarrow> c * 4)), s1)" "ivr s1" "img s1 = img s" "cur s1 = Some ?p"
    using sk [OF assms(1) refl] by blast
  note fit = fat_byte_fits [OF assms(2), folded s1(3)]
  show ?thesis
  proof (cases t)
    case Fat12
    obtain s2 where s2: "read_u16_le S s1 = Some (Inr (from_le_bytes (take 2 (drop ?p (img s)))), s2)" "ivr s2" "img s2 = img s"
      using read_u16_ok [OF s1(2,4)] fit s1(3) Fat12 by auto
    obtain s3 where s3: "sk S ?q s2 = Some (Inr (ucast (case t of Fat12 \<Rightarrow> c + c div 2 | Fat16 \<Rightarrow> c * 2 | Fat32 \<Rightarrow> c * 4)), s3)" "ivr s3" "img s3 = img s" "cur s3 = Some ?p"
      using sk [OF s2(2,3)] by blast
    define n :: u16 where "n = (if even (unat c) then (from_le_bytes (take 2 (drop ?p (img s))) AND 0xF000) OR ucast (fat_encode t v)
      else (from_le_bytes (take 2 (drop ?p (img s))) AND 0x000F) OR push_bit 4 (ucast (fat_encode t v)))"
    obtain s4 where s4: "write_all S (to_le_bytes 2 n) s3 = Some (Inr (), s4)" "ivr s4" "img s4 = patch ?p (to_le_bytes 2 n) (img s)"
      using wr [OF s3(2,3,4), of "to_le_bytes 2 n"] Fat12 by auto
    have "write_fat S t c v s = Some (Inr (), s4)"
      using Fat12 s1(1) s2(1) s3(1) s4(1) n_def
      by (cases "even (unat c)") (simp_all add: write_fat_def fat12_set_def fat12_set_raw_def fat12_offset_def write_u16_le_def fat_encode_def and_1_parity)
    moreover have "entry_set t c v (img s) (img s4)" unfolding s4(3)
      by (rule patch_entry16 [OF assms(2,3) _ _ refl]) (simp_all add: Fat12 n_def)
    ultimately show ?thesis using s4(2) by blast
  next
    case Fat16
    define n :: u16 where "n = ucast (fat_encode t v)"
    obtain s4 where s4: "write_all S (to_le_bytes 2 n) s1 = Some (Inr (), s4)" "ivr s4" "img s4 = patch ?p (to_le_bytes 2 n) (img s)"
      using wr [OF s1(2,3,4), of "to_le_bytes 2 n"] Fat16 by auto
    have "write_fat S t c v s = Some (Inr (), s4)"
      using Fat16 s1(1) s4(1) by (simp add: write_fat_def fat16_set_def fat16_set_raw_def write_u16_le_def n_def fat_encode_def)
    moreover have "entry_set t c v (img s) (img s4)" unfolding s4(3)
      by (rule patch_entry16 [OF assms(2,3) _ _ refl]) (simp_all add: Fat16 n_def)
    ultimately show ?thesis using s4(2) by blast
  next
    case Fat32
    obtain s2 where s2: "read_u32_le S s1 = Some (Inr (from_le_bytes (take 4 (drop ?p (img s)))), s2)" "ivr s2" "img s2 = img s"
      using read_u32_ok [OF s1(2,4)] fit s1(3) Fat32 by auto
    obtain s3 where s3: "sk S ?q s2 = Some (Inr (ucast (case t of Fat12 \<Rightarrow> c + c div 2 | Fat16 \<Rightarrow> c * 2 | Fat32 \<Rightarrow> c * 4)), s3)" "ivr s3" "img s3 = img s" "cur s3 = Some ?p"
      using sk [OF s2(2,3)] by blast
    define n :: u32 where "n = fat_encode t v OR (from_le_bytes (take 4 (drop ?p (img s))) AND 0xF0000000)"
    obtain s4 where s4: "write_all S (to_le_bytes 4 n) s3 = Some (Inr (), s4)" "ivr s4" "img s4 = patch ?p (to_le_bytes 4 n) (img s)"
      using wr [OF s3(2,3,4), of "to_le_bytes 4 n"] Fat32 by auto
    have "\<not> fat32_special c" using assms(2) by (auto simp: fat_fits_def fat32_special_def)
    then have "write_fat S t c v s = Some (Inr (), s4)"
      using Fat32 s1(1) s2(1) s3(1) s4(1)
      by (simp add: write_fat_def fat32_set_def fat32_get_raw_def fat32_set_raw_def write_u32_le_def n_def fat_encode_def)
    moreover have "entry_set Fat32 c v (img s) (img s4)" unfolding s4(3) Fat32
      by (rule patch_entry32) (use assms(2,3) Fat32 in \<open>simp_all add: n_def\<close>)
    ultimately show ?thesis using s4(2) Fat32 by blast
  qed
qed

end

text \<open>The result of a search for a free entry among \<open>c, \<dots>, e - 1\<close>.\<close>

definition first_free :: "fat_type \<Rightarrow> byte list \<Rightarrow> u32 \<Rightarrow> u32 \<Rightarrow> 'e fat_error + u32 \<Rightarrow> bool" where
  "first_free t xs c e r =
     (case r of
        Inr d \<Rightarrow> c \<le> d \<and> d < e \<and> fat_entry t xs d = FatFree \<and> (\<forall>x. c \<le> x \<and> x < d \<longrightarrow> fat_entry t xs x \<noteq> FatFree)
      | Inl err \<Rightarrow> err = Fat_NotEnoughSpace \<and> (\<forall>x. c \<le> x \<and> x < e \<longrightarrow> fat_entry t xs x \<noteq> FatFree))"

lemma entry_free: "fat_fits t xs c \<Longrightarrow> fat_entry t xs c = FatFree \<longleftrightarrow> fat_val t xs c = 0"
  by (cases t) (auto simp: fat_entry_def fat_decode_def fat12_decode_def fat16_decode_def fat32_decode_def fat32_special_def fat_fits_def)

lemma u16_zero: "(ucast x :: u32) = 0 \<longleftrightarrow> x = 0" for x :: u16
proof -
  have "unat (ucast x :: u32) = unat x" using unsigned_less [of x, where 'a = nat] by (simp add: unsigned_ucast_eq take_bit_nat_eq_self)
  then show ?thesis by (metis unat_eq_zero)
qed

lemma first_free_here: "c < e \<Longrightarrow> fat_entry t xs c = FatFree \<Longrightarrow> first_free t xs c e (Inr c)"
  by (auto simp: first_free_def)

lemma first_free_step:
  assumes "c < e" "fat_entry t xs c \<noteq> FatFree" "first_free t xs (c + 1) e r"
  shows "first_free t xs c e r"
proof -
  have s: "c + 1 \<le> x \<longleftrightarrow> c < x" for x using unat_step [OF assms(1)] by (simp add: word_le_nat_alt word_less_nat_alt Suc_le_eq)
  have "fat_entry t xs x \<noteq> FatFree" if "c \<le> x" "\<not> c + 1 \<le> x" for x using that assms(2) s by (metis order_le_less)
  then show ?thesis using assms(3) s by (fastforce simp: first_free_def split: sum.splits)
qed

lemma fat_byte_step:
  assumes "c < e"
  shows "fat_byte Fat16 (c + 1) = fat_byte Fat16 c + 2" "fat_byte Fat32 (c + 1) = fat_byte Fat32 c + 4"
    "fat_byte Fat12 (c + 1) = fat_byte Fat12 c + (if even (unat c) then 1 else 2)"
  using unat_step [OF assms] by (auto simp: fat_byte_def)

context fat_storage
begin

lemma fat16_find_free_loop_ok:
  assumes "ivr s" "cur s = Some (fat_byte Fat16 c)" "\<And>x. c \<le> x \<Longrightarrow> x < e \<Longrightarrow> fat_fits Fat16 (img s) x"
  shows "\<exists>r s'. fat16_find_free_loop S c e s = Some (r, s') \<and> first_free Fat16 (img s) c e r \<and> ivr s' \<and> img s' = img s"
  using assms
proof (induction "unat e - unat c" arbitrary: c s rule: less_induct)
  case less
  show ?case
  proof (cases "c < e")
    case True
    have fit: "fat_fits Fat16 (img s) c" using less.prems(3) True by simp
    obtain s1 where s1: "read_u16_le S s = Some (Inr (from_le_bytes (take 2 (drop (fat_byte Fat16 c) (img s)))), s1)" "ivr s1" "img s1 = img s"
      "cur s1 = Some (fat_byte Fat16 (c + 1))" using read_u16_ok [OF less.prems(1,2)] fat_byte_fits [OF fit] fat_byte_step [OF True] by auto
    let ?v = "from_le_bytes (take 2 (drop (fat_byte Fat16 c) (img s))) :: u16"
    have v: "fat_entry Fat16 (img s) c = FatFree \<longleftrightarrow> ?v = 0" unfolding entry_free [OF fit] by (simp add: fat_val_def fat_byte_def u16_zero)
    show ?thesis
    proof (cases "?v = 0")
      case True
      then show ?thesis using s1 v \<open>c < e\<close> by (subst fat16_find_free_loop.simps) (simp add: first_free_here)
    next
      case False
      have "c + 1 \<le> x \<Longrightarrow> c \<le> x" for x using unat_step [OF True] by (simp add: word_le_nat_alt)
      then obtain r s2 where "fat16_find_free_loop S (c + 1) e s1 = Some (r, s2)" "first_free Fat16 (img s) (c + 1) e r" "ivr s2" "img s2 = img s"
        using less.hyps [OF while_measure [OF True] s1(2,4)] less.prems(3) s1(3) by auto
      then show ?thesis using s1(1) False v True by (subst fat16_find_free_loop.simps) (auto intro: first_free_step)
    qed
  next
    case False
    then show ?thesis using less.prems by (subst fat16_find_free_loop.simps) (auto simp: first_free_def)
  qed
qed

lemma fat32_find_free_loop_ok:
  assumes "ivr s" "cur s = Some (fat_byte Fat32 c)" "\<And>x. c \<le> x \<Longrightarrow> x < e \<Longrightarrow> fat_fits Fat32 (img s) x"
  shows "\<exists>r s'. fat32_find_free_loop S c e s = Some (r, s') \<and> first_free Fat32 (img s) c e r \<and> ivr s' \<and> img s' = img s"
  using assms
proof (induction "unat e - unat c" arbitrary: c s rule: less_induct)
  case less
  show ?case
  proof (cases "c < e")
    case True
    have fit: "fat_fits Fat32 (img s) c" using less.prems(3) True by simp
    let ?v = "from_le_bytes (take 4 (drop (fat_byte Fat32 c) (img s))) :: u32"
    obtain s1 where s1: "read_u32_le S s = Some (Inr ?v, s1)" "ivr s1" "img s1 = img s"
      "cur s1 = Some (fat_byte Fat32 (c + 1))" using read_u32_ok [OF less.prems(1,2)] fat_byte_fits [OF fit] fat_byte_step [OF True] by auto
    have v: "fat_entry Fat32 (img s) c = FatFree \<longleftrightarrow> ?v AND 0x0FFFFFFF = 0" unfolding entry_free [OF fit] by (simp add: fat_val_def fat_byte_def)
    show ?thesis
    proof (cases "?v AND 0x0FFFFFFF = 0")
      case True
      then show ?thesis using s1 v \<open>c < e\<close> by (subst fat32_find_free_loop.simps) (simp add: first_free_here)
    next
      case False
      have "c + 1 \<le> x \<Longrightarrow> c \<le> x" for x using unat_step [OF True] by (simp add: word_le_nat_alt)
      then obtain r s2 where "fat32_find_free_loop S (c + 1) e s1 = Some (r, s2)" "first_free Fat32 (img s) (c + 1) e r" "ivr s2" "img s2 = img s"
        using less.hyps [OF while_measure [OF True] s1(2,4)] less.prems(3) s1(3) by auto
      then show ?thesis using s1(1) False v True by (subst fat32_find_free_loop.simps) (auto intro: first_free_step)
    qed
  next
    case False
    then show ?thesis using less.prems by (subst fat32_find_free_loop.simps) (auto simp: first_free_def)
  qed
qed

text \<open>Entries of 12 bits: the next two bytes at a cluster are read whole or by one more byte.\<close>

lemma fat12_next_packed:
  assumes "ivr s" "cur s = Some (fat_byte Fat12 c + 2)" "c < e" "fat_fits Fat12 (img s) (c + 1)" "fat_fits Fat12 (img s) c"
    "packed = from_le_bytes (take 2 (drop (fat_byte Fat12 c) (img s)))"
  shows "\<exists>s'. (if (c + 1) AND 1 = 0 then read_u16_le S s
         else try_io (read_u8 S s) (\<lambda>next_byte s. Some (Inr (drop_bit 8 packed OR push_bit 8 (ucast next_byte)), s))) =
      Some (Inr (from_le_bytes (take 2 (drop (fat_byte Fat12 (c + 1)) (img s)))), s') \<and> ivr s' \<and> img s' = img s \<and> cur s' = Some (fat_byte Fat12 (c + 1) + 2)"
proof (cases "even (unat c)")
  case False
  then have "(c + 1) AND 1 = 0" "fat_byte Fat12 (c + 1) = fat_byte Fat12 c + 2" using unat_step [OF assms(3)] fat_byte_step(3) [OF assms(3)] by (simp_all add: and_1_parity)
  then show ?thesis using read_u16_ok [OF assms(1,2)] fat_byte_fits [OF assms(4)] by simp
next
  case True
  let ?b = "fat_byte Fat12 c"
  have e: "(c + 1) AND 1 \<noteq> 0" "fat_byte Fat12 (c + 1) = ?b + 1" using True unat_step [OF assms(3)] fat_byte_step(3) [OF assms(3)] by (simp_all add: and_1_parity)
  have l: "?b + 3 \<le> length (img s)" using fat_byte_fits [OF assms(4)] e(2) by simp
  obtain s1 where s1: "read_u8 S s = Some (Inr (img s ! (?b + 2)), s1)" "ivr s1" "img s1 = img s" "cur s1 = Some (?b + 3)"
    using read_u8_ok [OF assms(1,2)] l by (auto simp: add.commute)
  have two: "take 2 (drop k (img s)) = [img s ! k, img s ! (k + 1)]" if "k + 2 \<le> length (img s)" for k
    using that by (intro nth_equalityI) (auto simp: less_2_cases_iff)
  have "drop_bit 8 packed OR push_bit 8 (ucast (img s ! (?b + 2))) = (from_le_bytes (take 2 (drop (?b + 1) (img s))) :: u16)"
    unfolding assms(6) using l by (intro bit_word_eqI) (auto simp: two from_le_bytes_def bit_simps dest: bit_imp_le_length)
  then show ?thesis using e s1 by (simp add: numeral_3_eq_3)
qed

lemma fat12_find_free_loop_ok:
  assumes "ivr s" "cur s = Some (fat_byte Fat12 c + 2)" "\<And>x. c \<le> x \<Longrightarrow> x < e \<Longrightarrow> fat_fits Fat12 (img s) x" "c < e"
    "packed = from_le_bytes (take 2 (drop (fat_byte Fat12 c) (img s)))"
  shows "\<exists>r s'. fat12_find_free_loop S c e packed s = Some (r, s') \<and> first_free Fat12 (img s) c e r \<and> ivr s' \<and> img s' = img s"
  using assms
proof (induction "unat e - unat c" arbitrary: c s packed rule: less_induct)
  case less
  note c = less.prems(4)
  have fit: "fat_fits Fat12 (img s) c" using less.prems(3,4) by simp
  have v: "fat_entry Fat12 (img s) c = FatFree \<longleftrightarrow> fat12_unpack c packed = 0" unfolding entry_free [OF fit] less.prems(5) by (simp add: fat_val_def fat_byte_def u16_zero)
  consider "fat12_unpack c packed = 0" | "fat12_unpack c packed \<noteq> 0" "c + 1 = e" | "fat12_unpack c packed \<noteq> 0" "c + 1 \<noteq> e" by blast
  then show ?case
  proof cases
    case 1
    then show ?thesis using v c less.prems(1) by (subst fat12_find_free_loop.simps) (simp add: first_free_here)
  next
    case 2
    have "first_free Fat12 (img s) c e (Inl Fat_NotEnoughSpace)" by (rule first_free_step [OF c]) (use v 2 in \<open>auto simp: first_free_def\<close>)
    then show ?thesis using 2 less.prems(1) by (subst fat12_find_free_loop.simps) simp
  next
    case 3
    have le: "c + 1 < e" "\<And>x. c + 1 \<le> x \<Longrightarrow> c \<le> x" using unat_step [OF c] 3(2) c by (auto simp: word_le_nat_alt word_less_nat_alt word_unat_eq_iff)
    have fit': "fat_fits Fat12 (img s) (c + 1)" using less.prems(3) le by simp
    obtain s1 where s1: "(if (c + 1) AND 1 = 0 then read_u16_le S s
         else try_io (read_u8 S s) (\<lambda>next_byte s. Some (Inr (drop_bit 8 packed OR push_bit 8 (ucast next_byte)), s))) =
      Some (Inr (from_le_bytes (take 2 (drop (fat_byte Fat12 (c + 1)) (img s)))), s1)" "ivr s1" "img s1 = img s" "cur s1 = Some (fat_byte Fat12 (c + 1) + 2)"
      using fat12_next_packed [OF less.prems(1,2) c fit' fit less.prems(5)] by blast
    have "\<exists>r s2. fat12_find_free_loop S (c + 1) e (from_le_bytes (take 2 (drop (fat_byte Fat12 (c + 1)) (img s1)))) s1 = Some (r, s2) \<and>
        first_free Fat12 (img s1) (c + 1) e r \<and> ivr s2 \<and> img s2 = img s1"
      by (rule less.hyps [OF while_measure [OF c] s1(2,4) _ le(1) refl]) (use less.prems(3) le s1(3) in auto)
    then obtain r s2 where "fat12_find_free_loop S (c + 1) e (from_le_bytes (take 2 (drop (fat_byte Fat12 (c + 1)) (img s)))) s1 = Some (r, s2)"
      "first_free Fat12 (img s) (c + 1) e r" "ivr s2" "img s2 = img s" using s1(3) by auto
    then show ?thesis using s1(1) 3 v c by (subst fat12_find_free_loop.simps) (auto intro: first_free_step)
  qed
qed

lemma find_free_ok:
  assumes "ivr s" "c < e" "\<And>x. c \<le> x \<Longrightarrow> x < e \<Longrightarrow> fat_fits t (img s) x"
  shows "\<exists>r s'. find_free_cluster S t c e s = Some (r, s') \<and> first_free t (img s) c e r \<and> ivr s' \<and> img s' = img s"
proof -
  have fit: "fat_fits t (img s) c" using assms(2,3) by simp
  obtain s1 where s1: "sk S (SeekStart (ucast (case t of Fat12 \<Rightarrow> c + c div 2 | Fat16 \<Rightarrow> c * 2 | Fat32 \<Rightarrow> c * 4))) s =
      Some (Inr (ucast (case t of Fat12 \<Rightarrow> c + c div 2 | Fat16 \<Rightarrow> c * 2 | Fat32 \<Rightarrow> c * 4)), s1)" "ivr s1" "img s1 = img s" "cur s1 = Some (fat_byte t c)"
    using seek_entry [OF assms(1) fit] by blast
  show ?thesis
  proof (cases t)
    case Fat12
    obtain s2 where s2: "read_u16_le S s1 = Some (Inr (from_le_bytes (take 2 (drop (fat_byte Fat12 c) (img s)))), s2)" "ivr s2" "img s2 = img s" "cur s2 = Some (fat_byte Fat12 c + 2)"
      using read_u16_ok [OF s1(2,4)] fat_byte_fits [OF fit] s1(3) Fat12 by auto
    then show ?thesis using s1(1) fat12_find_free_loop_ok [OF s2(2,4), of e] assms(2,3) Fat12 by (simp add: find_free_cluster_def fat12_find_free_def fat12_offset_def)
  next
    case Fat16
    then show ?thesis using s1(1,3) fat16_find_free_loop_ok [of s1 c e] s1(2,4) assms(3) by (simp add: find_free_cluster_def fat16_find_free_def)
  next
    case Fat32
    then show ?thesis using s1(1,3) fat32_find_free_loop_ok [of s1 c e] s1(2,4) assms(3) by (simp add: find_free_cluster_def fat32_find_free_def)
  qed
qed

end

end
