(* ===== verification/Fat_Chains.thy ===== *)
theory Fat_Chains
  imports Fat_Entries
begin

text \<open>
  Allocating, linking and freeing clusters, in terms of the map of entries, and the theorems on the table of a disk image in memory behind its buffer.
\<close>

subsection \<open>Allocation\<close>

definition fat_limit :: "fat_type \<Rightarrow> nat" where
  "fat_limit t = (case t of Fat12 \<Rightarrow> 0xFF7 | Fat16 \<Rightarrow> 0xFFF7 | Fat32 \<Rightarrow> 0x0FFFFFF7)"

text \<open>A table with entries for \<open>tot\<close> clusters besides the two reserved ones.\<close>

definition fat_table_ok :: "fat_type \<Rightarrow> byte list \<Rightarrow> u32 \<Rightarrow> bool" where
  "fat_table_ok t xs tot \<longleftrightarrow> unat tot + 2 \<le> fat_limit t \<and> stride t * (unat tot + 2) \<le> 8 * length xs"

lemma fat_table_end:
  assumes "fat_table_ok t xs tot"
  shows "unat (tot + RESERVED_FAT_ENTRIES) = unat tot + 2"
  using assms by (cases t) (auto simp: fat_table_ok_def fat_limit_def RESERVED_FAT_ENTRIES_def unat_word_ariths)

lemma fat_table_fits:
  assumes "fat_table_ok t xs tot" "c < tot + RESERVED_FAT_ENTRIES"
  shows "fat_fits t xs c" "c \<noteq> 0 \<Longrightarrow> fat_storable t (FatData c)"
proof -
  have c: "unat c + 1 \<le> unat tot + 2" using assms(2) fat_table_end [OF assms(1)] by (simp add: word_less_nat_alt)
  then have "stride t * (unat c + 1) \<le> stride t * (unat tot + 2)" by (rule mult_le_mono2)
  moreover have "unat c < fat_limit t" using c assms(1) by (simp add: fat_table_ok_def)
  ultimately show "fat_fits t xs c" using assms(1) by (cases t) (auto simp: fat_fits_def fat_table_ok_def fat_limit_def word_less_nat_alt)
  show "fat_storable t (FatData c)" if "c \<noteq> 0" using \<open>unat c < fat_limit t\<close> that by (cases t) (auto simp: fat_storable_def fat_limit_def word_less_nat_alt)
qed

text \<open>The map after entries have been set.\<close>

definition fat_updated :: "fat_type \<Rightarrow> (u32 \<Rightarrow> fat_value option) \<Rightarrow> byte list \<Rightarrow> byte list \<Rightarrow> bool" where
  "fat_updated t upd xs ys \<longleftrightarrow> length ys = length xs \<and>
     (\<forall>d. fat_fits t xs d \<longrightarrow> fat_entry t ys d = (case upd d of Some v \<Rightarrow> v | None \<Rightarrow> fat_entry t xs d))"

lemma fat_fits_length: "length ys = length xs \<Longrightarrow> fat_fits t ys d = fat_fits t xs d"
  by (simp add: fat_fits_def)

lemma fat_updated_refl: "fat_updated t (\<lambda>_. None) xs xs"
  by (simp add: fat_updated_def)

lemma fat_updated_set:
  assumes "fat_updated t upd xs ys" "entry_set t c v ys zs" "fat_fits t xs c" "fat_storable t v"
  shows "fat_updated t (upd(c \<mapsto> v)) xs zs"
proof -
  have l: "length ys = length xs" "length zs = length ys" using assms(1,2) by (simp_all add: fat_updated_def entry_set_def)
  have "fat_entry t zs d = (case (upd(c \<mapsto> v)) d of Some v \<Rightarrow> v | None \<Rightarrow> fat_entry t xs d)" if "fat_fits t xs d" for d
    using entry_set_map [OF assms(2) _ assms(4), of d] assms(1,3) that l fat_fits_length [OF l(1)] by (auto simp: fat_updated_def)
  then show ?thesis using l by (simp add: fat_updated_def)
qed

text \<open>The cluster that is chosen: the first free one from \<open>st\<close> on, or else the first free one.\<close>

definition chosen_cluster :: "fat_type \<Rightarrow> byte list \<Rightarrow> u32 \<Rightarrow> u32 \<Rightarrow> 'e fat_error + u32 \<Rightarrow> bool" where
  "chosen_cluster t xs st e r \<longleftrightarrow>
     (\<exists>d. r = Inr d \<and> first_free t xs st e (Inr d :: 'e fat_error + u32)) \<or>
     first_free t xs st e (Inl Fat_NotEnoughSpace :: 'e fat_error + u32) \<and> first_free t xs RESERVED_FAT_ENTRIES st r"

context fat_storage
begin

lemma alloc_cluster_ok:
  assumes "ivr s" "fat_table_ok t (img s) tot" "tot \<noteq> 0"
    and st: "st = (case hint of Some n \<Rightarrow> if n < tot + RESERVED_FAT_ENTRIES then n else RESERVED_FAT_ENTRIES | None \<Rightarrow> RESERVED_FAT_ENTRIES)"
    and "\<And>n. hint = Some n \<Longrightarrow> RESERVED_FAT_ENTRIES \<le> n"
    and "\<And>n. prev = Some n \<Longrightarrow> fat_fits t (img s) n"
  shows "\<exists>r s'. alloc_cluster S t prev hint tot s = Some (r, s') \<and> ivr s' \<and>
    chosen_cluster t (img s) st (tot + RESERVED_FAT_ENTRIES) r \<and>
    (case r of
       Inl e \<Rightarrow> img s' = img s
     | Inr n \<Rightarrow> fat_updated t (case prev of Some p \<Rightarrow> [n \<mapsto> FatEndOfChain, p \<mapsto> FatData n] | None \<Rightarrow> [n \<mapsto> FatEndOfChain]) (img s) (img s'))"
proof -
  let ?e = "tot + RESERVED_FAT_ENTRIES"
  have end_gt: "RESERVED_FAT_ENTRIES < ?e" using fat_table_end [OF assms(2)] assms(3) by (simp add: word_less_nat_alt RESERVED_FAT_ENTRIES_def unat_gt_0)
  have st_range: "RESERVED_FAT_ENTRIES \<le> st" "st < ?e" using st assms(5) end_gt by (auto split: option.splits if_splits)
  note fits = fat_table_fits [OF assms(2)]
  obtain r1 s1 where s1: "find_free_cluster S t st ?e s = Some (r1, s1)" "first_free t (img s) st ?e r1" "ivr s1" "img s1 = img s"
    using find_free_ok [OF assms(1) st_range(2)] fits(1) by blast
  define search where "search = (case find_free_cluster S t st ?e s of
              None \<Rightarrow> None
            | Some (Inr n, s) \<Rightarrow> Some (Inr n, s)
            | Some (Inl e, s) \<Rightarrow>
                (if st > RESERVED_FAT_ENTRIES then find_free_cluster S t RESERVED_FAT_ENTRIES st s else Some (Inl e, s)))"
  have "\<exists>r s2. search = Some (r, s2) \<and> chosen_cluster t (img s) st ?e r \<and> ivr s2 \<and> img s2 = img s"
  proof (cases r1)
    case (Inr n)
    then show ?thesis using s1 by (auto simp: search_def chosen_cluster_def)
  next
    case (Inl e)
    then have full: "e = Fat_NotEnoughSpace" "first_free t (img s) st ?e (Inl Fat_NotEnoughSpace)" using s1(2) by (auto simp: first_free_def)
    show ?thesis
    proof (cases "st > RESERVED_FAT_ENTRIES")
      case True
      obtain r2 s2 where "find_free_cluster S t RESERVED_FAT_ENTRIES st s1 = Some (r2, s2)" "first_free t (img s) RESERVED_FAT_ENTRIES st r2" "ivr s2" "img s2 = img s"
        using find_free_ok [OF s1(3) True] fits(1) st_range(2) s1(4) by (metis order_less_trans)
      then show ?thesis using s1(1) Inl True full by (auto simp: search_def chosen_cluster_def)
    next
      case False
      then have "first_free t (img s) RESERVED_FAT_ENTRIES st (Inl Fat_NotEnoughSpace)" using st_range by (auto simp: first_free_def)
      then show ?thesis using s1 Inl False full by (auto simp: search_def chosen_cluster_def)
    qed
  qed
  then obtain r s2 where s2: "search = Some (r, s2)" "chosen_cluster t (img s) st ?e r" "ivr s2" "img s2 = img s" by blast
  have a: "alloc_cluster S t prev hint tot s = try_io search (\<lambda>new_cluster s.
             try_io (write_fat S t new_cluster FatEndOfChain s) (\<lambda>_ s.
               try_io (case prev of Some n \<Rightarrow> write_fat S t n (FatData new_cluster) s | None \<Rightarrow> Some (Inr (), s)) (\<lambda>_ s.
                 Some (Inr new_cluster, s))))" unfolding alloc_cluster_def search_def st [symmetric] by (simp only: Let_def st)
  show ?thesis
  proof (cases r)
    case (Inl e)
    then show ?thesis using a s2 by (intro exI [of _ r] exI [of _ s2]) simp
  next
    case (Inr n)
    have "n < ?e" "n \<noteq> 0"
      using s2(2) st_range unfolding Inr by (auto simp: chosen_cluster_def first_free_def RESERVED_FAT_ENTRIES_def word_less_nat_alt word_le_nat_alt)
    then have n: "fat_fits t (img s) n" "fat_storable t (FatData n)" using fits by auto
    obtain s3 where s3: "write_fat S t n FatEndOfChain s2 = Some (Inr (), s3)" "ivr s3" "entry_set t n FatEndOfChain (img s) (img s3)"
      using write_fat_ok [OF s2(3), of t n FatEndOfChain] n(1) s2(4) by (auto simp: fat_storable_def)
    have u3: "fat_updated t [n \<mapsto> FatEndOfChain] (img s) (img s3)"
      by (rule fat_updated_set [OF fat_updated_refl s3(3) n(1)]) (simp add: fat_storable_def)
    show ?thesis
    proof (cases prev)
      case None
      then show ?thesis using a s2 s3 u3 Inr by (intro exI [of _ r] exI [of _ s3]) simp
    next
      case (Some p)
      have p: "fat_fits t (img s) p" using assms(6) Some by simp
      have l: "length (img s3) = length (img s)" using u3 by (simp add: fat_updated_def)
      obtain s4 where s4: "write_fat S t p (FatData n) s3 = Some (Inr (), s4)" "ivr s4" "entry_set t p (FatData n) (img s3) (img s4)"
        using write_fat_ok [OF s3(2), of t p "FatData n"] n(2) p fat_fits_length [OF l] by auto
      have "fat_updated t [n \<mapsto> FatEndOfChain, p \<mapsto> FatData n] (img s) (img s4)" by (rule fat_updated_set [OF u3 s4(3) p n(2)])
      then show ?thesis using a s2 s3 s4 Inr Some by (intro exI [of _ r] exI [of _ s4]) simp
    qed
  qed
qed

end

subsection \<open>Chains\<close>

fun fat_chain :: "fat_type \<Rightarrow> byte list \<Rightarrow> u32 list \<Rightarrow> bool" where
  "fat_chain t xs [] \<longleftrightarrow> True"
| "fat_chain t xs [c] \<longleftrightarrow> fat_fits t xs c \<and> (\<forall>d. fat_entry t xs c \<noteq> FatData d)"
| "fat_chain t xs (c # d # cs) \<longleftrightarrow> fat_fits t xs c \<and> fat_entry t xs c = FatData d \<and> fat_chain t xs (d # cs)"

lemma fat_chain_fits: "fat_chain t xs cs \<Longrightarrow> c \<in> set cs \<Longrightarrow> fat_fits t xs c"
  by (induction t xs cs rule: fat_chain.induct) auto

lemma fat_chain_tail: "fat_chain t xs (c # cs) \<Longrightarrow> fat_chain t xs cs"
  by (cases cs) auto

lemma fat_chain_cong:
  assumes "length ys = length xs" "\<And>c. c \<in> set cs \<Longrightarrow> fat_fits t xs c \<Longrightarrow> fat_entry t ys c = fat_entry t xs c" "fat_chain t xs cs"
  shows "fat_chain t ys cs"
  using assms(2,3) fat_fits_length [OF assms(1)] by (induction t xs cs rule: fat_chain.induct) auto

text \<open>\<open>fat_path t xs p cs q\<close>: from \<open>p\<close> the links of the table lead through the clusters \<open>cs\<close> to \<open>q\<close>.\<close>

definition fat_next :: "fat_type \<Rightarrow> byte list \<Rightarrow> u32 \<Rightarrow> u32 option" where
  "fat_next t xs c = (case fat_entry t xs c of FatData n \<Rightarrow> Some n | _ \<Rightarrow> None)"

fun fat_path :: "fat_type \<Rightarrow> byte list \<Rightarrow> u32 option \<Rightarrow> u32 list \<Rightarrow> u32 option \<Rightarrow> bool" where
  "fat_path t xs p [] q \<longleftrightarrow> p = q"
| "fat_path t xs p (c # cs) q \<longleftrightarrow> p = Some c \<and> fat_fits t xs c \<and> fat_path t xs (fat_next t xs c) cs q"

lemma fat_chain_path: "fat_chain t xs (c # cs) \<longleftrightarrow> fat_path t xs (Some c) (c # cs) None"
proof (induction cs arbitrary: c)
  case Nil
  then show ?case by (auto simp: fat_next_def split: fat_value.splits)
next
  case (Cons d cs)
  then show ?case by (auto simp: fat_next_def split: fat_value.splits)
qed

lemma fat_path_cong:
  assumes "length ys = length xs" "\<And>c. c \<in> set cs \<Longrightarrow> fat_fits t xs c \<Longrightarrow> fat_entry t ys c = fat_entry t xs c" "fat_path t xs p cs q"
  shows "fat_path t ys p cs q"
  using assms(2,3) fat_fits_length [OF assms(1)] by (induction cs arbitrary: p) (auto simp: fat_next_def)

lemma u16_small: "(ucast (x :: u16) :: u32) < 0x0FFFFFF7"
proof -
  have "unat (ucast x :: u32) \<le> unat x" by (simp add: unsigned_ucast_eq)
  then show ?thesis using unsigned_less [of x, where 'a = nat] by (simp add: word_less_nat_alt)
qed

lemma fat_data_range: "fat_entry t xs c = FatData n \<Longrightarrow> n < 0x0FFFFFF7"
proof (cases t)
  case Fat32
  have "from_le_bytes (take 4 (drop (4 * unat c) xs)) AND 0x0FFFFFFF \<le> (0x0FFFFFFF :: u32)" by (rule word_and_le1)
  moreover assume "fat_entry t xs c = FatData n"
  ultimately have "n \<le> 0x0FFFFFFF" "n \<noteq> 0x0FFFFFF7" "\<not> 0x0FFFFFF8 \<le> n"
    using Fat32 by (auto simp: fat_entry_def fat_decode_def fat_val_def fat32_decode_def split: if_splits)
  then show ?thesis by (simp add: word_le_nat_alt word_less_nat_alt word_unat_eq_iff)
qed (auto simp: fat_entry_def fat_decode_def fat_val_def fat12_decode_def fat16_decode_def split: if_splits intro: u16_small)

lemma fat_path_end:
  assumes "fat_path t xs (Some c) (c # cs) (Some e)"
  shows "e < 0x0FFFFFF7"
  using assms
proof (induction cs arbitrary: c)
  case Nil
  then show ?case using fat_data_range by (auto simp: fat_next_def split: fat_value.splits)
next
  case (Cons d cs)
  then show ?case by auto
qed

definition ci_at :: "'s \<Rightarrow> fat_type \<Rightarrow> u32 option \<Rightarrow> 's cluster_iterator \<Rightarrow> bool" where
  "ci_at s t p it \<longleftrightarrow> ci_fat it = s \<and> ci_type it = t \<and> \<not> ci_err it \<and> ci_cluster it = p"

lemma ci_at_new: "ci_at s t (Some c) (ci_new s t c)"
  by (simp add: ci_at_def ci_new_def)

context fat_storage
begin

lemma ci_next_ok:
  assumes "ivr s" "fat_fits t (img s) c" "ci_at s t (Some c) it"
  shows "\<exists>s' it'. ci_next S it = Some (map_option Inr (fat_next t (img s) c), it') \<and> ci_at s' t (fat_next t (img s) c) it' \<and> ivr s' \<and> img s' = img s"
  using read_fat_ok [OF assms(1,2)] assms(3) by (auto simp: ci_next_def ci_at_def get_next_cluster_def fat_next_def)

text \<open>One round of the iterator: it goes on to the next cluster, and the entry of the last one is overwritten.\<close>

lemma ci_step_ok:
  assumes "ivr s" "fat_path t (img s) (Some c) (c # cs) q" "distinct (c # cs)" "ci_at s t (Some c) it" "fat_storable t v"
  shows "\<exists>r it1 s2. ci_next S it = Some (r, it1) \<and> write_fat S (ci_type it1) c v (ci_fat it1) = Some (Inr (), s2) \<and> ivr s2 \<and>
    ci_at s2 t (fat_next t (img s) c) (it1\<lparr>ci_fat := s2\<rparr>) \<and> fat_updated t [c \<mapsto> v] (img s) (img s2) \<and> fat_path t (img s2) (fat_next t (img s) c) cs q"
proof -
  have fit: "fat_fits t (img s) c" using assms(2) by simp
  obtain s1 it1 where 1: "ci_next S it = Some (map_option Inr (fat_next t (img s) c), it1)" "ci_at s1 t (fat_next t (img s) c) it1" "ivr s1" "img s1 = img s"
    using ci_next_ok [OF assms(1) fit assms(4)] by blast
  obtain s2 where 2: "write_fat S t c v s1 = Some (Inr (), s2)" "ivr s2" "entry_set t c v (img s) (img s2)"
    using write_fat_ok [OF 1(3), of t c v] fit 1(4) assms(5) by auto
  have u: "fat_updated t [c \<mapsto> v] (img s) (img s2)" by (rule fat_updated_set [OF fat_updated_refl 2(3) fit assms(5)])
  then have l: "length (img s2) = length (img s)" and e: "\<And>d. d \<in> set cs \<Longrightarrow> fat_fits t (img s) d \<Longrightarrow> fat_entry t (img s2) d = fat_entry t (img s) d"
    using assms(3) by (auto simp: fat_updated_def)
  have "fat_path t (img s2) (fat_next t (img s) c) cs q" by (rule fat_path_cong [OF l e]) (use assms(2) in simp_all)
  then show ?thesis using 1 2 u by (auto simp: ci_at_def)
qed

lemma ci_free_loop_path:
  assumes "ivr s" "fat_path t (img s) p cs q" "distinct cs" "ci_at s t p it"
  shows "\<exists>s' it'. ci_free_loop S n it = ci_free_loop S (n + of_nat (length cs)) it' \<and> ci_at s' t q it' \<and> ivr s' \<and>
    fat_updated t (\<lambda>d. if d \<in> set cs then Some FatFree else None) (img s) (img s')"
  using assms
proof (induction cs arbitrary: s p it n)
  case Nil
  then show ?case by (auto simp: fat_updated_def)
next
  case (Cons c cs)
  have p: "p = Some c" and at: "ci_at s t (Some c) it" using Cons.prems(2,4) by simp_all
  obtain r it1 s2 where 2: "ci_next S it = Some (r, it1)" "write_fat S (ci_type it1) c FatFree (ci_fat it1) = Some (Inr (), s2)" "ivr s2"
    "ci_at s2 t (fat_next t (img s) c) (it1\<lparr>ci_fat := s2\<rparr>)" "fat_updated t [c \<mapsto> FatFree] (img s) (img s2)" "fat_path t (img s2) (fat_next t (img s) c) cs q"
    using ci_step_ok [OF Cons.prems(1) Cons.prems(2) [unfolded p] Cons.prems(3) at, of FatFree] by (auto simp: fat_storable_def)
  obtain s3 it3 where 3: "ci_free_loop S (n + 1) (it1\<lparr>ci_fat := s2\<rparr>) = ci_free_loop S (n + 1 + of_nat (length cs)) it3" "ci_at s3 t q it3" "ivr s3"
    "fat_updated t (\<lambda>d. if d \<in> set cs then Some FatFree else None) (img s2) (img s3)"
    using Cons.IH [OF 2(3,6) _ 2(4), of "n + 1"] Cons.prems(3) by auto
  have "ci_free_loop S n it = ci_free_loop S (n + 1) (it1\<lparr>ci_fat := s2\<rparr>)"
    using at 2(1,2) by (subst ci_free_loop.simps) (simp add: ci_at_def)
  then have "ci_free_loop S n it = ci_free_loop S (n + of_nat (length (c # cs))) it3" using 3(1) by (simp add: ac_simps)
  moreover have "length (img s2) = length (img s)" using 2(5) by (simp add: fat_updated_def)
  then have "fat_updated t (\<lambda>d. if d \<in> set (c # cs) then Some FatFree else None) (img s) (img s3)"
    using 2(5) 3(4) fat_fits_length [of "img s2" "img s"] by (auto simp: fat_updated_def)
  ultimately show ?case using 3(2,3) by blast
qed

lemma ci_truncate_path:
  assumes "ivr s" "fat_path t (img s) (Some c) (c # cs) q" "distinct (c # cs)"
  shows "\<exists>s' it'. ci_truncate S (ci_new s t c) = ci_free_loop S (of_nat (length cs)) it' \<and> ci_at s' t q it' \<and> ivr s' \<and>
    fat_updated t (\<lambda>d. if d = c then Some FatEndOfChain else if d \<in> set cs then Some FatFree else None) (img s) (img s')"
proof -
  obtain r it1 s2 where 2: "ci_next S (ci_new s t c) = Some (r, it1)" "write_fat S (ci_type it1) c FatEndOfChain (ci_fat it1) = Some (Inr (), s2)" "ivr s2"
    "ci_at s2 t (fat_next t (img s) c) (it1\<lparr>ci_fat := s2\<rparr>)" "fat_updated t [c \<mapsto> FatEndOfChain] (img s) (img s2)" "fat_path t (img s2) (fat_next t (img s) c) cs q"
    using ci_step_ok [OF assms ci_at_new, of FatEndOfChain] by (auto simp: fat_storable_def)
  obtain s3 it3 where 3: "ci_free_loop S 0 (it1\<lparr>ci_fat := s2\<rparr>) = ci_free_loop S (of_nat (length cs)) it3" "ci_at s3 t q it3" "ivr s3"
    "fat_updated t (\<lambda>d. if d \<in> set cs then Some FatFree else None) (img s2) (img s3)"
    using ci_free_loop_path [OF 2(3,6) _ 2(4), of 0] assms(3) by auto
  have "ci_truncate S (ci_new s t c) = ci_free_loop S (of_nat (length cs)) it3" using 2(1,2) 3(1) by (simp add: ci_truncate_def ci_free_def ci_new_def)
  moreover have "length (img s2) = length (img s)" using 2(5) by (simp add: fat_updated_def)
  then have "fat_updated t (\<lambda>d. if d = c then Some FatEndOfChain else if d \<in> set cs then Some FatFree else None) (img s) (img s3)"
    using 2(5) 3(4) fat_fits_length [of "img s2" "img s"] assms(3) by (auto simp: fat_updated_def)
  ultimately show ?thesis using 3(2,3) by blast
qed

lemma ci_free_loop_end: "ci_at s t None it \<Longrightarrow> ci_free_loop S n it = Some (Inr n, it)"
  by (subst ci_free_loop.simps) (simp add: ci_at_def)

end

text \<open>A storage may also fail to read. Then the iterator stays where it is, and as long as the cluster can be written, freeing never ends.\<close>

lemma free_never_returns_after_read_error:
  fixes s :: 's
  assumes "read_fat S t c s = Some (Inl e, s0)" "I s0" "\<And>s. I s \<Longrightarrow> \<exists>s'. write_fat S t c FatFree s = Some (Inr (), s') \<and> I s'"
  shows "ci_free S (ci_new s t c) = None"
proof -
  define stuck where "stuck (it :: 's cluster_iterator) \<longleftrightarrow> ci_err it \<and> ci_type it = t \<and> ci_cluster it = Some c \<and> I (ci_fat it)" for it
  have round: "\<exists>s'. write_fat S (ci_type it) c FatFree (ci_fat it) = Some (Inr (), s') \<and> stuck (it\<lparr>ci_fat := s'\<rparr>)" if "stuck it" for it
    using assms(3) [of "ci_fat it"] that by (auto simp: stuck_def)
  have "S' = S \<longrightarrow> \<not> stuck it" if "ci_free_loop S' n it = Some r" for S' n it r
  proof (rule ci_free_loop.raw_induct [OF _ that, where P = "\<lambda>S' n it r. S' = S \<longrightarrow> \<not> stuck it"], intro impI notI)
    fix loop S' n it r
    assume IH: "\<And>S' n it r. loop S' n it = Some r \<Longrightarrow> S' = S \<longrightarrow> \<not> stuck it"
      and body: "(case ci_cluster it of
        None \<Rightarrow> Some (Inr n, it)
      | Some c \<Rightarrow> do {
          (_, it) \<leftarrow> ci_next S' it;
          (r, fat) \<leftarrow> write_fat S' (ci_type it) c FatFree (ci_fat it);
          case r of
            Inl e \<Rightarrow> Some (Inl e, it\<lparr>ci_fat := fat\<rparr>)
          | Inr _ \<Rightarrow> loop S' (n + 1) (it\<lparr>ci_fat := fat\<rparr>)
        }) = Some r" and S: "S' = S" and st: "stuck it"
    obtain s' where s': "write_fat S (ci_type it) c FatFree (ci_fat it) = Some (Inr (), s')" "stuck (it\<lparr>ci_fat := s'\<rparr>)" using round [OF st] by blast
    have "loop S (n + 1) (it\<lparr>ci_fat := s'\<rparr>) = Some r" using body st s'(1) by (simp add: S stuck_def ci_next_def)
    then show False using IH s'(2) by blast
  qed
  then have never: "stuck it \<Longrightarrow> ci_free_loop S n it = None" for n it by (cases "ci_free_loop S n it") auto
  let ?it = "(ci_new s t c)\<lparr>ci_fat := s0, ci_err := True\<rparr>"
  obtain s' where s': "write_fat S t c FatFree s0 = Some (Inr (), s')" "stuck (?it\<lparr>ci_fat := s'\<rparr>)"
    using round [of ?it] assms(2) by (auto simp: stuck_def ci_new_def)
  have "ci_free S (ci_new s t c) = ci_free_loop S 1 (?it\<lparr>ci_fat := s'\<rparr>)"
    unfolding ci_free_def using assms(1) s'(1) by (subst ci_free_loop.simps) (simp add: ci_next_def get_next_cluster_def ci_new_def)
  then show ?thesis using never [OF s'(2)] by simp
qed

text \<open>Counting.\<close>

definition free_count :: "fat_type \<Rightarrow> byte list \<Rightarrow> u32 \<Rightarrow> u32 \<Rightarrow> nat" where
  "free_count t xs c e = card {x. c \<le> x \<and> x < e \<and> fat_entry t xs x = FatFree}"

lemma free_count_step:
  assumes "c < e"
  shows "free_count t xs c e = (if fat_entry t xs c = FatFree then 1 else 0) + free_count t xs (c + 1) e"
proof -
  have s: "c + 1 \<le> x \<longleftrightarrow> c < x" for x using unat_step [OF assms] by (simp add: word_le_nat_alt word_less_nat_alt Suc_le_eq)
  let ?T = "{x. c + 1 \<le> x \<and> x < e \<and> fat_entry t xs x = FatFree}"
  have T: "c \<notin> ?T" "finite ?T" using s by auto
  have m: "c \<le> x \<longleftrightarrow> x = c \<or> c + 1 \<le> x" for x unfolding s by (auto simp: order_le_less)
  show ?thesis
  proof (cases "fat_entry t xs c = FatFree")
    case True
    then have "{x. c \<le> x \<and> x < e \<and> fat_entry t xs x = FatFree} = insert c ?T" using assms m by blast
    then show ?thesis using True card_insert_disjoint [OF T(2,1)] unfolding free_count_def by (simp only: if_True) simp
  next
    case False
    have "c \<le> x \<and> fat_entry t xs x = FatFree \<longleftrightarrow> c + 1 \<le> x \<and> fat_entry t xs x = FatFree" for x using False s by (metis order_le_less)
    then have "{x. c \<le> x \<and> x < e \<and> fat_entry t xs x = FatFree} = ?T" by blast
    then show ?thesis using False unfolding free_count_def by (simp only: if_False add_0)
  qed
qed

lemma free_count_none: "\<not> c < e \<Longrightarrow> free_count t xs c e = 0"
proof -
  assume "\<not> c < e"
  then have "{x. c \<le> x \<and> x < e \<and> fat_entry t xs x = FatFree} = {}" by auto
  then show ?thesis unfolding free_count_def by (simp only: card.empty)
qed

context fat_storage
begin

lemma fat16_count_ok:
  assumes "ivr s" "cur s = Some (fat_byte Fat16 c)" "\<And>x. c \<le> x \<Longrightarrow> x < e \<Longrightarrow> fat_fits Fat16 (img s) x"
  shows "\<exists>s'. fat16_count_free_loop S c e n s = Some (Inr (n + of_nat (free_count Fat16 (img s) c e)), s') \<and> ivr s' \<and> img s' = img s"
  using assms
proof (induction "unat e - unat c" arbitrary: c s n rule: less_induct)
  case less
  show ?case
  proof (cases "c < e")
    case True
    have fit: "fat_fits Fat16 (img s) c" using less.prems(3) True by simp
    let ?v = "from_le_bytes (take 2 (drop (fat_byte Fat16 c) (img s))) :: u16"
    obtain s1 where s1: "read_u16_le S s = Some (Inr ?v, s1)" "ivr s1" "img s1 = img s"
      "cur s1 = Some (fat_byte Fat16 (c + 1))" using read_u16_ok [OF less.prems(1,2)] fat_byte_fits [OF fit] fat_byte_step [OF True] by auto
    have v: "fat_entry Fat16 (img s) c = FatFree \<longleftrightarrow> ?v = 0" unfolding entry_free [OF fit] by (simp add: fat_val_def fat_byte_def u16_zero)
    have le: "c + 1 \<le> x \<Longrightarrow> c \<le> x" for x using unat_step [OF True] by (simp add: word_le_nat_alt)
    obtain s2 where "fat16_count_free_loop S (c + 1) e (if ?v = 0 then n + 1 else n) s1 =
        Some (Inr ((if ?v = 0 then n + 1 else n) + of_nat (free_count Fat16 (img s) (c + 1) e)), s2)" "ivr s2" "img s2 = img s"
      using less.hyps [OF while_measure [OF True] s1(2,4), of "if ?v = 0 then n + 1 else n"] less.prems(3) s1(3) le by auto
    then show ?thesis using s1(1) True v free_count_step [OF True, of Fat16 "img s"] by (subst fat16_count_free_loop.simps) (simp add: add.assoc)
  next
    case False
    then show ?thesis using less.prems by (subst fat16_count_free_loop.simps) (simp add: free_count_none)
  qed
qed

lemma fat32_count_ok:
  assumes "ivr s" "cur s = Some (fat_byte Fat32 c)" "\<And>x. c \<le> x \<Longrightarrow> x < e \<Longrightarrow> fat_fits Fat32 (img s) x"
  shows "\<exists>s'. fat32_count_free_loop S c e n s = Some (Inr (n + of_nat (free_count Fat32 (img s) c e)), s') \<and> ivr s' \<and> img s' = img s"
  using assms
proof (induction "unat e - unat c" arbitrary: c s n rule: less_induct)
  case less
  show ?case
  proof (cases "c < e")
    case True
    have fit: "fat_fits Fat32 (img s) c" using less.prems(3) True by simp
    let ?v = "from_le_bytes (take 4 (drop (fat_byte Fat32 c) (img s))) :: u32"
    obtain s1 where s1: "read_u32_le S s = Some (Inr ?v, s1)" "ivr s1" "img s1 = img s"
      "cur s1 = Some (fat_byte Fat32 (c + 1))" using read_u32_ok [OF less.prems(1,2)] fat_byte_fits [OF fit] fat_byte_step [OF True] by auto
    have v: "fat_entry Fat32 (img s) c = FatFree \<longleftrightarrow> ?v AND 0x0FFFFFFF = 0" unfolding entry_free [OF fit] by (simp add: fat_val_def fat_byte_def)
    have le: "c + 1 \<le> x \<Longrightarrow> c \<le> x" for x using unat_step [OF True] by (simp add: word_le_nat_alt)
    obtain s2 where "fat32_count_free_loop S (c + 1) e (if ?v AND 0x0FFFFFFF = 0 then n + 1 else n) s1 =
        Some (Inr ((if ?v AND 0x0FFFFFFF = 0 then n + 1 else n) + of_nat (free_count Fat32 (img s) (c + 1) e)), s2)" "ivr s2" "img s2 = img s"
      using less.hyps [OF while_measure [OF True] s1(2,4), of "if ?v AND 0x0FFFFFFF = 0 then n + 1 else n"] less.prems(3) s1(3) le by auto
    then show ?thesis using s1(1) True v free_count_step [OF True, of Fat32 "img s"] by (subst fat32_count_free_loop.simps) (simp add: add.assoc)
  next
    case False
    then show ?thesis using less.prems by (subst fat32_count_free_loop.simps) (simp add: free_count_none)
  qed
qed

lemma pair_at: "k + 2 \<le> length xs \<Longrightarrow> (from_le_bytes (take 2 (drop k xs)) :: u16) = push_bit 8 (ucast (xs ! (k + 1))) OR ucast (xs ! k)"
proof -
  assume "k + 2 \<le> length xs"
  then have "take 2 (drop k xs) = [xs ! k, xs ! (k + 1)]" by (intro nth_equalityI) (auto simp: less_2_cases_iff)
  then show ?thesis by (simp add: from_le_bytes_def)
qed

lemma push_byte_zero: "k \<le> 8 \<Longrightarrow> (push_bit k (ucast b) :: u16) = 0 \<longleftrightarrow> b = 0" for b :: byte
proof
  assume k: "k \<le> 8" and z: "(push_bit k (ucast b) :: u16) = 0"
  have "\<not> bit b n" for n
  proof
    assume "bit b n"
    then have "bit (push_bit k (ucast b) :: u16) (n + k)" using k bit_imp_le_length [OF \<open>bit b n\<close>] by (simp add: bit_simps)
    then show False using z by simp
  qed
  then show "b = 0" by (intro bit_word_eqI) simp
qed simp

lemma fat12_odd_zero:
  "(push_bit 8 (ucast b) OR drop_bit 12 (push_bit 8 (ucast a) OR ucast z) = (0 :: u16)) \<longleftrightarrow> drop_bit 4 (push_bit 8 (ucast b) OR ucast a) = (0 :: u16)" for a b z :: byte
proof -
  have 1: "drop_bit 12 (push_bit 8 (ucast a) OR ucast z) = (drop_bit 4 (ucast a) :: u16)"
    by (rule bit_word_eqI) (auto simp: bit_simps dest: bit_imp_le_length)
  have 2: "drop_bit 4 (push_bit 8 (ucast b) OR ucast a) = (push_bit 4 (ucast b) OR drop_bit 4 (ucast a) :: u16)"
    by (rule bit_word_eqI) (auto simp: bit_simps dest: bit_imp_le_length)
  show ?thesis unfolding 1 2 or_eq_0_iff by (simp add: push_byte_zero)
qed

lemma fat12_count_ok:
  assumes "ivr s" "cur s = Some (fat_byte Fat12 c + (if even (unat c) then 0 else 1))" "\<And>x. c \<le> x \<Longrightarrow> x < e \<Longrightarrow> fat_fits Fat12 (img s) x"
    "odd (unat c) \<longrightarrow> prev = from_le_bytes (take 2 (drop (fat_byte Fat12 c - 1) (img s)))"
  shows "\<exists>s'. fat12_count_free_loop S c e prev n s = Some (Inr (n + of_nat (free_count Fat12 (img s) c e)), s') \<and> ivr s' \<and> img s' = img s"
  using assms
proof (induction "unat e - unat c" arbitrary: c s n prev rule: less_induct)
  case less
  show ?case
  proof (cases "c < e")
    case True
    let ?b = "fat_byte Fat12 c"
    have fit: "fat_fits Fat12 (img s) c" using less.prems(3) True by simp
    have l: "?b + 2 \<le> length (img s)" using fat_byte_fits [OF fit] by simp
    have le: "c + 1 \<le> x \<Longrightarrow> c \<le> x" for x using unat_step [OF True] by (simp add: word_le_nat_alt)
    let ?read = "if c AND 1 = 0 then read_u16_le S s else try_io (read_u8 S s) (\<lambda>b s. Some (Inr (ucast b), s))"
    have "\<exists>p s1. ?read = Some (Inr p, s1) \<and> ivr s1 \<and> img s1 = img s \<and> cur s1 = Some (fat_byte Fat12 (c + 1) + (if even (unat (c + 1)) then 0 else 1)) \<and>
      (odd (unat (c + 1)) \<longrightarrow> p = from_le_bytes (take 2 (drop (fat_byte Fat12 (c + 1) - 1) (img s)))) \<and>
      ((if c AND 1 = 0 then p AND 0x0FFF else push_bit 8 p OR drop_bit 12 prev) = 0 \<longleftrightarrow> fat_entry Fat12 (img s) c = FatFree)"
    proof (cases "even (unat c)")
      case ev: True
      then show ?thesis using read_u16_ok [OF less.prems(1), of ?b] less.prems(2) l fat_byte_step(3) [OF True] unat_step [OF True]
        unfolding entry_free [OF fit] by (auto simp: and_1_parity fat_val_def fat12_unpack_def u16_zero fat_byte_def)
    next
      case od: False
      have b: "1 \<le> ?b" using od by (cases "unat c") (auto simp: fat_byte_def)
      obtain s1 where s1: "read_u8 S s = Some (Inr (img s ! (?b + 1)), s1)" "ivr s1" "img s1 = img s" "cur s1 = Some (?b + 2)"
        using read_u8_ok [OF less.prems(1), of "?b + 1"] less.prems(2) od l by auto
      have p: "prev = push_bit 8 (ucast (img s ! ?b)) OR ucast (img s ! (?b - 1))" using less.prems(4) od pair_at [of "?b - 1" "img s"] b l by simp
      have "fat_entry Fat12 (img s) c = FatFree \<longleftrightarrow> drop_bit 4 (push_bit 8 (ucast (img s ! (?b + 1))) OR ucast (img s ! ?b) :: u16) = 0"
        unfolding entry_free [OF fit] using od pair_at [OF l] by (simp add: fat_val_def fat12_unpack_def and_1_parity u16_zero fat_byte_def)
      then have "push_bit 8 (ucast (img s ! (?b + 1))) OR drop_bit 12 prev = 0 \<longleftrightarrow> fat_entry Fat12 (img s) c = FatFree" unfolding p fat12_odd_zero by simp
      then show ?thesis using s1 od fat_byte_step(3) [OF True] unat_step [OF True]
        by (intro exI [of _ "ucast (img s ! (?b + 1))"] exI [of _ s1]) (simp add: and_1_parity)
    qed
    then obtain p s1 where s1: "?read = Some (Inr p, s1)" "ivr s1" "img s1 = img s" "cur s1 = Some (fat_byte Fat12 (c + 1) + (if even (unat (c + 1)) then 0 else 1))"
      "odd (unat (c + 1)) \<longrightarrow> p = from_le_bytes (take 2 (drop (fat_byte Fat12 (c + 1) - 1) (img s)))"
      "(if c AND 1 = 0 then p AND 0x0FFF else push_bit 8 p OR drop_bit 12 prev) = 0 \<longleftrightarrow> fat_entry Fat12 (img s) c = FatFree" by blast
    let ?n = "if fat_entry Fat12 (img s) c = FatFree then n + 1 else n"
    have "\<exists>s'. fat12_count_free_loop S (c + 1) e p ?n s1 = Some (Inr (?n + of_nat (free_count Fat12 (img s1) (c + 1) e)), s') \<and> ivr s' \<and> img s' = img s1"
      by (rule less.hyps [OF while_measure [OF True] s1(2,4)]) (use less.prems(3) le s1(3,5) in auto)
    then obtain s2 where "fat12_count_free_loop S (c + 1) e p ?n s1 = Some (Inr (?n + of_nat (free_count Fat12 (img s) (c + 1) e)), s2)" "ivr s2" "img s2 = img s"
      using s1(3) by auto
    moreover have "fat12_count_free_loop S c e prev n s = fat12_count_free_loop S (c + 1) e p ?n s1"
      using s1(1) True by (subst fat12_count_free_loop.simps) (simp only: s1(6) Let_def outcome_simps if_True)
    ultimately show ?thesis using free_count_step [OF True, of Fat12 "img s"] by (simp add: add.assoc)
  next
    case False
    then show ?thesis using less.prems by (subst fat12_count_free_loop.simps) (simp add: free_count_none)
  qed
qed

lemma count_free_ok:
  assumes "ivr s" "fat_table_ok t (img s) tot" "tot \<noteq> 0"
  shows "\<exists>s'. count_free_clusters S t tot s = Some (Inr (of_nat (free_count t (img s) RESERVED_FAT_ENTRIES (tot + RESERVED_FAT_ENTRIES))), s') \<and> ivr s' \<and> img s' = img s"
proof -
  note fits = fat_table_fits(1) [OF assms(2)]
  have "RESERVED_FAT_ENTRIES < tot + RESERVED_FAT_ENTRIES" using fat_table_end [OF assms(2)] assms(3) by (simp add: word_less_nat_alt RESERVED_FAT_ENTRIES_def unat_gt_0)
  then have fit: "fat_fits t (img s) RESERVED_FAT_ENTRIES" by (rule fits)
  obtain s1 where s1: "sk S (SeekStart (ucast (case t of Fat12 \<Rightarrow> RESERVED_FAT_ENTRIES + RESERVED_FAT_ENTRIES div 2 | Fat16 \<Rightarrow> RESERVED_FAT_ENTRIES * 2 | Fat32 \<Rightarrow> RESERVED_FAT_ENTRIES * 4))) s =
      Some (Inr (ucast (case t of Fat12 \<Rightarrow> RESERVED_FAT_ENTRIES + RESERVED_FAT_ENTRIES div 2 | Fat16 \<Rightarrow> RESERVED_FAT_ENTRIES * 2 | Fat32 \<Rightarrow> RESERVED_FAT_ENTRIES * 4)), s1)"
      "ivr s1" "img s1 = img s" "cur s1 = Some (fat_byte t RESERVED_FAT_ENTRIES)"
    using seek_entry [OF assms(1) fit] by blast
  show ?thesis
  proof (cases t)
    case Fat12
    have "RESERVED_FAT_ENTRIES * 3 div 2 = RESERVED_FAT_ENTRIES + RESERVED_FAT_ENTRIES div 2" "even (unat RESERVED_FAT_ENTRIES)" by (simp_all add: RESERVED_FAT_ENTRIES_def)
    then show ?thesis using s1 fat12_count_ok [of s1 RESERVED_FAT_ENTRIES "tot + RESERVED_FAT_ENTRIES" 0 0] fits Fat12
      by (simp add: count_free_clusters_def fat12_count_free_def)
  next
    case Fat16
    then show ?thesis using s1 fat16_count_ok [of s1 RESERVED_FAT_ENTRIES "tot + RESERVED_FAT_ENTRIES" 0] fits
      by (simp add: count_free_clusters_def fat16_count_free_def)
  next
    case Fat32
    then show ?thesis using s1 fat32_count_ok [of s1 RESERVED_FAT_ENTRIES "tot + RESERVED_FAT_ENTRIES" 0] fits
      by (simp add: count_free_clusters_def fat32_count_free_def)
  qed
qed

end

sublocale sliced \<subseteq> fat: fat_storage "disk_slice S" "ds_inv ivr img hidden rest" "ds_img img" ds_at
  by unfold_locales

text \<open>A cluster whose entry starts behind the table can neither be read nor written.\<close>

context sliced
begin

lemma entry_offset:
  assumes "c < 0x0FFFFFF7"
  shows "unat (ucast (case t of Fat12 \<Rightarrow> c + c div 2 | Fat16 \<Rightarrow> c * 2 | Fat32 \<Rightarrow> c * 4) :: u64) = fat_byte t c"
proof (cases t)
  case Fat12
  have "unat (c + c div 2) = unat c + unat c div 2" using assms by (subst unat_add_small) (simp_all add: unat_div word_less_nat_alt)
  then show ?thesis using Fat12 by (simp add: fat_byte_def unat_u32_u64)
qed (use assms in \<open>simp_all add: fat_byte_def unat_u32_u64 unat_word_ariths word_less_nat_alt\<close>)

lemma seek_behind:
  assumes "ok d" "length (ds_img img d) \<le> unat q"
  shows "(\<exists>e. sk (disk_slice S) (SeekStart q) d = Some (Inl e, d)) \<or>
    (\<exists>d'. sk (disk_slice S) (SeekStart q) d = Some (Inr q, d') \<and> ok d' \<and> ds_img img d' = ds_img img d \<and> ds_at d' = Some (length (ds_img img d)))"
proof (cases "length (ds_img img d) = unat q")
  case True
  then show ?thesis using ds.seek_start [OF assms(1), of q] by auto
next
  case False
  then have "ds_size d < q" using assms sizes(5) [OF assms(1)] by (simp add: word_less_nat_alt)
  then show ?thesis by (simp add: disk_slice_def ds_seek_def)
qed

lemma read_at_end:
  assumes "ok d" "ds_at d = Some (length (ds_img img d))" "0 < n"
  shows "\<exists>d'. read_exact (disk_slice S) n d = Some (Inl Fat_UnexpectedEof, d') \<and> ok d' \<and> ds_img img d' = ds_img img d"
proof -
  obtain k d' where d': "rd (disk_slice S) n d = Some (Inr (take k (drop (length (ds_img img d)) (ds_img img d))), d')" "ok d'" "ds_img img d' = ds_img img d"
    using ds.reads [OF assms(1,2), of n] by blast
  then show ?thesis using assms(3) by (auto simp: read_exact_def read_exact_loop.simps disk_slice_def)
qed

lemma write_at_end:
  assumes "ok d" "ds_at d = Some (length (ds_img img d))" "bs \<noteq> []"
  shows "write_all (disk_slice S) bs d = Some (Inl Fat_WriteZero, d)"
proof -
  have "ds_offset d = ds_size d" using assms(2) sizes(5) [OF assms(1)] by (simp add: ds_at_def word_unat_eq_iff)
  then show ?thesis using assms(3) by (simp add: write_all.simps [of _ bs] disk_slice_def ds_write_def)
qed

lemma entry_behind:
  assumes "ok d" "c < 0x0FFFFFF7" "length (ds_img img d) \<le> fat_byte t c"
  shows "\<exists>e d'. read_fat (disk_slice S) t c d = Some (Inl e, d') \<and> ok d' \<and> ds_img img d' = ds_img img d"
    "\<exists>e d'. write_fat (disk_slice S) t c v d = Some (Inl e, d') \<and> ok d' \<and> ds_img img d' = ds_img img d"
proof -
  note sb = seek_behind [OF assms(1), of "ucast (case t of Fat12 \<Rightarrow> c + c div 2 | Fat16 \<Rightarrow> c * 2 | Fat32 \<Rightarrow> c * 4)", unfolded entry_offset [OF assms(2)], OF assms(3)]
  have rd: "\<exists>d'. read_exact (disk_slice S) n d1 = Some (Inl Fat_UnexpectedEof, d') \<and> ok d' \<and> ds_img img d' = ds_img img d"
    if "ok d1" "ds_img img d1 = ds_img img d" "ds_at d1 = Some (length (ds_img img d))" "0 < n" for d1 n
    using read_at_end [of d1 n] that by simp
  show "\<exists>e d'. read_fat (disk_slice S) t c d = Some (Inl e, d') \<and> ok d' \<and> ds_img img d' = ds_img img d"
    using sb assms(1)
  proof (elim disjE exE conjE)
    fix d1 assume d1: "sk (disk_slice S) (SeekStart (ucast (case t of Fat12 \<Rightarrow> c + c div 2 | Fat16 \<Rightarrow> c * 2 | Fat32 \<Rightarrow> c * 4))) d =
      Some (Inr (ucast (case t of Fat12 \<Rightarrow> c + c div 2 | Fat16 \<Rightarrow> c * 2 | Fat32 \<Rightarrow> c * 4)), d1)" "ok d1" "ds_img img d1 = ds_img img d" "ds_at d1 = Some (length (ds_img img d))"
    show ?thesis using d1(1) rd [OF d1(2-4), of 2] rd [OF d1(2-4), of 4]
      by (cases t) (auto simp: read_fat_def fat12_get_def fat12_get_raw_def fat12_offset_def fat16_get_def fat16_get_raw_def fat32_get_def fat32_get_raw_def
        read_u16_le_def read_u32_le_def)
  qed (cases t; auto simp: read_fat_def fat12_get_def fat12_get_raw_def fat12_offset_def fat16_get_def fat16_get_raw_def fat32_get_def fat32_get_raw_def)
  show "\<exists>e d'. write_fat (disk_slice S) t c v d = Some (Inl e, d') \<and> ok d' \<and> ds_img img d' = ds_img img d"
    using sb assms(1)
  proof (elim disjE exE conjE)
    fix d1 assume d1: "sk (disk_slice S) (SeekStart (ucast (case t of Fat12 \<Rightarrow> c + c div 2 | Fat16 \<Rightarrow> c * 2 | Fat32 \<Rightarrow> c * 4))) d =
      Some (Inr (ucast (case t of Fat12 \<Rightarrow> c + c div 2 | Fat16 \<Rightarrow> c * 2 | Fat32 \<Rightarrow> c * 4)), d1)" "ok d1" "ds_img img d1 = ds_img img d" "ds_at d1 = Some (length (ds_img img d))"
    have "write_u16_le (disk_slice S) n d1 = Some (Inl Fat_WriteZero, d1)" for n
      using write_at_end [OF d1(2)] d1(3,4) by (simp add: write_u16_le_def to_le_bytes_def)
    then show ?thesis using d1 rd [OF d1(2-4), of 2] rd [OF d1(2-4), of 4]
      by (cases t) (auto simp: write_fat_def fat12_set_def fat12_set_raw_def fat12_offset_def fat16_set_def fat16_set_raw_def fat32_set_def fat32_get_raw_def
        read_u16_le_def read_u32_le_def)
  qed (cases t; auto simp: write_fat_def fat12_set_def fat12_set_raw_def fat12_offset_def fat16_set_def fat16_set_raw_def fat32_set_def fat32_get_raw_def)
qed

lemma ci_free_loop_behind:
  assumes "ok d" "c < 0x0FFFFFF7" "length (ds_img img d) \<le> fat_byte t c" "ci_at d t (Some c) it"
  shows "\<exists>e it'. ci_free_loop (disk_slice S) n it = Some (Inl e, it') \<and> ok (ci_fat it') \<and> ds_img img (ci_fat it') = ds_img img d"
proof -
  obtain e d1 where 1: "read_fat (disk_slice S) t c d = Some (Inl e, d1)" "ok d1" "ds_img img d1 = ds_img img d" using entry_behind(1) [OF assms(1-3)] by blast
  obtain e' d2 where "write_fat (disk_slice S) t c FatFree d1 = Some (Inl e', d2)" "ok d2" "ds_img img d2 = ds_img img d"
    using entry_behind(2) [OF 1(2) assms(2), of t FatFree] assms(3) 1(3) by auto
  then show ?thesis using 1(1) assms(4) by (subst ci_free_loop.simps) (auto simp: ci_at_def ci_next_def get_next_cluster_def)
qed

end

interpretation fatdisk: sliced "buf_stream mmd" "buf_inv (dev_inv a z r) dev_img dev_at" "buf_img dev_img dev_at" "buf_at dev_at" "{}" True rest for a z r rest
  by unfold_locales

subsection \<open>The table of a disk image\<close>

text \<open>The table of the disk image in memory from \<open>a\<close> to \<open>z\<close>, behind its buffer: \<open>fat_disk a z r rest d\<close> says that \<open>d\<close> is such a slice, with equal copies, on a disk that
  is \<open>rest\<close> around it and in a memory that is \<open>r\<close> around the image.\<close>

type_synonym fat_slice = "mem_device buf_stream disk_slice"

definition fat_dev :: "(fat_slice, io_error_kind fat_error) stream" where
  "fat_dev = disk_slice (buf_stream mmd)"

definition fat_disk :: "usize \<Rightarrow> usize \<Rightarrow> (usize \<Rightarrow> byte) \<Rightarrow> byte list \<Rightarrow> fat_slice \<Rightarrow> bool" where
  "fat_disk a z r rest d \<longleftrightarrow> ds_inv (buf_inv (dev_inv a z r) dev_img dev_at) (buf_img dev_img dev_at) {} rest d"

definition fat_image :: "fat_slice \<Rightarrow> byte list" where
  "fat_image d = ds_img (buf_img dev_img dev_at) d"

lemmas fat_disk_defs = fat_dev_def fat_disk_def fat_image_def

text \<open>A disk of 32 bytes at address 4096 with two copies of a small FAT16 table, in which the chain of cluster 2 has the clusters 2 and 3. Both
  bytes of the last entry are \<open>e\<close>.\<close>

definition small_memory :: "byte \<Rightarrow> usize \<Rightarrow> byte" where
  "small_memory e x = (if x = 4100 \<or> x = 4116 then 3 else if x = 4102 \<or> x = 4103 \<or> x = 4118 \<or> x = 4119 then e else 0)"

definition small_disk :: "byte \<Rightarrow> fat_slice" where
  "small_disk e = ds_new 0 16 2 (buf_new (mmd_new 4096 4128 (small_memory e)))"

definition small_rest :: "byte \<Rightarrow> byte list" where
  "small_rest e = mem_read (small_memory e) 4096 32"

lemma small_rest_bytes: "small_rest e = [0, 0, 0, 0, 3, 0, e, e, 0, 0, 0, 0, 0, 0, 0, 0, 0, 0, 0, 0, 3, 0, e, e, 0, 0, 0, 0, 0, 0, 0, 0]"
  by (simp add: small_rest_def mem_read_def small_memory_def upt_rec)

lemma small_image: "fat_image (small_disk e) = [0, 0, 0, 0, 3, 0, e, e, 0, 0, 0, 0, 0, 0, 0, 0]"
  using small_rest_bytes by (simp add: fat_image_def small_disk_def ds_new_def ds_copy_def buf_img_def buf_new_def dev_img_def mmd_new_def small_rest_def)

lemma nat_less_2_cases: "i < (2 :: nat) \<Longrightarrow> i = 0 \<or> i = 1"
  by auto

lemma small_disk_ok: "fat_disk 4096 4128 (small_memory e) (small_rest e) (small_disk e)"
proof -
  have img: "buf_img dev_img dev_at (buf_new (mmd_new 4096 4128 (small_memory e))) = small_rest e"
    by (simp add: buf_img_def buf_new_def dev_img_def mmd_new_def small_rest_def)
  have "buf_inv (dev_inv 4096 4128 (small_memory e)) dev_img dev_at (buf_new (mmd_new 4096 4128 (small_memory e)))"
    by (simp add: buf_new_def mmd_new_def buf_inv_def dev_inv_def dev_at_def)
  then show ?thesis
    using nat_less_2_cases unfolding fat_disk_def ds_inv_def small_disk_def
    by (force simp: ds_new_def ds_copy_def ds_region_def img small_rest_bytes)
qed

lemma small_entries:
  "fat_entry Fat16 (fat_image (small_disk e)) 2 = FatData 3" "fat_entry Fat16 (fat_image (small_disk 255)) 3 = FatEndOfChain" "fat_entry Fat16 (fat_image (small_disk 1)) 3 = FatData 257"
  "fat_entry Fat16 (fat_image (small_disk e)) 4 = FatFree"
  unfolding small_image by (simp_all add: fat_entry_def fat_decode_def fat_val_def from_le_bytes_def fat16_decode_def)

lemma small_chosen:
  assumes "chosen_cluster Fat16 xs 2 6 res" "fat_entry Fat16 xs 2 = FatData 3" "fat_entry Fat16 xs 3 = FatEndOfChain" "fat_entry Fat16 xs 4 = FatFree"
  shows "res = Inr 4"
proof -
  have "\<not> first_free Fat16 xs 2 6 (Inl Fat_NotEnoughSpace :: 'a fat_error + u32)"
    using assms(4) by (auto simp: first_free_def intro!: exI [of _ "4 :: u32"])
  then obtain d where d: "res = Inr d" "2 \<le> d" "d < 6" "fat_entry Fat16 xs d = FatFree" "\<forall>x. 2 \<le> x \<and> x < d \<longrightarrow> fat_entry Fat16 xs x \<noteq> FatFree"
    using assms(1) by (auto simp: chosen_cluster_def first_free_def)
  have "d \<noteq> 2" "d \<noteq> 3" "\<not> 4 < d" using d(4,5) assms(2-4) by auto
  then have "unat d \<noteq> 2" "unat d \<noteq> 3" "unat d \<le> 4" "2 \<le> unat d" using d(2) by (auto simp: word_unat_eq_iff word_le_nat_alt word_less_nat_alt)
  then have "unat d = unat (4 :: u32)" by simp
  then show ?thesis unfolding d(1) by (simp only: word_unat_eq_iff [symmetric])
qed

text \<open>C18: Allocation of a cluster. On a table for at least one cluster, \<^verbatim>\<open>alloc_cluster\<close> returns. It takes the first free cluster from the hint on, or else the
  first free one before the hint, marks it as the end of a chain, links it to the previous cluster if there is one, and changes no other entry. If no
  cluster is free it fails with \<^verbatim>\<open>NotEnoughSpace\<close> and changes nothing. The copies of the table stay equal and the disk around them stays as it is.\<close>

theorem fat_alloc_first_free:
  assumes "fat_disk a z r rest d" "fat_table_ok t (fat_image d) tot" "tot \<noteq> 0"
    "\<forall>n. hint = Some n \<longrightarrow> RESERVED_FAT_ENTRIES \<le> n" "\<forall>p. prev = Some p \<longrightarrow> fat_fits t (fat_image d) p"
  shows "\<exists>res d'. alloc_cluster fat_dev t prev hint tot d = Some (res, d') \<and> fat_disk a z r rest d' \<and>
    chosen_cluster t (fat_image d) (case hint of Some n \<Rightarrow> if n < tot + RESERVED_FAT_ENTRIES then n else RESERVED_FAT_ENTRIES | None \<Rightarrow> RESERVED_FAT_ENTRIES)
      (tot + RESERVED_FAT_ENTRIES) res \<and>
    (case res of
       Inl e \<Rightarrow> fat_image d' = fat_image d
     | Inr n \<Rightarrow> fat_updated t (case prev of Some p \<Rightarrow> [n \<mapsto> FatEndOfChain, p \<mapsto> FatData n] | None \<Rightarrow> [n \<mapsto> FatEndOfChain]) (fat_image d) (fat_image d'))"
  using fatdisk.fat.alloc_cluster_ok [of a z r rest d t tot _ hint prev] assms unfolding fat_disk_defs by blast

theorem fat_alloc_first_free_witness:
  "\<exists>d'. alloc_cluster fat_dev Fat16 (Some 3) None 4 (small_disk 255) = Some (Inr 4, d') \<and>
    fat_entry Fat16 (fat_image d') 3 = FatData 4 \<and> fat_entry Fat16 (fat_image d') 4 = FatEndOfChain \<and> fat_entry Fat16 (fat_image d') 2 = FatData 3"
proof -
  obtain res d' where d: "alloc_cluster fat_dev Fat16 (Some 3) None 4 (small_disk 255) = Some (res, d')"
    "chosen_cluster Fat16 (fat_image (small_disk 255)) 2 6 res"
    "case res of Inl e \<Rightarrow> fat_image d' = fat_image (small_disk 255)
      | Inr n \<Rightarrow> fat_updated Fat16 [n \<mapsto> FatEndOfChain, 3 \<mapsto> FatData n] (fat_image (small_disk 255)) (fat_image d')"
    using fat_alloc_first_free [OF small_disk_ok [of 255], where t = Fat16 and tot = 4 and hint = None and prev = "Some 3"] unfolding option.case
    by (auto simp: small_image fat_table_ok_def fat_limit_def fat_fits_def RESERVED_FAT_ENTRIES_def)
  have "res = Inr 4" by (rule small_chosen [OF d(2) small_entries(1,2,4)])
  then show ?thesis using d(1,3) small_entries by (auto simp: fat_updated_def fat_fits_def small_image)
qed

text \<open>C19: Freeing a chain of clusters. Along a chain without repetition, \<^verbatim>\<open>ClusterIterator::free\<close> returns the length of the chain and marks exactly its clusters as free;
  \<^verbatim>\<open>truncate\<close> keeps the first cluster as the end of the chain, frees the others and returns how many these are.\<close>

theorem fat_chain_freed:
  assumes "fat_disk a z r rest d" "fat_chain t (fat_image d) (c # cs)" "distinct (c # cs)"
  shows "(\<exists>it. ci_free fat_dev (ci_new d t c) = Some (Inr (of_nat (length (c # cs))), it) \<and> fat_disk a z r rest (ci_fat it) \<and>
      fat_updated t (\<lambda>x. if x \<in> set (c # cs) then Some FatFree else None) (fat_image d) (fat_image (ci_fat it))) \<and>
    (\<exists>it. ci_truncate fat_dev (ci_new d t c) = Some (Inr (of_nat (length cs)), it) \<and> fat_disk a z r rest (ci_fat it) \<and>
      fat_updated t (\<lambda>x. if x = c then Some FatEndOfChain else if x \<in> set cs then Some FatFree else None) (fat_image d) (fat_image (ci_fat it)))"
proof
  have path: "fat_path t (ds_img (buf_img dev_img dev_at) d) (Some c) (c # cs) None" using assms(2) by (simp only: fat_chain_path fat_image_def)
  note d = assms(1) [unfolded fat_disk_def]
  show "\<exists>it. ci_free fat_dev (ci_new d t c) = Some (Inr (of_nat (length (c # cs))), it) \<and> fat_disk a z r rest (ci_fat it) \<and>
      fat_updated t (\<lambda>x. if x \<in> set (c # cs) then Some FatFree else None) (fat_image d) (fat_image (ci_fat it))"
    using fatdisk.fat.ci_free_loop_path [OF d path assms(3) ci_at_new, of 0] fatdisk.fat.ci_free_loop_end
    unfolding fat_disk_defs ci_free_def by (fastforce simp: ci_at_def)
  show "\<exists>it. ci_truncate fat_dev (ci_new d t c) = Some (Inr (of_nat (length cs)), it) \<and> fat_disk a z r rest (ci_fat it) \<and>
      fat_updated t (\<lambda>x. if x = c then Some FatEndOfChain else if x \<in> set cs then Some FatFree else None) (fat_image d) (fat_image (ci_fat it))"
    using fatdisk.fat.ci_truncate_path [OF d path assms(3)] fatdisk.fat.ci_free_loop_end unfolding fat_disk_defs by (fastforce simp: ci_at_def)
qed

theorem fat_chain_freed_witness:
  "(\<exists>it. ci_free fat_dev (ci_new (small_disk 255) Fat16 2) = Some (Inr 2, it) \<and>
      fat_entry Fat16 (fat_image (ci_fat it)) 2 = FatFree \<and> fat_entry Fat16 (fat_image (ci_fat it)) 3 = FatFree) \<and>
    (\<exists>it. ci_truncate fat_dev (ci_new (small_disk 255) Fat16 2) = Some (Inr 1, it) \<and>
      fat_entry Fat16 (fat_image (ci_fat it)) 2 = FatEndOfChain \<and> fat_entry Fat16 (fat_image (ci_fat it)) 3 = FatFree)"
proof -
  have fits: "fat_fits Fat16 (fat_image (small_disk 255)) 2" "fat_fits Fat16 (fat_image (small_disk 255)) 3" by (simp_all add: small_image fat_fits_def)
  then have "fat_chain Fat16 (fat_image (small_disk 255)) [2, 3]" by (simp add: small_entries)
  from fat_chain_freed [OF small_disk_ok this] fits show ?thesis unfolding fat_updated_def by fastforce
qed

text \<open>C20: Freeing a chain that leaves the table. When the last link of a chain points to a cluster whose entry lies behind the table, \<^verbatim>\<open>ClusterIterator::free\<close>
  still marks the clusters of the chain as free, and then fails: it returns an error, and no entry other than those of the chain changes. \<^verbatim>\<open>truncate\<close> fails in the same
  way, after it has kept the first cluster as the end of the chain and freed the others.\<close>

theorem fat_broken_chain_freed:
  assumes "fat_disk a z r rest d" "fat_path t (fat_image d) (Some c) (c # cs) (Some e)" "distinct (c # cs)" "length (fat_image d) \<le> fat_byte t e"
  shows "(\<exists>err it. ci_free fat_dev (ci_new d t c) = Some (Inl err, it) \<and> fat_disk a z r rest (ci_fat it) \<and>
      fat_updated t (\<lambda>x. if x \<in> set (c # cs) then Some FatFree else None) (fat_image d) (fat_image (ci_fat it))) \<and>
    (\<exists>err it. ci_truncate fat_dev (ci_new d t c) = Some (Inl err, it) \<and> fat_disk a z r rest (ci_fat it) \<and>
      fat_updated t (\<lambda>x. if x = c then Some FatEndOfChain else if x \<in> set cs then Some FatFree else None) (fat_image d) (fat_image (ci_fat it)))"
proof
  note d = assms(1) [unfolded fat_disk_def] and path = assms(2) [unfolded fat_image_def]
  let ?ok = "ds_inv (buf_inv (dev_inv a z r) dev_img dev_at) (buf_img dev_img dev_at) {} rest" and ?img = "ds_img (buf_img dev_img dev_at)"
  have stop: "\<exists>err it'. ci_free_loop (disk_slice (buf_stream mmd)) n it = Some (Inl err, it') \<and> ?ok (ci_fat it') \<and> fat_updated t upd (?img d) (?img (ci_fat it'))"
    if "?ok s" "ci_at s t (Some e) it" "fat_updated t upd (?img d) (?img s)" for s it n upd
    using fatdisk.ci_free_loop_behind [OF that(1) fat_path_end [OF path] _ that(2), of n] that(3) assms(4) unfolding fat_image_def by (fastforce simp: fat_updated_def)
  show "\<exists>err it. ci_free fat_dev (ci_new d t c) = Some (Inl err, it) \<and> fat_disk a z r rest (ci_fat it) \<and>
      fat_updated t (\<lambda>x. if x \<in> set (c # cs) then Some FatFree else None) (fat_image d) (fat_image (ci_fat it))"
    using fatdisk.fat.ci_free_loop_path [OF d path assms(3) ci_at_new, of 0] stop unfolding fat_disk_defs ci_free_def by (elim exE conjE) simp
  show "\<exists>err it. ci_truncate fat_dev (ci_new d t c) = Some (Inl err, it) \<and> fat_disk a z r rest (ci_fat it) \<and>
      fat_updated t (\<lambda>x. if x = c then Some FatEndOfChain else if x \<in> set cs then Some FatFree else None) (fat_image d) (fat_image (ci_fat it))"
    using fatdisk.fat.ci_truncate_path [OF d path assms(3)] stop unfolding fat_disk_defs by (elim exE conjE) simp
qed

theorem fat_broken_chain_freed_witness:
  "\<exists>err it. ci_free fat_dev (ci_new (small_disk 1) Fat16 2) = Some (Inl err, it) \<and>
    fat_entry Fat16 (fat_image (ci_fat it)) 2 = FatFree \<and> fat_entry Fat16 (fat_image (ci_fat it)) 3 = FatFree"
proof -
  have fits: "fat_fits Fat16 (fat_image (small_disk 1)) 2" "fat_fits Fat16 (fat_image (small_disk 1)) 3" by (simp_all add: small_image fat_fits_def)
  then have path: "fat_path Fat16 (fat_image (small_disk 1)) (Some 2) [2, 3] (Some 257)" by (simp add: fat_next_def small_entries)
  have "length (fat_image (small_disk 1)) \<le> fat_byte Fat16 257" by (simp add: small_image fat_byte_def)
  from fat_broken_chain_freed [OF small_disk_ok path _ this] fits show ?thesis unfolding fat_updated_def by fastforce
qed

text \<open>The free clusters are counted exactly.\<close>

lemma fat_count_free_exact:
  assumes "fat_disk a z r rest d" "fat_table_ok t (fat_image d) tot" "tot \<noteq> 0"
  shows "\<exists>d'. count_free_clusters fat_dev t tot d = Some (Inr (of_nat (free_count t (fat_image d) RESERVED_FAT_ENTRIES (tot + RESERVED_FAT_ENTRIES))), d') \<and>
    fat_disk a z r rest d' \<and> fat_image d' = fat_image d"
  using fatdisk.fat.count_free_ok [of a z r rest d t tot] assms unfolding fat_disk_defs by blast

end
