(* ===== verification/Spec2Isabelle.thy ===== *)
theory Spec2Isabelle
  imports Prelude BTree Range_Map Bitmap Allocators Fd_Manager Addr Page_Table Base_File Areas Vmm Page_Bytes Virt_File Pipe Signals Timer Coherence Address_Space
    Scheduler Testcases Tasks Delivery Syscalls Processes Process_Calls Process_Steps Process_Theorems Locks Rw_Lock Storage Disk_Slice Fat_Table Fat_Entries Fat_Chains
begin

text \<open>
  \<^bold>\<open>A verification of the core of the Maturin kernel\<close>

  Maturin is a Rust kernel for 64-bit RISC-V (\<^verbatim>\<open>kernel\<close>), with parts factored into crates (\<^verbatim>\<open>modules\<close>) and a few dependencies in
  the repository (\<^verbatim>\<open>dependencies\<close>, \<^verbatim>\<open>modified_dependencies\<close>), all under \<^verbatim>\<open>src\<close>. This development models its memory management, file
  descriptors, in-memory files and pipes, signals, time keeping, scheduling, tasks, system calls of processes, traps, locks, and the disk image with its
  allocation table, as functions translated from the source, and proves what they promise.

  \<^bold>\<open>How the parts interact.\<close> A task enters the kernel by a trap (\<^verbatim>\<open>trap/mod.rs\<close>), which dispatches a system call or handles a page fault. The calls act on
  the current task (\<^verbatim>\<open>task/task.rs\<close>): on its memory set (an interval map of areas over a page table, whose pages come from the frame allocator), on its
  descriptor table (whose entries are files and pipes), and on its signal receivers. Before the return to user mode signals are delivered; a task that
  yields, waits or exits goes back to the loop of \<^verbatim>\<open>run_tasks\<close>, which takes the next task from the scheduler and reaps those that ended.

  \<^bold>\<open>Conventions.\<close> \<^verbatim>\<open>usize\<close> is a 64-bit word. The kernel is built in release mode with the feature \<^verbatim>\<open>sifive\<close>, so arithmetic wraps and
  \<^verbatim>\<open>debug_assert\<close> is off. A call that may panic returns an option and \<open>None\<close> is the panic (failed \<^verbatim>\<open>unwrap\<close> or \<^verbatim>\<open>assert\<close>, index out of
  bounds); \<^verbatim>\<open>OSResult\<close> is a sum type. Mutable state, including the statics, is passed and returned. The locks are modelled by themselves; elsewhere an
  operation under a lock is one step, and interleavings are sequences of such steps. \<^verbatim>\<open>Drop\<close> is an explicit operation. TLB flushes,
  logging and assembly are left out. Code outside the repository is an argument: the \<^verbatim>\<open>bit_field\<close> crate (\<open>bit_field16\<close>, with its
  documented behaviour as \<open>bit_field_ok\<close>), the time register, and the program loader. Files are a parameter where they are only used: the theorems on address
  spaces assume that the operations of mapped files return and leave the memory of the machine alone (\<open>files_apart\<close>), which is not so for a mapped \<^verbatim>\<open>VirtFile\<close>;
  what happens when the last reference to a file is dropped with a descriptor table is \<open>e_drop_files\<close>, and the references that areas hold are not counted.

  \<^bold>\<open>The theories and the code they model.\<close>
  \<^item> \<open>Prelude\<close>: outcomes, errors (\<^verbatim>\<open>kernel/src/error.rs\<close>), words. \<open>BTree\<close>: the \<^verbatim>\<open>BTreeMap\<close> operations the kernel uses, on sorted association
    lists.
  \<^item> \<open>Range_Map\<close>: \<^verbatim>\<open>modules/range-action-map\<close>, the interval map under every address space. Its client interface is the locale
    \<open>segment\<close> (what a segment must do when it is split, removed or modified) and \<open>segment_world\<close> (the same with an invariant of the
    world the segments act on). \<^verbatim>\<open>unmap\<close>, \<^verbatim>\<open>mprotect\<close>, \<^verbatim>\<open>mmap_fixed\<close>, \<^verbatim>\<open>mmap_anywhere\<close>, \<^verbatim>\<open>find\<close> refine operations on partial functions.
  \<^item> \<open>Bitmap\<close>: \<^verbatim>\<open>dependencies/bitmap-allocator\<close>; a locale of bitmap allocators that the leaf satisfies and the cascade preserves, so
    that all five sizes implement finite sets. \<open>Allocators\<close>: page frames (\<^verbatim>\<open>modules/maturin-page-frame\<close>), thread ids and descriptor
    numbers (\<^verbatim>\<open>kernel/src/memory/allocator\<close>). \<open>Fd_Manager\<close>: \<^verbatim>\<open>kernel/src/file/fd_manager.rs\<close>.
  \<^item> \<open>Addr\<close>, \<open>Page_Table\<close>: \<^verbatim>\<open>kernel/src/memory/addr.rs\<close>, \<^verbatim>\<open>page_table.rs\<close>; the Sv39 table as bytes of physical memory. \<open>pt_wf bf m K pt\<close> says
    that the table is a tree of allocated frames apart from the frames \<open>K\<close> in use elsewhere, and \<open>pt_lookup\<close> is the translation.
  \<^item> \<open>Base_File\<close>, \<open>Areas\<close>, \<open>Vmm\<close>: \<^verbatim>\<open>modules/base-file\<close>, \<^verbatim>\<open>kernel/src/file/backend.rs\<close>, \<^verbatim>\<open>memory/areas\<close>, \<^verbatim>\<open>memory/vmm.rs\<close>, \<^verbatim>\<open>memory/user\<close>: areas
    with fixed or lazily allocated pages, memory sets, fork and drop, the kernel's own mappings.
  \<^item> \<open>Coherence\<close>, \<open>Address_Space\<close>: areas, page table and page frames agree. The interpretation \<open>vmw\<close> discharges the laws of \<open>segment_world\<close> for
    areas; \<^verbatim>\<open>munmap\<close>, \<^verbatim>\<open>mprotect\<close>, \<^verbatim>\<open>mmap\<close> and the page fault handler are then exact operations on the address space.
  \<^item> \<open>Page_Bytes\<close>, \<open>Virt_File\<close>, \<open>Pipe\<close>: files stored in page frames (\<^verbatim>\<open>kernel/src/file/vfs/virt_file.rs\<close>), \<^verbatim>\<open>kernel/src/file/pipe.rs\<close>. The ring buffer
    refines a bounded queue, under any interleaving of readers and writers.
  \<^item> \<open>Signals\<close>, \<open>Timer\<close>, \<open>Scheduler\<close>: \<^verbatim>\<open>modules/bitset\<close>, \<^verbatim>\<open>kernel/src/signal\<close>, \<^verbatim>\<open>modules/timer\<close>, \<^verbatim>\<open>kernel/src/task/time_stat.rs\<close>,
    \<^verbatim>\<open>task/scheduler.rs\<close>, \<^verbatim>\<open>syscall/futex\<close>.
  \<^item> \<open>Testcases\<close>: the command lines and results of the test runner in \<^verbatim>\<open>kernel/src/file/device/test.rs\<close>.
  \<^item> \<open>Tasks\<close>: \<^verbatim>\<open>kernel/src/task\<close> and \<^verbatim>\<open>trap/context.rs\<close>. The record \<open>kernel\<close> holds the task control blocks by address, what each owns and how often it is
    referred to, and the statics; clone, exec, exit, \<^verbatim>\<open>handle_zombie_task\<close>, \<^verbatim>\<open>waitpid\<close> and the loop of \<^verbatim>\<open>run_tasks\<close> act on it.
  \<^item> \<open>Delivery\<close>: \<^verbatim>\<open>handle_signals\<close> with the frames it writes to the user stack, \<^verbatim>\<open>signal_return\<close>, and the system calls on signals. \<open>Syscalls\<close>:
    the dispatch of \<^verbatim>\<open>syscall/mod.rs\<close>, the calls of \<^verbatim>\<open>syscall/process.rs\<close>, \<^verbatim>\<open>syscall/futex\<close>, and \<^verbatim>\<open>trap/mod.rs\<close>.
  \<^item> \<open>Processes\<close>, \<open>Process_Calls\<close>, \<open>Process_Steps\<close>, \<open>Process_Theorems\<close>: the invariant of the processes (the tasks form a forest, each is in one scheduling
    state, references are counted, thread ids in use are those of the tasks), first for the single operations, then for the system calls, then for
    every step of the kernel; the theorems on reachable states.
  \<^item> \<open>Locks\<close>, \<open>Rw_Lock\<close>: \<^verbatim>\<open>dependencies/kernel-sync\<close>. Every atomic access is a step of a core and the cores interleave. The locale \<open>mutex_machine\<close> derives
    mutual exclusion from an inductive invariant; the ticket lock and the spin lock interpret it. A core has at most one guard of an \<^verbatim>\<open>RwLock\<close> at a time.
  \<^item> \<open>Storage\<close>, \<open>Disk_Slice\<close>: the I/O traits of \<^verbatim>\<open>rust-fatfs/src/io.rs\<close>, the disk image in memory (\<^verbatim>\<open>kernel/src/drivers/memory/device.rs\<close>), its buffer
    (\<^verbatim>\<open>modified_dependencies/fscommon/src/buf_stream.rs\<close>) and the slices of \<^verbatim>\<open>rust-fatfs/src/fs.rs\<close>, which write several copies. A layer is a record of operations, and the
    locale \<open>storage\<close> says that it is an array of bytes with a position; the device interprets it, and by sublocales a buffer (\<open>buffered\<close>) and a slice
    (\<open>sliced\<close>) of a storage is a storage again.
  \<^item> \<open>Fat_Table\<close>, \<open>Fat_Entries\<close>, \<open>Fat_Chains\<close>: \<^verbatim>\<open>rust-fatfs/src/table.rs\<close>. Any storage has the entries of a table in its bytes (locale \<open>fat_storage\<close>); reading and writing one
    entry, the searches, allocation and the chains of clusters are exact operations on these.

  \<^bold>\<open>What is shown.\<close> Each theory states its components' functional behaviour on every branch, and the invariants its operations
  keep. Where the code does not do what it is meant to do, a theorem states what it does instead (descriptors leaked by \<^verbatim>\<open>exec\<close>,
  the limit test of \<^verbatim>\<open>find_free_area\<close>, reads behind the end of a file, signals lost after an ignored one, tasks that a signal ends and that are never freed, guards of \<^verbatim>\<open>RwLock\<close> that panic, and others).

  \<^bold>\<open>Bounds.\<close> Loops over lists and page ranges are structural. \<^verbatim>\<open>Pipe::read\<close> and \<^verbatim>\<open>write\<close> count their own attempts. The idle loop of the
  scheduler is a \<open>partial_function\<close>, since it may wait forever; that it returns is a theorem. \<^verbatim>\<open>read_exact\<close>, \<^verbatim>\<open>write_all\<close> and the
  freeing of a chain of clusters are \<open>partial_function\<close>s too: the theorems say what they return on the disk image, for broken chains, too. The loops of the locks are step relations. No fuel is used. The
  ticket lock is correct for \<open>2\<^sup>6\<^sup>4\<close> atomic steps, before the counter of tickets wraps.

  \<^bold>\<open>Not modelled.\<close> Code whose behaviour is device or console I/O (drivers, console, SBI calls), start-up and trap assembly, the
  ELF loader (it rests on a crate that is not in the repository), the boot sector, directories and files of the FAT file system with the paths and links on them, sockets, \<^verbatim>\<open>epoll\<close>, \<^verbatim>\<open>poll\<close> and \<^verbatim>\<open>select\<close>, the
  system calls of \<^verbatim>\<open>syscall/fs.rs\<close> (a parameter of the dispatch), the host tools, and the copies of the \<^verbatim>\<open>log\<close> and \<^verbatim>\<open>core2\<close> crates, except the operations of \<^verbatim>\<open>core2\<close> that the storage uses.
\<close>

end
